(* ===== verification/Prelude.thy ===== *)
theory Prelude
  imports Main "HOL-Library.Word" "HOL-Library.Monad_Syntax" "HOL-Library.Multiset"
begin

text \<open>
  The shared ground of the development: C integers, C strings, and a flat byte memory with
  typed accessors.

  \<^item> A C \<open>int\<close> is an HOL \<open>int\<close>; every conversion or store that can lose bits goes
    through \<open>cint\<close>, the wrap to 32 bits. \<open>cdiv\<close> and \<open>cmod\<close> round towards zero.
  \<^item> A byte is an \<open>8 word\<close>; a C string is an Isabelle \<open>string\<close> without its final NUL.
  \<^item> A memory maps byte addresses to bytes. \<open>typed_access\<close> is the interface of a typed
    field of the memory (how a read sees a write, which bytes a write touches); it is
    interpreted for bytes and for little-endian 32-bit integers, and its lemmas on disjoint
    fields and array elements carry the frame reasoning of the components.
\<close>

unbundle bit_operations_syntax

named_theorems mem_simps \<open>reads over writes\<close>
named_theorems frame_intros \<open>what an operation leaves unchanged\<close>

type_synonym byte = "8 word"
type_synonym mem = "int \<Rightarrow> byte"

section \<open>C integers\<close>

definition cint :: "int \<Rightarrow> int" where
  "cint v = (v + 2147483648) mod 4294967296 - 2147483648"

definition size_t :: "int \<Rightarrow> int" where
  "size_t v = v mod 18446744073709551616"

definition cdiv :: "int \<Rightarrow> int \<Rightarrow> int" where
  "cdiv a b = sgn a * sgn b * (\<bar>a\<bar> div \<bar>b\<bar>)"

definition cmod :: "int \<Rightarrow> int \<Rightarrow> int" where
  "cmod a b = a - cdiv a b * b"

abbreviation is_cint :: "int \<Rightarrow> bool" where
  "is_cint v \<equiv> - 2147483648 \<le> v \<and> v < 2147483648"

lemma cint_id [simp]: "is_cint v \<Longrightarrow> cint v = v"
  by (simp add: cint_def)

lemma cint_range: "is_cint (cint v)"
  by (simp add: cint_def)

lemma cint_cint [simp]: "cint (cint v) = cint v"
  by (rule cint_id [OF cint_range])

lemma cint_mod: "cint (v mod 4294967296) = cint v"
  by (simp add: cint_def mod_simps)

lemma size_t_id [simp]: "0 \<le> v \<Longrightarrow> v < 18446744073709551616 \<Longrightarrow> size_t v = v"
  by (simp add: size_t_def)

lemma size_t_nonneg [simp]: "0 \<le> size_t v"
  by (simp add: size_t_def)

lemma cdiv_nonneg [simp]: "0 \<le> a \<Longrightarrow> 0 < b \<Longrightarrow> cdiv a b = a div b"
  by (cases "a = 0") (auto simp: cdiv_def)

lemma cmod_nonneg [simp]: "0 \<le> a \<Longrightarrow> 0 < b \<Longrightarrow> cmod a b = a mod b"
  by (simp add: cmod_def minus_div_mult_eq_mod)

section \<open>Characters and bytes\<close>

definition byte_of :: "char \<Rightarrow> byte" where
  "byte_of c = of_nat (of_char c)"

definition char_of_byte :: "byte \<Rightarrow> char" where
  "char_of_byte b = char_of (unat b)"

abbreviation NUL :: char where
  "NUL \<equiv> CHR 0x00"

lemma unat_byte_of: "unat (byte_of c) = of_char c"
proof -
  have "(of_char c :: nat) < 256" by simp
  then show ?thesis
    by (simp add: byte_of_def unat_of_nat)
qed

lemma char_of_byte_of [simp]: "char_of_byte (byte_of c) = c"
  by (simp add: char_of_byte_def unat_byte_of)

lemma byte_of_char_of_byte [simp]: "byte_of (char_of_byte b) = b"
proof -
  have "unat b < 2 ^ 8" using unsigned_less [of b, where 'a = nat] by simp
  then show ?thesis by (simp add: byte_of_def char_of_byte_def)
qed

lemma byte_of_inject [simp]: "byte_of c = byte_of d \<longleftrightarrow> c = d"
  by (metis char_of_byte_of)

lemma byte_of_NUL [simp]: "byte_of NUL = 0"
  by (simp add: byte_of_def)

lemma byte_of_eq_0 [simp]: "byte_of c = 0 \<longleftrightarrow> c = NUL"
  using byte_of_inject [of c NUL] by simp

lemma char_of_byte_0 [simp]: "char_of_byte 0 = NUL"
  using char_of_byte_of [of NUL] by (simp only: byte_of_NUL)

section \<open>Typed memory access\<close>

text \<open>
  What the code relies on when it reads and writes a field through a typed pointer: a read of
  the field just written gives the value (cut to the field's type), a write touches only the
  field's own bytes, and a read depends only on those bytes.
\<close>

locale typed_access =
  fixes rd :: "mem \<Rightarrow> int \<Rightarrow> 'a"
    and wr :: "mem \<Rightarrow> int \<Rightarrow> 'a \<Rightarrow> mem"
    and width :: int
    and norm :: "'a \<Rightarrow> 'a"
  assumes width_pos: "0 < width"
    and rd_wr_same: "rd (wr m a v) a = norm v"
    and wr_frame: "x < a \<or> a + width \<le> x \<Longrightarrow> wr m a v x = m x"
    and rd_cong: "(\<And>x. a \<le> x \<Longrightarrow> x < a + width \<Longrightarrow> m x = m' x) \<Longrightarrow> rd m a = rd m' a"
begin

lemma rd_wr_disjoint: "b + width \<le> a \<or> a + width \<le> b \<Longrightarrow> rd (wr m a v) b = rd m b"
  by (rule rd_cong, rule wr_frame) auto

lemma rd_wr_array:
  assumes "i \<noteq> j"
  shows "rd (wr m (base + i * width) v) (base + j * width) = rd m (base + j * width)"
proof (rule rd_wr_disjoint)
  consider "i + 1 \<le> j" | "j + 1 \<le> i" using assms by linarith
  then show "base + j * width + width \<le> base + i * width \<or> base + i * width + width \<le> base + j * width"
  proof cases
    case 1
    then have "(i + 1) * width \<le> j * width" using width_pos by (intro mult_right_mono) auto
    then show ?thesis by (simp add: algebra_simps)
  next
    case 2
    then have "(j + 1) * width \<le> i * width" using width_pos by (intro mult_right_mono) auto
    then show ?thesis by (simp add: algebra_simps)
  qed
qed

end

definition rd8 :: "mem \<Rightarrow> int \<Rightarrow> byte" where
  "rd8 m a = m a"

definition wr8 :: "mem \<Rightarrow> int \<Rightarrow> byte \<Rightarrow> mem" where
  "wr8 m a b = m(a := b)"

definition rd32 :: "mem \<Rightarrow> int \<Rightarrow> int" where
  "rd32 m a = cint (uint (m a) + 256 * uint (m (a + 1)) + 65536 * uint (m (a + 2))
                    + 16777216 * uint (m (a + 3)))"

definition wr32 :: "mem \<Rightarrow> int \<Rightarrow> int \<Rightarrow> mem" where
  "wr32 m a v = m(a := word_of_int v, a + 1 := word_of_int (v div 256),
                  a + 2 := word_of_int (v div 65536), a + 3 := word_of_int (v div 16777216))"

lemma uint_byte: "uint (word_of_int v :: byte) = v mod 256"
  by (simp add: uint_word_of_int)

lemma bytes_of_int:
  fixes v :: int
  shows "v mod 256 + 256 * (v div 256 mod 256) + 65536 * (v div 65536 mod 256)
         + 16777216 * (v div 16777216 mod 256) = v mod 4294967296"
proof -
  have split: "x mod (256 * c) = 256 * (x div 256 mod c) + x mod 256" if "0 \<le> c" for x c :: int
    using that by (rule zmod_zmult2_eq)
  have dv: "v div 65536 = v div 256 div 256" "v div 16777216 = v div 256 div 256 div 256"
    by (simp_all flip: zdiv_zmult2_eq)
  define a b c d where "a = v mod 256" and "b = v div 256 mod 256"
    and "c = v div 256 div 256 mod 256" and "d = v div 256 div 256 div 256 mod 256"
  have "v mod 4294967296 = 256 * (v div 256 mod 16777216) + a"
    using split [of 16777216 v] by (simp add: a_def)
  moreover have "v div 256 mod 16777216 = 256 * (v div 256 div 256 mod 65536) + b"
    using split [of 65536 "v div 256"] by (simp add: b_def)
  moreover have "v div 256 div 256 mod 65536 = 256 * d + c"
    using split [of 256 "v div 256 div 256"] by (simp add: c_def d_def)
  ultimately have "v mod 4294967296 = 256 * (256 * (256 * d + c) + b) + a" by (simp only:)
  then show ?thesis
    unfolding dv a_def [symmetric] b_def [symmetric] c_def [symmetric] d_def [symmetric]
    by (simp only:) simp
qed

lemma rd32_wr32_same: "rd32 (wr32 m a v) a = cint v"
  by (simp add: rd32_def wr32_def uint_byte bytes_of_int cint_mod)

lemma rd32_eq_on:
  "(\<And>x. a \<le> x \<Longrightarrow> x < a + 4 \<Longrightarrow> m x = m' x) \<Longrightarrow> rd32 m a = rd32 m' a"
  by (simp add: rd32_def)

lemma wr32_frame: "x < a \<or> a + 4 \<le> x \<Longrightarrow> wr32 m a v x = m x"
  by (auto simp: wr32_def)

interpretation u8: typed_access rd8 wr8 1 "\<lambda>v. v"
  by unfold_locales (auto simp: rd8_def wr8_def)

interpretation i32: typed_access rd32 wr32 4 cint
  by unfold_locales (auto simp: rd32_wr32_same wr32_frame intro: rd32_eq_on)

lemmas rd32_simps [mem_simps] = i32.rd_wr_same i32.rd_wr_disjoint

section \<open>64-bit fields\<close>

text \<open>A \<open>size_t\<close>, \<open>long\<close> or pointer in memory: eight bytes, read as an unsigned number.\<close>

definition rd64 :: "mem \<Rightarrow> int \<Rightarrow> int" where
  "rd64 m a = rd32 m a mod 4294967296 + 4294967296 * (rd32 m (a + 4) mod 4294967296)"

definition wr64 :: "mem \<Rightarrow> int \<Rightarrow> int \<Rightarrow> mem" where
  "wr64 m a v = wr32 (wr32 m a v) (a + 4) (v div 4294967296)"

lemma cint_mod_32: "cint v mod 4294967296 = v mod 4294967296"
  by (simp add: cint_def mod_diff_left_eq)

lemma rd64_wr64_same: "rd64 (wr64 m a v) a = size_t v"
proof -
  have "rd64 (wr64 m a v) a = v mod 4294967296 + 4294967296 * (v div 4294967296 mod 4294967296)"
    by (simp add: rd64_def wr64_def mem_simps cint_mod_32)
  also have "\<dots> = v mod (4294967296 * 4294967296)"
    by (subst zmod_zmult2_eq) simp_all
  finally show ?thesis by (simp add: size_t_def)
qed

lemma rd64_eq_on:
  "(\<And>x. a \<le> x \<Longrightarrow> x < a + 8 \<Longrightarrow> m x = m' x) \<Longrightarrow> rd64 m a = rd64 m' a"
  unfolding rd64_def using rd32_eq_on [of a m m'] rd32_eq_on [of "a + 4" m m'] by simp

lemma wr64_frame: "x < a \<or> a + 8 \<le> x \<Longrightarrow> wr64 m a v x = m x"
  by (auto simp: wr64_def wr32_frame)

interpretation u64: typed_access rd64 wr64 8 size_t
  by unfold_locales (auto simp: rd64_wr64_same wr64_frame intro: rd64_eq_on)

lemmas rd64_simps [mem_simps] = u64.rd_wr_same u64.rd_wr_disjoint

lemma rd64_range: "0 \<le> rd64 m a \<and> rd64 m a < 18446744073709551616"
proof -
  have "0 \<le> x mod 4294967296 \<and> x mod 4294967296 < 4294967296" for x :: int by simp
  from this [of "rd32 m a"] this [of "rd32 m (a + 4)"] show ?thesis unfolding rd64_def by linarith
qed

end
