(* ===== verification/Hw04.thy ===== *)
theory Hw04
  imports Prelude
begin

text \<open>
  The word programs of \<open>hw04/unnas-hw04\<close>: vectors of strings (\<open>svec.c\<close>), the program that sorts lines by length (\<open>length-sort.c\<close>), the hash map
  (\<open>hashmap.c\<close>) and the program that counts triples of letters (\<open>top-triples.c\<close>).

  A string is reached through a pointer, a number; \<open>txt m p\<close> is the string at \<open>p\<close>. \<open>junk\<close> is what new memory holds. A failed assertion, a read
  through a null pointer or outside of an object, and freeing what is not the start of an allocated object, have no result. A file is the list of its
  characters.
\<close>

section \<open>svec.c\<close>

record svec =
  svsize :: int
  svcap :: int
  svdata :: "int list"

definition make_svec :: svec where
  "make_svec = \<lparr>svsize = 0, svcap = 2, svdata = [0, 0]\<rparr>"

definition svec_get :: "svec \<Rightarrow> int \<Rightarrow> int option" where
  "svec_get sv ii = (if ii \<ge> 0 \<and> ii < svsize sv then Some (svdata sv ! nat ii) else None)"

definition svec_put :: "svec \<Rightarrow> int \<Rightarrow> int \<Rightarrow> svec option" where
  "svec_put sv ii item = (if ii \<ge> 0 \<and> ii < svsize sv then Some (sv\<lparr>svdata := (svdata sv)[nat ii := item]\<rparr>) else None)"

definition svec_push_back :: "int \<Rightarrow> svec \<Rightarrow> int \<Rightarrow> svec option" where
  "svec_push_back junk sv item =
     (let ii = svsize sv;
          sv = (if ii \<ge> svcap sv then sv\<lparr>svcap := svcap sv * 2, svdata := svdata sv @ replicate (nat (svcap sv)) junk\<rparr> else sv)
      in svec_put (sv\<lparr>svsize := ii + 1\<rparr>) ii item)"

definition svec_swap :: "svec \<Rightarrow> int \<Rightarrow> int \<Rightarrow> svec option" where
  "svec_swap sv ii jj =
     do { temp \<leftarrow> svec_get sv jj;
          x \<leftarrow> svec_get sv ii;
          sv \<leftarrow> svec_put sv jj x;
          svec_put sv ii temp }"

text \<open>\<open>heap p\<close> says whether \<open>p\<close> is the start of an allocated object.\<close>

fun free_items :: "(int \<Rightarrow> bool) \<Rightarrow> int list \<Rightarrow> (int \<Rightarrow> bool) option" where
  "free_items heap [] = Some heap"
| "free_items heap (p # ps) =
     (if p \<noteq> 0 then if heap p then free_items (heap(p := False)) ps else None else free_items heap ps)"

definition free_svec :: "(int \<Rightarrow> bool) \<Rightarrow> svec \<Rightarrow> (int \<Rightarrow> bool) option" where
  "free_svec heap sv = free_items heap (take (nat (svsize sv)) (svdata sv))"

section \<open>length-sort.c\<close>

partial_function (option) sort_from :: "(int \<Rightarrow> string) \<Rightarrow> svec \<Rightarrow> int \<Rightarrow> int \<Rightarrow> svec option" where
  "sort_from m xs ii nn =
     (if ii < nn then
        if ii = 0 then sort_from m xs (ii + 1) nn
        else
          do { p \<leftarrow> svec_get xs (ii - 1);
               q \<leftarrow> svec_get xs ii;
               if length (m p) \<le> length (m q) then sort_from m xs (ii + 1) nn
               else do { xs \<leftarrow> svec_swap xs ii (ii - 1); sort_from m xs (ii - 1) nn } }
      else Some xs)"

definition sort_lines :: "(int \<Rightarrow> string) \<Rightarrow> svec \<Rightarrow> svec option" where
  "sort_lines m xs = sort_from m xs 0 (svsize xs)"

text \<open>The string behind the pointer, cut at a final newline.\<close>

definition chomp :: "string \<Rightarrow> string option" where
  "chomp s = (if s = [] then None else if last s = CHR 0x0A then Some (butlast s) else Some s)"

text \<open>\<open>fgets\<close> with a buffer of \<open>n\<close> bytes: the next line with its newline, or its first \<open>n - 1\<close> characters; the C string ends at a NUL.\<close>

fun fgets_chars :: "nat \<Rightarrow> string \<Rightarrow> string \<times> string" where
  "fgets_chars 0 inp = ([], inp)"
| "fgets_chars (Suc n) [] = ([], [])"
| "fgets_chars (Suc n) (c # inp) = (if c = CHR 0x0A then ([c], inp) else let (l, r) = fgets_chars n inp in (c # l, r))"

definition fgets :: "nat \<Rightarrow> string \<Rightarrow> (string \<times> string) option" where
  "fgets n inp = (if inp = [] then None else case fgets_chars (n - 1) inp of (l, r) \<Rightarrow> Some (takeWhile (\<lambda>c. c \<noteq> NUL) l, r))"

lemma fgets_chars_less: "inp \<noteq> [] \<Longrightarrow> length (snd (fgets_chars (Suc n) inp)) < length inp"
proof (induction n arbitrary: inp)
  case 0
  then show ?case by (cases inp) (auto split: prod.splits)
next
  case (Suc n)
  then show ?case
  proof (cases inp)
    case (Cons c inp')
    show ?thesis
    proof (cases "inp' = []")
      case False
      then show ?thesis using Suc.IH [OF False] Cons by (auto split: prod.splits)
    qed (use Cons in \<open>auto split: prod.splits\<close>)
  qed simp
qed

lemma fgets_less: "fgets 128 inp = Some (l, r) \<Longrightarrow> length r < length inp"
  using fgets_chars_less [of inp 126] by (auto simp: fgets_def split: if_splits prod.splits)

text \<open>The loop of \<open>main\<close>: every line is read into the array \<open>temp\<close>, and \<open>temp\<close> is what is stored.\<close>

function read_lines :: "int \<Rightarrow> int \<Rightarrow> svec \<Rightarrow> (int \<Rightarrow> string) \<Rightarrow> string \<Rightarrow> (svec \<times> (int \<Rightarrow> string)) option" where
  "read_lines junk temp xs m inp =
     (case fgets 128 inp of
        None \<Rightarrow> Some (xs, m)
      | Some (l, r) \<Rightarrow>
          do { l \<leftarrow> chomp l;
               xs \<leftarrow> svec_push_back junk xs temp;
               read_lines junk temp xs (m(temp := l)) r })"
  by pat_completeness auto
termination read_lines
  by (relation "measure (\<lambda>(junk, temp, xs, m, inp). length inp)") (use fgets_less in auto)

declare read_lines.simps [simp del]

fun print_lines :: "(int \<Rightarrow> string) \<Rightarrow> svec \<Rightarrow> int list \<Rightarrow> string list option" where
  "print_lines m xs [] = Some []"
| "print_lines m xs (ii # is) = do { p \<leftarrow> svec_get xs ii; out \<leftarrow> print_lines m xs is; Some (m p # out) }"

text \<open>What is printed, and whether the program then ends as it should.\<close>

definition length_sort :: "int \<Rightarrow> int \<Rightarrow> (int \<Rightarrow> bool) \<Rightarrow> (int \<Rightarrow> string) \<Rightarrow> string \<Rightarrow> (string list \<times> bool) option" where
  "length_sort junk temp heap m inp =
     do { (xs, m) \<leftarrow> read_lines junk temp make_svec m inp;
          xs \<leftarrow> sort_lines m xs;
          out \<leftarrow> print_lines m xs (map int [0..<nat (svsize xs)]);
          Some (out, free_svec heap xs \<noteq> None) }"

section \<open>hashmap.c\<close>

record pair =
  pkey :: string
  pval :: int
  used :: bool
  tomb :: bool

record hashmap =
  hdata :: "pair option list"
  hcapacity :: int
  hsize :: int

definition hash :: "string \<Rightarrow> int" where
  "hash key = cint (int (length key) * 67)"

definition make_hashmap_presize :: "int \<Rightarrow> hashmap" where
  "make_hashmap_presize nn = \<lparr>hdata = replicate (nat nn) None, hcapacity = nn, hsize = 0\<rparr>"

definition make_hashmap :: hashmap where
  "make_hashmap = make_hashmap_presize 4"

definition slot :: "hashmap \<Rightarrow> string \<Rightarrow> int" where
  "slot hh kk = hash kk AND (hcapacity hh - 1)"

text \<open>The field \<open>key\<close> is the start of the pair, so both calls free the same object.\<close>

definition free_pair :: "pair option \<Rightarrow> unit option" where
  "free_pair pp = (if pp \<noteq> None then None else Some ())"

fun free_pairs :: "pair option list \<Rightarrow> unit option" where
  "free_pairs [] = Some ()"
| "free_pairs (p # ps) = (if p \<noteq> None then do { free_pair p; free_pairs ps } else free_pairs ps)"

definition free_hashmap :: "hashmap \<Rightarrow> unit option" where
  "free_hashmap hh = free_pairs (take (nat (hcapacity hh)) (hdata hh))"

definition hashmap_get :: "hashmap \<Rightarrow> string \<Rightarrow> int option" where
  "hashmap_get hh kk =
     (let ii = slot hh kk
      in if ii \<ge> 0 \<and> ii < hsize hh then map_option pval (hdata hh ! nat ii) else None)"

definition hashmap_has :: "hashmap \<Rightarrow> string \<Rightarrow> bool option" where
  "hashmap_has hh kk = map_option (\<lambda>v. v \<noteq> - 1) (hashmap_get hh kk)"

definition hashmap_grow :: "hashmap \<Rightarrow> hashmap" where
  "hashmap_grow hh = hh\<lparr>hcapacity := 2 * hcapacity hh, hdata := replicate (nat (2 * hcapacity hh)) None\<rparr>"

definition hashmap_put :: "hashmap \<Rightarrow> string \<Rightarrow> int \<Rightarrow> hashmap" where
  "hashmap_put hh kk vv =
     (let hh = (if hsize hh \<ge> hcapacity hh then hashmap_grow hh else hh)
      in hh\<lparr>hdata := (hdata hh)[nat (slot hh kk) := Some \<lparr>pkey = [], pval = 0, used = False, tomb = False\<rparr>], hsize := hsize hh + 1\<rparr>)"

definition hashmap_del :: "hashmap \<Rightarrow> string \<Rightarrow> unit option" where
  "hashmap_del hh kk = free_pair (hdata hh ! nat (slot hh kk))"

definition hashmap_get_pair :: "hashmap \<Rightarrow> int \<Rightarrow> pair option" where
  "hashmap_get_pair hh ii = (if ii \<ge> 0 \<and> ii < hsize hh then hdata hh ! nat ii else None)"

section \<open>top-triples.c\<close>

fun count_triples :: "string \<Rightarrow> nat list \<Rightarrow> hashmap \<Rightarrow> hashmap option" where
  "count_triples line [] trips = Some trips"
| "count_triples line (ii # is) trips =
     (let trip = take 3 (drop ii line)
      in do { h \<leftarrow> hashmap_has trips trip;
              if h then do { count \<leftarrow> hashmap_get trips trip; count_triples line is (hashmap_put trips trip (count + 1)) }
              else count_triples line is (hashmap_put trips trip 1) })"

function count_lines :: "hashmap \<Rightarrow> string \<Rightarrow> hashmap option" where
  "count_lines trips inp =
     (case fgets 128 inp of
        None \<Rightarrow> Some trips
      | Some (l, r) \<Rightarrow>
          do { line \<leftarrow> chomp l;
               trips \<leftarrow> count_triples line [0..<length line - 2] trips;
               count_lines trips r })"
  by pat_completeness auto
termination count_lines
  by (relation "measure (\<lambda>(trips, inp). length inp)") (use fgets_less in auto)

declare count_lines.simps [simp del]

section \<open>Sorting\<close>

definition sv_inv :: "svec \<Rightarrow> bool" where
  "sv_inv sv \<longleftrightarrow> 0 \<le> svsize sv \<and> svsize sv \<le> svcap sv \<and> 0 < svcap sv \<and> length (svdata sv) = nat (svcap sv)"

definition sv_items :: "svec \<Rightarrow> int list" where
  "sv_items sv = take (nat (svsize sv)) (svdata sv)"

lemma sv_items_length: "sv_inv sv \<Longrightarrow> int (length (sv_items sv)) = svsize sv"
  by (auto simp: sv_inv_def sv_items_def)

lemma svec_get_items: "sv_inv sv \<Longrightarrow> i < length (sv_items sv) \<Longrightarrow> svec_get sv (int i) = Some (sv_items sv ! i)"
  by (auto simp: sv_inv_def sv_items_def svec_get_def)

lemma svec_put_items:
  assumes "sv_inv sv" and "i < length (sv_items sv)"
  shows "\<exists>sv'. svec_put sv (int i) x = Some sv' \<and> sv_inv sv' \<and> sv_items sv' = (sv_items sv)[i := x] \<and> svsize sv' = svsize sv"
  using assms by (auto simp: sv_inv_def sv_items_def svec_put_def take_update_swap)

lemma svec_push_items:
  assumes "sv_inv sv"
  shows "\<exists>sv'. svec_push_back junk sv x = Some sv' \<and> sv_inv sv' \<and> sv_items sv' = sv_items sv @ [x]"
proof -
  define s1 where "s1 = (if svsize sv \<ge> svcap sv then sv\<lparr>svcap := svcap sv * 2, svdata := svdata sv @ replicate (nat (svcap sv)) junk\<rparr> else sv)"
  define s2 where "s2 = s1\<lparr>svsize := svsize sv + 1\<rparr>"
  have s1: "length (svdata s1) = nat (svcap s1)" "svsize sv < svcap s1" "take (nat (svsize sv)) (svdata s1) = sv_items sv"
    using assms by (auto simp: s1_def sv_inv_def sv_items_def nat_mult_distrib)
  have n: "nat (svsize sv + 1) = Suc (nat (svsize sv))" "nat (svsize sv) < length (svdata s1)" "0 \<le> svsize sv" using assms s1 by (auto simp: sv_inv_def)
  have i2: "sv_inv s2" "sv_items s2 = sv_items sv @ [svdata s1 ! nat (svsize sv)]"
    using s1 n by (auto simp: s2_def sv_inv_def sv_items_def take_Suc_conv_app_nth)
  have len: "length (sv_items sv) = nat (svsize sv)" using sv_items_length [OF assms] by simp
  have "int (nat (svsize sv)) = svsize sv" using n(3) by simp
  moreover have "nat (svsize sv) < length (sv_items s2)" using i2(2) len by simp
  ultimately obtain sv' where "svec_put s2 (svsize sv) x = Some sv'" "sv_inv sv'" "sv_items sv' = (sv_items s2)[nat (svsize sv) := x]"
    using svec_put_items [OF i2(1), of "nat (svsize sv)" x] by auto
  then show ?thesis using i2(2) by (simp add: svec_push_back_def Let_def list_update_append len flip: s1_def s2_def)
qed

lemma svec_swap_items:
  assumes "sv_inv sv" and "i < length (sv_items sv)" and "j < length (sv_items sv)"
  shows "\<exists>sv'. svec_swap sv (int i) (int j) = Some sv' \<and> sv_inv sv' \<and> svsize sv' = svsize sv
    \<and> sv_items sv' = (sv_items sv)[j := sv_items sv ! i, i := sv_items sv ! j]"
proof -
  obtain s1 where s1: "svec_put sv (int j) (sv_items sv ! i) = Some s1" "sv_inv s1" "sv_items s1 = (sv_items sv)[j := sv_items sv ! i]" "svsize s1 = svsize sv"
    using svec_put_items [OF assms(1,3)] by blast
  obtain s2 where s2: "svec_put s1 (int i) (sv_items sv ! j) = Some s2" "sv_inv s2" "sv_items s2 = (sv_items s1)[i := sv_items sv ! j]" "svsize s2 = svsize s1"
    using svec_put_items [OF s1(2), of i] assms(2) s1(3) by auto
  show ?thesis using s1 s2 svec_get_items [OF assms(1,2)] svec_get_items [OF assms(1,3)] by (simp add: svec_swap_def)
qed

text \<open>Swapping two neighbours that are out of order makes this sum smaller.\<close>

fun weight :: "nat list \<Rightarrow> nat" where
  "weight [] = 0"
| "weight (x # xs) = (length xs + 1) * x + weight xs"

lemma weight_swap: "b < a \<Longrightarrow> weight (us @ b # a # vs) < weight (us @ a # b # vs)"
  by (induction us) (auto simp: algebra_simps)

lemma neighbours:
  assumes "0 < i" and "i < length xs"
  shows "xs = take (i - 1) xs @ xs ! (i - 1) # xs ! i # drop (Suc i) xs"
    and "xs[i - 1 := xs ! i, i := xs ! (i - 1)] = take (i - 1) xs @ xs ! i # xs ! (i - 1) # drop (Suc i) xs"
proof -
  obtain k where k: "i = Suc k" using assms(1) by (cases i) auto
  have "drop k xs = xs ! k # xs ! i # drop (Suc i) xs" using assms k by (metis Cons_nth_drop_Suc Suc_lessD)
  then have xs: "xs = take k xs @ xs ! k # xs ! i # drop (Suc i) xs" by (metis append_take_drop_id)
  then show "xs = take (i - 1) xs @ xs ! (i - 1) # xs ! i # drop (Suc i) xs" using k by simp
  have up: "(us @ a # b # vs)[length us := p, Suc (length us) := q] = us @ p # q # vs" for us vs :: "'a list" and a b p q
    by (simp add: list_update_append)
  have "xs[k := p, i := q] = take k xs @ p # q # drop (Suc i) xs" for p q
    using up [of "take k xs" "xs ! k" "xs ! i" "drop (Suc i) xs" p q] assms k xs by simp
  then show "xs[i - 1 := xs ! i, i := xs ! (i - 1)] = take (i - 1) xs @ xs ! i # xs ! (i - 1) # drop (Suc i) xs" using k by simp
qed

lemma sorted_extend:
  assumes "0 < i" and "i < length xs" and "sorted (map f (take i xs))" and "f (xs ! (i - 1)) \<le> f (xs ! i)"
  shows "sorted (map f (take (Suc i) xs))"
proof -
  obtain k where k: "i = Suc k" using assms(1) by (cases i) auto
  define us where "us = take k xs"
  have us: "take i xs = us @ [xs ! (i - 1)]" using assms(2) k by (simp add: us_def take_Suc_conv_app_nth)
  then have "\<forall>y \<in> set us. f y \<le> f (xs ! (i - 1))" using assms(3) by (auto simp: sorted_append)
  then have "\<forall>y \<in> set (take i xs). f y \<le> f (xs ! i)" using assms(4) us by fastforce
  then show ?thesis using assms(2,3) by (auto simp: take_Suc_conv_app_nth sorted_append)
qed

abbreviation line_len :: "(int \<Rightarrow> string) \<Rightarrow> int \<Rightarrow> nat" where
  "line_len m p \<equiv> length (m p)"

text \<open>The loop ends: a swap makes the weight smaller, any other round brings the index nearer to the end.\<close>

lemma sort_from_sorts:
  assumes "sv_inv xs" and "i \<le> length (sv_items xs)" and "sorted (map (line_len m) (take i (sv_items xs)))"
  shows "\<exists>ys. sort_from m xs (int i) (svsize xs) = Some ys \<and> sv_inv ys \<and> mset (sv_items ys) = mset (sv_items xs)
    \<and> sorted (map (line_len m) (sv_items ys))"
  using assms
proof (induction "(xs, i)" arbitrary: xs i
    rule: wf_induct_rule [OF wf_measures [of "[\<lambda>(xs, i). weight (map (line_len m) (sv_items xs)), \<lambda>(xs, i). length (sv_items xs) - i]"]])
  case (1 xs i)
  let ?l = "sv_items xs"
  note len = sv_items_length [OF 1(2)]
  note unfold = sort_from.simps [of m xs "int i" "svsize xs"]
  consider (fin) "i = length ?l" | (zero) "i = 0" "i < length ?l" | (step) "0 < i" "i < length ?l" using 1(3) by linarith
  then show ?case
  proof cases
    case fin
    then show ?thesis using 1(2,4) len unfold by auto
  next
    case zero
    have pos: "0 < svsize xs" using zero len by linarith
    have "\<exists>ys. sort_from m xs (int (Suc i)) (svsize xs) = Some ys \<and> sv_inv ys \<and> mset (sv_items ys) = mset ?l
        \<and> sorted (map (line_len m) (sv_items ys))"
      by (rule 1(1)) (use zero 1(2) in \<open>auto simp: take_Suc_conv_app_nth Suc_le_eq\<close>)
    moreover have "sort_from m xs (int i) (svsize xs) = sort_from m xs (int (Suc i)) (svsize xs)" using zero pos unfold by simp
    ultimately show ?thesis by simp
  next
    case step
    have lt: "int i < svsize xs" using step len by linarith
    have int1: "int i - 1 = int (i - 1)" using step by simp
    have get: "svec_get xs (int (i - 1)) = Some (?l ! (i - 1))" "svec_get xs (int i) = Some (?l ! i)"
      using svec_get_items [OF 1(2), of "i - 1"] svec_get_items [OF 1(2), of i] step by linarith+
    show ?thesis
    proof (cases "line_len m (?l ! (i - 1)) \<le> line_len m (?l ! i)")
      case True
      have "\<exists>ys. sort_from m xs (int (Suc i)) (svsize xs) = Some ys \<and> sv_inv ys \<and> mset (sv_items ys) = mset ?l
          \<and> sorted (map (line_len m) (sv_items ys))"
        by (rule 1(1)) (use step True 1(2) sorted_extend [OF step 1(4) True] in auto)
      moreover have "sort_from m xs (int i) (svsize xs) = sort_from m xs (int (Suc i)) (svsize xs)"
        unfolding unfold int1 get using lt step True by (simp add: ac_simps)
      ultimately show ?thesis by simp
    next
      case False
      obtain zs where zs: "svec_swap xs (int i) (int (i - 1)) = Some zs" "sv_inv zs" "svsize zs = svsize xs"
          "sv_items zs = ?l[i - 1 := ?l ! i, i := ?l ! (i - 1)]"
        using svec_swap_items [OF 1(2) step(2) less_imp_diff_less [OF step(2)], of 1] by blast
      note nb = neighbours [OF step]
      have less: "weight (map (line_len m) (sv_items zs)) < weight (map (line_len m) ?l)"
        by (subst nb(1), subst zs(4), subst nb(2)) (use False weight_swap in auto)
      have perm: "mset (sv_items zs) = mset ?l" by (subst nb(1), subst zs(4), subst nb(2)) simp
      have pre: "take (i - 1) (sv_items zs) = take (i - 1) ?l" using zs(4) nb(2) step by (simp add: min_def)
      have srt: "sorted (map (line_len m) (take (i - 1) ?l))"
        using 1(4) sorted_wrt_take [of "(\<le>)" "map (line_len m) (take i ?l)" "i - 1"] by (simp add: take_map)
      have "\<exists>ys. sort_from m zs (int (i - 1)) (svsize zs) = Some ys \<and> sv_inv ys \<and> mset (sv_items ys) = mset (sv_items zs)
          \<and> sorted (map (line_len m) (sv_items ys))"
        by (rule 1(1)) (use less zs pre srt step in auto)
      moreover have "sort_from m xs (int i) (svsize xs) = sort_from m zs (int (i - 1)) (svsize zs)"
        unfolding unfold int1 get zs(3) using lt step False zs(1) by simp
      ultimately show ?thesis using perm by simp
    qed
  qed
qed

text \<open>C40: \<open>sort\<close> of \<open>length-sort.c\<close> ends on every vector of pointers to strings (whose lengths fit an \<open>int\<close>, as those of the
  lines that \<open>main\<close> reads do) and leaves the same pointers in it, ordered by the length of their strings.\<close>

theorem length_sort_correct:
  assumes "sv_inv xs"
  shows "\<exists>ys. sort_lines m xs = Some ys \<and> sv_inv ys \<and> mset (sv_items ys) = mset (sv_items xs) \<and> sorted (map (line_len m) (sv_items ys))"
  using sort_from_sorts [OF assms, of 0 m] by (simp add: sort_lines_def)

theorem length_sort_correct_witness:
  "sv_inv (\<lparr>svsize = 3, svcap = 4, svdata = [7, 8, 9, 0]\<rparr> :: svec)
   \<and> (\<exists>ys. sort_lines (\<lambda>p. replicate (nat (20 - p)) CHR ''a'') \<lparr>svsize = 3, svcap = 4, svdata = [7, 8, 9, 0]\<rparr> = Some ys \<and> sv_inv ys
        \<and> mset (sv_items ys) = mset (sv_items (\<lparr>svsize = 3, svcap = 4, svdata = [7, 8, 9, 0]\<rparr> :: svec))
        \<and> sorted (map (line_len (\<lambda>p. replicate (nat (20 - p)) CHR ''a'')) (sv_items ys)))"
proof -
  have i: "sv_inv (\<lparr>svsize = 3, svcap = 4, svdata = [7, 8, 9, 0]\<rparr> :: svec)" by (simp add: sv_inv_def)
  show ?thesis using length_sort_correct [OF i] i by blast
qed

section \<open>The two programs\<close>

definition line_ok :: "string \<Rightarrow> bool" where
  "line_ok l \<longleftrightarrow> CHR 0x0A \<notin> set l \<and> NUL \<notin> set l \<and> length l \<le> 126"

lemma fgets_chars_line: "CHR 0x0A \<notin> set l \<Longrightarrow> length l < n \<Longrightarrow> fgets_chars n (l @ CHR 0x0A # r) = (l @ [CHR 0x0A], r)"
proof (induction l arbitrary: n)
  case Nil
  then show ?case by (cases n) auto
next
  case (Cons c l)
  then show ?case by (cases n) auto
qed

lemma fgets_line: "line_ok l \<Longrightarrow> fgets 128 (l @ CHR 0x0A # r) = Some (l @ [CHR 0x0A], r)"
  using fgets_chars_line [of l 127 r] by (auto simp: line_ok_def fgets_def takeWhile_eq_all_conv)

lemma chomp_line [simp]: "chomp (l @ [CHR 0x0A]) = Some l"
  by (simp add: chomp_def)

lemma fgets_eof: "fgets n [] = None"
  by (simp add: fgets_def)

abbreviation file_of :: "string list \<Rightarrow> string" where
  "file_of ls \<equiv> concat (map (\<lambda>l. l @ [CHR 0x0A]) ls)"

lemma read_lines_same:
  assumes "sv_inv xs" and "list_all line_ok ls" and "0 < length ls"
  shows "\<exists>ys. read_lines junk temp xs m (file_of ls) = Some (ys, m(temp := last ls)) \<and> sv_inv ys
    \<and> sv_items ys = sv_items xs @ replicate (length ls) temp"
  using assms
proof (induction ls arbitrary: xs m)
  case (Cons l ls)
  obtain zs where zs: "svec_push_back junk xs temp = Some zs" "sv_inv zs" "sv_items zs = sv_items xs @ [temp]"
    using svec_push_items [OF Cons.prems(1)] by blast
  have step: "read_lines junk temp xs m (file_of (l # ls)) = read_lines junk temp zs (m(temp := l)) (file_of ls)"
    using Cons.prems(2) zs(1) by (subst read_lines.simps) (simp add: fgets_line)
  show ?case
  proof (cases "ls = []")
    case True
    have "read_lines junk temp zs (m(temp := l)) [] = Some (zs, m(temp := l))" by (subst read_lines.simps) (simp add: fgets_eof)
    then show ?thesis using step zs True by (auto simp: fun_eq_iff)
  next
    case False
    then obtain ys where "read_lines junk temp zs (m(temp := l)) (file_of ls) = Some (ys, (m(temp := l))(temp := last ls))" "sv_inv ys"
        "sv_items ys = sv_items zs @ replicate (length ls) temp"
      using Cons.IH [OF zs(2), of "m(temp := l)"] Cons.prems(2) by (auto simp: fun_upd_def)
    then show ?thesis using step zs(3) False by (auto simp: fun_eq_iff)
  qed
qed simp

lemma print_lines_items:
  assumes "sv_inv xs" and "list_all (\<lambda>i. i < length (sv_items xs)) is"
  shows "print_lines m xs (map int is) = Some (map (\<lambda>i. m (sv_items xs ! i)) is)"
  using assms by (induction "is") (auto simp: svec_get_items)

lemma mset_replicate_eq: "mset xs = mset (replicate n x) \<Longrightarrow> xs = replicate n x"
  by (metis length_replicate mset_eq_length mset_eq_setD replicate_eqI in_set_replicate)

lemma make_svec_inv: "sv_inv make_svec" "sv_items make_svec = []"
  by (simp_all add: make_svec_def sv_inv_def sv_items_def)

text \<open>Every entry of the vector is the address of the one buffer that \<open>main\<close> reads into, so \<open>length-sort\<close> prints its last line as often as the
  file has lines, and then \<open>free_svec\<close> is called on the address of a local array.\<close>

theorem length_sort_prints_last_line:
  assumes "list_all line_ok ls" and "0 < length ls" and "temp \<noteq> 0" and "heap temp = False"
  shows "length_sort junk temp heap m (file_of ls) = Some (replicate (length ls) (last ls), False)"
proof -
  obtain xs where xs: "read_lines junk temp make_svec m (file_of ls) = Some (xs, m(temp := last ls))" "sv_inv xs"
      "sv_items xs = replicate (length ls) temp"
    using read_lines_same [OF make_svec_inv(1) assms(1,2), of junk temp m] make_svec_inv(2) by auto
  obtain ys where ys: "sort_lines (m(temp := last ls)) xs = Some ys" "sv_inv ys" "mset (sv_items ys) = mset (sv_items xs)"
    using sort_from_sorts [OF xs(2), of 0 "m(temp := last ls)"] by (auto simp: sort_lines_def)
  have it: "sv_items ys = replicate (length ls) temp" using mset_replicate_eq ys(3) xs(3) by metis
  then have n: "nat (svsize ys) = length ls" using sv_items_length [OF ys(2)] by simp
  have "print_lines (m(temp := last ls)) ys (map int [0..<length ls]) = Some (map (\<lambda>i. (m(temp := last ls)) (sv_items ys ! i)) [0..<length ls])"
    by (rule print_lines_items) (use ys(2) it in \<open>auto simp: list_all_iff\<close>)
  also have "map (\<lambda>i. (m(temp := last ls)) (sv_items ys ! i)) [0..<length ls] = replicate (length ls) (last ls)"
    by (rule nth_equalityI) (auto simp: it)
  finally have pr: "print_lines (m(temp := last ls)) ys (map int [0..<length ls]) = Some (replicate (length ls) (last ls))" .
  obtain k where k: "length ls = Suc k" using assms(2) by (cases "length ls") auto
  have "free_svec heap ys = None" using it assms(3,4) k by (simp add: free_svec_def flip: sv_items_def)
  then show ?thesis using xs(1) ys(1) pr n by (simp add: length_sort_def)
qed

theorem length_sort_prints_last_line_witness:
  "length_sort 0 1000 (\<lambda>p. False) (\<lambda>p. []) (file_of [''pear'', ''fig'', ''banana'']) = Some ([''banana'', ''banana'', ''banana''], False)"
  using length_sort_prints_last_line [of "[''pear'', ''fig'', ''banana'']" 1000 "\<lambda>p. False" 0 "\<lambda>p. []"]
  by (simp add: line_ok_def numeral_3_eq_3)

lemma slot_triple: "length trip = 3 \<Longrightarrow> slot make_hashmap trip = 1"
  by (simp add: slot_def hash_def make_hashmap_def make_hashmap_presize_def cint_def)

text \<open>A line of at least three letters makes \<open>top-triples\<close> abort: the first lookup is made in the empty map, and \<open>hashmap_get\<close> asserts that the slot
  of the key is below the number of entries.\<close>

theorem top_triples_aborts:
  assumes "line_ok l" and "3 \<le> length l"
  shows "count_lines make_hashmap (l @ CHR 0x0A # r) = None"
proof -
  have up: "[0..<length l - 2] = 0 # [1..<length l - 2]" using assms(2) by (simp add: upt_conv_Cons)
  have "hashmap_get make_hashmap (take 3 l) = None"
    using slot_triple [of "take 3 l"] assms(2) by (simp add: hashmap_get_def make_hashmap_def make_hashmap_presize_def)
  then have "count_triples l [0..<length l - 2] make_hashmap = None" unfolding up by (simp add: hashmap_has_def)
  then show ?thesis by (subst count_lines.simps) (simp add: fgets_line [OF assms(1)])
qed

theorem top_triples_aborts_witness: "count_lines make_hashmap (''apple'' @ CHR 0x0A # []) = None"
  using top_triples_aborts [of "''apple''" "[]"] by (simp add: line_ok_def)

end
