(* ===== verification/Umalloc.thy ===== *)
theory Umalloc
  imports Prelude
begin

text \<open>
  The allocator of Kernighan and Ritchie, in the two versions of the repository: \<open>umalloc.c\<close> of the xv6 user library (\<open>hw09/unnas-hw09/xv6\<close>) and
  \<open>xv6_malloc.c\<close> of \<open>ch02/challenge02\<close>, with a lock.

  The free blocks form a ring in the order of their addresses, linked through their headers. Addresses are counted in headers, as the pointer arithmetic on
  \<open>Header*\<close> does; \<open>hptr\<close> and \<open>hsize\<close> are the two fields of the header at an address, \<open>0\<close> is the null pointer. Memory from the system (\<open>sbrk\<close>, \<open>mmap\<close>) is a
  parameter: its result for a number of bytes, none when the call fails. Both searches go round the ring and may run for ever on a broken one, so they are
  partial functions; they are shown to end.
\<close>

section \<open>umalloc.c\<close>

record kr =
  base :: int
  freep :: int
  hptr :: "int \<Rightarrow> int"
  hsize :: "int \<Rightarrow> int"

abbreviation uint32 :: "int \<Rightarrow> int" where
  "uint32 v \<equiv> v mod 4294967296"

partial_function (option) free_seek :: "kr \<Rightarrow> int \<Rightarrow> int \<Rightarrow> int option" where
  "free_seek s bp p =
     (if bp > p \<and> bp < hptr s p then Some p
      else if p \<ge> hptr s p \<and> (bp > p \<or> bp < hptr s p) then Some p
      else free_seek s bp (hptr s p))"

definition free_join :: "kr \<Rightarrow> int \<Rightarrow> int \<Rightarrow> kr" where
  "free_join s bp p =
     (let s = (if bp + hsize s bp = hptr s p
               then s\<lparr>hsize := (hsize s)(bp := uint32 (hsize s bp + hsize s (hptr s p))), hptr := (hptr s)(bp := hptr s (hptr s p))\<rparr>
               else s\<lparr>hptr := (hptr s)(bp := hptr s p)\<rparr>);
          s = (if p + hsize s p = bp
               then s\<lparr>hsize := (hsize s)(p := uint32 (hsize s p + hsize s bp)), hptr := (hptr s)(p := hptr s bp)\<rparr>
               else s\<lparr>hptr := (hptr s)(p := bp)\<rparr>)
      in s\<lparr>freep := p\<rparr>)"

definition kr_free :: "kr \<Rightarrow> int \<Rightarrow> kr option" where
  "kr_free s ap = (let bp = ap - 1 in do { p \<leftarrow> free_seek s bp (freep s); Some (free_join s bp p) })"

text \<open>The second component is the result of \<open>morecore\<close>.\<close>

definition morecore :: "(int \<Rightarrow> int option) \<Rightarrow> kr \<Rightarrow> int \<Rightarrow> (kr \<times> int) option" where
  "morecore core s nu =
     (let nu = (if nu < 4096 then 4096 else nu)
      in case core nu of
           None \<Rightarrow> Some (s, 0)
         | Some hp \<Rightarrow> do { s \<leftarrow> kr_free (s\<lparr>hsize := (hsize s)(hp := uint32 nu)\<rparr>) (hp + 1); Some (s, freep s) })"

definition take_block :: "kr \<Rightarrow> int \<Rightarrow> int \<Rightarrow> int \<Rightarrow> kr \<times> int" where
  "take_block s nunits prevp p =
     (if hsize s p = nunits then (s\<lparr>hptr := (hptr s)(prevp := hptr s p), freep := prevp\<rparr>, p + 1)
      else let n = hsize s p - nunits in (s\<lparr>hsize := (hsize s)(p := n, p + n := nunits), freep := prevp\<rparr>, p + n + 1))"

partial_function (option) malloc_from :: "(int \<Rightarrow> int option) \<Rightarrow> int \<Rightarrow> kr \<Rightarrow> int \<Rightarrow> int \<Rightarrow> (kr \<times> int) option" where
  "malloc_from core nunits s prevp p =
     (if hsize s p \<ge> nunits then Some (take_block s nunits prevp p)
      else if p = freep s then
        do { (s, p) \<leftarrow> morecore core s nunits;
             if p = 0 then Some (s, 0) else malloc_from core nunits s p (hptr s p) }
      else malloc_from core nunits s p (hptr s p))"

definition malloc_init :: "kr \<Rightarrow> kr" where
  "malloc_init s = (if freep s = 0 then s\<lparr>freep := base s, hptr := (hptr s)(base s := base s), hsize := (hsize s)(base s := 0)\<rparr> else s)"

definition malloc_units :: "(int \<Rightarrow> int option) \<Rightarrow> kr \<Rightarrow> int \<Rightarrow> (kr \<times> int) option" where
  "malloc_units core s nunits = (let s = malloc_init s in malloc_from core nunits s (freep s) (hptr s (freep s)))"

text \<open>In xv6 a header has 8 bytes, \<open>nbytes\<close> is an \<open>uint\<close> and \<open>sbrk\<close> takes an \<open>int\<close>.\<close>

definition nunits8 :: "int \<Rightarrow> int" where
  "nunits8 nbytes = uint32 (nbytes + 8 - 1) div 8 + 1"

definition malloc :: "(int \<Rightarrow> int option) \<Rightarrow> kr \<Rightarrow> int \<Rightarrow> (kr \<times> int) option" where
  "malloc sbrk s nbytes = malloc_units (\<lambda>nu. sbrk (cint (nu * 8))) s (nunits8 nbytes)"

section \<open>xv6\_malloc.c\<close>

record krl =
  heap :: kr
  klock :: bool

definition xfree_helper :: "kr \<Rightarrow> int \<Rightarrow> kr option" where
  "xfree_helper s ap = kr_free s ap"

text \<open>Taking the lock while it is held waits for another thread: no result.\<close>

definition kr_lock :: "krl \<Rightarrow> krl option" where
  "kr_lock s = (if klock s then None else Some (s\<lparr>klock := True\<rparr>))"

definition kr_unlock :: "krl \<Rightarrow> krl" where
  "kr_unlock s = s\<lparr>klock := False\<rparr>"

definition kr_xfree :: "krl \<Rightarrow> int \<Rightarrow> krl option" where
  "kr_xfree s ap = do { s \<leftarrow> kr_lock s; h \<leftarrow> xfree_helper (heap s) ap; Some (kr_unlock (s\<lparr>heap := h\<rparr>)) }"

text \<open>A header has 16 bytes, \<open>nbytes\<close> is a \<open>size_t\<close> and \<open>nunits\<close> an \<open>unsigned int\<close>.\<close>

definition nunits16 :: "int \<Rightarrow> int" where
  "nunits16 nbytes = uint32 (size_t (size_t (nbytes + 16 - 1) div 16 + 1))"

definition kr_xmalloc :: "(int \<Rightarrow> int option) \<Rightarrow> krl \<Rightarrow> int \<Rightarrow> (krl \<times> int) option" where
  "kr_xmalloc mmap s nbytes =
     do { s \<leftarrow> kr_lock s;
          (h, p) \<leftarrow> malloc_units (\<lambda>nu. mmap (nu * 16)) (heap s) (nunits16 nbytes);
          Some (kr_unlock (s\<lparr>heap := h\<rparr>), p) }"

text \<open>In bytes: the old address moved up by the size asked for.\<close>

definition kr_xrealloc :: "int \<Rightarrow> int \<Rightarrow> int" where
  "kr_xrealloc prev nn = prev + nn"

section \<open>Rings in the order of addresses\<close>

text \<open>\<open>c\<close> follows \<open>b\<close> in the ring of the addresses \<open>S\<close>.\<close>

definition follows :: "int set \<Rightarrow> int \<Rightarrow> int \<Rightarrow> bool" where
  "follows S b c \<longleftrightarrow> c \<in> S \<and> (b < c \<and> (\<forall>x \<in> S. x \<le> b \<or> c \<le> x) \<or> c \<le> b \<and> (\<forall>x \<in> S. c \<le> x \<and> x \<le> b))"

text \<open>\<open>t\<close> lies between \<open>b\<close> and the next element \<open>c\<close>.\<close>

definition between :: "int \<Rightarrow> int \<Rightarrow> int \<Rightarrow> bool" where
  "between b t c \<longleftrightarrow> b < t \<and> t < c \<or> c \<le> b \<and> (b < t \<or> t < c)"

definition links :: "(int \<Rightarrow> int) \<Rightarrow> int set \<Rightarrow> bool" where
  "links ptr S \<longleftrightarrow> (\<forall>b \<in> S. follows S b (ptr b))"

text \<open>What is left to visit on the way from \<open>p\<close> to \<open>t\<close>.\<close>

definition ahead :: "int set \<Rightarrow> int \<Rightarrow> int \<Rightarrow> int set" where
  "ahead S p t = {x \<in> S. if p \<le> t then p < x \<and> x \<le> t else p < x \<or> x \<le> t}"

lemma ahead_step:
  assumes "finite S" and "follows S p c" and "p \<noteq> t" and "\<not> between p t c"
  shows "card (ahead S c t) < card (ahead S p t)" and "ahead S p t = insert c (ahead S c t)"
proof -
  have c: "c \<in> S" using assms(2) by (auto simp: follows_def)
  have "c \<notin> ahead S c t" by (auto simp: ahead_def)
  moreover show eq: "ahead S p t = insert c (ahead S c t)"
    using assms(2-4) unfolding follows_def between_def ahead_def by (auto split: if_splits)
  moreover have "finite (ahead S c t)" using assms(1) by (auto simp: ahead_def)
  ultimately show "card (ahead S c t) < card (ahead S p t)" by simp
qed

lemma not_between_member: "follows S p c \<Longrightarrow> t \<in> S \<Longrightarrow> \<not> between p t c"
  by (auto simp: follows_def between_def)

lemma links_cong: "links f S \<Longrightarrow> (\<And>b. b \<in> S \<Longrightarrow> f b = g b) \<Longrightarrow> links g S"
  by (auto simp: links_def)

lemma followsD: "follows S b c \<Longrightarrow> x \<in> S \<Longrightarrow> b < c \<and> (x \<le> b \<or> c \<le> x) \<or> c \<le> b \<and> c \<le> x \<and> x \<le> b"
  by (auto simp: follows_def)

lemma follows_member: "follows S b c \<Longrightarrow> c \<in> S"
  by (simp add: follows_def)

lemma follows_insertI: "follows S b c \<Longrightarrow> \<not> between b t c \<Longrightarrow> t \<noteq> b \<Longrightarrow> follows (insert t S) b c"
  unfolding follows_def between_def by (simp add: not_less linorder_not_less) (metis linorder_le_cases order.strict_trans2 order_le_less)

lemma follows_removeI: "follows S b c \<Longrightarrow> c \<noteq> x \<Longrightarrow> follows (S - {x}) b c"
  by (auto simp: follows_def)

lemma follows_inj:
  assumes "follows S b c" and "follows S p c" and "b \<in> S" and "p \<in> S"
  shows "b = p"
  using followsD [OF assms(1,4)] followsD [OF assms(2,3)] by linarith

lemma links_insert:
  assumes "links ptr S" and "p \<in> S" and "between p bp (ptr p)" and "bp \<notin> S"
  shows "links (ptr(bp := ptr p, p := bp)) (insert bp S)"
  unfolding links_def
proof (rule ballI)
  fix b
  assume b: "b \<in> insert bp S"
  have f: "follows S p (ptr p)" using assms(1,2) by (auto simp: links_def)
  consider (new) "b = bp" | (prev) "b = p" | (other) "b \<in> S" "b \<noteq> p" "b \<noteq> bp" "follows S b (ptr b)"
    using b assms(1,4) by (auto simp: links_def)
  then show "follows (insert bp S) b ((ptr(bp := ptr p, p := bp)) b)"
  proof cases
    case other
    have "\<not> between b bp (ptr b)"
      using followsD [OF f other(1)] followsD [OF f follows_member [OF other(4)]] followsD [OF other(4) assms(2)]
        followsD [OF other(4) follows_member [OF f]] other(2) assms(3)
      unfolding between_def by linarith
    then show ?thesis using follows_insertI [OF other(4)] other by simp
  qed (use f assms in \<open>unfold follows_def between_def, auto\<close>)
qed

lemma links_remove:
  assumes "links ptr S" and "p \<in> S" and "ptr p \<noteq> p"
  shows "links (ptr(p := ptr (ptr p))) (S - {ptr p})"
  unfolding links_def
proof (rule ballI)
  fix b
  assume b: "b \<in> S - {ptr p}"
  have f: "follows S p (ptr p)" "follows S b (ptr b)" "follows S (ptr p) (ptr (ptr p))" using assms(1,2) b by (auto simp: links_def follows_def)
  show "follows (S - {ptr p}) b ((ptr(p := ptr (ptr p))) b)"
  proof (cases "b = p")
    case True
    have m: "ptr p \<in> S" "ptr (ptr p) \<in> S" using f follows_member by auto
    have ne: "ptr (ptr p) \<noteq> ptr p" using followsD [OF f(3) assms(2)] assms(3) by linarith
    have fn: "(p < ptr (ptr p) \<and> (x \<le> p \<or> ptr (ptr p) \<le> x)) \<or> (ptr (ptr p) \<le> p \<and> ptr (ptr p) \<le> x \<and> x \<le> p)" if "x \<in> S - {ptr p}" for x
      using followsD [OF f(1), of x] followsD [OF f(3), of x] followsD [OF f(1) m(2)] followsD [OF f(3) assms(2)] that by auto
    show ?thesis
    proof (cases "p < ptr (ptr p)")
      case True
      then show ?thesis using fn m ne \<open>b = p\<close> unfolding follows_def by fastforce
    next
      case False
      then show ?thesis using fn m ne \<open>b = p\<close> unfolding follows_def by fastforce
    qed
  next
    case False
    then have "ptr b \<noteq> ptr p" using follows_inj [of S b "ptr p" p] f b assms(2) by auto
    then show ?thesis using follows_removeI f(2) False by simp
  qed
qed

section \<open>The invariant\<close>

definition units :: "(int \<Rightarrow> int) \<Rightarrow> int set \<Rightarrow> int set" where
  "units sz S = (\<Union>b \<in> S. {b..<b + sz b})"

text \<open>The blocks \<open>S\<close> do not overlap and are linked in order; \<open>B\<close> is the empty one among them. All others lie within a span in which the sum of sizes does not
  wrap. \<open>touch\<close> are the blocks that end where another one starts.\<close>

definition blocks :: "int \<Rightarrow> int \<Rightarrow> (int \<Rightarrow> int) \<Rightarrow> (int \<Rightarrow> int) \<Rightarrow> int set \<Rightarrow> bool" where
  "blocks lo B ptr sz S \<longleftrightarrow> finite S \<and> B \<in> S \<and> sz B = 0 \<and> (\<forall>b \<in> S. 0 < b) \<and> links ptr S
     \<and> (\<forall>b \<in> S. b \<noteq> B \<longrightarrow> 0 < sz b \<and> lo \<le> b \<and> b + sz b < lo + 4294967296) \<and> (\<forall>b \<in> S. \<forall>c \<in> S. b < c \<longrightarrow> b + sz b \<le> c)"

definition touch :: "(int \<Rightarrow> int) \<Rightarrow> int set \<Rightarrow> int set" where
  "touch sz S = {b \<in> S. 0 < sz b \<and> b + sz b \<in> S}"

definition ring :: "int \<Rightarrow> kr \<Rightarrow> int set \<Rightarrow> bool" where
  "ring lo s S \<longleftrightarrow> blocks lo (base s) (hptr s) (hsize s) S \<and> touch (hsize s) S = {} \<and> freep s \<in> S"

text \<open>\<open>n\<close> units at \<open>bp\<close> that are outside of the free blocks.\<close>

definition outside :: "int \<Rightarrow> kr \<Rightarrow> int set \<Rightarrow> int \<Rightarrow> int \<Rightarrow> bool" where
  "outside lo s S bp n \<longleftrightarrow> 0 < bp \<and> 0 < n \<and> lo \<le> bp \<and> bp + n < lo + 4294967296 \<and> {bp..<bp + n} \<inter> units (hsize s) S = {} \<and> base s \<notin> {bp..bp + n}"

lemma blocksD:
  assumes "blocks lo B ptr sz S"
  shows "finite S" and "B \<in> S" and "sz B = 0" and "links ptr S" and "b \<in> S \<Longrightarrow> 0 < b" and "b \<in> S \<Longrightarrow> 0 \<le> sz b"
    and "b \<in> S \<Longrightarrow> follows S b (ptr b)" and "b \<in> S \<Longrightarrow> ptr b \<in> S"
    and "b \<in> S \<Longrightarrow> b \<noteq> B \<Longrightarrow> 0 < sz b \<and> lo \<le> b \<and> b + sz b < lo + 4294967296" and "b \<in> S \<Longrightarrow> c \<in> S \<Longrightarrow> b < c \<Longrightarrow> b + sz b \<le> c"
  using assms by (force simp: blocks_def links_def follows_def)+

lemma outside_sides:
  assumes "blocks lo (base s) ptr (hsize s) S" and "outside lo s S bp n" and "b \<in> S"
  shows "b < bp \<and> b + hsize s b \<le> bp \<or> bp < b \<and> bp + n \<le> b"
proof (cases "b = base s")
  case True
  then show ?thesis using assms by (auto simp: blocks_def outside_def)
next
  case False
  then have "0 < hsize s b" "{b..<b + hsize s b} \<subseteq> units (hsize s) S" using assms by (auto simp: blocks_def units_def)
  moreover have "{bp..<bp + n} \<inter> {b..<b + hsize s b} = {}" using assms(2) calculation(2) unfolding outside_def by blast
  moreover have "0 < n" using assms(2) by (simp add: outside_def)
  ultimately have "b \<notin> {bp..<bp + n}" "bp \<notin> {b..<b + hsize s b}" by force+
  then show ?thesis using \<open>0 < n\<close> \<open>0 < hsize s b\<close> by auto
qed

lemma units_insert: "units sz (insert b S) = {b..<b + sz b} \<union> units sz S"
  by (simp add: units_def)

lemma units_cong: "(\<And>b. b \<in> S \<Longrightarrow> f b = g b) \<Longrightarrow> units f S = units g S"
  by (simp add: units_def)

lemma units_split: "b \<in> S \<Longrightarrow> units sz S = {b..<b + sz b} \<union> units sz (S - {b})"
  by (metis insert_Diff units_insert)

text \<open>A new block, and two blocks that touch made into one.\<close>

lemma blocks_insert:
  assumes "blocks lo B ptr sz S" and "p \<in> S" and "between p bp (ptr p)" and "0 < bp" and "0 < sz bp" and "lo \<le> bp" and "bp + sz bp < lo + 4294967296"
    and side: "\<And>b. b \<in> S \<Longrightarrow> b < bp \<and> b + sz b \<le> bp \<or> bp < b \<and> bp + sz bp \<le> b"
  shows "blocks lo B (ptr(bp := ptr p, p := bp)) sz (insert bp S)"
proof -
  have "bp \<notin> S" using side by blast
  then have "links (ptr(bp := ptr p, p := bp)) (insert bp S)" using links_insert assms(2,3) blocksD(4) [OF assms(1)] by blast
  moreover have "b + sz b \<le> c" if "b \<in> insert bp S" "c \<in> insert bp S" "b < c" for b c
    using side [of b] side [of c] blocksD(10) [OF assms(1), of b c] that by auto
  ultimately show ?thesis using assms(1,4-7) unfolding blocks_def by auto
qed

lemma blocks_fuse:
  assumes "blocks lo B ptr sz S" and "p \<in> S" and "0 < sz p" and "ptr p = p + sz p" and "ptr p \<noteq> B"
  shows "blocks lo B (ptr(p := ptr (ptr p))) (sz(p := sz p + sz (ptr p))) (S - {ptr p})"
    and "units (sz(p := sz p + sz (ptr p))) (S - {ptr p}) = units sz S"
    and "ptr p \<notin> touch sz S \<Longrightarrow> touch (sz(p := sz p + sz (ptr p))) (S - {ptr p}) \<subseteq> touch sz S - {p}"
proof -
  let ?c = "ptr p" and ?z = "sz(p := sz p + sz (ptr p))"
  note D = blocksD [OF assms(1)]
  have c: "?c \<in> S" "?c \<noteq> p" using D(8) [OF assms(2)] assms(3,4) by auto
  have pB: "p \<noteq> B" using assms(3) D(3) by auto
  have zc: "0 < sz ?c" "?c + sz ?c < lo + 4294967296" using D(9) [OF c(1)] assms(5) by auto
  have le: "b + ?z b \<le> d" if "b \<in> S - {?c}" "d \<in> S - {?c}" "b < d" for b d
  proof (cases "b = p")
    case True
    have "p + sz p \<le> d" using D(10) [of p d] that assms(2) True by auto
    then have "?c < d" using that(2) assms(4) by auto
    then show ?thesis using D(10) [of ?c d] c that True assms(4) by auto
  qed (use D(10) that in auto)
  have sz: "0 < ?z b \<and> lo \<le> b \<and> b + ?z b < lo + 4294967296" if "b \<in> S - {?c}" "b \<noteq> B" for b
    using D(9) [of b] that zc assms(3,4) by (cases "b = p") auto
  have "links (ptr(p := ptr ?c)) (S - {?c})" using links_remove [OF D(4) assms(2)] c by simp
  then show "blocks lo B (ptr(p := ptr ?c)) ?z (S - {?c})"
    unfolding blocks_def using D(1-3) D(5) le sz pB assms(2,5) by auto
  have "units ?z (S - {?c}) = {p..<p + sz p + sz ?c} \<union> units ?z (S - {?c} - {p})" using units_split [of p "S - {?c}" ?z] assms(2) c by (simp add: add.assoc)
  also have "units ?z (S - {?c} - {p}) = units sz (S - {?c} - {p})" by (rule units_cong) auto
  also have "{p..<p + sz p + sz ?c} = {p..<p + sz p} \<union> {?c..<?c + sz ?c}" using assms(3,4) zc by auto
  also have "\<dots> \<union> units sz (S - {?c} - {p}) = units sz S"
    using units_split [OF c(1), of sz] units_split [of p "S - {?c}" sz] assms(2) c by auto
  finally show "units ?z (S - {?c}) = units sz S" .
  show "touch ?z (S - {?c}) \<subseteq> touch sz S - {p}" if "?c \<notin> touch sz S"
    using that c zc assms(4) by (auto simp: touch_def add.assoc split: if_splits)
qed

text \<open>The neighbours of a freed block are the only ones that it can touch.\<close>

lemma touch_insert:
  assumes r: "ring lo s S" and o: "outside lo s S bp (hsize s bp)" and p: "p \<in> S" and bt: "between p bp (hptr s p)"
  shows "touch (hsize s) (insert bp S) \<subseteq> {b. b = p \<and> p + hsize s p = bp \<or> b = bp \<and> bp + hsize s bp = hptr s p}"
proof
  fix b
  assume b: "b \<in> touch (hsize s) (insert bp S)"
  let ?c = "hptr s p"
  have B: "blocks lo (base s) (hptr s) (hsize s) S" and nt: "\<And>x. x \<in> S \<Longrightarrow> 0 < hsize s x \<Longrightarrow> x + hsize s x \<notin> S" using r by (auto simp: ring_def touch_def)
  note D = blocksD [OF B] and side = outside_sides [OF B o]
  have n: "0 < hsize s bp" "bp \<noteq> base s" using o by (auto simp: outside_def)
  have f: "follows S p ?c" and c: "?c \<in> S" using D(7,8) [OF p] .
  have strict: "x + hsize s x < y" if "x \<in> S" "y \<in> S" "x < y" for x y
    using D(6) [OF that(1)] D(10) [OF that] nt [OF that(1)] that(2,3) by (cases "hsize s x = 0") (auto simp: order_less_le)
  have s1: "x = p" if "x \<in> S" "x + hsize s x = bp" for x
    using followsD [OF f that(1)] side [OF that(1)] side [OF p] side [OF c] strict [OF that(1) p] D(6) [OF that(1)] D(6) [OF p] bt that n
    unfolding between_def by linarith
  have s2: "x = ?c" if "x \<in> S" "bp + hsize s bp = x" for x
    using followsD [OF f that(1)] side [OF that(1)] side [OF p] side [OF c] strict [OF c that(1)] D(6) [OF p] D(6) [OF c] bt that n
    unfolding between_def by linarith
  consider "b = bp" "bp + hsize s bp \<in> S" | "b \<in> S" "b + hsize s b = bp" | "b \<in> S" "0 < hsize s b" "b + hsize s b \<in> S"
    using b n by (auto simp: touch_def)
  then show "b \<in> {b. b = p \<and> p + hsize s p = bp \<or> b = bp \<and> bp + hsize s bp = ?c}"
    using s1 s2 nt by cases auto
qed

definition kr_frame :: "kr \<Rightarrow> kr \<Rightarrow> int set \<Rightarrow> bool" where
  "kr_frame s s' A \<longleftrightarrow> base s' = base s \<and> (\<forall>x. x \<notin> A \<longrightarrow> hptr s' x = hptr s x \<and> hsize s' x = hsize s x)"

lemma kr_frame_join: "p \<in> S \<Longrightarrow> kr_frame s (free_join s bp p) (insert bp S)"
  by (auto simp: kr_frame_def free_join_def Let_def)

lemma blocks_cong:
  assumes "blocks lo B f g S" and "\<And>b. b \<in> S \<Longrightarrow> f b = f' b" and "\<And>b. b \<in> S \<Longrightarrow> g b = g' b"
  shows "blocks lo B f' g' S"
  using assms links_cong [of f S f'] unfolding blocks_def by auto

lemma touch_cong: "(\<And>b. b \<in> S \<Longrightarrow> f b = g b) \<Longrightarrow> touch f S = touch g S"
  by (auto simp: touch_def)

lemma fuse_if:
  assumes "blocks lo B ptr sz S" and "p \<in> S" and "m \<longrightarrow> 0 < sz p \<and> ptr p = p + sz p \<and> ptr p \<noteq> B \<and> ptr p \<notin> touch sz S" and "\<not> m \<longrightarrow> p \<notin> touch sz S"
  shows "\<exists>S'. blocks lo B (if m then ptr(p := ptr (ptr p)) else ptr) (if m then sz(p := sz p + sz (ptr p)) else sz) S'
    \<and> units (if m then sz(p := sz p + sz (ptr p)) else sz) S' = units sz S \<and> touch (if m then sz(p := sz p + sz (ptr p)) else sz) S' \<subseteq> touch sz S - {p}
    \<and> S' = (if m then S - {ptr p} else S)"
  using assms blocks_fuse [OF assms(1,2)] by auto

lemma free_join_ring:
  assumes r: "ring lo s S" and o: "outside lo s S bp (hsize s bp)" and p: "p \<in> S" and bt: "between p bp (hptr s p)"
  shows "\<exists>S'. ring lo (free_join s bp p) S' \<and> units (hsize (free_join s bp p)) S' = units (hsize s) S \<union> {bp..<bp + hsize s bp}"
proof -
  let ?n = "hsize s bp" and ?c = "hptr s p" and ?s = "free_join s bp p"
  have B: "blocks lo (base s) (hptr s) (hsize s) S" using r by (simp add: ring_def)
  note D = blocksD [OF B] and side = outside_sides [OF B o]
  have n: "0 < ?n" "0 < bp" "lo \<le> bp" "bp + ?n < lo + 4294967296" "bp + ?n \<noteq> base s" "bp \<noteq> base s" using o by (auto simp: outside_def)
  have c: "?c \<in> S" and new: "bp \<notin> S" "p \<noteq> bp" using D(8) [OF p] side p by blast+
  define p1 where "p1 = (hptr s)(bp := ?c, p := bp)"
  have p1_bp: "p1 bp = ?c" using new by (simp add: p1_def)
  have p1: "p1 bp = ?c" "p1 p = bp" "p1 ?c = hptr s ?c" if "?c \<noteq> p" using new c that by (auto simp: p1_def)
  have B1: "blocks lo (base s) p1 (hsize s) (insert bp S)" unfolding p1_def using blocks_insert [OF B p bt n(2,1,3,4) side] .
  note t1 = touch_insert [OF r o p bt]
  have u1: "units (hsize s) (insert bp S) = units (hsize s) S \<union> {bp..<bp + ?n}" using units_insert [of "hsize s" bp S] by auto
  let ?m1 = "bp + ?n = ?c" and ?m2 = "p + hsize s p = bp"
  have cB: "?c \<noteq> base s" "?c \<noteq> p" if ?m1 using that n(5) followsD [OF D(7) [OF p] D(2)] by auto
  have pB: "p \<noteq> base s" if ?m2 using that D(3) new by auto
  let ?p2 = "if ?m1 then p1(bp := p1 (p1 bp)) else p1" and ?z2 = "if ?m1 then (hsize s)(bp := ?n + hsize s (p1 bp)) else hsize s"
  obtain S2 where B2: "blocks lo (base s) ?p2 ?z2 S2" "units ?z2 S2 = units (hsize s) (insert bp S)" "touch ?z2 S2 \<subseteq> touch (hsize s) (insert bp S) - {bp}"
      "S2 = (if ?m1 then insert bp S - {p1 bp} else insert bp S)"
    using fuse_if [OF B1, of bp ?m1] n(1) cB t1 p1 c new by fastforce
  have p2: "p \<in> S2" "?p2 p = bp" "?z2 p = hsize s p" "bp \<in> S2" using B2(4) p new p1 cB c by (auto simp: p1_def)
  let ?p3 = "if ?m2 then ?p2(p := ?p2 (?p2 p)) else ?p2" and ?z3 = "if ?m2 then ?z2(p := ?z2 p + ?z2 (?p2 p)) else ?z2"
  obtain S3 where B3: "blocks lo (base s) ?p3 ?z3 S3" "units ?z3 S3 = units ?z2 S2" "touch ?z3 S3 \<subseteq> touch ?z2 S2 - {p}"
      "S3 = (if ?m2 then S2 - {?p2 p} else S2)"
    using fuse_if [OF B2(1) p2(1), of ?m2] p2 n(6) pB D(9) [OF p] B2(3) t1 by fastforce
  have w1: "uint32 (?n + hsize s ?c) = ?n + hsize s ?c" if ?m1
    using blocksD(9) [OF B2(1) p2(4) n(6)] that n(3) p1_bp by (intro mod_pos_pos_trivial) (simp_all split: if_splits)
  have p3: "p \<in> S3" using B3(4) p2 new by auto
  have w2: "uint32 (hsize s p + ?z2 bp) = hsize s p + ?z2 bp" if ?m2
    using blocksD(9) [OF B3(1) p3 pB [OF that]] that p2(2,3) by (intro mod_pos_pos_trivial) (simp_all split: if_splits)
  have "hptr ?s = ?p3 \<and> hsize ?s = ?z3"
    using w1 w2 p1_bp p1 cB(2) new by (cases ?m1; cases ?m2) (simp_all add: free_join_def Let_def p1_def fun_upd_twist)
  then have "hptr ?s = ?p3" "hsize ?s = ?z3" by blast+
  moreover have "touch ?z3 S3 = {}" using B3(3) B2(3) t1 by blast
  moreover have "freep ?s = p" "base ?s = base s" by (simp_all add: free_join_def Let_def)
  ultimately have "ring lo ?s S3" "units (hsize ?s) S3 = units (hsize s) S \<union> {bp..<bp + ?n}"
    using B3(1,2) B2(2) u1 p3 by (auto simp: ring_def)
  then show ?thesis by blast
qed

section \<open>Freeing\<close>

lemma free_seek_finds:
  assumes "finite S" and "links (hptr s) S" and "bp \<notin> S" and "p \<in> S"
  shows "\<exists>q \<in> S. free_seek s bp p = Some q \<and> between q bp (hptr s q)"
  using assms(4)
proof (induction "card (ahead S p bp)" arbitrary: p rule: less_induct)
  case less
  have f: "follows S p (hptr s p)" using assms(2) less.prems by (simp add: links_def)
  note unfold = free_seek.simps [of s bp p]
  show ?case
  proof (cases "between p bp (hptr s p)")
    case True
    then have "free_seek s bp p = Some p" by (subst unfold) (auto simp: between_def)
    then show ?thesis using True less.prems by blast
  next
    case False
    then have "free_seek s bp p = free_seek s bp (hptr s p)" by (subst unfold) (auto simp: between_def)
    moreover have "card (ahead S (hptr s p) bp) < card (ahead S p bp)"
      using ahead_step(1) [OF assms(1) f _ False] assms(3) less.prems by blast
    ultimately show ?thesis using less.hyps follows_member [OF f] by simp
  qed
qed

lemma kr_free_ring:
  assumes "ring lo s S" and "outside lo s S bp (hsize s bp)"
  shows "\<exists>s' S'. kr_free s (bp + 1) = Some s' \<and> ring lo s' S' \<and> units (hsize s') S' = units (hsize s) S \<union> {bp..<bp + hsize s bp}
    \<and> kr_frame s s' (insert bp S)"
proof -
  have B: "blocks lo (base s) (hptr s) (hsize s) S" "freep s \<in> S" using assms(1) by (auto simp: ring_def)
  have "bp \<notin> S" using outside_sides [OF B(1) assms(2)] by blast
  then obtain q where q: "q \<in> S" "free_seek s bp (freep s) = Some q" "between q bp (hptr s q)"
    using free_seek_finds [OF blocksD(1,4) [OF B(1)] _ B(2)] by blast
  then have "kr_free s (bp + 1) = Some (free_join s bp q)" by (simp add: kr_free_def)
  then show ?thesis using free_join_ring [OF assms q(1,3)] kr_frame_join [OF q(1)] by blast
qed

lemma ring_cong:
  assumes "ring lo s S" and "base s' = base s" and "freep s' \<in> S" and "\<And>b. b \<in> S \<Longrightarrow> hptr s' b = hptr s b" and "\<And>b. b \<in> S \<Longrightarrow> hsize s' b = hsize s b"
  shows "ring lo s' S" and "units (hsize s') S = units (hsize s) S"
  using assms blocks_cong [of lo "base s" "hptr s" "hsize s" S "hptr s'" "hsize s'"] touch_cong [of S "hsize s" "hsize s'"] units_cong [of S "hsize s'" "hsize s"]
  by (auto simp: ring_def)

lemma morecore_ring:
  assumes r: "ring lo s S" and core: "core (max nu 4096) = Some hp" and o: "outside lo s S hp (max nu 4096)" and nu: "nu < 4294967296"
  shows "\<exists>s' S'. morecore core s nu = Some (s', freep s') \<and> freep s' \<noteq> 0 \<and> ring lo s' S' \<and> units (hsize s') S' = units (hsize s) S \<union> {hp..<hp + max nu 4096}
    \<and> kr_frame s s' (insert hp S)"
proof -
  let ?m = "max nu 4096" and ?s = "s\<lparr>hsize := (hsize s)(hp := max nu 4096)\<rparr>"
  have B: "blocks lo (base s) (hptr s) (hsize s) S" "freep s \<in> S" using r by (auto simp: ring_def)
  have hp: "hp \<notin> S" using outside_sides [OF B(1) o] by blast
  have r1: "ring lo ?s S" "units (hsize ?s) S = units (hsize s) S" by (rule ring_cong [OF r]; use B(2) hp in auto)+
  have "outside lo ?s S hp (hsize ?s hp)" using o r1(2) by (simp add: outside_def)
  from kr_free_ring [OF r1(1) this] obtain s' S' where
    s': "kr_free ?s (hp + 1) = Some s'" "ring lo s' S'" "units (hsize s') S' = units (hsize s) S \<union> {hp..<hp + ?m}" "kr_frame ?s s' (insert hp S)"
    using r1(2) by auto
  have "freep s' \<noteq> 0" using s'(2) blocksD(5) by (force simp: ring_def)
  moreover have "(if nu < 4096 then 4096 else nu) = ?m" "uint32 ?m = ?m" using nu by auto
  then have "morecore core s nu = Some (s', freep s')" using core s'(1) by (simp add: morecore_def Let_def)
  moreover have "kr_frame s s' (insert hp S)" using s'(4) by (auto simp: kr_frame_def)
  ultimately show ?thesis using s'(2,3) by blast
qed

section \<open>Allocating\<close>

lemma units_disjoint:
  assumes "blocks lo B ptr sz S" and "p \<in> S"
  shows "{p..<p + sz p} \<inter> units sz (S - {p}) = {}"
proof -
  have "{p..<p + sz p} \<inter> {b..<b + sz b} = {}" if "b \<in> S" "b \<noteq> p" for b
    using blocksD(10) [OF assms(1), of b p] blocksD(10) [OF assms(1), of p b] that assms(2) by (cases "b < p") auto
  then show ?thesis unfolding units_def by blast
qed

lemma ring_shrink:
  assumes "ring lo s S" and "p \<in> S" and "0 < n" and "n < hsize s p" and "q \<in> S"
  shows "ring lo (s\<lparr>hsize := (hsize s)(p := n, p + n := k), freep := q\<rparr>) S"
    and "units ((hsize s)(p := n, p + n := k)) S = units (hsize s) S - {p + n..<p + hsize s p}"
proof -
  let ?z = "(hsize s)(p := n, p + n := k)"
  have B: "blocks lo (base s) (hptr s) (hsize s) S" "touch (hsize s) S = {}" using assms(1) by (auto simp: ring_def)
  note D = blocksD [OF B(1)]
  have new: "p + n \<notin> S" using D(10) [OF assms(2), of "p + n"] assms(3,4) by auto
  have z: "?z b = (if b = p then n else hsize s b)" if "b \<in> S" for b using that new by auto
  have pB: "p \<noteq> base s" using D(3) assms(3,4) by auto
  have le: "b + ?z b \<le> c" if "b \<in> S" "c \<in> S" "b < c" for b c using D(10) [OF that] z [OF that(1)] assms(4) by auto
  have "blocks lo (base s) (hptr s) ?z S"
    unfolding blocks_def using D(1-5) D(9) le z pB assms(3,4) by force
  moreover have "touch ?z S = {}" using B(2) z new by (auto simp: touch_def split: if_splits)
  ultimately show "ring lo (s\<lparr>hsize := ?z, freep := q\<rparr>) S" using assms(5) by (simp add: ring_def)
  have sub: "{p + n..<p + hsize s p} \<subseteq> {p..<p + hsize s p}" using assms(3) by auto
  have "units ?z S = {p..<p + n} \<union> units ?z (S - {p})" using units_split [OF assms(2), of ?z] z [OF assms(2)] by simp
  also have "units ?z (S - {p}) = units (hsize s) (S - {p})" by (rule units_cong) (use z in auto)
  also have "{p..<p + n} = {p..<p + hsize s p} - {p + n..<p + hsize s p}" using assms(3,4) by auto
  also have "\<dots> \<union> units (hsize s) (S - {p}) = units (hsize s) S - {p + n..<p + hsize s p}"
    using units_split [OF assms(2), of "hsize s"] units_disjoint [OF B(1) assms(2)] sub by blast
  finally show "units ?z S = units (hsize s) S - {p + n..<p + hsize s p}" .
qed

lemma ring_remove:
  assumes "ring lo s S" and "q \<in> S" and "hptr s q \<noteq> base s"
  shows "ring lo (s\<lparr>hptr := (hptr s)(q := hptr s (hptr s q)), freep := q\<rparr>) (S - {hptr s q})"
    and "units (hsize s) (S - {hptr s q}) = units (hsize s) S - {hptr s q..<hptr s q + hsize s (hptr s q)}"
proof -
  have B: "blocks lo (base s) (hptr s) (hsize s) S" "touch (hsize s) S = {}" using assms(1) by (auto simp: ring_def)
  note D = blocksD [OF B(1)]
  have ne: "hptr s q \<noteq> q" using followsD [OF D(7) [OF assms(2)] D(2)] assms(3) by auto
  have "links ((hptr s)(q := hptr s (hptr s q))) (S - {hptr s q})" using links_remove [OF D(4) assms(2) ne] .
  then have "blocks lo (base s) ((hptr s)(q := hptr s (hptr s q))) (hsize s) (S - {hptr s q})" using B(1) assms(3) unfolding blocks_def by auto
  moreover have "touch (hsize s) (S - {hptr s q}) = {}" using B(2) by (auto simp: touch_def)
  ultimately show "ring lo (s\<lparr>hptr := (hptr s)(q := hptr s (hptr s q)), freep := q\<rparr>) (S - {hptr s q})"
    using assms(2) ne by (simp add: ring_def)
  show "units (hsize s) (S - {hptr s q}) = units (hsize s) S - {hptr s q..<hptr s q + hsize s (hptr s q)}"
    using units_split [OF D(8) [OF assms(2)], of "hsize s"] units_disjoint [OF B(1) D(8) [OF assms(2)]] by auto
qed

text \<open>What an allocation of \<open>n\<close> units from the free units \<open>G\<close> gives: a block of its own with its size in front, and no other free unit lost.\<close>

definition allotted :: "int \<Rightarrow> int set \<Rightarrow> int \<Rightarrow> kr \<times> int \<Rightarrow> bool" where
  "allotted lo G n r \<longleftrightarrow> (case r of (s, ap) \<Rightarrow> \<exists>S. ring lo s S \<and> 0 < ap \<and> hsize s (ap - 1) = n \<and> {ap - 1..<ap - 1 + n} \<subseteq> G
     \<and> units (hsize s) S = G - {ap - 1..<ap - 1 + n})"

lemma take_block_ring:
  assumes r: "ring lo s S" and q: "q \<in> S" and n: "0 < n" "n \<le> hsize s (hptr s q)"
  shows "allotted lo (units (hsize s) S) n (take_block s n q (hptr s q))"
    and "kr_frame s (fst (take_block s n q (hptr s q))) (S \<union> units (hsize s) S)"
proof -
  let ?p = "hptr s q"
  have B: "blocks lo (base s) (hptr s) (hsize s) S" using r by (simp add: ring_def)
  note D = blocksD [OF B]
  have p: "?p \<in> S" "0 < ?p" using D(8) [OF q] D(5) by auto
  have pB: "?p \<noteq> base s" using D(3) n by auto
  have sub: "{?p..<?p + hsize s ?p} \<subseteq> units (hsize s) S" using p(1) by (auto simp: units_def)
  show "allotted lo (units (hsize s) S) n (take_block s n q ?p)"
  proof (cases "hsize s ?p = n")
    case True
    then show ?thesis using ring_remove [OF r q pB] p(2) sub by (auto simp: allotted_def take_block_def intro!: exI [of _ "S - {?p}"])
  next
    case False
    define k where "k = hsize s ?p - n"
    have k: "0 < k" "k < hsize s ?p" "hsize s ?p = k + n" using False n by (auto simp: k_def)
    have tb: "take_block s n q ?p = (s\<lparr>hsize := (hsize s)(?p := k, ?p + k := n), freep := q\<rparr>, ?p + k + 1)"
      using False by (simp add: take_block_def k_def Let_def)
    note sh = ring_shrink [OF r p(1) k(1,2) q, of n]
    have "{?p + k..<?p + k + n} \<subseteq> {?p..<?p + hsize s ?p}" using k by auto
    then have "{?p + k..<?p + k + n} \<subseteq> units (hsize s) S" using sub by blast
    then show ?thesis using sh p(2) k unfolding tb by (auto simp: allotted_def add.assoc intro!: exI [of _ S])
  qed
  show "kr_frame s (fst (take_block s n q ?p)) (S \<union> units (hsize s) S)"
    using q p(1) sub n by (auto simp: kr_frame_def take_block_def Let_def subset_iff)
qed

lemma whole_ring:
  assumes "follows S t c" and "t \<in> S"
  shows "insert c (ahead S c t) = S"
proof -
  have "x \<in> insert c (ahead S c t)" if "x \<in> S" for x using followsD [OF assms(1) that] that by (auto simp: ahead_def)
  then show ?thesis using assms(1) by (auto simp: ahead_def follows_def)
qed

text \<open>The search takes a block that is large enough, or comes back to \<open>freep\<close> when there is none.\<close>

lemma malloc_search:
  assumes r: "ring lo s S" and "q \<in> S" and "\<And>x. x \<in> S \<Longrightarrow> n \<le> hsize s x \<Longrightarrow> x \<in> insert (hptr s q) (ahead S (hptr s q) (freep s))"
  shows "(\<exists>q' \<in> S. n \<le> hsize s (hptr s q') \<and> malloc_from core n s q (hptr s q) = Some (take_block s n q' (hptr s q')))
    \<or> (\<forall>x \<in> S. hsize s x < n) \<and> malloc_from core n s q (hptr s q)
        = do { (s', p) \<leftarrow> morecore core s n; if p = 0 then Some (s', 0) else malloc_from core n s' p (hptr s' p) }"
  using assms(2,3)
proof (induction "card (ahead S (hptr s q) (freep s))" arbitrary: q rule: less_induct)
  case less
  let ?p = "hptr s q"
  have B: "blocks lo (base s) (hptr s) (hsize s) S" "freep s \<in> S" using r by (auto simp: ring_def)
  note D = blocksD [OF B(1)]
  have p: "?p \<in> S" "follows S ?p (hptr s ?p)" using D(8) [OF less.prems(1)] D(7) by auto
  note unfold = malloc_from.simps [of core n s q ?p]
  consider (fit) "n \<le> hsize s ?p" | (turn) "hsize s ?p < n" "?p = freep s" | (go) "hsize s ?p < n" "?p \<noteq> freep s" by linarith
  then show ?case
  proof cases
    case fit
    then have "malloc_from core n s q ?p = Some (take_block s n q ?p)" by (subst unfold) simp
    then show ?thesis using fit less.prems(1) by blast
  next
    case turn
    have "ahead S ?p (freep s) = {}" unfolding turn(2) ahead_def by auto
    then have "\<forall>x \<in> S. hsize s x < n" using less.prems(2) turn(1) by force
    moreover have "malloc_from core n s q ?p = do { (s', p) \<leftarrow> morecore core s n; if p = 0 then Some (s', 0) else malloc_from core n s' p (hptr s' p) }"
      by (subst unfold) (use turn in simp)
    ultimately show ?thesis by blast
  next
    case go
    have st: "malloc_from core n s q ?p = malloc_from core n s ?p (hptr s ?p)" by (subst unfold) (use go in simp)
    note a = ahead_step [OF D(1) p(2) go(2) not_between_member [OF p(2) B(2)]]
    show ?thesis unfolding st
      by (rule less.hyps [OF a(1) p(1)]) (use less.prems(2) go(1) a(2) in force)
  qed
qed

lemma ring_members: "ring lo s S \<Longrightarrow> S \<subseteq> insert (base s) (units (hsize s) S)"
  using blocksD(9) by (fastforce simp: ring_def units_def)

lemma kr_frame_mono: "kr_frame s s' A \<Longrightarrow> A \<subseteq> B \<Longrightarrow> kr_frame s s' B"
  by (auto simp: kr_frame_def)

lemma kr_frame_trans: "kr_frame s s1 A \<Longrightarrow> kr_frame s1 s2 A \<Longrightarrow> kr_frame s s2 A"
  by (auto simp: kr_frame_def)

text \<open>Free units without a hole are in one block.\<close>

lemma one_block:
  assumes "blocks lo B ptr sz S" and "touch sz S = {}" and "{a..<a + m} \<subseteq> units sz S" and "0 < m"
  shows "\<exists>x \<in> S. x \<le> a \<and> a + m \<le> x + sz x"
proof -
  note D = blocksD [OF assms(1)]
  have "a \<in> units sz S" using assms(3,4) by auto
  then obtain x where x: "x \<in> S" "x \<le> a" "a < x + sz x" by (auto simp: units_def)
  have "a + m \<le> x + sz x"
  proof (rule ccontr)
    assume less: "\<not> a + m \<le> x + sz x"
    then have "x + sz x \<in> units sz S" using x assms(3) by auto
    then obtain y where y: "y \<in> S" "y \<le> x + sz x" "x + sz x < y + sz y" by (auto simp: units_def)
    have "y \<noteq> x" using y(3) by auto
    moreover have "\<not> y < x" using D(10) [OF y(1) x(1)] x y by linarith
    ultimately have "x < y" by linarith
    then have "x + sz x = y" using D(10) [OF x(1) y(1)] y(2) by simp
    then have "x \<in> touch sz S" using x y(1) by (auto simp: touch_def)
    then show False using assms(2) by simp
  qed
  then show ?thesis using x by blast
qed

text \<open>What \<open>malloc\<close> of \<open>n\<close> units does: it takes a free block, or new memory when no block is large enough, or fails when there is no memory. Only headers of free
  units are written.\<close>

definition malloc_spec :: "int \<Rightarrow> (int \<Rightarrow> int option) \<Rightarrow> kr \<Rightarrow> int set \<Rightarrow> int \<Rightarrow> kr \<times> int \<Rightarrow> bool" where
  "malloc_spec lo core s S n r \<longleftrightarrow>
     (let G = units (hsize s) S
      in if \<exists>x \<in> S. n \<le> hsize s x then allotted lo G n r \<and> kr_frame s (fst r) (insert (base s) G)
         else case core (max n 4096) of
                None \<Rightarrow> r = (s, 0)
              | Some hp \<Rightarrow> let G = G \<union> {hp..<hp + max n 4096} in allotted lo G n r \<and> kr_frame s (fst r) (insert (base s) G))"

lemma malloc_search_start:
  assumes r: "ring lo s S"
  shows "(\<exists>q' \<in> S. n \<le> hsize s (hptr s q') \<and> malloc_from core n s (freep s) (hptr s (freep s)) = Some (take_block s n q' (hptr s q')))
    \<or> (\<forall>x \<in> S. hsize s x < n) \<and> malloc_from core n s (freep s) (hptr s (freep s))
        = do { (s', p) \<leftarrow> morecore core s n; if p = 0 then Some (s', 0) else malloc_from core n s' p (hptr s' p) }"
proof -
  have "freep s \<in> S" "follows S (freep s) (hptr s (freep s))" using r blocksD(7) by (force simp: ring_def)+
  then show ?thesis by (intro malloc_search [OF r]) (simp_all add: whole_ring)
qed

lemma malloc_found:
  assumes r: "ring lo s S" and n: "0 < n" and fit: "x \<in> S" "n \<le> hsize s x"
  shows "\<exists>r. malloc_from core n s (freep s) (hptr s (freep s)) = Some r \<and> allotted lo (units (hsize s) S) n r
    \<and> kr_frame s (fst r) (insert (base s) (units (hsize s) S))"
proof -
  have ex: "\<not> (\<forall>x \<in> S. hsize s x < n)" using fit by force
  then obtain q where q: "q \<in> S" "n \<le> hsize s (hptr s q)" "malloc_from core n s (freep s) (hptr s (freep s)) = Some (take_block s n q (hptr s q))"
    using malloc_search_start [OF r] by blast
  note tb = take_block_ring [OF r q(1) n q(2)]
  show ?thesis using q(3) tb(1) kr_frame_mono [OF tb(2)] ring_members [OF r] by blast
qed

lemma malloc_units_spec:
  assumes r: "ring lo (malloc_init s) S" and n: "0 < n" "n < 4294967296"
    and new: "\<And>hp. core (max n 4096) = Some hp \<Longrightarrow> outside lo (malloc_init s) S hp (max n 4096)"
  shows "\<exists>r. malloc_units core s n = Some r \<and> malloc_spec lo core (malloc_init s) S n r"
proof (cases "\<exists>x \<in> S. n \<le> hsize (malloc_init s) x")
  case True
  then show ?thesis using malloc_found [OF r n(1)] by (auto simp: malloc_units_def malloc_spec_def Let_def)
next
  case False
  let ?s = "malloc_init s"
  have mf: "malloc_units core s n = do { (s', p) \<leftarrow> morecore core ?s n; if p = 0 then Some (s', 0) else malloc_from core n s' p (hptr s' p) }"
    using malloc_search_start [OF r, of n core] False blocksD(8) r by (fastforce simp: malloc_units_def Let_def ring_def)
  show ?thesis
  proof (cases "core (max n 4096)")
    case None
    then have "morecore core ?s n = Some (?s, 0)" by (auto simp: morecore_def Let_def max_def split: if_splits)
    then show ?thesis using mf None False by (simp add: malloc_spec_def Let_def)
  next
    case (Some hp)
    obtain s1 S1 where s1: "morecore core ?s n = Some (s1, freep s1)" "freep s1 \<noteq> 0" "ring lo s1 S1"
        "units (hsize s1) S1 = units (hsize ?s) S \<union> {hp..<hp + max n 4096}" "kr_frame ?s s1 (insert hp S)"
      using morecore_ring [of lo ?s S core n hp] r Some new n(2) by blast
    have "\<exists>x \<in> S1. x \<le> hp \<and> hp + max n 4096 \<le> x + hsize s1 x"
      by (rule one_block [of lo "base s1" "hptr s1"]) (use s1(3,4) in \<open>auto simp: ring_def\<close>)
    then obtain x where x: "x \<in> S1" "n \<le> hsize s1 x" by fastforce
    obtain r1 where r1: "malloc_from core n s1 (freep s1) (hptr s1 (freep s1)) = Some r1" "allotted lo (units (hsize s1) S1) n r1"
        "kr_frame s1 (fst r1) (insert (base s1) (units (hsize s1) S1))"
      using malloc_found [OF s1(3) n(1) x] by blast
    have "hp \<in> {hp..<hp + max n 4096}" by auto
    then have "insert hp S \<subseteq> insert (base ?s) (units (hsize s1) S1)" using ring_members [OF r] unfolding s1(4) by blast
    then have "kr_frame ?s s1 (insert (base ?s) (units (hsize s1) S1))" by (rule kr_frame_mono [OF s1(5)])
    moreover have "base s1 = base ?s" using s1(5) by (simp add: kr_frame_def)
    ultimately have "kr_frame ?s (fst r1) (insert (base ?s) (units (hsize s1) S1))" using kr_frame_trans r1(3) by metis
    then show ?thesis using mf s1(1,2,4) r1(1,2) Some False by (auto simp: malloc_spec_def Let_def)
  qed
qed

section \<open>The allocators\<close>

lemma malloc_init_fresh:
  assumes "freep s = 0" and "0 < base s"
  shows "ring lo (malloc_init s) {base s}" and "base (malloc_init s) = base s" and "units (hsize (malloc_init s)) {base s} = {}"
  using assms by (auto simp: malloc_init_def ring_def blocks_def links_def follows_def touch_def units_def)

lemma malloc_init_ring: "ring lo s S \<Longrightarrow> malloc_init s = s"
  using blocksD(5) by (force simp: malloc_init_def ring_def)

lemma nunits8_bound:
  assumes "0 \<le> nbytes" and "nbytes \<le> 2147483632"
  shows "0 < nunits8 nbytes" and "nunits8 nbytes * 8 \<le> nbytes + 15" and "nbytes \<le> 8 * (nunits8 nbytes - 1)"
proof -
  define q where "q = (nbytes + 7) div 8"
  have q: "8 * q \<le> nbytes + 7" "nbytes \<le> 8 * q" unfolding q_def using mult_div_mod_eq [of 8 "nbytes + 7"] pos_mod_bound [of 8 "nbytes + 7"] pos_mod_sign [of 8 "nbytes + 7"] by linarith+
  have "nunits8 nbytes = q + 1" using assms by (simp add: nunits8_def q_def)
  then show "0 < nunits8 nbytes" "nunits8 nbytes * 8 \<le> nbytes + 15" "nbytes \<le> 8 * (nunits8 nbytes - 1)" using q assms by auto
qed

text \<open>C5: \<open>malloc\<close> of the xv6 user library returns for every request below 2 GB: it searches the whole ring, takes the block from the free units or from memory that it
  gets from \<open>sbrk\<close>, and returns the null pointer only when no block is large enough and \<open>sbrk\<close> fails. The block has room for the request and its size in front, the
  other free units stay free, the ring stays ordered and fully merged, and only headers of free units are written.\<close>

theorem umalloc_correct:
  assumes "ring lo (malloc_init s) S" and "0 \<le> nbytes" and "nbytes \<le> 2147483632"
    and "\<And>hp. sbrk (max (nunits8 nbytes) 4096 * 8) = Some hp \<Longrightarrow> outside lo (malloc_init s) S hp (max (nunits8 nbytes) 4096)"
  shows "\<exists>r. malloc sbrk s nbytes = Some r \<and> malloc_spec lo (\<lambda>nu. sbrk (cint (nu * 8))) (malloc_init s) S (nunits8 nbytes) r
    \<and> nbytes \<le> 8 * (nunits8 nbytes - 1)"
proof -
  note b = nunits8_bound [OF assms(2,3)]
  have "cint (max (nunits8 nbytes) 4096 * 8) = max (nunits8 nbytes) 4096 * 8" using b(1,2) assms(3) by (auto simp: cint_def max_def)
  then show ?thesis
    using malloc_units_spec [OF assms(1) b(1), of "\<lambda>nu. sbrk (cint (nu * 8))"] b assms(3,4) by (auto simp: malloc_def)
qed

theorem umalloc_correct_witness:
  "\<exists>r. malloc (\<lambda>_. Some 1000) \<lparr>base = 1, freep = 0, hptr = \<lambda>_. 0, hsize = \<lambda>_. 0\<rparr> 100 = Some r
     \<and> malloc_spec 1 (\<lambda>nu. Some 1000) (malloc_init \<lparr>base = 1, freep = 0, hptr = \<lambda>_. 0, hsize = \<lambda>_. 0\<rparr>) {1} (nunits8 100) r \<and> 100 \<le> 8 * (nunits8 100 - 1)"
proof -
  let ?h = "\<lparr>base = 1, freep = 0, hptr = \<lambda>_. 0, hsize = \<lambda>_. 0\<rparr>"
  have r: "ring 1 (malloc_init ?h) {1}" "units (hsize (malloc_init ?h)) {1} = {}" "base (malloc_init ?h) = 1" using malloc_init_fresh [of ?h] by auto
  have o: "outside 1 (malloc_init ?h) {1} 1000 (max (nunits8 100) 4096)" using r by (auto simp: outside_def nunits8_def)
  show ?thesis using umalloc_correct [of 1 ?h "{1}" 100 "\<lambda>_. Some 1000"] r(1) o by simp
qed

text \<open>C6: Freeing a block puts exactly its units back into the ring, in its place by address and merged with both neighbours where they touch; the search for the place
  ends, and only headers of free units and of the block are written.\<close>

theorem umalloc_free_correct:
  assumes "ring lo s S" and "outside lo s S bp (hsize s bp)"
  shows "\<exists>s' S'. kr_free s (bp + 1) = Some s' \<and> ring lo s' S' \<and> units (hsize s') S' = units (hsize s) S \<union> {bp..<bp + hsize s bp}
    \<and> kr_frame s s' (insert bp S)"
  by (rule kr_free_ring [OF assms])

theorem umalloc_free_correct_witness:
  "\<exists>s' S'. kr_free \<lparr>base = 1, freep = 1, hptr = \<lambda>_. 1, hsize = (\<lambda>_. 0)(10 := 5)\<rparr> (10 + 1) = Some s' \<and> ring 1 s' S'
     \<and> units (hsize s') S' = units ((\<lambda>_. 0)(10 := 5)) {1} \<union> {10..<10 + 5} \<and> kr_frame \<lparr>base = 1, freep = 1, hptr = \<lambda>_. 1, hsize = (\<lambda>_. 0)(10 := 5)\<rparr> s' (insert 10 {1})"
proof -
  let ?s = "\<lparr>base = 1, freep = 1, hptr = \<lambda>_. 1, hsize = (\<lambda>_. 0)(10 := 5)\<rparr>"
  have "ring 1 ?s {1}" by (auto simp: ring_def blocks_def links_def follows_def touch_def)
  moreover have "outside 1 ?s {1} 10 (hsize ?s 10)" by (auto simp: outside_def units_def)
  ultimately show ?thesis using umalloc_free_correct [of 1 ?s "{1}" 10] by simp
qed

lemma kr_free_allotted:
  assumes "ring lo s S" and "allotted lo (units (hsize s) S) n (s1, ap)" and "base s1 = base s" and "0 < n"
  shows "\<exists>s2 S2. kr_free s1 ap = Some s2 \<and> ring lo s2 S2 \<and> units (hsize s2) S2 = units (hsize s) S"
proof -
  let ?G = "units (hsize s) S" and ?b = "ap - 1"
  obtain S1 where S1: "ring lo s1 S1" "0 < ap" "hsize s1 ?b = n" "{?b..<?b + n} \<subseteq> ?G" "units (hsize s1) S1 = ?G - {?b..<?b + n}"
    using assms(2) by (auto simp: allotted_def)
  have B: "blocks lo (base s) (hptr s) (hsize s) S" "touch (hsize s) S = {}" using assms(1) by (auto simp: ring_def)
  note D = blocksD [OF B(1)]
  obtain x where x: "x \<in> S" "x \<le> ?b" "?b + n \<le> x + hsize s x" using one_block [OF B S1(4) assms(4)] by blast
  have xB: "x \<noteq> base s" using x D(3) assms(4) by auto
  note lim = D(9) [OF x(1) xB] D(5) [OF x(1)]
  have "base s \<noteq> x + hsize s x" using B(2) x(1) D(2) lim by (auto simp: touch_def)
  then have "base s \<notin> {?b..?b + n}" using D(10) [OF x(1) D(2)] xB x by auto
  then have "outside lo s1 S1 ?b (hsize s1 ?b)" using x lim S1 assms(3,4) unfolding outside_def by auto
  then show ?thesis using kr_free_ring [OF S1(1), of ?b] S1(3,4,5) by (auto simp: Un_absorb2)
qed

text \<open>A block can be given back: \<open>free\<close> after \<open>malloc\<close> restores the free units.\<close>

theorem umalloc_roundtrip:
  assumes "ring lo s S" and "0 < n" and "x \<in> S" and "n \<le> hsize s x"
  shows "\<exists>s1 ap s2 S2. malloc_units core s n = Some (s1, ap) \<and> kr_free s1 ap = Some s2 \<and> ring lo s2 S2 \<and> units (hsize s2) S2 = units (hsize s) S"
proof -
  obtain s1 ap where m: "malloc_from core n s (freep s) (hptr s (freep s)) = Some (s1, ap)" "allotted lo (units (hsize s) S) n (s1, ap)"
      "kr_frame s s1 (insert (base s) (units (hsize s) S))"
    using malloc_found [OF assms] by (metis fst_conv surj_pair)
  have "malloc_units core s n = Some (s1, ap)" using m(1) malloc_init_ring [OF assms(1)] by (simp add: malloc_units_def Let_def)
  moreover have "base s1 = base s" using m(3) by (simp add: kr_frame_def)
  ultimately show ?thesis using kr_free_allotted [OF assms(1) m(2) _ assms(2)] by blast
qed

theorem umalloc_roundtrip_witness:
  "\<exists>s1 ap s2 S2. malloc_units (\<lambda>_. None) \<lparr>base = 1, freep = 1, hptr = (\<lambda>_. 1)(1 := 10), hsize = (\<lambda>_. 0)(10 := 5)\<rparr> 2 = Some (s1, ap)
     \<and> kr_free s1 ap = Some s2 \<and> ring 1 s2 S2 \<and> units (hsize s2) S2 = units ((\<lambda>_. 0)(10 := 5)) {1, 10}"
proof -
  let ?s = "\<lparr>base = 1, freep = 1, hptr = (\<lambda>_. 1)(1 := 10), hsize = (\<lambda>_. 0)(10 := 5)\<rparr>"
  have "ring 1 ?s {1, 10}" by (auto simp: ring_def blocks_def links_def follows_def touch_def)
  from umalloc_roundtrip [OF this, of 2 10 "\<lambda>_. None"] show ?thesis by simp
qed

text \<open>\<open>xmalloc\<close> of \<open>xv6_malloc.c\<close> keeps the same contract under its lock, for requests below 64 GB: it returns with the lock free again, also when there is no memory.\<close>

theorem kr_xmalloc_correct:
  assumes "ring lo (malloc_init (heap s)) S" and "klock s = False" and "0 \<le> nbytes" and "nbytes \<le> 68719476704"
    and "\<And>hp. mmap (max (nunits16 nbytes) 4096 * 16) = Some hp \<Longrightarrow> outside lo (malloc_init (heap s)) S hp (max (nunits16 nbytes) 4096)"
  shows "\<exists>h p. kr_xmalloc mmap s nbytes = Some (s\<lparr>heap := h, klock := False\<rparr>, p)
    \<and> malloc_spec lo (\<lambda>nu. mmap (nu * 16)) (malloc_init (heap s)) S (nunits16 nbytes) (h, p) \<and> nbytes \<le> 16 * (nunits16 nbytes - 1)"
proof -
  define q where "q = (nbytes + 15) div 16"
  have q: "16 * q \<le> nbytes + 15" "nbytes \<le> 16 * q"
    unfolding q_def using mult_div_mod_eq [of 16 "nbytes + 15"] pos_mod_bound [of 16 "nbytes + 15"] pos_mod_sign [of 16 "nbytes + 15"] by linarith+
  have n: "nunits16 nbytes = q + 1" using assms(3,4) q by (auto simp: nunits16_def size_t_def simp flip: q_def)
  have b: "0 < nunits16 nbytes" "nunits16 nbytes < 4294967296" unfolding n using q assms(3,4) by linarith+
  obtain h p where hp: "malloc_units (\<lambda>nu. mmap (nu * 16)) (heap s) (nunits16 nbytes) = Some (h, p)"
      "malloc_spec lo (\<lambda>nu. mmap (nu * 16)) (malloc_init (heap s)) S (nunits16 nbytes) (h, p)"
    using malloc_units_spec [OF assms(1) b, of "\<lambda>nu. mmap (nu * 16)"] assms(5) by auto
  have "kr_xmalloc mmap s nbytes = Some (s\<lparr>heap := h, klock := False\<rparr>, p)" using assms(2) hp(1) by (simp add: kr_xmalloc_def kr_lock_def kr_unlock_def)
  then show ?thesis using hp(2) n q(2) by auto
qed

theorem kr_xmalloc_correct_witness:
  "\<exists>h p. kr_xmalloc (\<lambda>_. Some 1000) \<lparr>heap = \<lparr>base = 1, freep = 0, hptr = \<lambda>_. 0, hsize = \<lambda>_. 0\<rparr>, klock = False\<rparr> 100
       = Some (\<lparr>heap = h, klock = False\<rparr>, p)
     \<and> malloc_spec 1 (\<lambda>nu. Some 1000) (malloc_init \<lparr>base = 1, freep = 0, hptr = \<lambda>_. 0, hsize = \<lambda>_. 0\<rparr>) {1} (nunits16 100) (h, p) \<and> 100 \<le> 16 * (nunits16 100 - 1)"
proof -
  let ?h = "\<lparr>base = 1, freep = 0, hptr = \<lambda>_. 0, hsize = \<lambda>_. 0\<rparr>"
  have r: "ring 1 (malloc_init ?h) {1}" "units (hsize (malloc_init ?h)) {1} = {}" "base (malloc_init ?h) = 1" using malloc_init_fresh [of ?h] by auto
  have o: "outside 1 (malloc_init ?h) {1} 1000 (max (nunits16 100) 4096)" using r by (auto simp: outside_def nunits16_def size_t_def)
  show ?thesis using kr_xmalloc_correct [of 1 "\<lparr>heap = ?h, klock = False\<rparr>" "{1}" 100 "\<lambda>_. Some 1000"] r(1) o by simp
qed

text \<open>The sizes wrap: in xv6 a request of nearly 4 GB becomes a block without a single byte, and one of more than 2 GB becomes a negative argument of \<open>sbrk\<close>, which makes
  the process smaller; \<open>xmalloc\<close> turns 64 GB into a block without a byte.\<close>

theorem umalloc_size_wraps: "4294967289 \<le> nbytes \<Longrightarrow> nbytes \<le> 4294967295 \<Longrightarrow> nunits8 nbytes = 1"
proof -
  assume a: "4294967289 \<le> nbytes" "nbytes \<le> 4294967295"
  have "(nbytes + 7) mod 4294967296 = nbytes + 7 - 4294967296" using minus_mod_self2 [of "nbytes + 7" 4294967296] a by simp
  then show "nunits8 nbytes = 1" using a by (simp add: nunits8_def div_pos_pos_trivial add.commute)
qed

theorem xmalloc_size_wraps: "nunits16 68719476736 = 1"
  by (simp add: nunits16_def size_t_def)

theorem umalloc_sbrk_negative: "cint (nunits8 2147483633 * 8) = - 2147483648"
  by (simp add: nunits8_def cint_def)

end
