(* ===== verification/Nufs_Pages.thy ===== *)
theory Nufs_Pages
  imports Prelude
begin

text \<open>
  The disk image of the nufs file system: \<open>hw10/unnas-fshw/bitmap.c\<close>, \<open>pages.c\<close> and the
  arithmetic of \<open>util.h\<close>.

  The image is the 1 MB memory mapped by \<open>pages_init\<close>; an address is an offset from
  \<open>pages_base\<close>. Page 0 holds the two bitmaps (pages at byte 0, inodes at byte 32), page 1 the
  inode table. An access outside the mapping is a crash of the process, as a failed
  \<open>assert\<close> is: the result is \<open>None\<close>. \<open>slot_allocator\<close> is the contract of a bitmap
  allocator, interpreted here for pages and in \<open>Nufs_Inode\<close> for inodes.
\<close>

section \<open>The image and its accessors\<close>

record nufs =
  disk :: mem
  inodes_base :: "int option"

definition PAGE_COUNT :: int where "PAGE_COUNT = 256"
definition NUFS_SIZE :: int where "NUFS_SIZE = 4096 * 256"

definition in_image :: "int \<Rightarrow> int \<Rightarrow> bool" where
  "in_image a n \<longleftrightarrow> 0 \<le> a \<and> a + n \<le> NUFS_SIZE"

definition load8 :: "nufs \<Rightarrow> int \<Rightarrow> byte option" where
  "load8 s a = (if in_image a 1 then Some (rd8 (disk s) a) else None)"

definition store8 :: "nufs \<Rightarrow> int \<Rightarrow> byte \<Rightarrow> nufs option" where
  "store8 s a b = (if in_image a 1 then Some (s\<lparr>disk := wr8 (disk s) a b\<rparr>) else None)"

definition load32 :: "nufs \<Rightarrow> int \<Rightarrow> int option" where
  "load32 s a = (if in_image a 4 then Some (rd32 (disk s) a) else None)"

definition store32 :: "nufs \<Rightarrow> int \<Rightarrow> int \<Rightarrow> nufs option" where
  "store32 s a v = (if in_image a 4 then Some (s\<lparr>disk := wr32 (disk s) a v\<rparr>) else None)"

lemmas access_defs = load8_def store8_def load32_def store32_def in_image_def NUFS_SIZE_def

section \<open>util.h\<close>

definition util_min :: "int \<Rightarrow> int \<Rightarrow> int" where
  "util_min x y = (if x < y then x else y)"

definition util_max :: "int \<Rightarrow> int \<Rightarrow> int" where
  "util_max x y = (if x > y then x else y)"

definition clamp :: "int \<Rightarrow> int \<Rightarrow> int \<Rightarrow> int" where
  "clamp x v0 v1 = util_max v0 (util_min x v1)"

definition bytes_to_pages :: "int \<Rightarrow> int" where
  "bytes_to_pages bytes =
     (let quo = cdiv bytes 4096; rem = cmod bytes 4096
      in if rem = 0 then quo else quo + 1)"

section \<open>bitmap.c\<close>

definition bitmap_get :: "nufs \<Rightarrow> int \<Rightarrow> int \<Rightarrow> int option" where
  "bitmap_get s bm ii = do {
     b \<leftarrow> load8 s (bm + cdiv ii 8);
     if cmod ii 8 < 0 then None
     else Some (uint (b AND push_bit (nat (cmod ii 8)) 1)) }"

definition bitmap_put :: "nufs \<Rightarrow> int \<Rightarrow> int \<Rightarrow> int \<Rightarrow> nufs option" where
  "bitmap_put s bm ii vv =
     (let idx = cdiv ii 8; shift = cmod ii 8 in do {
        b \<leftarrow> load8 s (bm + idx);
        if shift < 0 then None
        else if vv = 0 then store8 s (bm + idx) (b AND NOT (push_bit (nat shift) 1))
        else store8 s (bm + idx) (b OR push_bit (nat shift) 1) })"

section \<open>pages.c\<close>

definition pages_get_page :: "int \<Rightarrow> int" where
  "pages_get_page pnum = cint (4096 * pnum)"

definition get_pages_bitmap :: int where
  "get_pages_bitmap = pages_get_page 0"

definition get_inode_bitmap :: int where
  "get_inode_bitmap = pages_get_page 0 + 32"

text \<open>
  \<open>open_file\<close> is the content of the backing file when \<open>open\<close> succeeds; \<open>trunc_ok\<close> and
  \<open>map_ok\<close> say whether \<open>ftruncate\<close> and \<open>mmap\<close> do. \<open>ftruncate\<close> cuts or zero-extends
  the file to the size of the image.
\<close>

definition pages_init :: "byte list option \<Rightarrow> bool \<Rightarrow> bool \<Rightarrow> nufs option" where
  "pages_init open_file trunc_ok map_ok = do {
     content \<leftarrow> open_file;
     if \<not> trunc_ok \<or> \<not> map_ok then None
     else bitmap_put
            \<lparr>disk = (\<lambda>a. if 0 \<le> a \<and> a < NUFS_SIZE \<and> nat a < length content
                          then content ! nat a else 0),
             inodes_base = None\<rparr>
            get_pages_bitmap 0 1 }"

function alloc_page_from :: "nufs \<Rightarrow> int \<Rightarrow> (int \<times> nufs) option" where
  "alloc_page_from s ii =
     (if ii < PAGE_COUNT then do {
        g \<leftarrow> bitmap_get s get_pages_bitmap ii;
        if g = 0 then do {
          s' \<leftarrow> bitmap_put s get_pages_bitmap ii 1;
          Some (ii, s') }
        else alloc_page_from s (ii + 1) }
      else Some (-1, s))"
  by pat_completeness auto
termination
  by (relation "measure (\<lambda>(s, ii). nat (PAGE_COUNT - ii))") auto

definition alloc_page :: "nufs \<Rightarrow> (int \<times> nufs) option" where
  "alloc_page s = alloc_page_from s 1"

definition free_page :: "nufs \<Rightarrow> int \<Rightarrow> nufs option" where
  "free_page s pnum = bitmap_put s get_pages_bitmap pnum 0"

declare alloc_page_from.simps [simp del]

section \<open>Bits of the bitmaps\<close>

definition bm_bit :: "mem \<Rightarrow> int \<Rightarrow> int \<Rightarrow> bool" where
  "bm_bit m bm i \<longleftrightarrow> bit (m (bm + i div 8)) (nat (i mod 8))"

definition page_used :: "nufs \<Rightarrow> int \<Rightarrow> bool" where
  "page_used s i \<longleftrightarrow> bm_bit (disk s) 0 i"

definition inode_used :: "nufs \<Rightarrow> int \<Rightarrow> bool" where
  "inode_used s i \<longleftrightarrow> bm_bit (disk s) 32 i"

lemma get_pages_bitmap_0 [simp]: "get_pages_bitmap = 0"
  by (simp add: get_pages_bitmap_def pages_get_page_def)

lemma get_inode_bitmap_32 [simp]: "get_inode_bitmap = 32"
  by (simp add: get_inode_bitmap_def pages_get_page_def)

lemma pages_get_page_eq [simp]: "\<bar>pnum\<bar> < 524288 \<Longrightarrow> pages_get_page pnum = 4096 * pnum"
  by (auto simp: pages_get_page_def intro: cint_id)

lemma mod8_nonneg [simp]: "\<not> (i :: int) mod 8 < 0"
  by (simp add: not_less)

lemma and_single_bit_eq_0: "(b :: byte) AND 2 ^ n = 0 \<longleftrightarrow> \<not> bit b n"
proof -
  have "b AND 2 ^ n = (if bit b n then 2 ^ n else 0)"
    by (rule bit_eqI) (auto simp: bit_simps)
  moreover have "(2 ^ n :: byte) \<noteq> 0" if "bit b n"
    using bit_imp_le_length [OF that] by (auto simp: bit_eq_iff bit_simps intro!: exI [of _ n])
  ultimately show ?thesis by auto
qed

lemma bm_index:
  fixes i j :: int
  shows "bm + i div 8 = bm + j div 8 \<and> nat (i mod 8) = nat (j mod 8) \<longleftrightarrow> i = j"
  by (metis add_left_cancel eq_nat_nat_iff mult_div_mod_eq pos_mod_sign zero_less_numeral)

text \<open>The bitmap at \<open>bm\<close> has room for index \<open>i\<close> inside the image.\<close>

definition bm_ok :: "int \<Rightarrow> int \<Rightarrow> bool" where
  "bm_ok bm i \<longleftrightarrow> 0 \<le> i \<and> 0 \<le> bm \<and> bm + i div 8 < NUFS_SIZE"

lemma bitmap_get_eq:
  assumes "bm_ok bm i"
  shows "\<exists>g. bitmap_get s bm i = Some g \<and> (g = 0 \<longleftrightarrow> \<not> bm_bit (disk s) bm i)"
proof -
  have "0 \<le> bm + i div 8" "bm + i div 8 < NUFS_SIZE" "0 \<le> i"
    using assms by (auto simp: bm_ok_def intro: add_nonneg_nonneg pos_imp_zdiv_nonneg_iff [THEN iffD2])
  then show ?thesis
    by (simp add: bitmap_get_def load8_def in_image_def rd8_def bm_bit_def uint_0_iff and_single_bit_eq_0)
qed

text \<open>
  \<open>bitmap_put\<close> changes one bit: the byte that holds it is the only byte written, and every
  other bit of the bitmap keeps its value.
\<close>

lemma bitmap_put_eq:
  assumes "bm_ok bm i"
  shows "\<exists>s'. bitmap_put s bm i vv = Some s'
           \<and> inodes_base s' = inodes_base s
           \<and> (\<forall>x. x \<noteq> bm + i div 8 \<longrightarrow> disk s' x = disk s x)
           \<and> (\<forall>j. bm_bit (disk s') bm j = (if j = i then vv \<noteq> 0 else bm_bit (disk s) bm j))"
proof -
  let ?a = "bm + i div 8" and ?n = "nat (i mod 8)"
  have ok: "0 \<le> ?a" "?a < NUFS_SIZE" "0 \<le> i"
    using assms by (auto simp: bm_ok_def intro: add_nonneg_nonneg pos_imp_zdiv_nonneg_iff [THEN iffD2])
  define v where "v = (if vv = 0 then disk s ?a AND NOT (push_bit ?n 1) else disk s ?a OR push_bit ?n 1)"
  have n8: "nat (j mod 8) < 8" for j :: int by (simp add: nat_less_iff)
  have put: "bitmap_put s bm i vv = Some (s\<lparr>disk := (disk s)(?a := v)\<rparr>)"
    using ok by (simp add: bitmap_put_def load8_def store8_def in_image_def rd8_def wr8_def v_def Let_def)
  have bits: "bit v k = (if k = ?n then vv \<noteq> 0 else bit (disk s ?a) k)" if "k < 8" for k
    using that by (auto simp: v_def bit_simps)
  have "bm_bit ((disk s)(?a := v)) bm j = (if j = i then vv \<noteq> 0 else bm_bit (disk s) bm j)" for j
  proof (cases "j div 8 = i div 8")
    case True
    then have "nat (j mod 8) = ?n \<longleftrightarrow> j = i" using bm_index [of bm i j] by argo
    with True bits [OF n8 [of j]] show ?thesis by (simp add: bm_bit_def)
  next
    case False
    then show ?thesis by (auto simp: bm_bit_def)
  qed
  with put show ?thesis by simp
qed


lemma bm_bit_cong:
  "m (bm + i div 8) = m' (bm + i div 8) \<Longrightarrow> bm_bit m bm i = bm_bit m' bm i"
  by (simp add: bm_bit_def)

lemma div8_bounds:
  fixes i :: int
  shows "0 \<le> i \<Longrightarrow> 0 \<le> i div 8" and "i < 64 \<Longrightarrow> i div 8 < 8" and "i < 256 \<Longrightarrow> i div 8 < 32"
  by presburger+

section \<open>The contract of a bitmap allocator\<close>

text \<open>
  \<open>alloc\<close> hands out a slot that was free and marks exactly that slot, or answers \<open>-1\<close> and
  changes nothing when every slot of its range is taken; \<open>release\<close> clears exactly one slot.
\<close>

locale slot_allocator =
  fixes used :: "'s \<Rightarrow> int \<Rightarrow> bool"
    and alloc :: "'s \<Rightarrow> (int \<times> 's) option"
    and release :: "'s \<Rightarrow> int \<Rightarrow> 's option"
    and ready :: "'s \<Rightarrow> bool"
    and lo hi :: int
  assumes lo_nonneg: "0 \<le> lo"
    and alloc_total: "ready s \<Longrightarrow> \<exists>i s'. alloc s = Some (i, s') \<and> ready s'"
    and alloc_slot: "ready s \<Longrightarrow> alloc s = Some (i, s') \<Longrightarrow> i \<noteq> -1 \<Longrightarrow>
          lo \<le> i \<and> i < hi \<and> \<not> used s i \<and> (\<forall>j. 0 \<le> j \<and> j < hi \<longrightarrow> used s' j = (j = i \<or> used s j))"
    and alloc_least: "ready s \<Longrightarrow> alloc s = Some (i, s') \<Longrightarrow> i \<noteq> -1 \<Longrightarrow> lo \<le> j \<Longrightarrow> j < i \<Longrightarrow> used s j"
    and alloc_none: "ready s \<Longrightarrow> alloc s = Some (-1, s') \<Longrightarrow> s' = s \<and> (\<forall>j. lo \<le> j \<and> j < hi \<longrightarrow> used s j)"
    and release_slot: "ready s \<Longrightarrow> 0 \<le> i \<Longrightarrow> i < hi \<Longrightarrow> used s i \<Longrightarrow>
          \<exists>s'. release s i = Some s' \<and> ready s'
               \<and> (\<forall>j. 0 \<le> j \<and> j < hi \<longrightarrow> used s' j = (j \<noteq> i \<and> used s j))"
begin

lemma alloc_succeeds_iff:
  assumes "ready s" and "alloc s = Some (i, s')"
  shows "i \<noteq> -1 \<longleftrightarrow> (\<exists>j. lo \<le> j \<and> j < hi \<and> \<not> used s j)"
  using alloc_slot [OF assms] alloc_none [OF assms(1), of s'] assms(2) by blast

lemma alloc_distinct:
  assumes "ready s" and "alloc s = Some (i, s1)" and "i \<noteq> -1"
    and "alloc s1 = Some (j, s2)" and "j \<noteq> -1"
  shows "i \<noteq> j"
proof -
  have "ready s1" using alloc_total [OF assms(1)] assms(2) by auto
  then show ?thesis
    using alloc_slot [OF assms(1,2,3)] alloc_slot [OF _ assms(4,5)] lo_nonneg by force
qed

text \<open>Releasing the slot just handed out restores every bit of the map.\<close>

lemma alloc_release:
  assumes "ready s" and "alloc s = Some (i, s1)" and "i \<noteq> -1"
  shows "\<exists>s2. release s1 i = Some s2 \<and> (\<forall>j. 0 \<le> j \<and> j < hi \<longrightarrow> used s2 j = used s j)"
proof -
  have r1: "ready s1" using alloc_total [OF assms(1)] assms(2) by auto
  have i: "lo \<le> i" "i < hi" "\<not> used s i" and u: "\<forall>j. 0 \<le> j \<and> j < hi \<longrightarrow> used s1 j = (j = i \<or> used s j)"
    using alloc_slot [OF assms] by auto
  obtain s2 where "release s1 i = Some s2" "\<forall>j. 0 \<le> j \<and> j < hi \<longrightarrow> used s2 j = (j \<noteq> i \<and> used s1 j)"
    using release_slot [OF r1, of i] i u lo_nonneg by auto
  with i u show ?thesis by auto
qed

end

section \<open>Page allocation\<close>

text \<open>What the page allocator leaves alone: every byte beyond the 32 of its bitmap.\<close>

definition same_beyond :: "int \<Rightarrow> nufs \<Rightarrow> nufs \<Rightarrow> bool" where
  "same_beyond n s s' \<longleftrightarrow> inodes_base s' = inodes_base s \<and> (\<forall>x. n \<le> x \<longrightarrow> disk s' x = disk s x)"

lemma same_beyond_refl [simp]: "same_beyond n s s"
  by (simp add: same_beyond_def)

lemma same_beyond_trans: "same_beyond n s s' \<Longrightarrow> same_beyond n s' s'' \<Longrightarrow> same_beyond n s s''"
  by (simp add: same_beyond_def)

lemma bm_ok_page [simp]: "0 \<le> i \<Longrightarrow> i < 256 \<Longrightarrow> bm_ok 0 i"
  by (auto simp: bm_ok_def NUFS_SIZE_def)

lemma put_page_bit:
  assumes "0 \<le> i" "i < 256"
  shows "\<exists>s'. bitmap_put s 0 i vv = Some s' \<and> same_beyond 32 s s'
           \<and> (\<forall>j. page_used s' j = (if j = i then vv \<noteq> 0 else page_used s j))"
  using bitmap_put_eq [of 0 i s vv] assms by (fastforce simp: page_used_def same_beyond_def)

lemma get_page_bit:
  assumes "0 \<le> i" "i < 256"
  shows "\<exists>g. bitmap_get s 0 i = Some g \<and> (g = 0 \<longleftrightarrow> \<not> page_used s i)"
  using bitmap_get_eq [of 0 i s] assms by (simp add: page_used_def)

text \<open>
  The scan from \<open>ii\<close>: it stops at the first clear bit at or above \<open>ii\<close>, or reports that there
  is none.
\<close>

lemma alloc_page_from_spec:
  assumes "0 \<le> ii" "ii \<le> 256"
  shows "\<exists>i s'. alloc_page_from s ii = Some (i, s') \<and> same_beyond 32 s s'
     \<and> (if i = -1 then s' = s \<and> (\<forall>j. ii \<le> j \<and> j < 256 \<longrightarrow> page_used s j)
        else ii \<le> i \<and> i < 256 \<and> \<not> page_used s i \<and> (\<forall>j. ii \<le> j \<and> j < i \<longrightarrow> page_used s j)
             \<and> (\<forall>j. page_used s' j = (j = i \<or> page_used s j)))"
  using assms
proof (induction s ii rule: alloc_page_from.induct)
  case (1 s ii)
  show ?case
  proof (cases "ii < 256")
    case False
    then have "alloc_page_from s ii = Some (-1, s)"
      by (simp add: alloc_page_from.simps [of s ii] PAGE_COUNT_def)
    with False show ?thesis by auto
  next
    case True
    obtain g where g: "bitmap_get s 0 ii = Some g" "g = 0 \<longleftrightarrow> \<not> page_used s ii"
      using get_page_bit [of ii s] 1 True by auto
    show ?thesis
    proof (cases "g = 0")
      case t: True
      obtain s' where "bitmap_put s 0 ii 1 = Some s'" "same_beyond 32 s s'"
          "\<forall>j. page_used s' j = (if j = ii then True else page_used s j)"
        using put_page_bit [of ii s 1] 1 True by auto
      with t g True 1 show ?thesis
        by (auto simp: alloc_page_from.simps [of s ii] PAGE_COUNT_def)
    next
      case False
      have step: "alloc_page_from s ii = alloc_page_from s (ii + 1)"
        using True False g by (simp add: alloc_page_from.simps [of s ii] PAGE_COUNT_def)
      have used: "page_used s ii" using False g by simp
      obtain i s' where IH: "alloc_page_from s (ii + 1) = Some (i, s')" "same_beyond 32 s s'"
        "if i = -1 then s' = s \<and> (\<forall>j. ii + 1 \<le> j \<and> j < 256 \<longrightarrow> page_used s j)
         else ii + 1 \<le> i \<and> i < 256 \<and> \<not> page_used s i \<and> (\<forall>j. ii + 1 \<le> j \<and> j < i \<longrightarrow> page_used s j)
             \<and> (\<forall>j. page_used s' j = (j = i \<or> page_used s j))"
        using "1.IH" [of g] True False g 1 by (auto simp: PAGE_COUNT_def)
      have "page_used s j" if "ii + 1 \<le> j \<longrightarrow> page_used s j" "ii \<le> j" for j
        using that used by (cases "j = ii") auto
      with IH show ?thesis by (auto simp: step split: if_splits)
    qed
  qed
qed

lemmas alloc_page_spec = alloc_page_from_spec [of 1, folded alloc_page_def, simplified]

lemma alloc_page_frame [frame_intros]:
  "alloc_page s = Some (i, s') \<Longrightarrow> same_beyond 32 s s'"
  using alloc_page_spec [of s] by auto

lemma free_page_eq:
  assumes "0 \<le> i" "i < 256"
  shows "\<exists>s'. free_page s i = Some s' \<and> same_beyond 32 s s'
           \<and> (\<forall>j. page_used s' j = (j \<noteq> i \<and> page_used s j))"
  using put_page_bit [OF assms, of s 0] by (auto simp: free_page_def)

interpretation pages: slot_allocator page_used alloc_page free_page "\<lambda>_. True" 1 256
proof (unfold_locales, goal_cases)
  case (2 s) then show ?case using alloc_page_spec [of s] by blast
next
  case (3 s i s') then show ?case using alloc_page_spec [of s] by (auto split: if_splits)
next
  case (4 s i s' j) then show ?case using alloc_page_spec [of s] by (auto split: if_splits)
next
  case (5 s s') then show ?case using alloc_page_spec [of s] by (auto split: if_splits)
next
  case (6 s i) then show ?case using free_page_eq [of i s] by auto
qed simp_all

end
