(* ===== verification/Nufs_Inode.thy ===== *)
theory Nufs_Inode
  imports Nufs_Pages
begin

text \<open>
  The inode table of nufs: \<open>hw10/unnas-fshw/inode.h\<close> and \<open>inode.c\<close>.

  An inode is 64 bytes of page 1 (seven 32-bit integers, four bytes of padding, two time
  stamps of sixteen bytes); a pointer to an inode is its address in the image. The loop bodies
  of \<open>grow_inode\<close> and \<open>shrink_inode\<close> are definitions of their own, so that the correctness
  of a whole growth composes from single blocks (\<open>grew\<close>, \<open>grew_trans\<close>).
\<close>

section \<open>inode.h: the layout of an inode\<close>

definition NUM_PTRS :: int where "NUM_PTRS = 2"
definition sizeof_inode :: int where "sizeof_inode = 64"
definition INODE_COUNT :: int where "INODE_COUNT = 4096 div sizeof_inode"

definition f_inum :: "int \<Rightarrow> int" where "f_inum p = p"
definition f_refs :: "int \<Rightarrow> int" where "f_refs p = p + 4"
definition f_mode :: "int \<Rightarrow> int" where "f_mode p = p + 8"
definition f_size :: "int \<Rightarrow> int" where "f_size p = p + 12"
definition f_ptrs :: "int \<Rightarrow> int \<Rightarrow> int" where "f_ptrs p i = p + 16 + i * 4"
definition f_iptr :: "int \<Rightarrow> int" where "f_iptr p = p + 24"
definition f_ts :: "int \<Rightarrow> int" where "f_ts p = p + 32"

lemmas field_defs = f_inum_def f_refs_def f_mode_def f_size_def f_ptrs_def f_iptr_def f_ts_def

section \<open>inode.c\<close>

definition inode_init :: "nufs \<Rightarrow> nufs option" where
  "inode_init s = do {
     g \<leftarrow> bitmap_get s get_pages_bitmap 1;
     if g = 0 then do {
       (page, s') \<leftarrow> alloc_page s;
       if page \<noteq> 1 then None
       else Some (s'\<lparr>inodes_base := Some (pages_get_page page)\<rparr>) }
     else Some (s\<lparr>inodes_base := Some (pages_get_page 1)\<rparr>) }"

definition get_inode :: "nufs \<Rightarrow> int \<Rightarrow> int option" where
  "get_inode s inum =
     (if size_t (inum * sizeof_inode) < 4096
      then map_option (\<lambda>base. base + inum * sizeof_inode) (inodes_base s)
      else None)"

function alloc_inode_from :: "nufs \<Rightarrow> int \<Rightarrow> (int \<times> nufs) option" where
  "alloc_inode_from s ii =
     (if ii < INODE_COUNT then do {
        g \<leftarrow> bitmap_get s get_inode_bitmap ii;
        if g = 0 then do {
          s1 \<leftarrow> bitmap_put s get_inode_bitmap ii 1;
          node \<leftarrow> get_inode s1 ii;
          s2 \<leftarrow> store32 s1 (f_inum node) ii;
          s3 \<leftarrow> store32 s2 (f_size node) 0;
          Some (ii, s3) }
        else alloc_inode_from s (ii + 1) }
      else Some (-1, s))"
  by pat_completeness auto
termination
  by (relation "measure (\<lambda>(s, ii). nat (INODE_COUNT - ii))") auto

definition alloc_inode :: "nufs \<Rightarrow> (int \<times> nufs) option" where
  "alloc_inode s = (if inodes_base s = None then None else alloc_inode_from s 0)"

definition free_inode :: "nufs \<Rightarrow> int \<Rightarrow> nufs option" where
  "free_inode s node = do {
     inum \<leftarrow> load32 s (f_inum node);
     bitmap_put s get_inode_bitmap inum 0 }"

definition inode_get_pnum :: "nufs \<Rightarrow> int \<Rightarrow> int \<Rightarrow> int option" where
  "inode_get_pnum s node fpn =
     (if fpn < NUM_PTRS then load32 s (f_ptrs node fpn)
      else do {
        iptr \<leftarrow> load32 s (f_iptr node);
        load32 s (pages_get_page iptr + (fpn - NUM_PTRS) * 4) })"

definition grow_block :: "nufs \<Rightarrow> int \<Rightarrow> int \<Rightarrow> nufs option" where
  "grow_block s node blocks_on_node =
     (if blocks_on_node < NUM_PTRS then do {
        (page, s1) \<leftarrow> alloc_page s;
        store32 s1 (f_ptrs node blocks_on_node) page }
      else do {
        s1 \<leftarrow> (if blocks_on_node = NUM_PTRS then do {
                 (page, s0) \<leftarrow> alloc_page s;
                 store32 s0 (f_iptr node) page }
               else Some s);
        iptr \<leftarrow> load32 s1 (f_iptr node);
        (page, s2) \<leftarrow> alloc_page s1;
        store32 s2 (pages_get_page iptr + (blocks_on_node - NUM_PTRS) * 4) page })"

function grow_blocks :: "nufs \<Rightarrow> int \<Rightarrow> int \<Rightarrow> int \<Rightarrow> nufs option" where
  "grow_blocks s node blocks_on_node blocks_to_grow =
     (if blocks_on_node < blocks_to_grow then do {
        s' \<leftarrow> grow_block s node blocks_on_node;
        grow_blocks s' node (blocks_on_node + 1) blocks_to_grow }
      else Some s)"
  by pat_completeness auto
termination
  by (relation "measure (\<lambda>(s, node, on, to). nat (to - on))") auto

definition grow_inode :: "nufs \<Rightarrow> int \<Rightarrow> int \<Rightarrow> (int \<times> nufs) option" where
  "grow_inode s node sz = do {
     old \<leftarrow> load32 s (f_size node);
     s1 \<leftarrow> grow_blocks s node (bytes_to_pages old) (bytes_to_pages sz);
     s2 \<leftarrow> store32 s1 (f_size node) sz;
     r \<leftarrow> load32 s2 (f_size node);
     Some (r, s2) }"

function shrink_blocks :: "nufs \<Rightarrow> int \<Rightarrow> int \<Rightarrow> int \<Rightarrow> nufs option" where
  "shrink_blocks s node blocks_on_node blocks_to_shrink =
     (if blocks_on_node > blocks_to_shrink then do {
        pnum \<leftarrow> inode_get_pnum s node blocks_on_node;
        s' \<leftarrow> free_page s pnum;
        shrink_blocks s' node (blocks_on_node - 1) blocks_to_shrink }
      else Some s)"
  by pat_completeness auto
termination
  by (relation "measure (\<lambda>(s, node, on, to). nat (on - to))") auto

definition shrink_inode :: "nufs \<Rightarrow> int \<Rightarrow> int \<Rightarrow> (int \<times> nufs) option" where
  "shrink_inode s node sz = do {
     old \<leftarrow> load32 s (f_size node);
     let to = bytes_to_pages sz;
     s1 \<leftarrow> shrink_blocks s node (bytes_to_pages old) to;
     s2 \<leftarrow> (if to \<le> NUM_PTRS then do {
              iptr \<leftarrow> load32 s1 (f_iptr node);
              free_page s1 iptr }
            else Some s1);
     s3 \<leftarrow> store32 s2 (f_size node) sz;
     r \<leftarrow> load32 s3 (f_size node);
     Some (r, s3) }"

text \<open>The fields of \<open>struct stat\<close> that \<open>inode_copy_stats\<close> fills; \<open>uid\<close> is \<open>getuid()\<close>.\<close>

record nufs_stat =
  st_mode :: int
  st_size :: int
  st_atim :: "byte list"
  st_mtim :: "byte list"
  st_uid :: int
  st_nlink :: int

definition load_bytes :: "nufs \<Rightarrow> int \<Rightarrow> nat \<Rightarrow> byte list option" where
  "load_bytes s a n =
     (if in_image a (int n) then Some (map (\<lambda>i. disk s (a + int i)) [0..<n]) else None)"

definition inode_copy_stats :: "int \<Rightarrow> nufs \<Rightarrow> int \<Rightarrow> nufs_stat option" where
  "inode_copy_stats uid s node = do {
     mode \<leftarrow> load32 s (f_mode node);
     sz \<leftarrow> load32 s (f_size node);
     atim \<leftarrow> load_bytes s (f_ts node) 16;
     mtim \<leftarrow> load_bytes s (f_ts node + 16) 16;
     refs \<leftarrow> load32 s (f_refs node);
     Some \<lparr>st_mode = mode, st_size = sz, st_atim = atim, st_mtim = mtim,
           st_uid = uid, st_nlink = refs\<rparr> }"

declare alloc_inode_from.simps [simp del] grow_blocks.simps [simp del] shrink_blocks.simps [simp del]

section \<open>Addresses\<close>

definition inode_addr :: "int \<Rightarrow> int" where
  "inode_addr inum = 4096 + inum * 64"

definition inodes_ready :: "nufs \<Rightarrow> bool" where
  "inodes_ready s \<longleftrightarrow> inodes_base s = Some 4096"

lemma get_inode_ready:
  assumes "inodes_ready s" and "is_cint inum"
  shows "get_inode s inum = (if 0 \<le> inum \<and> inum < 64 then Some (inode_addr inum) else None)"
proof (cases "0 \<le> inum")
  case True
  with assms show ?thesis
    by (auto simp: get_inode_def inodes_ready_def inode_addr_def sizeof_inode_def size_t_def)
next
  case False
  have "size_t (inum * 64) = inum * 64 + 18446744073709551616"
  proof -
    have "(inum * 64 + 18446744073709551616) mod 18446744073709551616 = inum * 64 + 18446744073709551616"
      by (rule mod_pos_pos_trivial) (use False assms(2) in auto)
    then show ?thesis by (simp add: size_t_def)
  qed
  with False assms show ?thesis
    by (simp add: get_inode_def sizeof_inode_def)
qed

text \<open>A valid inode address: one of the 64 slots of page 1.\<close>

definition is_inode :: "int \<Rightarrow> bool" where
  "is_inode p \<longleftrightarrow> (\<exists>i. 0 \<le> i \<and> i < 64 \<and> p = inode_addr i)"

lemma is_inode_bounds: "is_inode p \<Longrightarrow> 4096 \<le> p \<and> p + 64 \<le> 8192"
  by (auto simp: is_inode_def inode_addr_def)


section \<open>Inode allocation\<close>

lemma bm_ok_inode [simp]: "0 \<le> i \<Longrightarrow> i < 64 \<Longrightarrow> bm_ok 32 i"
  by (auto simp: bm_ok_def NUFS_SIZE_def)

lemma get_inode_bit:
  assumes "0 \<le> i" "i < 64"
  shows "\<exists>g. bitmap_get s 32 i = Some g \<and> (g = 0 \<longleftrightarrow> \<not> inode_used s i)"
  using bitmap_get_eq [of 32 i s] assms by (simp add: inode_used_def)

lemma put_inode_bit:
  assumes "0 \<le> i" "i < 64"
  shows "\<exists>s'. bitmap_put s 32 i vv = Some s' \<and> inodes_base s' = inodes_base s
           \<and> (\<forall>x. x < 32 \<or> 40 \<le> x \<longrightarrow> disk s' x = disk s x)
           \<and> (\<forall>j. inode_used s' j = (if j = i then vv \<noteq> 0 else inode_used s j))"
  using bitmap_put_eq [of 32 i s vv] assms by (fastforce simp: inode_used_def)

text \<open>The scan of \<open>alloc_inode\<close>, and what it writes: one bit, and two fields of the inode.\<close>

definition alloc_inode_result :: "nufs \<Rightarrow> int \<Rightarrow> int \<Rightarrow> nufs \<Rightarrow> bool" where
  "alloc_inode_result s ii i s' \<longleftrightarrow>
     (if i = -1 then s' = s \<and> (\<forall>j. ii \<le> j \<and> j < 64 \<longrightarrow> inode_used s j)
      else ii \<le> i \<and> i < 64 \<and> \<not> inode_used s i \<and> (\<forall>j. ii \<le> j \<and> j < i \<longrightarrow> inode_used s j)
         \<and> (\<forall>j. 0 \<le> j \<and> j < 64 \<longrightarrow> inode_used s' j = (j = i \<or> inode_used s j))
         \<and> inodes_base s' = inodes_base s
         \<and> rd32 (disk s') (f_inum (inode_addr i)) = i \<and> rd32 (disk s') (f_size (inode_addr i)) = 0
         \<and> (\<forall>x. (x < 32 \<or> 40 \<le> x) \<and> (x < inode_addr i \<or> inode_addr i + 4 \<le> x)
                \<and> (x < inode_addr i + 12 \<or> inode_addr i + 16 \<le> x) \<longrightarrow> disk s' x = disk s x))"

lemma inode_used_write:
  assumes "4096 \<le> a" "0 \<le> j" "j < 64"
  shows "inode_used (s\<lparr>disk := wr32 (disk s) a v\<rparr>) j = inode_used s j"
  unfolding inode_used_def using assms div8_bounds [of j]
  by (intro bm_bit_cong) (simp add: wr32_frame)

lemma alloc_inode_from_spec:
  assumes "0 \<le> ii" "ii \<le> 64" "inodes_ready s"
  shows "\<exists>i s'. alloc_inode_from s ii = Some (i, s') \<and> alloc_inode_result s ii i s'"
  using assms
proof (induction s ii rule: alloc_inode_from.induct)
  case (1 s ii)
  have [simp]: "INODE_COUNT = 64" by (simp add: INODE_COUNT_def sizeof_inode_def)
  show ?case
  proof (cases "ii < 64")
    case False
    then have "alloc_inode_from s ii = Some (-1, s)"
      by (simp add: alloc_inode_from.simps [of s ii])
    with False show ?thesis by (auto simp: alloc_inode_result_def)
  next
    case True
    obtain g where g: "bitmap_get s 32 ii = Some g" "g = 0 \<longleftrightarrow> \<not> inode_used s ii"
      using get_inode_bit [of ii s] 1 True by auto
    show ?thesis
    proof (cases "g = 0")
      case t: True
      let ?a = "inode_addr ii"
      obtain s1 where s1: "bitmap_put s 32 ii 1 = Some s1" "inodes_base s1 = inodes_base s"
          "\<forall>x. x < 32 \<or> 40 \<le> x \<longrightarrow> disk s1 x = disk s x"
          "\<forall>j. inode_used s1 j = (if j = ii then True else inode_used s j)"
        using put_inode_bit [of ii s 1] 1 True by auto
      define s2 where "s2 = s1\<lparr>disk := wr32 (disk s1) ?a ii\<rparr>"
      define s3 where "s3 = s2\<lparr>disk := wr32 (disk s2) (?a + 12) 0\<rparr>"
      have a: "4096 \<le> ?a" "?a + 64 \<le> 8192" using 1 True by (auto simp: inode_addr_def)
      have g1: "get_inode s1 ii = Some ?a"
        using get_inode_ready [of s1 ii] s1 1 True by (simp add: inodes_ready_def)
      have run: "alloc_inode_from s ii = Some (ii, s3)"
        using True t g s1 g1 a
        by (simp add: alloc_inode_from.simps [of s ii] s2_def s3_def field_defs access_defs)
      have u: "inode_used s3 j = (j = ii \<or> inode_used s j)" if "0 \<le> j" "j < 64" for j
      proof -
        have "inode_used s3 j = inode_used s2 j" "inode_used s2 j = inode_used s1 j"
          unfolding s3_def s2_def by (rule inode_used_write; use a that in simp)+
        with s1 show ?thesis by auto
      qed
      have "alloc_inode_result s ii ii s3"
        unfolding alloc_inode_result_def
        using 1 True t g u s1 a by (auto simp: s3_def s2_def field_defs mem_simps wr32_frame)
      with run show ?thesis by blast
    next
      case False
      have step: "alloc_inode_from s ii = alloc_inode_from s (ii + 1)"
        using True False g by (simp add: alloc_inode_from.simps [of s ii])
      obtain i s' where IH: "alloc_inode_from s (ii + 1) = Some (i, s')" "alloc_inode_result s (ii + 1) i s'"
        using "1.IH" [of g] True False g 1 by auto
      have "alloc_inode_result s ii i s'"
      proof -
        have "inode_used s j" if "ii + 1 \<le> j \<longrightarrow> inode_used s j" "ii \<le> j" for j
          using that False g by (cases "j = ii") auto
        with IH(2) show ?thesis by (auto simp: alloc_inode_result_def split: if_splits)
      qed
      with IH step show ?thesis by auto
    qed
  qed
qed

lemma alloc_inode_spec:
  assumes "inodes_ready s"
  shows "\<exists>i s'. alloc_inode s = Some (i, s') \<and> alloc_inode_result s 0 i s'"
  using alloc_inode_from_spec [of 0 s] assms by (simp add: alloc_inode_def inodes_ready_def)

lemma free_inode_eq:
  assumes "inodes_ready s" and "0 \<le> i" "i < 64" and "rd32 (disk s) (inode_addr i) = i"
  shows "\<exists>s'. free_inode s (inode_addr i) = Some s' \<and> inodes_base s' = inodes_base s
           \<and> (\<forall>x. x < 32 \<or> 40 \<le> x \<longrightarrow> disk s' x = disk s x)
           \<and> (\<forall>j. inode_used s' j = (j \<noteq> i \<and> inode_used s j))"
  using put_inode_bit [of i s 0] assms
  by (auto simp: free_inode_def field_defs access_defs inode_addr_def)

text \<open>
  The inode table as a slot allocator: releasing is \<open>free_inode\<close> on the slot's address, and
  the states are those in which every inode in use records its own number.
\<close>

definition inums_ok :: "nufs \<Rightarrow> bool" where
  "inums_ok s \<longleftrightarrow> inodes_ready s \<and>
     (\<forall>i. 0 \<le> i \<and> i < 64 \<longrightarrow> rd32 (disk s) (inode_addr i) = i \<or> \<not> inode_used s i)"


lemma inum_field_frame:
  assumes "0 \<le> i" and "\<forall>x. 40 \<le> x \<longrightarrow> disk s' x = disk s x"
  shows "rd32 (disk s') (inode_addr i) = rd32 (disk s) (inode_addr i)"
  using assms by (auto intro!: rd32_eq_on simp: inode_addr_def)

lemma alloc_inode_inums_ok:
  assumes "inums_ok s" and "alloc_inode_result s 0 i s'"
  shows "inums_ok s'"
proof (cases "i = -1")
  case True
  with assms show ?thesis by (simp add: alloc_inode_result_def)
next
  case False
  have "rd32 (disk s') (inode_addr j) = rd32 (disk s) (inode_addr j)" if "0 \<le> j" "j \<noteq> i" for j
  proof (rule rd32_eq_on)
    fix x assume x: "inode_addr j \<le> x" "x < inode_addr j + 4"
    have "(x < inode_addr i \<or> inode_addr i + 4 \<le> x) \<and> (x < inode_addr i + 12 \<or> inode_addr i + 16 \<le> x)"
      using x that by (cases "j < i") (auto simp: inode_addr_def)
    moreover have "40 \<le> x" using x that by (auto simp: inode_addr_def)
    ultimately show "disk s' x = disk s x"
      using assms(2) False by (auto simp: alloc_inode_result_def)
  qed
  then have "rd32 (disk s') (inode_addr j) = j \<or> \<not> inode_used s' j" if "0 \<le> j" "j < 64" for j
    using assms False that by (cases "j = i") (auto simp: inums_ok_def alloc_inode_result_def f_inum_def)
  with assms False show ?thesis
    by (simp add: inums_ok_def inodes_ready_def alloc_inode_result_def)
qed

interpretation inodes: slot_allocator inode_used alloc_inode "\<lambda>s i. free_inode s (inode_addr i)" inums_ok 0 64
proof (unfold_locales, goal_cases)
  case (2 s)
  then show ?case using alloc_inode_spec [of s] alloc_inode_inums_ok [of s] by (auto simp: inums_ok_def)
next
  case (3 s i s')
  then show ?case using alloc_inode_spec [of s] by (auto simp: inums_ok_def alloc_inode_result_def)
next
  case (4 s i s' j)
  then show ?case using alloc_inode_spec [of s] by (auto simp: inums_ok_def alloc_inode_result_def)
next
  case (5 s s')
  then show ?case using alloc_inode_spec [of s] by (auto simp: inums_ok_def alloc_inode_result_def)
next
  case (6 s i)
  then obtain s' where s': "free_inode s (inode_addr i) = Some s'" "inodes_base s' = inodes_base s"
      "\<forall>x. x < 32 \<or> 40 \<le> x \<longrightarrow> disk s' x = disk s x"
      "\<forall>j. inode_used s' j = (j \<noteq> i \<and> inode_used s j)"
    using free_inode_eq [of s i] by (auto simp: inums_ok_def)
  with 6 have "inums_ok s'"
    using inum_field_frame [of _ s' s] by (auto simp: inums_ok_def inodes_ready_def)
  with s' show ?case by auto
qed simp_all

section \<open>Growing an inode\<close>

text \<open>The page number of block \<open>k\<close> of an inode, read from the image.\<close>

definition blkno :: "nufs \<Rightarrow> int \<Rightarrow> int \<Rightarrow> int" where
  "blkno s p k = (if k < 2 then rd32 (disk s) (f_ptrs p k)
                  else rd32 (disk s) (4096 * rd32 (disk s) (f_iptr p) + (k - 2) * 4))"

abbreviation iptr_of :: "nufs \<Rightarrow> int \<Rightarrow> int" where
  "iptr_of s p \<equiv> rd32 (disk s) (f_iptr p)"

definition used_pages :: "nufs \<Rightarrow> int set" where
  "used_pages s = {j. 0 \<le> j \<and> j < 256 \<and> page_used s j}"

definition free_pages :: "nufs \<Rightarrow> int" where
  "free_pages s = int (card ({1..<256} - used_pages s))"

lemma free_pages_nonneg [simp]: "0 \<le> free_pages s"
  by (simp add: free_pages_def)

text \<open>Pages taken when the block count goes from \<open>on\<close> to \<open>to\<close>: one each, and the indirect page.\<close>

definition grow_cost :: "int \<Rightarrow> int \<Rightarrow> int" where
  "grow_cost on to = (to - on) + (if on \<le> 2 \<and> 2 < to then 1 else 0)"

text \<open>
  What growing inode \<open>p\<close> from \<open>on\<close> to \<open>to\<close> blocks promises. New blocks lie on pages that
  were free, all different, and are now in use; the old blocks and every byte outside the
  bitmap, the inode's size and pointers, and its indirect page are as before.
\<close>

definition grew :: "nufs \<Rightarrow> nufs \<Rightarrow> int \<Rightarrow> int \<Rightarrow> int \<Rightarrow> bool" where
  "grew s s' p on to \<longleftrightarrow>
     inodes_base s' = inodes_base s
   \<and> used_pages s \<subseteq> used_pages s'
   \<and> free_pages s = free_pages s' + grow_cost on to
   \<and> (\<forall>k. 0 \<le> k \<and> k < on \<longrightarrow> blkno s' p k = blkno s p k)
   \<and> (\<forall>k. on \<le> k \<and> k < to \<longrightarrow> 2 \<le> blkno s' p k \<and> blkno s' p k \<in> used_pages s' - used_pages s)
   \<and> inj_on (blkno s' p) {on..<to}
   \<and> (2 < to \<longrightarrow> 2 \<le> iptr_of s' p \<and> iptr_of s' p \<in> used_pages s'
          \<and> (if 2 < on then iptr_of s' p = iptr_of s p
             else iptr_of s' p \<notin> used_pages s \<and> iptr_of s' p \<notin> blkno s' p ` {on..<to}))
   \<and> (\<forall>x. 32 \<le> x \<and> (x < p + 12 \<or> p + 28 \<le> x)
          \<and> (2 < to \<longrightarrow> x < 4096 * iptr_of s' p \<or> 4096 * iptr_of s' p + 4096 \<le> x)
          \<longrightarrow> disk s' x = disk s x)"

lemma int_card_insert: "finite B \<Longrightarrow> i \<notin> B \<Longrightarrow> int (card (insert i B)) = int (card B) + 1"
  by simp

lemma used_pages_cong:
  assumes "\<And>x. 0 \<le> x \<Longrightarrow> x < 32 \<Longrightarrow> disk s' x = disk s x"
  shows "used_pages s' = used_pages s"
proof -
  have "page_used s' j = page_used s j" if "0 \<le> j" "j < 256" for j
    unfolding page_used_def using assms [of "j div 8"] that div8_bounds [of j]
    by (intro bm_bit_cong) simp
  then show ?thesis by (auto simp: used_pages_def)
qed

lemma used_pages_store [mem_simps]:
  "32 \<le> a \<Longrightarrow> used_pages (s\<lparr>disk := wr32 (disk s) a v\<rparr>) = used_pages s"
  by (rule used_pages_cong) (simp add: wr32_frame)

lemma used_pages_insert:
  "\<forall>j. page_used s' j = (j = i \<or> page_used s j) \<Longrightarrow> 0 \<le> i \<Longrightarrow> i < 256 \<Longrightarrow>
   used_pages s' = insert i (used_pages s)"
  by (auto simp: used_pages_def)

lemma alloc_page_takes:
  assumes "0 < free_pages s" and "1 \<in> used_pages s"
  shows "\<exists>i s'. alloc_page s = Some (i, s') \<and> 2 \<le> i \<and> i < 256 \<and> i \<notin> used_pages s
           \<and> used_pages s' = insert i (used_pages s) \<and> free_pages s = free_pages s' + 1
           \<and> same_beyond 32 s s'"
proof -
  obtain i s' where run: "alloc_page s = Some (i, s')"
    using pages.alloc_total by blast
  have "{1..<256} - used_pages s \<noteq> {}"
    using assms(1) unfolding free_pages_def by (intro notI) simp
  then have i: "i \<noteq> -1"
    using pages.alloc_succeeds_iff [OF _ run] by (auto simp: used_pages_def)
  have spec: "1 \<le> i" "i < 256" "\<not> page_used s i" "\<forall>j. page_used s' j = (j = i \<or> page_used s j)"
    using alloc_page_spec [of s] run i by auto
  then have u: "used_pages s' = insert i (used_pages s)" "i \<notin> used_pages s"
    by (auto simp: used_pages_def)
  have eq: "{1..<256} - used_pages s = insert i ({1..<256} - used_pages s')"
    using u spec by auto
  have "i \<notin> {1..<256} - used_pages s'" using u by simp
  then have "free_pages s = free_pages s' + 1"
    unfolding free_pages_def eq by (intro int_card_insert) simp_all
  moreover have "i \<noteq> 1" using assms(2) u by auto
  ultimately show ?thesis using run spec u alloc_page_frame [OF run] by auto
qed


lemma rd32_same_beyond [mem_simps]:
  "same_beyond n s s' \<Longrightarrow> n \<le> a \<Longrightarrow> rd32 (disk s') a = rd32 (disk s) a"
  by (auto simp: same_beyond_def intro!: rd32_eq_on)

lemma used_pages_range: "j \<in> used_pages s \<Longrightarrow> 0 \<le> j \<and> j < 256"
  by (simp add: used_pages_def)

lemma free_pages_store [mem_simps]:
  "32 \<le> a \<Longrightarrow> free_pages (s\<lparr>disk := wr32 (disk s) a v\<rparr>) = free_pages s"
  by (simp add: free_pages_def used_pages_store)

text \<open>What a block step needs: the inode table's page is taken, pages are left, the indirect page is real.\<close>

definition can_grow :: "nufs \<Rightarrow> int \<Rightarrow> int \<Rightarrow> int \<Rightarrow> bool" where
  "can_grow s p on to \<longleftrightarrow> is_inode p \<and> 1 \<in> used_pages s \<and> 0 \<le> on \<and> to \<le> 1026
     \<and> grow_cost on to \<le> free_pages s
     \<and> (2 < on \<longrightarrow> 2 \<le> iptr_of s p \<and> iptr_of s p \<in> used_pages s)"

lemma grewI:
  assumes "inodes_base s' = inodes_base s" and "used_pages s \<subseteq> used_pages s'"
    and "free_pages s = free_pages s' + grow_cost on to"
    and "\<And>k. 0 \<le> k \<Longrightarrow> k < on \<Longrightarrow> blkno s' p k = blkno s p k"
    and "\<And>k. on \<le> k \<Longrightarrow> k < to \<Longrightarrow> 2 \<le> blkno s' p k \<and> blkno s' p k \<in> used_pages s' - used_pages s"
    and "inj_on (blkno s' p) {on..<to}"
    and "2 < to \<Longrightarrow> 2 \<le> iptr_of s' p \<and> iptr_of s' p \<in> used_pages s'"
    and "2 < to \<Longrightarrow> 2 < on \<Longrightarrow> iptr_of s' p = iptr_of s p"
    and "2 < to \<Longrightarrow> on \<le> 2 \<Longrightarrow> iptr_of s' p \<notin> used_pages s \<and> iptr_of s' p \<notin> blkno s' p ` {on..<to}"
    and "\<And>x. 32 \<le> x \<Longrightarrow> x < p + 12 \<or> p + 28 \<le> x \<Longrightarrow>
           (2 < to \<Longrightarrow> x < 4096 * iptr_of s' p \<or> 4096 * iptr_of s' p + 4096 \<le> x) \<Longrightarrow> disk s' x = disk s x"
  shows "grew s s' p on to"
  unfolding grew_def using assms by (auto simp: not_less)

text \<open>One new block, given where its page number is stored and what was taken.\<close>

lemma atLeastLessThan_single [simp]: "{k..<k + 1} = {k :: int}"
  by auto

lemma grow_block_direct:
  assumes "can_grow s p on (on + 1)" and "on < 2"
  shows "\<exists>s'. grow_block s p on = Some s' \<and> grew s s' p on (on + 1)"
proof -
  have p: "4096 \<le> p" "p + 64 \<le> 8192" using assms is_inode_bounds by (auto simp: can_grow_def)
  obtain i s1 where a: "alloc_page s = Some (i, s1)" "2 \<le> i" "i < 256" "i \<notin> used_pages s"
      "used_pages s1 = insert i (used_pages s)" "free_pages s = free_pages s1 + 1" "same_beyond 32 s s1"
    using alloc_page_takes [of s] assms by (auto simp: can_grow_def grow_cost_def)
  define s' where "s' = s1\<lparr>disk := wr32 (disk s1) (f_ptrs p on) i\<rparr>"
  have on: "0 \<le> on" "on < 2" using assms by (auto simp: can_grow_def)
  have run: "grow_block s p on = Some s'"
    using a on p by (simp add: grow_block_def NUM_PTRS_def s'_def access_defs field_defs)
  have blk: "blkno s' p on = i"
    using a on p by (simp add: s'_def blkno_def mem_simps)
  have "grew s s' p on (on + 1)"
  proof (rule grewI)
    show "inodes_base s' = inodes_base s" using a by (simp add: s'_def same_beyond_def)
    show "used_pages s \<subseteq> used_pages s'" using a on p by (auto simp: s'_def mem_simps field_defs)
    show "free_pages s = free_pages s' + grow_cost on (on + 1)"
      using a on p by (simp add: s'_def mem_simps field_defs grow_cost_def)
    show "blkno s' p k = blkno s p k" if "0 \<le> k" "k < on" for k
      using a on p that by (simp add: s'_def blkno_def field_defs mem_simps)
    show "2 \<le> blkno s' p k \<and> blkno s' p k \<in> used_pages s' - used_pages s" if "on \<le> k" "k < on + 1" for k
    proof -
      have "k = on" using that by simp
      with a on p blk show ?thesis by (simp add: s'_def mem_simps field_defs)
    qed
    show "disk s' x = disk s x" if "32 \<le> x" "x < p + 12 \<or> p + 28 \<le> x" for x
      using a that on by (auto simp: s'_def wr32_frame field_defs same_beyond_def)
  qed (use on in auto)
  with run show ?thesis by blast
qed

lemma grow_block_indirect:
  assumes "can_grow s p on (on + 1)" and "2 < on"
  shows "\<exists>s'. grow_block s p on = Some s' \<and> grew s s' p on (on + 1)"
proof -
  let ?ip = "iptr_of s p"
  have p: "4096 \<le> p" "p + 64 \<le> 8192" and ip: "2 \<le> ?ip" "?ip \<in> used_pages s" "on \<le> 1025"
    using assms is_inode_bounds by (auto simp: can_grow_def)
  have ip2: "?ip < 256" using ip used_pages_range by blast
  obtain i s1 where a: "alloc_page s = Some (i, s1)" "2 \<le> i" "i < 256" "i \<notin> used_pages s"
      "used_pages s1 = insert i (used_pages s)" "free_pages s = free_pages s1 + 1" "same_beyond 32 s s1"
    using alloc_page_takes [of s] assms by (auto simp: can_grow_def grow_cost_def)
  define s' where "s' = s1\<lparr>disk := wr32 (disk s1) (4096 * ?ip + (on - 2) * 4) i\<rparr>"
  have run: "grow_block s p on = Some s'"
    using a ip ip2 p assms(2) by (simp add: grow_block_def NUM_PTRS_def s'_def access_defs field_defs)
  have ip': "iptr_of s' p = ?ip"
    using a ip p assms(2) by (simp add: s'_def field_defs mem_simps)
  have blk: "blkno s' p on = i"
    using a p assms(2) ip' by (simp add: blkno_def) (simp add: s'_def mem_simps)
  have used: "used_pages s' = insert i (used_pages s)" "free_pages s' = free_pages s1"
    using a ip assms(2) by (simp_all add: s'_def mem_simps)
  have "grew s s' p on (on + 1)"
  proof (rule grewI)
    show "inodes_base s' = inodes_base s" using a by (simp add: s'_def same_beyond_def)
    show "free_pages s = free_pages s' + grow_cost on (on + 1)"
      using a used assms(2) by (simp add: grow_cost_def)
    show "blkno s' p k = blkno s p k" if "0 \<le> k" "k < on" for k
    proof (cases "k < 2")
      case True
      with a p ip that assms(2) show ?thesis by (simp add: s'_def blkno_def field_defs mem_simps)
    next
      case False
      with a ip that assms(2) ip' show ?thesis
        by (simp add: blkno_def) (simp add: s'_def mem_simps)
    qed
    show "2 \<le> blkno s' p k \<and> blkno s' p k \<in> used_pages s' - used_pages s" if "on \<le> k" "k < on + 1" for k
    proof -
      have "k = on" using that by simp
      with a used blk show ?thesis by simp
    qed
    show "disk s' x = disk s x"
      if "32 \<le> x" "2 < on + 1 \<Longrightarrow> x < 4096 * iptr_of s' p \<or> 4096 * iptr_of s' p + 4096 \<le> x" for x
      using a that ip assms(2) ip' by (auto simp: s'_def wr32_frame same_beyond_def)
  qed (use assms(2) used ip ip' in auto)
  with run show ?thesis by blast
qed

lemma grow_block_first_indirect:
  assumes "can_grow s p 2 3"
  shows "\<exists>s'. grow_block s p 2 = Some s' \<and> grew s s' p 2 3"
proof -
  have p: "4096 \<le> p" "p + 64 \<le> 8192" and fp: "2 \<le> free_pages s" "1 \<in> used_pages s"
    using assms is_inode_bounds by (auto simp: can_grow_def grow_cost_def)
  obtain i s1 where a: "alloc_page s = Some (i, s1)" "2 \<le> i" "i < 256" "i \<notin> used_pages s"
      "used_pages s1 = insert i (used_pages s)" "free_pages s = free_pages s1 + 1" "same_beyond 32 s s1"
    using alloc_page_takes [of s] fp by auto
  define s2 where "s2 = s1\<lparr>disk := wr32 (disk s1) (f_iptr p) i\<rparr>"
  have s2: "used_pages s2 = insert i (used_pages s)" "free_pages s2 = free_pages s1" "iptr_of s2 p = i"
    using a p by (simp_all add: s2_def field_defs mem_simps)
  obtain j s3 where b: "alloc_page s2 = Some (j, s3)" "2 \<le> j" "j < 256" "j \<notin> used_pages s2"
      "used_pages s3 = insert j (used_pages s2)" "free_pages s2 = free_pages s3 + 1" "same_beyond 32 s2 s3"
    using alloc_page_takes [of s2] fp s2 a by auto
  define s' where "s' = s3\<lparr>disk := wr32 (disk s3) (4096 * i) j\<rparr>"
  have run: "grow_block s p 2 = Some s'"
    using a b p s2 by (simp add: grow_block_def NUM_PTRS_def s2_def s'_def access_defs field_defs)
  have ip': "iptr_of s' p = i"
    using a b p s2 by (simp add: s'_def field_defs mem_simps)
  have blk: "blkno s' p 2 = j"
    using b ip' by (simp add: blkno_def) (simp add: s'_def mem_simps)
  have used: "used_pages s' = insert j (insert i (used_pages s))" "free_pages s' = free_pages s3"
    using a b s2 by (simp_all add: s'_def mem_simps)
  have "grew s s' p 2 3"
  proof (rule grewI)
    show "inodes_base s' = inodes_base s" using a b by (simp add: s'_def s2_def same_beyond_def)
    show "free_pages s = free_pages s' + grow_cost 2 3"
      using a b used s2 by (simp add: grow_cost_def)
    show "blkno s' p k = blkno s p k" if "0 \<le> k" "k < 2" for k
      using a b p that by (simp add: blkno_def s'_def s2_def field_defs mem_simps)
    show "2 \<le> blkno s' p k \<and> blkno s' p k \<in> used_pages s' - used_pages s" if "2 \<le> k" "k < 3" for k
    proof -
      have "k = 2" using that by simp
      with b s2 used blk show ?thesis by simp
    qed
    show "inj_on (blkno s' p) {2..<3}" by (rule inj_onI) simp
    show "iptr_of s' p \<notin> used_pages s \<and> iptr_of s' p \<notin> blkno s' p ` {2..<3}"
    proof -
      have "{2..<3} = {2 :: int}" by auto
      with a b s2 ip' blk show ?thesis by auto
    qed
    show "disk s' x = disk s x"
      if "32 \<le> x" "x < p + 12 \<or> p + 28 \<le> x"
        "2 < (3 :: int) \<Longrightarrow> x < 4096 * iptr_of s' p \<or> 4096 * iptr_of s' p + 4096 \<le> x" for x
    proof -
      have "disk s' x = disk s3 x" "disk s2 x = disk s1 x"
        using that ip' by (auto simp: s'_def s2_def field_defs wr32_frame)
      with a b that show ?thesis by (simp add: same_beyond_def)
    qed
  qed (use a used ip' in auto)
  with run show ?thesis by blast
qed

lemma grow_block_grew:
  assumes "can_grow s p on (on + 1)"
  shows "\<exists>s'. grow_block s p on = Some s' \<and> grew s s' p on (on + 1)"
proof -
  consider "on < 2" | "on = 2" | "2 < on" by linarith
  then show ?thesis
    using grow_block_direct [OF assms] grow_block_indirect [OF assms] grow_block_first_indirect [of s p] assms
    by cases auto
qed


text \<open>Growing composes: from \<open>on\<close> to \<open>mid\<close>, then from \<open>mid\<close> to \<open>to\<close>.\<close>

lemma grow_cost_add: "on \<le> mid \<Longrightarrow> mid \<le> to \<Longrightarrow> grow_cost on to = grow_cost on mid + grow_cost mid to"
  by (simp add: grow_cost_def)

lemma grew_refl: "grew s s p on on" if "on \<le> 2 \<or> (2 \<le> iptr_of s p \<and> iptr_of s p \<in> used_pages s)"
  using that by (intro grewI) (auto simp: grow_cost_def)

lemma grew_trans:
  assumes A: "grew s s1 p on mid" and B: "grew s1 s2 p mid to" and le: "0 \<le> on" "on \<le> mid" "mid \<le> to"
  shows "grew s s2 p on to"
proof (rule grewI)
  have keep: "blkno s2 p k = blkno s1 p k" if "0 \<le> k" "k < mid" for k
    using B that by (simp add: grew_def)
  have fst: "2 \<le> blkno s2 p k \<and> blkno s2 p k \<in> used_pages s1 - used_pages s" if "on \<le> k" "k < mid" for k
    using A keep that le by (auto simp: grew_def)
  have snd: "2 \<le> blkno s2 p k \<and> blkno s2 p k \<in> used_pages s2 - used_pages s1" if "mid \<le> k" "k < to" for k
    using B that by (auto simp: grew_def)
  have mono: "used_pages s \<subseteq> used_pages s1" "used_pages s1 \<subseteq> used_pages s2"
    using A B by (auto simp: grew_def)
  have ip: "iptr_of s2 p = iptr_of s1 p" if "2 < mid" using B that le by (auto simp: grew_def)
  show "inodes_base s2 = inodes_base s" using A B by (simp add: grew_def)
  show "used_pages s \<subseteq> used_pages s2" using mono by auto
  show "free_pages s = free_pages s2 + grow_cost on to"
    using A B le grow_cost_add [of on mid to] by (simp add: grew_def)
  show "blkno s2 p k = blkno s p k" if "0 \<le> k" "k < on" for k
    using A keep that le by (simp add: grew_def)
  show "2 \<le> blkno s2 p k \<and> blkno s2 p k \<in> used_pages s2 - used_pages s" if "on \<le> k" "k < to" for k
    using fst [of k] snd [of k] mono that by (cases "k < mid") auto
  show "inj_on (blkno s2 p) {on..<to}"
  proof -
    have "inj_on (blkno s2 p) {on..<mid}"
      using A keep le by (auto simp: grew_def inj_on_def)
    moreover have "inj_on (blkno s2 p) {mid..<to}" using B by (simp add: grew_def)
    moreover have "blkno s2 p ` {on..<mid} \<inter> blkno s2 p ` {mid..<to} = {}"
      using fst snd by fastforce
    moreover have "{on..<to} = {on..<mid} \<union> {mid..<to}" using le by auto
    ultimately show ?thesis by (simp add: inj_on_Un) blast
  qed
  show "2 \<le> iptr_of s2 p \<and> iptr_of s2 p \<in> used_pages s2" if "2 < to"
    using B that by (auto simp: grew_def)
  show "iptr_of s2 p = iptr_of s p" if "2 < to" "2 < on"
    using A B that le ip by (auto simp: grew_def)
  show "iptr_of s2 p \<notin> used_pages s \<and> iptr_of s2 p \<notin> blkno s2 p ` {on..<to}" if t: "2 < to" "on \<le> 2"
  proof (cases "2 < mid")
    case True
    have "iptr_of s1 p \<notin> used_pages s" "iptr_of s1 p \<in> used_pages s1"
      "iptr_of s1 p \<notin> blkno s1 p ` {on..<mid}"
      using A True t by (auto simp: grew_def)
    moreover have "blkno s1 p ` {on..<mid} = blkno s2 p ` {on..<mid}"
      using keep le by (intro image_cong) auto
    moreover have "{on..<to} = {on..<mid} \<union> {mid..<to}" using le by auto
    moreover have "iptr_of s1 p \<notin> blkno s2 p ` {mid..<to}" using calculation(2) snd by auto
    ultimately show ?thesis using ip [OF True] by auto
  next
    case False
    have "iptr_of s2 p \<notin> used_pages s1" "iptr_of s2 p \<notin> blkno s2 p ` {mid..<to}"
      using B False t by (auto simp: grew_def)
    moreover have "iptr_of s2 p \<notin> blkno s2 p ` {on..<mid}" using calculation(1) fst by auto
    moreover have "{on..<to} = {on..<mid} \<union> {mid..<to}" using le by auto
    ultimately show ?thesis using mono by auto
  qed
  show "disk s2 x = disk s x"
    if x: "32 \<le> x" "x < p + 12 \<or> p + 28 \<le> x"
      "2 < to \<Longrightarrow> x < 4096 * iptr_of s2 p \<or> 4096 * iptr_of s2 p + 4096 \<le> x" for x
  proof -
    have "disk s2 x = disk s1 x" using B x by (auto simp: grew_def)
    moreover have "disk s1 x = disk s x"
    proof -
      have "2 < mid \<longrightarrow> x < 4096 * iptr_of s1 p \<or> 4096 * iptr_of s1 p + 4096 \<le> x"
        using x(3) ip le by auto
      with A x(1,2) show ?thesis by (auto simp: grew_def)
    qed
    ultimately show ?thesis by simp
  qed
qed

lemma can_grow_step:
  assumes "can_grow s p on to" and "on < to"
  shows "can_grow s p on (on + 1)"
  using assms by (auto simp: can_grow_def grow_cost_def split: if_splits)

lemma can_grow_next:
  assumes "can_grow s p on to" and "on < to" and "grew s s1 p on (on + 1)"
  shows "can_grow s1 p (on + 1) to"
proof -
  have "grow_cost on to = grow_cost on (on + 1) + grow_cost (on + 1) to"
    using assms(2) by (intro grow_cost_add) auto
  with assms show ?thesis by (auto simp: can_grow_def grew_def)
qed

lemma grow_blocks_grew:
  assumes "can_grow s p on to" and "on \<le> to"
  shows "\<exists>s'. grow_blocks s p on to = Some s' \<and> grew s s' p on to"
  using assms
proof (induction s p on to rule: grow_blocks.induct)
  case (1 s p on to)
  show ?case
  proof (cases "on < to")
    case False
    then have "grow_blocks s p on to = Some s" by (simp add: grow_blocks.simps [of s p on to])
    moreover have "on = to" using False 1 by simp
    ultimately show ?thesis
      using "1.prems" grew_refl [of on s p] by (auto simp: can_grow_def)
  next
    case True
    obtain s1 where s1: "grow_block s p on = Some s1" "grew s s1 p on (on + 1)"
      using grow_block_grew [OF can_grow_step [OF "1.prems"(1) True]] by blast
    obtain s2 where s2: "grow_blocks s1 p (on + 1) to = Some s2" "grew s1 s2 p (on + 1) to"
      using "1.IH" [OF True s1(1)] can_grow_next [OF "1.prems"(1) True s1(2)] True by auto
    have "grew s s2 p on to"
      using grew_trans [OF s1(2) s2(2)] "1.prems" True by (auto simp: can_grow_def)
    with s1 s2 True show ?thesis by (auto simp: grow_blocks.simps [of s p on to])
  qed
qed


lemma grew_set_size:
  assumes "grew s s1 p on to" and "is_inode p" and "0 \<le> on" "on \<le> to"
  shows "grew s (s1\<lparr>disk := wr32 (disk s1) (f_size p) sz\<rparr>) p on to"
proof -
  let ?s2 = "s1\<lparr>disk := wr32 (disk s1) (f_size p) sz\<rparr>"
  have p: "4096 \<le> p" "p + 64 \<le> 8192" using is_inode_bounds [OF assms(2)] by auto
  have ip: "iptr_of ?s2 p = iptr_of s1 p"
    by (simp add: field_defs mem_simps)
  have blk: "blkno ?s2 p k = blkno s1 p k" if "0 \<le> k" "k < to" for k
  proof (cases "k < 2")
    case True
    with that show ?thesis by (simp add: blkno_def field_defs mem_simps)
  next
    case False
    with that have "2 < to" by simp
    then have "2 \<le> iptr_of s1 p" using assms(1) by (simp add: grew_def)
    with False that p ip show ?thesis by (simp add: blkno_def) (simp add: field_defs mem_simps)
  qed
  have img: "blkno ?s2 p ` {on..<to} = blkno s1 p ` {on..<to}"
    using blk assms(3) by (intro image_cong) auto
  have used: "used_pages ?s2 = used_pages s1" "free_pages ?s2 = free_pages s1"
    using p by (simp_all add: field_defs mem_simps)
  show ?thesis
  proof (rule grewI)
    show "inj_on (blkno ?s2 p) {on..<to}"
      using assms blk by (auto simp: grew_def inj_on_def)
    show "blkno ?s2 p k = blkno s p k" if "0 \<le> k" "k < on" for k
      using assms that blk by (simp add: grew_def)
    show "2 \<le> blkno ?s2 p k \<and> blkno ?s2 p k \<in> used_pages ?s2 - used_pages s" if "on \<le> k" "k < to" for k
      using assms that blk used by (simp add: grew_def)
    show "iptr_of ?s2 p \<notin> used_pages s \<and> iptr_of ?s2 p \<notin> blkno ?s2 p ` {on..<to}" if "2 < to" "on \<le> 2"
      using assms(1) that unfolding ip img by (simp add: grew_def)
    show "disk ?s2 x = disk s x"
      if "32 \<le> x" "x < p + 12 \<or> p + 28 \<le> x"
        "2 < to \<Longrightarrow> x < 4096 * iptr_of ?s2 p \<or> 4096 * iptr_of ?s2 p + 4096 \<le> x" for x
    proof -
      have "disk s1 x = disk s x" using assms(1) that unfolding ip by (auto simp: grew_def)
      with that show ?thesis by (auto simp: field_defs wr32_frame)
    qed
  qed (use assms(1) ip used in \<open>simp_all add: grew_def\<close>)
qed

text \<open>
  The growth of an inode from \<open>old\<close> to \<open>sz\<close> bytes, from the code's own entry point: it runs
  to the end, returns and stores the new size, and does what \<open>grew\<close> says.
\<close>

lemma bytes_to_pages_eq: "0 \<le> n \<Longrightarrow> bytes_to_pages n = (n + 4095) div 4096"
proof -
  assume n: "0 \<le> n"
  define q r where "q = n div 4096" and "r = n mod 4096"
  have nqr: "n = r + q * 4096" "0 \<le> r" "r < 4096"
    by (auto simp: q_def r_def)
  have "(n + 4095) div 4096 = (if r = 0 then q else q + 1)"
  proof (cases "r = 0")
    case True
    then have "n + 4095 = 4095 + q * 4096" using nqr by simp
    then have "(n + 4095) div 4096 = q + 4095 div 4096" by (simp only: div_mult_self1)
    with True show ?thesis by simp
  next
    case False
    have e: "n + 4095 = (r - 1) + (q + 1) * 4096" using nqr by simp
    have "(n + 4095) div 4096 = (q + 1) + (r - 1) div 4096"
      unfolding e by (rule div_mult_self1) simp
    moreover have "(r - 1) div 4096 = 0" using False nqr by (intro div_pos_pos_trivial) auto
    ultimately show ?thesis using False by simp
  qed
  with n show ?thesis by (simp add: bytes_to_pages_def Let_def q_def r_def)
qed

lemma bytes_to_pages_one: "0 < n \<Longrightarrow> n \<le> 4096 \<Longrightarrow> bytes_to_pages n = 1"
  by (cases "n = 4096") (auto simp: bytes_to_pages_def Let_def)

lemma bytes_to_pages_0 [simp]: "bytes_to_pages 0 = 0"
  by (simp add: bytes_to_pages_def)

lemma bytes_to_pages_nonneg: "0 \<le> n \<Longrightarrow> 0 \<le> bytes_to_pages n"
  by (simp add: bytes_to_pages_eq)

lemma bytes_to_pages_mono: "0 \<le> m \<Longrightarrow> m \<le> n \<Longrightarrow> bytes_to_pages m \<le> bytes_to_pages n"
  by (simp add: bytes_to_pages_eq zdiv_mono1)

lemma grow_inode_run:
  assumes "can_grow s p (bytes_to_pages old) (bytes_to_pages sz)"
    and "rd32 (disk s) (f_size p) = old" and "0 \<le> old" "old \<le> sz" "is_cint sz"
  shows "\<exists>s'. grow_inode s p sz = Some (sz, s') \<and> rd32 (disk s') (f_size p) = sz
              \<and> grew s s' p (bytes_to_pages old) (bytes_to_pages sz)"
proof -
  have p: "is_inode p" "4096 \<le> p" "p + 64 \<le> 8192"
    using assms(1) is_inode_bounds by (auto simp: can_grow_def)
  have le: "0 \<le> bytes_to_pages old" "bytes_to_pages old \<le> bytes_to_pages sz"
    using assms bytes_to_pages_nonneg bytes_to_pages_mono by auto
  obtain s1 where s1: "grow_blocks s p (bytes_to_pages old) (bytes_to_pages sz) = Some s1"
      "grew s s1 p (bytes_to_pages old) (bytes_to_pages sz)"
    using grow_blocks_grew [OF assms(1) le(2)] by blast
  show ?thesis
    using s1 assms p grew_set_size [OF s1(2) p(1) le, of sz]
    by (simp add: grow_inode_def access_defs field_defs mem_simps)
qed

text \<open>
  A newly formatted image: the state after \<open>pages_init\<close> on an empty file and \<open>inode_init\<close>.
  Pages 0 and 1 are in use, everything else is zero. The witnesses run on it.
\<close>

definition fresh_fs :: nufs where
  "fresh_fs = \<lparr>disk = (\<lambda>_. 0)(0 := 3), inodes_base = Some 4096\<rparr>"

lemma init_fresh: "Option.bind (pages_init (Some []) True True) inode_init = Some fresh_fs"
proof -
  define s0 where "s0 = \<lparr>disk = (\<lambda>_. 0 :: byte)(0 := 1), inodes_base = None\<rparr>"
  have "pages_init (Some []) True True = Some s0"
    by (simp add: pages_init_def bitmap_put_def access_defs rd8_def wr8_def s0_def fun_eq_iff)
  moreover have "bitmap_get s0 0 1 = Some 0"
    by (simp add: bitmap_get_def access_defs rd8_def s0_def)
  moreover have "bitmap_put s0 0 1 1 = Some (s0\<lparr>disk := (disk s0)(0 := 3)\<rparr>)"
    by (simp add: bitmap_put_def access_defs rd8_def wr8_def s0_def)
  ultimately show ?thesis
    by (simp add: inode_init_def alloc_page_def alloc_page_from.simps [of s0 1] PAGE_COUNT_def)
       (simp add: s0_def fresh_fs_def)
qed

lemma fresh_page_used: "page_used fresh_fs j \<longleftrightarrow> j = 0 \<or> j = 1" if "0 \<le> j"
proof (cases "j < 8")
  case True
  then have "j \<in> {0,1,2,3,4,5,6,7}" using that by auto
  then show ?thesis by (auto simp: fresh_fs_def page_used_def bm_bit_def)
next
  case False
  then have "0 < j div 8" by (simp add: pos_imp_zdiv_pos_iff)
  with False show ?thesis by (simp add: fresh_fs_def page_used_def bm_bit_def)
qed

lemma fresh_used_pages: "used_pages fresh_fs = {0, 1}"
  using fresh_page_used by (auto simp: used_pages_def)

lemma free_pages_fresh: "free_pages fresh_fs = 254"
proof -
  have "{1..<256} - used_pages fresh_fs = {2..<256 :: int}"
    unfolding fresh_used_pages by auto
  then show ?thesis by (simp add: free_pages_def)
qed

lemma fresh_rd32: "32 \<le> a \<Longrightarrow> rd32 (disk fresh_fs) a = 0"
  by (simp add: rd32_def fresh_fs_def)

section \<open>Properties\<close>

text \<open>the page allocator hands out the lowest free page above page 0, marks that page and no
  other, leaves every byte after its 32-byte bitmap alone, and answers -1 exactly when all pages
  are taken.\<close>

theorem alloc_page_correct:
  "\<exists>i s'. alloc_page s = Some (i, s') \<and> same_beyond 32 s s' \<and>
     (if \<exists>j. 1 \<le> j \<and> j < 256 \<and> \<not> page_used s j
      then 1 \<le> i \<and> i < 256 \<and> \<not> page_used s i \<and> (\<forall>j. \<not> (1 \<le> j \<and> j < i \<and> \<not> page_used s j))
           \<and> (\<forall>j. page_used s' j = (j = i \<or> page_used s j))
      else i = -1 \<and> s' = s)"
proof -
  obtain i s' where r: "alloc_page s = Some (i, s')" "same_beyond 32 s s'"
    "if i = -1 then s' = s \<and> (\<forall>j. 1 \<le> j \<and> j < 256 \<longrightarrow> page_used s j)
     else 1 \<le> i \<and> i < 256 \<and> \<not> page_used s i \<and> (\<forall>j. 1 \<le> j \<and> j < i \<longrightarrow> page_used s j)
          \<and> (\<forall>j. page_used s' j = (j = i \<or> page_used s j))"
    using alloc_page_spec [of s] by blast
  show ?thesis
    by (rule exI [of _ i], rule exI [of _ s']) (use r in \<open>auto split: if_splits\<close>)
qed

text \<open>freeing a page just allocated gives back the page bitmap as it was.\<close>

theorem alloc_free_page_roundtrip:
  assumes "alloc_page s = Some (i, s1)" and "i \<noteq> -1"
  shows "\<exists>s2. free_page s1 i = Some s2 \<and> used_pages s2 = used_pages s"
  using pages.alloc_release [OF _ assms] by (fastforce simp: used_pages_def)

theorem alloc_free_page_roundtrip_witness:
  "\<exists>i s1 s2. alloc_page fresh_fs = Some (i, s1) \<and> i \<noteq> -1 \<and> free_page s1 i = Some s2
             \<and> used_pages s2 = used_pages fresh_fs"
proof -
  obtain i s1 where "alloc_page fresh_fs = Some (i, s1)" "2 \<le> i"
    using alloc_page_takes [of fresh_fs] by (auto simp: free_pages_fresh fresh_used_pages)
  then show ?thesis using alloc_free_page_roundtrip [of fresh_fs i s1] by auto
qed

text \<open>an allocated inode number was free, is the only one marked, and its inode records that
  number and size 0; every other byte of the image, the other inodes included, is unchanged.\<close>

theorem alloc_inode_correct:
  assumes "inodes_base s = Some 4096"
  shows "\<exists>i s'. alloc_inode s = Some (i, s') \<and>
     (if i = -1 then s' = s \<and> (\<forall>j. 0 \<le> j \<and> j < 64 \<longrightarrow> inode_used s j)
      else 0 \<le> i \<and> i < 64 \<and> \<not> inode_used s i
         \<and> (\<forall>j. 0 \<le> j \<and> j < 64 \<longrightarrow> inode_used s' j = (j = i \<or> inode_used s j))
         \<and> rd32 (disk s') (f_inum (inode_addr i)) = i \<and> rd32 (disk s') (f_size (inode_addr i)) = 0
         \<and> (\<forall>x. (x < 32 \<or> 40 \<le> x) \<and> (x < inode_addr i \<or> inode_addr i + 4 \<le> x)
                \<and> (x < inode_addr i + 12 \<or> inode_addr i + 16 \<le> x) \<longrightarrow> disk s' x = disk s x))"
proof -
  obtain i s' where "alloc_inode s = Some (i, s')" "alloc_inode_result s 0 i s'"
    using alloc_inode_spec [of s] assms by (auto simp: inodes_ready_def)
  then show ?thesis
    by (intro exI [of _ i] exI [of _ s']) (simp add: alloc_inode_result_def)
qed

theorem alloc_inode_correct_witness:
  "\<exists>i s'. alloc_inode fresh_fs = Some (i, s') \<and> (i \<noteq> -1 \<longrightarrow> rd32 (disk s') (f_inum (inode_addr i)) = i)"
  using alloc_inode_correct [of fresh_fs] by (force simp: fresh_fs_def)

text \<open>C19: when enough pages are free, \<open>grow_inode\<close> succeeds, stores and returns the new size, puts
  every new block on a page of its own that was free and is now in use, keeps the old blocks, and
  changes no byte outside the bitmap, the inode's size and pointers, and its indirect page.\<close>

theorem grow_inode_correct:
  assumes "is_inode p" and "page_used s 1"
    and "rd32 (disk s) (f_size p) = old" and "0 \<le> old" "old \<le> sz" "sz \<le> 4096 * 1026"
    and "grow_cost (bytes_to_pages old) (bytes_to_pages sz) \<le> free_pages s"
    and "old \<le> 8192 \<or> (2 \<le> iptr_of s p \<and> iptr_of s p \<in> used_pages s)"
  shows "\<exists>s'. grow_inode s p sz = Some (sz, s') \<and> rd32 (disk s') (f_size p) = sz
              \<and> grew s s' p (bytes_to_pages old) (bytes_to_pages sz)"
proof (rule grow_inode_run)
  have "bytes_to_pages sz \<le> 1026" "0 \<le> bytes_to_pages old" "old \<le> 8192 \<longrightarrow> bytes_to_pages old \<le> 2"
    using assms by (auto simp: bytes_to_pages_eq)
  with assms show "can_grow s p (bytes_to_pages old) (bytes_to_pages sz)"
    by (auto simp: can_grow_def used_pages_def)
qed (use assms in auto)

theorem grow_inode_correct_witness:
  "\<exists>s'. grow_inode fresh_fs 4096 20000 = Some (20000, s') \<and> grew fresh_fs s' 4096 0 5"
proof -
  have "is_inode 4096" by (auto simp: is_inode_def inode_addr_def)
  then show ?thesis
    using grow_inode_correct [of 4096 fresh_fs 0 20000]
    by (auto simp: fresh_page_used fresh_rd32 free_pages_fresh field_defs grow_cost_def bytes_to_pages_eq)
qed

text \<open>C33: shrinking a file of one block to nothing does not free its block: the loop asks for block
  number 1 instead of 0, so the page of the second pointer is freed, and the (never allocated)
  indirect page with it, while the file's own page stays in use for ever.\<close>

theorem shrink_inode_leaks_block:
  assumes "is_inode p" and "rd32 (disk s) (f_size p) = old" and "0 < old" "old \<le> 4096"
    and "blkno s p 1 = q" "0 \<le> q" "q < 256" and "iptr_of s p = r" "0 \<le> r" "r < 256"
    and "blkno s p 0 \<in> used_pages s" and "blkno s p 0 \<noteq> q" "blkno s p 0 \<noteq> r"
  shows "\<exists>s'. shrink_inode s p 0 = Some (0, s') \<and> blkno s p 0 \<in> used_pages s'
              \<and> used_pages s' = used_pages s - {q, r}"
proof -
  have p: "4096 \<le> p" "p + 64 \<le> 8192" using is_inode_bounds [OF assms(1)] by auto
  have pages: "bytes_to_pages old = 1" "bytes_to_pages 0 = 0"
    using assms by (auto simp: bytes_to_pages_eq)
  obtain s1 where s1: "free_page s q = Some s1" "same_beyond 32 s s1"
      "\<forall>j. page_used s1 j = (j \<noteq> q \<and> page_used s j)"
    using free_page_eq [of q s] assms by auto
  obtain s2 where s2: "free_page s1 r = Some s2" "same_beyond 32 s1 s2"
      "\<forall>j. page_used s2 j = (j \<noteq> r \<and> page_used s1 j)"
    using free_page_eq [of r s1] assms by auto
  have loop: "shrink_blocks s p 1 0 = Some s1"
    using assms p s1
    by (simp add: shrink_blocks.simps [of s p 1 0] shrink_blocks.simps [of s1 p 0 0]
        inode_get_pnum_def NUM_PTRS_def blkno_def access_defs field_defs)
  have ip: "iptr_of s1 p = r" using assms p s1 by (simp add: mem_simps field_defs)
  let ?s3 = "s2\<lparr>disk := wr32 (disk s2) (f_size p) 0\<rparr>"
  have run: "shrink_inode s p 0 = Some (0, ?s3)"
    using assms p pages loop ip s2
    by (simp add: shrink_inode_def NUM_PTRS_def access_defs field_defs mem_simps)
  have "used_pages ?s3 = used_pages s2" using p by (simp add: mem_simps field_defs)
  also have "\<dots> = used_pages s - {q, r}" using s1 s2 by (auto simp: used_pages_def)
  finally show ?thesis using run assms by auto
qed


text \<open>An image whose first inode holds one block, on page 5.\<close>

definition one_block_fs :: nufs where
  "one_block_fs = fresh_fs\<lparr>disk := wr32 (wr32 ((disk fresh_fs)(0 := 35)) 4108 100) 4112 5\<rparr>"

theorem shrink_inode_leaks_block_witness:
  "\<exists>s'. shrink_inode one_block_fs 4096 0 = Some (0, s') \<and> 5 \<in> used_pages s'"
proof -
  have i: "is_inode 4096" by (auto simp: is_inode_def inode_addr_def)
  have z: "rd32 ((disk fresh_fs)(0 := 35)) a = 0" if "32 \<le> a" for a
    using that by (simp add: rd32_def fresh_fs_def)
  have "5 \<in> used_pages one_block_fs"
    by (simp add: used_pages_def page_used_def bm_bit_def one_block_fs_def wr32_def)
  then show ?thesis
    using shrink_inode_leaks_block [of 4096 one_block_fs 100 0 0] i
    by (auto simp: one_block_fs_def blkno_def field_defs mem_simps z)
qed

end
