(* ===== verification/Nufs_Directory.thy ===== *)
theory Nufs_Directory
  imports Nufs_Inode
begin

text \<open>
  String lists and directories of nufs: \<open>hw10/unnas-fshw/slist.c\<close>, \<open>directory.h\<close> and
  \<open>directory.c\<close>.

  An \<open>slist\<close> is the list of its strings: the functions of \<open>slist.c\<close> only ever build new
  cells, so sharing cannot be observed, and \<open>s_free\<close> only gives memory back. A directory is a
  file of 64-byte entries (48 bytes of name, the inode number, 12 bytes reserved) on the page
  of its first pointer. \<open>dir_entries\<close> is the abstract value of a directory, an association
  list from names to inode numbers; lookup, insertion and deletion are related to it.
\<close>

section \<open>slist.c\<close>

type_synonym slist = "string list"

definition s_cons :: "string \<Rightarrow> slist \<Rightarrow> slist" where
  "s_cons text rest = text # rest"

function s_split :: "string \<Rightarrow> char \<Rightarrow> slist" where
  "s_split text delim =
     (if text = [] then []
      else let plen = length (takeWhile (\<lambda>c. c \<noteq> delim) text);
               skip = (if plen < length text then 1 else 0)
           in s_cons (take plen text) (s_split (drop (plen + skip) text) delim))"
  by pat_completeness auto
termination
proof (relation "measure (\<lambda>(text, delim). length text)", goal_cases)
  case (2 t d n k)
  then have "0 < n + k"
    by (cases t) (auto split: if_splits)
  with 2(1) show ?case by simp
qed simp

function s_concat :: "slist \<Rightarrow> slist \<Rightarrow> slist" where
  "s_concat xs ys =
     (case xs of
        [] \<Rightarrow> (if ys = [] then [] else s_concat ys [])
      | x # rest \<Rightarrow> s_cons x (s_concat rest ys))"
  by pat_completeness auto
termination
  by (relation "measure (\<lambda>(xs, ys). length xs + 2 * length ys)") auto

definition s_copy :: "slist \<Rightarrow> slist" where
  "s_copy xs = s_concat xs []"

fun s_reverse_onto :: "slist \<Rightarrow> slist \<Rightarrow> slist" where
  "s_reverse_onto [] ys = ys"
| "s_reverse_onto (x # xs) ys = s_reverse_onto xs (s_cons x ys)"

definition s_reverse :: "slist \<Rightarrow> slist" where
  "s_reverse xs = s_reverse_onto xs []"

declare s_split.simps [simp del] s_concat.simps [simp del]

section \<open>C strings in the image\<close>

text \<open>
  \<open>streq\<close> of the string at an address and a string: bytes are compared up to the first
  difference or the end. \<open>strcpy\<close> writes the bytes and the final NUL, however many they are.
\<close>

fun streq_at :: "nufs \<Rightarrow> int \<Rightarrow> string \<Rightarrow> bool option" where
  "streq_at s a [] = do { b \<leftarrow> load8 s a; Some (b = 0) }"
| "streq_at s a (c # cs) = do {
     b \<leftarrow> load8 s a;
     if b = byte_of c then streq_at s (a + 1) cs else Some False }"

fun strcpy_to :: "nufs \<Rightarrow> int \<Rightarrow> string \<Rightarrow> nufs option" where
  "strcpy_to s a [] = store8 s a 0"
| "strcpy_to s a (c # cs) = do { s' \<leftarrow> store8 s a (byte_of c); strcpy_to s' (a + 1) cs }"

fun store_bytes :: "nufs \<Rightarrow> int \<Rightarrow> byte list \<Rightarrow> nufs option" where
  "store_bytes s a [] = Some s"
| "store_bytes s a (b # bs) = do { s' \<leftarrow> store8 s a b; store_bytes s' (a + 1) bs }"

function cstr_at :: "nufs \<Rightarrow> int \<Rightarrow> string option" where
  "cstr_at s a =
     (if in_image a 1 then
        (if disk s a = 0 then Some []
         else map_option (Cons (char_of_byte (disk s a))) (cstr_at s (a + 1)))
      else None)"
  by pat_completeness auto
termination
  by (relation "measure (\<lambda>(s, a). nat (NUFS_SIZE - a))") (auto simp: in_image_def)

declare cstr_at.simps [simp del]

section \<open>directory.c\<close>

definition DIR_NAME :: int where "DIR_NAME = 48"
definition sizeof_ddirent :: int where "sizeof_ddirent = 64"
definition ENOENT :: int where "ENOENT = 2"

definition directory_get_entries :: "nufs \<Rightarrow> int \<Rightarrow> int option" where
  "directory_get_entries s dd = map_option pages_get_page (load32 s (f_ptrs dd 0))"

text \<open>The number of entries: \<open>dd->size / sizeof(ddirent)\<close>, an unsigned division.\<close>

definition dir_count :: "int \<Rightarrow> int" where
  "dir_count sz = cint (size_t sz div sizeof_ddirent)"

function dir_find :: "nufs \<Rightarrow> int \<Rightarrow> string \<Rightarrow> int \<Rightarrow> int \<Rightarrow> int option" where
  "dir_find s entries name n ii =
     (if ii < n then do {
        m \<leftarrow> streq_at s (entries + ii * sizeof_ddirent) name;
        if m then load32 s (entries + ii * sizeof_ddirent + DIR_NAME)
        else dir_find s entries name n (ii + 1) }
      else Some (- ENOENT))"
  by pat_completeness auto
termination
  by (relation "measure (\<lambda>(s, e, name, n, ii). nat (n - ii))") auto

definition directory_lookup :: "nufs \<Rightarrow> int \<Rightarrow> string \<Rightarrow> int option" where
  "directory_lookup s dd name = do {
     entries \<leftarrow> directory_get_entries s dd;
     sz \<leftarrow> load32 s (f_size dd);
     dir_find s entries name (dir_count sz) 0 }"

text \<open>The walk over the levels of a path. An empty list is a null pointer dereference.\<close>

fun tree_walk :: "nufs \<Rightarrow> int \<Rightarrow> slist \<Rightarrow> int option" where
  "tree_walk s curr_inum [] = None"
| "tree_walk s curr_inum (name # next) = do {
     dirnode \<leftarrow> get_inode s curr_inum;
     curr_inum' \<leftarrow> directory_lookup s dirnode name;
     if next = [] then Some curr_inum' else tree_walk s curr_inum' next }"

definition tree_lookup :: "nufs \<Rightarrow> string \<Rightarrow> int option" where
  "tree_lookup s path =
     (if path = ''/'' then Some 0
      else if path = '''' then None
      else tree_walk s 0 (s_split (tl path) CHR ''/''))"

definition add_refs :: "nufs \<Rightarrow> int \<Rightarrow> int \<Rightarrow> nufs option" where
  "add_refs s node d = do { r \<leftarrow> load32 s (f_refs node); store32 s (f_refs node) (r + d) }"

definition directory_put :: "nufs \<Rightarrow> int \<Rightarrow> string \<Rightarrow> int \<Rightarrow> (int \<times> nufs) option" where
  "directory_put s dd name inum = do {
     sz \<leftarrow> load32 s (f_size dd);
     (_, s1) \<leftarrow> grow_inode s dd (cint (sz + sizeof_ddirent));
     node \<leftarrow> get_inode s1 inum;
     s2 \<leftarrow> add_refs s1 node 1;
     page \<leftarrow> load32 s2 (f_ptrs dd 0);
     sz' \<leftarrow> load32 s2 (f_size dd);
     let to_put = pages_get_page page + sz' - sizeof_ddirent;
     s3 \<leftarrow> strcpy_to s2 to_put name;
     s4 \<leftarrow> store32 s3 (to_put + DIR_NAME) inum;
     Some (0, s4) }"

text \<open>The body of the loop of \<open>directory_delete\<close> at the matching entry, up to its \<open>return 0\<close>.\<close>

definition delete_entry :: "nufs \<Rightarrow> int \<Rightarrow> int \<Rightarrow> int \<Rightarrow> int \<Rightarrow> (int \<times> nufs) option" where
  "delete_entry s dd entries n ii = do {
     inum \<leftarrow> load32 s (entries + ii * sizeof_ddirent + DIR_NAME);
     node \<leftarrow> get_inode s inum;
     s1 \<leftarrow> add_refs s node (-1);
     refs \<leftarrow> load32 s1 (f_refs node);
     s2 \<leftarrow> (if refs \<le> 0 then free_inode s1 node else Some s1);
     last_entry \<leftarrow> load_bytes s2 (entries + (n - 1) * sizeof_ddirent) 64;
     s3 \<leftarrow> store_bytes s2 (entries + ii * sizeof_ddirent) last_entry;
     sz \<leftarrow> load32 s3 (f_size dd);
     (_, s4) \<leftarrow> shrink_inode s3 dd (cint (sz - sizeof_ddirent));
     Some (0, s4) }"

function dir_delete_from ::
    "nufs \<Rightarrow> int \<Rightarrow> int \<Rightarrow> string \<Rightarrow> int \<Rightarrow> int \<Rightarrow> (int \<times> nufs) option" where
  "dir_delete_from s dd entries name n ii =
     (if ii < n then do {
        m \<leftarrow> streq_at s (entries + ii * sizeof_ddirent) name;
        if m then delete_entry s dd entries n ii
        else dir_delete_from s dd entries name n (ii + 1) }
      else Some (- ENOENT, s))"
  by pat_completeness auto
termination
  by (relation "measure (\<lambda>(s, dd, e, name, n, ii). nat (n - ii))") auto

definition directory_delete :: "nufs \<Rightarrow> int \<Rightarrow> string \<Rightarrow> (int \<times> nufs) option" where
  "directory_delete s dd name = do {
     entries \<leftarrow> directory_get_entries s dd;
     sz \<leftarrow> load32 s (f_size dd);
     dir_delete_from s dd entries name (dir_count sz) 0 }"

function dir_names :: "nufs \<Rightarrow> int \<Rightarrow> int \<Rightarrow> int \<Rightarrow> slist \<Rightarrow> slist option" where
  "dir_names s entries n ii names =
     (if ii < n then do {
        first \<leftarrow> cstr_at s (entries + ii * sizeof_ddirent);
        dir_names s entries n (ii + 1) (s_cons first names) }
      else Some names)"
  by pat_completeness auto
termination
  by (relation "measure (\<lambda>(s, e, n, ii, names). nat (n - ii))") auto

definition directory_list :: "nufs \<Rightarrow> string \<Rightarrow> slist option" where
  "directory_list s path = do {
     dirnum \<leftarrow> tree_lookup s path;
     dd \<leftarrow> get_inode s dirnum;
     entries \<leftarrow> directory_get_entries s dd;
     sz \<leftarrow> load32 s (f_size dd);
     dir_names s entries (dir_count sz) 0 [] }"

declare dir_find.simps [simp del] dir_delete_from.simps [simp del] dir_names.simps [simp del]

section \<open>Paths\<close>

lemma s_concat_append: "s_concat xs ys = xs @ ys"
proof (induction xs ys rule: s_concat.induct)
  case (1 xs ys)
  show ?case
  proof (cases xs)
    case Nil
    with 1 show ?thesis by (subst s_concat.simps) simp
  next
    case (Cons x rest)
    with 1 show ?thesis by (subst s_concat.simps) (simp add: s_cons_def)
  qed
qed

lemma s_reverse_onto_rev: "s_reverse_onto xs ys = rev xs @ ys"
  by (induction xs arbitrary: ys) (simp_all add: s_cons_def)

lemma s_split_Nil [simp]: "s_split [] d = []"
  by (simp add: s_split.simps)

lemma s_split_unfold:
  "text \<noteq> [] \<Longrightarrow> s_split text d =
     takeWhile (\<lambda>c. c \<noteq> d) text # s_split (drop 1 (dropWhile (\<lambda>c. c \<noteq> d) text)) d"
proof -
  assume ne: "text \<noteq> []"
  let ?n = "length (takeWhile (\<lambda>c. c \<noteq> d) text)"
  have t: "take ?n text = takeWhile (\<lambda>c. c \<noteq> d) text" and dr: "drop ?n text = dropWhile (\<lambda>c. c \<noteq> d) text"
    by (metis append_eq_conv_conj takeWhile_dropWhile_id)+
  have "drop (?n + (if ?n < length text then 1 else 0)) text = drop 1 (dropWhile (\<lambda>c. c \<noteq> d) text)"
  proof (cases "?n < length text")
    case True
    then show ?thesis by (simp add: dr [symmetric])
  next
    case False
    then have "drop ?n text = []" by simp
    with False show ?thesis by (simp add: dr [symmetric])
  qed
  with ne t show ?thesis by (subst s_split.simps) (simp add: s_cons_def Let_def)
qed


lemma s_split_parts:
  "part \<in> set (s_split t d) \<Longrightarrow> d \<notin> set part"
proof (induction t d rule: s_split.induct)
  case (1 u d)
  show ?case
  proof (cases "u = []")
    case True
    with "1.prems" show ?thesis by simp
  next
    case False
    define n where "n = length (takeWhile (\<lambda>c. c \<noteq> d) u)"
    have eq: "s_split u d = take n u # s_split (drop (n + (if n < length u then 1 else 0)) u) d"
      using False by (subst s_split.simps) (simp add: s_cons_def n_def Let_def)
    have "take n u = takeWhile (\<lambda>c. c \<noteq> d) u"
      unfolding n_def by (metis append_eq_conv_conj takeWhile_dropWhile_id)
    then have "d \<notin> set (take n u)" by (auto dest: set_takeWhileD)
    with "1.prems" "1.IH" [OF False refl refl] show ?thesis
      unfolding eq n_def [symmetric] by auto
  qed
qed

text \<open>Writing every part followed by the delimiter gives the text back, with one delimiter more when it had none at its end.\<close>

lemma s_split_join:
  "concat (map (\<lambda>part. part @ [d]) (s_split t d)) =
     (if t = [] \<or> last t = d then t else t @ [d])"
proof (induction "length t" arbitrary: t rule: less_induct)
  case less
  show ?case
  proof (cases "t = []")
    case False
    let ?p = "takeWhile (\<lambda>c. c \<noteq> d) t" and ?r = "dropWhile (\<lambda>c. c \<noteq> d) t"
    have tpr: "t = ?p @ ?r" by simp
    show ?thesis
    proof (cases ?r)
      case Nil
      then have all: "\<forall>x\<in>set t. x \<noteq> d" by simp
      then have "?p = t" by (simp add: takeWhile_eq_all_conv)
      moreover have "last t \<noteq> d" using all False by simp
      moreover have "s_split t d = [?p]" using s_split_unfold [OF False, of d] Nil by simp
      ultimately show ?thesis using False by simp
    next
      case (Cons c rest)
      then have c: "c = d" by (auto simp: dropWhile_eq_Cons_conv)
      have eq: "?p @ d # rest = t" by (metis Cons c takeWhile_dropWhile_id)
      have "length rest < length t" using arg_cong [OF eq, of length] by simp
      then have IH: "concat (map (\<lambda>part. part @ [d]) (s_split rest d)) =
          (if rest = [] \<or> last rest = d then rest else rest @ [d])"
        by (rule less)
      have lst: "last t = (if rest = [] then d else last rest)"
        using arg_cong [OF eq, of last] by simp
      have "s_split t d = ?p # s_split rest d"
        using s_split_unfold [OF False, of d] Cons by simp
      then have "concat (map (\<lambda>part. part @ [d]) (s_split t d))
          = ?p @ d # (if rest = [] \<or> last rest = d then rest else rest @ [d])"
        using IH by simp
      also have "\<dots> = (if t = [] \<or> last t = d then t else t @ [d])"
        using lst eq False by (auto simp flip: append_Cons append_assoc)
      finally show ?thesis .
    qed
  qed simp
qed

section \<open>Names in the image\<close>

text \<open>The string in the first \<open>n\<close> bytes at an address, and whether those bytes hold its final NUL.\<close>

fun cname :: "mem \<Rightarrow> int \<Rightarrow> nat \<Rightarrow> string" where
  "cname m a 0 = []"
| "cname m a (Suc n) = (if m a = 0 then [] else char_of_byte (m a) # cname m (a + 1) n)"

fun terminated :: "mem \<Rightarrow> int \<Rightarrow> nat \<Rightarrow> bool" where
  "terminated m a 0 = False"
| "terminated m a (Suc n) = (m a = 0 \<or> terminated m (a + 1) n)"

lemma cname_cong:
  "(\<And>x. a \<le> x \<Longrightarrow> x < a + int n \<Longrightarrow> m x = m' x) \<Longrightarrow> cname m a n = cname m' a n"
  by (induction n arbitrary: a) auto

lemma terminated_cong:
  "(\<And>x. a \<le> x \<Longrightarrow> x < a + int n \<Longrightarrow> m x = m' x) \<Longrightarrow> terminated m a n = terminated m' a n"
  by (induction n arbitrary: a) auto

lemma streq_at_cname:
  assumes "terminated (disk s) a n" and "in_image a (int n)" and "NUL \<notin> set name"
  shows "streq_at s a name = Some (cname (disk s) a n = name)"
  using assms
proof (induction n arbitrary: a name)
  case (Suc n)
  have ld: "load8 s a = Some (disk s a)"
    using Suc.prems(2) by (simp add: load8_def rd8_def in_image_def)
  show ?case
  proof (cases name)
    case Nil
    then show ?thesis using ld by simp
  next
    case (Cons c cs)
    have "streq_at s (a + 1) cs = Some (cname (disk s) (a + 1) n = cs)" if "disk s a \<noteq> 0"
      using Suc that Cons by (auto simp: in_image_def)
    moreover have "disk s a = byte_of c \<longleftrightarrow> char_of_byte (disk s a) = c"
      by (metis byte_of_char_of_byte char_of_byte_of)
    moreover have "byte_of c \<noteq> 0" using Suc.prems(3) Cons by auto
    ultimately show ?thesis using Cons ld by auto
  qed
qed simp

lemma strcpy_to_cname:
  assumes "length name < n" and "in_image a (int n)" and "NUL \<notin> set name"
  shows "\<exists>s'. strcpy_to s a name = Some s' \<and> inodes_base s' = inodes_base s
           \<and> cname (disk s') a n = name \<and> terminated (disk s') a n
           \<and> (\<forall>x. x < a \<or> a + int n \<le> x \<longrightarrow> disk s' x = disk s x)"
  using assms
proof (induction name arbitrary: s a n)
  case Nil
  then show ?case by (cases n) (auto simp: store8_def in_image_def wr8_def)
next
  case (Cons c cs)
  then obtain k where k: "n = Suc k" by (cases n) auto
  let ?s1 = "s\<lparr>disk := wr8 (disk s) a (byte_of c)\<rparr>"
  obtain s' where s': "strcpy_to ?s1 (a + 1) cs = Some s'" "inodes_base s' = inodes_base ?s1"
      "cname (disk s') (a + 1) k = cs" "terminated (disk s') (a + 1) k"
      "\<forall>x. x < a + 1 \<or> a + 1 + int k \<le> x \<longrightarrow> disk s' x = disk ?s1 x"
    using Cons.IH [of k "a + 1" ?s1] Cons.prems k by (auto simp: in_image_def)
  have "disk s' a = byte_of c" using s'(5) by (simp add: wr8_def)
  then show ?case
    using s' k Cons.prems by (auto simp: store8_def in_image_def wr8_def)
qed

section \<open>Directories as association lists\<close>

definition entry :: "mem \<Rightarrow> int \<Rightarrow> nat \<Rightarrow> string \<times> int" where
  "entry m base i = (cname m (base + int i * 64) 48, rd32 m (base + int i * 64 + 48))"

definition dir_base :: "nufs \<Rightarrow> int \<Rightarrow> int" where
  "dir_base s dd = 4096 * rd32 (disk s) (f_ptrs dd 0)"

definition dir_len :: "nufs \<Rightarrow> int \<Rightarrow> nat" where
  "dir_len s dd = nat (rd32 (disk s) (f_size dd) div 64)"

definition dir_entries :: "nufs \<Rightarrow> int \<Rightarrow> (string \<times> int) list" where
  "dir_entries s dd = map (entry (disk s) (dir_base s dd)) [0..<dir_len s dd]"

text \<open>
  A well-formed directory: a whole number of entries that fit its one page, the page is a
  data page, and every name ends inside its field.
\<close>

definition dir_ok :: "nufs \<Rightarrow> int \<Rightarrow> bool" where
  "dir_ok s dd \<longleftrightarrow> is_inode dd
     \<and> rd32 (disk s) (f_size dd) = 64 * int (dir_len s dd) \<and> dir_len s dd \<le> 64
     \<and> (0 < dir_len s dd \<longrightarrow> 8192 \<le> dir_base s dd \<and> dir_base s dd + 4096 \<le> NUFS_SIZE)
     \<and> (\<forall>i < dir_len s dd. terminated (disk s) (dir_base s dd + int i * 64) 48)"

lemma entry_cong:
  assumes "\<And>x. base + int i * 64 \<le> x \<Longrightarrow> x < base + int i * 64 + 64 \<Longrightarrow> m x = m' x"
  shows "entry m base i = entry m' base i"
  unfolding entry_def using assms by (auto intro!: cname_cong rd32_eq_on)

lemma dir_find_map_of:
  assumes "0 \<le> base" "base + int n * 64 \<le> NUFS_SIZE" and "NUL \<notin> set name"
    and "\<forall>i < n. terminated (disk s) (base + int i * 64) 48" and "k \<le> n"
  shows "dir_find s base name (int n) (int k) =
           Some (case map_of (map (entry (disk s) base) [k..<n]) name of Some i \<Rightarrow> i | None \<Rightarrow> -2)"
  using assms(5)
proof (induction "n - k" arbitrary: k)
  case 0
  then show ?case by (simp add: dir_find.simps ENOENT_def)
next
  case (Suc d)
  then have k: "k < n" by simp
  have img: "in_image (base + int k * 64) 48" "in_image (base + int k * 64 + 48) 4"
    using assms(1,2) k by (auto simp: in_image_def)
  have eq: "streq_at s (base + int k * 64) name = Some (cname (disk s) (base + int k * 64) 48 = name)"
    using streq_at_cname [of s _ 48 name] assms(3,4) k img by simp
  have IH: "dir_find s base name (int n) (int k + 1) =
      Some (case map_of (map (entry (disk s) base) [Suc k..<n]) name of Some i \<Rightarrow> i | None \<Rightarrow> -2)"
    using Suc.hyps(1) [of "Suc k"] Suc.hyps(2) k by (simp add: add.commute)
  show ?case
    using k eq IH img
    by (simp add: dir_find.simps [of s base name "int n" "int k"] upt_conv_Cons entry_def
        sizeof_ddirent_def DIR_NAME_def load32_def)
qed

lemma dir_count_eq: "0 \<le> n \<Longrightarrow> n \<le> 64 \<Longrightarrow> dir_count (64 * n) = n"
  by (simp add: dir_count_def sizeof_ddirent_def)

lemma dir_ptr_bounds:
  assumes "dir_ok s dd" and "0 < dir_len s dd"
  shows "2 \<le> rd32 (disk s) (f_ptrs dd 0)" "rd32 (disk s) (f_ptrs dd 0) < 256"
  using assms by (auto simp: dir_ok_def dir_base_def NUFS_SIZE_def)

lemma directory_lookup_map_of:
  assumes "dir_ok s dd" and "NUL \<notin> set name"
  shows "directory_lookup s dd name = Some (case map_of (dir_entries s dd) name of Some i \<Rightarrow> i | None \<Rightarrow> -2)"
proof -
  have dd: "4096 \<le> dd" "dd + 64 \<le> 8192" using assms(1) is_inode_bounds by (auto simp: dir_ok_def)
  let ?n = "dir_len s dd"
  have sz: "rd32 (disk s) (f_size dd) = 64 * int ?n" "?n \<le> 64" using assms(1) by (auto simp: dir_ok_def)
  have lds: "load32 s (f_size dd) = Some (64 * int ?n)" "load32 s (f_ptrs dd 0) = Some (rd32 (disk s) (f_ptrs dd 0))"
    using sz dd by (auto simp: access_defs field_defs)
  show ?thesis
  proof (cases "?n = 0")
    case True
    with lds show ?thesis
      by (simp add: directory_lookup_def directory_get_entries_def dir_entries_def dir_count_eq
          dir_find.simps ENOENT_def dir_count_def sizeof_ddirent_def)
  next
    case False
    have b: "pages_get_page (rd32 (disk s) (f_ptrs dd 0)) = dir_base s dd"
      using dir_ptr_bounds [OF assms(1)] False by (simp add: dir_base_def)
    have "dir_find s (dir_base s dd) name (int ?n) (int 0) =
        Some (case map_of (map (entry (disk s) (dir_base s dd)) [0..<?n]) name of Some i \<Rightarrow> i | None \<Rightarrow> -2)"
      using assms False sz by (intro dir_find_map_of) (auto simp: dir_ok_def)
    with lds b sz show ?thesis
      by (simp add: directory_lookup_def directory_get_entries_def dir_entries_def dir_count_eq)
  qed
qed


section \<open>Inserting a name\<close>

lemma refs_field_bytes:
  assumes "is_inode dd" and "dd + 8 \<le> x" "x < dd + 64"
  shows "x < f_refs (inode_addr inum) \<or> f_refs (inode_addr inum) + 4 \<le> x"
proof -
  obtain i where i: "dd = inode_addr i" using assms(1) by (auto simp: is_inode_def)
  consider "i + 1 \<le> inum" | "i = inum" | "inum + 1 \<le> i" by linarith
  then show ?thesis using assms(2,3) by cases (simp_all add: i inode_addr_def f_refs_def)
qed

lemma refs_field_disjoint:
  assumes "is_inode dd" and "8 \<le> k" "k \<le> 60"
  shows "rd32 (wr32 m (f_refs (inode_addr inum)) v) (dd + k) = rd32 m (dd + k)"
  using assms by (intro rd32_eq_on wr32_frame refs_field_bytes) auto

lemma dir_len_eqI: "rd32 (disk s) (f_size dd) = 64 * int n \<Longrightarrow> dir_len s dd = n"
  by (simp add: dir_len_def)

text \<open>The bytes a directory's value depends on.\<close>

lemma dir_entries_cong:
  assumes "rd32 (disk s') (f_size dd) = rd32 (disk s) (f_size dd)"
    and "rd32 (disk s') (f_ptrs dd 0) = rd32 (disk s) (f_ptrs dd 0)"
    and "\<And>x. dir_base s dd \<le> x \<Longrightarrow> x < dir_base s dd + 64 * int (dir_len s dd) \<Longrightarrow> disk s' x = disk s x"
  shows "dir_entries s' dd = dir_entries s dd" and "dir_ok s dd \<Longrightarrow> dir_ok s' dd"
proof -
  have b: "dir_base s' dd = dir_base s dd" and l: "dir_len s' dd = dir_len s dd"
    using assms(1,2) by (simp_all add: dir_base_def dir_len_def)
  have same: "disk s' x = disk s x"
    if "i < dir_len s dd" "dir_base s dd + int i * 64 \<le> x" "x < dir_base s dd + int i * 64 + 64" for i x
    using that by (intro assms(3)) linarith+
  show "dir_entries s' dd = dir_entries s dd"
    unfolding dir_entries_def b l by (rule map_cong [OF refl]) (auto intro!: entry_cong same)
  have "terminated (disk s') (dir_base s dd + int i * 64) 48 = terminated (disk s) (dir_base s dd + int i * 64) 48"
    if "i < dir_len s dd" for i
    using that by (intro terminated_cong same [of i]) auto
  then show "dir_ok s dd \<Longrightarrow> dir_ok s' dd"
    unfolding dir_ok_def b l assms(1) by auto
qed

definition put_ok :: "nufs \<Rightarrow> int \<Rightarrow> string \<Rightarrow> int \<Rightarrow> bool" where
  "put_ok s dd name inum \<longleftrightarrow> inodes_ready s \<and> 1 \<in> used_pages s \<and> dir_len s dd < 64
     \<and> (dir_len s dd = 0 \<longrightarrow> 0 < free_pages s)
     \<and> 0 \<le> inum \<and> inum < 64 \<and> length name < 48 \<and> NUL \<notin> set name"

text \<open>First half: the directory has room for one entry more, on its own data page.\<close>

lemma put_grow:
  assumes "dir_ok s dd" and "put_ok s dd name inum"
  shows "\<exists>s1. grow_inode s dd (64 * int (dir_len s dd) + 64) = Some (64 * int (dir_len s dd) + 64, s1)
          \<and> rd32 (disk s1) (f_size dd) = 64 * int (dir_len s dd) + 64
          \<and> 8192 \<le> dir_base s1 dd \<and> dir_base s1 dd + 4096 \<le> NUFS_SIZE
          \<and> (0 < dir_len s dd \<longrightarrow> dir_base s1 dd = dir_base s dd)
          \<and> inodes_ready s1 \<and> used_pages s \<subseteq> used_pages s1
          \<and> (\<forall>x. 32 \<le> x \<and> (x < dd + 12 \<or> dd + 28 \<le> x) \<longrightarrow> disk s1 x = disk s x)"
proof -
  let ?n = "dir_len s dd" and ?on = "bytes_to_pages (64 * int (dir_len s dd))"
  have n: "?n < 64" using assms(2) by (simp add: put_ok_def)
  have on: "?on = (if ?n = 0 then 0 else 1)" "bytes_to_pages (64 * int ?n + 64) = 1"
    using n by (auto simp: bytes_to_pages_one)
  have cg: "can_grow s dd ?on 1"
    using assms on by (auto simp: can_grow_def dir_ok_def put_ok_def grow_cost_def)
  have "\<exists>s'. grow_inode s dd (64 * int ?n + 64) = Some (64 * int ?n + 64, s')
          \<and> rd32 (disk s') (f_size dd) = 64 * int ?n + 64 \<and> grew s s' dd ?on (bytes_to_pages (64 * int ?n + 64))"
    using assms n by (intro grow_inode_run) (auto simp: on(2) cg dir_ok_def)
  then obtain s1 where s1: "grow_inode s dd (64 * int ?n + 64) = Some (64 * int ?n + 64, s1)"
      "rd32 (disk s1) (f_size dd) = 64 * int ?n + 64" "grew s s1 dd ?on 1"
    using on(2) by auto
  have blk0: "blkno t dd 0 = rd32 (disk t) (f_ptrs dd 0)" for t by (simp add: blkno_def)
  have "8192 \<le> dir_base s1 dd \<and> dir_base s1 dd + 4096 \<le> NUFS_SIZE \<and> (0 < ?n \<longrightarrow> dir_base s1 dd = dir_base s dd)"
  proof (cases "?n = 0")
    case True
    then have "2 \<le> blkno s1 dd 0" "blkno s1 dd 0 \<in> used_pages s1"
      using s1(3) on by (auto simp: grew_def)
    with True show ?thesis
      using used_pages_range [of "blkno s1 dd 0" s1] by (auto simp: dir_base_def blk0 NUFS_SIZE_def)
  next
    case False
    then have "blkno s1 dd 0 = blkno s dd 0" using s1(3) on by (auto simp: grew_def)
    with False assms(1) show ?thesis by (auto simp: dir_base_def blk0 dir_ok_def)
  qed
  moreover have "inodes_ready s1" "used_pages s \<subseteq> used_pages s1"
      "\<forall>x. 32 \<le> x \<and> (x < dd + 12 \<or> dd + 28 \<le> x) \<longrightarrow> disk s1 x = disk s x"
    using s1(3) assms(2) by (auto simp: grew_def inodes_ready_def put_ok_def)
  ultimately show ?thesis using s1(1,2) by (intro exI [of _ s1]) simp
qed

text \<open>
  The whole of \<open>directory_put\<close>: it returns 0, the directory's value gains exactly the pair
  \<open>(name, inum)\<close> at its end, the target's reference count goes up by one, and no other byte
  of the data pages or of the inode table changes.
\<close>

lemma directory_put_entries:
  assumes ok: "dir_ok s dd" and put: "put_ok s dd name inum"
  shows "\<exists>s'. directory_put s dd name inum = Some (0, s') \<and> dir_ok s' dd \<and> inodes_ready s'
          \<and> dir_entries s' dd = dir_entries s dd @ [(name, inum)]
          \<and> used_pages s \<subseteq> used_pages s'
          \<and> rd32 (disk s') (f_refs (inode_addr inum)) = cint (rd32 (disk s) (f_refs (inode_addr inum)) + 1)
          \<and> (\<forall>x. 4096 \<le> x \<and> (x < dd + 12 \<or> dd + 28 \<le> x)
                 \<and> (x < f_refs (inode_addr inum) \<or> f_refs (inode_addr inum) + 4 \<le> x)
                 \<and> (x < dir_base s' dd + 64 * int (dir_len s dd) \<or> dir_base s' dd + 64 * int (dir_len s dd) + 64 \<le> x)
                 \<longrightarrow> disk s' x = disk s x)"
proof -
  let ?n = "dir_len s dd" and ?r = "f_refs (inode_addr inum)"
  have dd: "is_inode dd" "4096 \<le> dd" "dd + 64 \<le> 8192" using ok is_inode_bounds by (auto simp: dir_ok_def)
  have pk: "?n < 64" "0 \<le> inum" "inum < 64" "length name < 48" "NUL \<notin> set name" "inodes_ready s"
    using put by (auto simp: put_ok_def)
  have r: "4096 \<le> ?r" "?r + 4 \<le> 8192" using pk by (auto simp: inode_addr_def f_refs_def)
  have sz: "rd32 (disk s) (f_size dd) = 64 * int ?n" using ok by (simp add: dir_ok_def)
  obtain s1 where s1: "grow_inode s dd (64 * int ?n + 64) = Some (64 * int ?n + 64, s1)"
      "rd32 (disk s1) (f_size dd) = 64 * int ?n + 64"
      "8192 \<le> dir_base s1 dd" "dir_base s1 dd + 4096 \<le> NUFS_SIZE"
      "0 < ?n \<longrightarrow> dir_base s1 dd = dir_base s dd" "inodes_ready s1" "used_pages s \<subseteq> used_pages s1"
      "\<forall>x. 32 \<le> x \<and> (x < dd + 12 \<or> dd + 28 \<le> x) \<longrightarrow> disk s1 x = disk s x"
    using put_grow [OF ok put] by (elim exE conjE) (rule that, assumption+)
  define s2 where "s2 = s1\<lparr>disk := wr32 (disk s1) ?r (rd32 (disk s1) ?r + 1)\<rparr>"
  let ?b = "dir_base s1 dd"
  let ?a = "?b + 64 * int ?n"
  have a_img: "in_image ?a 48" "in_image (?a + 48) 4" using s1(3,4) pk(1) by (auto simp: in_image_def)
  obtain s3 where s3: "strcpy_to s2 ?a name = Some s3" "inodes_base s3 = inodes_base s2"
      "cname (disk s3) ?a 48 = name" "terminated (disk s3) ?a 48"
      "\<forall>x. x < ?a \<or> ?a + 48 \<le> x \<longrightarrow> disk s3 x = disk s2 x"
    using strcpy_to_cname [of name 48 ?a s2] pk a_img by auto
  define s4 where "s4 = s3\<lparr>disk := wr32 (disk s3) (?a + 48) inum\<rparr>"
  have low: "disk s4 x = disk s2 x" if "x < ?a \<or> ?a + 64 \<le> x" for x
    using that s3(5) by (auto simp: s4_def wr32_frame)
  have r2: "rd32 (disk s2) (dd + k) = rd32 (disk s1) (dd + k)" if "8 \<le> k" "k \<le> 60" for k
    using refs_field_disjoint [OF dd(1) that] by (simp add: s2_def)
  have r4: "rd32 (disk s4) x = rd32 (disk s2) x" if "x + 4 \<le> 8192" for x
    using that s1(3) by (intro rd32_eq_on low) auto
  have fld: "rd32 (disk s4) (f_size dd) = 64 * int ?n + 64" "rd32 (disk s4) (f_ptrs dd 0) = rd32 (disk s1) (f_ptrs dd 0)"
      "rd32 (disk s2) (f_size dd) = 64 * int ?n + 64" "rd32 (disk s2) (f_ptrs dd 0) = rd32 (disk s1) (f_ptrs dd 0)"
    using r2 [of 12] r2 [of 16] r4 [of "dd + 12"] r4 [of "dd + 16"] dd s1(2) by (auto simp: field_defs)
  have pg: "pages_get_page (rd32 (disk s1) (f_ptrs dd 0)) = ?b"
    using s1(3,4) by (auto simp: dir_base_def NUFS_SIZE_def)
  have run: "directory_put s dd name inum = Some (0, s4)"
  proof -
    have "get_inode s1 inum = Some (inode_addr inum)" using get_inode_ready [OF s1(6)] pk by simp
    moreover have "add_refs s1 (inode_addr inum) 1 = Some s2"
      using r by (simp add: add_refs_def access_defs s2_def)
    moreover have "load32 s2 (f_ptrs dd 0) = Some (rd32 (disk s1) (f_ptrs dd 0))"
        "load32 s2 (f_size dd) = Some (64 * int ?n + 64)" "load32 s (f_size dd) = Some (64 * int ?n)"
      using fld dd sz by (auto simp: access_defs field_defs)
    moreover have "cint (64 * int ?n + 64) = 64 * int ?n + 64" using pk by simp
    moreover have "store32 s3 (48 + ?a) inum = Some s4"
      using a_img by (simp add: store32_def s4_def add.commute)
    ultimately show ?thesis
      using s1(1) s3(1) pg by (simp add: directory_put_def sizeof_ddirent_def DIR_NAME_def)
  qed
  have len4: "dir_len s4 dd = Suc ?n" using fld(1) by (intro dir_len_eqI) simp
  have base4: "dir_base s4 dd = ?b" using fld by (simp add: dir_base_def)
  have new: "entry (disk s4) ?b ?n = (name, inum)" "terminated (disk s4) (?b + int ?n * 64) 48"
  proof -
    have *: "cname (disk s4) ?a 48 = cname (disk s3) ?a 48" "terminated (disk s4) ?a 48 = terminated (disk s3) ?a 48"
      by (auto simp: s4_def wr32_frame intro!: cname_cong terminated_cong)
    have "rd32 (disk s4) (?a + 48) = inum" using pk by (simp add: s4_def mem_simps)
    with * s3 show "entry (disk s4) ?b ?n = (name, inum)" "terminated (disk s4) (?b + int ?n * 64) 48"
      by (simp_all add: entry_def mult.commute)
  qed
  have old: "disk s4 x = disk s x" if "?b \<le> x" "x < ?b + 64 * int ?n" for x
    using that low [of x] s1(3,8) dd r by (simp add: s2_def wr32_frame)
  have ents: "entry (disk s4) ?b i = entry (disk s) ?b i"
      "terminated (disk s4) (?b + int i * 64) 48 = terminated (disk s) (?b + int i * 64) 48" if "i < ?n" for i
    using that by (auto intro!: entry_cong terminated_cong old)
  have "dir_entries s4 dd = dir_entries s dd @ [(name, inum)]"
    unfolding dir_entries_def len4 base4 using new ents s1(5) by (cases "?n = 0") auto
  moreover have "dir_ok s4 dd"
    unfolding dir_ok_def len4 base4
    using dd fld(1) pk(1) s1(3,4,5) new(2) ents ok by (auto simp: less_Suc_eq dir_ok_def)
  moreover have "inodes_ready s4" using s1(6) s3(2) by (simp add: s4_def s2_def inodes_ready_def)
  moreover have "used_pages s4 = used_pages s1"
    using low s1(3) r by (intro used_pages_cong) (simp add: s2_def wr32_frame)
  moreover have "rd32 (disk s4) ?r = cint (rd32 (disk s) ?r + 1)"
  proof -
    have "rd32 (disk s1) ?r = rd32 (disk s) ?r"
      using s1(8) dd(1) r
    proof (intro rd32_eq_on)
      fix x assume x: "?r \<le> x" "x < ?r + 4"
      obtain i where i: "dd = inode_addr i" using dd by (auto simp: is_inode_def)
      consider "i + 1 \<le> inum" | "i = inum" | "inum + 1 \<le> i" by linarith
      then have "x < dd + 12 \<or> dd + 28 \<le> x" using x by cases (auto simp: i inode_addr_def f_refs_def)
      with s1(8) x r show "disk s1 x = disk s x" by auto
    qed
    with r4 [of ?r] r show ?thesis by (simp add: s2_def mem_simps)
  qed
  moreover have "disk s4 x = disk s x"
    if "4096 \<le> x" "x < dd + 12 \<or> dd + 28 \<le> x" "x < ?r \<or> ?r + 4 \<le> x" "x < ?a \<or> ?a + 64 \<le> x" for x
    using that low [of x] s1(8) by (simp add: s2_def wr32_frame)
  ultimately show ?thesis using run s1(7) base4 by auto
qed


section \<open>Deleting a name\<close>

lemma store_bytes_eq:
  assumes "in_image a (int (length bs))"
  shows "\<exists>s'. store_bytes s a bs = Some s' \<and> inodes_base s' = inodes_base s
     \<and> (\<forall>x. disk s' x = (if a \<le> x \<and> x < a + int (length bs) then bs ! nat (x - a) else disk s x))"
  using assms
proof (induction bs arbitrary: s a)
  case (Cons b bs)
  let ?s1 = "s\<lparr>disk := wr8 (disk s) a b\<rparr>"
  obtain s' where s': "store_bytes ?s1 (a + 1) bs = Some s'" "inodes_base s' = inodes_base s"
      "\<forall>x. disk s' x = (if a + 1 \<le> x \<and> x < a + 1 + int (length bs) then bs ! nat (x - (a + 1)) else disk ?s1 x)"
    using Cons.IH [of "a + 1" ?s1] Cons.prems by (auto simp: in_image_def)
  have "disk s' x = (if a \<le> x \<and> x < a + int (length (b # bs)) then (b # bs) ! nat (x - a) else disk s x)" for x
  proof (cases "a + 1 \<le> x")
    case True
    then have "nat (x - a) = Suc (nat (x - (a + 1)))" by simp
    with True s'(3) show ?thesis by (simp add: wr8_def)
  next
    case False
    with s'(3) show ?thesis by (auto simp: wr8_def)
  qed
  with s' Cons.prems show ?case by (auto simp: store8_def in_image_def)
qed auto

lemma cname_shift:
  "(\<And>i. 0 \<le> i \<Longrightarrow> i < int n \<Longrightarrow> m' (a + i) = m (b + i)) \<Longrightarrow> cname m' a n = cname m b n \<and> terminated m' a n = terminated m b n"
proof (induction n arbitrary: a b)
  case (Suc n)
  have "cname m' (a + 1) n = cname m (b + 1) n \<and> terminated m' (a + 1) n = terminated m (b + 1) n"
  proof (rule Suc.IH)
    fix i :: int
    assume "0 \<le> i" "i < int n"
    then show "m' (a + 1 + i) = m (b + 1 + i)" using Suc.prems [of "i + 1"] by (simp add: algebra_simps)
  qed
  with Suc.prems [of 0] show ?case by simp
qed simp

lemma entry_shift:
  assumes "\<And>i. 0 \<le> i \<Longrightarrow> i < 64 \<Longrightarrow> m' (base + int j * 64 + i) = m (base + int k * 64 + i)"
  shows "entry m' base j = entry m base k"
    and "terminated m' (base + int j * 64) 48 = terminated m (base + int k * 64) 48"
proof -
  have "rd32 m' (base + int j * 64 + 48) = rd32 m (base + int k * 64 + 48)"
    using assms [of 48] assms [of 49] assms [of 50] assms [of 51] by (simp add: rd32_def add.assoc)
  moreover have "cname m' (base + int j * 64) 48 = cname m (base + int k * 64) 48
      \<and> terminated m' (base + int j * 64) 48 = terminated m (base + int k * 64) 48"
    using assms by (intro cname_shift) auto
  ultimately show "entry m' base j = entry m base k"
      "terminated m' (base + int j * 64) 48 = terminated m (base + int k * 64) 48"
    by (simp_all add: entry_def)
qed

text \<open>The scan of \<open>directory_delete\<close> reaches the first entry with the name, or the end.\<close>

lemma dir_delete_from_found:
  assumes "0 \<le> base" "base + int n * 64 \<le> NUFS_SIZE" and "NUL \<notin> set name"
    and "\<forall>i < n. terminated (disk s) (base + int i * 64) 48"
    and "ii < n" "fst (entry (disk s) base ii) = name" and "k \<le> ii"
    and "\<forall>j. k \<le> j \<and> j < ii \<longrightarrow> fst (entry (disk s) base j) \<noteq> name"
  shows "dir_delete_from s dd base name (int n) (int k) = delete_entry s dd base (int n) (int ii)"
  using assms(7,8)
proof (induction "ii - k" arbitrary: k)
  case 0
  then have "k = ii" by simp
  moreover have "streq_at s (base + int ii * 64) name = Some True"
    using streq_at_cname [of s "base + int ii * 64" 48 name] assms by (auto simp: entry_def in_image_def)
  ultimately show ?case using assms(5) by (simp add: dir_delete_from.simps sizeof_ddirent_def)
next
  case (Suc d)
  then have k: "k < ii" by simp
  then have "streq_at s (base + int k * 64) name = Some False"
    using streq_at_cname [of s "base + int k * 64" 48 name] assms Suc.prems by (auto simp: entry_def in_image_def)
  moreover have "dir_delete_from s dd base name (int n) (int k + 1) = delete_entry s dd base (int n) (int ii)"
    using Suc.hyps(1) [of "Suc k"] Suc.hyps(2) Suc.prems k by (simp add: add.commute)
  ultimately show ?case
    using k assms(5) by (simp add: dir_delete_from.simps [of s dd base name "int n" "int k"] sizeof_ddirent_def)
qed

text \<open>
  What \<open>shrink_inode\<close> does to a directory that loses one entry: the size is stored, and only
  bitmap bytes change otherwise (which pages it frees is the subject of the shrink theorem).
\<close>

lemma shrink_dir:
  assumes "is_inode dd" and "rd32 (disk s) (f_size dd) = 64 * int (Suc n)" and "Suc n \<le> 64"
    and "0 \<le> blkno s dd 1" "blkno s dd 1 < 256" and "0 \<le> iptr_of s dd" "iptr_of s dd < 256"
  shows "\<exists>s'. shrink_inode s dd (64 * int n) = Some (64 * int n, s') \<and> inodes_base s' = inodes_base s
     \<and> rd32 (disk s') (f_size dd) = 64 * int n
     \<and> (\<forall>x. 32 \<le> x \<and> (x < dd + 12 \<or> dd + 16 \<le> x) \<longrightarrow> disk s' x = disk s x)"
proof -
  have dd: "4096 \<le> dd" "dd + 64 \<le> 8192" using is_inode_bounds [OF assms(1)] by auto
  have on: "bytes_to_pages (64 * int (Suc n)) = 1" using assms(3) by (intro bytes_to_pages_one) auto
  have to: "bytes_to_pages (64 * int n) = (if n = 0 then 0 else 1)"
    using assms(3) by (auto simp: bytes_to_pages_one)
  have "\<exists>s1. shrink_blocks s dd 1 (bytes_to_pages (64 * int n)) = Some s1 \<and> same_beyond 32 s s1"
  proof (cases "n = 0")
    case True
    obtain s1 where "free_page s (blkno s dd 1) = Some s1" "same_beyond 32 s s1"
      using free_page_eq [of "blkno s dd 1" s] assms by auto
    with True dd show ?thesis
      by (simp add: shrink_blocks.simps [of s dd 1 0] shrink_blocks.simps [of s1 dd 0 0]
          inode_get_pnum_def NUM_PTRS_def blkno_def access_defs field_defs)
  next
    case False
    with to show ?thesis by (simp add: shrink_blocks.simps)
  qed
  then obtain s1 where s1: "shrink_blocks s dd 1 (bytes_to_pages (64 * int n)) = Some s1" "same_beyond 32 s s1"
    by blast
  have ip: "iptr_of s1 dd = iptr_of s dd" using s1 dd by (simp add: mem_simps field_defs)
  obtain s2 where s2: "free_page s1 (iptr_of s dd) = Some s2" "same_beyond 32 s1 s2"
    using free_page_eq [of "iptr_of s dd" s1] assms by auto
  have "shrink_inode s dd (64 * int n) = Some (64 * int n, s2\<lparr>disk := wr32 (disk s2) (f_size dd) (64 * int n)\<rparr>)"
  proof -
    have "load32 s (f_size dd) = Some (64 * int (Suc n))" "load32 s1 (f_iptr dd) = Some (iptr_of s dd)"
      using assms(2) ip dd by (simp_all add: access_defs field_defs)
    with on to s1(1) s2(1) assms(3) dd show ?thesis
      by (simp add: shrink_inode_def NUM_PTRS_def access_defs field_defs mem_simps)
  qed
  then show ?thesis
    using s1(2) s2(2) dd assms(3)
    by (auto simp: same_beyond_def mem_simps wr32_frame field_defs)
qed


definition del_ok :: "nufs \<Rightarrow> int \<Rightarrow> nat \<Rightarrow> bool" where
  "del_ok s dd ii \<longleftrightarrow> inodes_ready s
     \<and> 0 \<le> snd (dir_entries s dd ! ii) \<and> snd (dir_entries s dd ! ii) < 64
     \<and> rd32 (disk s) (inode_addr (snd (dir_entries s dd ! ii))) = snd (dir_entries s dd ! ii)
     \<and> 0 \<le> blkno s dd 1 \<and> blkno s dd 1 < 256 \<and> 0 \<le> iptr_of s dd \<and> iptr_of s dd < 256"

text \<open>The bookkeeping on the target: one reference less, and the inode freed with the last one.\<close>

lemma drop_ref:
  assumes "inodes_ready s" and "0 \<le> inum" "inum < 64" and "rd32 (disk s) (inode_addr inum) = inum"
  shows "\<exists>s1 s2 refs. add_refs s (inode_addr inum) (-1) = Some s1
     \<and> load32 s1 (f_refs (inode_addr inum)) = Some refs \<and> refs = cint (rd32 (disk s) (f_refs (inode_addr inum)) - 1)
     \<and> (if refs \<le> 0 then free_inode s1 (inode_addr inum) else Some s1) = Some s2
     \<and> inodes_base s2 = inodes_base s \<and> rd32 (disk s2) (f_refs (inode_addr inum)) = refs
     \<and> (\<forall>j. 0 \<le> j \<and> j < 64 \<longrightarrow> inode_used s2 j = (inode_used s j \<and> \<not> (j = inum \<and> refs \<le> 0)))
     \<and> (\<forall>x. (x < 32 \<or> 40 \<le> x) \<and> (x < f_refs (inode_addr inum) \<or> f_refs (inode_addr inum) + 4 \<le> x)
            \<longrightarrow> disk s2 x = disk s x)"
proof -
  let ?a = "inode_addr inum"
  let ?s1 = "s\<lparr>disk := wr32 (disk s) (f_refs ?a) (rd32 (disk s) (f_refs ?a) - 1)\<rparr>"
  let ?refs = "cint (rd32 (disk s) (f_refs ?a) - 1)"
  have a: "4096 \<le> ?a" "?a + 64 \<le> 8192" using assms by (auto simp: inode_addr_def)
  have 1: "add_refs s ?a (-1) = Some ?s1" "load32 ?s1 (f_refs ?a) = Some ?refs"
    using a by (simp_all add: add_refs_def access_defs f_refs_def mem_simps)
  have u1: "inode_used ?s1 j = inode_used s j" if "0 \<le> j" "j < 64" for j
    using that a by (intro inode_used_write) (auto simp: f_refs_def)
  have w1: "disk ?s1 x = disk s x" if "x < f_refs ?a \<or> f_refs ?a + 4 \<le> x" for x
    using that by (simp add: wr32_frame)
  show ?thesis
  proof (cases "?refs \<le> 0")
    case False
    then show ?thesis using 1 u1 w1
      by (intro exI [of _ ?s1] exI [of _ ?refs]) (auto simp: mem_simps)
  next
    case True
    have "rd32 (disk ?s1) ?a = inum" using assms by (simp add: mem_simps f_refs_def)
    then obtain s2 where s2: "free_inode ?s1 ?a = Some s2" "inodes_base s2 = inodes_base ?s1"
        "\<forall>x. x < 32 \<or> 40 \<le> x \<longrightarrow> disk s2 x = disk ?s1 x" "\<forall>j. inode_used s2 j = (j \<noteq> inum \<and> inode_used ?s1 j)"
      using free_inode_eq [of ?s1 inum] assms by (auto simp: inodes_ready_def)
    have "rd32 (disk s2) (f_refs ?a) = rd32 (disk ?s1) (f_refs ?a)"
      using s2(3) a by (intro rd32_eq_on) (auto simp: f_refs_def)
    then have "rd32 (disk s2) (f_refs ?a) = ?refs" by (simp add: mem_simps)
    moreover have "disk s2 x = disk s x"
      if "x < 32 \<or> 40 \<le> x" "x < f_refs ?a \<or> f_refs ?a + 4 \<le> x" for x
      using s2(3) [rule_format, OF that(1)] w1 [OF that(2)] by (rule trans)
    moreover have "inode_used s2 j = (inode_used s j \<and> \<not> (j = inum \<and> ?refs \<le> 0))" if "0 \<le> j" "j < 64" for j
      using s2(4) u1 [OF that] True by auto
    ultimately show ?thesis using 1 True s2(1,2)
      by (intro exI [of _ ?s1] exI [of _ s2] exI [of _ ?refs] conjI) simp_all
  qed
qed

text \<open>
  \<open>directory_delete\<close>: the first entry with the name is overwritten by the last one and the
  directory loses its last entry; the target loses one reference.
\<close>

lemma directory_delete_entries:
  assumes ok: "dir_ok s dd" and "NUL \<notin> set name" and ii: "ii < dir_len s dd"
    and hit: "fst (dir_entries s dd ! ii) = name" and fst_hit: "\<forall>j < ii. fst (dir_entries s dd ! j) \<noteq> name"
    and del: "del_ok s dd ii"
  shows "\<exists>s'. directory_delete s dd name = Some (0, s') \<and> dir_ok s' dd \<and> inodes_ready s'
     \<and> dir_entries s' dd = butlast ((dir_entries s dd)[ii := last (dir_entries s dd)])"
proof -
  obtain n where n: "dir_len s dd = Suc n" using ii by (cases "dir_len s dd") auto
  let ?b = "dir_base s dd" and ?inum = "snd (dir_entries s dd ! ii)"
  let ?r = "f_refs (inode_addr ?inum)"
  have dd: "is_inode dd" "4096 \<le> dd" "dd + 64 \<le> 8192" using ok is_inode_bounds by (auto simp: dir_ok_def)
  have b: "8192 \<le> ?b" "?b + 4096 \<le> NUFS_SIZE" "Suc n \<le> 64" "rd32 (disk s) (f_size dd) = 64 * int (Suc n)"
      "\<forall>i < Suc n. terminated (disk s) (?b + int i * 64) 48"
    using ok n by (auto simp: dir_ok_def)
  have ent: "dir_entries s dd ! i = entry (disk s) ?b i" if "i < Suc n" for i
    using that n by (simp add: dir_entries_def del: upt_Suc)
  have r: "4096 \<le> ?r" "?r + 4 \<le> 8192" using del by (auto simp: del_ok_def inode_addr_def f_refs_def)
  obtain s1 s2 refs where d: "add_refs s (inode_addr ?inum) (-1) = Some s1" "load32 s1 ?r = Some refs"
      "(if refs \<le> 0 then free_inode s1 (inode_addr ?inum) else Some s1) = Some s2" "inodes_base s2 = inodes_base s"
      "\<forall>x. (x < 32 \<or> 40 \<le> x) \<and> (x < ?r \<or> ?r + 4 \<le> x) \<longrightarrow> disk s2 x = disk s x"
    using drop_ref [of s ?inum] del by (auto simp: del_ok_def)
  let ?last = "map (\<lambda>i. disk s2 (?b + int n * 64 + int i)) [0..<64]"
  have img: "in_image (?b + int n * 64) 64" "in_image (?b + int ii * 64) 64" "in_image (?b + int ii * 64 + 48) 4"
    using b ii n by (auto simp: in_image_def)
  obtain s3 where s3: "store_bytes s2 (?b + int ii * 64) ?last = Some s3" "inodes_base s3 = inodes_base s2"
      "\<forall>x. disk s3 x = (if ?b + int ii * 64 \<le> x \<and> x < ?b + int ii * 64 + 64
           then ?last ! nat (x - (?b + int ii * 64)) else disk s2 x)"
    using store_bytes_eq [of "?b + int ii * 64" ?last s2] img(2) by auto
  have hi: "disk s2 x = disk s x" if "8192 \<le> x" for x using d(5) that r by auto
  have s3_tab: "disk s3 x = disk s2 x" if "x < 8192" for x using s3(3) that b(1) by auto
  have fld: "rd32 (disk s3) (dd + k) = rd32 (disk s) (dd + k)" if "8 \<le> k" "k \<le> 60" for k
  proof (rule rd32_eq_on)
    fix x assume x: "dd + k \<le> x" "x < dd + k + 4"
    then have "x < ?r \<or> ?r + 4 \<le> x" using that by (intro refs_field_bytes [OF dd(1)]) auto
    then show "disk s3 x = disk s x" using x that dd d(5) s3_tab [of x] by auto
  qed
  have flds: "rd32 (disk s3) (f_size dd) = 64 * int (Suc n)" "rd32 (disk s3) (f_ptrs dd 0) = rd32 (disk s) (f_ptrs dd 0)"
      "blkno s3 dd 1 = blkno s dd 1" "iptr_of s3 dd = iptr_of s dd"
    using fld [of 12] fld [of 16] fld [of 20] fld [of 24] b(4) by (simp_all add: field_defs blkno_def add.commute)
  obtain s4 where s4: "shrink_inode s3 dd (64 * int n) = Some (64 * int n, s4)" "inodes_base s4 = inodes_base s3"
      "rd32 (disk s4) (f_size dd) = 64 * int n"
      "\<forall>x. 32 \<le> x \<and> (x < dd + 12 \<or> dd + 16 \<le> x) \<longrightarrow> disk s4 x = disk s3 x"
    using shrink_dir [OF dd(1) flds(1) b(3)] flds del by (auto simp: del_ok_def)
  have lookup: "pages_get_page (rd32 (disk s) (f_ptrs dd 0)) = ?b" using b by (auto simp: dir_base_def NUFS_SIZE_def)
  have run: "directory_delete s dd name = Some (0, s4)"
  proof -
    have "directory_delete s dd name = dir_delete_from s dd ?b name (int (Suc n)) (int 0)"
    proof -
      have "load32 s (f_size dd) = Some (64 * int (Suc n))" "load32 s (f_ptrs dd 0) = Some (rd32 (disk s) (f_ptrs dd 0))"
        using b(4) dd by (simp_all add: access_defs field_defs)
      moreover have "dir_count (64 * int (Suc n)) = int (Suc n)" using b(3) by (intro dir_count_eq) auto
      ultimately show ?thesis
        by (simp only: directory_delete_def directory_get_entries_def lookup option.map bind.bind_lunit) simp
    qed
    also have "\<dots> = delete_entry s dd ?b (int (Suc n)) (int ii)"
      using b ii n hit fst_hit assms(2) by (intro dir_delete_from_found) (auto simp: ent)
    also have "\<dots> = Some (0, s4)"
    proof -
      have "load32 s (?b + int ii * 64 + 48) = Some ?inum"
        using img(3) ii n by (simp add: load32_def ent entry_def)
      moreover have "get_inode s ?inum = Some (inode_addr ?inum)"
        using get_inode_ready [of s ?inum] del by (simp add: del_ok_def)
      moreover have "load_bytes s2 (?b + int n * 64) 64 = Some ?last" using img(1) by (simp add: load_bytes_def)
      moreover have "load32 s3 (f_size dd) = Some (64 * int (Suc n))"
        using flds(1) dd by (simp add: access_defs field_defs)
      moreover have "cint (64 * int n) = 64 * int n" using b(3) by simp
      ultimately show ?thesis
        using d(1-3) s3(1) s4(1) by (simp add: delete_entry_def sizeof_ddirent_def DIR_NAME_def)
    qed
    finally show ?thesis .
  qed
  have base4: "dir_base s4 dd = ?b"
  proof -
    have "rd32 (disk s4) (f_ptrs dd 0) = rd32 (disk s3) (f_ptrs dd 0)"
      using s4(4) dd by (intro rd32_eq_on) (auto simp: field_defs)
    with flds show ?thesis by (simp add: dir_base_def)
  qed
  have len4: "dir_len s4 dd = n" using s4(3) by (rule dir_len_eqI)
  have hi4: "disk s4 x = disk s3 x" if "8192 \<le> x" for x using s4(4) that dd by auto
  have moved: "entry (disk s4) ?b i = entry (disk s) ?b (if i = ii then n else i)
      \<and> terminated (disk s4) (?b + int i * 64) 48 = terminated (disk s) (?b + int (if i = ii then n else i) * 64) 48"
    if "i < n" for i
  proof -
    have bytes: "disk s4 (?b + int i * 64 + k) = disk s (?b + int (if i = ii then n else i) * 64 + k)"
      if k: "0 \<le> k" "k < 64" for k
    proof -
    let ?x = "?b + int i * 64 + k"
    have "disk s4 ?x = disk s3 ?x" using hi4 k b(1) by simp
    also have "\<dots> = disk s2 (?b + int (if i = ii then n else i) * 64 + k)"
    proof (cases "i = ii")
      case True
      with k s3(3) show ?thesis by (simp add: nat_less_iff)
    next
      case False
      then have "int i + 1 \<le> int ii \<or> int ii + 1 \<le> int i" by linarith
      then have out: "\<not> (?b + int ii * 64 \<le> ?x \<and> ?x < ?b + int ii * 64 + 64)" using k by auto
      show ?thesis using s3(3) [rule_format, of ?x] unfolding if_not_P [OF out] using False by simp
    qed
    also have "\<dots> = disk s (?b + int (if i = ii then n else i) * 64 + k)" using hi k b(1) by simp
    finally show ?thesis .
    qed
    then show ?thesis by (intro conjI entry_shift)
  qed
  have "dir_entries s4 dd = butlast ((dir_entries s dd)[ii := last (dir_entries s dd)])"
  proof (rule nth_equalityI)
    show "length (dir_entries s4 dd) = length (butlast ((dir_entries s dd)[ii := last (dir_entries s dd)]))"
      using len4 n by (simp add: dir_entries_def)
  next
    fix i assume "i < length (dir_entries s4 dd)"
    then have i: "i < n" by (simp add: dir_entries_def len4)
    have l: "length (dir_entries s dd) = Suc n" by (simp add: dir_entries_def n)
    then have "last (dir_entries s dd) = dir_entries s dd ! n" by (metis diff_Suc_1 last_conv_nth length_0_conv nat.distinct(1))
    then have "butlast ((dir_entries s dd)[ii := last (dir_entries s dd)]) ! i = dir_entries s dd ! (if i = ii then n else i)"
      using i l by (simp add: nth_butlast)
    also have "\<dots> = entry (disk s) ?b (if i = ii then n else i)" using i by (intro ent) auto
    also have "\<dots> = dir_entries s4 dd ! i" using i moved [OF i] by (simp add: dir_entries_def base4 len4)
    finally show "dir_entries s4 dd ! i = butlast ((dir_entries s dd)[ii := last (dir_entries s dd)]) ! i" ..
  qed
  moreover have "dir_ok s4 dd"
    unfolding dir_ok_def len4 base4 using dd s4(3) b moved by auto
  moreover have "inodes_ready s4"
    using s4(2) s3(2) d(4) del by (simp add: inodes_ready_def del_ok_def)
  ultimately show ?thesis using run by blast
qed

section \<open>The contract of a directory\<close>

text \<open>
  What path lookup and file creation rely on: a lookup answers from the directory's
  association list, first entry first, and an insertion adds one pair somewhere to it.
\<close>

locale name_directory =
  fixes entries :: "'s \<Rightarrow> (string \<times> int) list"
    and look :: "'s \<Rightarrow> string \<Rightarrow> int option"
    and put :: "'s \<Rightarrow> string \<Rightarrow> int \<Rightarrow> 's option"
    and ok :: "'s \<Rightarrow> bool"
    and room :: "'s \<Rightarrow> string \<Rightarrow> int \<Rightarrow> bool"
    and name_ok :: "string \<Rightarrow> bool"
  assumes look_entries: "ok s \<Longrightarrow> name_ok name \<Longrightarrow> look s name = map_of (entries s) name"
    and room_name: "room s name i \<Longrightarrow> name_ok name"
    and put_entries: "ok s \<Longrightarrow> room s name i \<Longrightarrow>
          \<exists>s' xs ys. put s name i = Some s' \<and> ok s' \<and> entries s = xs @ ys \<and> entries s' = xs @ (name, i) # ys"
begin

lemma put_then_look:
  assumes "ok s" and "room s name i" and "look s name = None"
  shows "\<exists>s'. put s name i = Some s' \<and> ok s' \<and> look s' name = Some i
              \<and> (\<forall>other. name_ok other \<and> other \<noteq> name \<longrightarrow> look s' other = look s other)"
proof -
  obtain s' xs ys where s': "put s name i = Some s'" "ok s'" "entries s = xs @ ys" "entries s' = xs @ (name, i) # ys"
    using put_entries [OF assms(1,2)] by blast
  have "map_of (entries s) name = None"
    using look_entries [OF assms(1) room_name [OF assms(2)]] assms(3) by simp
  then have "map_of xs name = None" using s'(3) by (simp add: map_add_None)
  then have "look s' name = Some i"
    using look_entries [OF s'(2) room_name [OF assms(2)]] s'(4) by (simp add: map_add_def)
  moreover have "look s' other = look s other" if "name_ok other" "other \<noteq> name" for other
    using look_entries [OF s'(2) that(1)] look_entries [OF assms(1) that(1)] s' that(2)
    by (simp add: map_add_def split: option.split)
  ultimately show ?thesis using s' by blast
qed

end

text \<open>The operations of \<open>directory.c\<close> on one directory inode, in the shape of the contract.\<close>

definition dir_look :: "int \<Rightarrow> nufs \<Rightarrow> string \<Rightarrow> int option" where
  "dir_look dd s name =
     (case directory_lookup s dd name of Some i \<Rightarrow> if i < 0 then None else Some i | None \<Rightarrow> None)"

definition dir_put :: "int \<Rightarrow> nufs \<Rightarrow> string \<Rightarrow> int \<Rightarrow> nufs option" where
  "dir_put dd s name i = map_option snd (directory_put s dd name i)"

definition dir_good :: "int \<Rightarrow> nufs \<Rightarrow> bool" where
  "dir_good dd s \<longleftrightarrow> dir_ok s dd \<and> (\<forall>e \<in> set (dir_entries s dd). 0 \<le> snd e)"

interpretation nufs_dir: name_directory "\<lambda>s. dir_entries s dd" "dir_look dd" "dir_put dd" "dir_good dd"
    "\<lambda>s. put_ok s dd" "\<lambda>name. NUL \<notin> set name" for dd
proof (unfold_locales, goal_cases)
  case (1 s name)
  then have "0 \<le> i" if "map_of (dir_entries s dd) name = Some i" for i
    using map_of_SomeD [OF that] by (auto simp: dir_good_def)
  with 1 show ?case
    using directory_lookup_map_of [of s dd name] by (auto simp: dir_look_def dir_good_def split: option.splits)
next
  case (2 s name i)
  then show ?case by (simp add: put_ok_def)
next
  case (3 s name i)
  then obtain s' where "directory_put s dd name i = Some (0, s')" "dir_ok s' dd"
      "dir_entries s' dd = dir_entries s dd @ [(name, i)]"
    using directory_put_entries [of s dd name i] by (auto simp: dir_good_def)
  with 3 show ?case by (auto simp: dir_put_def dir_good_def put_ok_def)
qed

section \<open>Properties\<close>

text \<open>splitting a path and writing each part followed by the delimiter gives the path back (with
  one delimiter added when it did not end in one), and no part contains the delimiter.\<close>

theorem s_split_roundtrip:
  "concat (map (\<lambda>part. part @ [d]) (s_split t d)) = (if t = [] \<or> last t = d then t else t @ [d])
   \<and> d \<notin> \<Union> (set ` set (s_split t d))"
  using s_split_join [of d t] s_split_parts [of _ t d] by auto

text \<open>\<open>directory_lookup\<close> on a well-formed directory finds the inode number of the first entry with
  the name, and answers -ENOENT when there is none.\<close>

theorem directory_lookup_correct:
  assumes "dir_ok s dd" and "NUL \<notin> set name"
  shows "directory_lookup s dd name = Some (case map_of (dir_entries s dd) name of Some i \<Rightarrow> i | None \<Rightarrow> - ENOENT)"
  unfolding ENOENT_def using directory_lookup_map_of [OF assms] by simp

text \<open>C21: for a name of less than 48 bytes, an inode number of the table, and a directory with less than 64 entries (and
  a free page if it has none yet), \<open>directory_put\<close> returns 0, adds exactly the pair (name, inum) at the end of the directory's
  value, keeps the directory well formed, counts one reference more on the inode, and changes no
  other byte of the inode table or of the data pages.\<close>

theorem directory_put_correct:
  assumes "dir_ok s dd" and "put_ok s dd name inum"
  shows "\<exists>s'. directory_put s dd name inum = Some (0, s') \<and> dir_ok s' dd
          \<and> dir_entries s' dd = dir_entries s dd @ [(name, inum)]
          \<and> rd32 (disk s') (f_refs (inode_addr inum)) = cint (rd32 (disk s) (f_refs (inode_addr inum)) + 1)
          \<and> (\<forall>x. 4096 \<le> x \<and> (x < dd + 12 \<or> dd + 28 \<le> x)
                 \<and> (x < f_refs (inode_addr inum) \<or> f_refs (inode_addr inum) + 4 \<le> x)
                 \<and> (x < dir_base s' dd + 64 * int (dir_len s dd) \<or> dir_base s' dd + 64 * int (dir_len s dd) + 64 \<le> x)
                 \<longrightarrow> disk s' x = disk s x)"
  using directory_put_entries [OF assms] by blast

text \<open>after inserting a name that was absent, the lookup of that name gives the inserted inode
  number and the lookup of every other name is what it was.\<close>

theorem directory_put_lookup:
  assumes "dir_good dd s" and "put_ok s dd name i" and "directory_lookup s dd name = Some (- ENOENT)"
  shows "\<exists>s'. directory_put s dd name i = Some (0, s') \<and> dir_look dd s' name = Some i
              \<and> (\<forall>other. NUL \<notin> set other \<and> other \<noteq> name \<longrightarrow> dir_look dd s' other = dir_look dd s other)"
proof -
  have "dir_look dd s name = None" using assms(3) by (simp add: dir_look_def ENOENT_def)
  then show ?thesis
    using nufs_dir.put_then_look [OF assms(1,2)] directory_put_entries [of s dd name i] assms(1,2)
    by (auto simp: dir_put_def dir_good_def)
qed

text \<open>\<open>directory_delete\<close> removes the first entry with the name by moving the last entry into its
  place and dropping the last one, and the directory stays well formed.\<close>

theorem directory_delete_correct:
  assumes "dir_ok s dd" and "NUL \<notin> set name" and "ii < dir_len s dd" and "fst (dir_entries s dd ! ii) = name"
    and "\<forall>j < ii. fst (dir_entries s dd ! j) \<noteq> name" and "del_ok s dd ii"
  shows "\<exists>s'. directory_delete s dd name = Some (0, s') \<and> dir_ok s' dd
     \<and> dir_entries s' dd = butlast ((dir_entries s dd)[ii := last (dir_entries s dd)])"
  using directory_delete_entries [OF assms] by blast

text \<open>a path whose first directory does not exist is not answered with an error: the walk
  goes on with the negative number, and the assertion of \<open>get_inode\<close> aborts the process.\<close>

theorem tree_lookup_missing_dir_aborts:
  assumes "inodes_ready s" and "dir_ok s 4096" and "NUL \<notin> set d"
    and "map_of (dir_entries s 4096) d = None"
    and "path \<noteq> ''/''" "path \<noteq> ''''" and "s_split (tl path) CHR ''/'' = d # e # rest"
  shows "tree_lookup s path = None"
proof -
  have "get_inode s 0 = Some 4096" using get_inode_ready [OF assms(1), of 0] by (simp add: inode_addr_def)
  moreover have "directory_lookup s 4096 d = Some (-2)"
    using directory_lookup_map_of [OF assms(2,3)] assms(4) by simp
  moreover have "get_inode s (-2) = None" using get_inode_ready [OF assms(1), of "-2"] by simp
  ultimately show ?thesis using assms(5-7) by (simp add: tree_lookup_def)
qed

section \<open>Witnesses\<close>

text \<open>The root directory of a newly formatted image is empty; the witnesses insert into it.\<close>

lemma is_inode_root: "is_inode 4096"
  by (auto simp: is_inode_def inode_addr_def)

lemma fresh_dir:
  "dir_len fresh_fs 4096 = 0" "dir_entries fresh_fs 4096 = []" "dir_ok fresh_fs 4096" "dir_good 4096 fresh_fs"
  by (simp_all add: dir_len_def dir_entries_def dir_ok_def dir_good_def fresh_rd32 field_defs is_inode_root)

lemma fresh_put_ok: "0 \<le> i \<Longrightarrow> i < 64 \<Longrightarrow> length name < 48 \<Longrightarrow> NUL \<notin> set name \<Longrightarrow> put_ok fresh_fs 4096 name i"
  by (simp add: put_ok_def inodes_ready_def fresh_dir fresh_used_pages free_pages_fresh)
     (simp add: fresh_fs_def)

theorem directory_lookup_correct_witness: "directory_lookup fresh_fs 4096 ''a'' = Some (- ENOENT)"
  using directory_lookup_correct [of fresh_fs 4096 "''a''"] by (simp add: fresh_dir)

theorem directory_put_correct_witness:
  "\<exists>s'. directory_put fresh_fs 4096 ''a'' 1 = Some (0, s') \<and> dir_entries s' 4096 = [(''a'', 1)]"
  using directory_put_correct [of fresh_fs 4096 "''a''" 1] by (auto simp: fresh_dir fresh_put_ok)

theorem directory_put_lookup_witness:
  "\<exists>s'. directory_put fresh_fs 4096 ''a'' 1 = Some (0, s') \<and> dir_look 4096 s' ''a'' = Some 1"
  using directory_put_lookup [of 4096 fresh_fs "''a''" 1] directory_lookup_map_of [of fresh_fs 4096 "''a''"]
  by (auto simp: fresh_dir fresh_put_ok ENOENT_def)

theorem tree_lookup_missing_dir_aborts_witness: "tree_lookup fresh_fs ''/d/f'' = None"
  using tree_lookup_missing_dir_aborts [of fresh_fs "''d''" "''/d/f''" "''f''" "[]"]
  by (simp add: fresh_dir s_split_unfold inodes_ready_def) (simp add: fresh_fs_def)

text \<open>An image whose root directory, on page 2, holds one entry \<open>a\<close> for inode 1.\<close>

definition one_entry_fs :: nufs where
  "one_entry_fs = fresh_fs\<lparr>disk := (wr32 (wr32 (wr32 (wr32 (disk fresh_fs) 4108 64) 4112 2) 4160 1) 8240 1)(8192 := byte_of CHR ''a'')\<rparr>"

lemma one_entry_rd32:
  "a + 4 \<le> 8192 \<or> 8193 \<le> a \<Longrightarrow>
   rd32 (disk one_entry_fs) a = rd32 (wr32 (wr32 (wr32 (wr32 (disk fresh_fs) 4108 64) 4112 2) 4160 1) 8240 1) a"
  by (rule rd32_eq_on) (auto simp: one_entry_fs_def)

lemma one_entry_dir:
  "dir_len one_entry_fs 4096 = 1" "dir_base one_entry_fs 4096 = 8192" "dir_entries one_entry_fs 4096 = [(''a'', 1)]"
  "dir_ok one_entry_fs 4096" "del_ok one_entry_fs 4096 0"
proof -
  show l: "dir_len one_entry_fs 4096 = 1" and b: "dir_base one_entry_fs 4096 = 8192"
    by (simp_all add: dir_len_def dir_base_def field_defs one_entry_rd32 mem_simps)
  have z: "disk one_entry_fs 8192 = byte_of CHR ''a''" "disk one_entry_fs 8193 = 0"
    by (simp_all add: one_entry_fs_def wr32_def fresh_fs_def)
  have "cname m a (Suc (Suc n)) = ''a'' \<and> terminated m a (Suc (Suc n))" if "m a = byte_of CHR ''a''" "m (a + 1) = 0"
    for m :: mem and a n
    using that by simp
  from this [of "disk one_entry_fs" 8192 46] z
  have "cname (disk one_entry_fs) 8192 48 = ''a''" "terminated (disk one_entry_fs) 8192 48"
    by simp_all
  moreover have "rd32 (disk one_entry_fs) 8240 = 1" by (simp add: one_entry_rd32 mem_simps)
  ultimately show e: "dir_entries one_entry_fs 4096 = [(''a'', 1)]" and "dir_ok one_entry_fs 4096"
    using l b by (simp_all add: dir_entries_def entry_def dir_ok_def is_inode_root NUFS_SIZE_def
        field_defs one_entry_rd32 mem_simps)
  show "del_ok one_entry_fs 4096 0"
    unfolding del_ok_def e
    by (simp add: inodes_ready_def blkno_def field_defs one_entry_rd32 mem_simps fresh_rd32 inode_addr_def)
       (simp add: one_entry_fs_def fresh_fs_def)
qed

theorem directory_delete_correct_witness:
  "\<exists>s'. directory_delete one_entry_fs 4096 ''a'' = Some (0, s') \<and> dir_entries s' 4096 = []"
  using directory_delete_correct [of one_entry_fs 4096 "''a''" 0] by (auto simp: one_entry_dir)

end
