(* ===== verification/Nufs_Storage.thy ===== *)
theory Nufs_Storage
  imports Nufs_Directory
begin

text \<open>
  The storage layer of nufs, \<open>hw10/unnas-fshw/storage.c\<close>: the operations on paths behind the
  FUSE callbacks of \<open>nufsmount.c\<close>.

  A caller's buffer is a list of bytes; an access outside of it, like one outside of the image
  and like a failed assertion, has no result (\<open>None\<close>). The copy loops are partial functions,
  since the arithmetic of \<open>min\<close>, done on 32-bit integers, can keep them from ending.
  \<open>dirname\<close> and \<open>basename\<close> are the functions of POSIX on a private copy of the path.
\<close>

section \<open>POSIX path functions\<close>

definition strip_slashes :: "string \<Rightarrow> string" where
  "strip_slashes p = rev (dropWhile (\<lambda>c. c = CHR ''/'') (rev p))"

definition dirname :: "string \<Rightarrow> string" where
  "dirname p =
     (if p = '''' then ''.''
      else let q = strip_slashes p in
        if q = '''' then ''/''
        else let d = rev (dropWhile (\<lambda>c. c \<noteq> CHR ''/'') (rev q)) in
          if d = '''' then ''.''
          else let e = strip_slashes d in if e = '''' then ''/'' else e)"

definition basename :: "string \<Rightarrow> string" where
  "basename p =
     (if p = '''' then ''.''
      else let q = strip_slashes p in
        if q = '''' then ''/'' else rev (takeWhile (\<lambda>c. c \<noteq> CHR ''/'') (rev q)))"

section \<open>storage.c\<close>

definition EEXIST :: int where "EEXIST = 17"

definition tree_lookup_stop_early :: "nufs \<Rightarrow> string \<Rightarrow> int option" where
  "tree_lookup_stop_early s path = tree_lookup s (dirname path)"

definition storage_init :: "byte list option \<Rightarrow> bool \<Rightarrow> bool \<Rightarrow> nufs option" where
  "storage_init open_file trunc_ok map_ok = do {
     s0 \<leftarrow> pages_init open_file trunc_ok map_ok;
     s1 \<leftarrow> inode_init s0;
     g \<leftarrow> bitmap_get s1 get_inode_bitmap 0;
     if g = 0 then do {
       (i, s2) \<leftarrow> alloc_inode s1;
       if i \<noteq> 0 then None
       else do {
         root \<leftarrow> get_inode s2 0;
         store32 s2 (f_mode root) 16877 } }
     else do {
       root \<leftarrow> get_inode s1 0;
       m \<leftarrow> load32 s1 (f_mode root);
       if m = 0 then None else Some s1 } }"

text \<open>The status buffer is filled only when the path exists: the second component.\<close>

definition storage_stat :: "int \<Rightarrow> nufs \<Rightarrow> string \<Rightarrow> (int \<times> nufs_stat option) option" where
  "storage_stat uid s path = do {
     inum \<leftarrow> tree_lookup s path;
     if inum < 0 then Some (inum, None)
     else do {
       node \<leftarrow> get_inode s inum;
       st \<leftarrow> inode_copy_stats uid s node;
       Some (0, Some st) } }"

text \<open>
  The end of one chunk of a copy: the start of the next page or the end of the request, both
  cut to an \<open>int\<close> by the parameters of \<open>min\<close>.
\<close>

definition chunk_end :: "int \<Rightarrow> int \<Rightarrow> int" where
  "chunk_end cur last_byte = util_min (cint ((cur + 4096) AND NOT 4095)) (cint last_byte)"

definition buf_put :: "byte list \<Rightarrow> int \<Rightarrow> byte list \<Rightarrow> byte list option" where
  "buf_put buf pos bs =
     (if 0 \<le> pos \<and> pos + int (length bs) \<le> int (length buf)
      then Some (take (nat pos) buf @ bs @ drop (nat pos + length bs) buf) else None)"

definition buf_get :: "byte list \<Rightarrow> int \<Rightarrow> nat \<Rightarrow> byte list option" where
  "buf_get buf pos n =
     (if 0 \<le> pos \<and> pos + int n \<le> int (length buf) then Some (take n (drop (nat pos) buf)) else None)"

definition block_data :: "nufs \<Rightarrow> int \<Rightarrow> int \<Rightarrow> int option" where
  "block_data s node cur = do {
     pnum \<leftarrow> inode_get_pnum s node (cint (cdiv cur 4096));
     Some (pages_get_page pnum + cmod cur 4096) }"

partial_function (option) read_loop ::
    "nufs \<Rightarrow> int \<Rightarrow> int \<Rightarrow> int \<Rightarrow> byte list \<Rightarrow> int \<Rightarrow> byte list option" where
  "read_loop s node upto_byte cur buf pos =
     (if size_t cur < upto_byte then do {
        let finish = chunk_end cur upto_byte;
        data \<leftarrow> block_data s node cur;
        bs \<leftarrow> load_bytes s data (nat (size_t (finish - cur)));
        buf' \<leftarrow> buf_put buf pos bs;
        read_loop s node upto_byte finish buf' (pos + 4096) }
      else Some buf)"

definition storage_read ::
    "nufs \<Rightarrow> string \<Rightarrow> byte list \<Rightarrow> int \<Rightarrow> int \<Rightarrow> (int \<times> byte list) option" where
  "storage_read s path buf sz offset = do {
     inum \<leftarrow> tree_lookup s path;
     if inum < 0 then Some (inum, buf)
     else do {
       node \<leftarrow> get_inode s inum;
       nsize \<leftarrow> load32 s (f_size node);
       let sz' = (if sz > size_t (nsize - offset) then size_t (nsize - offset) else sz);
       buf' \<leftarrow> read_loop s node (size_t (offset + sz')) offset buf 0;
       Some (cint sz', buf') } }"

partial_function (option) write_loop ::
    "nufs \<Rightarrow> int \<Rightarrow> int \<Rightarrow> int \<Rightarrow> byte list \<Rightarrow> int \<Rightarrow> nufs option" where
  "write_loop s node upto_byte cur buf pos =
     (if size_t cur < upto_byte then do {
        let finish = chunk_end cur upto_byte;
        data \<leftarrow> block_data s node cur;
        bs \<leftarrow> buf_get buf pos (nat (size_t (finish - cur)));
        s' \<leftarrow> store_bytes s data bs;
        write_loop s' node upto_byte finish buf (pos + 4096) }
      else Some s)"

definition storage_write ::
    "nufs \<Rightarrow> string \<Rightarrow> byte list \<Rightarrow> int \<Rightarrow> int \<Rightarrow> (int \<times> nufs) option" where
  "storage_write s path buf sz offset = do {
     inum \<leftarrow> tree_lookup s path;
     if inum < 0 then Some (inum, s)
     else do {
       node \<leftarrow> get_inode s inum;
       let write_size = cint (offset + sz);
       nsize \<leftarrow> load32 s (f_size node);
       (_, s1) \<leftarrow> (if nsize < write_size then grow_inode s node write_size
                    else if nsize > write_size then shrink_inode s node write_size
                    else Some (0, s));
       s2 \<leftarrow> write_loop s1 node (size_t (offset + sz)) offset buf 0;
       Some (cint sz, s2) } }"

partial_function (option) zero_loop :: "nufs \<Rightarrow> int \<Rightarrow> int \<Rightarrow> int \<Rightarrow> nufs option" where
  "zero_loop s node sz cur =
     (if cur < sz then do {
        let finish = chunk_end cur sz;
        data \<leftarrow> block_data s node cur;
        if in_image data (size_t (finish - cur)) then do {
          s' \<leftarrow> store_bytes s data (replicate (nat (size_t (finish - cur))) 0);
          zero_loop s' node sz finish }
        else None }
      else Some s)"

definition storage_truncate :: "nufs \<Rightarrow> string \<Rightarrow> int \<Rightarrow> (int \<times> nufs) option" where
  "storage_truncate s path sz = do {
     inum \<leftarrow> tree_lookup s path;
     if inum < 0 then Some (inum, s)
     else do {
       node \<leftarrow> get_inode s inum;
       nsize \<leftarrow> load32 s (f_size node);
       s' \<leftarrow> (if nsize < sz then do {
                (_, s1) \<leftarrow> grow_inode s node (cint sz);
                zero_loop s1 node sz nsize }
              else if nsize > sz then map_option snd (shrink_inode s node (cint sz))
              else Some s);
       Some (0, s') } }"

definition storage_mknod :: "nufs \<Rightarrow> string \<Rightarrow> int \<Rightarrow> (int \<times> nufs) option" where
  "storage_mknod s path mode =
     (if path = '''' \<or> hd path \<noteq> CHR ''/'' then Some (- ENOENT, s)
      else do {
        dir_inum \<leftarrow> tree_lookup_stop_early s path;
        if dir_inum < 0 then Some (dir_inum, s)
        else do {
          dd \<leftarrow> get_inode s dir_inum;
          let file = basename path;
          found \<leftarrow> directory_lookup s dd file;
          if found > 0 then Some (- EEXIST, s)
          else do {
            (inum, s1) \<leftarrow> alloc_inode s;
            node \<leftarrow> get_inode s1 inum;
            s2 \<leftarrow> store32 s1 (f_mode node) mode;
            s3 \<leftarrow> store32 s2 (f_refs node) 1;
            directory_put s3 dd file inum } } })"

definition storage_unlink :: "nufs \<Rightarrow> string \<Rightarrow> (int \<times> nufs) option" where
  "storage_unlink s path = do {
     dir_inum \<leftarrow> tree_lookup_stop_early s path;
     if dir_inum < 0 then Some (dir_inum, s)
     else do {
       let file = basename path;
       dd \<leftarrow> get_inode s dir_inum;
       inum \<leftarrow> directory_lookup s dd file;
       if inum < 0 then Some (inum, s)
       else do {
         path_inum \<leftarrow> tree_lookup s path;
         node \<leftarrow> get_inode s path_inum;
         s1 \<leftarrow> add_refs s node (-1);
         directory_delete s1 dd file } } }"

definition storage_link :: "nufs \<Rightarrow> string \<Rightarrow> string \<Rightarrow> (int \<times> nufs) option" where
  "storage_link s from to = do {
     s_from_inum \<leftarrow> tree_lookup_stop_early s from;
     if s_from_inum < 0 then Some (s_from_inum, s)
     else do {
       from_dir \<leftarrow> get_inode s s_from_inum;
       h_from_inum \<leftarrow> directory_lookup s from_dir (basename from);
       if h_from_inum < 0 then Some (h_from_inum, s)
       else do {
         s_to_inum \<leftarrow> tree_lookup_stop_early s to;
         if s_to_inum < 0 then Some (s_to_inum, s)
         else do {
           to_dir \<leftarrow> get_inode s s_to_inum;
           to_inum \<leftarrow> directory_lookup s to_dir (basename to);
           if to_inum < 0 then do {
             (rv, s1) \<leftarrow> directory_put s to_dir (basename to) h_from_inum;
             from_node \<leftarrow> get_inode s1 h_from_inum;
             s2 \<leftarrow> add_refs s1 from_node 1;
             Some (rv, s2) }
           else Some (- EEXIST, s) } } } }"

definition storage_rename :: "nufs \<Rightarrow> string \<Rightarrow> string \<Rightarrow> (int \<times> nufs) option" where
  "storage_rename s path to = do {
     dir_inum \<leftarrow> tree_lookup_stop_early s path;
     if dir_inum < 0 then Some (dir_inum, s)
     else do {
       dd \<leftarrow> get_inode s dir_inum;
       inum \<leftarrow> directory_lookup s dd (basename path);
       if inum < 0 then Some (inum, s)
       else do {
         dir_inum_to \<leftarrow> tree_lookup_stop_early s to;
         if dir_inum_to < 0 then Some (dir_inum_to, s)
         else do {
           dd_to \<leftarrow> get_inode s dir_inum_to;
           (rv, s1) \<leftarrow> directory_put s dd_to (basename to) inum;
           dd' \<leftarrow> get_inode s1 dir_inum;
           (_, s2) \<leftarrow> directory_delete s1 dd' (basename path);
           Some (rv, s2) } } } }"

definition storage_set_time :: "nufs \<Rightarrow> string \<Rightarrow> byte list \<Rightarrow> (int \<times> nufs) option" where
  "storage_set_time s path ts = do {
     dir_inum \<leftarrow> tree_lookup_stop_early s path;
     if dir_inum < 0 then Some (dir_inum, s)
     else do {
       inum \<leftarrow> tree_lookup s path;
       if inum < 0 then Some (inum, s)
       else do {
         s1 \<leftarrow> (if inum \<noteq> 0 then do {
                  dd \<leftarrow> get_inode s dir_inum;
                  store_bytes s (f_ts dd) (take 32 ts) }
                else Some s);
         node \<leftarrow> get_inode s1 inum;
         s2 \<leftarrow> store_bytes s1 (f_ts node) (take 32 ts);
         Some (0, s2) } } }"

definition storage_list :: "nufs \<Rightarrow> string \<Rightarrow> slist option" where
  "storage_list s path = directory_list s path"

section \<open>File contents\<close>

text \<open>
  The abstract content of a file: byte \<open>i\<close> lies on the page of block \<open>i div 4096\<close>.
  \<open>layout_ok s p n\<close>: the first \<open>n\<close> blocks of inode \<open>p\<close> are different data pages, and the
  indirect page, when there is one, is none of them.
\<close>

definition fbyte :: "nufs \<Rightarrow> int \<Rightarrow> int \<Rightarrow> byte" where
  "fbyte s p i = disk s (4096 * blkno s p (i div 4096) + i mod 4096)"

definition layout_ok :: "nufs \<Rightarrow> int \<Rightarrow> int \<Rightarrow> bool" where
  "layout_ok s p n \<longleftrightarrow> is_inode p \<and> n \<le> 1026
     \<and> (\<forall>k. 0 \<le> k \<and> k < n \<longrightarrow> 2 \<le> blkno s p k \<and> blkno s p k < 256)
     \<and> inj_on (blkno s p) {0..<n}
     \<and> (2 < n \<longrightarrow> 2 \<le> iptr_of s p \<and> iptr_of s p < 256 \<and> iptr_of s p \<notin> blkno s p ` {0..<n})"

definition on_page :: "int \<Rightarrow> int \<Rightarrow> bool" where
  "on_page q x \<longleftrightarrow> 4096 * q \<le> x \<and> x < 4096 * q + 4096"

lemma and_not_4095: "(x :: int) AND NOT 4095 = 4096 * (x div 4096)"
proof -
  have "x AND NOT (mask 12) = push_bit 12 (drop_bit 12 x)"
    by (rule bit_eqI) (auto simp: bit_simps)
  then show ?thesis by (simp add: mask_eq_exp_minus_1 push_bit_eq_mult drop_bit_eq_div)
qed

lemma chunk_end_eq:
  assumes "0 \<le> cur" "cur < n" "n < 2147479552"
  shows "chunk_end cur n = min (4096 * (cur div 4096) + 4096) n"
proof -
  have "4096 * (cur div 4096) \<le> cur" by simp
  moreover have "(cur + 4096) div 4096 = cur div 4096 + 1" by simp
  ultimately show ?thesis
    using assms unfolding chunk_end_def and_not_4095 by (simp add: util_min_def algebra_simps)
qed

lemma block_data_eq:
  assumes "layout_ok s p n" and "0 \<le> cur" "cur < 4096 * n"
  shows "block_data s p cur = Some (4096 * blkno s p (cur div 4096) + cur mod 4096)"
proof -
  let ?k = "cur div 4096"
  have p: "4096 \<le> p" "p + 64 \<le> 8192" using assms(1) is_inode_bounds by (auto simp: layout_ok_def)
  have k: "0 \<le> ?k" "?k < n" "n \<le> 1026" using assms by (auto simp: layout_ok_def)
  have b: "2 \<le> blkno s p ?k" "blkno s p ?k < 256" using assms(1) k by (auto simp: layout_ok_def)
  have "inode_get_pnum s p ?k = Some (blkno s p ?k)"
  proof (cases "?k < 2")
    case True
    with k p show ?thesis by (auto simp: inode_get_pnum_def NUM_PTRS_def blkno_def access_defs field_defs)
  next
    case False
    with k have "2 \<le> iptr_of s p" "iptr_of s p < 256" using assms(1) by (auto simp: layout_ok_def)
    with False k p show ?thesis
      by (auto simp: inode_get_pnum_def NUM_PTRS_def blkno_def access_defs field_defs)
  qed
  moreover have "cint ?k = ?k" using k by (intro cint_id) auto
  ultimately show ?thesis using b assms(2) by (simp add: block_data_def)
qed

text \<open>A change inside one data block changes neither the inode nor its block table.\<close>

lemma layout_frame:
  assumes "layout_ok s p n" and "0 \<le> k" "k < n"
    and "\<And>x. \<not> on_page (blkno s p k) x \<Longrightarrow> disk s' x = disk s x"
  shows "iptr_of s' p = iptr_of s p" and "0 \<le> j \<Longrightarrow> j < n \<Longrightarrow> blkno s' p j = blkno s p j"
    and "layout_ok s' p n"
proof -
  have p: "4096 \<le> p" "p + 64 \<le> 8192" using assms(1) is_inode_bounds by (auto simp: layout_ok_def)
  have q: "2 \<le> blkno s p k" using assms by (auto simp: layout_ok_def)
  have low: "rd32 (disk s') x = rd32 (disk s) x" if "x + 4 \<le> 8192" for x
    using that q by (intro rd32_eq_on assms(4)) (auto simp: on_page_def)
  show i: "iptr_of s' p = iptr_of s p" using p by (intro low) (simp add: field_defs)
  show b: "blkno s' p j = blkno s p j" if "0 \<le> j" "j < n" for j
  proof (cases "j < 2")
    case True
    with p that show ?thesis by (simp add: blkno_def low field_defs)
  next
    case False
    with that have n: "2 < n" "n \<le> 1026" using assms(1) by (auto simp: layout_ok_def)
    then have "iptr_of s p \<noteq> blkno s p k" using assms(1-3) by (auto simp: layout_ok_def)
    then have ne: "iptr_of s p + 1 \<le> blkno s p k \<or> blkno s p k + 1 \<le> iptr_of s p" by linarith
    have "rd32 (disk s') (4096 * iptr_of s p + (j - 2) * 4) = rd32 (disk s) (4096 * iptr_of s p + (j - 2) * 4)"
      using ne that False n by (intro rd32_eq_on assms(4)) (auto simp: on_page_def)
    with False i show ?thesis by (simp add: blkno_def)
  qed
  have "inj_on (blkno s' p) {0..<n} = inj_on (blkno s p) {0..<n}" "blkno s' p ` {0..<n} = blkno s p ` {0..<n}"
    using b by (auto intro!: inj_on_cong image_cong)
  with assms(1) b i show "layout_ok s' p n" by (auto simp: layout_ok_def)
qed


text \<open>One chunk: \<open>m\<close> bytes written at the start of block \<open>k\<close>.\<close>

lemma write_chunk:
  assumes "layout_ok s p n" and "0 \<le> k" "k < n" and "length bs \<le> 4096"
  shows "\<exists>s'. store_bytes s (4096 * blkno s p k) bs = Some s' \<and> inodes_base s' = inodes_base s
     \<and> layout_ok s' p n \<and> (\<forall>j. 0 \<le> j \<and> j < n \<longrightarrow> blkno s' p j = blkno s p j)
     \<and> (\<forall>i. 0 \<le> i \<and> i < 4096 * n \<longrightarrow> fbyte s' p i =
          (if 4096 * k \<le> i \<and> i < 4096 * k + int (length bs) then bs ! nat (i - 4096 * k) else fbyte s p i))
     \<and> (\<forall>x. \<not> on_page (blkno s p k) x \<longrightarrow> disk s' x = disk s x)"
proof -
  let ?q = "blkno s p k"
  have q: "2 \<le> ?q" "?q < 256" using assms by (auto simp: layout_ok_def)
  then have "in_image (4096 * ?q) (int (length bs))" using assms(4) by (auto simp: in_image_def NUFS_SIZE_def)
  from store_bytes_eq [OF this, of s]
  obtain s' where s': "store_bytes s (4096 * ?q) bs = Some s'" "inodes_base s' = inodes_base s"
      "\<forall>x. disk s' x = (if 4096 * ?q \<le> x \<and> x < 4096 * ?q + int (length bs) then bs ! nat (x - 4096 * ?q) else disk s x)"
    by blast
  have out: "disk s' x = disk s x" if "\<not> on_page ?q x" for x
    using that s'(3) assms(4) by (auto simp: on_page_def)
  have fr: "layout_ok s' p n" "\<And>j. 0 \<le> j \<Longrightarrow> j < n \<Longrightarrow> blkno s' p j = blkno s p j"
    using layout_frame [OF assms(1-3) out] by blast+
  have "fbyte s' p i = (if 4096 * k \<le> i \<and> i < 4096 * k + int (length bs) then bs ! nat (i - 4096 * k) else fbyte s p i)"
    if i: "0 \<le> i" "i < 4096 * n" for i
  proof -
    let ?j = "i div 4096" and ?r = "i mod 4096"
    have j: "0 \<le> ?j" "?j < n" "0 \<le> ?r" "?r < 4096" and ij: "i = 4096 * ?j + ?r" using i by auto
    have f: "fbyte s' p i = disk s' (4096 * blkno s p ?j + ?r)" using fr(2) [of ?j] j by (simp add: fbyte_def)
    show ?thesis
    proof (cases "?j = k")
      case True
      have "disk s' (4096 * ?q + ?r) = (if ?r < int (length bs) then bs ! nat ?r else disk s (4096 * ?q + ?r))"
        using s'(3) [rule_format, of "4096 * ?q + ?r"] j by simp
      moreover have "i - 4096 * k = ?r" "4096 * k \<le> i \<and> i < 4096 * k + int (length bs) \<longleftrightarrow> ?r < int (length bs)"
        using True ij j by linarith+
      ultimately show ?thesis using True f by (simp only: fbyte_def)
    next
      case False
      then have "blkno s p ?j \<noteq> ?q" using assms(1-3) j by (auto simp: layout_ok_def inj_on_def)
      then have "\<not> on_page ?q (4096 * blkno s p ?j + ?r)" using j by (auto simp: on_page_def)
      moreover have "\<not> (4096 * k \<le> i \<and> i < 4096 * k + int (length bs))"
        using False j ij assms(4) by auto
      ultimately show ?thesis using f out by (auto simp: fbyte_def)
    qed
  qed
  with s' fr out show ?thesis by blast
qed

text \<open>The write loop from a page boundary: exactly the bytes of the request change.\<close>

lemma write_loop_aligned:
  assumes "layout_ok s p n" and "0 \<le> cur" "cur mod 4096 = 0" "cur \<le> upto_byte" "upto_byte \<le> 4096 * n"
    and "0 \<le> pos" "pos + (upto_byte - cur) \<le> int (length buf)"
  shows "\<exists>s'. write_loop s p upto_byte cur buf pos = Some s' \<and> inodes_base s' = inodes_base s
     \<and> layout_ok s' p n \<and> (\<forall>j. 0 \<le> j \<and> j < n \<longrightarrow> blkno s' p j = blkno s p j)
     \<and> (\<forall>i. 0 \<le> i \<and> i < 4096 * n \<longrightarrow> fbyte s' p i =
          (if cur \<le> i \<and> i < upto_byte then buf ! nat (pos + (i - cur)) else fbyte s p i))
     \<and> (\<forall>x. (\<forall>k. 0 \<le> k \<and> k < n \<longrightarrow> \<not> on_page (blkno s p k) x) \<longrightarrow> disk s' x = disk s x)"
  using assms
proof (induction "nat (upto_byte - cur)" arbitrary: s cur pos rule: less_induct)
  case less
  have n: "n \<le> 1026" using less.prems(1) by (simp add: layout_ok_def)
  have sz: "size_t cur = cur" using less.prems n by (intro size_t_id) auto
  show ?case
  proof (cases "cur < upto_byte")
    case False
    with less.prems have "cur = upto_byte" by simp
    with less.prems sz show ?thesis by (auto simp: write_loop.simps)
  next
    case True
    define k where "k = cur div 4096"
    have k: "cur = 4096 * k" "0 \<le> k" "k < n" using less.prems True by (auto simp: k_def)
    define fin where "fin = min (cur + 4096) upto_byte"
    have fin: "cur < fin" "fin \<le> cur + 4096" "fin \<le> upto_byte" "0 \<le> fin - cur"
      using True by (auto simp: fin_def)
    have ce: "chunk_end cur upto_byte = fin"
      using chunk_end_eq [of cur upto_byte] True less.prems n k by (simp add: fin_def)
    have bd: "block_data s p cur = Some (4096 * blkno s p k)"
      using block_data_eq [OF less.prems(1), of cur] less.prems True by (simp add: k_def)
    define bs where "bs = take (nat (fin - cur)) (drop (nat pos) buf)"
    have len: "int (length bs) = fin - cur" using fin less.prems by (simp add: bs_def)
    have bs: "bs ! m = buf ! (nat pos + m)" if "m < length bs" for m
      using that less.prems fin by (simp add: bs_def)
    have bg: "buf_get buf pos (nat (size_t (fin - cur))) = Some bs"
      using fin less.prems by (simp add: buf_get_def bs_def)
    have "length bs \<le> 4096" using len fin by linarith
    from write_chunk [OF less.prems(1) k(2,3) this]
    obtain s1 where s1: "store_bytes s (4096 * blkno s p k) bs = Some s1" "inodes_base s1 = inodes_base s"
        "layout_ok s1 p n" "\<forall>j. 0 \<le> j \<and> j < n \<longrightarrow> blkno s1 p j = blkno s p j"
        "\<forall>i. 0 \<le> i \<and> i < 4096 * n \<longrightarrow> fbyte s1 p i =
          (if 4096 * k \<le> i \<and> i < 4096 * k + int (length bs) then bs ! nat (i - 4096 * k) else fbyte s p i)"
        "\<forall>x. \<not> on_page (blkno s p k) x \<longrightarrow> disk s1 x = disk s x"
      by blast
    have chunk: "fbyte s1 p i = (if cur \<le> i \<and> i < fin then buf ! nat (pos + (i - cur)) else fbyte s p i)"
      if "0 \<le> i" "i < 4096 * n" for i
    proof -
      have "bs ! nat (i - cur) = buf ! nat (pos + (i - cur))" if "cur \<le> i" "i < fin"
        using bs [of "nat (i - cur)"] that len less.prems by (simp add: nat_add_distrib nat_less_iff)
      then show ?thesis using s1(5) that k(1) len by auto
    qed
    have step: "write_loop s p upto_byte cur buf pos = write_loop s1 p upto_byte fin buf (pos + 4096)"
      using True sz ce bd bg s1(1) by (subst write_loop.simps) simp
    show ?thesis
    proof (cases "fin = upto_byte")
      case fu: True
      have "size_t upto_byte = upto_byte" using less.prems n by (intro size_t_id) auto
      then have "write_loop s1 p upto_byte fin buf (pos + 4096) = Some s1"
        using fu by (subst write_loop.simps) simp
      with s1 chunk step fu k show ?thesis by (intro exI [of _ s1]) auto
    next
      case False
      then have f: "fin = cur + 4096" by (auto simp: fin_def)
      obtain s2 where s2: "write_loop s1 p upto_byte fin buf (pos + 4096) = Some s2" "inodes_base s2 = inodes_base s1"
          "layout_ok s2 p n" "\<forall>j. 0 \<le> j \<and> j < n \<longrightarrow> blkno s2 p j = blkno s1 p j"
          "\<forall>i. 0 \<le> i \<and> i < 4096 * n \<longrightarrow> fbyte s2 p i =
             (if fin \<le> i \<and> i < upto_byte then buf ! nat (pos + 4096 + (i - fin)) else fbyte s1 p i)"
          "\<forall>x. (\<forall>k. 0 \<le> k \<and> k < n \<longrightarrow> \<not> on_page (blkno s1 p k) x) \<longrightarrow> disk s2 x = disk s1 x"
        using less.hyps [of fin s1 "pos + 4096"] s1(3) fin f less.prems by auto
      have "fbyte s2 p i = (if cur \<le> i \<and> i < upto_byte then buf ! nat (pos + (i - cur)) else fbyte s p i)"
        if "0 \<le> i" "i < 4096 * n" for i
        using s2(5) that chunk [OF that] f fin by auto
      with s1 s2 step k show ?thesis by (intro exI [of _ s2]) auto
    qed
  qed
qed

text \<open>The read loop from a page boundary returns the bytes of the file.\<close>

lemma read_loop_aligned:
  assumes "layout_ok s p n" and "0 \<le> cur" "cur mod 4096 = 0" "cur \<le> upto_byte" "upto_byte \<le> 4096 * n"
    and "0 \<le> pos" "pos + (upto_byte - cur) = int (length buf)"
  shows "read_loop s p upto_byte cur buf pos =
           Some (take (nat pos) buf @ map (\<lambda>i. fbyte s p (cur + int i)) [0..<nat (upto_byte - cur)])"
  using assms
proof (induction "nat (upto_byte - cur)" arbitrary: cur pos buf rule: less_induct)
  case less
  have n: "n \<le> 1026" using less.prems(1) by (simp add: layout_ok_def)
  have sz: "size_t cur = cur" "size_t upto_byte = upto_byte" using less.prems n by (auto intro!: size_t_id)
  show ?case
  proof (cases "cur < upto_byte")
    case False
    with less.prems sz show ?thesis by (simp add: read_loop.simps)
  next
    case True
    define k where "k = cur div 4096"
    have k: "cur = 4096 * k" "0 \<le> k" "k < n" using less.prems True by (auto simp: k_def)
    define fin where "fin = min (cur + 4096) upto_byte"
    have fin: "cur < fin" "fin \<le> cur + 4096" "fin \<le> upto_byte" "0 \<le> fin - cur"
      using True by (auto simp: fin_def)
    have ce: "chunk_end cur upto_byte = fin"
      using chunk_end_eq [of cur upto_byte] True less.prems n k by (simp add: fin_def)
    have bd: "block_data s p cur = Some (4096 * blkno s p k)"
      using block_data_eq [OF less.prems(1), of cur] less.prems True by (simp add: k_def)
    define m where "m = nat (fin - cur)"
    have m: "int m = fin - cur" "m \<le> 4096" using fin by (auto simp: m_def)
    have "2 \<le> blkno s p k" "blkno s p k < 256" using less.prems(1) k by (auto simp: layout_ok_def)
    then have img: "in_image (4096 * blkno s p k) (int m)" using m by (auto simp: in_image_def NUFS_SIZE_def)
    have fb: "disk s (4096 * blkno s p k + int i) = fbyte s p (cur + int i)" if "i < m" for i
      using that m k(1) by (simp add: fbyte_def)
    define bs where "bs = map (\<lambda>i. fbyte s p (cur + int i)) [0..<m]"
    have ld: "load_bytes s (4096 * blkno s p k) (nat (size_t (fin - cur))) = Some bs"
      using fin img fb by (simp add: load_bytes_def bs_def flip: m_def)
    define buf' where "buf' = take (nat pos) buf @ bs @ drop (nat pos + m) buf"
    have bp: "buf_put buf pos bs = Some buf'"
      using less.prems fin m by (simp add: buf_put_def bs_def buf'_def)
    have len: "length bs = m" "length buf' = length buf" using less.prems fin m by (auto simp: bs_def buf'_def)
    have step: "read_loop s p upto_byte cur buf pos = read_loop s p upto_byte fin buf' (pos + 4096)"
      using True sz ce bd ld bp by (subst read_loop.simps) simp
    show ?thesis
    proof (cases "fin = upto_byte")
      case fu: True
      have "nat pos + m = length buf" using less.prems m fu by linarith
      then have "buf' = take (nat pos) buf @ bs" by (simp add: buf'_def)
      moreover have "read_loop s p upto_byte fin buf' (pos + 4096) = Some buf'"
        using fu sz by (subst read_loop.simps) simp
      ultimately show ?thesis using step fu by (simp add: bs_def m_def)
    next
      case False
      then have f: "fin = cur + 4096" "m = 4096" by (auto simp: fin_def m_def)
      have "read_loop s p upto_byte fin buf' (pos + 4096) = Some (take (nat (pos + 4096)) buf'
              @ map (\<lambda>i. fbyte s p (fin + int i)) [0..<nat (upto_byte - fin)])"
        using less.hyps [of fin "pos + 4096" buf'] fin f less.prems len by simp
      moreover have "take (nat (pos + 4096)) buf' = take (nat pos) buf @ bs"
        using len f less.prems fin by (simp add: buf'_def nat_add_distrib)
      moreover have "bs @ map (\<lambda>i. fbyte s p (fin + int i)) [0..<nat (upto_byte - fin)]
          = map (\<lambda>i. fbyte s p (cur + int i)) [0..<nat (upto_byte - cur)]"
        using f fin len by (intro nth_equalityI) (auto simp: bs_def nth_append algebra_simps)
      ultimately show ?thesis using step by simp
    qed
  qed
qed

section \<open>Files of the root directory\<close>

lemma get_inode_root: "inodes_ready s \<Longrightarrow> get_inode s 0 = Some 4096"
  using get_inode_ready [of s 0] by (simp add: inode_addr_def)

lemma tree_lookup_root:
  assumes "inodes_ready s" and "dir_ok s 4096" and "name \<noteq> []" "CHR ''/'' \<notin> set name" "NUL \<notin> set name"
  shows "tree_lookup s (CHR ''/'' # name) = Some (case map_of (dir_entries s 4096) name of Some i \<Rightarrow> i | None \<Rightarrow> -2)"
proof -
  have "takeWhile (\<lambda>c. c \<noteq> CHR ''/'') name = name" "dropWhile (\<lambda>c. c \<noteq> CHR ''/'') name = []"
    using assms(4) by (auto simp: takeWhile_eq_all_conv)
  then have "s_split name CHR ''/'' = [name]" by (simp only: s_split_unfold [OF assms(3)]) simp
  then show ?thesis
    using assms get_inode_root [OF assms(1)] directory_lookup_map_of [OF assms(2,5)]
    by (simp add: tree_lookup_def)
qed

text \<open>The files a theorem about the storage layer speaks of: \<open>name\<close> in the root directory is inode \<open>inum\<close>.\<close>

definition root_file :: "nufs \<Rightarrow> string \<Rightarrow> int \<Rightarrow> bool" where
  "root_file s name inum \<longleftrightarrow> inodes_ready s \<and> dir_ok s 4096 \<and> 1 \<in> used_pages s
     \<and> rd32 (disk s) (f_ptrs 4096 0) \<in> used_pages s
     \<and> name \<noteq> [] \<and> CHR ''/'' \<notin> set name \<and> NUL \<notin> set name
     \<and> map_of (dir_entries s 4096) name = Some inum \<and> 0 < inum \<and> inum < 64"

lemma root_file_lookup:
  assumes "root_file s name inum"
  shows "tree_lookup s (CHR ''/'' # name) = Some inum" "get_inode s inum = Some (inode_addr inum)"
    "is_inode (inode_addr inum)" "4160 \<le> inode_addr inum" "inode_addr inum + 64 \<le> 8192" "0 < inum"
  using assms tree_lookup_root [of s name] get_inode_ready [of s inum]
  by (auto simp: root_file_def is_inode_def inode_addr_def)

text \<open>Growing an empty file gives it a good block layout, away from the pages in use before.\<close>

lemma grew_layout:
  assumes "grew s s' p 0 n" and "is_inode p" and "n \<le> 1026"
  shows "layout_ok s' p n"
    and "0 \<le> k \<Longrightarrow> k < n \<Longrightarrow> blkno s' p k \<notin> used_pages s"
proof -
  have b: "\<forall>k. 0 \<le> k \<and> k < n \<longrightarrow> 2 \<le> blkno s' p k \<and> blkno s' p k \<in> used_pages s' - used_pages s"
      "inj_on (blkno s' p) {0..<n}" "2 < n \<longrightarrow> 2 \<le> iptr_of s' p \<and> iptr_of s' p \<in> used_pages s'
           \<and> iptr_of s' p \<notin> blkno s' p ` {0..<n}"
    using assms(1) by (auto simp: grew_def)
  then show "layout_ok s' p n" "0 \<le> k \<Longrightarrow> k < n \<Longrightarrow> blkno s' p k \<notin> used_pages s"
    using assms(2,3) used_pages_range [of _ s'] by (auto simp: layout_ok_def)
qed

text \<open>The root directory does not see a change of pages that were not in use.\<close>

lemma root_dir_kept:
  assumes "root_file s name inum"
    and "\<And>x. 4096 \<le> x \<Longrightarrow> x < 4160 \<Longrightarrow> disk s' x = disk s x"
    and "\<And>x. on_page (rd32 (disk s) (f_ptrs 4096 0)) x \<Longrightarrow> 8192 \<le> x \<Longrightarrow> disk s' x = disk s x"
    and "inodes_base s' = inodes_base s"
  shows "dir_entries s' 4096 = dir_entries s 4096" "dir_ok s' 4096" "inodes_ready s'"
proof -
  have ok: "dir_ok s 4096" "inodes_ready s" using assms(1) by (auto simp: root_file_def)
  then have l: "dir_len s 4096 \<le> 64" "0 < dir_len s 4096 \<longrightarrow> 8192 \<le> dir_base s 4096" by (auto simp: dir_ok_def)
  have f: "rd32 (disk s') (f_size 4096) = rd32 (disk s) (f_size 4096)"
      "rd32 (disk s') (f_ptrs 4096 0) = rd32 (disk s) (f_ptrs 4096 0)"
    by (auto intro!: rd32_eq_on assms(2) simp: field_defs)
  have "disk s' x = disk s x" if "dir_base s 4096 \<le> x" "x < dir_base s 4096 + 64 * int (dir_len s 4096)" for x
    using that l by (intro assms(3)) (auto simp: on_page_def dir_base_def)
  from dir_entries_cong [OF f this] ok assms(4)
  show "dir_entries s' 4096 = dir_entries s 4096" "dir_ok s' 4096" "inodes_ready s'"
    by (auto simp: inodes_ready_def)
qed

text \<open>A write to an empty file: the whole of \<open>storage_write\<close>, and what it keeps.\<close>

lemma storage_write_empty:
  assumes "root_file s name inum" and "rd32 (disk s) (f_size (inode_addr inum)) = 0"
    and "0 < length buf" "int (length buf) \<le> 4096 * 1026"
    and "grow_cost 0 (bytes_to_pages (int (length buf))) \<le> free_pages s"
  shows "\<exists>s'. storage_write s (CHR ''/'' # name) buf (int (length buf)) 0 = Some (int (length buf), s')
     \<and> layout_ok s' (inode_addr inum) (bytes_to_pages (int (length buf)))
     \<and> rd32 (disk s') (f_size (inode_addr inum)) = int (length buf)
     \<and> (\<forall>i. 0 \<le> i \<and> i < int (length buf) \<longrightarrow> fbyte s' (inode_addr inum) i = buf ! nat i)
     \<and> dir_entries s' 4096 = dir_entries s 4096 \<and> root_file s' name inum"
proof -
  let ?p = "inode_addr inum" and ?z = "int (length buf)"
  define n where "n = bytes_to_pages ?z"
  have n: "n \<le> 1026" "?z \<le> 4096 * n" using assms(3,4) by (auto simp: n_def bytes_to_pages_eq)
  note rf = root_file_lookup [OF assms(1)]
  have used: "1 \<in> used_pages s" "rd32 (disk s) (f_ptrs 4096 0) \<in> used_pages s"
    using assms(1) by (auto simp: root_file_def)
  have "can_grow s ?p 0 n" using assms(5) rf n used by (auto simp: can_grow_def n_def)
  then obtain s1 where s1: "grow_inode s ?p ?z = Some (?z, s1)" "rd32 (disk s1) (f_size ?p) = ?z" "grew s s1 ?p 0 n"
    using grow_inode_run [of s ?p 0 ?z] assms(2-4) by (auto simp: n_def)
  note lay = grew_layout [OF s1(3) rf(3) n(1)]
  obtain s2 where s2: "write_loop s1 ?p ?z 0 buf 0 = Some s2" "inodes_base s2 = inodes_base s1" "layout_ok s2 ?p n"
      "\<forall>i. 0 \<le> i \<and> i < 4096 * n \<longrightarrow> fbyte s2 ?p i = (if 0 \<le> i \<and> i < ?z then buf ! nat (0 + (i - 0)) else fbyte s1 ?p i)"
      "\<forall>x. (\<forall>k. 0 \<le> k \<and> k < n \<longrightarrow> \<not> on_page (blkno s1 ?p k) x) \<longrightarrow> disk s2 x = disk s1 x"
    using write_loop_aligned [OF lay(1), of 0 ?z 0 buf] n by auto
  have blk: "blkno s1 ?p k \<noteq> rd32 (disk s) (f_ptrs 4096 0)" "2 \<le> blkno s1 ?p k" if "0 \<le> k" "k < n" for k
    using lay(1) lay(2) [OF that] that used(2) by (auto simp: layout_ok_def simp del: used_pages_store)
  have tab: "disk s2 x = disk s1 x" if "x < 8192" for x
    using that blk by (intro s2(5) [rule_format]) (fastforce simp: on_page_def)
  have g: "disk s1 x = disk s x" if "32 \<le> x" "x < ?p + 12 \<or> ?p + 28 \<le> x"
      "2 < n \<longrightarrow> x < 4096 * iptr_of s1 ?p \<or> 4096 * iptr_of s1 ?p + 4096 \<le> x" for x
    using s1(3) that by (simp add: grew_def)
  have ip: "2 < n \<longrightarrow> 2 \<le> iptr_of s1 ?p \<and> iptr_of s1 ?p \<noteq> rd32 (disk s) (f_ptrs 4096 0)"
    using s1(3) used by (auto simp: grew_def)
  have root: "disk s2 x = disk s x" if "4096 \<le> x" "x < 4160" for x
    using tab [of x] g [of x] that rf ip by auto
  have dirpage: "disk s2 x = disk s x" if "on_page (rd32 (disk s) (f_ptrs 4096 0)) x" "8192 \<le> x" for x
  proof -
    have "disk s1 x = disk s x" using that rf ip by (intro g) (auto simp: on_page_def)
    moreover have "disk s2 x = disk s1 x"
      using that blk(1) by (intro s2(5) [rule_format]) (fastforce simp: on_page_def)
    ultimately show ?thesis by simp
  qed
  have "inodes_base s2 = inodes_base s" using s2(2) s1(3) by (simp add: grew_def)
  note keep = root_dir_kept [OF assms(1) root dirpage this]
  have "storage_write s (CHR ''/'' # name) buf ?z 0 = Some (?z, s2)"
    using rf s1(1) s2(1) assms(2-4) by (simp add: storage_write_def access_defs field_defs)
  moreover have "rd32 (disk s2) (f_size ?p) = ?z"
    using s1(2) rf by (subst rd32_eq_on [where m' = "disk s1"]) (auto simp: field_defs tab)
  moreover have "fbyte s2 ?p i = buf ! nat i" if "0 \<le> i" "i < ?z" for i using s2(4) that n by auto
  moreover have "root_file s2 name inum"
  proof -
    have "used_pages s2 = used_pages s1" using tab by (intro used_pages_cong) auto
    then have "used_pages s \<subseteq> used_pages s2" using s1(3) by (simp add: grew_def)
    moreover have "rd32 (disk s2) (f_ptrs 4096 0) = rd32 (disk s) (f_ptrs 4096 0)"
      using tab g rf ip by (intro rd32_eq_on) (auto simp: field_defs)
    ultimately show ?thesis using keep assms(1) by (auto simp: root_file_def)
  qed
  ultimately show ?thesis using s2(3) keep by (auto simp: n_def)
qed

lemma storage_read_whole:
  assumes "root_file s name inum" and "layout_ok s (inode_addr inum) (bytes_to_pages sz)"
    and "rd32 (disk s) (f_size (inode_addr inum)) = sz" and "int (length buf) = sz" "sz \<le> 4096 * 1026"
  shows "storage_read s (CHR ''/'' # name) buf sz 0 =
           Some (sz, map (\<lambda>i. fbyte s (inode_addr inum) (int i)) [0..<nat sz])"
proof -
  have sz: "0 \<le> sz" using assms(4) by linarith
  then have "sz \<le> 4096 * bytes_to_pages sz" by (simp add: bytes_to_pages_eq)
  then have "read_loop s (inode_addr inum) sz 0 buf 0 =
      Some (map (\<lambda>i. fbyte s (inode_addr inum) (int i)) [0..<nat sz])"
    using read_loop_aligned [OF assms(2), of 0 sz 0 buf] assms(4) sz by simp
  then show ?thesis
    using root_file_lookup [OF assms(1)] assms sz by (simp add: storage_read_def access_defs field_defs)
qed

section \<open>Creating a file\<close>

lemma path_parts_root:
  assumes "name \<noteq> []" "CHR ''/'' \<notin> set name"
  shows "dirname (CHR ''/'' # name) = ''/''" and "basename (CHR ''/'' # name) = name"
proof -
  have l: "last name \<noteq> CHR ''/''" using assms last_in_set [of name] by metis
  have r: "rev name \<noteq> []" "hd (rev name) = last name" using assms by (auto simp: hd_rev)
  then obtain c cs where c: "rev name = c # cs" "c = last name" by (cases "rev name") auto
  have st: "strip_slashes (CHR ''/'' # name) = CHR ''/'' # name"
  proof -
    have "dropWhile (\<lambda>c. c = CHR ''/'') (rev name @ ''/'') = rev name @ ''/''"
      unfolding c(1) using c(2) l by simp
    then show ?thesis by (simp add: strip_slashes_def)
  qed
  have all: "\<forall>x \<in> set (rev name). x \<noteq> CHR ''/''" using assms(2) by auto
  have tw: "takeWhile (\<lambda>c. c \<noteq> CHR ''/'') (rev name @ ''/'') = rev name"
      "dropWhile (\<lambda>c. c \<noteq> CHR ''/'') (rev name @ ''/'') = ''/''"
    using all by (subst takeWhile_append2 dropWhile_append2; simp)+
  show "basename (CHR ''/'' # name) = name" using st tw by (simp add: basename_def)
  show "dirname (CHR ''/'' # name) = ''/''"
    using st tw by (simp add: dirname_def) (simp add: strip_slashes_def)
qed

text \<open>What the root directory needs for a new name: the directory insertion has room for it.\<close>

definition can_create :: "nufs \<Rightarrow> string \<Rightarrow> bool" where
  "can_create s name \<longleftrightarrow> dir_ok s 4096 \<and> put_ok s 4096 name 1 \<and> inode_used s 0
     \<and> name \<noteq> [] \<and> CHR ''/'' \<notin> set name \<and> map_of (dir_entries s 4096) name = None
     \<and> (\<exists>i. 0 \<le> i \<and> i < 64 \<and> \<not> inode_used s i)"

lemma storage_mknod_root:
  assumes "can_create s name" and "is_cint mode"
  shows "\<exists>i s'. storage_mknod s (CHR ''/'' # name) mode = Some (0, s') \<and> 0 < i \<and> i < 64 \<and> \<not> inode_used s i
     \<and> inodes_ready s' \<and> dir_ok s' 4096 \<and> dir_entries s' 4096 = dir_entries s 4096 @ [(name, i)]
     \<and> rd32 (disk s') (f_mode (inode_addr i)) = mode \<and> rd32 (disk s') (f_size (inode_addr i)) = 0
     \<and> rd32 (disk s') (f_refs (inode_addr i)) = 2"
proof -
  have c: "dir_ok s 4096" "put_ok s 4096 name 1" "inode_used s 0" "name \<noteq> []" "CHR ''/'' \<notin> set name"
      "map_of (dir_entries s 4096) name = None" "inodes_ready s" "NUL \<notin> set name"
    using assms(1) by (auto simp: can_create_def put_ok_def)
  obtain i s1 where a: "alloc_inode s = Some (i, s1)" "alloc_inode_result s 0 i s1"
    using alloc_inode_spec [OF c(7)] by blast
  have "i \<noteq> -1" using a(2) assms(1) by (auto simp: alloc_inode_result_def can_create_def)
  with a(2) have ar: "0 \<le> i" "i < 64" "\<not> inode_used s i" "inodes_base s1 = inodes_base s"
      "rd32 (disk s1) (f_size (inode_addr i)) = 0"
      "\<forall>x. (x < 32 \<or> 40 \<le> x) \<and> (x < inode_addr i \<or> inode_addr i + 4 \<le> x)
           \<and> (x < inode_addr i + 12 \<or> inode_addr i + 16 \<le> x) \<longrightarrow> disk s1 x = disk s x"
    by (auto simp: alloc_inode_result_def)
  have i0: "0 < i" using ar c(3) by (cases "i = 0") auto
  let ?p = "inode_addr i"
  have p: "4160 \<le> ?p" "?p + 64 \<le> 8192" using i0 ar by (auto simp: inode_addr_def)
  define s3 where "s3 = s1\<lparr>disk := wr32 (wr32 (disk s1) (f_mode ?p) mode) (f_refs ?p) 1\<rparr>"
  have out: "disk s3 x = disk s x" if "x < 32 \<or> 40 \<le> x" "x < ?p \<or> ?p + 16 \<le> x" for x
    using ar(6) that p by (auto simp: s3_def wr32_frame field_defs)
  have up: "used_pages s3 = used_pages s" using out p by (intro used_pages_cong) auto
  have dir3: "dir_entries s3 4096 = dir_entries s 4096" "dir_ok s3 4096" "dir_len s3 4096 = dir_len s 4096"
  proof -
    have f: "rd32 (disk s3) (f_size 4096) = rd32 (disk s) (f_size 4096)"
        "rd32 (disk s3) (f_ptrs 4096 0) = rd32 (disk s) (f_ptrs 4096 0)"
      using p by (auto intro!: rd32_eq_on out simp: field_defs)
    have "disk s3 x = disk s x" if "dir_base s 4096 \<le> x" "x < dir_base s 4096 + 64 * int (dir_len s 4096)" for x
      using that c(1) p by (intro out) (cases "dir_len s 4096 = 0"; auto simp: dir_ok_def)+
    from dir_entries_cong [OF f this] c(1) f(1)
    show "dir_entries s3 4096 = dir_entries s 4096" "dir_ok s3 4096" "dir_len s3 4096 = dir_len s 4096"
      by (auto simp: dir_len_def)
  qed
  have "put_ok s3 4096 name i"
    using c(2) up dir3(3) ar p by (simp add: put_ok_def free_pages_def inodes_ready_def s3_def)
  from directory_put_entries [OF dir3(2) this]
  obtain s4 where s4: "directory_put s3 4096 name i = Some (0, s4)" "dir_ok s4 4096" "inodes_ready s4"
      "dir_entries s4 4096 = dir_entries s3 4096 @ [(name, i)]"
      "rd32 (disk s4) (f_refs ?p) = cint (rd32 (disk s3) (f_refs ?p) + 1)"
      "\<forall>x. 4096 \<le> x \<and> (x < 4096 + 12 \<or> 4096 + 28 \<le> x) \<and> (x < f_refs ?p \<or> f_refs ?p + 4 \<le> x)
           \<and> (x < dir_base s4 4096 + 64 * int (dir_len s3 4096) \<or> dir_base s4 4096 + 64 * int (dir_len s3 4096) + 64 \<le> x)
           \<longrightarrow> disk s4 x = disk s3 x"
    by blast
  have "0 < dir_len s4 4096" using s4(4) by (auto simp: dir_entries_def dest: arg_cong [where f = length])
  then have b4: "8192 \<le> dir_base s4 4096" using s4(2) by (simp add: dir_ok_def)
  have keep: "rd32 (disk s4) x = rd32 (disk s3) x" if "?p + 8 \<le> x" "x + 4 \<le> ?p + 64" for x
    using that b4 p by (intro rd32_eq_on s4(6) [rule_format]) (auto simp: field_defs)
  have fields: "rd32 (disk s3) (f_mode ?p) = mode" "rd32 (disk s3) (f_size ?p) = 0" "rd32 (disk s3) (f_refs ?p) = 1"
    using ar(5) assms(2) by (simp_all add: s3_def field_defs mem_simps)
  have run: "storage_mknod s (CHR ''/'' # name) mode = Some (0, s4)"
  proof -
    have "get_inode s1 i = Some ?p" using get_inode_ready [of s1 i] ar c(7) by (simp add: inodes_ready_def)
    moreover have "directory_lookup s 4096 name = Some (-2)"
      using directory_lookup_map_of [OF c(1,8)] c(6) by simp
    ultimately show ?thesis
      using a(1) s4(1) p get_inode_root [OF c(7)] path_parts_root [OF c(4,5)]
      by (simp add: storage_mknod_def tree_lookup_stop_early_def tree_lookup_def Let_def access_defs field_defs s3_def)
  qed
  show ?thesis
    using run s4(2,3,4,5) i0 ar(2,3) dir3(1) fields keep [of "?p + 8"] keep [of "?p + 12"]
    by (intro exI [of _ i] exI [of _ s4]) (simp add: field_defs)
qed

section \<open>Unaligned requests\<close>

text \<open>
  After every chunk the buffer pointer moves by a whole page. A loop whose remaining bytes do not fit
  the rest of the buffer therefore runs over its end.
\<close>

lemma read_loop_overflow:
  assumes "layout_ok s p n" and "0 \<le> cur" "cur mod 4096 = 0" "cur < upto_byte" "upto_byte \<le> 4096 * n"
    and "0 \<le> pos" "int (length buf) < pos + (upto_byte - cur)"
  shows "read_loop s p upto_byte cur buf pos = None"
  using assms
proof (induction "nat (upto_byte - cur)" arbitrary: cur pos buf rule: less_induct)
  case less
  have n: "n \<le> 1026" using less.prems(1) by (simp add: layout_ok_def)
  have sz: "size_t cur = cur" using less.prems n by (intro size_t_id) auto
  define fin where "fin = min (cur + 4096) upto_byte"
  have fin: "cur < fin" "fin \<le> upto_byte" using less.prems by (auto simp: fin_def)
  have ce: "chunk_end cur upto_byte = fin"
    using chunk_end_eq [of cur upto_byte] less.prems n by (simp add: fin_def minus_mod_eq_mult_div [symmetric])
  have step: "read_loop s p upto_byte cur buf pos = do {
      data \<leftarrow> block_data s p cur; bs \<leftarrow> load_bytes s data (nat (fin - cur));
      buf' \<leftarrow> buf_put buf pos bs; read_loop s p upto_byte fin buf' (pos + 4096) }"
    using less.prems sz ce fin n by (subst read_loop.simps) simp
  have "read_loop s p upto_byte fin buf' (pos + 4096) = None"
    if "load_bytes s data (nat (fin - cur)) = Some bs" "buf_put buf pos bs = Some buf'" for data bs buf'
  proof -
    have l: "length bs = nat (fin - cur)" using that(1) by (auto simp: load_bytes_def split: if_splits)
    have b: "pos + int (length bs) \<le> int (length buf)" "length buf' = length buf"
      using that(2) less.prems by (auto simp: buf_put_def split: if_splits)
    then have "fin \<noteq> upto_byte" using l fin less.prems by auto
    then have "fin = cur + 4096" "fin < upto_byte" by (auto simp: fin_def)
    then show ?thesis using less.hyps [of fin "pos + 4096" buf'] less.prems b by auto
  qed
  then show ?case unfolding step by (auto split: bind_split)
qed

lemma read_loop_unaligned:
  assumes "layout_ok s p n" and "0 \<le> cur" "cur mod 4096 \<noteq> 0" "cur div 4096 < (upto_byte - 1) div 4096"
    and "upto_byte \<le> 4096 * n" and "int (length buf) = upto_byte - cur"
  shows "read_loop s p upto_byte cur buf 0 = None"
proof -
  define fin where "fin = 4096 * (cur div 4096) + 4096"
  have "4096 * ((upto_byte - 1) div 4096) \<le> upto_byte - 1" by simp
  then have f: "cur < fin" "fin < upto_byte" "fin = cur - cur mod 4096 + 4096" "fin mod 4096 = 0" "0 < fin"
    using assms(2,4) by (auto simp: fin_def minus_mod_eq_mult_div)
  have n: "n \<le> 1026" using assms(1) by (simp add: layout_ok_def)
  have ce: "chunk_end cur upto_byte = fin"
    using chunk_end_eq [of cur upto_byte] f assms n by (simp add: fin_def)
  have step: "read_loop s p upto_byte cur buf 0 = do {
      data \<leftarrow> block_data s p cur; bs \<leftarrow> load_bytes s data (nat (fin - cur));
      buf' \<leftarrow> buf_put buf 0 bs; read_loop s p upto_byte fin buf' 4096 }"
    using assms(2,5) ce f(1,2) n by (subst read_loop.simps) simp
  have "read_loop s p upto_byte fin buf' 4096 = None" if "buf_put buf 0 bs = Some buf'" for bs buf'
  proof (rule read_loop_overflow [OF assms(1)])
    have "length buf' = length buf" using that by (auto simp: buf_put_def split: if_splits)
    moreover have "0 < cur mod 4096" using assms(3) by (simp add: less_le)
    ultimately show "int (length buf') < 4096 + (upto_byte - fin)" using assms(6) f by linarith
  qed (use f assms in auto)
  then show ?thesis unfolding step by (auto split: bind_split)
qed

section \<open>Properties\<close>

lemma storage_init_root:
  "\<exists>s. storage_init (Some []) True True = Some s \<and> inodes_ready s \<and> used_pages s = {0, 1}
     \<and> {j. 0 \<le> j \<and> j < 64 \<and> inode_used s j} = {0} \<and> dir_ok s 4096 \<and> dir_entries s 4096 = []
     \<and> rd32 (disk s) (f_mode 4096) = 16877"
proof -
  obtain s0 where i: "pages_init (Some []) True True = Some s0" "inode_init s0 = Some fresh_fs"
    using init_fresh by (auto simp: Option.bind_eq_Some_conv)
  have no: "\<not> inode_used fresh_fs j" if "0 \<le> j" for j
    using that by (simp add: inode_used_def bm_bit_def fresh_fs_def)
  have ready: "inodes_ready fresh_fs" by (simp add: inodes_ready_def fresh_fs_def)
  obtain g where g: "bitmap_get fresh_fs 32 0 = Some g" "g = 0" using get_inode_bit [of 0 fresh_fs] no by auto
  obtain i s1 where a: "alloc_inode fresh_fs = Some (i, s1)" "alloc_inode_result fresh_fs 0 i s1"
    using alloc_inode_spec [OF ready] by blast
  have "i = 0" using a(2) no [of 0] by (cases "i = 0") (auto simp: alloc_inode_result_def split: if_splits)
  with a(2) have s1: "inodes_base s1 = Some 4096" "\<forall>j. 0 \<le> j \<and> j < 64 \<longrightarrow> inode_used s1 j = (j = 0)"
      "rd32 (disk s1) (f_size 4096) = 0" "\<forall>x. x < 32 \<longrightarrow> disk s1 x = disk fresh_fs x"
    using no by (auto simp: alloc_inode_result_def inode_addr_def fresh_fs_def)
  let ?s = "s1\<lparr>disk := wr32 (disk s1) (f_mode 4096) 16877\<rparr>"
  have run: "storage_init (Some []) True True = Some ?s"
    using i g a(1) \<open>i = 0\<close> s1(1) get_inode_root [of s1]
    by (simp add: storage_init_def inodes_ready_def access_defs field_defs)
  have up: "used_pages ?s = {0, 1}"
    unfolding fresh_used_pages [symmetric] using s1(4) by (intro used_pages_cong) (simp add: wr32_frame field_defs)
  have iu: "{j. 0 \<le> j \<and> j < 64 \<and> inode_used ?s j} = {0}" using s1(2) by (auto simp: inode_used_write field_defs)
  have "rd32 (disk ?s) (f_size 4096) = 0" using s1(3) by (simp add: field_defs mem_simps)
  then have dir: "dir_ok ?s 4096" "dir_entries ?s 4096 = []"
    by (simp_all add: dir_ok_def dir_entries_def dir_len_def is_inode_root)
  have "inodes_ready ?s" "rd32 (disk ?s) (f_mode 4096) = 16877"
    using s1(1) by (simp_all add: inodes_ready_def mem_simps)
  with run up iu dir show ?thesis by (intro exI [of _ ?s] conjI)
qed

text \<open>mounting an empty image succeeds: pages 0 and 1 and inode 0 are the only ones in use, the root
  directory is well formed and empty and has mode 040755.\<close>

theorem storage_init_empty:
  "\<exists>s. storage_init (Some []) True True = Some s \<and> inodes_ready s \<and> used_pages s = {0, 1}
     \<and> {j. 0 \<le> j \<and> j < 64 \<and> inode_used s j} = {0} \<and> dir_ok s 4096 \<and> dir_entries s 4096 = []
     \<and> rd32 (disk s) (f_mode 4096) = 16877"
  using storage_init_root .

text \<open>creating a file in the root directory succeeds when a directory slot and an inode are free: the
  path, which was absent, now leads to an inode that was free, with the given mode and size 0. Its
  reference count is 2 for its one name: \<open>storage_mknod\<close> sets it to 1 and \<open>directory_put\<close> adds 1.\<close>

theorem storage_mknod_correct:
  assumes "can_create s name" and "is_cint mode"
  shows "\<exists>i s'. storage_mknod s (CHR ''/'' # name) mode = Some (0, s') \<and> 0 < i \<and> i < 64 \<and> \<not> inode_used s i
     \<and> tree_lookup s (CHR ''/'' # name) = Some (- ENOENT) \<and> tree_lookup s' (CHR ''/'' # name) = Some i
     \<and> rd32 (disk s') (f_mode (inode_addr i)) = mode \<and> rd32 (disk s') (f_size (inode_addr i)) = 0
     \<and> rd32 (disk s') (f_refs (inode_addr i)) = 2"
proof -
  have c: "inodes_ready s" "dir_ok s 4096" "name \<noteq> []" "CHR ''/'' \<notin> set name" "NUL \<notin> set name"
      "map_of (dir_entries s 4096) name = None"
    using assms(1) by (auto simp: can_create_def put_ok_def)
  obtain i s' where s': "storage_mknod s (CHR ''/'' # name) mode = Some (0, s')" "0 < i" "i < 64" "\<not> inode_used s i"
     "inodes_ready s'" "dir_ok s' 4096" "dir_entries s' 4096 = dir_entries s 4096 @ [(name, i)]"
     "rd32 (disk s') (f_mode (inode_addr i)) = mode" "rd32 (disk s') (f_size (inode_addr i)) = 0"
     "rd32 (disk s') (f_refs (inode_addr i)) = 2"
    using storage_mknod_root [OF assms] by (elim exE conjE) (rule that, assumption+)
  have "tree_lookup s' (CHR ''/'' # name) = Some i"
    using tree_lookup_root [OF s'(5,6) c(3,4,5)] s'(7) c(6) by (simp add: map_add_def)
  moreover have "tree_lookup s (CHR ''/'' # name) = Some (- ENOENT)"
    using tree_lookup_root [OF c(1-5)] c(6) by (simp add: ENOENT_def)
  ultimately show ?thesis using s' by blast
qed

theorem storage_mknod_correct_witness:
  "\<exists>s i s'. storage_init (Some []) True True = Some s \<and> storage_mknod s ''/f'' 33188 = Some (0, s')
     \<and> tree_lookup s' ''/f'' = Some i \<and> rd32 (disk s') (f_mode (inode_addr i)) = 33188"
proof -
  obtain s where s: "storage_init (Some []) True True = Some s" "inodes_ready s" "used_pages s = {0, 1}"
      "{j. 0 \<le> j \<and> j < 64 \<and> inode_used s j} = {0}" "dir_ok s 4096" "dir_entries s 4096 = []"
    using storage_init_root by blast
  have "free_pages s = free_pages fresh_fs" by (simp add: free_pages_def s(3) fresh_used_pages)
  moreover have "0 \<le> x \<and> x < 64 \<and> inode_used s x \<longleftrightarrow> x = 0" for x
    using eqset_imp_iff [OF s(4), of x] by simp
  from this [of 0] this [of 1] have "inode_used s 0" "\<not> inode_used s 1" by simp_all
  moreover have "dir_len s 4096 = 0" using s(6) by (simp add: dir_entries_def)
  ultimately have "can_create s ''f''"
    using s(2,3,5,6) by (auto simp: can_create_def put_ok_def free_pages_fresh intro!: exI [of _ 1])
  then show ?thesis using storage_mknod_correct [of s "''f''" 33188] s(1) by auto
qed

text \<open>C15: what is written to an empty file in the root directory, from its beginning, is read back: \<open>storage_write\<close>
  of any content that fits the free pages returns its length, and \<open>storage_read\<close> into any buffer of that length gives the same
  bytes. The directory is unchanged.\<close>

theorem storage_write_read_roundtrip:
  assumes "root_file s name inum" and "rd32 (disk s) (f_size (inode_addr inum)) = 0"
    and "0 < length buf" "int (length buf) \<le> 4096 * 1026"
    and "grow_cost 0 (bytes_to_pages (int (length buf))) \<le> free_pages s" and "length out = length buf"
  shows "\<exists>s'. storage_write s (CHR ''/'' # name) buf (int (length buf)) 0 = Some (int (length buf), s')
     \<and> storage_read s' (CHR ''/'' # name) out (int (length buf)) 0 = Some (int (length buf), buf)
     \<and> dir_entries s' 4096 = dir_entries s 4096"
proof -
  let ?p = "inode_addr inum" and ?z = "int (length buf)"
  obtain s' where s': "storage_write s (CHR ''/'' # name) buf ?z 0 = Some (?z, s')" "layout_ok s' ?p (bytes_to_pages ?z)"
     "rd32 (disk s') (f_size ?p) = ?z" "\<forall>i. 0 \<le> i \<and> i < ?z \<longrightarrow> fbyte s' ?p i = buf ! nat i"
     "dir_entries s' 4096 = dir_entries s 4096" "root_file s' name inum"
    using storage_write_empty [OF assms(1-5)] by (elim exE conjE) (rule that, assumption+)
  have "map (\<lambda>i. fbyte s' ?p (int i)) [0..<nat ?z] = buf"
    using s'(4) by (intro nth_equalityI) auto
  then have "storage_read s' (CHR ''/'' # name) out ?z 0 = Some (?z, buf)"
    using storage_read_whole [OF s'(6,2,3)] assms(4,6) by simp
  with s' show ?thesis by blast
qed

text \<open>C34: a read that starts inside a page and crosses into the next one runs over the end of the
  caller's buffer, since the buffer pointer moves by 4096 bytes after a first chunk that was shorter.\<close>

theorem storage_read_unaligned_overflows:
  assumes "root_file s name inum" and "layout_ok s (inode_addr inum) (bytes_to_pages nsize)"
    and "rd32 (disk s) (f_size (inode_addr inum)) = nsize" and "nsize \<le> 4096 * 1026"
    and "0 \<le> offset" "offset mod 4096 \<noteq> 0" "offset div 4096 < (offset + sz - 1) div 4096"
    and "offset + sz \<le> nsize" and "int (length buf) = sz"
  shows "storage_read s (CHR ''/'' # name) buf sz offset = None"
proof -
  have "nsize \<le> 4096 * bytes_to_pages nsize" using assms(5,8,9) by (simp add: bytes_to_pages_eq)
  then have "read_loop s (inode_addr inum) (offset + sz) offset buf 0 = None"
    using assms by (intro read_loop_unaligned [OF assms(2)]) auto
  then show ?thesis
    using root_file_lookup [OF assms(1)] assms by (simp add: storage_read_def access_defs field_defs)
qed

text \<open>The image of \<open>one_entry_fs\<close> with the page of its root directory marked as used.\<close>

definition file_fs :: nufs where
  "file_fs = one_entry_fs\<lparr>disk := (disk one_entry_fs)(0 := 7)\<rparr>"

lemma file_fs_file:
  "root_file file_fs ''a'' 1" "rd32 (disk file_fs) (f_size (inode_addr 1)) = 0" "253 \<le> free_pages file_fs"
proof -
  have r: "rd32 (disk file_fs) x = rd32 (disk one_entry_fs) x" if "0 < x" for x
    using that by (intro rd32_eq_on) (simp add: file_fs_def)
  have d: "dir_entries file_fs 4096 = dir_entries one_entry_fs 4096" "dir_ok file_fs 4096"
    using dir_entries_cong [of file_fs 4096 one_entry_fs] one_entry_dir r
    by (auto simp: field_defs file_fs_def)
  have pu: "page_used file_fs j \<longleftrightarrow> j = 0 \<or> j = 1 \<or> j = 2" if j: "0 \<le> j" "j < 256" for j
  proof (cases "j < 8")
    case True
    then have "j \<in> {0,1,2,3,4,5,6,7}" using j by auto
    then show ?thesis by (auto simp: file_fs_def page_used_def bm_bit_def)
  next
    case False
    then have "0 < j div 8" "j div 8 < 32" using j by (simp_all add: pos_imp_zdiv_pos_iff)
    moreover have "disk one_entry_fs x = 0" if "0 < x" "x < 32" for x
      using that by (simp add: one_entry_fs_def fresh_fs_def wr32_frame)
    ultimately show ?thesis using False by (auto simp: file_fs_def page_used_def bm_bit_def)
  qed
  have up: "used_pages file_fs = {0, 1, 2}" using pu by (auto simp: used_pages_def)
  then have "{1..<256} - used_pages file_fs = {3..<256 :: int}" by auto
  then show "253 \<le> free_pages file_fs" by (simp add: free_pages_def)
  have "rd32 (disk file_fs) (f_ptrs 4096 0) = 2" by (simp add: r field_defs one_entry_rd32 mem_simps)
  then show "root_file file_fs ''a'' 1"
    using d up one_entry_dir by (simp add: root_file_def inodes_ready_def) (simp add: file_fs_def one_entry_fs_def fresh_fs_def)
  show "rd32 (disk file_fs) (f_size (inode_addr 1)) = 0"
    by (simp add: r field_defs inode_addr_def one_entry_rd32 mem_simps fresh_rd32)
qed

theorem storage_write_read_roundtrip_witness:
  "\<exists>s'. storage_write file_fs ''/a'' (replicate 5000 7) 5000 0 = Some (5000, s')
      \<and> storage_read s' ''/a'' (replicate 5000 0) 5000 0 = Some (5000, replicate 5000 7)"
  using storage_write_read_roundtrip [of file_fs "''a''" 1 "replicate 5000 7" "replicate 5000 0"] file_fs_file
  by (simp add: bytes_to_pages_eq grow_cost_def) blast

theorem storage_read_unaligned_overflows_witness:
  "\<exists>s'. storage_write file_fs ''/a'' (replicate 5000 7) 5000 0 = Some (5000, s')
      \<and> storage_read s' ''/a'' (replicate 200 0) 200 4000 = None"
proof -
  obtain s' where s': "storage_write file_fs ''/a'' (replicate 5000 7) 5000 0 = Some (5000, s')"
      "layout_ok s' (inode_addr 1) (bytes_to_pages 5000)" "rd32 (disk s') (f_size (inode_addr 1)) = 5000"
      "root_file s' ''a'' 1"
    using storage_write_empty [of file_fs "''a''" 1 "replicate 5000 7"] file_fs_file
    by (simp add: bytes_to_pages_eq grow_cost_def) blast
  then show ?thesis
    using storage_read_unaligned_overflows [OF s'(4,2,3), of 4000 200 "replicate 200 0"] by auto
qed

end
