(* ===== verification/Nufs_Mount.thy ===== *)
theory Nufs_Mount
  imports Nufs_Storage
begin

text \<open>
  The FUSE callbacks of nufs, \<open>hw10/unnas-fshw/nufsmount.c\<close>, on top of the storage layer.

  The calls of the FUSE library's \<open>filler\<close> are the list of names and attributes passed to it.
  \<open>st0\<close> is the content of an uninitialised \<open>struct stat\<close> on the stack, which the code reads
  when the path does not exist; \<open>uid\<close> is the result of \<open>getuid\<close>.
\<close>

definition EACCES :: int where "EACCES = 13"
definition ENOTEMPTY :: int where "ENOTEMPTY = 39"

definition denied :: "int \<Rightarrow> int \<Rightarrow> int \<Rightarrow> int \<Rightarrow> bool" where
  "denied msk want mode perm \<longleftrightarrow> msk AND want \<noteq> 0 \<and> mode AND perm = 0"

definition nufs_access :: "int \<Rightarrow> nufs_stat \<Rightarrow> nufs \<Rightarrow> string \<Rightarrow> int \<Rightarrow> int option" where
  "nufs_access uid st0 s path msk = do {
     (rv, filled) \<leftarrow> storage_stat uid s path;
     let mode = st_mode (case filled of Some st \<Rightarrow> st | None \<Rightarrow> st0);
     Some (if denied msk 4 mode 256 \<or> denied msk 2 mode 128 \<or> denied msk 1 mode 64 \<or> denied msk 1 mode 64
           then - EACCES else rv) }"

definition nufs_getattr :: "int \<Rightarrow> nufs \<Rightarrow> string \<Rightarrow> (int \<times> nufs_stat option) option" where
  "nufs_getattr uid s path = storage_stat uid s path"

fun readdir_children :: "int \<Rightarrow> nufs \<Rightarrow> int \<Rightarrow> slist \<Rightarrow> (string \<times> nufs_stat) list option" where
  "readdir_children uid s node [] = Some []"
| "readdir_children uid s node (cur # next) = do {
     child_num \<leftarrow> directory_lookup s node cur;
     child \<leftarrow> get_inode s child_num;
     st \<leftarrow> inode_copy_stats uid s child;
     more \<leftarrow> readdir_children uid s node next;
     Some ((cur, st) # more) }"

definition nufs_readdir :: "int \<Rightarrow> nufs_stat \<Rightarrow> nufs \<Rightarrow> string \<Rightarrow> (int \<times> (string \<times> nufs_stat) list) option" where
  "nufs_readdir uid st0 s path = do {
     (rv, filled) \<leftarrow> nufs_getattr uid s (dirname path);
     if rv \<noteq> 0 then Some (rv, [])
     else do {
       let parent = (''..'', case filled of Some st \<Rightarrow> st | None \<Rightarrow> st0);
       dirnum \<leftarrow> tree_lookup s path;
       if dirnum < 0 then Some (0, [parent])
       else do {
         node \<leftarrow> get_inode s dirnum;
         st \<leftarrow> inode_copy_stats uid s node;
         entries \<leftarrow> directory_list s path;
         children \<leftarrow> readdir_children uid s node entries;
         Some (0, parent # (''.'', st) # children) } } }"

definition nufs_mknod :: "nufs \<Rightarrow> string \<Rightarrow> int \<Rightarrow> (int \<times> nufs) option" where
  "nufs_mknod s path mode = storage_mknod s path (cint mode)"

definition nufs_mkdir :: "nufs \<Rightarrow> string \<Rightarrow> int \<Rightarrow> (int \<times> nufs) option" where
  "nufs_mkdir s path mode = nufs_mknod s path (16384 + mode mod 10000)"

definition nufs_unlink :: "nufs \<Rightarrow> string \<Rightarrow> (int \<times> nufs) option" where
  "nufs_unlink s path = storage_unlink s path"

definition nufs_link :: "nufs \<Rightarrow> string \<Rightarrow> string \<Rightarrow> (int \<times> nufs) option" where
  "nufs_link s from to = storage_link s from to"

text \<open>The code computes \<open>-ENOTEMPTY\<close> for its log line only, and returns 0.\<close>

definition nufs_rmdir :: "nufs \<Rightarrow> string \<Rightarrow> (int \<times> nufs) option" where
  "nufs_rmdir s path = do {
     inum \<leftarrow> tree_lookup s path;
     if inum < 0 then Some (inum, s)
     else do {
       lst \<leftarrow> directory_list s path;
       let rv = (if lst \<noteq> [] then - ENOTEMPTY else 0);
       Some (0, s) } }"

definition nufs_rename :: "nufs \<Rightarrow> string \<Rightarrow> string \<Rightarrow> (int \<times> nufs) option" where
  "nufs_rename s from to = storage_rename s from to"

definition nufs_chmod :: "nufs \<Rightarrow> string \<Rightarrow> int \<Rightarrow> (int \<times> nufs) option" where
  "nufs_chmod s path mode = Some (-1, s)"

definition nufs_truncate :: "nufs \<Rightarrow> string \<Rightarrow> int \<Rightarrow> (int \<times> nufs) option" where
  "nufs_truncate s path sz = storage_truncate s path sz"

definition nufs_open :: "int \<Rightarrow> nufs_stat \<Rightarrow> nufs \<Rightarrow> string \<Rightarrow> int option" where
  "nufs_open uid st0 s path = nufs_access uid st0 s path 0"

definition nufs_read :: "nufs \<Rightarrow> string \<Rightarrow> byte list \<Rightarrow> int \<Rightarrow> int \<Rightarrow> (int \<times> byte list) option" where
  "nufs_read s path buf sz offset = storage_read s path buf sz offset"

definition nufs_write :: "nufs \<Rightarrow> string \<Rightarrow> byte list \<Rightarrow> int \<Rightarrow> int \<Rightarrow> (int \<times> nufs) option" where
  "nufs_write s path buf sz offset = storage_write s path buf sz offset"

definition nufs_utimens :: "nufs \<Rightarrow> string \<Rightarrow> byte list \<Rightarrow> (int \<times> nufs) option" where
  "nufs_utimens s path ts = storage_set_time s path ts"

definition nufs_ioctl :: "nufs \<Rightarrow> string \<Rightarrow> int \<Rightarrow> (int \<times> nufs) option" where
  "nufs_ioctl s path cmd = Some (-1, s)"

definition nufs_main :: "int \<Rightarrow> byte list option \<Rightarrow> bool \<Rightarrow> bool \<Rightarrow> nufs option" where
  "nufs_main argc open_file trunc_ok map_ok =
     (if argc > 2 \<and> argc < 6 then storage_init open_file trunc_ok map_ok else None)"

section \<open>Properties\<close>

text \<open>\<open>nufs_open\<close> succeeds exactly on the paths that exist: for a file or directory of the root it
  answers 0, and for an absent name -ENOENT, whatever the uninitialised status buffer holds.\<close>

theorem nufs_open_root:
  assumes "inodes_ready s" and "dir_ok s 4096" and "name \<noteq> []" "CHR ''/'' \<notin> set name" "NUL \<notin> set name"
    and "\<forall>i. map_of (dir_entries s 4096) name = Some i \<longrightarrow> 0 \<le> i \<and> i < 64"
  shows "nufs_open uid st0 s (CHR ''/'' # name) =
           Some (if name \<in> fst ` set (dir_entries s 4096) then 0 else - ENOENT)"
proof (cases "map_of (dir_entries s 4096) name")
  case None
  then have "name \<notin> fst ` set (dir_entries s 4096)" by (simp add: map_of_eq_None_iff)
  with None show ?thesis
    using tree_lookup_root [OF assms(1-5)]
    by (simp add: nufs_open_def nufs_access_def storage_stat_def denied_def ENOENT_def)
next
  case (Some i)
  then have i: "0 \<le> i" "i < 64" using assms(6) by auto
  have "name \<in> fst ` set (dir_entries s 4096)" using map_of_SomeD [OF Some] by force
  moreover have "get_inode s i = Some (inode_addr i)" using get_inode_ready [OF assms(1), of i] i by simp
  moreover have "\<exists>st. inode_copy_stats uid s (inode_addr i) = Some st"
    using i by (auto simp: inode_copy_stats_def load_bytes_def access_defs field_defs inode_addr_def)
  ultimately show ?thesis
    using tree_lookup_root [OF assms(1-5)] Some i
    by (auto simp: nufs_open_def nufs_access_def storage_stat_def denied_def)
qed

theorem nufs_open_root_witness:
  "\<exists>st0. nufs_open 0 st0 one_entry_fs ''/a'' = Some 0 \<and> nufs_open 0 st0 one_entry_fs ''/b'' = Some (- ENOENT)"
proof -
  have "inodes_ready one_entry_fs" by (simp add: inodes_ready_def one_entry_fs_def fresh_fs_def)
  then show ?thesis
    using nufs_open_root [of one_entry_fs "''a''" 0] nufs_open_root [of one_entry_fs "''b''" 0]
    by (simp add: one_entry_dir)
qed

end
