(* ===== verification/Free_List.thy ===== *)
theory Free_List
  imports Prelude
begin

text \<open>
  The coalescing free list shared by three of the allocators: \<open>cell_insert_block\<close> and
  \<open>xmallocHlp_get_free_block\<close> of \<open>hw08/unnas-hw08\<close> and \<open>llist_insert\<close> and
  \<open>xmallocHlp_get_free_block\<close> of \<open>ch02/challenge02/hwx_malloc.c\<close> and \<open>opt_malloc.c\<close>. They
  differ only in the offset \<open>lo\<close> of the link field in a list node (16 behind an \<open>item\<close> field
  in hw08, 8 in ch02), so the functions take it as a parameter.

  The nodes live in the memory they manage: a free block holds its size at offset 0 and the
  address of the next block at offset \<open>lo\<close>. Pointers are integers and 0 is \<open>NULL\<close>. The
  abstract value of a list is a list of pairs (address, size); \<open>gapped\<close> says that it is sorted
  by address with a gap between any two blocks, so that no two of them could be joined.
\<close>

section \<open>The operations\<close>

partial_function (option) insert_block :: "int \<Rightarrow> mem \<Rightarrow> int \<Rightarrow> int \<Rightarrow> (int \<times> mem) option" where
  "insert_block lo m to_insert list_head =
     (if list_head = 0 then Some (to_insert, wr64 m (to_insert + lo) 0)
      else if to_insert < list_head then
        (if to_insert + rd64 m to_insert = list_head then
           let m1 = wr64 m to_insert (rd64 m to_insert + rd64 m list_head)
           in Some (to_insert, wr64 m1 (to_insert + lo) (rd64 m1 (list_head + lo)))
         else Some (to_insert, wr64 m (to_insert + lo) list_head))
      else if list_head + rd64 m list_head = to_insert then
        let m1 = wr64 m list_head (rd64 m list_head + rd64 m to_insert)
        in insert_block lo m1 list_head (rd64 m1 (list_head + lo))
      else do {
        (r, m1) \<leftarrow> insert_block lo m to_insert (rd64 m (list_head + lo));
        Some (list_head, wr64 m1 (list_head + lo) r) })"

text \<open>The do-while loop of \<open>xmallocHlp_get_free_block\<close> with the unlinking behind it.\<close>

partial_function (option) unlink_fit :: "int \<Rightarrow> mem \<Rightarrow> int \<Rightarrow> int \<Rightarrow> (int \<times> mem) option" where
  "unlink_fit lo m min_size pp =
     (let nn = rd64 m (pp + lo)
      in if nn \<noteq> 0 \<and> rd64 m nn < min_size then unlink_fit lo m min_size nn
         else if nn \<noteq> 0 then Some (nn, wr64 m (pp + lo) (rd64 m (nn + lo)))
         else Some (nn, m))"

text \<open>The result is the block (0 for none), the new head of the list and the memory.\<close>

definition take_fit :: "int \<Rightarrow> mem \<Rightarrow> int \<Rightarrow> int \<Rightarrow> (int \<times> int \<times> mem) option" where
  "take_fit lo m list_head min_size =
     (if list_head = 0 then Some (0, list_head, m)
      else if rd64 m list_head \<ge> min_size then Some (list_head, rd64 m (list_head + lo), m)
      else do {
        (nn, m') \<leftarrow> unlink_fit lo m min_size list_head;
        Some (nn, list_head, m') })"

partial_function (option) list_length :: "int \<Rightarrow> mem \<Rightarrow> int \<Rightarrow> int \<Rightarrow> int option" where
  "list_length lo m xs nn = (if xs = 0 then Some nn else list_length lo m (rd64 m (xs + lo)) (nn + 1))"

definition div_up :: "int \<Rightarrow> int \<Rightarrow> int" where
  "div_up xx yy = (let zz = xx div yy in if zz * yy = xx then zz else zz + 1)"

section \<open>Abstract lists of blocks\<close>

type_synonym block = "int \<times> int"

fun cover :: "block list \<Rightarrow> int set" where
  "cover [] = {}"
| "cover ((a, n) # xs) = {a..<a + n} \<union> cover xs"

fun gapped :: "int \<Rightarrow> int \<Rightarrow> block list \<Rightarrow> bool" where
  "gapped lo lb [] = True"
| "gapped lo lb ((a, n) # xs) =
     (lb < a \<and> lo + 8 \<le> n \<and> a + n < 18446744073709551616 \<and> gapped lo (a + n) xs)"

fun chain :: "int \<Rightarrow> mem \<Rightarrow> int \<Rightarrow> block list \<Rightarrow> bool" where
  "chain lo m h [] = (h = 0)"
| "chain lo m h ((a, n) # xs) = (h = a \<and> rd64 m a = n \<and> chain lo m (rd64 m (a + lo)) xs)"

fun ins :: "block \<Rightarrow> block list \<Rightarrow> block list" where
  "ins (a, n) [] = [(a, n)]"
| "ins (a, n) ((b, k) # xs) =
     (if a < b then (if a + n = b then (a, n + k) # xs else (a, n) # (b, k) # xs)
      else if b + k = a then ins (b, k + n) xs
      else (b, k) # ins (a, n) xs)"

fun first_fit :: "int \<Rightarrow> block list \<Rightarrow> (block \<times> block list) option" where
  "first_fit k [] = None"
| "first_fit k ((a, n) # xs) =
     (if n < k then map_option (\<lambda>(b, ys). (b, (a, n) # ys)) (first_fit k xs) else Some ((a, n), xs))"

lemma cover_append [simp]: "cover (xs @ ys) = cover xs \<union> cover ys"
  by (induction xs rule: cover.induct) auto

lemma gapped_above: "gapped lo lb xs \<Longrightarrow> 0 \<le> lo \<Longrightarrow> x \<in> cover xs \<Longrightarrow> lb < x"
  by (induction lo lb xs rule: gapped.induct) fastforce+

lemma gapped_mono: "gapped lo lb xs \<Longrightarrow> lb' \<le> lb \<Longrightarrow> gapped lo lb' xs"
  by (cases xs) auto

lemma gapped_last: "gapped lo lb xs \<Longrightarrow> x \<in> cover xs \<Longrightarrow> x < 18446744073709551616"
  by (induction lo lb xs rule: gapped.induct) fastforce+

lemma disjoint_after:
  fixes a b n k :: int
  assumes "{a..<a + n} \<inter> {b..<b + k} = {}" and "0 < n" and "\<not> a < b"
  shows "b + k \<le> a"
proof (rule ccontr)
  assume "\<not> b + k \<le> a"
  with assms(2,3) have "a \<in> {a..<a + n} \<inter> {b..<b + k}" by simp
  with assms(1) show False by blast
qed

lemma interval_join:
  fixes a n k :: int
  shows "0 \<le> n \<Longrightarrow> 0 \<le> k \<Longrightarrow> {a..<a + (n + k)} = {a..<a + n} \<union> {a + n..<a + n + k}"
  by auto

lemma join_disjoint:
  assumes "gapped lo (b + k) xs" and "0 \<le> lo" and "{b + k..<b + k + n} \<inter> cover xs = {}"
  shows "{b..<b + (k + n)} \<inter> cover xs = {}"
proof -
  have "x \<notin> {b..<b + (k + n)}" if "x \<in> cover xs" for x
    using gapped_above [OF assms(1,2) that] assms(3) that by (auto simp: disjoint_iff)
  then show ?thesis by blast
qed

text \<open>
  Inserting a block that overlaps none of the list keeps the list sorted and coalesced, and
  the bytes it covers are the old ones and the new block's.
\<close>

lemma cover_ins:
  "gapped lo lb xs \<Longrightarrow> 0 \<le> lo \<Longrightarrow> 0 < n \<Longrightarrow> {a..<a + n} \<inter> cover xs = {} \<Longrightarrow>
   cover (ins (a, n) xs) = {a..<a + n} \<union> cover xs"
proof (induction "(a, n)" xs arbitrary: a n lb rule: ins.induct)
  case (2 a n b k xs)
  have bk: "lb < b" "lo + 8 \<le> k" "gapped lo (b + k) xs" using "2.prems"(1) by auto
  have dis: "{a..<a + n} \<inter> {b..<b + k} = {}" "{a..<a + n} \<inter> cover xs = {}" using "2.prems"(4) unfolding cover.simps by blast+
  show ?case
  proof (cases "a < b")
    case True
    then show ?thesis
      using interval_join [of n k a] "2.prems"(2,3) bk by (cases "a + n = b") (simp_all add: Un_assoc)
  next
    case False
    then have ge: "b + k \<le> a" using disjoint_after [OF dis(1)] "2.prems"(3) by blast
    show ?thesis
    proof (cases "b + k = a")
      case t: True
      have "{b..<b + (k + n)} \<inter> cover xs = {}"
        using join_disjoint [OF bk(3) "2.prems"(2), of n] dis(2) t by simp
      then have "cover (ins (b, k + n) xs) = {b..<b + (k + n)} \<union> cover xs"
        using "2.hyps"(1) [OF False t bk(3)] "2.prems" bk by simp
      then show ?thesis
        using False t interval_join [of k n b] "2.prems"(2,3) bk(2) by (simp add: Un_ac)
    next
      case f: False
      with False ge show ?thesis using "2.hyps"(2) [OF False f bk(3) "2.prems"(2,3) dis(2)] by (simp add: Un_ac)
    qed
  qed
qed simp

lemma gapped_ins:
  "gapped lo lb xs \<Longrightarrow> 0 \<le> lo \<Longrightarrow> lb < a \<Longrightarrow> lo + 8 \<le> n \<Longrightarrow> a + n < 18446744073709551616 \<Longrightarrow>
   {a..<a + n} \<inter> cover xs = {} \<Longrightarrow> gapped lo lb (ins (a, n) xs)"
proof (induction "(a, n)" xs arbitrary: a n lb rule: ins.induct)
  case (2 a n b k xs)
  have bk: "lb < b" "lo + 8 \<le> k" "b + k < 18446744073709551616" "gapped lo (b + k) xs" using "2.prems"(1) by auto
  have dis: "{a..<a + n} \<inter> {b..<b + k} = {}" "{a..<a + n} \<inter> cover xs = {}" using "2.prems"(6) unfolding cover.simps by blast+
  show ?case
  proof (cases "a < b")
    case True
    then have "a + n \<le> b" using disjoint_after [of b k a n] dis(1) bk "2.prems"(2) by (simp add: Int_commute)
    with True show ?thesis using "2.prems" bk by (auto intro: gapped_mono)
  next
    case False
    then have ge: "b + k \<le> a" using disjoint_after [OF dis(1)] "2.prems"(2,4) by simp
    show ?thesis
    proof (cases "b + k = a")
      case t: True
      have "{b..<b + (k + n)} \<inter> cover xs = {}"
        using join_disjoint [OF bk(4) "2.prems"(2), of n] dis(2) t by simp
      then have "gapped lo lb (ins (b, k + n) xs)"
        using "2.hyps"(1) [OF False t gapped_mono [OF bk(4)], of lb] "2.prems" bk t by simp
      with False t show ?thesis by simp
    next
      case f: False
      have "gapped lo (b + k) (ins (a, n) xs)"
        using "2.hyps"(2) [OF False f bk(4)] "2.prems" dis ge f by simp
      with False f bk show ?thesis by simp
    qed
  qed
qed simp

section \<open>Refinement\<close>

lemma chain_cong:
  "gapped lo lb xs \<Longrightarrow> 0 \<le> lo \<Longrightarrow> (\<And>x. x \<in> cover xs \<Longrightarrow> m' x = m x) \<Longrightarrow> chain lo m' h xs = chain lo m h xs"
proof (induction xs arbitrary: h lb)
  case (Cons b xs)
  obtain a n where b: "b = (a, n)" by (cases b)
  have n: "lo + 8 \<le> n" "gapped lo (a + n) xs" using Cons.prems(1) by (auto simp: b)
  have "rd64 m' a = rd64 m a" "rd64 m' (a + lo) = rd64 m (a + lo)"
    using n Cons.prems(2) by (auto intro!: rd64_eq_on Cons.prems(3) simp: b)
  moreover have "chain lo m' h' xs = chain lo m h' xs" for h'
    using Cons.IH [OF n(2) Cons.prems(2)] Cons.prems(3) by (auto simp: b)
  ultimately show ?case by (simp add: b)
qed simp

lemma insert_block_refines:
  assumes "gapped lo lb xs" and "0 \<le> lb" "8 \<le> lo" and "chain lo m h xs" and "rd64 m a = n"
    and "lb < a" "lo + 8 \<le> n" "a + n < 18446744073709551616" and "{a..<a + n} \<inter> cover xs = {}"
  shows "\<exists>h' m'. insert_block lo m a h = Some (h', m') \<and> chain lo m' h' (ins (a, n) xs)
           \<and> (\<forall>x. x \<notin> cover xs \<and> x \<notin> {a..<a + n} \<longrightarrow> m' x = m x)"
  using assms
proof (induction "(a, n)" xs arbitrary: a n lb m h rule: ins.induct)
  case (1 a n)
  have "rd64 (wr64 m (a + lo) 0) a = n" using 1 by (simp add: mem_simps)
  with 1 show ?case by (subst insert_block.simps) (auto simp: mem_simps wr64_frame)
next
  case (2 a n b k xs)
  note prems = "2.prems"
  have bk: "lb < b" "lo + 8 \<le> k" "b + k < 18446744073709551616" "gapped lo (b + k) xs" using prems(1) by auto
  have c: "h = b" "rd64 m b = k" "chain lo m (rd64 m (b + lo)) xs" using prems(4) by auto
  have b0: "b \<noteq> 0" using bk prems by simp
  have dis: "{a..<a + n} \<inter> {b..<b + k} = {}" "{a..<a + n} \<inter> cover xs = {}" using prems(9) unfolding cover.simps by blast+
  have above: "b + k < x" if "x \<in> cover xs" for x using gapped_above [OF bk(4)] prems(3) that by simp
  have lo0: "0 \<le> lo" using prems(3) by simp
  show ?case
  proof (cases "a < b")
    case True
    then have anb: "a + n \<le> b" using disjoint_after [of b k a n] dis(1) bk prems by (simp add: Int_commute)
    show ?thesis
    proof (cases "a + n = b")
      case t: True
      define m2 where "m2 = wr64 (wr64 m a (n + k)) (a + lo) (rd64 m (b + lo))"
      have r: "rd64 (wr64 m a (n + k)) (b + lo) = rd64 m (b + lo)" using t prems by (simp add: mem_simps)
      have run: "insert_block lo m a h = Some (a, m2)"
        using True t c prems b0 r by (subst insert_block.simps) (simp add: m2_def)
      have out: "m2 x = m x" if "x \<notin> {a..<a + n}" for x using that prems by (auto simp: m2_def wr64_frame)
      have "chain lo m2 (rd64 m (b + lo)) xs = chain lo m (rd64 m (b + lo)) xs"
        using above t by (intro chain_cong [OF bk(4) lo0] out) (use bk prems(3) in fastforce)
      moreover have "rd64 m2 a = n + k" "rd64 m2 (a + lo) = rd64 m (b + lo)"
        using prems bk t rd64_range [of m "b + lo"] by (simp_all add: m2_def mem_simps)
      ultimately show ?thesis using run out True t c by auto
    next
      case f: False
      define m2 where "m2 = wr64 m (a + lo) b"
      have run: "insert_block lo m a h = Some (a, m2)"
        using True f c prems b0 by (subst insert_block.simps) (simp add: m2_def)
      have out: "m2 x = m x" if "x \<notin> {a..<a + n}" for x using that prems by (auto simp: m2_def wr64_frame)
      have "chain lo m2 b ((b, k) # xs) = chain lo m b ((b, k) # xs)"
      proof (rule chain_cong [OF prems(1) lo0])
        fix x assume "x \<in> cover ((b, k) # xs)"
        then show "m2 x = m x" using prems(9) by (intro out) blast
      qed
      moreover have "rd64 m2 a = n" "rd64 m2 (a + lo) = b"
        using prems bk by (simp_all add: m2_def mem_simps)
      ultimately show ?thesis using run out True f c by auto
    qed
  next
    case False
    then have ge: "b + k \<le> a" using disjoint_after [OF dis(1)] prems by simp
    show ?thesis
    proof (cases "b + k = a")
      case t: True
      define m1 where "m1 = wr64 m b (k + n)"
      have out1: "m1 x = m x" if "x \<notin> {b..<b + k}" for x using that bk prems by (auto simp: m1_def wr64_frame)
      have nx: "rd64 m1 (b + lo) = rd64 m (b + lo)" using prems by (simp add: m1_def mem_simps)
      have r1: "rd64 m1 b = k + n" using bk prems t by (simp add: m1_def mem_simps)
      have ch: "chain lo m1 (rd64 m1 (b + lo)) xs"
        unfolding nx using c(3) chain_cong [OF bk(4) lo0, of m1 m] out1 above by force
      have dj: "{b..<b + (k + n)} \<inter> cover xs = {}" using join_disjoint [OF bk(4) lo0, of n] dis(2) t by simp
      have g: "gapped lo lb xs" using gapped_mono [OF bk(4), of lb] bk(1,2) lo0 by simp
      obtain h' m' where IH: "insert_block lo m1 b (rd64 m1 (b + lo)) = Some (h', m')"
          "chain lo m' h' (ins (b, k + n) xs)"
          "\<forall>x. x \<notin> cover xs \<and> x \<notin> {b..<b + (k + n)} \<longrightarrow> m' x = m1 x"
        using "2.hyps"(1) [OF False t g prems(2,3) ch r1 bk(1) _ _ dj] bk prems t by auto
      have run: "insert_block lo m a h = Some (h', m')"
        using False t c prems b0 IH(1) by (subst insert_block.simps) (simp add: m1_def)
      have "m' x = m x" if "x \<notin> cover ((b, k) # xs) \<and> x \<notin> {a..<a + n}" for x
        using that IH(3) out1 [of x] t by auto
      with run IH(2) False t show ?thesis by (intro exI [of _ h'] exI [of _ m']) simp
    next
      case f: False
      obtain h' m1 where IH: "insert_block lo m a (rd64 m (b + lo)) = Some (h', m1)"
          "chain lo m1 h' (ins (a, n) xs)" "\<forall>x. x \<notin> cover xs \<and> x \<notin> {a..<a + n} \<longrightarrow> m1 x = m x"
        using "2.hyps"(2) [OF False f bk(4) _ prems(3) c(3) prems(5) _ prems(7,8) dis(2)] bk prems ge f by auto
      define m2 where "m2 = wr64 m1 (b + lo) h'"
      have run: "insert_block lo m a h = Some (b, m2)"
        using False f c prems b0 IH(1) by (subst insert_block.simps) (simp add: m2_def)
      have out: "m2 x = m1 x" if "x \<notin> {b..<b + k}" for x using that bk prems by (auto simp: m2_def wr64_frame)
      have cov: "cover (ins (a, n) xs) = {a..<a + n} \<union> cover xs"
        using cover_ins [OF bk(4) lo0] prems dis by simp
      have gi: "gapped lo (b + k) (ins (a, n) xs)" using gapped_ins [OF bk(4) lo0] prems dis ge f by simp
      have "chain lo m2 h' (ins (a, n) xs) = chain lo m1 h' (ins (a, n) xs)"
        using ge above by (intro chain_cong [OF gi lo0] out) (fastforce simp: cov)
      moreover have "rd64 m2 b = k"
      proof -
        have "rd64 m2 b = rd64 m1 b" using prems by (simp add: m2_def mem_simps)
        also have "\<dots> = rd64 m b"
          using above ge bk prems by (intro rd64_eq_on IH(3) [rule_format]) fastforce
        finally show ?thesis using c by simp
      qed
      moreover have "rd64 m2 (b + lo) = h'"
      proof -
        have "h' = 0 \<or> h' \<in> cover (ins (a, n) xs)"
          using IH(2) gi prems(3) by (cases "ins (a, n) xs") fastforce+
        then have "0 \<le> h' \<and> h' < 18446744073709551616"
          using gapped_above [OF gi lo0, of h'] gapped_last [OF gi, of h'] bk prems by auto
        then show ?thesis by (simp add: m2_def mem_simps)
      qed
      ultimately show ?thesis using run IH out False f by auto
    qed
  qed
qed

text \<open>The block taken out: big enough, its bytes leave the list, and the rest stays in order.\<close>

lemma first_fit_Some:
  assumes "first_fit k xs = Some ((b, n), ys)" and "gapped lo lb xs" and "0 \<le> lo"
  shows "k \<le> n \<and> lo + 8 \<le> n \<and> lb < b \<and> b + n < 18446744073709551616 \<and> gapped lo lb ys
     \<and> cover xs = {b..<b + n} \<union> cover ys \<and> {b..<b + n} \<inter> cover ys = {}"
  using assms
proof (induction xs arbitrary: lb ys)
  case (Cons c xs)
  obtain a m where c: "c = (a, m)" by (cases c)
  have g: "lb < a" "lo + 8 \<le> m" "a + m < 18446744073709551616" "gapped lo (a + m) xs"
    using Cons.prems(2) by (auto simp: c)
  show ?case
  proof (cases "m < k")
    case False
    then have "b = a" "n = m" "ys = xs" using Cons.prems(1) by (auto simp: c)
    moreover have "{a..<a + m} \<inter> cover xs = {}" using gapped_above [OF g(4) assms(3)] by fastforce
    ultimately show ?thesis
      using g False gapped_mono [OF g(4), of lb] assms(3) by (auto simp: c)
  next
    case True
    then obtain zs where zs: "first_fit k xs = Some ((b, n), zs)" "ys = (a, m) # zs"
      using Cons.prems(1) by (auto simp: c)
    note IH = Cons.IH [OF zs(1) g(4) assms(3)]
    have "x \<notin> {a..<a + m}" if "x \<in> {b..<b + n}" for x using that IH by auto
    with IH g assms(3) show ?thesis by (auto simp: c zs(2))
  qed
qed simp

lemma unlink_fit_refines:
  assumes "gapped lo lb ((a, k) # xs)" and "0 \<le> lb" "8 \<le> lo" and "chain lo m a ((a, k) # xs)"
  shows "case first_fit min_size xs of
      None \<Rightarrow> unlink_fit lo m min_size a = Some (0, m)
    | Some ((b, n), ys) \<Rightarrow> \<exists>m'. unlink_fit lo m min_size a = Some (b, m') \<and> chain lo m' a ((a, k) # ys)
         \<and> (\<forall>x. x \<notin> cover ((a, k) # ys) \<longrightarrow> m' x = m x)"
  using assms
proof (induction xs arbitrary: a k lb)
  case Nil
  then show ?case by (subst unlink_fit.simps) simp
next
  case (Cons c xs)
  obtain b n where c: "c = (b, n)" by (cases c)
  have g: "lb < a" "lo + 8 \<le> k" "a + k < b" "lo + 8 \<le> n" "b + n < 18446744073709551616" "gapped lo (b + n) xs"
    using Cons.prems(1) by (auto simp: c)
  have ch: "rd64 m a = k" "rd64 m (a + lo) = b" "rd64 m b = n" "chain lo m (rd64 m (b + lo)) xs"
    using Cons.prems(4) by (auto simp: c)
  have b0: "b \<noteq> 0" "0 \<le> lo" using g Cons.prems by auto
  have gb: "gapped lo (a + k) ((b, n) # xs)" and chb: "chain lo m b ((b, n) # xs)" using g ch by auto
  show ?case
  proof (cases "n < min_size")
    case True
    have step: "unlink_fit lo m min_size a = unlink_fit lo m min_size b"
      using True ch b0 by (subst unlink_fit.simps) simp
    note IH = Cons.IH [OF gb _ Cons.prems(3) chb]
    have ak: "0 \<le> a + k" using g Cons.prems by simp
    show ?thesis
    proof (cases "first_fit min_size xs")
      case None
      with IH [OF ak] show ?thesis by (simp add: c True step)
    next
      case (Some r)
      obtain d l ys where r: "r = ((d, l), ys)" by (cases r) auto
      obtain m' where m': "unlink_fit lo m min_size b = Some (d, m')" "chain lo m' b ((b, n) # ys)"
          "\<forall>x. x \<notin> cover ((b, n) # ys) \<longrightarrow> m' x = m x"
        using IH [OF ak] by (auto simp: Some r)
      have ff: "first_fit min_size ((b, n) # xs) = Some ((d, l), (b, n) # ys)" using True Some r by simp
      note fs = first_fit_Some [OF ff gb b0(2)]
      have out: "m' x = m x" if "x < a + k" for x
      proof -
        have "x \<notin> cover ((b, n) # ys)" using fs that gapped_above [of lo "a + k" "(b, n) # ys" x] b0(2) by auto
        with m'(3) show ?thesis by blast
      qed
      have "rd64 m' a = rd64 m a" "rd64 m' (a + lo) = rd64 m (a + lo)"
        using g b0 by (auto intro!: rd64_eq_on out)
      with ch(1,2) m'(2) have "chain lo m' a ((a, k) # (b, n) # ys)" by simp
      moreover have "\<forall>x. x \<notin> cover ((a, k) # (b, n) # ys) \<longrightarrow> m' x = m x" using m'(3) by simp
      ultimately show ?thesis
        unfolding c ff step option.case prod.case using m'(1) by (intro exI [of _ m'] conjI)
    qed
  next
    case False
    define m' where "m' = wr64 m (a + lo) (rd64 m (b + lo))"
    have run: "unlink_fit lo m min_size a = Some (b, m')"
      using False ch b0 by (subst unlink_fit.simps) (simp add: m'_def)
    have out: "m' x = m x" if "x \<notin> {a..<a + k}" for x using that g b0 by (auto simp: m'_def wr64_frame)
    have "chain lo m' h xs = chain lo m h xs" for h
    proof (rule chain_cong [OF g(6) b0(2)])
      fix x assume "x \<in> cover xs"
      then have "b + n < x" using gapped_above [OF g(6) b0(2)] by simp
      then show "m' x = m x" using g b0 by (intro out) simp
    qed
    moreover have "rd64 m' a = k" "rd64 m' (a + lo) = rd64 m (b + lo)"
      using ch Cons.prems(3) rd64_range [of m "b + lo"] by (simp_all add: m'_def mem_simps)
    ultimately show ?thesis using run out ch False by (auto simp: c)
  qed
qed

text \<open>
  \<open>xmallocHlp_get_free_block\<close>: the first block of at least the size asked for leaves the list,
  its own bytes untouched, or there is none and nothing changes.
\<close>

lemma take_fit_refines:
  assumes "gapped lo 0 xs" and "8 \<le> lo" and "chain lo m h xs"
  shows "case first_fit min_size xs of
      None \<Rightarrow> take_fit lo m h min_size = Some (0, h, m)
    | Some ((b, n), ys) \<Rightarrow> \<exists>h' m'. take_fit lo m h min_size = Some (b, h', m') \<and> chain lo m' h' ys
         \<and> (\<forall>x. x \<notin> cover ys \<longrightarrow> m' x = m x)"
proof (cases xs)
  case Nil
  with assms show ?thesis by (simp add: take_fit_def)
next
  case (Cons c zs)
  obtain a k where c: "c = (a, k)" by (cases c)
  have ch: "h = a" "rd64 m a = k" "a \<noteq> 0" using assms by (auto simp: Cons c)
  show ?thesis
  proof (cases "k < min_size")
    case False
    with ch assms(3) show ?thesis by (simp add: Cons c take_fit_def)
  next
    case True
    have "chain lo m a ((a, k) # zs)" "gapped lo 0 ((a, k) # zs)" using assms ch by (auto simp: Cons c)
    from unlink_fit_refines [OF this(2) _ assms(2) this(1), of min_size]
    show ?thesis using True ch by (auto simp: Cons c take_fit_def split: option.splits)
  qed
qed

section \<open>Small allocations\<close>

text \<open>
  The part of \<open>xmalloc\<close> for requests below a page: a block from the list or else a fresh page
  from \<open>mmap\<close> at address \<open>fresh\<close> (whose bytes are zero), and the rest of the block back on
  the list when a list node fits into it. The result is the start and size of the block, the
  number of pages mapped, the head of the list and the memory.
\<close>

text \<open>
  \<open>mmap\<close> reports a failure with \<open>MAP_FAILED\<close>, the address -1. The callers only assert that the
  address is not 0, so they go on and store the size at -1 or, wrapped around, in the first page,
  and neither is mapped: the program ends there as it does at a failed assertion.
\<close>

definition MAP_FAILED :: int where "MAP_FAILED = - 1"

definition no_map :: "int \<Rightarrow> bool" where
  "no_map a \<longleftrightarrow> a = 0 \<or> a = MAP_FAILED"

definition map_zero :: "mem \<Rightarrow> int \<Rightarrow> int \<Rightarrow> mem" where
  "map_zero m a n = (\<lambda>x. if a \<le> x \<and> x < a + n then 0 else m x)"

definition alloc_small :: "int \<Rightarrow> int \<Rightarrow> int \<Rightarrow> mem \<Rightarrow> int \<Rightarrow> (int \<times> int \<times> int \<times> int \<times> mem) option" where
  "alloc_small lo fresh sz m head = do {
     (node, head1, m1) \<leftarrow> take_fit lo m head sz;
     (bstart, bsize, mapped, m2) \<leftarrow>
       (if node \<noteq> 0 then Some (node, rd64 m1 node, 0, m1)
        else if no_map fresh then None
        else Some (fresh, 4096, 1, map_zero m1 fresh 4096));
     if size_t (bsize - sz) > lo + 8 then do {
       let m3 = wr64 m2 (bstart + sz) (bsize - sz);
       (head2, m4) \<leftarrow> insert_block lo m3 (bstart + sz) head1;
       Some (bstart, sz, mapped, head2, m4) }
     else Some (bstart, bsize, mapped, head1, m2) }"

text \<open>The free list of a heap: sorted, coalesced and laid out in memory from its head.\<close>

definition heap_list :: "int \<Rightarrow> mem \<Rightarrow> int \<Rightarrow> block list \<Rightarrow> bool" where
  "heap_list lo m h xs \<longleftrightarrow> gapped lo 0 xs \<and> chain lo m h xs"

definition fresh_page :: "int \<Rightarrow> block list \<Rightarrow> bool" where
  "fresh_page a xs \<longleftrightarrow> 0 < a \<and> a + 4096 < 18446744073709551616 \<and> {a..<a + 4096} \<inter> cover xs = {}"

text \<open>The bytes a small request of \<open>sz\<close> adds to the heap: none, or the new page.\<close>

definition new_bytes :: "int \<Rightarrow> int \<Rightarrow> block list \<Rightarrow> int set" where
  "new_bytes fresh sz xs = (if first_fit sz xs = None then {fresh..<fresh + 4096} else {})"

definition block_at :: "int \<Rightarrow> int \<Rightarrow> block list \<Rightarrow> bool" where
  "block_at b n ys \<longleftrightarrow> 0 < b \<and> b + n < 18446744073709551616 \<and> {b..<b + n} \<inter> cover ys = {}"

text \<open>Splitting a block that is not on the list: the front is handed out, the rest goes back.\<close>

lemma split_block:
  assumes "heap_list lo m h xs" and "8 \<le> lo" and "block_at b n xs" and "8 \<le> sz" "sz \<le> n" and "rest = n - sz"
  shows "\<exists>k h' m' ys. (if rest > lo + 8
            then do { (h2, m2) \<leftarrow> insert_block lo (wr64 m (b + sz) rest) (b + sz) h; Some (b, sz, mp, h2, m2) }
            else Some (b, n, mp, h, m)) = Some (b, k, mp, h', m')
      \<and> heap_list lo m' h' ys \<and> block_at b k ys \<and> sz \<le> k \<and> k \<le> sz + lo + 8
      \<and> {b..<b + k} \<union> cover ys = {b..<b + n} \<union> cover xs
      \<and> (\<forall>x. x \<notin> {b..<b + n} \<and> x \<notin> cover xs \<longrightarrow> m' x = m x)"
proof (cases "rest > lo + 8")
  case False
  then show ?thesis using assms by (intro exI [of _ n] exI [of _ h] exI [of _ m] exI [of _ xs]) auto
next
  case True
  have g: "gapped lo 0 xs" "chain lo m h xs" and lo: "0 \<le> lo" using assms by (auto simp: heap_list_def)
  have bk: "0 < b" "b + n < 18446744073709551616" "{b..<b + n} \<inter> cover xs = {}" using assms(3) by (auto simp: block_at_def)
  define m1 where "m1 = wr64 m (b + sz) rest"
  have out1: "m1 x = m x" if "x \<notin> {b..<b + n}" for x
    using that True assms(4-6) lo by (auto simp: m1_def wr64_frame)
  have ch1: "chain lo m1 h xs" using chain_cong [OF g(1) lo, of m1 m h] out1 g(2) bk(3) by blast
  have r: "rd64 m1 (b + sz) = rest" using True assms bk lo by (simp add: m1_def mem_simps)
  have sub: "{b + sz..<b + sz + rest} \<subseteq> {b..<b + n}" using assms by auto
  then have dis: "{b + sz..<b + sz + rest} \<inter> cover xs = {}" using bk(3) by blast
  have bs: "0 < b + sz" "lo + 8 \<le> rest" "b + sz + rest < 18446744073709551616" using True bk assms by auto
  obtain h' m' where ib: "insert_block lo m1 (b + sz) h = Some (h', m')"
      "chain lo m' h' (ins (b + sz, rest) xs)"
      "\<forall>x. x \<notin> cover xs \<and> x \<notin> {b + sz..<b + sz + rest} \<longrightarrow> m' x = m1 x"
    using insert_block_refines [OF g(1) order_refl assms(2) ch1 r bs dis] by blast
  have gi: "gapped lo 0 (ins (b + sz, rest) xs)" using gapped_ins [OF g(1) lo bs dis] .
  have cov: "cover (ins (b + sz, rest) xs) = {b + sz..<b + sz + rest} \<union> cover xs"
    using cover_ins [OF g(1) lo _ dis] bs(2) lo by simp
  have split: "{b..<b + n} = {b..<b + sz} \<union> {b + sz..<b + sz + rest}"
    using interval_join [of sz rest b] assms bs(2) lo by simp
  have "{b..<b + sz} \<inter> {b + sz..<b + sz + rest} = {}" by auto
  then have "block_at b sz (ins (b + sz, rest) xs)"
    using bk bs split lo unfolding block_at_def cov by auto
  moreover have "{b..<b + sz} \<union> cover (ins (b + sz, rest) xs) = {b..<b + n} \<union> cover xs"
    unfolding cov split by (simp add: Un_ac)
  moreover have "\<forall>x. x \<notin> {b..<b + n} \<and> x \<notin> cover xs \<longrightarrow> m' x = m x"
  proof (intro allI impI)
    fix x assume x: "x \<notin> {b..<b + n} \<and> x \<notin> cover xs"
    then have "x \<notin> {b + sz..<b + sz + rest}" using sub by blast
    with x ib(3) out1 [of x] show "m' x = m x" by simp
  qed
  ultimately show ?thesis
    using True ib gi assms(2,5) unfolding heap_list_def m1_def
    by (intro exI [of _ sz] exI [of _ h'] exI [of _ m'] exI [of _ "ins (b + sz, rest) xs"]) simp
qed

lemma alloc_small_ok:
  assumes "heap_list lo m h xs" and "8 \<le> lo" and "8 \<le> sz" "sz < 4096" and "fresh_page fresh xs"
  shows "\<exists>b n mp h' m' ys. alloc_small lo fresh sz m h = Some (b, n, mp, h', m')
      \<and> heap_list lo m' h' ys \<and> block_at b n ys \<and> sz \<le> n \<and> n \<le> sz + lo + 8
      \<and> {b..<b + n} \<union> cover ys = new_bytes fresh sz xs \<union> cover xs
      \<and> mp = (if first_fit sz xs = None then 1 else 0)
      \<and> (\<forall>x. x \<notin> new_bytes fresh sz xs \<and> x \<notin> cover xs \<longrightarrow> m' x = m x)"
proof (cases "first_fit sz xs")
  case None
  have tf: "take_fit lo m h sz = Some (0, h, m)"
    using take_fit_refines [of lo xs m h sz] assms by (simp add: None heap_list_def)
  define m1 where "m1 = map_zero m fresh 4096"
  have out: "m1 x = m x" if "x \<notin> {fresh..<fresh + 4096}" for x using that by (auto simp: m1_def map_zero_def)
  have "chain lo m1 h xs"
  proof -
    have "m1 x = m x" if "x \<in> cover xs" for x using that assms(5) by (intro out) (auto simp: fresh_page_def)
    then show ?thesis using chain_cong [of lo 0 xs m1 m h] assms(1,2) by (simp add: heap_list_def)
  qed
  then have hl: "heap_list lo m1 h xs" using assms(1) by (simp add: heap_list_def)
  have ba: "block_at fresh 4096 xs" using assms(5) by (simp add: fresh_page_def block_at_def)
  have sz: "size_t (4096 - sz) = 4096 - sz" using assms(3,4) by simp
  obtain k h' m' ys where s: "(if 4096 - sz > lo + 8
            then do { (h2, m2) \<leftarrow> insert_block lo (wr64 m1 (fresh + sz) (4096 - sz)) (fresh + sz) h; Some (fresh, sz, 1, h2, m2) }
            else Some (fresh, 4096, 1, h, m1)) = Some (fresh, k, 1 :: int, h', m')"
      "heap_list lo m' h' ys" "block_at fresh k ys" "sz \<le> k" "k \<le> sz + lo + 8"
      "{fresh..<fresh + k} \<union> cover ys = {fresh..<fresh + 4096} \<union> cover xs"
      "\<forall>x. x \<notin> {fresh..<fresh + 4096} \<and> x \<notin> cover xs \<longrightarrow> m' x = m1 x"
    using split_block [OF hl assms(2) ba assms(3), of "4096 - sz" 1] assms(4) by auto
  have "alloc_small lo fresh sz m h = Some (fresh, k, 1, h', m')"
    using s(1) tf assms(5) sz
    by (simp add: alloc_small_def no_map_def MAP_FAILED_def m1_def [symmetric] fresh_page_def Let_def split: if_splits)
  with s(2-7) out show ?thesis by (auto simp: None new_bytes_def)
next
  case (Some r)
  obtain b n ys where r: "r = ((b, n), ys)" by (cases r) auto
  obtain h1 m1 where t: "take_fit lo m h sz = Some (b, h1, m1)" "chain lo m1 h1 ys"
      "\<forall>x. x \<notin> cover ys \<longrightarrow> m1 x = m x"
    using take_fit_refines [of lo xs m h sz] assms by (auto simp: Some r heap_list_def)
  have g: "gapped lo 0 xs" "0 \<le> lo" using assms by (auto simp: heap_list_def)
  note fs = first_fit_Some [OF Some [unfolded r] g]
  have hl: "heap_list lo m1 h1 ys" and ba: "block_at b n ys" using fs t by (auto simp: heap_list_def block_at_def)
  have b0: "b \<noteq> 0" using fs by auto
  have rb: "rd64 m1 b = n"
  proof -
    have "rd64 m1 b = rd64 m b"
      using fs g by (intro rd64_eq_on t(3) [rule_format]) fastforce
    also have "\<dots> = n"
    proof -
      have "rd64 m b = n" if "first_fit sz zs = Some ((b, n), ws)" "chain lo m h0 zs" for zs ws h0
        using that by (induction zs arbitrary: h0 ws) (auto split: if_splits)
      then show ?thesis using Some r assms(1) by (auto simp: heap_list_def)
    qed
    finally show ?thesis .
  qed
  have sz: "size_t (n - sz) = n - sz" using fs assms(3) by (intro size_t_id) auto
  obtain k h' m' zs where s: "(if n - sz > lo + 8
            then do { (h2, m2) \<leftarrow> insert_block lo (wr64 m1 (b + sz) (n - sz)) (b + sz) h1; Some (b, sz, 0, h2, m2) }
            else Some (b, n, 0, h1, m1)) = Some (b, k, 0 :: int, h', m')"
      "heap_list lo m' h' zs" "block_at b k zs" "sz \<le> k" "k \<le> sz + lo + 8"
      "{b..<b + k} \<union> cover zs = {b..<b + n} \<union> cover ys"
      "\<forall>x. x \<notin> {b..<b + n} \<and> x \<notin> cover ys \<longrightarrow> m' x = m1 x"
    using split_block [OF hl assms(2) ba assms(3), of "n - sz" 0] fs by auto
  have "alloc_small lo fresh sz m h = Some (b, k, 0, h', m')"
    using s(1) t(1) b0 rb sz by (simp add: alloc_small_def Let_def split: if_splits)
  moreover have "m' x = m x" if "x \<notin> cover xs" for x using s(7) t(3) that fs by auto
  moreover have "{b..<b + k} \<union> cover zs = cover xs" using s(6) fs by simp
  ultimately show ?thesis using s(2-5) by (auto simp: Some new_bytes_def)
qed

text \<open>Giving a block back: the bytes of the list grow by exactly the block's.\<close>

lemma insert_block_ok:
  assumes "heap_list lo m h xs" and "8 \<le> lo" and "block_at b n xs" and "rd64 m b = n" "lo + 8 \<le> n"
  shows "\<exists>h' m' ys. insert_block lo m b h = Some (h', m') \<and> heap_list lo m' h' ys
      \<and> cover ys = {b..<b + n} \<union> cover xs \<and> (\<forall>x. x \<notin> {b..<b + n} \<and> x \<notin> cover xs \<longrightarrow> m' x = m x)"
proof -
  have a: "gapped lo 0 xs" "chain lo m h xs" "0 < b" "b + n < 18446744073709551616" "{b..<b + n} \<inter> cover xs = {}" "0 \<le> lo"
    using assms by (auto simp: heap_list_def block_at_def)
  obtain h' m' where "insert_block lo m b h = Some (h', m')" "chain lo m' h' (ins (b, n) xs)"
      "\<forall>x. x \<notin> cover xs \<and> x \<notin> {b..<b + n} \<longrightarrow> m' x = m x"
    using insert_block_refines [OF a(1) order_refl assms(2) a(2) assms(4) a(3) assms(5) a(4,5)] by blast
  moreover have "gapped lo 0 (ins (b, n) xs)" using gapped_ins [OF a(1,6,3) assms(5) a(4,5)] .
  moreover have "cover (ins (b, n) xs) = {b..<b + n} \<union> cover xs" using cover_ins [OF a(1,6) _ a(5)] assms by simp
  ultimately show ?thesis unfolding heap_list_def by blast
qed

text \<open>Writing the size field of a block that is not on the list.\<close>

lemma heap_list_header:
  assumes "heap_list lo m h xs" and "8 \<le> lo" and "block_at b n xs" and "8 \<le> n"
  shows "heap_list lo (wr64 m b v) h xs"
proof -
  have "chain lo (wr64 m b v) h xs = chain lo m h xs"
  proof (rule chain_cong)
    fix x assume "x \<in> cover xs"
    then have "x \<notin> {b..<b + n}" using assms(3) by (auto simp: block_at_def)
    then show "wr64 m b v x = m x" using assms(4) by (intro wr64_frame) auto
  qed (use assms in \<open>auto simp: heap_list_def\<close>)
  then show ?thesis using assms(1) by (simp add: heap_list_def)
qed

lemma heap_list_length:
  "gapped lo lb xs \<Longrightarrow> 0 \<le> lb \<Longrightarrow> 0 \<le> lo \<Longrightarrow> chain lo m h xs \<Longrightarrow> list_length lo m h n = Some (n + int (length xs))"
proof (induction xs arbitrary: h n lb)
  case Nil
  then show ?case by (subst list_length.simps) simp
next
  case (Cons b xs)
  obtain a k where b: "b = (a, k)" by (cases b)
  have p: "h \<noteq> 0" "gapped lo (a + k) xs" "chain lo m (rd64 m (h + lo)) xs" "0 \<le> a + k"
    using Cons.prems by (auto simp: b)
  show ?case using p Cons.IH [OF p(2,4) Cons.prems(3) p(3), of "n + 1"] by (subst list_length.simps) simp
qed

lemma div_up_correct:
  assumes "0 \<le> x" "0 < y"
  shows "x \<le> div_up x y * y" and "div_up x y * y < x + y"
proof -
  define q r where "q = x div y * y" and "r = x mod y"
  have e: "x = q + r" and r: "0 \<le> r" "r < y" using assms by (simp_all add: q_def r_def)
  have "div_up x y * y = (if q = x then q else q + y)"
    by (simp add: div_up_def Let_def distrib_right q_def)
  with e r show "x \<le> div_up x y * y" "div_up x y * y < x + y" by auto
qed

end
