(* ===== verification/Hmalloc.thy ===== *)
theory Hmalloc
  imports Free_List
begin

text \<open>
  The allocator of \<open>hw08/unnas-hw08\<close> (\<open>hmalloc.h\<close>, \<open>hmalloc.c\<close>): blocks with an eight-byte
  size field in front, a coalescing free list for blocks below a page, and whole pages from
  \<open>mmap\<close> for larger requests; and the linked lists of \<open>hmalloc.h\<close> built on it.

  \<open>hm_xmalloc\<close> and \<open>hm_xfree\<close> take the offset of the link field of a list node, because the
  allocators of \<open>ch02/challenge02\<close> (theory \<open>Hwx_Malloc\<close>) have the same code for a node
  without \<open>item\<close> field. \<open>mmap_next\<close> holds the addresses that the following calls of \<open>mmap\<close>
  return, and \<open>munmaps\<close> records the calls of \<open>munmap\<close>. \<open>block_allocator\<close> is the contract of an
  allocator of this kind, interpreted for every one of them.
\<close>

section \<open>State\<close>

record hm_stats =
  pages_mapped :: int
  pages_unmapped :: int
  chunks_allocated :: int
  chunks_freed :: int
  free_length :: int

record hm_heap =
  hmem :: mem
  free_list_head :: int
  mmap_next :: "int list"
  munmaps :: "(int \<times> int) list"
  stats :: hm_stats

definition PAGE_SIZE :: int where "PAGE_SIZE = 4096"

text \<open>The address of the next mapping.\<close>

definition next_map :: "'a hm_heap_scheme \<Rightarrow> int" where
  "next_map s = (case mmap_next s of [] \<Rightarrow> MAP_FAILED | a # _ \<Rightarrow> a)"

section \<open>xmalloc and xfree\<close>

definition count_alloc :: "'a hm_heap_scheme \<Rightarrow> 'a hm_heap_scheme" where
  "count_alloc s = s\<lparr>stats := (stats s)\<lparr>chunks_allocated := chunks_allocated (stats s) + 1\<rparr>\<rparr>"

definition hm_xmalloc :: "int \<Rightarrow> int \<Rightarrow> 'a hm_heap_scheme \<Rightarrow> (int \<times> 'a hm_heap_scheme) option" where
  "hm_xmalloc lo req s0 =
     (let s = count_alloc s0; sz = size_t (req + 8) in
      if sz < PAGE_SIZE then do {
        (bstart, bsize, mapped, head, m) \<leftarrow> alloc_small lo (next_map s) sz (hmem s) (free_list_head s);
        Some (bstart + 8,
              s\<lparr>hmem := wr64 m bstart bsize, free_list_head := head,
                mmap_next := drop (nat mapped) (mmap_next s),
                stats := (stats s)\<lparr>pages_mapped := pages_mapped (stats s) + mapped\<rparr>\<rparr>) }
      else
        let num_pages = div_up sz PAGE_SIZE; bsize = size_t (PAGE_SIZE * num_pages); bstart = next_map s in
        if no_map bstart then None
        else Some (bstart + 8,
              s\<lparr>hmem := wr64 (map_zero (hmem s) bstart bsize) bstart bsize,
                mmap_next := tl (mmap_next s),
                stats := (stats s)\<lparr>pages_mapped := pages_mapped (stats s) + num_pages\<rparr>\<rparr>))"

definition free_list_insert :: "int \<Rightarrow> 'a hm_heap_scheme \<Rightarrow> int \<Rightarrow> 'a hm_heap_scheme option" where
  "free_list_insert lo s node = do {
     (h, m) \<leftarrow> insert_block lo (hmem s) node (free_list_head s);
     Some (s\<lparr>hmem := m, free_list_head := h\<rparr>) }"

text \<open>\<open>munmap\<close> refuses an address that is not the start of a page, and the assertion behind it ends the program.\<close>

definition hm_xfree :: "int \<Rightarrow> 'a hm_heap_scheme \<Rightarrow> int \<Rightarrow> 'a hm_heap_scheme option" where
  "hm_xfree lo s0 item =
     (let s = s0\<lparr>stats := (stats s0)\<lparr>chunks_freed := chunks_freed (stats s0) + 1\<rparr>\<rparr>;
          bstart = item - 8; bsize = rd64 (hmem s) bstart in
      if bsize < PAGE_SIZE then free_list_insert lo s bstart
      else if bstart mod PAGE_SIZE \<noteq> 0 then None
      else Some (s\<lparr>munmaps := munmaps s @ [(bstart, bsize)],
                  stats := (stats s)\<lparr>pages_unmapped := pages_unmapped (stats s) + bsize div PAGE_SIZE\<rparr>\<rparr>))"

definition free_list_length :: "int \<Rightarrow> 'a hm_heap_scheme \<Rightarrow> int option" where
  "free_list_length lo s = list_length lo (hmem s) (free_list_head s) 0"

definition hgetstats :: "int \<Rightarrow> 'a hm_heap_scheme \<Rightarrow> 'a hm_heap_scheme option" where
  "hgetstats lo s = do {
     n \<leftarrow> free_list_length lo s;
     Some (s\<lparr>stats := (stats s)\<lparr>free_length := n\<rparr>\<rparr>) }"

section \<open>hw08: nodes with an item field\<close>

definition sizeof_cell :: int where "sizeof_cell = 24"

definition cell_insert_block :: "mem \<Rightarrow> int \<Rightarrow> int \<Rightarrow> (int \<times> mem) option" where
  "cell_insert_block = insert_block 16"

definition xmalloc :: "int \<Rightarrow> hm_heap \<Rightarrow> (int \<times> hm_heap) option" where
  "xmalloc = hm_xmalloc 16"

definition xfree :: "hm_heap \<Rightarrow> int \<Rightarrow> hm_heap option" where
  "xfree = hm_xfree 16"

definition cons :: "int \<Rightarrow> int \<Rightarrow> hm_heap \<Rightarrow> (int \<times> hm_heap) option" where
  "cons item rest s = do {
     (xs, s1) \<leftarrow> xmalloc sizeof_cell s;
     Some (xs, s1\<lparr>hmem := wr64 (wr64 (hmem s1) (xs + 8) item) (xs + 16) rest\<rparr>) }"

definition count_list :: "hm_heap \<Rightarrow> int \<Rightarrow> int option" where
  "count_list s xs = list_length 16 (hmem s) xs 0"

partial_function (option) free_list :: "hm_heap \<Rightarrow> int \<Rightarrow> hm_heap option" where
  "free_list s xs =
     (if xs = 0 then Some s
      else do {
        let ys = rd64 (hmem s) (xs + 16);
        s' \<leftarrow> xfree s xs;
        free_list s' ys })"

partial_function (option) copy_list :: "int \<Rightarrow> hm_heap \<Rightarrow> (int \<times> hm_heap) option" where
  "copy_list xs s =
     (if xs = 0 then Some (0, s)
      else do {
        (ys, s1) \<leftarrow> copy_list (rd64 (hmem s) (xs + 16)) s;
        cons (rd64 (hmem s1) (xs + 8)) ys s1 })"

section \<open>The contract of an allocator with a coalescing free list\<close>

text \<open>
  \<open>rep s xs\<close>: the blocks \<open>xs\<close> are the free memory of the allocator in state \<open>s\<close>. An allocation
  takes its bytes from the free memory, or from one new page, and loses none of them; a
  release adds exactly the bytes of the block; nothing else in memory changes. \<open>least\<close> is the
  smallest request whose block can hold a list node.
\<close>

locale block_allocator =
  fixes rep :: "'s \<Rightarrow> block list \<Rightarrow> bool"
    and bytes :: "'s \<Rightarrow> mem"
    and fresh :: "'s \<Rightarrow> int"
    and malloc :: "int \<Rightarrow> 's \<Rightarrow> (int \<times> 's) option"
    and release :: "'s \<Rightarrow> int \<Rightarrow> 's option"
    and least :: int
  assumes least_nonneg: "0 \<le> least"
    and malloc_law: "rep s xs \<Longrightarrow> least \<le> sz \<Longrightarrow> sz + 8 < 4096 \<Longrightarrow> fresh_page (fresh s) xs \<Longrightarrow>
       \<exists>p n s' ys. malloc sz s = Some (p, s') \<and> rep s' ys \<and> rd64 (bytes s') (p - 8) = n
          \<and> block_at (p - 8) n ys \<and> sz + 8 \<le> n
          \<and> {p - 8..<p - 8 + n} \<union> cover ys = new_bytes (fresh s) (sz + 8) xs \<union> cover xs
          \<and> (\<forall>x. x \<notin> new_bytes (fresh s) (sz + 8) xs \<and> x \<notin> cover xs \<longrightarrow> bytes s' x = bytes s x)"
    and release_law: "rep s xs \<Longrightarrow> rd64 (bytes s) (p - 8) = n \<Longrightarrow> least + 8 \<le> n \<Longrightarrow> n < 4096 \<Longrightarrow>
       block_at (p - 8) n xs \<Longrightarrow>
       \<exists>s' ys. release s p = Some s' \<and> rep s' ys \<and> cover ys = {p - 8..<p - 8 + n} \<union> cover xs
          \<and> (\<forall>x. x \<notin> {p - 8..<p - 8 + n} \<and> x \<notin> cover xs \<longrightarrow> bytes s' x = bytes s x)"
begin

text \<open>A block handed out and given back at once: the free bytes are those from before, and the new page if one was mapped.\<close>

lemma malloc_release:
  assumes "rep s xs" and "least \<le> sz" "sz + 8 < 4096" and "fresh_page (fresh s) xs"
    and "malloc sz s = Some (p, s1)" and "rd64 (bytes s1) (p - 8) < 4096"
  shows "\<exists>s2 zs. release s1 p = Some s2 \<and> rep s2 zs \<and> cover zs = new_bytes (fresh s) (sz + 8) xs \<union> cover xs"
proof -
  obtain n ys where m: "rep s1 ys" "rd64 (bytes s1) (p - 8) = n" "block_at (p - 8) n ys" "sz + 8 \<le> n"
      "{p - 8..<p - 8 + n} \<union> cover ys = new_bytes (fresh s) (sz + 8) xs \<union> cover xs"
    using malloc_law [OF assms(1-4)] assms(5) by auto
  have "least + 8 \<le> n" "n < 4096" using m(2,4) assms(2,6) by auto
  from release_law [OF m(1,2) this m(3)] m(5) show ?thesis by auto
qed

text \<open>A second allocation leaves a live block alone: the two do not overlap, and no byte of the first changes.\<close>

lemma malloc_twice:
  assumes "rep s xs" and "least \<le> sz1" "sz1 + 8 < 4096" and "fresh_page (fresh s) xs"
    and "malloc sz1 s = Some (p, s1)" and "rd64 (bytes s1) (p - 8) = n"
    and "\<And>ys. rep s1 ys \<Longrightarrow> fresh_page (fresh s1) ys"
    and "{p - 8..<p - 8 + n} \<inter> {fresh s1..<fresh s1 + 4096} = {}"
    and "least \<le> sz2" "sz2 + 8 < 4096"
  shows "\<exists>q k s2. malloc sz2 s1 = Some (q, s2) \<and> rd64 (bytes s2) (q - 8) = k
     \<and> {p - 8..<p - 8 + n} \<inter> {q - 8..<q - 8 + k} = {} \<and> sz2 + 8 \<le> k
     \<and> (\<forall>x \<in> {p - 8..<p - 8 + n}. bytes s2 x = bytes s1 x)"
proof -
  obtain ys where m: "rep s1 ys" "block_at (p - 8) n ys"
    using malloc_law [OF assms(1-4)] assms(5,6) by auto
  obtain q k s2 zs where q: "malloc sz2 s1 = Some (q, s2)" "rd64 (bytes s2) (q - 8) = k" "sz2 + 8 \<le> k"
      "{q - 8..<q - 8 + k} \<union> cover zs = new_bytes (fresh s1) (sz2 + 8) ys \<union> cover ys"
      "\<forall>x. x \<notin> new_bytes (fresh s1) (sz2 + 8) ys \<and> x \<notin> cover ys \<longrightarrow> bytes s2 x = bytes s1 x"
    using malloc_law [OF m(1) assms(9,10) assms(7) [OF m(1)]] by auto
  have out: "x \<notin> new_bytes (fresh s1) (sz2 + 8) ys \<and> x \<notin> cover ys" if "x \<in> {p - 8..<p - 8 + n}" for x
    using that m(2) assms(8) unfolding block_at_def new_bytes_def by (auto split: if_splits)
  then have "{p - 8..<p - 8 + n} \<inter> {q - 8..<q - 8 + k} = {}" using q(4) by blast
  then show ?thesis using q out by blast
qed

end

section \<open>The allocators meet the contract\<close>

definition hm_rep :: "int \<Rightarrow> 'a hm_heap_scheme \<Rightarrow> block list \<Rightarrow> bool" where
  "hm_rep lo s xs \<longleftrightarrow> heap_list lo (hmem s) (free_list_head s) xs"

lemma next_map_count [simp]: "next_map (count_alloc s) = next_map s"
    "hmem (count_alloc s) = hmem s" "free_list_head (count_alloc s) = free_list_head s"
  by (simp_all add: next_map_def count_alloc_def)

lemma hm_xmalloc_small:
  assumes "hm_rep lo s xs" and "8 \<le> lo" and "0 \<le> sz" "sz + 8 < 4096" and "fresh_page (next_map s) xs"
  shows "\<exists>p n s' ys. hm_xmalloc lo sz s = Some (p, s') \<and> hm_rep lo s' ys \<and> rd64 (hmem s') (p - 8) = n
     \<and> block_at (p - 8) n ys \<and> sz + 8 \<le> n \<and> n \<le> sz + lo + 16
     \<and> {p - 8..<p - 8 + n} \<union> cover ys = new_bytes (next_map s) (sz + 8) xs \<union> cover xs
     \<and> (\<forall>x. x \<notin> new_bytes (next_map s) (sz + 8) xs \<and> x \<notin> cover xs \<longrightarrow> hmem s' x = hmem s x)
     \<and> chunks_allocated (stats s') = chunks_allocated (stats s) + 1
     \<and> mmap_next s' = drop (if first_fit (sz + 8) xs = None then 1 else 0) (mmap_next s)
     \<and> pages_mapped (stats s') = pages_mapped (stats s) + (if first_fit (sz + 8) xs = None then 1 else 0)"
proof -
  have hl: "heap_list lo (hmem s) (free_list_head s) xs" using assms(1) by (simp add: hm_rep_def)
  have sz: "8 \<le> sz + 8" using assms(3) by simp
  obtain b n mp h m ys where a: "alloc_small lo (next_map s) (sz + 8) (hmem s) (free_list_head s) = Some (b, n, mp, h, m)"
      "heap_list lo m h ys" "block_at b n ys" "sz + 8 \<le> n" "n \<le> sz + 8 + lo + 8"
      "{b..<b + n} \<union> cover ys = new_bytes (next_map s) (sz + 8) xs \<union> cover xs"
      "mp = (if first_fit (sz + 8) xs = None then 1 else 0)"
      "\<forall>x. x \<notin> new_bytes (next_map s) (sz + 8) xs \<and> x \<notin> cover xs \<longrightarrow> m x = hmem s x"
    using alloc_small_ok [OF hl assms(2) sz assms(4,5)] by (elim exE conjE) (rule that, assumption+)
  define s' where "s' = (count_alloc s)\<lparr>hmem := wr64 m b n, free_list_head := h,
      mmap_next := drop (nat mp) (mmap_next (count_alloc s)),
      stats := (stats (count_alloc s))\<lparr>pages_mapped := pages_mapped (stats (count_alloc s)) + mp\<rparr>\<rparr>"
  have run: "hm_xmalloc lo sz s = Some (b + 8, s')"
    using a(1) assms(3,4) by (simp add: hm_xmalloc_def PAGE_SIZE_def s'_def Let_def)
  have "hm_rep lo s' ys"
    using heap_list_header [OF a(2) assms(2) a(3), of n] a(4) assms(3) by (simp add: hm_rep_def s'_def)
  moreover have "rd64 (hmem s') b = n" using a(3,4) assms(3) by (simp add: s'_def mem_simps block_at_def)
  moreover have "hmem s' x = hmem s x" if "x \<notin> new_bytes (next_map s) (sz + 8) xs" "x \<notin> cover xs" for x
  proof -
    have "x \<notin> {b..<b + n}" using a(6) that by blast
    then have "wr64 m b n x = m x" using a(4) assms(3) by (intro wr64_frame) auto
    with a(8) that show ?thesis by (simp add: s'_def)
  qed
  ultimately show ?thesis
    using run a(3-7)
    by (intro exI [of _ "b + 8"] exI [of _ n] exI [of _ s'] exI [of _ ys]) (simp add: s'_def count_alloc_def)
qed

lemma hm_xfree_small:
  assumes "hm_rep lo s xs" and "8 \<le> lo" and "rd64 (hmem s) (p - 8) = n" "lo + 8 \<le> n" "n < 4096" and "block_at (p - 8) n xs"
  shows "\<exists>s' ys. hm_xfree lo s p = Some s' \<and> hm_rep lo s' ys \<and> cover ys = {p - 8..<p - 8 + n} \<union> cover xs
     \<and> (\<forall>x. x \<notin> {p - 8..<p - 8 + n} \<and> x \<notin> cover xs \<longrightarrow> hmem s' x = hmem s x)"
proof -
  have hl: "heap_list lo (hmem s) (free_list_head s) xs" using assms(1) by (simp add: hm_rep_def)
  obtain h m ys where i: "insert_block lo (hmem s) (p - 8) (free_list_head s) = Some (h, m)" "heap_list lo m h ys"
      "cover ys = {p - 8..<p - 8 + n} \<union> cover xs"
      "\<forall>x. x \<notin> {p - 8..<p - 8 + n} \<and> x \<notin> cover xs \<longrightarrow> m x = hmem s x"
    using insert_block_ok [OF hl assms(2,6,3,4)] by blast
  then show ?thesis
    using assms(3,5) by (auto simp: hm_xfree_def free_list_insert_def PAGE_SIZE_def hm_rep_def Let_def)
qed

interpretation hw08: block_allocator "hm_rep 16" hmem next_map xmalloc xfree 16
proof (unfold_locales, goal_cases)
  case (2 s xs sz)
  then show ?case unfolding xmalloc_def using hm_xmalloc_small [of 16 s xs sz] by fastforce
next
  case (3 s xs p n)
  then show ?case unfolding xfree_def using hm_xfree_small [of 16 s xs p n] by simp
qed simp

section \<open>Properties\<close>

text \<open>inserting a free block into the list leaves the list sorted by address with no two blocks
  touching (adjacent blocks are joined), covers exactly the bytes covered before and the block's own,
  and changes no byte outside them.\<close>

theorem cell_insert_block_correct:
  assumes "hm_rep 16 s xs" and "block_at b n xs" and "rd64 (hmem s) b = n" and "24 \<le> n"
  shows "\<exists>h m. cell_insert_block (hmem s) b (free_list_head s) = Some (h, m)
     \<and> chain 16 m h (ins (b, n) xs) \<and> gapped 16 0 (ins (b, n) xs) \<and> cover (ins (b, n) xs) = {b..<b + n} \<union> cover xs
     \<and> (\<forall>x. x \<notin> cover xs \<and> x \<notin> {b..<b + n} \<longrightarrow> m x = hmem s x)"
proof -
  have a: "gapped 16 0 xs" "chain 16 (hmem s) (free_list_head s) xs" "0 < b" "b + n < 18446744073709551616"
      "{b..<b + n} \<inter> cover xs = {}"
    using assms by (auto simp: hm_rep_def heap_list_def block_at_def)
  show ?thesis
    unfolding cell_insert_block_def
    using insert_block_refines [OF a(1) order_refl _ a(2) assms(3) a(3) _ a(4,5)] assms(4)
      gapped_ins [OF a(1) _ a(3) _ a(4,5)] cover_ins [OF a(1) _ _ a(5)] by auto
qed

text \<open>C16: a request of 16 to 4087 bytes gets a block of its own: at least the size asked for and at most 24
  bytes of it unused, cut from the first free block that is large enough or from one new page; no free
  byte is lost, and no byte outside the free memory changes.\<close>

theorem xmalloc_correct:
  assumes "hm_rep 16 s xs" and "16 \<le> sz" "sz + 8 < 4096" and "fresh_page (next_map s) xs"
  shows "\<exists>p n s' ys. xmalloc sz s = Some (p, s') \<and> hm_rep 16 s' ys \<and> rd64 (hmem s') (p - 8) = n
     \<and> block_at (p - 8) n ys \<and> sz + 8 \<le> n \<and> n \<le> sz + 8 + 24
     \<and> {p - 8..<p - 8 + n} \<union> cover ys = new_bytes (next_map s) (sz + 8) xs \<union> cover xs
     \<and> (\<forall>x. x \<notin> new_bytes (next_map s) (sz + 8) xs \<and> x \<notin> cover xs \<longrightarrow> hmem s' x = hmem s x)
     \<and> pages_mapped (stats s') = pages_mapped (stats s) + (if first_fit (sz + 8) xs = None then 1 else 0)"
  unfolding xmalloc_def using hm_xmalloc_small [of 16 s xs sz] assms by fastforce


text \<open>C28: two allocations in a row, of 16 to 4087 bytes each, never overlap, and the second changes no byte
  of the first.\<close>

theorem xmalloc_disjoint:
  assumes "hm_rep 16 s xs" and "16 \<le> sz1" "sz1 + 8 < 4096" and "fresh_page (next_map s) xs"
    and "xmalloc sz1 s = Some (p, s1)" and "rd64 (hmem s1) (p - 8) = n"
    and "\<And>ys. hm_rep 16 s1 ys \<Longrightarrow> fresh_page (next_map s1) ys"
    and "{p - 8..<p - 8 + n} \<inter> {next_map s1..<next_map s1 + 4096} = {}"
    and "16 \<le> sz2" "sz2 + 8 < 4096"
  shows "\<exists>q k s2. xmalloc sz2 s1 = Some (q, s2) \<and> rd64 (hmem s2) (q - 8) = k
     \<and> {p - 8..<p - 8 + n} \<inter> {q - 8..<q - 8 + k} = {} \<and> sz2 + 8 \<le> k
     \<and> (\<forall>x \<in> {p - 8..<p - 8 + n}. hmem s2 x = hmem s1 x)"
  using hw08.malloc_twice [OF assms] .

text \<open>a block for a request below 16 bytes is too small for a list node: freeing a 16-byte block into
  an empty list writes the link behind its end, and the size field of the block that follows becomes 0.\<close>

theorem xfree_small_block_corrupts:
  assumes "rd64 (hmem s) (p - 8) = 16" and "free_list_head s = 0"
  shows "\<exists>s'. xfree s p = Some s' \<and> rd64 (hmem s') (p - 8 + 16) = 0"
  using assms
  by (simp add: xfree_def hm_xfree_def free_list_insert_def insert_block.simps PAGE_SIZE_def mem_simps)

section \<open>Witnesses\<close>

text \<open>A heap before its first allocation, with the next two pages at 4096 and 16384.\<close>

definition empty_heap :: hm_heap where
  "empty_heap = \<lparr>hmem = (\<lambda>_. 0), free_list_head = 0, mmap_next = [4096, 16384], munmaps = [],
     stats = \<lparr>pages_mapped = 0, pages_unmapped = 0, chunks_allocated = 0, chunks_freed = 0, free_length = 0\<rparr>\<rparr>"

lemma empty_heap_rep: "hm_rep lo empty_heap []" "next_map empty_heap = 4096" "fresh_page 4096 []"
  by (simp_all add: hm_rep_def heap_list_def empty_heap_def next_map_def fresh_page_def)

lemma chain_unique:
  "gapped lo lb xs \<Longrightarrow> gapped lo lb ys \<Longrightarrow> 0 \<le> lb \<Longrightarrow> 0 \<le> lo \<Longrightarrow> chain lo m h xs \<Longrightarrow> chain lo m h ys \<Longrightarrow> xs = ys"
proof (induction xs arbitrary: ys h lb)
  case Nil
  then show ?case by (cases ys) auto
next
  case (Cons b xs)
  obtain a n where b: "b = (a, n)" by (cases b)
  then obtain k zs where y: "ys = (a, k) # zs" using Cons.prems by (cases ys rule: cover.cases) auto
  have "k = n" using Cons.prems by (simp add: b y)
  moreover have "xs = zs"
    using Cons.IH [of "a + n" zs "rd64 m (a + lo)"] Cons.prems \<open>k = n\<close> by (simp add: b y)
  ultimately show ?case by (simp add: b y)
qed

theorem cell_insert_block_correct_witness:
  "\<exists>h m. cell_insert_block (wr64 (\<lambda>_. 0) 4096 100) 4096 0 = Some (h, m) \<and> chain 16 m h [(4096, 100)]"
  using cell_insert_block_correct [of "empty_heap\<lparr>hmem := wr64 (\<lambda>_. 0) 4096 100\<rparr>" "[]" 4096 100]
  by (auto simp: hm_rep_def heap_list_def empty_heap_def block_at_def mem_simps)

theorem xmalloc_correct_witness:
  "\<exists>p n s'. xmalloc 100 empty_heap = Some (p, s') \<and> rd64 (hmem s') (p - 8) = n \<and> 108 \<le> n \<and> n \<le> 132
     \<and> pages_mapped (stats s') = 1"
  using xmalloc_correct [of empty_heap "[]" 100] empty_heap_rep by (auto simp: empty_heap_def)

lemma xmalloc_empty_heap:
  obtains p n s1 ys where "xmalloc 100 empty_heap = Some (p, s1)" "hm_rep 16 s1 ys" "rd64 (hmem s1) (p - 8) = n"
    "n < 4096" "{p - 8..<p - 8 + n} \<union> cover ys = {4096..<8192}" "next_map s1 = 16384"
proof -
  obtain p n s1 ys where "hm_xmalloc 16 100 empty_heap = Some (p, s1)" "hm_rep 16 s1 ys" "rd64 (hmem s1) (p - 8) = n"
      "n \<le> 100 + 16 + 16" "{p - 8..<p - 8 + n} \<union> cover ys = new_bytes 4096 108 [] \<union> cover []"
      "mmap_next s1 = drop 1 (mmap_next empty_heap)"
    using hm_xmalloc_small [of 16 empty_heap "[]" 100] empty_heap_rep by auto
  then show ?thesis
    by (intro that [of p s1 ys n]) (auto simp: xmalloc_def new_bytes_def next_map_def empty_heap_def)
qed


theorem xmalloc_disjoint_witness:
  "\<exists>p s1 q s2. xmalloc 100 empty_heap = Some (p, s1) \<and> xmalloc 200 s1 = Some (q, s2)
     \<and> {p - 8..<p - 8 + rd64 (hmem s1) (p - 8)} \<inter> {q - 8..<q - 8 + rd64 (hmem s2) (q - 8)} = {}"
proof -
  obtain p n s1 ys where a: "xmalloc 100 empty_heap = Some (p, s1)" "hm_rep 16 s1 ys" "rd64 (hmem s1) (p - 8) = n"
      "{p - 8..<p - 8 + n} \<union> cover ys = {4096..<8192}" "next_map s1 = 16384"
    by (rule xmalloc_empty_heap)
  have uniq: "zs = ys" if "hm_rep 16 s1 zs" for zs
    using chain_unique [of 16 0 zs ys] that a(2) by (auto simp: hm_rep_def heap_list_def)
  have sub: "cover ys \<subseteq> {4096..<8192}" "{p - 8..<p - 8 + n} \<subseteq> {4096..<8192}" using a(4) by blast+
  have far: "{4096..<8192} \<inter> {16384..<20480 :: int} = {}" by simp
  have fp: "fresh_page (next_map s1) zs" if "hm_rep 16 s1 zs" for zs
  proof -
    have "{16384..<20480} \<inter> cover ys = {}" using sub(1) far by blast
    then show ?thesis using uniq [OF that] a(5) by (simp add: fresh_page_def)
  qed
  have d: "{p - 8..<p - 8 + n} \<inter> {next_map s1..<next_map s1 + 4096} = {}"
  proof -
    have "{p - 8..<p - 8 + n} \<inter> {16384..<20480} = {}" using sub(2) far by blast
    then show ?thesis unfolding a(5) by simp
  qed
  obtain q k s2 where "xmalloc 200 s1 = Some (q, s2)" "rd64 (hmem s2) (q - 8) = k"
      "{p - 8..<p - 8 + n} \<inter> {q - 8..<q - 8 + k} = {}"
    using xmalloc_disjoint [OF empty_heap_rep(1) _ _ _ a(1,3) fp d, of 200] empty_heap_rep(2,3) by auto
  with a(1,3) show ?thesis by blast
qed

theorem xfree_small_block_corrupts_witness:
  "\<exists>s'. xfree (empty_heap\<lparr>hmem := wr64 (wr64 (\<lambda>_. 0) 4096 16) 4112 32\<rparr>) 4104 = Some s' \<and> rd64 (hmem s') 4112 = 0"
  using xfree_small_block_corrupts [of "empty_heap\<lparr>hmem := wr64 (wr64 (\<lambda>_. 0) 4096 16) 4112 32\<rparr>" 4104]
  by (simp add: mem_simps empty_heap_def)

end
