(* ===== verification/Hwx_Malloc.thy ===== *)
theory Hwx_Malloc
  imports Hmalloc
begin

text \<open>
  The allocators of \<open>ch02/challenge02\<close>: \<open>hwx_malloc.c\<close>, the code of hw08 with a lock around
  the free list and an \<open>xrealloc\<close>, and \<open>opt_malloc.c\<close>, which keeps two free lists per thread,
  one for blocks below 2048 bytes and one for blocks below a page.

  The list node has no item field, so its link is at offset 8 and it needs 16 bytes. The lock
  is a flag: locking it twice would never return (\<open>None\<close>). \<open>xrealloc\<close> copies with \<open>memcpy\<close> more
  bytes than the old block holds; its model takes the set of readable addresses and has no result when
  the copy leaves it. A state of \<open>opt_malloc.c\<close> is the
  state of one thread, since all of it is thread local.
\<close>

section \<open>hwx\_malloc.c\<close>

record hwx_heap = hm_heap +
  free_list_lock_initialized :: bool
  locked :: bool

definition sizeof_llist_node :: int where "sizeof_llist_node = 16"

definition llist_length :: "mem \<Rightarrow> int \<Rightarrow> int option" where
  "llist_length m list_head = list_length 8 m list_head 0"

definition llist_insert :: "mem \<Rightarrow> int \<Rightarrow> int \<Rightarrow> (int \<times> mem) option" where
  "llist_insert = insert_block 8"

definition mutex_lock :: "hwx_heap \<Rightarrow> hwx_heap option" where
  "mutex_lock s = (if locked s then None else Some (s\<lparr>locked := True\<rparr>))"

definition mutex_unlock :: "hwx_heap \<Rightarrow> hwx_heap" where
  "mutex_unlock s = s\<lparr>locked := False\<rparr>"

definition hwx_xmalloc :: "int \<Rightarrow> hwx_heap \<Rightarrow> (int \<times> hwx_heap) option" where
  "hwx_xmalloc req s =
     (let s1 = (if \<not> free_list_lock_initialized s
                then s\<lparr>locked := False, free_list_lock_initialized := True\<rparr> else s) in
      if size_t (req + 8) < PAGE_SIZE then do {
        s2 \<leftarrow> mutex_lock s1;
        (p, s3) \<leftarrow> hm_xmalloc 8 req s2;
        Some (p, mutex_unlock s3) }
      else hm_xmalloc 8 req s1)"

definition hwx_xfree :: "hwx_heap \<Rightarrow> int \<Rightarrow> hwx_heap option" where
  "hwx_xfree s item =
     (if rd64 (hmem s) (item - 8) < PAGE_SIZE then do {
        s1 \<leftarrow> mutex_lock s;
        s2 \<leftarrow> hm_xfree 8 s1 item;
        Some (mutex_unlock s2) }
      else hm_xfree 8 s item)"

definition copy_bytes :: "(int \<Rightarrow> bool) \<Rightarrow> mem \<Rightarrow> int \<Rightarrow> int \<Rightarrow> int \<Rightarrow> mem option" where
  "copy_bytes readable m dst src n =
     (if list_all readable [src..src + n - 1]
      then Some (\<lambda>x. if dst \<le> x \<and> x < dst + n then m (src + (x - dst)) else m x) else None)"

definition hwx_shrink :: "int \<Rightarrow> int \<Rightarrow> hwx_heap \<Rightarrow> (int \<times> hwx_heap) option" where
  "hwx_shrink item sz s =
     (let hdr = item - 8; new_free = rd64 (hmem s) hdr - sz - sizeof_llist_node; free_mem = item + sz;
          s1 = s\<lparr>hmem := wr64 (wr64 (hmem s) hdr sz) free_mem new_free\<rparr> in do {
        s2 \<leftarrow> mutex_lock s1;
        s3 \<leftarrow> (if free_list_head s2 = 0
               then Some (s2\<lparr>hmem := wr64 (hmem s2) (free_mem + 8) 0, free_list_head := free_mem\<rparr>)
               else do {
                 (_, m) \<leftarrow> llist_insert (hmem s2) (free_list_head s2) free_mem;
                 Some (s2\<lparr>hmem := m\<rparr>) });
        Some (item, mutex_unlock s3) })"

definition hwx_xrealloc :: "(int \<Rightarrow> bool) \<Rightarrow> int \<Rightarrow> int \<Rightarrow> hwx_heap \<Rightarrow> (int \<times> hwx_heap) option" where
  "hwx_xrealloc readable item sz s =
     (if item = 0 then hwx_xmalloc sz s
      else let hdr = item - 8 in
        if rd64 (hmem s) hdr > size_t (sz + sizeof_llist_node) then hwx_shrink item sz s
        else if rd64 (hmem s) hdr < sz then do {
          (new_ptr, s1) \<leftarrow> hwx_xmalloc sz s;
          m \<leftarrow> copy_bytes readable (hmem s1) new_ptr item (rd64 (hmem s1) hdr);
          s2 \<leftarrow> hwx_xfree (s1\<lparr>hmem := m\<rparr>) item;
          Some (new_ptr, s2) }
        else Some (item, s))"

section \<open>opt\_malloc.c\<close>

record opt_heap =
  omem :: mem
  free_list_head_2048 :: int
  free_list_head_4096 :: int
  opt_mmap_next :: "int list"
  opt_munmaps :: "(int \<times> int) list"
  opt_stats :: hm_stats

definition HALF_PAGE_SIZE :: int where "HALF_PAGE_SIZE = 2048"

definition opt_next_map :: "opt_heap \<Rightarrow> int" where
  "opt_next_map s = (case opt_mmap_next s of [] \<Rightarrow> MAP_FAILED | a # _ \<Rightarrow> a)"

definition opt_hgetstats :: "opt_heap \<Rightarrow> opt_heap option" where
  "opt_hgetstats s = do {
     n4 \<leftarrow> llist_length (omem s) (free_list_head_4096 s);
     n2 \<leftarrow> llist_length (omem s) (free_list_head_2048 s);
     Some (s\<lparr>opt_stats := (opt_stats s)\<lparr>free_length := n4 + n2\<rparr>\<rparr>) }"

definition opt_mapped :: "opt_heap \<Rightarrow> nat \<Rightarrow> int \<Rightarrow> opt_heap" where
  "opt_mapped s calls pages = s\<lparr>opt_mmap_next := drop calls (opt_mmap_next s),
     opt_stats := (opt_stats s)\<lparr>pages_mapped := pages_mapped (opt_stats s) + pages\<rparr>\<rparr>"

definition opt_xmalloc :: "int \<Rightarrow> opt_heap \<Rightarrow> (int \<times> opt_heap) option" where
  "opt_xmalloc req s0 =
     (let s = s0\<lparr>opt_stats := (opt_stats s0)\<lparr>chunks_allocated := chunks_allocated (opt_stats s0) + 1\<rparr>\<rparr>;
          sz = size_t (req + 8) in
      if sz < HALF_PAGE_SIZE then do {
        (bstart, bsize, mapped, head, m) \<leftarrow> alloc_small 8 (opt_next_map s) sz (omem s) (free_list_head_2048 s);
        Some (bstart + 8, (opt_mapped s (nat mapped) mapped)\<lparr>omem := wr64 m bstart bsize, free_list_head_2048 := head\<rparr>) }
      else if sz < PAGE_SIZE then do {
        (bstart, bsize, mapped, head, m) \<leftarrow> alloc_small 8 (opt_next_map s) sz (omem s) (free_list_head_4096 s);
        Some (bstart + 8, (opt_mapped s (nat mapped) mapped)\<lparr>omem := wr64 m bstart bsize, free_list_head_4096 := head\<rparr>) }
      else
        let num_pages = div_up sz PAGE_SIZE; bsize = size_t (PAGE_SIZE * num_pages); bstart = opt_next_map s in
        if no_map bstart then None
        else Some (bstart + 8, (opt_mapped s 1 num_pages)\<lparr>omem := wr64 (map_zero (omem s) bstart bsize) bstart bsize\<rparr>))"

definition free_list_insert_2048 :: "opt_heap \<Rightarrow> int \<Rightarrow> opt_heap option" where
  "free_list_insert_2048 s node = do {
     (h, m) \<leftarrow> llist_insert (omem s) node (free_list_head_2048 s);
     Some (s\<lparr>omem := m, free_list_head_2048 := h\<rparr>) }"

definition free_list_insert_4096 :: "opt_heap \<Rightarrow> int \<Rightarrow> opt_heap option" where
  "free_list_insert_4096 s node = do {
     (h, m) \<leftarrow> llist_insert (omem s) node (free_list_head_4096 s);
     Some (s\<lparr>omem := m, free_list_head_4096 := h\<rparr>) }"

definition opt_xfree :: "opt_heap \<Rightarrow> int \<Rightarrow> opt_heap option" where
  "opt_xfree s0 item =
     (let s = s0\<lparr>opt_stats := (opt_stats s0)\<lparr>chunks_freed := chunks_freed (opt_stats s0) + 1\<rparr>\<rparr>;
          bstart = item - 8; bsize = rd64 (omem s) bstart in
      if bsize < HALF_PAGE_SIZE then free_list_insert_2048 s bstart
      else if bsize < PAGE_SIZE then free_list_insert_4096 s bstart
      else if bstart mod PAGE_SIZE \<noteq> 0 then None
      else Some (s\<lparr>opt_munmaps := opt_munmaps s @ [(bstart, bsize)],
                  opt_stats := (opt_stats s)\<lparr>pages_unmapped := pages_unmapped (opt_stats s) + bsize div PAGE_SIZE\<rparr>\<rparr>))"

definition opt_xrealloc :: "(int \<Rightarrow> bool) \<Rightarrow> int \<Rightarrow> int \<Rightarrow> opt_heap \<Rightarrow> (int \<times> opt_heap) option" where
  "opt_xrealloc readable item sz s =
     (if item = 0 then opt_xmalloc sz s
      else let hdr = item - 8; bs = rd64 (omem s) hdr in
        if bs > size_t (sz + sizeof_llist_node) then
          (let free_mem = item + sz; m1 = wr64 (wr64 (omem s) hdr sz) free_mem (bs - sz - sizeof_llist_node) in
           if free_list_head_4096 s = 0
           then Some (item, s\<lparr>omem := wr64 m1 (free_mem + 8) 0, free_list_head_4096 := free_mem\<rparr>)
           else do {
             (_, m) \<leftarrow> llist_insert m1 (free_list_head_4096 s) free_mem;
             Some (item, s\<lparr>omem := m\<rparr>) })
        else if bs < sz then do {
          (new_ptr, s1) \<leftarrow> opt_xmalloc sz s;
          m \<leftarrow> copy_bytes readable (omem s1) new_ptr item (rd64 (omem s1) hdr);
          s2 \<leftarrow> opt_xfree (s1\<lparr>omem := m\<rparr>) item;
          Some (new_ptr, s2) }
        else Some (item, s))"

section \<open>hwx\_malloc.c meets the contract\<close>

definition hwx_rep :: "hwx_heap \<Rightarrow> block list \<Rightarrow> bool" where
  "hwx_rep s xs \<longleftrightarrow> hm_rep 8 s xs \<and> \<not> locked s"

lemma locked_rep [simp]: "hm_rep lo (s\<lparr>locked := b\<rparr>) xs = hm_rep lo s xs"
    "hm_rep lo (s\<lparr>free_list_lock_initialized := b\<rparr>) xs = hm_rep lo s xs"
    "next_map (s\<lparr>locked := b\<rparr>) = next_map s" "next_map (s\<lparr>free_list_lock_initialized := b\<rparr>) = next_map s"
  by (simp_all add: hm_rep_def next_map_def)

lemma hwx_xmalloc_small:
  assumes "hwx_rep s xs" and "0 \<le> sz" "sz + 8 < 4096" and "fresh_page (next_map s) xs"
  shows "\<exists>p n s' ys. hwx_xmalloc sz s = Some (p, s') \<and> hwx_rep s' ys \<and> rd64 (hmem s') (p - 8) = n
     \<and> block_at (p - 8) n ys \<and> sz + 8 \<le> n
     \<and> {p - 8..<p - 8 + n} \<union> cover ys = new_bytes (next_map s) (sz + 8) xs \<union> cover xs
     \<and> (\<forall>x. x \<notin> new_bytes (next_map s) (sz + 8) xs \<and> x \<notin> cover xs \<longrightarrow> hmem s' x = hmem s x)"
proof -
  define s1 where "s1 = (if \<not> free_list_lock_initialized s
      then s\<lparr>locked := False, free_list_lock_initialized := True\<rparr> else s)\<lparr>locked := True\<rparr>"
  have s1: "hm_rep 8 s1 xs" "next_map s1 = next_map s" "hmem s1 = hmem s"
    using assms(1) by (simp_all add: s1_def hwx_rep_def)
  obtain p n s2 ys where m: "hm_xmalloc 8 sz s1 = Some (p, s2)" "hm_rep 8 s2 ys" "rd64 (hmem s2) (p - 8) = n"
      "block_at (p - 8) n ys" "sz + 8 \<le> n"
      "{p - 8..<p - 8 + n} \<union> cover ys = new_bytes (next_map s) (sz + 8) xs \<union> cover xs"
      "\<forall>x. x \<notin> new_bytes (next_map s) (sz + 8) xs \<and> x \<notin> cover xs \<longrightarrow> hmem s2 x = hmem s x"
    using hm_xmalloc_small [OF s1(1) _ assms(2,3)] assms(4) s1(2,3) by auto
  have "hwx_xmalloc sz s = Some (p, s2\<lparr>locked := False\<rparr>)"
    using m(1) assms
    by (cases "free_list_lock_initialized s")
       (simp_all add: hwx_xmalloc_def PAGE_SIZE_def mutex_lock_def mutex_unlock_def hwx_rep_def s1_def)
  then show ?thesis
    using m by (intro exI [of _ p] exI [of _ n] exI [of _ "s2\<lparr>locked := False\<rparr>"] exI [of _ ys]) (simp add: hwx_rep_def)
qed

lemma hwx_xfree_small:
  assumes "hwx_rep s xs" and "rd64 (hmem s) (p - 8) = n" "16 \<le> n" "n < 4096" and "block_at (p - 8) n xs"
  shows "\<exists>s' ys. hwx_xfree s p = Some s' \<and> hwx_rep s' ys \<and> cover ys = {p - 8..<p - 8 + n} \<union> cover xs
     \<and> (\<forall>x. x \<notin> {p - 8..<p - 8 + n} \<and> x \<notin> cover xs \<longrightarrow> hmem s' x = hmem s x)"
proof -
  have r: "hm_rep 8 (s\<lparr>locked := True\<rparr>) xs" "rd64 (hmem (s\<lparr>locked := True\<rparr>)) (p - 8) = n"
    using assms(1,2) by (simp_all add: hwx_rep_def)
  obtain s' ys where f: "hm_xfree 8 (s\<lparr>locked := True\<rparr>) p = Some s'" "hm_rep 8 s' ys"
      "cover ys = {p - 8..<p - 8 + n} \<union> cover xs"
      "\<forall>x. x \<notin> {p - 8..<p - 8 + n} \<and> x \<notin> cover xs \<longrightarrow> hmem s' x = hmem s x"
    using hm_xfree_small [OF r(1) _ r(2) _ assms(4,5)] assms(3) by auto
  then show ?thesis
    using assms
    by (intro exI [of _ "s'\<lparr>locked := False\<rparr>"] exI [of _ ys])
       (simp add: hwx_xfree_def PAGE_SIZE_def mutex_lock_def mutex_unlock_def hwx_rep_def)
qed

interpretation hwx: block_allocator hwx_rep hmem next_map hwx_xmalloc hwx_xfree 8
proof (unfold_locales, goal_cases)
  case (2 s xs sz)
  then show ?case using hwx_xmalloc_small [of s xs sz] by fastforce
next
  case (3 s xs p n)
  then show ?case using hwx_xfree_small [of s xs p n] by simp
qed simp

section \<open>Growing a block\<close>

text \<open>Changing bytes that are in no free block keeps the representation.\<close>

lemma hwx_rep_frame:
  assumes "hwx_rep s xs" and "\<And>x. x \<in> cover xs \<Longrightarrow> m x = hmem s x"
  shows "hwx_rep (s\<lparr>hmem := m\<rparr>) xs"
  using assms chain_cong [of 8 0 xs m "hmem s" "free_list_head s"]
  by (simp add: hwx_rep_def hm_rep_def heap_list_def)

lemma hwx_xrealloc_grows:
  assumes rep: "hwx_rep s xs" and blk: "rd64 (hmem s) (item - 8) = n" "16 \<le> n" "block_at (item - 8) n xs"
    and sz: "n < sz" "sz + 8 < 4096" and fp: "fresh_page (next_map s) xs"
    and apart: "{item - 8..<item - 8 + n} \<inter> {next_map s..<next_map s + 4096} = {}" and nn: "item \<noteq> 0"
  shows "if list_all readable [item..item + n - 1] then
       \<exists>p s' ys. hwx_xrealloc readable item sz s = Some (p, s') \<and> hwx_rep s' ys
         \<and> (\<forall>i. 0 \<le> i \<and> i < n - 8 \<longrightarrow> hmem s' (p + i) = hmem s (item + i))
         \<and> {item - 8..<item - 8 + n} \<subseteq> cover ys \<and> {p - 8..<p + sz} \<inter> cover ys = {}
     else hwx_xrealloc readable item sz s = None"
proof -
  let ?old = "{item - 8..<item - 8 + n}"
  obtain p k s1 ys where m: "hwx_xmalloc sz s = Some (p, s1)" "hwx_rep s1 ys" "rd64 (hmem s1) (p - 8) = k"
      "block_at (p - 8) k ys" "sz + 8 \<le> k"
      "{p - 8..<p - 8 + k} \<union> cover ys = new_bytes (next_map s) (sz + 8) xs \<union> cover xs"
      "\<forall>x. x \<notin> new_bytes (next_map s) (sz + 8) xs \<and> x \<notin> cover xs \<longrightarrow> hmem s1 x = hmem s x"
    using hwx_xmalloc_small [OF rep _ sz(2) fp] blk(2) sz(1) by auto
  have out: "x \<notin> new_bytes (next_map s) (sz + 8) xs \<and> x \<notin> cover xs" if "x \<in> ?old" for x
    using that blk(3) apart unfolding block_at_def new_bytes_def by (auto split: if_splits)
  have old1: "hmem s1 x = hmem s x" if "x \<in> ?old" for x using m(7) out [OF that] by blast
  have dj: "?old \<inter> {p - 8..<p - 8 + k} = {}" "?old \<inter> cover ys = {}" using m(6) out by blast+
  define m2 where "m2 = (\<lambda>x. if p \<le> x \<and> x < p + n then hmem s1 (item + (x - p)) else hmem s1 x)"
  have copy: "copy_bytes readable (hmem s1) p item n = (if list_all readable [item..item + n - 1] then Some m2 else None)"
    unfolding copy_bytes_def m2_def by (rule refl)
  have cp: "m2 x = hmem s1 x" if "x \<notin> {p - 8..<p - 8 + k}" for x
    using that sz m(5) by (auto simp: m2_def)
  have nb: "{p - 8..<p - 8 + k} \<inter> cover ys = {}" using m(4) by (simp add: block_at_def)
  have rep2: "hwx_rep (s1\<lparr>hmem := m2\<rparr>) ys" using hwx_rep_frame [OF m(2)] cp nb by blast
  have hdr: "rd64 (hmem s1) (item - 8) = n" "rd64 m2 (item - 8) = n"
  proof -
    have ino: "x \<in> ?old" if "item - 8 \<le> x" "x < item - 8 + 8" for x using that blk(2) by simp
    have "rd64 (hmem s1) (item - 8) = rd64 (hmem s) (item - 8)" by (intro rd64_eq_on old1 ino)
    moreover have "rd64 m2 (item - 8) = rd64 (hmem s1) (item - 8)"
    proof (rule rd64_eq_on)
      fix x assume "item - 8 \<le> x" "x < item - 8 + 8"
      then have "x \<notin> {p - 8..<p - 8 + k}" using ino [of x] dj(1) by blast
      then show "m2 x = hmem s1 x" by (rule cp)
    qed
    ultimately show "rd64 (hmem s1) (item - 8) = n" "rd64 m2 (item - 8) = n" using blk(1) by simp_all
  qed
  have ba: "block_at (item - 8) n ys" using blk(3) dj(2) by (simp add: block_at_def)
  have n4: "n < 4096" using sz by simp
  obtain s2 zs where f: "hwx_xfree (s1\<lparr>hmem := m2\<rparr>) item = Some s2" "hwx_rep s2 zs"
      "cover zs = ?old \<union> cover ys" "\<forall>x. x \<notin> ?old \<and> x \<notin> cover ys \<longrightarrow> hmem s2 x = m2 x"
    using hwx_xfree_small [OF rep2 _ blk(2) n4 ba] hdr(2) by auto
  have run: "hwx_xrealloc readable item sz s = (if list_all readable [item..item + n - 1] then Some (p, s2) else None)"
    using nn blk sz m(1) f(1) hdr(1) copy by (simp add: hwx_xrealloc_def sizeof_llist_node_def)
  have keep: "hmem s2 (p + i) = hmem s (item + i)" if i: "0 \<le> i" "i < n - 8" for i
  proof -
    have in_new: "p + i \<in> {p - 8..<p - 8 + k}" using i sz m(5) by simp
    have "p + i \<notin> ?old" using in_new dj(1) by blast
    moreover have "p + i \<notin> cover ys" using in_new nb by blast
    ultimately have "hmem s2 (p + i) = m2 (p + i)" using f(4) by blast
    also have "\<dots> = hmem s1 (item + i)" using i by (simp add: m2_def)
    also have "\<dots> = hmem s (item + i)" using i by (intro old1) simp
    finally show ?thesis .
  qed
  have "{p - 8..<p + sz} \<subseteq> {p - 8..<p - 8 + k}" using m(5) by auto
  then have "{p - 8..<p + sz} \<inter> cover zs = {}" using f(3) dj(1) nb by blast
  then have "hwx_rep s2 zs \<and> (\<forall>i. 0 \<le> i \<and> i < n - 8 \<longrightarrow> hmem s2 (p + i) = hmem s (item + i))
      \<and> ?old \<subseteq> cover zs \<and> {p - 8..<p + sz} \<inter> cover zs = {}"
    using f(2,3) keep by auto
  then show ?thesis unfolding run by auto
qed

section \<open>Two lists\<close>

definition opt_rep :: "opt_heap \<Rightarrow> block list \<Rightarrow> block list \<Rightarrow> bool" where
  "opt_rep s xs ys \<longleftrightarrow> heap_list 8 (omem s) (free_list_head_2048 s) xs
     \<and> heap_list 8 (omem s) (free_list_head_4096 s) ys \<and> cover xs \<inter> cover ys = {}"

text \<open>An allocation from one list, seen with a second list beside it.\<close>

lemma alloc_beside:
  assumes "heap_list 8 m h xs" "heap_list 8 m h2 ys" "cover xs \<inter> cover ys = {}"
    and "8 \<le> sz" "sz < 4096" and "fresh_page fresh xs" "fresh_page fresh ys"
  shows "\<exists>b n mp h' m' xs'. alloc_small 8 fresh sz m h = Some (b, n, mp, h', m')
     \<and> heap_list 8 (wr64 m' b n) h' xs' \<and> heap_list 8 (wr64 m' b n) h2 ys \<and> cover xs' \<inter> cover ys = {}
     \<and> block_at b n xs' \<and> block_at b n ys \<and> rd64 (wr64 m' b n) b = n \<and> sz \<le> n \<and> n \<le> sz + 16
     \<and> {b..<b + n} \<union> cover xs' = new_bytes fresh sz xs \<union> cover xs"
proof -
  obtain b n mp h' m' zs where a: "alloc_small 8 fresh sz m h = Some (b, n, mp, h', m')"
      "heap_list 8 m' h' zs" "block_at b n zs" "sz \<le> n" "n \<le> sz + 8 + 8"
      "{b..<b + n} \<union> cover zs = new_bytes fresh sz xs \<union> cover xs"
      "\<forall>x. x \<notin> new_bytes fresh sz xs \<and> x \<notin> cover xs \<longrightarrow> m' x = m x"
    using alloc_small_ok [OF assms(1) order_refl assms(4,5,6)] by (elim exE conjE) (rule that, assumption+)
  have far: "new_bytes fresh sz xs \<inter> cover ys = {}" using assms(7) by (auto simp: new_bytes_def fresh_page_def)
  have sub: "{b..<b + n} \<inter> cover ys = {}" "cover zs \<inter> cover ys = {}" using a(6) far assms(3) by blast+
  have ba2: "block_at b n ys" using a(3) sub(1) by (simp add: block_at_def)
  have "m' x = m x" if "x \<in> cover ys" for x using that far assms(3) a(7) by blast
  then have "heap_list 8 m' h2 ys"
    using assms(2) chain_cong [of 8 0 ys m' m h2] by (simp add: heap_list_def)
  from heap_list_header [OF this order_refl ba2, of n] heap_list_header [OF a(2) order_refl a(3), of n]
  have "heap_list 8 (wr64 m' b n) h2 ys" "heap_list 8 (wr64 m' b n) h' zs" using a(4) assms(4) by auto
  moreover have "rd64 (wr64 m' b n) b = n" using a(3,4) assms(4) by (simp add: mem_simps block_at_def)
  ultimately show ?thesis
    using a sub ba2
    by (intro exI [of _ b] exI [of _ n] exI [of _ mp] exI [of _ h'] exI [of _ m'] exI [of _ zs]) simp
qed

section \<open>Properties\<close>

text \<open>C36: what \<open>xrealloc\<close> does with a block of \<open>n\<close> bytes, of which the caller has \<open>n - 8\<close> behind the header, when
  more than these \<open>n - 8\<close> bytes (and at most 4087) are asked for. If more than \<open>n\<close> are asked for and \<open>n\<close> bytes
  from the block's data on, eight more than it has, can be read, it returns a new block that starts with
  the whole content of the old one, puts the old block back on the free list, and keeps the new block
  off it; if the eight bytes behind the block cannot be read, the program ends in the copy. If at most
  \<open>n\<close> bytes are asked for, it returns the old block, which is too small, and changes nothing.\<close>

theorem hwx_xrealloc_grow_correct:
  assumes "hwx_rep s xs" and "rd64 (hmem s) (item - 8) = n" "16 \<le> n" "block_at (item - 8) n xs"
    and "n - 8 < sz" "sz + 8 < 4096" and "fresh_page (next_map s) xs"
    and "{item - 8..<item - 8 + n} \<inter> {next_map s..<next_map s + 4096} = {}" and "item \<noteq> 0"
  shows "if sz \<le> n then hwx_xrealloc readable item sz s = Some (item, s)
     else if list_all readable [item..item + n - 1] then
       \<exists>p s' ys. hwx_xrealloc readable item sz s = Some (p, s') \<and> hwx_rep s' ys
         \<and> (\<forall>i. 0 \<le> i \<and> i < n - 8 \<longrightarrow> hmem s' (p + i) = hmem s (item + i))
         \<and> {item - 8..<item - 8 + n} \<subseteq> cover ys \<and> {p - 8..<p + sz} \<inter> cover ys = {}
     else hwx_xrealloc readable item sz s = None"
proof (cases "sz \<le> n")
  case True
  then show ?thesis using assms(2,3,5,6,9) by (simp add: hwx_xrealloc_def sizeof_llist_node_def)
next
  case False
  then have "n < sz" by simp
  from hwx_xrealloc_grows [OF assms(1-4) this assms(6-9), of readable] False show ?thesis by simp
qed

text \<open>shrinking a block while the free list is not empty loses the list: the arguments of
  \<open>llist_insert\<close> are swapped, so the head of the list is linked to the split-off block and the blocks
  behind the head can no longer be reached.\<close>

theorem hwx_xrealloc_shrink_loses_list:
  assumes "hwx_rep s ((h, k) # xs)" and "rd64 (hmem s) (item - 8) = n" "block_at (item - 8) n ((h, k) # xs)"
    and "0 \<le> sz" "sz + 16 < n" "n < 4096" and "h < item" "item \<noteq> 0"
  shows "\<exists>s'. hwx_xrealloc readable item sz s = Some (item, s') \<and> free_list_head s' = h
     \<and> rd64 (hmem s') (h + 8) = item + sz"
proof -
  have c: "free_list_head s = h" "rd64 (hmem s) h = k" "0 < h" "16 \<le> k" "\<not> locked s"
    using assms(1) by (auto simp: hwx_rep_def hm_rep_def heap_list_def)
  have hk: "{item - 8..<item - 8 + n} \<inter> {h..<h + k} = {}"
    using assms(3) unfolding block_at_def cover.simps by blast
  have le: "h + k \<le> item - 8"
  proof -
    have "\<not> item - 8 < h"
    proof
      assume "item - 8 < h"
      then have "h \<in> {item - 8..<item - 8 + n} \<inter> {h..<h + k}" using assms(4,5,7) c by simp
      with hk show False by blast
    qed
    then show ?thesis using disjoint_after [OF hk] assms(4,5) by simp
  qed
  have range: "item + sz < 18446744073709551616" using assms(3,5) by (simp add: block_at_def)
  define m1 where "m1 = wr64 (wr64 (hmem s) (item - 8) sz) (item + sz) (n - sz - 16)"
  have r: "rd64 m1 h = k" using c le assms(4) by (simp add: m1_def mem_simps)
  have "llist_insert m1 h (item + sz) = Some (h, wr64 m1 (h + 8) (item + sz))"
    using r c le assms(4) by (simp add: llist_insert_def insert_block.simps [of 8 m1 h "item + sz"])
  then have "hwx_xrealloc readable item sz s = Some (item, s\<lparr>hmem := wr64 m1 (h + 8) (item + sz), locked := False\<rparr>)"
    using assms c
    by (simp add: hwx_xrealloc_def hwx_shrink_def sizeof_llist_node_def mutex_lock_def mutex_unlock_def m1_def Let_def)
  then show ?thesis using c range le assms(4) by (simp add: mem_simps)
qed

text \<open>C37: an allocation below a page from either of the two lists of \<open>opt_malloc.c\<close> returns a block of at
  least the size asked for that overlaps neither list, keeps both lists sorted, coalesced and disjoint,
  and loses no free byte.\<close>

theorem opt_xmalloc_correct:
  assumes "opt_rep s xs ys" and "0 \<le> sz" "sz + 8 < 4096"
    and "fresh_page (opt_next_map s) xs" "fresh_page (opt_next_map s) ys"
  shows "\<exists>p n s' xs' ys'. opt_xmalloc sz s = Some (p, s') \<and> opt_rep s' xs' ys' \<and> rd64 (omem s') (p - 8) = n
     \<and> sz + 8 \<le> n \<and> n \<le> sz + 8 + 16 \<and> block_at (p - 8) n xs' \<and> block_at (p - 8) n ys'
     \<and> cover xs \<union> cover ys \<subseteq> {p - 8..<p - 8 + n} \<union> cover xs' \<union> cover ys'"
proof (cases "sz + 8 < 2048")
  case True
  obtain b n mp h' m' xs' where "alloc_small 8 (opt_next_map s) (sz + 8) (omem s) (free_list_head_2048 s) = Some (b, n, mp, h', m')"
      "heap_list 8 (wr64 m' b n) h' xs'" "heap_list 8 (wr64 m' b n) (free_list_head_4096 s) ys" "cover xs' \<inter> cover ys = {}"
      "block_at b n xs'" "block_at b n ys" "rd64 (wr64 m' b n) b = n" "sz + 8 \<le> n" "n \<le> sz + 8 + 16"
      "{b..<b + n} \<union> cover xs' = new_bytes (opt_next_map s) (sz + 8) xs \<union> cover xs"
    using alloc_beside [of "omem s" "free_list_head_2048 s" xs "free_list_head_4096 s" ys "sz + 8" "opt_next_map s"] assms
    by (auto simp: opt_rep_def)
  then show ?thesis
    using True assms(2)
    by (intro exI [of _ "b + 8"] exI [of _ n] exI conjI)
       (auto simp: opt_xmalloc_def HALF_PAGE_SIZE_def opt_next_map_def opt_rep_def opt_mapped_def Let_def)
next
  case False
  obtain b n mp h' m' ys' where "alloc_small 8 (opt_next_map s) (sz + 8) (omem s) (free_list_head_4096 s) = Some (b, n, mp, h', m')"
      "heap_list 8 (wr64 m' b n) h' ys'" "heap_list 8 (wr64 m' b n) (free_list_head_2048 s) xs" "cover ys' \<inter> cover xs = {}"
      "block_at b n ys'" "block_at b n xs" "rd64 (wr64 m' b n) b = n" "sz + 8 \<le> n" "n \<le> sz + 8 + 16"
      "{b..<b + n} \<union> cover ys' = new_bytes (opt_next_map s) (sz + 8) ys \<union> cover ys"
    using alloc_beside [of "omem s" "free_list_head_4096 s" ys "free_list_head_2048 s" xs "sz + 8" "opt_next_map s"] assms
    by (auto simp: opt_rep_def Int_commute)
  then show ?thesis
    using False assms(2,3)
    by (intro exI [of _ "b + 8"] exI [of _ n] exI conjI)
       (auto simp: opt_xmalloc_def HALF_PAGE_SIZE_def PAGE_SIZE_def opt_next_map_def opt_rep_def opt_mapped_def Let_def)
qed

section \<open>Witnesses\<close>

definition hwx_fs :: "mem \<Rightarrow> int \<Rightarrow> hwx_heap" where
  "hwx_fs m h = \<lparr>hmem = m, free_list_head = h, mmap_next = [16384], munmaps = [], stats = stats empty_heap,
     free_list_lock_initialized = True, locked = False\<rparr>"

theorem hwx_xrealloc_grow_correct_witness:
  "(\<exists>p s' ys. hwx_xrealloc (\<lambda>x. 4096 \<le> x \<and> x < 8192) 4104 100 (hwx_fs (wr64 (\<lambda>_. 7) 4096 40) 0) = Some (p, s')
       \<and> hwx_rep s' ys \<and> hmem s' p = 7)
   \<and> hwx_xrealloc (\<lambda>x. 4096 \<le> x \<and> x < 8192) 4104 36 (hwx_fs (wr64 (\<lambda>_. 7) 4096 40) 0)
       = Some (4104, hwx_fs (wr64 (\<lambda>_. 7) 4096 40) 0)
   \<and> hwx_xrealloc (\<lambda>x. 4096 \<le> x \<and> x < 8192) 8160 100 (hwx_fs (wr64 (\<lambda>_. 7) 8152 40) 0) = None"
proof -
  let ?s = "hwx_fs (wr64 (\<lambda>_. 7) 4096 40) 0"
  have r: "hwx_rep ?s []" "next_map ?s = 16384" "rd64 (hmem ?s) 4096 = 40"
    by (simp_all add: hwx_rep_def hm_rep_def heap_list_def hwx_fs_def next_map_def mem_simps)
  let ?t = "hwx_fs (wr64 (\<lambda>_. 7) 8152 40) 0"
  have t: "hwx_rep ?t []" "next_map ?t = 16384" "rd64 (hmem ?t) 8152 = 40"
    by (simp_all add: hwx_rep_def hm_rep_def heap_list_def hwx_fs_def next_map_def mem_simps)
  let ?R = "\<lambda>x :: int. 4096 \<le> x \<and> x < 8192"
  have apart: "{4096..<4136} \<inter> {16384..<20480 :: int} = {}" "{8152..<8192} \<inter> {16384..<20480 :: int} = {}" by simp_all
  have rd: "list_all ?R [4104..4143]" "\<not> list_all ?R [8160..8199]" by (auto simp: list_all_iff)
  obtain p s' ys where g: "hwx_xrealloc ?R 4104 100 ?s = Some (p, s')" "hwx_rep s' ys"
      "\<forall>i. 0 \<le> i \<and> i < 40 - 8 \<longrightarrow> hmem s' (p + i) = hmem ?s (4104 + i)"
    using hwx_xrealloc_grow_correct [of ?s "[]" 4104 40 100 ?R] r rd(1) apart(1) by (auto simp: block_at_def fresh_page_def)
  have same: "hwx_xrealloc ?R 4104 36 ?s = Some (4104, ?s)"
    using hwx_xrealloc_grow_correct [of ?s "[]" 4104 40 36 ?R] r apart(1) by (auto simp: block_at_def fresh_page_def)
  have fault: "hwx_xrealloc ?R 8160 100 ?t = None"
    using hwx_xrealloc_grow_correct [of ?t "[]" 8160 40 100 ?R] t rd(2) apart(2) by (auto simp: block_at_def fresh_page_def)
  have "hmem s' (p + 0) = hmem ?s (4104 + 0)" by (rule g(3) [rule_format]) simp
  then have "hmem s' p = 7" by (simp add: hwx_fs_def wr64_frame)
  with g(1,2) same fault show ?thesis by blast
qed

theorem hwx_xrealloc_shrink_loses_list_witness:
  "\<exists>s'. hwx_xrealloc (\<lambda>_. True) 8200 8 (hwx_fs (wr64 (wr64 (wr64 (\<lambda>_. 0) 4096 32) 4104 0) 8192 100) 4096) = Some (8200, s')
     \<and> rd64 (hmem s') 4104 = 8208"
proof -
  let ?s = "hwx_fs (wr64 (wr64 (wr64 (\<lambda>_. 0) 4096 32) 4104 0) 8192 100) 4096"
  have "hwx_rep ?s [(4096, 32)]" "rd64 (hmem ?s) 8192 = 100" "block_at 8192 100 [(4096, 32)]"
    by (simp_all add: hwx_rep_def hm_rep_def heap_list_def hwx_fs_def mem_simps block_at_def)
  then show ?thesis
    using hwx_xrealloc_shrink_loses_list [of ?s 4096 32 "[]" 8200 100 8 "\<lambda>_. True"] by auto
qed

theorem opt_xmalloc_correct_witness:
  "\<exists>p n s'. opt_xmalloc 3000 \<lparr>omem = (\<lambda>_. 0), free_list_head_2048 = 0, free_list_head_4096 = 0,
        opt_mmap_next = [4096], opt_munmaps = [], opt_stats = stats empty_heap\<rparr> = Some (p, s')
     \<and> rd64 (omem s') (p - 8) = n \<and> 3008 \<le> n \<and> n \<le> 3024"
  using opt_xmalloc_correct [of "\<lparr>omem = (\<lambda>_. 0), free_list_head_2048 = 0, free_list_head_4096 = 0,
        opt_mmap_next = [4096], opt_munmaps = [], opt_stats = stats empty_heap\<rparr>" "[]" "[]" 3000]
  by (auto simp: opt_rep_def heap_list_def opt_next_map_def fresh_page_def)

end
