(* ===== verification/Ch02_Bench.thy ===== *)
theory Ch02_Bench
  imports Prelude
begin

text \<open>
  The benchmark programs \<open>ch02/challenge02/list_main.c\<close> and \<open>ivec_main.c\<close>: threads that share an array of tasks compute, for each number below
  \<open>TOP\<close>, the sequence of the Collatz iteration, at most 50 items at a time, and the number of its steps. One program keeps the sequences as linked lists
  (\<open>list.h\<close>), the other as vectors that grow (\<open>ivec.h\<close>). The threads are the same code but for these calls; the calls are the record
  \<open>trace_ops\<close>, and the interface \<open>trace\<close> says what the threads rely on. It is interpreted for both.

  A linked list is a list, latest item first; the pointer structure and the allocator under it (\<open>Hwx_Malloc\<close>) are not repeated here. A vector has a capacity and
  an array of as many items; \<open>fill\<close> is what new memory holds. A \<open>long\<close> has 64 bits. A thread claims a task with the flag \<open>dibs\<close>, which is read and written
  under the lock of the task; the step relation cuts a thread at these points and between reading and replacing the sequence. The choice of the first task
  (\<open>random\<close>) is free.

  Of \<open>frag_main.c\<close>, the integer square root and the sequence of block sizes.
\<close>

section \<open>The iteration\<close>

definition clong :: "int \<Rightarrow> int" where
  "clong v = (v + 9223372036854775808) mod 18446744073709551616 - 9223372036854775808"

definition collatz_step :: "int \<Rightarrow> int" where
  "collatz_step n = (if cmod n 2 = 0 then cdiv n 2 else clong (3 * n + 1))"

section \<open>list.h\<close>

type_synonym cell = "int list"

definition cons :: "int \<Rightarrow> cell \<Rightarrow> cell" where
  "cons item rest = item # rest"

fun count_cells :: "cell \<Rightarrow> int \<Rightarrow> int" where
  "count_cells [] nn = nn"
| "count_cells (x # xs) nn = count_cells xs (nn + 1)"

fun copy_list :: "cell \<Rightarrow> cell" where
  "copy_list [] = []"
| "copy_list (x # xs) = cons x (copy_list xs)"

fun iterate_cells :: "nat \<Rightarrow> int \<Rightarrow> cell \<Rightarrow> cell" where
  "iterate_cells 0 vv xs = xs"
| "iterate_cells (Suc k) vv xs =
     (if vv \<noteq> 1 then let vv = collatz_step (hd xs) in iterate_cells k vv (cons vv xs) else xs)"

section \<open>ivec.h\<close>

record ivec =
  icap :: int
  isize :: int
  idata :: "int list"

definition make_ivec :: "int \<Rightarrow> int \<Rightarrow> ivec" where
  "make_ivec fill cap0 = \<lparr>icap = cap0, isize = 0, idata = replicate (nat cap0) fill\<rparr>"

definition ivec_push :: "int \<Rightarrow> ivec \<Rightarrow> int \<Rightarrow> ivec" where
  "ivec_push fill xs item =
     (let xs = (if isize xs \<ge> icap xs then xs\<lparr>icap := icap xs * 2, idata := idata xs @ replicate (nat (icap xs)) fill\<rparr> else xs)
      in xs\<lparr>idata := (idata xs)[nat (isize xs) := item], isize := isize xs + 1\<rparr>)"

definition ivec_last :: "ivec \<Rightarrow> int" where
  "ivec_last xs = idata xs ! nat (isize xs - 1)"

fun ivec_copy_from :: "int \<Rightarrow> ivec \<Rightarrow> ivec \<Rightarrow> nat list \<Rightarrow> ivec" where
  "ivec_copy_from fill xs ys [] = ys"
| "ivec_copy_from fill xs ys (i # is) = ivec_copy_from fill xs (ivec_push fill ys (idata xs ! i)) is"

definition ivec_copy :: "int \<Rightarrow> ivec \<Rightarrow> ivec" where
  "ivec_copy fill xs = ivec_copy_from fill xs (make_ivec fill (icap xs)) [0..<nat (isize xs)]"

fun iterate_ivec :: "int \<Rightarrow> nat \<Rightarrow> int \<Rightarrow> ivec \<Rightarrow> ivec" where
  "iterate_ivec fill 0 vv xs = xs"
| "iterate_ivec fill (Suc k) vv xs =
     (if vv \<noteq> 1 then let vv = collatz_step (ivec_last xs) in iterate_ivec fill k vv (ivec_push fill xs vv) else xs)"

section \<open>The threads\<close>

record 'v trace_ops =
  t_make :: "int \<Rightarrow> 'v"
  t_last :: "'v \<Rightarrow> int"
  t_advance :: "'v \<Rightarrow> 'v"
  t_count :: "'v \<Rightarrow> int"

definition list_ops :: "cell trace_ops" where
  "list_ops = \<lparr>t_make = (\<lambda>n. cons n []), t_last = hd, t_advance = (\<lambda>xs. iterate_cells 50 0 (copy_list xs)), t_count = (\<lambda>xs. count_cells xs 0)\<rparr>"

definition ivec_ops :: "int \<Rightarrow> ivec trace_ops" where
  "ivec_ops fill = \<lparr>t_make = (\<lambda>n. ivec_push fill (make_ivec fill 4) n), t_last = ivec_last,
     t_advance = (\<lambda>xs. iterate_ivec fill 50 0 (ivec_copy fill xs)), t_count = isize\<rparr>"

record 'v task =
  vals :: 'v
  steps :: int
  dibs :: bool

text \<open>Where a thread is in \<open>scan_and_iterate\<close>, with its \<open>i0\<close>, \<open>base\<close> and \<open>done_count\<close>.\<close>

datatype 'v place = Scanning nat nat nat | Working nat nat nat | Storing 'v nat nat nat | Leaving nat nat nat | Finished

record 'v system =
  tasks :: "nat \<Rightarrow> 'v task"
  thread :: "nat \<Rightarrow> 'v place"

definition chosen :: "nat \<Rightarrow> nat \<Rightarrow> nat \<Rightarrow> nat" where
  "chosen data_top base i0 = 1 + (base + i0) mod (data_top - 1)"

definition set_task :: "'v system \<Rightarrow> nat \<Rightarrow> 'v task \<Rightarrow> nat \<Rightarrow> 'v place \<Rightarrow> 'v system" where
  "set_task s ii k t p = s\<lparr>tasks := (tasks s)(ii := k), thread := (thread s)(t := p)\<rparr>"

definition go :: "'v system \<Rightarrow> nat \<Rightarrow> 'v place \<Rightarrow> 'v system" where
  "go s t p = s\<lparr>thread := (thread s)(t := p)\<rparr>"

inductive scan_step :: "'v trace_ops \<Rightarrow> nat \<Rightarrow> 'v system \<Rightarrow> 'v system \<Rightarrow> bool" for ops data_top where
  claim: "thread s t = Scanning i0 b d \<Longrightarrow> i0 < data_top \<Longrightarrow> ii = chosen data_top b i0 \<Longrightarrow> \<not> dibs (tasks s ii) \<Longrightarrow>
    scan_step ops data_top s (set_task s ii ((tasks s ii)\<lparr>dibs := True\<rparr>) t (Working i0 b d))"
| busy: "thread s t = Scanning i0 b d \<Longrightarrow> i0 < data_top \<Longrightarrow> dibs (tasks s (chosen data_top b i0)) \<Longrightarrow>
    scan_step ops data_top s (go s t (Scanning (i0 + 1) b d))"
| advance: "thread s t = Working i0 b d \<Longrightarrow> xs = vals (tasks s (chosen data_top b i0)) \<Longrightarrow> t_last ops xs > 1 \<Longrightarrow>
    scan_step ops data_top s (go s t (Storing (t_advance ops xs) i0 b d))"
| store: "thread s t = Storing xs i0 b d \<Longrightarrow> ii = chosen data_top b i0 \<Longrightarrow>
    scan_step ops data_top s (set_task s ii ((tasks s ii)\<lparr>vals := xs\<rparr>) t (Leaving i0 b d))"
| count: "thread s t = Working i0 b d \<Longrightarrow> ii = chosen data_top b i0 \<Longrightarrow> \<not> t_last ops (vals (tasks s ii)) > 1 \<Longrightarrow>
    k = (if steps (tasks s ii) = - 1 then (tasks s ii)\<lparr>steps := t_count ops (vals (tasks s ii)) - 1\<rparr> else tasks s ii) \<Longrightarrow>
    scan_step ops data_top s (set_task s ii k t (Leaving i0 b (d + 1)))"
| leave: "thread s t = Leaving i0 b d \<Longrightarrow> ii = chosen data_top b i0 \<Longrightarrow>
    scan_step ops data_top s (set_task s ii ((tasks s ii)\<lparr>dibs := False\<rparr>) t (Scanning (i0 + 1) b d))"
| again: "thread s t = Scanning i0 b d \<Longrightarrow> \<not> i0 < data_top \<Longrightarrow> d \<noteq> data_top - 1 \<Longrightarrow> b' < data_top \<Longrightarrow>
    scan_step ops data_top s (go s t (Scanning 1 b' 0))"
| finish: "thread s t = Scanning i0 b d \<Longrightarrow> \<not> i0 < data_top \<Longrightarrow> d = data_top - 1 \<Longrightarrow>
    scan_step ops data_top s (go s t Finished)"

definition new_tasks :: "'v trace_ops \<Rightarrow> nat \<Rightarrow> 'v task" where
  "new_tasks ops ii = \<lparr>vals = t_make ops (int ii), steps = - 1, dibs = False\<rparr>"

inductive runs :: "'v trace_ops \<Rightarrow> nat \<Rightarrow> 'v system \<Rightarrow> bool" for ops data_top where
  start: "(\<And>t. \<exists>b < data_top. thread s t = Scanning 1 b 0) \<Longrightarrow> tasks s = new_tasks ops \<Longrightarrow> runs ops data_top s"
| step: "runs ops data_top s \<Longrightarrow> scan_step ops data_top s s' \<Longrightarrow> runs ops data_top s'"

fun max_steps :: "(nat \<Rightarrow> 'v task) \<Rightarrow> nat list \<Rightarrow> nat \<times> int \<Rightarrow> nat \<times> int" where
  "max_steps ts [] m = m"
| "max_steps ts (ii # is) (max_v, max_s) = max_steps ts is (if steps (ts ii) > max_s then (ii, steps (ts ii)) else (max_v, max_s))"

section \<open>Sequences\<close>

text \<open>What the threads rely on: a sequence has items, oldest first.\<close>

fun prolong :: "nat \<Rightarrow> int list \<Rightarrow> int list" where
  "prolong 0 xs = xs"
| "prolong (Suc k) xs = (if last xs = 1 then xs else prolong k (xs @ [collatz_step (last xs)]))"

lemma prolong_nonempty: "xs \<noteq> [] \<Longrightarrow> prolong k xs \<noteq> []"
  by (induction k arbitrary: xs) auto

locale trace =
  fixes ops :: "'v trace_ops" and items :: "'v \<Rightarrow> int list" and ok :: "'v \<Rightarrow> bool"
  assumes make: "ok (t_make ops n) \<and> items (t_make ops n) = [n]"
    and nonempty: "ok v \<Longrightarrow> items v \<noteq> []"
    and last_item: "ok v \<Longrightarrow> t_last ops v = last (items v)"
    and count: "ok v \<Longrightarrow> t_count ops v = int (length (items v))"
    and advance: "ok v \<Longrightarrow> last (items v) \<noteq> 1 \<Longrightarrow> ok (t_advance ops v) \<and> items (t_advance ops v) = prolong 50 (items v)"

lemma count_cells: "count_cells xs nn = nn + int (length xs)"
  by (induction xs arbitrary: nn) auto

lemma copy_list [simp]: "copy_list xs = xs"
  by (induction xs) (auto simp: cons_def)

lemma iterate_cells_prolong:
  "xs \<noteq> [] \<Longrightarrow> (vv = 1 \<longleftrightarrow> hd xs = 1) \<Longrightarrow> iterate_cells k vv xs \<noteq> [] \<and> rev (iterate_cells k vv xs) = prolong k (rev xs)"
proof (induction k arbitrary: vv xs)
  case (Suc k)
  have "last (rev xs) = hd xs" using Suc.prems(1) by (simp add: last_rev)
  then show ?case using Suc.IH [of "cons (collatz_step (hd xs)) xs" "collatz_step (hd xs)"] Suc.prems by (auto simp: cons_def Let_def)
qed simp

interpretation cells: trace list_ops rev "\<lambda>xs. xs \<noteq> []"
proof unfold_locales
  have "iterate_cells 50 0 (copy_list v) \<noteq> [] \<and> rev (iterate_cells 50 0 (copy_list v)) = prolong 50 (rev v)"
    if "v \<noteq> []" "last (rev v) \<noteq> 1" for v
    using iterate_cells_prolong [of v 0 50] that by (simp add: last_rev)
  then show "t_advance list_ops v \<noteq> [] \<and> rev (t_advance list_ops v) = prolong 50 (rev v)" if "v \<noteq> []" "last (rev v) \<noteq> 1" for v
    using that by (simp add: list_ops_def)
qed (simp_all add: list_ops_def cons_def last_rev count_cells)

definition ivec_inv :: "ivec \<Rightarrow> bool" where
  "ivec_inv xs \<longleftrightarrow> 0 < icap xs \<and> 0 \<le> isize xs \<and> isize xs \<le> icap xs \<and> length (idata xs) = nat (icap xs)"

definition ivec_items :: "ivec \<Rightarrow> int list" where
  "ivec_items xs = take (nat (isize xs)) (idata xs)"

lemma ivec_items_length: "ivec_inv xs \<Longrightarrow> int (length (ivec_items xs)) = isize xs"
  by (auto simp: ivec_inv_def ivec_items_def)

lemma ivec_push_items:
  assumes "ivec_inv xs"
  shows "ivec_inv (ivec_push fill xs item) \<and> ivec_items (ivec_push fill xs item) = ivec_items xs @ [item]"
proof -
  define ys where "ys = (if isize xs \<ge> icap xs then xs\<lparr>icap := icap xs * 2, idata := idata xs @ replicate (nat (icap xs)) fill\<rparr> else xs)"
  have y: "0 < icap ys" "isize ys = isize xs" "0 \<le> isize xs" "isize xs < icap ys" "length (idata ys) = nat (icap ys)" "ivec_items ys = ivec_items xs"
    using assms by (auto simp: ivec_inv_def ivec_items_def ys_def nat_mult_distrib)
  have p: "ivec_push fill xs item = ys\<lparr>idata := (idata ys)[nat (isize ys) := item], isize := isize ys + 1\<rparr>" by (simp add: ivec_push_def Let_def ys_def)
  have n: "nat (isize xs + 1) = Suc (nat (isize xs))" "nat (isize xs) < length (idata ys)" using y by auto
  have "take (nat (isize xs + 1)) ((idata ys)[nat (isize xs) := item]) = take (nat (isize xs)) (idata ys) @ [item]"
    using n by (simp add: take_Suc_conv_app_nth)
  then show ?thesis using y by (simp add: p ivec_inv_def ivec_items_def)
qed

lemma ivec_last_item:
  assumes "ivec_inv xs" and "ivec_items xs \<noteq> []"
  shows "ivec_last xs = last (ivec_items xs)"
proof -
  have n: "length (ivec_items xs) = nat (isize xs)" using ivec_items_length [OF assms(1)] by simp
  then have "last (ivec_items xs) = idata xs ! (nat (isize xs) - 1)" using assms(2) by (simp add: last_conv_nth) (simp add: ivec_items_def)
  moreover have "nat (isize xs - 1) = nat (isize xs) - 1" by simp
  ultimately show ?thesis by (simp add: ivec_last_def)
qed

lemma ivec_copy_from_items:
  "ivec_inv ys \<Longrightarrow> ivec_inv (ivec_copy_from fill xs ys is) \<and> ivec_items (ivec_copy_from fill xs ys is) = ivec_items ys @ map ((!) (idata xs)) is"
  using ivec_push_items by (induction "is" arbitrary: ys) auto

lemma ivec_copy_items:
  assumes "ivec_inv xs"
  shows "ivec_inv (ivec_copy fill xs) \<and> ivec_items (ivec_copy fill xs) = ivec_items xs"
proof -
  have m: "ivec_inv (make_ivec fill (icap xs))" "ivec_items (make_ivec fill (icap xs)) = []"
    using assms by (auto simp: ivec_inv_def ivec_items_def make_ivec_def)
  have "map ((!) (idata xs)) [0..<nat (isize xs)] = ivec_items xs"
    using assms by (intro nth_equalityI) (auto simp: ivec_items_def ivec_inv_def)
  then show ?thesis using ivec_copy_from_items [OF m(1), of fill xs "[0..<nat (isize xs)]"] m(2) by (simp add: ivec_copy_def)
qed

lemma iterate_ivec_prolong:
  "ivec_inv xs \<Longrightarrow> ivec_items xs \<noteq> [] \<Longrightarrow> (vv = 1 \<longleftrightarrow> last (ivec_items xs) = 1) \<Longrightarrow>
    ivec_inv (iterate_ivec fill k vv xs) \<and> ivec_items (iterate_ivec fill k vv xs) = prolong k (ivec_items xs) \<and> ivec_items (iterate_ivec fill k vv xs) \<noteq> []"
proof (induction k arbitrary: vv xs)
  case (Suc k)
  let ?v = "collatz_step (ivec_last xs)"
  note P = ivec_push_items [OF Suc.prems(1), of fill ?v]
  show ?case using Suc.IH [of "ivec_push fill xs ?v" ?v] P Suc.prems ivec_last_item [OF Suc.prems(1,2)] by (auto simp: Let_def)
qed simp

interpretation ivecs: trace "ivec_ops fill" ivec_items "\<lambda>xs. ivec_inv xs \<and> ivec_items xs \<noteq> []" for fill
proof unfold_locales
  fix n
  have "ivec_inv (make_ivec fill 4)" "ivec_items (make_ivec fill 4) = []" by (simp_all add: ivec_inv_def ivec_items_def make_ivec_def)
  then show "(ivec_inv (t_make (ivec_ops fill) n) \<and> ivec_items (t_make (ivec_ops fill) n) \<noteq> []) \<and> ivec_items (t_make (ivec_ops fill) n) = [n]"
    using ivec_push_items [of "make_ivec fill 4" fill n] by (simp add: ivec_ops_def)
next
  fix v assume v: "ivec_inv v \<and> ivec_items v \<noteq> []" "last (ivec_items v) \<noteq> 1"
  then show "(ivec_inv (t_advance (ivec_ops fill) v) \<and> ivec_items (t_advance (ivec_ops fill) v) \<noteq> [])
    \<and> ivec_items (t_advance (ivec_ops fill) v) = prolong 50 (ivec_items v)"
    using iterate_ivec_prolong [of "ivec_copy fill v" 0 fill 50] ivec_copy_items [of v fill] prolong_nonempty [of "ivec_items v" 50] by (simp add: ivec_ops_def)
qed (auto simp: ivec_ops_def ivec_last_item ivec_items_length)

section \<open>The threads compute the sequences\<close>

definition trail :: "nat \<Rightarrow> nat \<Rightarrow> int list" where
  "trail n k = map (\<lambda>j. (collatz_step ^^ j) (int n)) [0..<Suc k]"

text \<open>A part of the sequence of \<open>n\<close> that does not go on behind the first 1.\<close>

definition good :: "nat \<Rightarrow> int list \<Rightarrow> bool" where
  "good n xs \<longleftrightarrow> (\<exists>k. xs = trail n k \<and> (\<forall>j < k. (collatz_step ^^ j) (int n) \<noteq> 1))"

lemma trail_last [simp]: "last (trail n k) = (collatz_step ^^ k) (int n)"
  by (simp add: trail_def)

lemma trail_Suc: "trail n k @ [collatz_step ((collatz_step ^^ k) (int n))] = trail n (Suc k)"
  by (simp add: trail_def)

lemma good_prolong: "good n xs \<Longrightarrow> good n (prolong m xs)"
proof (induction m arbitrary: xs)
  case (Suc m)
  then obtain k where k: "xs = trail n k" "\<forall>j < k. (collatz_step ^^ j) (int n) \<noteq> 1" by (auto simp: good_def)
  show ?case
  proof (cases "last xs = 1")
    case False
    have "good n (trail n (Suc k))" using k False by (auto simp: good_def less_Suc_eq intro!: exI [of _ "Suc k"])
    then show ?thesis using Suc.IH [of "trail n (Suc k)"] False k(1) trail_Suc by simp
  qed (use Suc.prems in simp)
qed simp

definition numbers :: "nat \<Rightarrow> nat set" where
  "numbers data_top = {1..<data_top}"

lemma chosen_number:
  assumes "1 < data_top"
  shows "chosen data_top b i0 \<in> numbers data_top"
proof -
  have "(b + i0) mod (data_top - 1) < data_top - 1" using assms by (intro mod_less_divisor) simp
  then show ?thesis by (simp add: chosen_def numbers_def)
qed

lemma mod_shift_inj:
  fixes b i j m :: nat
  assumes "(b + i) mod m = (b + j) mod m" and "i \<le> j" and "1 \<le> i" and "j \<le> m"
  shows "i = j"
proof -
  have "m dvd (b + j) - (b + i)" using assms(1,2) by (intro mod_eq_dvd_iff_nat [THEN iffD1]) simp_all
  then have "m dvd j - i" by simp
  then show ?thesis using assms(2-4) by (auto dest!: dvd_imp_le)
qed

text \<open>In one scan each number is chosen once.\<close>

lemma chosen_all: "chosen data_top b ` {1..<data_top} = numbers data_top"
proof (cases "1 < data_top")
  case True
  have "inj_on (chosen data_top b) {1..<data_top}"
  proof (rule inj_onI)
    fix i j assume ij: "i \<in> {1..<data_top}" "j \<in> {1..<data_top}" "chosen data_top b i = chosen data_top b j"
    then have "(b + i) mod (data_top - 1) = (b + j) mod (data_top - 1)" by (simp add: chosen_def)
    moreover have "1 \<le> i" "1 \<le> j" "i \<le> data_top - 1" "j \<le> data_top - 1" using ij(1,2) by auto
    ultimately show "i = j" using mod_shift_inj [of b i "data_top - 1" j] mod_shift_inj [of b j "data_top - 1" i] by (cases "i \<le> j") simp_all
  qed
  then have "card (chosen data_top b ` {1..<data_top}) = card (numbers data_top)" by (simp add: card_image numbers_def)
  moreover have "chosen data_top b ` {1..<data_top} \<subseteq> numbers data_top" using chosen_number [OF True] by auto
  ultimately show ?thesis by (intro card_subset_eq) (simp_all add: numbers_def)
qed (simp add: numbers_def)

definition holds_task :: "nat \<Rightarrow> 'v place \<Rightarrow> nat option" where
  "holds_task data_top p = (case p of Working i0 b d \<Rightarrow> Some (chosen data_top b i0) | Storing xs i0 b d \<Rightarrow> Some (chosen data_top b i0)
     | Leaving i0 b d \<Rightarrow> Some (chosen data_top b i0) | _ \<Rightarrow> None)"

definition completed :: "'v system \<Rightarrow> nat \<Rightarrow> bool" where
  "completed s ii \<longleftrightarrow> steps (tasks s ii) \<noteq> - 1"

text \<open>The count of a thread is a lower bound of the completed numbers among those of its scan.\<close>

definition counted :: "nat \<Rightarrow> 'v system \<Rightarrow> 'v place \<Rightarrow> bool" where
  "counted data_top s p = (case p of
       Scanning i0 b d \<Rightarrow> 1 \<le> i0 \<and> i0 \<le> data_top \<and> d \<le> card {j \<in> {1..<i0}. completed s (chosen data_top b j)}
     | Working i0 b d \<Rightarrow> 1 \<le> i0 \<and> i0 < data_top \<and> d \<le> card {j \<in> {1..<i0}. completed s (chosen data_top b j)}
     | Storing xs i0 b d \<Rightarrow> 1 \<le> i0 \<and> i0 < data_top \<and> d \<le> card {j \<in> {1..<i0}. completed s (chosen data_top b j)}
     | Leaving i0 b d \<Rightarrow> 1 \<le> i0 \<and> i0 < data_top \<and> d \<le> card {j \<in> {1..<Suc i0}. completed s (chosen data_top b j)}
     | Finished \<Rightarrow> \<forall>ii \<in> numbers data_top. completed s ii)"

lemma counted_mono:
  assumes "counted data_top s p" and "\<And>ii. completed s ii \<Longrightarrow> completed s' ii"
  shows "counted data_top s' p"
proof -
  have "card {j \<in> {1..<i}. completed s (chosen data_top b j)} \<le> card {j \<in> {1..<i}. completed s' (chosen data_top b j)}" for i b
    by (rule card_mono) (use assms(2) in auto)
  then show ?thesis using assms unfolding counted_def by (cases p) (auto intro: le_trans)
qed

text \<open>A task is claimed exactly if one thread works on it. \<open>h\<close> is the task of each thread, \<open>D\<close> the flags.\<close>

definition exclusive :: "(nat \<Rightarrow> nat option) \<Rightarrow> (nat \<Rightarrow> bool) \<Rightarrow> bool" where
  "exclusive h D \<longleftrightarrow> (\<forall>t t' ii. h t = Some ii \<longrightarrow> h t' = Some ii \<longrightarrow> t = t') \<and> (\<forall>ii. D ii = (\<exists>t. h t = Some ii))"

lemma exclusiveD:
  assumes "exclusive h D"
  shows "\<And>t t' ii. h t = Some ii \<Longrightarrow> h t' = Some ii \<Longrightarrow> t = t'" and "\<And>ii. D ii = (\<exists>t. h t = Some ii)"
  using assms unfolding exclusive_def by blast+

lemma exclusive_claim:
  assumes "exclusive h D" and "\<not> D ii" and "h t = None"
  shows "exclusive (h(t := Some ii)) (D(ii := True))"
proof -
  note E = exclusiveD [OF assms(1)]
  have n: "h t' \<noteq> Some ii" for t' using E(2) assms(2) by blast
  have "(\<exists>t'. (h(t := Some ii)) t' = Some k) = (k = ii \<or> (\<exists>t'. h t' = Some k))" for k
  proof
    assume "\<exists>t'. (h(t := Some ii)) t' = Some k"
    then obtain t' where "(h(t := Some ii)) t' = Some k" by blast
    then show "k = ii \<or> (\<exists>t'. h t' = Some k)" by (cases "t' = t") auto
  next
    assume "k = ii \<or> (\<exists>t'. h t' = Some k)"
    then consider "k = ii" | t' where "h t' = Some k" by blast
    then show "\<exists>t'. (h(t := Some ii)) t' = Some k"
    proof cases
      case (2 t')
      then have "t' \<noteq> t" using assms(3) by auto
      then show ?thesis using 2 by (intro exI [of _ t']) simp
    qed (auto intro: exI [of _ t])
  qed
  then have "(D(ii := True)) k = (\<exists>t'. (h(t := Some ii)) t' = Some k)" for k using E(2) [of k] by simp
  moreover have "t1 = t2" if "(h(t := Some ii)) t1 = Some k" "(h(t := Some ii)) t2 = Some k" for t1 t2 k
    using that n [of t1] n [of t2] E(1) [of t1 k t2] by (cases "t1 = t"; cases "t2 = t") auto
  ultimately show ?thesis unfolding exclusive_def by blast
qed

lemma exclusive_leave:
  assumes "exclusive h D" and "h t = Some ii"
  shows "exclusive (h(t := None)) (D(ii := False))"
proof -
  note E = exclusiveD [OF assms(1)]
  have "(\<exists>t'. (h(t := None)) t' = Some k) = (k \<noteq> ii \<and> (\<exists>t'. h t' = Some k))" for k
  proof
    assume "\<exists>t'. (h(t := None)) t' = Some k"
    then obtain t' where "(h(t := None)) t' = Some k" by blast
    then have "t' \<noteq> t" "h t' = Some k" by (auto split: if_splits)
    then show "k \<noteq> ii \<and> (\<exists>t'. h t' = Some k)" using E(1) [OF assms(2), of t'] by auto
  next
    assume k: "k \<noteq> ii \<and> (\<exists>t'. h t' = Some k)"
    then obtain t' where t': "h t' = Some k" by blast
    then have "t' \<noteq> t" using assms(2) k by auto
    then show "\<exists>t'. (h(t := None)) t' = Some k" using t' by (intro exI [of _ t']) simp
  qed
  then have "(D(ii := False)) k = (\<exists>t'. (h(t := None)) t' = Some k)" for k using E(2) [of k] by simp
  moreover have "t1 = t2" if "(h(t := None)) t1 = Some k" "(h(t := None)) t2 = Some k" for t1 t2 k
    using that E(1) [of t1 k t2] by (cases "t1 = t"; cases "t2 = t") auto
  ultimately show ?thesis unfolding exclusive_def by blast
qed

definition holder :: "nat \<Rightarrow> 'v system \<Rightarrow> nat \<Rightarrow> nat option" where
  "holder data_top s t = holds_task data_top (thread s t)"

definition lock_inv :: "nat \<Rightarrow> 'v system \<Rightarrow> bool" where
  "lock_inv data_top s \<longleftrightarrow> exclusive (holder data_top s) (\<lambda>ii. dibs (tasks s ii))"

lemma place_simps [simp]:
  "tasks (go s t p) = tasks s" "thread (go s t p) = (thread s)(t := p)" "thread (set_task s ii k t p) = (thread s)(t := p)"
  "tasks (set_task s ii k t p) = (tasks s)(ii := k)"
  "holds_task data_top (Scanning i0 b d) = None" "holds_task data_top (Working i0 b d) = Some (chosen data_top b i0)"
  "holds_task data_top (Storing xs i0 b d) = Some (chosen data_top b i0)" "holds_task data_top (Leaving i0 b d) = Some (chosen data_top b i0)"
  "holds_task data_top Finished = None"
  by (simp_all add: go_def set_task_def holds_task_def)

lemma holder_upd: "holder data_top (go s t p) = (holder data_top s)(t := holds_task data_top p)"
  "holder data_top (set_task s ii k t p) = (holder data_top s)(t := holds_task data_top p)"
  by (auto simp: holder_def)

lemma lock_inv_same:
  assumes "lock_inv data_top s" and "holder data_top s' = holder data_top s" and "\<And>ii. dibs (tasks s' ii) = dibs (tasks s ii)"
  shows "lock_inv data_top s'"
  using assms by (simp add: lock_inv_def)

lemma lock_inv_step:
  assumes "scan_step ops data_top s s'" and I: "lock_inv data_top s"
  shows "lock_inv data_top s'"
  using assms(1)
proof cases
  case (claim t i0 b d ii)
  have "holder data_top s t = None" using claim(2) by (simp add: holder_def)
  note E = exclusive_claim [OF I [unfolded lock_inv_def] claim(5) this]
  have "(\<lambda>k. dibs (tasks s' k)) = (\<lambda>k. dibs (tasks s k))(ii := True)" using claim(1) by auto
  then show ?thesis using E claim(1,4) by (simp add: lock_inv_def holder_upd)
next
  case (leave t i0 b d ii)
  have "holder data_top s t = Some ii" using leave(2,3) by (simp add: holder_def)
  note E = exclusive_leave [OF I [unfolded lock_inv_def] this]
  have "(\<lambda>k. dibs (tasks s' k)) = (\<lambda>k. dibs (tasks s k))(ii := False)" using leave(1) by auto
  then show ?thesis using E leave(1) by (simp add: lock_inv_def holder_upd)
qed (rule lock_inv_same [OF I], auto simp: holder_def fun_eq_iff)+

text \<open>The counters of a thread in one scan.\<close>

lemma counted_step:
  assumes "scan_step ops data_top s s'" and "\<And>t. counted data_top s (thread s t)" and mono: "\<And>ii. completed s ii \<Longrightarrow> completed s' ii"
    and new: "\<And>t i0 b d. thread s t = Working i0 b d \<Longrightarrow> \<not> t_last ops (vals (tasks s (chosen data_top b i0))) > 1 \<Longrightarrow>
      thread s' t = Leaving i0 b (d + 1) \<Longrightarrow> completed s' (chosen data_top b i0)"
    and pos: "0 < data_top"
  shows "counted data_top s' (thread s' t)"
proof -
  have keep: "counted data_top s' (thread s t)" for t by (rule counted_mono [OF assms(2) mono])
  have up: "card {j \<in> {1..<i}. completed s' (chosen data_top b j)} \<le> card {j \<in> {1..<Suc i}. completed s' (chosen data_top b j)}" for i b
    by (rule card_mono) auto
  show ?thesis using assms(1)
  proof cases
    case (claim t' i0 b d ii)
    then show ?thesis using keep [of t] keep [of t'] by (cases "t = t'") (auto simp: counted_def)
  next
    case (busy t' i0 b d)
    then show ?thesis using keep [of t] keep [of t'] up [of i0 b] by (cases "t = t'") (auto simp: counted_def)
  next
    case (advance t' i0 b d xs)
    then show ?thesis using keep [of t] keep [of t'] by (cases "t = t'") (auto simp: counted_def)
  next
    case (store t' xs i0 b d ii)
    then show ?thesis using keep [of t] keep [of t'] up [of i0 b] by (cases "t = t'") (auto simp: counted_def)
  next
    case (count t' i0 b d ii k)
    have c: "completed s' (chosen data_top b i0)" by (rule new [of t' i0 b d]) (use count in simp_all)
    have "{j \<in> {1..<Suc i0}. completed s' (chosen data_top b j)} = insert i0 {j \<in> {1..<i0}. completed s' (chosen data_top b j)}" if "1 \<le> i0"
      using c that by auto
    then show ?thesis using keep [of t] keep [of t'] count by (cases "t = t'") (auto simp: counted_def)
  next
    case (leave t' i0 b d ii)
    then show ?thesis using keep [of t] keep [of t'] by (cases "t = t'") (auto simp: counted_def)
  next
    case (again t' i0 b d b')
    then show ?thesis using keep [of t] pos by (cases "t = t'") (auto simp: counted_def)
  next
    case (finish t' i0 b d)
    have "i0 = data_top" "data_top - 1 \<le> card {j \<in> {1..<data_top}. completed s' (chosen data_top b j)}"
      using keep [of t'] finish(2-4) by (auto simp: counted_def)
    then have "{j \<in> {1..<data_top}. completed s' (chosen data_top b j)} = {1..<data_top}" by (intro card_seteq) auto
    then have "\<forall>j \<in> {1..<data_top}. completed s' (chosen data_top b j)" by auto
    then have "\<forall>ii \<in> chosen data_top b ` {1..<data_top}. completed s' ii" by blast
    then have "\<forall>ii \<in> numbers data_top. completed s' ii" unfolding chosen_all .
    then show ?thesis using keep [of t] finish(1) by (cases "t = t'") (auto simp: counted_def)
  qed
qed

context trace
begin

text \<open>Each sequence is a part of the right one, and a step count that is set is that of a finished sequence; the sequence that a thread is about to store
  continues the one in the task.\<close>

definition task_inv :: "nat \<Rightarrow> 'v system \<Rightarrow> bool" where
  "task_inv data_top s \<longleftrightarrow>
     (\<forall>ii. ok (vals (tasks s ii)) \<and> good ii (items (vals (tasks s ii)))
        \<and> (completed s ii \<longrightarrow> \<not> last (items (vals (tasks s ii))) > 1 \<and> steps (tasks s ii) = int (length (items (vals (tasks s ii)))) - 1))
     \<and> (\<forall>t xs i0 b d. thread s t = Storing xs i0 b d \<longrightarrow>
          last (items (vals (tasks s (chosen data_top b i0)))) > 1 \<and> xs = t_advance ops (vals (tasks s (chosen data_top b i0))))"

lemma task_invD:
  assumes "task_inv data_top s"
  shows "\<And>ii. ok (vals (tasks s ii))" and "\<And>ii. good ii (items (vals (tasks s ii)))"
    and "\<And>ii. completed s ii \<Longrightarrow> \<not> last (items (vals (tasks s ii))) > 1"
    and "\<And>ii. completed s ii \<Longrightarrow> steps (tasks s ii) = int (length (items (vals (tasks s ii)))) - 1"
    and "\<And>t xs i0 b d. thread s t = Storing xs i0 b d \<Longrightarrow>
      last (items (vals (tasks s (chosen data_top b i0)))) > 1 \<and> xs = t_advance ops (vals (tasks s (chosen data_top b i0)))"
  using assms unfolding task_inv_def by blast+

lemma completed_step:
  assumes "scan_step ops data_top s s'" and "task_inv data_top s" and "completed s ii"
  shows "completed s' ii"
  using assms(1)
proof cases
  case (count t i0 b d jj k)
  then show ?thesis using assms(3) by (auto simp: completed_def)
qed (use assms(3) in \<open>auto simp: completed_def\<close>)

lemma task_inv_same:
  assumes "task_inv data_top s" and "\<And>ii. vals (tasks s' ii) = vals (tasks s ii)" and "\<And>ii. steps (tasks s' ii) = steps (tasks s ii)"
    and "\<And>t xs i0 b d. thread s' t = Storing xs i0 b d \<Longrightarrow>
      last (items (vals (tasks s (chosen data_top b i0)))) > 1 \<and> xs = t_advance ops (vals (tasks s (chosen data_top b i0)))"
  shows "task_inv data_top s'"
  using assms(1) unfolding task_inv_def completed_def assms(2,3) using assms(4) by blast

lemma task_inv_step:
  assumes "scan_step ops data_top s s'" and I: "task_inv data_top s" and L: "lock_inv data_top s"
  shows "task_inv data_top s'"
proof -
  note D = task_invD [OF I]
  show ?thesis using assms(1)
  proof cases
    case (advance t i0 b d xs)
    show ?thesis
      by (rule task_inv_same [OF I])
        (use advance D(5) last_item [OF D(1)] in \<open>auto split: if_splits\<close>)
  next
    case (store t xs i0 b d ii)
    note S = D(5) [OF store(2), folded store(3)]
    have "last (items (vals (tasks s ii))) \<noteq> 1" using S by simp
    note A = advance [OF D(1) this]
    have nc: "\<not> completed s ii" using D(3) [of ii] S by blast
    have other: "chosen data_top b' j \<noteq> ii" if "thread s t' = Storing ys j b' d'" "t' \<noteq> t" for t' ys j b' d'
      using exclusiveD(1) [OF L [unfolded lock_inv_def], of t ii t'] that store(2,3) by (auto simp: holder_def)
    have "ok (vals (tasks s' k)) \<and> good k (items (vals (tasks s' k)))
      \<and> (completed s' k \<longrightarrow> \<not> last (items (vals (tasks s' k))) > 1 \<and> steps (tasks s' k) = int (length (items (vals (tasks s' k)))) - 1)" for k
      using A S nc good_prolong [OF D(2) [of ii]] D(1-4) [of k] store(1) by (cases "k = ii") (auto simp: completed_def)
    moreover have "last (items (vals (tasks s' (chosen data_top b' j)))) > 1 \<and> ys = t_advance ops (vals (tasks s' (chosen data_top b' j)))"
      if "thread s' t' = Storing ys j b' d'" for t' ys j b' d'
    proof -
      have t': "t' \<noteq> t" "thread s t' = Storing ys j b' d'" using that store(1) by (auto split: if_splits)
      then show ?thesis using other [OF t'(2,1)] D(5) [OF t'(2)] store(1) by simp
    qed
    ultimately show ?thesis unfolding task_inv_def by blast
  next
    case (count t i0 b d ii k)
    have "ok (vals (tasks s' j)) \<and> good j (items (vals (tasks s' j)))
      \<and> (completed s' j \<longrightarrow> \<not> last (items (vals (tasks s' j))) > 1 \<and> steps (tasks s' j) = int (length (items (vals (tasks s' j)))) - 1)" for j
      using D(1-4) [of j] count last_item [OF D(1) [of ii]] trace.count [OF trace_axioms, OF D(1) [of ii]] by (cases "j = ii") (auto simp: completed_def)
    moreover have "vals (tasks s' j) = vals (tasks s j)" for j using count by auto
    ultimately show ?thesis unfolding task_inv_def using D(5) count(1) by (auto split: if_splits)
  qed (rule task_inv_same [OF I], use D(5) in \<open>auto split: if_splits\<close>)+
qed

end

section \<open>The result\<close>

definition collatz :: "int \<Rightarrow> int" where
  "collatz n = (if even n then n div 2 else 3 * n + 1)"

text \<open>The number of steps to the first 1.\<close>

definition stops_after :: "nat \<Rightarrow> nat \<Rightarrow> bool" where
  "stops_after n k \<longleftrightarrow> (collatz ^^ k) (int n) = 1 \<and> (\<forall>j < k. (collatz ^^ j) (int n) \<noteq> 1)"

definition fits_long :: "nat \<Rightarrow> bool" where
  "fits_long n \<longleftrightarrow> (\<forall>j. (collatz ^^ j) (int n) \<le> 3074457345618258602)"

text \<open>What \<open>main\<close> prints when the threads are done: a number with the most steps, and how many.\<close>

definition right_result :: "nat \<Rightarrow> (nat \<Rightarrow> 'v task) \<Rightarrow> bool" where
  "right_result data_top ts \<longleftrightarrow> (case max_steps ts [0..<data_top] (0, 0) of (v, k) \<Rightarrow>
     (\<forall>ii \<in> numbers data_top. \<exists>m. stops_after ii m \<and> steps (ts ii) = int m \<and> int m \<le> k)
     \<and> (k = 0 \<or> v \<in> numbers data_top \<and> stops_after v (nat k)))"

lemma collatz_pos: "0 < n \<Longrightarrow> 0 < collatz n"
  by (auto simp: collatz_def elim!: evenE)

lemma collatz_step_fits:
  assumes "0 < n" and "n \<le> 3074457345618258602"
  shows "collatz_step n = collatz n"
  using assms by (auto simp: collatz_step_def collatz_def clong_def even_iff_mod_2_eq_zero)

lemma collatz_step_orbit:
  assumes "fits_long n" and "0 < n"
  shows "(collatz_step ^^ k) (int n) = (collatz ^^ k) (int n) \<and> 0 < (collatz ^^ k) (int n)"
proof (induction k)
  case (Suc k)
  have "(collatz ^^ k) (int n) \<le> 3074457345618258602" using assms(1) by (simp add: fits_long_def)
  then show ?case using Suc collatz_step_fits [of "(collatz ^^ k) (int n)"] collatz_pos [of "(collatz ^^ k) (int n)"] by simp
qed (use assms(2) in simp)

lemma max_steps_spec:
  "max_steps ts is (mv, ms) = (v, k) \<Longrightarrow> ms \<le> k \<and> (\<forall>ii \<in> set is. steps (ts ii) \<le> k) \<and> ((v, k) = (mv, ms) \<or> v \<in> set is \<and> k = steps (ts v))"
proof (induction "is" arbitrary: mv ms)
  case (Cons i "is")
  show ?case using Cons.IH [of "if steps (ts i) > ms then i else mv" "if steps (ts i) > ms then steps (ts i) else ms"] Cons.prems
    by (auto split: if_splits)
qed simp

lemma zero_untouched: "runs ops data_top s \<Longrightarrow> steps (tasks s 0) = - 1"
proof (induction rule: runs.induct)
  case (start s)
  then show ?case by (simp add: new_tasks_def)
next
  case (step s s')
  show ?case using step(2) by cases (use step(3) in \<open>auto simp: chosen_def\<close>)
qed

context trace
begin

lemma runs_inv: "runs ops data_top s \<Longrightarrow> task_inv data_top s \<and> lock_inv data_top s \<and> 0 < data_top \<and> (\<forall>t. counted data_top s (thread s t))"
proof (induction rule: runs.induct)
  case (start s)
  have t: "\<exists>b < data_top. thread s t = Scanning 1 b 0" for t by (rule start)
  then have pos: "0 < data_top" by fastforce
  have "good n [int n]" for n unfolding good_def by (rule exI [of _ 0]) (simp add: trail_def)
  then have "task_inv data_top s" using make t unfolding task_inv_def completed_def
    by (auto simp: start(2) new_tasks_def) (metis place.distinct(3))+
  moreover have "holder data_top s u = None" for u using t [of u] by (auto simp: holder_def)
  then have "lock_inv data_top s" by (simp add: lock_inv_def exclusive_def start(2) new_tasks_def)
  moreover have "counted data_top s (thread s u)" for u using t [of u] pos by (auto simp: counted_def)
  ultimately show ?case using pos by blast
next
  case (step s s')
  have I: "task_inv data_top s'" "lock_inv data_top s'" using step task_inv_step lock_inv_step by blast+
  have "counted data_top s' (thread s' t)" for t
  proof (rule counted_step [OF step(2)])
    show "completed s' (chosen data_top b i0)" if "thread s u = Working i0 b d" "\<not> t_last ops (vals (tasks s (chosen data_top b i0))) > 1"
      "thread s' u = Leaving i0 b (d + 1)" for u i0 b d
      using step(2)
    proof cases
      case (count v j c e ii k)
      have u: "u = v" using that count(1) by (auto split: if_splits)
      have "0 < length (items (vals (tasks s ii)))" using nonempty task_invD(1) step(3) by blast
      then show ?thesis using count u that trace.count [OF trace_axioms, OF task_invD(1), of data_top s ii] step(3) by (auto simp: completed_def)
    qed (use that in \<open>auto split: if_splits\<close>)
  qed (use step completed_step in auto)
  then show ?case using I step by blast
qed

lemma finished_right:
  assumes "runs ops data_top s" and "thread s t = Finished" and "\<And>n. n \<in> numbers data_top \<Longrightarrow> fits_long n"
  shows "right_result data_top (tasks s)"
proof -
  note I = runs_inv [OF assms(1)]
  have st: "\<exists>m. stops_after ii m \<and> steps (tasks s ii) = int m" if ii: "ii \<in> numbers data_top" for ii
  proof -
    have "counted data_top s Finished" using I assms(2) by metis
    then have "completed s ii" using ii by (simp add: counted_def)
    then have fin: "\<not> last (items (vals (tasks s ii))) > 1" "steps (tasks s ii) = int (length (items (vals (tasks s ii)))) - 1"
      using I task_invD(3,4) by blast+
    obtain k where k: "items (vals (tasks s ii)) = trail ii k" "\<forall>j < k. (collatz_step ^^ j) (int ii) \<noteq> 1"
      using I task_invD(2) by (metis good_def)
    have o: "(collatz_step ^^ j) (int ii) = (collatz ^^ j) (int ii) \<and> 0 < (collatz ^^ j) (int ii)" for j
      by (rule collatz_step_orbit [OF assms(3) [OF ii]]) (use ii in \<open>simp add: numbers_def\<close>)
    have "(collatz ^^ k) (int ii) = 1" using fin(1) o [of k] by (simp add: k(1))
    then have "stops_after ii k" using k(2) o by (simp add: stops_after_def)
    moreover have "steps (tasks s ii) = int k" using fin(2) by (simp add: k(1) trail_def)
    ultimately show ?thesis by blast
  qed
  obtain v k where m: "max_steps (tasks s) [0..<data_top] (0, 0) = (v, k)" by (metis surj_pair)
  note M = max_steps_spec [OF m]
  have "\<exists>m. stops_after ii m \<and> steps (tasks s ii) = int m \<and> int m \<le> k" if "ii \<in> numbers data_top" for ii
    using st [OF that] M that by (force simp: numbers_def)
  moreover have "v \<in> numbers data_top \<and> stops_after v (nat k)" if "k \<noteq> 0"
  proof -
    have v: "v < data_top" "k = steps (tasks s v)" using M that by auto
    have "v \<noteq> 0" using v(2) zero_untouched [OF assms(1)] M by (cases "v = 0") auto
    then have "v \<in> numbers data_top" using v(1) by (simp add: numbers_def)
    then show ?thesis using st [of v] v(2) by auto
  qed
  ultimately show ?thesis unfolding right_result_def m by auto
qed

end

text \<open>C10: Both programs print the right result, under every interleaving of any number of threads: once a thread has left its loop, each number below \<open>TOP\<close> has the number of
  steps that the Collatz iteration takes from it to the first 1, and the maximum that \<open>main\<close> finds is the largest of them, with a number that has it. The linked
  lists of one program and the growing vectors of the other give the same. The sequences have to stay in the range of a \<open>long\<close>.\<close>

theorem collatz_correct:
  assumes "\<forall>n \<in> numbers data_top. fits_long n"
  shows "(runs list_ops data_top s \<and> thread s t = Finished \<longrightarrow> right_result data_top (tasks s))
    \<and> (runs (ivec_ops fill) data_top s' \<and> thread s' t' = Finished \<longrightarrow> right_result data_top (tasks s'))"
  using cells.finished_right ivecs.finished_right assms by blast

lemma one_finishes:
  assumes "t_last ops (t_make ops 1) = 1"
  shows "\<exists>s. runs ops 2 s \<and> thread s 0 = Finished"
proof -
  define s0 where "s0 = \<lparr>tasks = new_tasks ops, thread = (\<lambda>_. Scanning 1 0 0)\<rparr>"
  have c: "chosen 2 b i = 1" for b i by (simp add: chosen_def)
  have 0: "runs ops 2 s0" by (rule start) (auto simp: s0_def)
  have "scan_step ops 2 s0 (set_task s0 1 ((tasks s0 1)\<lparr>dibs := True\<rparr>) 0 (Working 1 0 0))"
    by (rule claim) (simp_all add: s0_def c new_tasks_def)
  then obtain s1 where 1: "runs ops 2 s1" "thread s1 0 = Working 1 0 0" "vals (tasks s1 1) = t_make ops 1"
    using step [OF 0] by (force simp: s0_def new_tasks_def)
  have "\<exists>k. scan_step ops 2 s1 (set_task s1 1 k 0 (Leaving 1 0 (0 + 1)))"
    by (intro exI, rule count [OF 1(2)]) (use 1(3) assms c in auto)
  then obtain s2 where 2: "runs ops 2 s2" "thread s2 0 = Leaving 1 0 1" using step [OF 1(1)] by fastforce
  have "scan_step ops 2 s2 (set_task s2 1 ((tasks s2 1)\<lparr>dibs := False\<rparr>) 0 (Scanning (1 + 1) 0 1))" by (rule leave [OF 2(2)]) (simp add: c)
  then obtain s3 where 3: "runs ops 2 s3" "thread s3 0 = Scanning 2 0 1" using step [OF 2(1)] by fastforce
  have "scan_step ops 2 s3 (go s3 0 Finished)" by (rule finish [OF 3(2)]) simp_all
  then show ?thesis using step [OF 3(1)] by force
qed

lemma one_fits: "fits_long 1"
proof -
  have c: "(collatz ^^ j) 1 \<in> {1, 2, 4}" for j by (induction j) (auto simp: collatz_def)
  have "(collatz ^^ j) 1 \<le> 4" for j using c [of j] by auto
  then have "(collatz ^^ j) 1 \<le> 3074457345618258602" for j by (rule order_trans) simp
  then show ?thesis by (simp add: fits_long_def)
qed

theorem collatz_correct_witness:
  "(\<exists>s. runs list_ops 2 s \<and> right_result 2 (tasks s)) \<and> (\<exists>s. runs (ivec_ops 0) 2 s \<and> right_result 2 (tasks s))"
proof -
  have n: "\<forall>n \<in> numbers 2. fits_long n" using one_fits by (auto simp: numbers_def le_Suc_eq numeral_2_eq_2)
  have "t_last list_ops (t_make list_ops 1) = 1" by (simp add: list_ops_def cons_def)
  then obtain s where s: "runs list_ops 2 s" "thread s 0 = Finished" using one_finishes by blast
  have "t_last (ivec_ops 0) (t_make (ivec_ops 0) 1) = 1" using ivecs.last_item [of "t_make (ivec_ops 0) 1" 0] ivecs.make [of 0 1] by simp
  then obtain s' where "runs (ivec_ops 0) 2 s'" "thread s' 0 = Finished" using one_finishes by blast
  then show ?thesis using collatz_correct [OF n] s by blast
qed

section \<open>frag_main.c\<close>

partial_function (option) isqrt_search :: "int \<Rightarrow> int \<Rightarrow> int \<Rightarrow> int option" where
  "isqrt_search xx lo hi =
     (if xx \<le> 1 then Some xx
      else
        let mid0 = cdiv (lo + hi) 2;
            mid1 = mid0 + 1
        in if xx \<ge> clong (mid0 * mid0) \<and> xx < clong (mid1 * mid1) then Some mid0
           else if clong (mid0 * mid0) > xx then isqrt_search xx lo mid0
           else isqrt_search xx mid1 hi)"

definition isqrt :: "int \<Rightarrow> int option" where
  "isqrt xx = isqrt_search xx 1 xx"

text \<open>The size of the next block, with the new state of the generator.\<close>

definition next_size :: "int \<Rightarrow> (int \<times> int) option" where
  "next_size state =
     (let state = cmod (state * 4091 + 1697) 65537
      in if cmod state 3 = 0 then Some (state, state)
         else if cmod state 3 = 1 then Some (state, cmod state 101)
         else map_option (Pair state) (isqrt state))"

lemma clong_id: "0 \<le> v \<Longrightarrow> v < 9223372036854775808 \<Longrightarrow> clong v = v"
  by (simp add: clong_def)

lemma square_mono: "0 \<le> a \<Longrightarrow> a \<le> b \<Longrightarrow> a * a \<le> b * b" for a b :: int
  by (rule mult_mono) auto

lemma isqrt_search_correct:
  assumes "1 < xx" and "1 \<le> lo" and "lo \<le> hi" and "hi < 3037000499" and "lo * lo \<le> xx" and "xx < (hi + 1) * (hi + 1)"
  shows "\<exists>r. isqrt_search xx lo hi = Some r \<and> 0 \<le> r \<and> r * r \<le> xx \<and> xx < (r + 1) * (r + 1)"
  using assms
proof (induction "nat (hi - lo)" arbitrary: lo hi rule: less_induct)
  case less
  note prems = less.prems
  define m where "m = (lo + hi) div 2"
  have m: "lo \<le> m" "m \<le> hi" "cdiv (lo + hi) 2 = m" using prems(2,3) by (auto simp: m_def)
  have "(m + 1) * (m + 1) \<le> 3037000499 * 3037000499" using m(1,2) prems(2,4) by (intro square_mono) auto
  moreover have "m * m \<le> (m + 1) * (m + 1)" using m(1) prems(2) by (intro square_mono) auto
  ultimately have c: "clong (m * m) = m * m" "clong ((m + 1) * (m + 1)) = (m + 1) * (m + 1)" by (auto intro!: clong_id)
  have step: "isqrt_search xx lo hi = (if m * m \<le> xx \<and> xx < (m + 1) * (m + 1) then Some m else if m * m > xx then isqrt_search xx lo m else isqrt_search xx (m + 1) hi)"
    using prems(1) by (subst isqrt_search.simps) (simp only: Let_def m(3) c, simp)
  consider (found) "m * m \<le> xx" "xx < (m + 1) * (m + 1)" | (high) "m * m > xx" | (low) "(m + 1) * (m + 1) \<le> xx" by linarith
  then show ?case
  proof cases
    case found
    then show ?thesis using step m(1) prems(2) by auto
  next
    case high
    have "m \<noteq> lo" using high prems(5) by auto
    then have "m < hi" using m prems(3) by (auto simp: m_def)
    have "m * m \<le> (m + 1) * (m + 1)" using m(1) prems(2) by (intro square_mono) auto
    then have "xx < (m + 1) * (m + 1)" using high by simp
    then show ?thesis using less.hyps [of m lo] \<open>m < hi\<close> m prems high step by auto
  next
    case low
    have "m < hi"
    proof (rule ccontr)
      assume "\<not> m < hi"
      then have "m = hi" using m(2) by simp
      then show False using low prems(6) by simp
    qed
    moreover have "m * m \<le> (m + 1) * (m + 1)" using m(1) prems(2) by (intro square_mono) auto
    ultimately show ?thesis using less.hyps [of hi "m + 1"] low m prems step by auto
  qed
qed

text \<open>The binary search ends and finds the integer square root; the sizes stay below 65537.\<close>

theorem isqrt_correct:
  assumes "0 \<le> xx" and "xx < 3037000499"
  shows "\<exists>r. isqrt xx = Some r \<and> 0 \<le> r \<and> r * r \<le> xx \<and> xx < (r + 1) * (r + 1)"
proof (cases "xx \<le> 1")
  case True
  then have "xx = 0 \<or> xx = 1" using assms(1) by auto
  then show ?thesis by (auto simp: isqrt_def isqrt_search.simps [of 0] isqrt_search.simps [of 1])
next
  case False
  then have "1 * (xx + 1) \<le> (xx + 1) * (xx + 1)" by (intro mult_right_mono) auto
  then have "xx < (xx + 1) * (xx + 1)" using less_le_trans [of xx "1 * (xx + 1)"] by simp
  then show ?thesis unfolding isqrt_def using False assms by (intro isqrt_search_correct) auto
qed

lemma next_size_range:
  assumes "0 \<le> state"
  shows "\<exists>state' size. next_size state = Some (state', size) \<and> 0 \<le> state' \<and> state' < 65537 \<and> 0 \<le> size \<and> size < 65537"
proof -
  define q where "q = (state * 4091 + 1697) mod 65537"
  have s: "0 \<le> q" "q < 65537" by (simp_all add: q_def)
  obtain r where r: "isqrt q = Some r" "0 \<le> r" "r * r \<le> q" using isqrt_correct [of q] s by auto
  have "r < 65537"
  proof (rule ccontr)
    assume "\<not> r < 65537"
    then have "65537 * 65537 \<le> r * r" by (intro square_mono) auto
    then show False using r(3) s by linarith
  qed
  moreover have "0 \<le> q mod 101" "q mod 101 < 65537" using pos_mod_bound [of 101 q] by (simp, linarith)
  moreover have "cmod (state * 4091 + 1697) 65537 = q" using assms by (simp add: q_def)
  ultimately show ?thesis using r s by (simp add: next_size_def)
qed

end
