(* ===== verification/Nush.thy ===== *)
theory Nush
  imports Prelude
begin

text \<open>
  The shell of \<open>ch01/challenge01\<close>: the string vectors of \<open>svec.c\<close>, the tokenizer of \<open>tokenize.c\<close> and the
  commands of \<open>execute_tokens.c\<close> and \<open>nush.c\<close>.

  A C string is a list of characters; reading at or behind its end gives NUL. A failed assertion has no result.
  \<open>parse_operator\<close> allocates one byte less than it writes: the parameter \<open>room\<close> says how many bytes an allocation of \<open>n\<close> bytes really
  has, and a write behind them has no result. What the
  shell does to the outside is a list of events: a program run in a child (with its
  arguments, its redirections, and whether the shell waits), a change of directory, and the end of the shell, by
  \<open>exit\<close> or because another program has replaced it. The exit status of a program is the parameter \<open>status\<close>.
\<close>

section \<open>svec.c\<close>

record svec =
  svsize :: int
  svcap :: int
  svdata :: "string list"

definition make_svec :: svec where
  "make_svec = \<lparr>svsize = 0, svcap = 2, svdata = replicate 2 []\<rparr>"

definition svec_get :: "svec \<Rightarrow> int \<Rightarrow> string option" where
  "svec_get sv ii = (if ii \<ge> 0 \<and> ii < svsize sv then Some (svdata sv ! nat ii) else None)"

definition svec_put :: "svec \<Rightarrow> int \<Rightarrow> string \<Rightarrow> svec option" where
  "svec_put sv ii item =
     (if ii \<ge> 0 \<and> ii < svsize sv then Some (sv\<lparr>svdata := (svdata sv)[nat ii := item]\<rparr>) else None)"

definition svec_push_back :: "svec \<Rightarrow> string \<Rightarrow> svec option" where
  "svec_push_back sv item =
     (let ii = svsize sv;
          sv = (if ii \<ge> svcap sv
                then sv\<lparr>svcap := svcap sv * 2, svdata := svdata sv @ replicate (nat (svcap sv * 2) - length (svdata sv)) []\<rparr>
                else sv);
          sv = sv\<lparr>svsize := ii + 1\<rparr>
      in svec_put sv ii item)"

definition svec_swap :: "svec \<Rightarrow> int \<Rightarrow> int \<Rightarrow> svec option" where
  "svec_swap sv ii jj = do {
     temp \<leftarrow> svec_get sv jj;
     x \<leftarrow> svec_get sv ii;
     sv \<leftarrow> svec_put sv jj x;
     svec_put sv ii temp }"

text \<open>\<open>strncmp(s, t, n) == 0\<close> on strings without their NUL.\<close>

definition strn_equal :: "string \<Rightarrow> string \<Rightarrow> nat \<Rightarrow> bool" where
  "strn_equal s t n = (take n (s @ [NUL]) = take n (t @ [NUL]))"

fun svec_find_from :: "string list \<Rightarrow> string \<Rightarrow> nat \<Rightarrow> int \<Rightarrow> int" where
  "svec_find_from [] item n ii = - 1"
| "svec_find_from (x # xs) item n ii = (if strn_equal x item n then ii else svec_find_from xs item n (ii + 1))"

definition svec_find :: "svec \<Rightarrow> string \<Rightarrow> nat \<Rightarrow> int" where
  "svec_find sv item item_size = svec_find_from (take (nat (svsize sv)) (svdata sv)) item item_size 0"

definition svec_contains :: "svec \<Rightarrow> string \<Rightarrow> nat \<Rightarrow> bool" where
  "svec_contains sv item item_size = (svec_find sv item item_size \<ge> 0)"

definition svec_list :: "svec \<Rightarrow> string list" where
  "svec_list sv = take (nat (svsize sv)) (svdata sv)"

definition svec_ok :: "svec \<Rightarrow> bool" where
  "svec_ok sv \<longleftrightarrow> 0 \<le> svsize sv \<and> svsize sv \<le> svcap sv \<and> 2 \<le> svcap sv \<and> int (length (svdata sv)) = svcap sv"

lemma make_svec_ok [simp]: "svec_ok make_svec" "svec_list make_svec = []"
  by (simp_all add: make_svec_def svec_ok_def svec_list_def)

lemma svec_push_back_ok:
  assumes "svec_ok sv"
  obtains sv' where "svec_push_back sv x = Some sv'" and "svec_ok sv'" and "svec_list sv' = svec_list sv @ [x]"
proof -
  define w where "w = (if svsize sv \<ge> svcap sv
      then sv\<lparr>svcap := svcap sv * 2, svdata := svdata sv @ replicate (nat (svcap sv * 2) - length (svdata sv)) []\<rparr> else sv)"
  have w: "svsize w = svsize sv" "0 \<le> svsize w" "svsize w < svcap w" "2 \<le> svcap w" "int (length (svdata w)) = svcap w"
    "svec_list w = svec_list sv"
    using assms by (auto simp: w_def svec_ok_def svec_list_def)
  define v where "v = w\<lparr>svsize := svsize w + 1, svdata := (svdata w)[nat (svsize w) := x]\<rparr>"
  have "svec_push_back sv x = Some v"
    unfolding svec_push_back_def Let_def w_def [symmetric] using w(1,2) by (simp add: svec_put_def v_def)
  moreover have "svec_ok v" using w by (simp add: v_def svec_ok_def)
  moreover have "svec_list v = svec_list sv @ [x]"
  proof -
    have "nat (svsize w + 1) = Suc (nat (svsize w))" "nat (svsize w) < length (svdata w)" using w by simp_all
    then show ?thesis unfolding w(6) [symmetric] by (simp add: v_def svec_list_def take_Suc_conv_app_nth)
  qed
  ultimately show thesis by (rule that)
qed

lemma svec_get_list: "svec_ok sv \<Longrightarrow> svec_get sv ii = (if 0 \<le> ii \<and> ii < int (length (svec_list sv)) then Some (svec_list sv ! nat ii) else None)"
  by (auto simp: svec_get_def svec_list_def svec_ok_def)

section \<open>tokenize.c\<close>

definition char_at :: "string \<Rightarrow> nat \<Rightarrow> char" where
  "char_at t i = (if i < length t then t ! i else NUL)"

definition isspace :: "char \<Rightarrow> bool" where
  "isspace c = (of_char c = (32 :: nat) \<or> (9 :: nat) \<le> of_char c \<and> of_char c \<le> (13 :: nat))"

definition isdigit :: "char \<Rightarrow> bool" where
  "isdigit c = ((48 :: nat) \<le> of_char c \<and> of_char c \<le> (57 :: nat))"

definition isoperator :: "char \<Rightarrow> bool" where
  "isoperator c = (c = CHR ''<'' \<or> c = CHR ''>'' \<or> c = CHR ''|'' \<or> c = CHR ''&'' \<or> c = CHR '';'')"

definition isbooloperator :: "char \<Rightarrow> bool" where
  "isbooloperator c = (c = CHR ''|'' \<or> c = CHR ''&'')"

definition isnullterminator :: "char \<Rightarrow> bool" where
  "isnullterminator c = (c = NUL)"

text \<open>The counting loops of the three parsers, on the rest of the line.\<close>

fun count_while :: "(char \<Rightarrow> bool) \<Rightarrow> string \<Rightarrow> nat" where
  "count_while Q [] = 0"
| "count_while Q (c # cs) = (if Q c then Suc (count_while Q cs) else 0)"

definition parse_number :: "string \<Rightarrow> nat \<Rightarrow> string" where
  "parse_number t ii = (let nn = count_while isdigit (drop ii t) in take nn (drop ii t))"

definition arg_char :: "char \<Rightarrow> bool" where
  "arg_char c = (\<not> isspace c \<and> \<not> isoperator c \<and> \<not> isnullterminator c)"

definition parse_arg_token :: "string \<Rightarrow> nat \<Rightarrow> string" where
  "parse_arg_token t ii = (let nn = count_while arg_char (drop ii t) in take nn (drop ii t))"

definition parse_operator :: "(nat \<Rightarrow> nat) \<Rightarrow> string \<Rightarrow> nat \<Rightarrow> string option" where
  "parse_operator room t ii =
     (let nn = (if isbooloperator (char_at t (ii + 1)) \<and> char_at t ii = char_at t (ii + 1) then 2 else 1)
      in if nn < room nn then Some (take nn (drop ii t)) else None)"

definition cstrlen :: "string \<Rightarrow> nat" where
  "cstrlen t = length (takeWhile (\<lambda>c. c \<noteq> NUL) t)"

lemma count_while_takeWhile: "take (count_while Q t) t = takeWhile Q t"
  by (induction t) auto

lemma drop_nth_cstr:
  assumes "ii < cstrlen t"
  shows "drop ii t = t ! ii # drop (Suc ii) t" and "t ! ii \<noteq> NUL" and "ii < length t"
proof -
  show lt: "ii < length t" using assms length_takeWhile_le [of "\<lambda>c. c \<noteq> NUL" t] by (simp add: cstrlen_def)
  then show "drop ii t = t ! ii # drop (Suc ii) t" by (simp add: Cons_nth_drop_Suc)
  show "t ! ii \<noteq> NUL" using assms nth_length_takeWhile takeWhile_nth [of ii "\<lambda>c. c \<noteq> NUL" t]
    by (metis (mono_tags, lifting) cstrlen_def nth_mem set_takeWhileD)
qed

function tokenize_loop :: "(nat \<Rightarrow> nat) \<Rightarrow> string \<Rightarrow> svec \<Rightarrow> nat \<Rightarrow> svec option" where
  "tokenize_loop room line xs ii =
     (if ii < cstrlen line then
        if isspace (line ! ii) then tokenize_loop room line xs (ii + 1)
        else if isoperator (line ! ii) then
          (case parse_operator room line ii of
             None \<Rightarrow> None
           | Some tok \<Rightarrow>
               (case svec_push_back xs tok of None \<Rightarrow> None | Some xs \<Rightarrow> tokenize_loop room line xs (ii + length tok)))
        else if isdigit (line ! ii) then
          (let tok = parse_number line ii in
           case svec_push_back xs tok of None \<Rightarrow> None | Some xs \<Rightarrow> tokenize_loop room line xs (ii + length tok))
        else
          (let tok = parse_arg_token line ii in
           case svec_push_back xs tok of None \<Rightarrow> None | Some xs \<Rightarrow> tokenize_loop room line xs (ii + length tok))
      else Some xs)"
  by pat_completeness auto
termination
proof (relation "measure (\<lambda>(room, line, xs, ii). cstrlen line - ii)", goal_cases)
  case (3 room line xs ii tok ys)
  then have "0 < length tok" using drop_nth_cstr(1,3) [of ii line] by (auto simp: parse_operator_def Let_def split: if_splits)
  then show ?case using 3(1) unfolding in_measure prod.case by linarith
next
  case (4 room line xs ii tok ys)
  then have "0 < length tok" using drop_nth_cstr(1) [of ii line] by (simp add: parse_number_def Let_def)
  then show ?case using 4(1) unfolding in_measure prod.case by linarith
next
  case (5 room line xs ii tok ys)
  then have "arg_char (line ! ii)" using drop_nth_cstr(2) [of ii line] by (simp add: arg_char_def isnullterminator_def)
  then have "0 < length tok" using 5 drop_nth_cstr(1) [of ii line] by (simp add: parse_arg_token_def Let_def)
  then show ?case using 5(1) unfolding in_measure prod.case by linarith
qed auto

declare tokenize_loop.simps [simp del]

definition tokenize :: "(nat \<Rightarrow> nat) \<Rightarrow> string \<Rightarrow> svec option" where
  "tokenize room line = tokenize_loop room line make_svec 0"

section \<open>What the tokens are\<close>

text \<open>A lexeme is an operator, single or a doubled \<open>&\<close> or \<open>|\<close>, a number, or a word: a run of characters that are neither spaces nor
  operators and that does not start with a digit.\<close>

definition lexeme :: "string \<Rightarrow> bool" where
  "lexeme t \<longleftrightarrow> t \<noteq> [] \<and> ((\<exists>c. isoperator c \<and> t = [c]) \<or> (\<exists>c. isbooloperator c \<and> t = [c, c])
     \<or> list_all isdigit t \<or> list_all arg_char t \<and> \<not> isdigit (hd t))"

text \<open>How a text splits into tokens: behind spaces comes each time the longest lexeme that the rest of the text starts with.\<close>

definition longest_lexeme :: "string \<Rightarrow> string \<Rightarrow> bool" where
  "longest_lexeme t r \<longleftrightarrow> lexeme t \<and> (\<forall>u v. t @ r = u @ v \<longrightarrow> lexeme u \<longrightarrow> length u \<le> length t)"

inductive splits :: "string \<Rightarrow> string list \<Rightarrow> bool" where
  ends: "list_all isspace sp \<Longrightarrow> splits sp []"
| token: "list_all isspace sp \<Longrightarrow> longest_lexeme t r \<Longrightarrow> splits r ts \<Longrightarrow> splits (sp @ t @ r) (t # ts)"

lemma operator_facts: "isoperator c \<Longrightarrow> \<not> isspace c \<and> \<not> isdigit c \<and> \<not> arg_char c \<and> c \<noteq> NUL"
  by (auto simp: isoperator_def isspace_def isdigit_def arg_char_def)

lemma digit_facts: "isdigit c \<Longrightarrow> \<not> isspace c \<and> arg_char c \<and> \<not> isoperator c \<and> c \<noteq> NUL"
  by (auto simp: isoperator_def isspace_def isdigit_def arg_char_def isnullterminator_def)

lemma bool_operator: "isbooloperator c \<Longrightarrow> isoperator c"
  by (auto simp: isoperator_def isbooloperator_def)

lemma lexeme_chars: "lexeme t \<Longrightarrow> c \<in> set t \<Longrightarrow> \<not> isspace c \<and> c \<noteq> NUL"
  using operator_facts [of c] digit_facts [of c] bool_operator [of c] by (auto simp: lexeme_def list_all_iff arg_char_def isnullterminator_def)

text \<open>The splitting is unique.\<close>

lemma spaces_split:
  assumes "sp @ t @ r = sp' @ u" and "list_all isspace sp" and "list_all isspace sp'" and "lexeme t" and "u = [] \<or> \<not> isspace (hd u)"
  shows "sp = sp' \<and> t @ r = u"
proof -
  have "dropWhile isspace (sp @ t @ r) = t @ r"
  proof -
    obtain c t' where "t = c # t'" "\<not> isspace c" using assms(4) lexeme_chars [OF assms(4)] by (cases t) (auto simp: lexeme_def)
    then show ?thesis using assms(2) by (simp add: dropWhile_append2 list_all_iff)
  qed
  moreover have "dropWhile isspace (sp' @ u) = u" using assms(3,5) by (cases u) (auto simp: dropWhile_append2 list_all_iff)
  ultimately have "t @ r = u" using assms(1) by simp
  then show ?thesis using assms(1) by simp
qed

lemma longest_unique:
  assumes "longest_lexeme t r" and "longest_lexeme u v" and "t @ r = u @ v"
  shows "t = u \<and> r = v"
proof -
  have "length u \<le> length t" using assms(1,3) assms(2) unfolding longest_lexeme_def by blast
  moreover have "length t \<le> length u" using assms(2) assms(3) [symmetric] assms(1) unfolding longest_lexeme_def by blast
  ultimately show ?thesis using assms(3) by simp
qed

lemma splits_unique: "splits s ts \<Longrightarrow> splits s ts' \<Longrightarrow> ts = ts'"
proof (induction arbitrary: ts' rule: splits.induct)
  case (ends sp)
  from ends.prems show ?case
  proof cases
    case (token sp' t r ts)
    then obtain c where "c \<in> set sp" "\<not> isspace c" using lexeme_chars [of t "hd t"] by (cases t) (auto simp: longest_lexeme_def lexeme_def)
    then show ?thesis using ends.hyps by (auto simp: list_all_iff)
  qed simp
next
  case (token sp t r ts)
  have lt: "lexeme t" "\<not> isspace (hd t)" "t \<noteq> []" using token.hyps(2) lexeme_chars [of t "hd t"] by (auto simp: longest_lexeme_def lexeme_def)
  from token.prems show ?case
  proof cases
    case ends
    then show ?thesis using lt by (auto simp: list_all_iff)
  next
    case (token sp' u v us)
    have lu: "lexeme u" "\<not> isspace (hd u)" "u \<noteq> []" using token(4) lexeme_chars [of u "hd u"] by (auto simp: longest_lexeme_def lexeme_def)
    have "t @ r = u @ v" using spaces_split [of sp t r sp' "u @ v"] token(1,3) \<open>list_all isspace sp\<close> lt lu by simp
    then have "t = u" "r = v" using longest_unique [OF \<open>longest_lexeme t r\<close> token(4)] by auto
    then show ?thesis using token(2,5) \<open>\<And>ts'. splits r ts' \<Longrightarrow> ts = ts'\<close> by simp
  qed
qed

lemma splits_space:
  assumes "isspace c" and "splits s ts"
  shows "splits (c # s) ts"
  using assms(2)
proof cases
  case ends
  then show ?thesis using splits.ends [of "c # s"] assms(1) by simp
next
  case (token sp t r us)
  then show ?thesis using splits.token [of "c # sp" t r us] assms(1) by simp
qed

text \<open>Each of the three parsers finds the longest lexeme.\<close>

lemma longest_run:
  assumes "\<And>u. lexeme (c0 # u) \<Longrightarrow> list_all Q (c0 # u)" and "lexeme (takeWhile Q (c0 # s))"
  shows "longest_lexeme (takeWhile Q (c0 # s)) (dropWhile Q (c0 # s))"
  unfolding longest_lexeme_def
proof (intro conjI allI impI)
  fix u v
  assume u: "takeWhile Q (c0 # s) @ dropWhile Q (c0 # s) = u @ v" "lexeme u"
  then have uv: "c0 # s = u @ v" by (simp only: takeWhile_dropWhile_id)
  then obtain u' where "u = c0 # u'" using u(2) by (cases u) (auto simp: lexeme_def)
  then have "list_all Q u" using assms(1) u(2) by blast
  then have "takeWhile Q (u @ v) = u @ takeWhile Q v" by (simp add: list_all_iff takeWhile_append2)
  then show "length u \<le> length (takeWhile Q (c0 # s))" unfolding uv by simp
qed (rule assms(2))

lemma lexeme_first:
  "lexeme (c # u) \<Longrightarrow> isdigit c \<Longrightarrow> list_all isdigit (c # u)"
  "lexeme (c # u) \<Longrightarrow> \<not> isdigit c \<Longrightarrow> \<not> isoperator c \<Longrightarrow> list_all arg_char (c # u)"
  "lexeme (c # u) \<Longrightarrow> isoperator c \<Longrightarrow> u = [] \<or> isbooloperator c \<and> u = [c]"
  using operator_facts digit_facts bool_operator by (auto simp: lexeme_def)

lemma longest_operator:
  assumes "isoperator c"
  shows "isbooloperator c \<Longrightarrow> longest_lexeme [c, c] r" and "\<not> isbooloperator c \<or> r = [] \<or> hd r \<noteq> c \<Longrightarrow> longest_lexeme [c] r"
proof -
  show "longest_lexeme [c, c] r" if "isbooloperator c"
    unfolding longest_lexeme_def
  proof (intro conjI allI impI)
    show "lexeme [c, c]" using that by (simp add: lexeme_def)
    fix u v assume u: "[c, c] @ r = u @ v" "lexeme u"
    then obtain u' where "u = c # u'" by (cases u) (auto simp: lexeme_def)
    then show "length u \<le> length [c, c]" using lexeme_first(3) u(2) assms by fastforce
  qed
  show "longest_lexeme [c] r" if "\<not> isbooloperator c \<or> r = [] \<or> hd r \<noteq> c"
    unfolding longest_lexeme_def
  proof (intro conjI allI impI)
    show "lexeme [c]" using assms by (simp add: lexeme_def)
    fix u v assume u: "[c] @ r = u @ v" "lexeme u"
    then obtain u' where u': "u = c # u'" "r = u' @ v" by (cases u) (auto simp: lexeme_def)
    then show "length u \<le> length [c]" using lexeme_first(3) [of c u'] u(2) assms that by auto
  qed
qed

definition cstr :: "string \<Rightarrow> string" where
  "cstr t = takeWhile (\<lambda>c. c \<noteq> NUL) t"

lemma cstr_rest:
  assumes "ii \<le> cstrlen line"
  obtains rest where "drop ii line = drop ii (cstr line) @ rest" and "rest = [] \<or> hd rest = NUL"
proof
  let ?r = "dropWhile (\<lambda>c. c \<noteq> NUL) line"
  have "ii - length (cstr line) = 0" using assms by (simp add: cstr_def cstrlen_def)
  then have "drop ii (cstr line @ ?r) = drop ii (cstr line) @ ?r" by (simp only: drop_append drop_0)
  then show "drop ii line = drop ii (cstr line) @ ?r" by (simp add: cstr_def)
  show "?r = [] \<or> hd ?r = NUL" using hd_dropWhile [of "\<lambda>c. c \<noteq> NUL" line] by auto
qed

lemma takeWhile_cstr:
  assumes "ii \<le> cstrlen line" and "\<not> Q NUL"
  shows "takeWhile Q (drop ii line) = takeWhile Q (drop ii (cstr line))"
proof -
  obtain rest where "drop ii line = drop ii (cstr line) @ rest" "rest = [] \<or> hd rest = NUL" by (rule cstr_rest [OF assms(1)])
  moreover have "takeWhile Q rest = []" using calculation(2) assms(2) by (cases rest) auto
  ultimately show ?thesis using takeWhile_append [of Q "drop ii (cstr line)" rest] by (metis append_Nil2 takeWhile_eq_all_conv)
qed

lemma takeWhile_all: "list_all Q (takeWhile Q xs)"
  by (induction xs) auto

text \<open>The token at position \<open>ii\<close>.\<close>

definition token_at :: "(nat \<Rightarrow> nat) \<Rightarrow> string \<Rightarrow> nat \<Rightarrow> string option" where
  "token_at room line ii = (if isoperator (line ! ii) then parse_operator room line ii
     else Some (if isdigit (line ! ii) then parse_number line ii else parse_arg_token line ii))"

lemma next_token:
  assumes "ii < cstrlen line" and "\<not> isspace (line ! ii)" and "1 < room 1" and "2 < room 2"
  obtains t r where "token_at room line ii = Some t" and "drop ii (cstr line) = t @ r" and "longest_lexeme t r"
proof -
  note found = that
  define c where "c = line ! ii"
  have w: "drop ii (cstr line) = c # drop (Suc ii) (cstr line)"
    using assms(1) by (simp add: c_def cstr_def cstrlen_def takeWhile_nth Cons_nth_drop_Suc [symmetric])
  have ii: "ii \<le> cstrlen line" using assms(1) by simp
  have nn: "c \<noteq> NUL" using drop_nth_cstr(2) [OF assms(1)] by (simp add: c_def)
  define w' where "w' = drop (Suc ii) (cstr line)"
  have run: thesis if t: "token_at room line ii = Some (takeWhile Q (drop ii line))" and q: "\<not> Q NUL" "\<And>u. lexeme (c # u) \<Longrightarrow> list_all Q (c # u)"
      "lexeme (takeWhile Q (c # w'))" for Q
  proof (rule found)
    show "token_at room line ii = Some (takeWhile Q (c # w'))" using t takeWhile_cstr [of ii line Q, OF ii q(1)] w by (simp add: w'_def)
    show "drop ii (cstr line) = takeWhile Q (c # w') @ dropWhile Q (c # w')" using w unfolding w'_def by (simp only: takeWhile_dropWhile_id)
    show "longest_lexeme (takeWhile Q (c # w')) (dropWhile Q (c # w'))" by (rule longest_run [OF q(2,3)])
  qed
  consider (op) "isoperator c" | (num) "\<not> isoperator c" "isdigit c" | (arg) "\<not> isoperator c" "\<not> isdigit c" by blast
  then show thesis
  proof cases
    case num
    show thesis
    proof (rule run [of isdigit])
      show "lexeme (takeWhile isdigit (c # w'))" using takeWhile_all [of isdigit "c # w'"] num by (simp add: lexeme_def)
    qed (use num lexeme_first(1) in \<open>auto simp: token_at_def c_def parse_number_def Let_def count_while_takeWhile isdigit_def\<close>)
  next
    case arg
    then have ac: "arg_char c" using assms(2) nn by (simp add: arg_char_def isnullterminator_def c_def)
    show thesis
    proof (rule run [of arg_char])
      show "lexeme (takeWhile arg_char (c # w'))" using takeWhile_all [of arg_char "c # w'"] arg ac by (simp add: lexeme_def)
    qed (use arg lexeme_first(2) in \<open>auto simp: token_at_def c_def parse_arg_token_def Let_def count_while_takeWhile arg_char_def isnullterminator_def\<close>)
  next
    case op
    obtain rest where rest: "drop ii line = drop ii (cstr line) @ rest" "rest = [] \<or> hd rest = NUL" by (rule cstr_rest [OF ii])
    have d: "drop ii line = c # w' @ rest" using rest(1) w by (simp add: w'_def)
    have at: "char_at line ii = c" using drop_nth_cstr(3) [OF assms(1)] by (simp add: char_at_def c_def)
    have "drop (Suc ii) line = w' @ rest" using d by (metis drop_Suc list.sel(3) tl_drop)
    then have at1: "char_at line (ii + 1) = (if w' = [] then NUL else hd w')"
      using rest(2) by (cases "Suc ii < length line") (auto simp: char_at_def hd_drop_conv_nth [symmetric] hd_append)
    show thesis
    proof (cases "isbooloperator c \<and> w' \<noteq> [] \<and> hd w' = c")
      case True
      then obtain v where v: "w' = c # v" by (cases w') auto
      show thesis
      proof (rule that)
        show "token_at room line ii = Some [c, c]" using op at at1 True d v assms(4) by (simp add: token_at_def parse_operator_def c_def [symmetric])
        show "drop ii (cstr line) = [c, c] @ v" using w v by (simp add: w'_def)
        show "longest_lexeme [c, c] v" using longest_operator(1) [OF op] True by simp
      qed
    next
      case False
      have nb: "\<not> (isbooloperator (char_at line (ii + 1)) \<and> char_at line ii = char_at line (ii + 1))"
        using False nn unfolding at at1 by auto
      show thesis
      proof (rule that)
        show "token_at room line ii = Some [c]" using op nb d assms(3) by (auto simp: token_at_def parse_operator_def c_def [symmetric])
        show "drop ii (cstr line) = [c] @ w'" using w by (simp add: w'_def)
        show "longest_lexeme [c] w'" using longest_operator(2) [OF op] False by blast
      qed
    qed
  qed
qed

lemma tokenize_loop_splits:
  assumes "svec_ok xs" and "1 < room 1" and "2 < room 2"
  shows "\<exists>ys toks. tokenize_loop room line xs ii = Some ys \<and> svec_ok ys \<and> svec_list ys = svec_list xs @ toks \<and> splits (drop ii (cstr line)) toks"
  using assms(1)
proof (induction "cstrlen line - ii" arbitrary: xs ii rule: less_induct)
  case less
  note unf = tokenize_loop.simps [of room line xs ii]
  consider (stop) "\<not> ii < cstrlen line" | (space) "ii < cstrlen line" "isspace (line ! ii)"
    | (tok) "ii < cstrlen line" "\<not> isspace (line ! ii)" by blast
  then show ?case
  proof cases
    case stop
    then have "drop ii (cstr line) = []" by (simp add: cstrlen_def cstr_def)
    then show ?thesis using stop less.prems unf splits.ends [of "[]"] by simp
  next
    case space
    then have "drop ii (cstr line) = line ! ii # drop (Suc ii) (cstr line)"
      by (simp add: cstr_def cstrlen_def takeWhile_nth Cons_nth_drop_Suc [symmetric])
    moreover have "tokenize_loop room line xs ii = tokenize_loop room line xs (ii + 1)" using space unf by simp
    moreover have "cstrlen line - (ii + 1) < cstrlen line - ii" using space(1) by linarith
    ultimately show ?thesis using less.hyps [of "ii + 1" xs] less.prems splits_space space(2) by fastforce
  next
    case tok
    obtain t r where t: "token_at room line ii = Some t" "drop ii (cstr line) = t @ r" "longest_lexeme t r"
      by (rule next_token [OF tok assms(2,3)])
    obtain zs where zs: "svec_push_back xs t = Some zs" "svec_ok zs" "svec_list zs = svec_list xs @ [t]"
      by (rule svec_push_back_ok [OF less.prems])
    have step: "tokenize_loop room line xs ii = tokenize_loop room line zs (ii + length t)"
      using tok zs(1) t(1) unf by (auto simp: token_at_def Let_def split: if_splits)
    have "0 < length t" using t(3) by (simp add: longest_lexeme_def lexeme_def)
    then have "cstrlen line - (ii + length t) < cstrlen line - ii" using tok(1) by linarith
    from less.hyps [OF this zs(2)] obtain ys toks where ih: "tokenize_loop room line zs (ii + length t) = Some ys" "svec_ok ys"
      "svec_list ys = svec_list zs @ toks" "splits (drop (ii + length t) (cstr line)) toks" by blast
    have "drop (ii + length t) (cstr line) = r" using t(2) by (metis add.commute append_eq_conv_conj drop_drop)
    then have "splits (drop ii (cstr line)) (t # toks)" using splits.token [of "[]" t r toks] t(2,3) ih(4) by simp
    then show ?thesis using ih zs(3) step by (intro exI [of _ ys] exI [of _ "t # toks"]) simp
  qed
qed

text \<open>C39: Tokenizing always ends, and its tokens are those of the maximal-munch rule: behind spaces, each time the longest lexeme (an operator,
  \<open>&&\<close> or \<open>||\<close>, a number or a word) that the rest of the line starts with; no other list of tokens satisfies the rule. This holds when an allocation of one or two bytes
  has a byte more than was asked for, because \<open>parse_operator\<close> writes one byte behind what it allocates.\<close>

theorem tokenize_correct:
  assumes "1 < room 1" and "2 < room 2"
  shows "\<exists>sv. tokenize room line = Some sv \<and> svec_ok sv \<and> (\<forall>ts. splits (cstr line) ts \<longleftrightarrow> ts = svec_list sv)"
proof -
  obtain sv where sv: "tokenize room line = Some sv" "svec_ok sv" "splits (cstr line) (svec_list sv)"
    using tokenize_loop_splits [of make_svec room line 0] assms by (auto simp: tokenize_def)
  then have "splits (cstr line) ts \<longleftrightarrow> ts = svec_list sv" for ts using splits_unique by blast
  then show ?thesis using sv(1,2) by blast
qed

theorem tokenize_correct_witness:
  "\<exists>sv. tokenize (\<lambda>n. 24) ''ls -l&&wc'' = Some sv \<and> svec_ok sv \<and> svec_list sv = [''ls'', ''-l'', ''&&'', ''wc'']"
proof -
  obtain sv where sv: "tokenize (\<lambda>n. 24) ''ls -l&&wc'' = Some sv" "svec_ok sv" "splits (cstr ''ls -l&&wc'') (svec_list sv)"
    using tokenize_correct [of "\<lambda>n. 24" "''ls -l&&wc''"] by auto
  have "map_option svec_list (tokenize (\<lambda>n. 24) ''ls -l&&wc'') = Some [''ls'', ''-l'', ''&&'', ''wc'']" by code_simp
  then show ?thesis using sv by auto
qed

text \<open>Where an allocation has only the bytes that were asked for, every operator is written outside of its object.\<close>

theorem operator_overflows: "isoperator (line ! ii) \<Longrightarrow> parse_operator (\<lambda>n. n) line ii = None"
  by (simp add: parse_operator_def Let_def)

section \<open>execute\_tokens.c\<close>

text \<open>
  \<open>Run r prog args waited\<close>: a child, with the redirection \<open>r\<close>, executes \<open>prog\<close>; a child that fails an assertion first
  has no \<open>prog\<close>.
\<close>

datatype redirection = Plain | To_file string | From_file string | To_pipe | From_pipe

datatype event = Run redirection "string option" "string list" bool | Chdir string

datatype shell = Alive | Exited | Replaced string "string list"

type_synonym effect = "event list \<times> shell"

definition execute_cd :: "svec \<Rightarrow> effect option" where
  "execute_cd cmd = do { dir \<leftarrow> svec_get cmd 1; Some ([Chdir dir], Alive) }"

definition execute_base_case :: "svec \<Rightarrow> effect option" where
  "execute_base_case xs = do {
     prog \<leftarrow> svec_get xs 0;
     if strn_equal prog ''cd'' 2 then execute_cd xs
     else if strn_equal prog ''exit'' 4 then Some ([], Exited)
     else Some ([Run Plain (Some prog) (svec_list xs) True], Alive) }"

text \<open>The position of the first operator; the arguments in front of it.\<close>

fun find_op :: "string \<Rightarrow> nat \<Rightarrow> string list \<Rightarrow> int \<Rightarrow> int option" where
  "find_op op n [] ii = None"
| "find_op op n (t # ts) ii = (if strn_equal t op n then Some ii else find_op op n ts (ii + 1))"

fun args_before :: "string \<Rightarrow> nat \<Rightarrow> string list \<Rightarrow> string list" where
  "args_before op n [] = []"
| "args_before op n (t # ts) = (if strn_equal t op n then [] else t # args_before op n ts)"

text \<open>The loop that collects the arguments behind the operator: \<open>build_args\<close>, the position of the
  last operator, and \<open>args\<close>.\<close>

fun args_after :: "string \<Rightarrow> nat \<Rightarrow> string list \<Rightarrow> int \<Rightarrow> bool \<Rightarrow> int \<Rightarrow> int \<times> string list" where
  "args_after op n [] ii build opii = (opii, [])"
| "args_after op n (t # ts) ii build opii =
     (if strn_equal t op n then args_after op n ts (ii + 1) True ii
      else let (k, args) = args_after op n ts (ii + 1) build opii in (k, if build then t # args else args))"

datatype direction = REDIRECT_IN | REDIRECT_OUT

definition execute_redirect :: "svec \<Rightarrow> direction \<Rightarrow> effect option" where
  "execute_redirect tokens dir = do {
     let cc = (case dir of REDIRECT_OUT \<Rightarrow> ''>'' | REDIRECT_IN \<Rightarrow> ''<'');
     ii \<leftarrow> find_op cc 1 (svec_list tokens) 0;
     fout \<leftarrow> svec_get tokens (ii + 1);
     if length fout \<ge> 100 then None
     else Some ([Run (case dir of REDIRECT_OUT \<Rightarrow> To_file fout | REDIRECT_IN \<Rightarrow> From_file fout)
                   (svec_get tokens 0) (args_before cc 1 (svec_list tokens)) True], Alive) }"

definition execute_redirect_in :: "svec \<Rightarrow> effect option" where
  "execute_redirect_in tokens = execute_redirect tokens REDIRECT_IN"

definition execute_redirect_out :: "svec \<Rightarrow> effect option" where
  "execute_redirect_out tokens = execute_redirect tokens REDIRECT_OUT"

definition execute_pipe :: "svec \<Rightarrow> effect option" where
  "execute_pipe tokens =
     (let (pipeii, args) = args_after ''|'' 2 (svec_list tokens) 0 False 0
      in Some ([Run To_pipe (svec_get tokens 0) (args_before ''|'' 2 (svec_list tokens)) True,
                Run From_pipe (svec_get tokens (pipeii + 1)) args True], Alive))"

definition execute_background :: "svec \<Rightarrow> effect option" where
  "execute_background tokens = Some ([Run Plain (svec_get tokens 0) (svec_list tokens) False], Alive)"

datatype logic_op = LOGICAL_AND | LOGICAL_OR

definition execute_logic :: "(string list \<Rightarrow> nat) \<Rightarrow> svec \<Rightarrow> logic_op \<Rightarrow> effect option" where
  "execute_logic status tokens opFlag =
     (let op = (case opFlag of LOGICAL_AND \<Rightarrow> ''&&'' | LOGICAL_OR \<Rightarrow> ''||'');
          left = args_before op 2 (svec_list tokens);
          ran = Run Plain (svec_get tokens 0) left True
      in if opFlag = LOGICAL_OR \<and> status left \<noteq> 0 \<or> opFlag = LOGICAL_AND \<and> status left = 0 then
           (let (opii, args) = args_after op 2 (svec_list tokens) 0 False 0
            in do {
              prog \<leftarrow> svec_get tokens (opii + 1);
              Some ([ran], if strn_equal prog ''exit'' 4 then Exited else Replaced prog args) })
         else Some ([ran], Alive))"

definition execute_logical_and :: "(string list \<Rightarrow> nat) \<Rightarrow> svec \<Rightarrow> effect option" where
  "execute_logical_and status tokens = execute_logic status tokens LOGICAL_AND"

definition execute_logical_or :: "(string list \<Rightarrow> nat) \<Rightarrow> svec \<Rightarrow> effect option" where
  "execute_logical_or status tokens = execute_logic status tokens LOGICAL_OR"

section \<open>nush.c\<close>

definition execute :: "(string list \<Rightarrow> nat) \<Rightarrow> svec \<Rightarrow> effect option" where
  "execute status cmd =
     (if svec_contains cmd ''<'' 1 then execute_redirect_in cmd
      else if svec_contains cmd ''>'' 1 then execute_redirect_out cmd
      else if svec_contains cmd ''&&'' 2 then execute_logical_and status cmd
      else if svec_contains cmd ''||'' 2 then execute_logical_or status cmd
      else if svec_contains cmd ''|'' 1 then execute_pipe cmd
      else if svec_contains cmd ''&'' 1 then execute_background cmd
      else execute_base_case cmd)"

definition chomp :: "string \<Rightarrow> string" where
  "chomp t = takeWhile (\<lambda>c. c \<noteq> CHR 0x0A) t"

text \<open>The two loops of \<open>main\<close>, over the lines that \<open>fgets\<close> delivers.\<close>

fun run_interactive :: "(nat \<Rightarrow> nat) \<Rightarrow> (string list \<Rightarrow> nat) \<Rightarrow> string list \<Rightarrow> effect option" where
  "run_interactive room status [] = Some ([], Alive)"
| "run_interactive room status (cmd # cmds) =
     (if char_at cmd 0 \<noteq> CHR 0x0A then do {
        tokens \<leftarrow> tokenize room cmd;
        (ev, sh) \<leftarrow> execute status tokens;
        if sh = Alive then do { (ev', sh') \<leftarrow> run_interactive room status cmds; Some (ev @ ev', sh') }
        else Some (ev, sh) }
      else run_interactive room status cmds)"

fun run_script :: "(nat \<Rightarrow> nat) \<Rightarrow> (string list \<Rightarrow> nat) \<Rightarrow> string list \<Rightarrow> effect option" where
  "run_script room status [] = Some ([], Alive)"
| "run_script room status (cmd # cmds) = do {
     tokens \<leftarrow> tokenize room (chomp cmd);
     (ev, sh) \<leftarrow> execute status tokens;
     if sh = Alive then do { (ev', sh') \<leftarrow> run_script room status cmds; Some (ev @ ev', sh') }
     else Some (ev, sh) }"

section \<open>Commands\<close>

lemma svec_find_from_iff: "0 \<le> ii \<Longrightarrow> 0 \<le> svec_find_from xs item n ii \<longleftrightarrow> (\<exists>x \<in> set xs. strn_equal x item n)"
  by (induction xs arbitrary: ii) auto

lemma svec_contains_iff: "svec_contains sv item n \<longleftrightarrow> (\<exists>x \<in> set (svec_list sv). strn_equal x item n)"
  using svec_find_from_iff [of 0] by (simp add: svec_contains_def svec_find_def svec_list_def)

lemma args_before_split:
  "\<forall>x \<in> set xs. \<not> strn_equal x op n \<Longrightarrow> args_before op n (xs @ zs) = xs @ args_before op n zs"
  by (induction xs) auto

lemma args_after_plain:
  "\<forall>x \<in> set ys. \<not> strn_equal x op n \<Longrightarrow> args_after op n ys ii build opii = (opii, if build then ys else [])"
  by (induction ys arbitrary: ii) auto

lemma args_after_split:
  "\<forall>x \<in> set xs. \<not> strn_equal x op n \<Longrightarrow> strn_equal t op n \<Longrightarrow> \<forall>y \<in> set ys. \<not> strn_equal y op n
     \<Longrightarrow> args_after op n (xs @ t # ys) ii False opii = (ii + int (length xs), ys)"
  by (induction xs arbitrary: ii) (auto simp: args_after_plain)

text \<open>A word: a token that is no operator.\<close>

definition word :: "string \<Rightarrow> bool" where
  "word t \<longleftrightarrow> t \<noteq> [] \<and> \<not> isoperator (hd t) \<and> hd t \<noteq> NUL"

lemma strn_equal_first: "word x \<Longrightarrow> isoperator (hd op) \<Longrightarrow> op \<noteq> [] \<Longrightarrow> 0 < n \<Longrightarrow> \<not> strn_equal x op n"
  by (cases x; cases op; cases n) (auto simp: word_def strn_equal_def)

lemma word_not_op:
  assumes "word x"
  shows "\<not> strn_equal x ''<'' 1" "\<not> strn_equal x ''>'' 1" "\<not> strn_equal x ''&&'' 2" "\<not> strn_equal x ''||'' 2"
    "\<not> strn_equal x ''|'' 1" "\<not> strn_equal x ''|'' 2" "\<not> strn_equal x ''&'' 1"
  using strn_equal_first [OF assms] by (simp_all add: isoperator_def)

text \<open>A conjunction whose left side succeeds does not come back to the shell: the right side is executed by the
  shell process itself, so nothing after such a line is ever run.\<close>

theorem nush_and_replaces_shell:
  assumes "svec_ok cmd" and "svec_list cmd = xs @ [''&&''] @ ys" and "xs \<noteq> []" and "ys \<noteq> []"
    and "\<forall>x \<in> set xs \<union> set ys. word x" and "status xs = 0" and "\<not> strn_equal (hd ys) ''exit'' 4"
  shows "execute status cmd = Some ([Run Plain (Some (hd xs)) xs True], Replaced (hd ys) ys)"
proof -
  have ops: "\<not> svec_contains cmd ''<'' 1" "\<not> svec_contains cmd ''>'' 1" "svec_contains cmd ''&&'' 2"
    using assms(5) word_not_op by (auto simp: svec_contains_iff assms(2) strn_equal_def)
  have n: "\<forall>x \<in> set xs. \<not> strn_equal x ''&&'' 2" "\<forall>y \<in> set ys. \<not> strn_equal y ''&&'' 2"
    using assms(5) word_not_op(3) by auto
  have self: "strn_equal ''&&'' ''&&'' 2" by (simp add: strn_equal_def)
  have left: "args_before ''&&'' 2 (svec_list cmd) = xs"
    using args_before_split [OF n(1), of "''&&'' # ys"] self by (simp add: assms(2))
  have right: "args_after ''&&'' 2 (svec_list cmd) 0 False 0 = (int (length xs), ys)"
    using args_after_split [OF n(1) self n(2), of 0 0] by (simp add: assms(2))
  have "svec_get cmd 0 = Some (hd xs)"
    using assms(3) by (simp add: svec_get_list [OF assms(1)] assms(2) hd_conv_nth nth_append)
  moreover have "svec_get cmd (int (length xs) + 1) = Some (hd ys)"
    using assms(4) by (simp add: svec_get_list [OF assms(1)] assms(2) hd_conv_nth nth_append nat_add_distrib)
  ultimately show ?thesis
    using ops left right assms(6,7) by (simp add: execute_def execute_logical_and_def execute_logic_def Let_def)
qed

theorem nush_and_replaces_shell_witness:
  "\<exists>cmd. svec_list cmd = [''true'', ''&&'', ''ls''] \<and> execute (\<lambda>_. 0) cmd = Some ([Run Plain (Some ''true'') [''true''] True], Replaced ''ls'' [''ls''])"
proof -
  define cmd where "cmd = \<lparr>svsize = 3, svcap = 4, svdata = [''true'', ''&&'', ''ls'', []]\<rparr>"
  have ok: "svec_ok cmd" "svec_list cmd = [''true''] @ [''&&''] @ [''ls'']" by (simp_all add: cmd_def svec_ok_def svec_list_def)
  have "execute (\<lambda>_. 0) cmd = Some ([Run Plain (Some (hd [''true''])) [''true''] True], Replaced (hd [''ls'']) [''ls''])"
    by (rule nush_and_replaces_shell [OF ok]) (simp_all add: word_def isoperator_def strn_equal_def)
  with ok(2) show ?thesis by auto
qed

end
