(* ===== verification/Xv6_Log.thy ===== *)
theory Xv6_Log
  imports Prelude
begin

text \<open>
  The write-ahead log of xv6, \<open>hw09/unnas-hw09/xv6/log.c\<close>.

  The disk maps block numbers to block contents (bytes by offset). \<open>dirty\<close> holds the buffers
  pinned in the cache by \<open>log_write\<close>: \<open>bread\<close> sees them before the disk, \<open>bwrite\<close> writes one
  through. Every write of a block is atomic and is recorded in \<open>history\<close> as the content of the
  disk after it, so that a crash at any moment leaves a disk of the history. The header block
  holds the number of logged blocks and their numbers as 32-bit integers. A panic and a call
  that sleeps have no result (\<open>None\<close>). A header with more than \<open>LOGSIZE\<close> entries would overrun the array of \<open>read_head\<close>; the theorems
  are about disks whose header is one that the log has written (\<open>loggable\<close>). The commit of the last call is one step for the other calls, which wait while
  \<open>committing\<close> is set; its single writes are those of \<open>history\<close>.
\<close>

section \<open>Blocks\<close>

definition LOGSIZE :: int where "LOGSIZE = 30"
definition MAXOPBLOCKS :: int where "MAXOPBLOCKS = 10"

record xlog =
  xdisk :: "int \<Rightarrow> mem"
  dirty :: "int \<Rightarrow> mem option"
  history :: "(int \<Rightarrow> mem) list"
  log_start :: int
  log_size :: int
  outstanding :: int
  committing :: bool
  lh :: "int list"

definition log_bread :: "xlog \<Rightarrow> int \<Rightarrow> mem" where
  "log_bread s b = (case dirty s b of Some d \<Rightarrow> d | None \<Rightarrow> xdisk s b)"

definition log_bwrite :: "xlog \<Rightarrow> int \<Rightarrow> mem \<Rightarrow> xlog" where
  "log_bwrite s b d =
     (let disk' = (xdisk s)(b := d)
      in s\<lparr>xdisk := disk', dirty := (dirty s)(b := None), history := history s @ [disk']\<rparr>)"

section \<open>log.c\<close>

fun install_loop :: "xlog \<Rightarrow> int \<Rightarrow> int list \<Rightarrow> xlog" where
  "install_loop s tail [] = s"
| "install_loop s tail (b # bs) =
     install_loop (log_bwrite s b (log_bread s (log_start s + tail + 1))) (tail + 1) bs"

definition install_trans :: "xlog \<Rightarrow> xlog" where
  "install_trans s = install_loop s 0 (lh s)"

definition read_head :: "xlog \<Rightarrow> xlog" where
  "read_head s =
     (let buf = log_bread s (log_start s); n = rd32 buf 0
      in s\<lparr>lh := map (\<lambda>i. rd32 buf (4 + 4 * int i)) [0..<nat n]\<rparr>)"

fun put_blocks :: "mem \<Rightarrow> int \<Rightarrow> int list \<Rightarrow> mem" where
  "put_blocks hb i [] = hb"
| "put_blocks hb i (b # bs) = put_blocks (wr32 hb (4 + 4 * i) b) (i + 1) bs"

definition write_head :: "xlog \<Rightarrow> xlog" where
  "write_head s =
     (let hb = wr32 (log_bread s (log_start s)) 0 (int (length (lh s)))
      in log_bwrite s (log_start s) (put_blocks hb 0 (lh s)))"

definition recover_from_log :: "xlog \<Rightarrow> xlog" where
  "recover_from_log s = write_head ((install_trans (read_head s))\<lparr>lh := []\<rparr>)"

text \<open>The log after a boot: what the crash leaves is the disk; \<open>start\<close> and \<open>size\<close> come from the super block.\<close>

definition initlog :: "(int \<Rightarrow> mem) \<Rightarrow> int \<Rightarrow> int \<Rightarrow> xlog" where
  "initlog d start sz = recover_from_log
     \<lparr>xdisk = d, dirty = (\<lambda>_. None), history = [], log_start = start, log_size = sz,
      outstanding = 0, committing = False, lh = []\<rparr>"

definition begin_op :: "xlog \<Rightarrow> xlog option" where
  "begin_op s =
     (if committing s then None
      else if int (length (lh s)) + (outstanding s + 1) * MAXOPBLOCKS > LOGSIZE then None
      else Some (s\<lparr>outstanding := outstanding s + 1\<rparr>))"

fun write_log_loop :: "xlog \<Rightarrow> int \<Rightarrow> int list \<Rightarrow> xlog" where
  "write_log_loop s tail [] = s"
| "write_log_loop s tail (b # bs) =
     write_log_loop (log_bwrite s (log_start s + tail + 1) (log_bread s b)) (tail + 1) bs"

definition write_log :: "xlog \<Rightarrow> xlog" where
  "write_log s = write_log_loop s 0 (lh s)"

definition commit :: "xlog \<Rightarrow> xlog" where
  "commit s =
     (if length (lh s) > 0
      then write_head ((install_trans (write_head (write_log s)))\<lparr>lh := []\<rparr>)
      else s)"

definition end_op :: "xlog \<Rightarrow> xlog option" where
  "end_op s0 =
     (let s = s0\<lparr>outstanding := outstanding s0 - 1\<rparr> in
      if committing s then None
      else if outstanding s = 0
      then Some ((commit (s\<lparr>committing := True\<rparr>))\<lparr>committing := False\<rparr>)
      else Some s)"

text \<open>\<open>d\<close> is the content of the buffer that the caller has modified.\<close>

definition log_write :: "xlog \<Rightarrow> int \<Rightarrow> mem \<Rightarrow> xlog option" where
  "log_write s b d =
     (let n = int (length (lh s)) in
      if n \<ge> LOGSIZE \<or> n \<ge> log_size s - 1 then None
      else if outstanding s < 1 then None
      else Some (s\<lparr>lh := (if b \<in> set (lh s) then lh s else lh s @ [b]), dirty := (dirty s)(b \<mapsto> d)\<rparr>))"

section \<open>The header block\<close>

lemma put_blocks_low: "a + 4 \<le> 4 + 4 * i \<Longrightarrow> rd32 (put_blocks hb i bs) a = rd32 hb a"
proof (induction bs arbitrary: hb i)
  case (Cons b bs)
  then show ?case using Cons.IH [of "i + 1" "wr32 hb (4 + 4 * i) b"] by (simp add: mem_simps)
qed simp

lemma put_blocks_nth:
  "j < length bs \<Longrightarrow> rd32 (put_blocks hb i bs) (4 + 4 * (i + int j)) = cint (bs ! j)"
proof (induction bs arbitrary: hb i j)
  case (Cons b bs)
  show ?case
  proof (cases j)
    case 0
    then show ?thesis by (simp add: put_blocks_low mem_simps)
  next
    case (Suc k)
    then show ?thesis using Cons.IH [of k "wr32 hb (4 + 4 * i) b" "i + 1"] Cons.prems by (simp add: algebra_simps)
  qed
qed simp

definition head_blocks :: "mem \<Rightarrow> int list" where
  "head_blocks buf = map (\<lambda>i. rd32 buf (4 + 4 * int i)) [0..<nat (rd32 buf 0)]"

lemma head_blocks_put:
  assumes "\<forall>b \<in> set bs. is_cint b" and "int (length bs) < 2147483648"
  shows "head_blocks (put_blocks (wr32 hb 0 (int (length bs))) 0 bs) = bs"
proof -
  have n: "rd32 (put_blocks (wr32 hb 0 (int (length bs))) 0 bs) 0 = int (length bs)"
    using assms(2) by (simp add: put_blocks_low mem_simps)
  show ?thesis
  proof (rule nth_equalityI)
    fix j assume "j < length (head_blocks (put_blocks (wr32 hb 0 (int (length bs))) 0 bs))"
    then have j: "j < length bs" by (simp add: head_blocks_def n)
    then have "is_cint (bs ! j)" using assms(1) by simp
    with j put_blocks_nth [of j bs "wr32 hb 0 (int (length bs))" 0] n
    show "head_blocks (put_blocks (wr32 hb 0 (int (length bs))) 0 bs) ! j = bs ! j"
      by (simp add: head_blocks_def)
  qed (simp add: head_blocks_def n)
qed

section \<open>Crash recovery\<close>

definition log_area :: "int \<Rightarrow> int \<Rightarrow> int set" where
  "log_area start sz = {start..<start + sz}"

text \<open>
  \<open>logged d start sz bs new\<close>: the disk \<open>d\<close> stands for the contents \<open>new\<close> of the data blocks, where
  the log holds the new contents of the blocks \<open>bs\<close> (whatever their home locations hold by now).
\<close>

definition logged :: "(int \<Rightarrow> mem) \<Rightarrow> int \<Rightarrow> int \<Rightarrow> int list \<Rightarrow> (int \<Rightarrow> mem) \<Rightarrow> bool" where
  "logged d start sz bs new \<longleftrightarrow> head_blocks (d start) = bs
     \<and> (\<forall>i < length bs. d (start + int i + 1) = new (bs ! i))
     \<and> (\<forall>b. b \<notin> log_area start sz \<longrightarrow> b \<notin> set bs \<longrightarrow> d b = new b)"

definition loggable :: "int \<Rightarrow> int \<Rightarrow> int list \<Rightarrow> bool" where
  "loggable start sz bs \<longleftrightarrow> set bs \<inter> log_area start sz = {} \<and> int (length bs) \<le> LOGSIZE \<and> int (length bs) < sz \<and> (\<forall>b \<in> set bs. is_cint b)"

lemma loggableD:
  assumes "loggable start sz bs" and "i < length bs"
  shows "start + int i + 1 \<in> log_area start sz" and "bs ! i \<notin> log_area start sz"
proof -
  show "start + int i + 1 \<in> log_area start sz" using assms by (simp add: loggable_def log_area_def)
  have "bs ! i \<in> set bs" using assms(2) by simp
  then show "bs ! i \<notin> log_area start sz" using assms(1) unfolding loggable_def by blast
qed

lemma log_start_in_area: "loggable start sz bs \<Longrightarrow> start \<in> log_area start sz"
  by (simp add: log_area_def loggable_def)

lemma logged_home_write:
  assumes "logged d start sz bs new" and "loggable start sz bs" and "b \<in> set bs"
  shows "logged (d(b := x)) start sz bs new"
proof -
  have b: "b \<notin> log_area start sz" using assms(2,3) unfolding loggable_def by blast
  then have "b \<noteq> start" using log_start_in_area [OF assms(2)] by auto
  moreover have "b \<noteq> start + int i + 1" if "i < length bs" for i
    using loggableD(1) [OF assms(2) that] b by blast
  ultimately show ?thesis using assms(1,3) unfolding logged_def by auto
qed

text \<open>Installing the rest of the log, from \<open>tail\<close> on.\<close>

lemma install_loop_correct:
  assumes "log_start s = start" and "\<forall>x \<in> log_area start sz. dirty s x = None"
    and "logged (xdisk s) start sz bs new" and "loggable start sz bs" and "n \<le> length bs"
    and "install_loop s (int n) (drop n bs) = s'"
  shows "logged (xdisk s') start sz bs new
       \<and> (\<forall>b. b \<in> set (drop n bs) \<longrightarrow> xdisk s' b = new b \<and> dirty s' b = None)
       \<and> (\<forall>b. b \<notin> set (drop n bs) \<longrightarrow> xdisk s' b = xdisk s b \<and> dirty s' b = dirty s b)
       \<and> log_start s' = start \<and> lh s' = lh s
       \<and> (\<exists>ds. history s' = history s @ ds \<and> (\<forall>d \<in> set ds. logged d start sz bs new))"
  using assms
proof (induction "length bs - n" arbitrary: n s)
  case 0
  then have "drop n bs = []" by simp
  with 0 show ?case by auto
next
  case (Suc k)
  then have n: "n < length bs" by linarith
  define t where "t = log_bwrite s (bs ! n) (log_bread s (log_start s + int n + 1))"
  have read: "log_bread s (start + int n + 1) = new (bs ! n)"
    using loggableD(1) [OF Suc.prems(4) n] Suc.prems(2,3) n by (simp add: log_bread_def logged_def)
  have t: "xdisk t = (xdisk s)(bs ! n := new (bs ! n))" "dirty t = (dirty s)(bs ! n := None)"
    "log_start t = start" "lh t = lh s" "history t = history s @ [xdisk t]"
    using read Suc.prems(1) by (simp_all add: t_def log_bwrite_def Let_def)
  have lt: "logged (xdisk t) start sz bs new"
    unfolding t(1) using logged_home_write [OF Suc.prems(3,4)] n by simp
  have dn: "drop n bs = bs ! n # drop (Suc n) bs" using n by (simp add: Cons_nth_drop_Suc)
  have run: "install_loop t (int (Suc n)) (drop (Suc n) bs) = s'"
    using Suc.prems(6) by (simp add: dn t_def add.commute)
  have dt: "\<forall>x \<in> log_area start sz. dirty t x = None" using Suc.prems(2) by (simp add: t(2))
  have IH: "logged (xdisk s') start sz bs new
       \<and> (\<forall>b. b \<in> set (drop (Suc n) bs) \<longrightarrow> xdisk s' b = new b \<and> dirty s' b = None)
       \<and> (\<forall>b. b \<notin> set (drop (Suc n) bs) \<longrightarrow> xdisk s' b = xdisk t b \<and> dirty s' b = dirty t b)
       \<and> log_start s' = start \<and> lh s' = lh t
       \<and> (\<exists>ds. history s' = history t @ ds \<and> (\<forall>d \<in> set ds. logged d start sz bs new))"
    by (rule Suc.hyps(1) [OF _ t(3) dt lt Suc.prems(4) _ run]) (use Suc.hyps(2) n in simp_all)
  then obtain ds where ds: "history s' = history t @ ds" "\<forall>d \<in> set ds. logged d start sz bs new" by blast
  have "history s' = history s @ (xdisk t # ds)" "\<forall>d \<in> set (xdisk t # ds). logged d start sz bs new"
    using ds lt by (simp_all add: t(5))
  then have "\<exists>ds. history s' = history s @ ds \<and> (\<forall>d \<in> set ds. logged d start sz bs new)" by blast
  moreover have "xdisk s' b = new b \<and> dirty s' b = None" if "b \<in> set (drop n bs)" for b
    using that IH by (cases "b \<in> set (drop (Suc n) bs)") (simp_all add: dn t(1,2))
  moreover have "xdisk s' b = xdisk s b \<and> dirty s' b = dirty s b" if "b \<notin> set (drop n bs)" for b
    using that IH by (simp add: dn t(1,2))
  ultimately show ?case using IH t(4) by simp
qed

lemma install_trans_correct:
  assumes "log_start s = start" and "\<forall>x \<in> log_area start sz. dirty s x = None" and "lh s = bs"
    and "logged (xdisk s) start sz bs new" and "loggable start sz bs"
  obtains ds where "history (install_trans s) = history s @ ds" and "\<forall>d \<in> set ds. logged d start sz bs new"
    and "\<forall>b. b \<notin> log_area start sz \<longrightarrow> xdisk (install_trans s) b = new b"
    and "\<forall>b. dirty (install_trans s) b = (if b \<in> set bs then None else dirty s b)"
    and "log_start (install_trans s) = start" and "xdisk (install_trans s) start = xdisk s start"
proof -
  have st: "start \<notin> set bs" using assms(5) log_start_in_area [OF assms(5)] unfolding loggable_def by blast
  have sp: "logged (xdisk (install_trans s)) start sz bs new
       \<and> (\<forall>b. b \<in> set (drop 0 bs) \<longrightarrow> xdisk (install_trans s) b = new b \<and> dirty (install_trans s) b = None)
       \<and> (\<forall>b. b \<notin> set (drop 0 bs) \<longrightarrow> xdisk (install_trans s) b = xdisk s b \<and> dirty (install_trans s) b = dirty s b)
       \<and> log_start (install_trans s) = start \<and> lh (install_trans s) = lh s
       \<and> (\<exists>ds. history (install_trans s) = history s @ ds \<and> (\<forall>d \<in> set ds. logged d start sz bs new))"
    by (rule install_loop_correct [OF assms(1,2,4,5)]) (simp_all add: install_trans_def assms(3))
  then obtain ds where ds: "history (install_trans s) = history s @ ds" "\<forall>d \<in> set ds. logged d start sz bs new" by blast
  have home: "\<forall>b. b \<notin> log_area start sz \<longrightarrow> xdisk (install_trans s) b = new b"
  proof (intro allI impI)
    fix b assume "b \<notin> log_area start sz"
    then show "xdisk (install_trans s) b = new b"
      using sp assms(4) by (cases "b \<in> set bs") (simp_all add: logged_def)
  qed
  show thesis by (rule that [OF ds home]) (use sp st in simp_all)
qed

lemma write_head_correct:
  assumes "log_start s = start" and "dirty s start = None"
  shows "xdisk (write_head s) = (xdisk s)(start := put_blocks (wr32 (xdisk s start) 0 (int (length (lh s)))) 0 (lh s))"
    and "dirty (write_head s) = dirty s" and "log_start (write_head s) = start" and "lh (write_head s) = lh s"
    and "history (write_head s) = history s @ [xdisk (write_head s)]"
  using assms by (auto simp: write_head_def log_bwrite_def log_bread_def Let_def)

lemma logged_write_head:
  assumes "loggable start sz bs" and "\<forall>i < length bs. d (start + int i + 1) = new (bs ! i)"
    and "\<forall>b. b \<notin> log_area start sz \<longrightarrow> b \<notin> set bs \<longrightarrow> d b = new b"
  shows "logged (d(start := put_blocks (wr32 h 0 (int (length bs))) 0 bs)) start sz bs new"
proof -
  note in_area = log_start_in_area [OF assms(1)]
  have "head_blocks (put_blocks (wr32 h 0 (int (length bs))) 0 bs) = bs"
    using assms(1) by (intro head_blocks_put) (auto simp: loggable_def LOGSIZE_def)
  then show ?thesis using assms(2,3) in_area by (auto simp: logged_def)
qed

lemma loggable_Nil: "loggable start sz bs \<Longrightarrow> loggable start sz []"
  by (simp add: loggable_def LOGSIZE_def)

text \<open>The first step of recovery reads back exactly what the header says.\<close>

lemma recover_correct:
  assumes "log_start s = start" and "\<forall>b. dirty s b = None"
    and "logged (xdisk s) start sz bs new" and "loggable start sz bs"
  obtains ds where "history (recover_from_log s) = history s @ ds @ [xdisk (recover_from_log s)]"
    and "\<forall>d \<in> set ds. logged d start sz bs new" and "logged (xdisk (recover_from_log s)) start sz [] new"
    and "lh (recover_from_log s) = []" and "log_start (recover_from_log s) = start"
    and "\<forall>b. dirty (recover_from_log s) b = None"
proof -
  have rh: "lh (read_head s) = bs" "xdisk (read_head s) = xdisk s" "history (read_head s) = history s"
    "log_start (read_head s) = start" "dirty (read_head s) = dirty s"
    using assms(1-3) by (simp_all add: read_head_def logged_def head_blocks_def log_bread_def Let_def)
  define t where "t = (install_trans (read_head s))\<lparr>lh := []\<rparr>"
  have dn: "\<forall>x \<in> log_area start sz. dirty (read_head s) x = None" using assms(2) by (simp add: rh(5))
  have lg: "logged (xdisk (read_head s)) start sz bs new" using assms(3) by (simp add: rh(2))
  obtain ds where ds: "history t = history s @ ds" "\<forall>d \<in> set ds. logged d start sz bs new"
    and home: "\<forall>b. b \<notin> log_area start sz \<longrightarrow> xdisk t b = new b"
    and dirty: "\<forall>b. dirty t b = None" and st: "log_start t = start"
  proof (rule install_trans_correct [OF rh(4) dn rh(1) lg assms(4)])
    fix ds assume "history (install_trans (read_head s)) = history (read_head s) @ ds"
      "\<forall>d \<in> set ds. logged d start sz bs new"
      "\<forall>b. b \<notin> log_area start sz \<longrightarrow> xdisk (install_trans (read_head s)) b = new b"
      "\<forall>b. dirty (install_trans (read_head s)) b = (if b \<in> set bs then None else dirty (read_head s) b)"
      "log_start (install_trans (read_head s)) = start"
    then show thesis by (intro that [of ds]) (simp_all add: t_def rh assms(2))
  qed
  have lt: "lh t = []" by (simp add: t_def)
  have rec: "recover_from_log s = write_head t" by (simp add: recover_from_log_def t_def)
  have wh: "xdisk (write_head t) = (xdisk t)(start := put_blocks (wr32 (xdisk t start) 0 (int (length (lh t)))) 0 (lh t))"
    "history (write_head t) = history t @ [xdisk (write_head t)]" "lh (write_head t) = lh t"
    "log_start (write_head t) = start" "\<forall>b. dirty (write_head t) b = None"
    using write_head_correct [OF st] dirty by simp_all
  show thesis
  proof (rule that [of ds])
    show "logged (xdisk (recover_from_log s)) start sz [] new"
      unfolding rec wh(1) lt by (rule logged_write_head [OF loggable_Nil [OF assms(4)]]) (use home in simp_all)
  qed (use ds wh lt in \<open>simp_all add: rec\<close>)
qed

section \<open>Committing a transaction\<close>

text \<open>Two disks with the same log header and the same data blocks.\<close>

definition same_data :: "int \<Rightarrow> int \<Rightarrow> (int \<Rightarrow> mem) \<Rightarrow> (int \<Rightarrow> mem) \<Rightarrow> bool" where
  "same_data start sz d e \<longleftrightarrow> (\<forall>b. b = start \<or> b \<notin> log_area start sz \<longrightarrow> d b = e b)"

lemma write_log_loop_correct:
  assumes "log_start s = start" and "\<forall>x \<in> log_area start sz. dirty s x = None"
    and "loggable start sz bs" and "n \<le> length bs" and "write_log_loop s (int n) (drop n bs) = s'"
  shows "(\<forall>i. n \<le> i \<longrightarrow> i < length bs \<longrightarrow> xdisk s' (start + int i + 1) = log_bread s (bs ! i))
       \<and> (\<forall>b. b \<notin> {start + int n + 1..start + sz - 1} \<longrightarrow> xdisk s' b = xdisk s b)
       \<and> dirty s' = dirty s \<and> log_start s' = start \<and> lh s' = lh s
       \<and> (\<exists>ds. history s' = history s @ ds
              \<and> (\<forall>d \<in> set ds. same_data start sz d (xdisk s)))"
  using assms
proof (induction "length bs - n" arbitrary: n s)
  case 0
  then have "drop n bs = []" by simp
  with 0 show ?case by auto
next
  case (Suc k)
  then have n: "n < length bs" by linarith
  define t where "t = log_bwrite s (log_start s + int n + 1) (log_bread s (bs ! n))"
  note area = loggableD [OF Suc.prems(3) n]
  have dt: "dirty t = dirty s"
  proof -
    have "dirty s (start + int n + 1) = None" using Suc.prems(2) area(1) by blast
    then show ?thesis by (simp add: t_def log_bwrite_def Let_def Suc.prems(1) fun_upd_idem)
  qed
  have t: "xdisk t = (xdisk s)(start + int n + 1 := log_bread s (bs ! n))"
    "log_start t = start" "lh t = lh s" "history t = history s @ [xdisk t]"
    using Suc.prems(1) by (simp_all add: t_def log_bwrite_def Let_def)
  have dn: "drop n bs = bs ! n # drop (Suc n) bs" using n by (simp add: Cons_nth_drop_Suc)
  have run: "write_log_loop t (int (Suc n)) (drop (Suc n) bs) = s'"
    using Suc.prems(5) by (simp add: dn t_def add.commute)
  have dl: "\<forall>x \<in> log_area start sz. dirty t x = None" using Suc.prems(2) by (simp add: dt)
  have IH: "(\<forall>i. Suc n \<le> i \<longrightarrow> i < length bs \<longrightarrow> xdisk s' (start + int i + 1) = log_bread t (bs ! i))
       \<and> (\<forall>b. b \<notin> {start + int (Suc n) + 1..start + sz - 1} \<longrightarrow> xdisk s' b = xdisk t b)
       \<and> dirty s' = dirty t \<and> log_start s' = start \<and> lh s' = lh t
       \<and> (\<exists>ds. history s' = history t @ ds
              \<and> (\<forall>d \<in> set ds. same_data start sz d (xdisk t)))"
    by (rule Suc.hyps(1) [OF _ t(2) dl Suc.prems(3) _ run]) (use Suc.hyps(2) n in simp_all)
  have same: "xdisk t b = xdisk s b" if "b = start \<or> b \<notin> log_area start sz" for b
    using that area(1) by (auto simp: t(1))
  have "xdisk s' (start + int i + 1) = log_bread s (bs ! i)" if "n \<le> i" "i < length bs" for i
  proof (cases "i = n")
    case True
    have "start + int n + 1 \<notin> {start + int (Suc n) + 1..start + sz - 1}" by simp
    then have "xdisk s' (start + int n + 1) = xdisk t (start + int n + 1)" using IH by blast
    then show ?thesis using True by (simp add: t(1))
  next
    case False
    then have "xdisk s' (start + int i + 1) = log_bread t (bs ! i)" using IH that by simp
    then show ?thesis
      using same [of "bs ! i"] loggableD(2) [OF Suc.prems(3) that(2)] by (simp add: log_bread_def dt split: option.split)
  qed
  moreover have "xdisk s' b = xdisk s b" if "b \<notin> {start + int n + 1..start + sz - 1}" for b
  proof -
    have "b \<noteq> start + int n + 1" "b \<notin> {start + int (Suc n) + 1..start + sz - 1}"
      using that area(1) by (auto simp: log_area_def)
    then show ?thesis using IH by (simp add: t(1))
  qed
  moreover obtain ds where ds: "history s' = history t @ ds"
    "\<forall>d \<in> set ds. same_data start sz d (xdisk t)" using IH by blast
  moreover have "history s' = history s @ (xdisk t # ds)
      \<and> (\<forall>d \<in> set (xdisk t # ds). same_data start sz d (xdisk s))"
    using ds same by (simp add: t(4) same_data_def)
  moreover have "dirty s' = dirty s" "log_start s' = start" "lh s' = lh s" using IH t(3) dt by simp_all
  ultimately show ?case by blast
qed

text \<open>
  The state between two commits: the log on disk is empty, only blocks of the transaction are
  pinned, and their home locations lie outside the log.
\<close>

definition log_ready :: "xlog \<Rightarrow> bool" where
  "log_ready s \<longleftrightarrow> loggable (log_start s) (log_size s) (lh s) \<and> (\<forall>b. b \<notin> set (lh s) \<longrightarrow> dirty s b = None)
     \<and> head_blocks (xdisk s (log_start s)) = []"

lemma commit_spec:
  assumes "log_ready s" and "lh s \<noteq> []"
  obtains ds es where "history (commit s) = history s @ ds @ es @ [xdisk (commit s)]"
    and "\<forall>d \<in> set ds. logged d (log_start s) (log_size s) [] (xdisk s)"
    and "\<forall>d \<in> set es. logged d (log_start s) (log_size s) (lh s) (log_bread s)"
    and "logged (xdisk (commit s)) (log_start s) (log_size s) [] (log_bread s)"
    and "\<forall>b. dirty (commit s) b = None" and "lh (commit s) = []" and "log_start (commit s) = log_start s"
proof -
  define start sz bs where "start = log_start s" and "sz = log_size s" and "bs = lh s"
  have lg: "loggable start sz bs" and dr: "\<forall>b. b \<notin> set bs \<longrightarrow> dirty s b = None"
    and hd0: "head_blocks (xdisk s start) = []"
    using assms(1) by (simp_all add: log_ready_def start_def sz_def bs_def)
  have dl: "\<forall>x \<in> log_area start sz. dirty s x = None" using lg dr unfolding loggable_def by blast
  define t where "t = write_log s"
  have tl: "(\<forall>i. 0 \<le> i \<longrightarrow> i < length bs \<longrightarrow> xdisk t (start + int i + 1) = log_bread s (bs ! i))
       \<and> (\<forall>b. b \<notin> {start + int 0 + 1..start + sz - 1} \<longrightarrow> xdisk t b = xdisk s b)
       \<and> dirty t = dirty s \<and> log_start t = start \<and> lh t = lh s
       \<and> (\<exists>ds. history t = history s @ ds
              \<and> (\<forall>d \<in> set ds. same_data start sz d (xdisk s)))"
    by (rule write_log_loop_correct [OF start_def [symmetric] dl lg]) (simp_all add: t_def write_log_def bs_def)
  then obtain ds where ds: "history t = history s @ ds"
    "\<forall>d \<in> set ds. same_data start sz d (xdisk s)" by (elim conjE exE) (rule that, assumption+)
  have old: "\<forall>d \<in> set ds. logged d start sz [] (xdisk s)"
    using ds(2) hd0 by (simp add: logged_def same_data_def)
  have off: "xdisk t b = xdisk s b" if "b \<notin> log_area start sz" for b
    using tl that by (auto simp: log_area_def)
  define u where "u = write_head t"
  have tst: "log_start t = start" "dirty t start = None" "lh t = bs"
    using tl dl log_start_in_area [OF lg] by (simp_all add: bs_def)
  note wu = write_head_correct [OF tst(1,2), folded u_def]
  have lu: "logged (xdisk u) start sz bs (log_bread s)"
    unfolding wu(1) tst(3)
  proof (rule logged_write_head [OF lg])
    show "\<forall>i < length bs. xdisk t (start + int i + 1) = log_bread s (bs ! i)" using tl by simp
    show "\<forall>b. b \<notin> log_area start sz \<longrightarrow> b \<notin> set bs \<longrightarrow> xdisk t b = log_bread s b"
      using off dr by (simp add: log_bread_def)
  qed
  have du: "\<forall>x \<in> log_area start sz. dirty u x = None" using dl tl by (simp add: wu(2))
  have lhu: "lh u = bs" using wu(4) tst(3) by simp
  obtain es where es: "history (install_trans u) = history u @ es" "\<forall>d \<in> set es. logged d start sz bs (log_bread s)"
    and home: "\<forall>b. b \<notin> log_area start sz \<longrightarrow> xdisk (install_trans u) b = log_bread s b"
    and di: "\<forall>b. dirty (install_trans u) b = (if b \<in> set bs then None else dirty u b)"
    and st: "log_start (install_trans u) = start"
    by (rule install_trans_correct [OF wu(3) du lhu lu lg])
  define v where "v = (install_trans u)\<lparr>lh := []\<rparr>"
  have dv: "\<forall>b. dirty v b = None" using di dr tl by (simp add: v_def wu(2))
  have vst: "log_start v = start" "lh v = []" "xdisk v = xdisk (install_trans u)" "history v = history (install_trans u)"
    using st by (simp_all add: v_def)
  have cm: "commit s = write_head v" using assms(2) by (simp add: commit_def v_def u_def t_def)
  note wv = write_head_correct [OF vst(1) dv [rule_format, of start]]
  show thesis
  proof (rule that [of ds "xdisk u # es"])
    show "history (commit s) = history s @ ds @ (xdisk u # es) @ [xdisk (commit s)]"
      by (simp add: cm wv(5) vst(4) es(1) wu(5) ds(1))
    show "logged (xdisk (commit s)) (log_start s) (log_size s) [] (log_bread s)"
      unfolding cm wv(1) vst(2) start_def [symmetric] sz_def [symmetric]
      by (rule logged_write_head [OF loggable_Nil [OF lg]]) (use home vst(3) in simp_all)
    show "\<forall>d \<in> set (xdisk u # es). logged d (log_start s) (log_size s) (lh s) (log_bread s)"
      using lu es(2) by (simp add: start_def sz_def bs_def)
    show "\<forall>b. dirty (commit s) b = None" using dv wv(2) by (simp add: cm)
  qed (use old vst wv in \<open>simp_all add: start_def sz_def cm\<close>)
qed

text \<open>What recovery makes of a disk, as far as data blocks are concerned.\<close>

lemma initlog_recovers:
  assumes "logged d start sz bs new" and "loggable start sz bs"
  shows "b \<notin> log_area start sz \<Longrightarrow> xdisk (initlog d start sz) b = new b"
    and "e \<in> set (history (initlog d start sz)) \<Longrightarrow> logged e start sz bs new \<or> logged e start sz [] new"
proof -
  define s where "s = \<lparr>xdisk = d, dirty = (\<lambda>_. None), history = [], log_start = start, log_size = sz,
      outstanding = 0, committing = False, lh = []\<rparr>"
  have s: "log_start s = start" "\<forall>b. dirty s b = None" "logged (xdisk s) start sz bs new"
    using assms(1) by (simp_all add: s_def)
  have i: "initlog d start sz = recover_from_log s" by (simp add: initlog_def s_def)
  obtain ds where ds: "history (recover_from_log s) = history s @ ds @ [xdisk (recover_from_log s)]"
    "\<forall>d \<in> set ds. logged d start sz bs new" "logged (xdisk (recover_from_log s)) start sz [] new"
    by (rule recover_correct [OF s assms(2)])
  show "b \<notin> log_area start sz \<Longrightarrow> xdisk (initlog d start sz) b = new b"
    using ds(3) by (simp add: i logged_def)
  have "history s = []" by (simp add: s_def)
  then show "e \<in> set (history (initlog d start sz)) \<Longrightarrow> logged e start sz bs new \<or> logged e start sz [] new"
    using ds by (auto simp: i)
qed

text \<open>C1: Crash safety of the log: whatever the moment of the crash during a commit, recovery at the
  next boot finds on every data block either the contents from before the transaction or, on
  every data block, the contents after it; after the whole commit it is the latter.\<close>

theorem commit_crash_safe:
  assumes "log_ready s" and "lh s \<noteq> []" and "history (commit s) = history s @ ds" and "d \<in> set ds"
  shows "((\<forall>b. b \<notin> log_area (log_start s) (log_size s) \<longrightarrow> xdisk (initlog d (log_start s) (log_size s)) b = xdisk s b)
       \<or> (\<forall>b. b \<notin> log_area (log_start s) (log_size s) \<longrightarrow> xdisk (initlog d (log_start s) (log_size s)) b = log_bread s b))
     \<and> (\<forall>b. b \<notin> log_area (log_start s) (log_size s) \<longrightarrow> xdisk (commit s) b = log_bread s b)"
proof -
  have lg: "loggable (log_start s) (log_size s) (lh s)" using assms(1) by (simp add: log_ready_def)
  obtain xs es where h: "history (commit s) = history s @ xs @ es @ [xdisk (commit s)]"
    "\<forall>d \<in> set xs. logged d (log_start s) (log_size s) [] (xdisk s)"
    "\<forall>d \<in> set es. logged d (log_start s) (log_size s) (lh s) (log_bread s)"
    "logged (xdisk (commit s)) (log_start s) (log_size s) [] (log_bread s)"
    by (rule commit_spec [OF assms(1,2)])
  have "ds = xs @ es @ [xdisk (commit s)]" using h(1) assms(3) by simp
  then consider "logged d (log_start s) (log_size s) [] (xdisk s)" | "logged d (log_start s) (log_size s) (lh s) (log_bread s)"
    | "logged d (log_start s) (log_size s) [] (log_bread s)" using assms(4) h(2-4) by auto
  then have "(\<forall>b. b \<notin> log_area (log_start s) (log_size s) \<longrightarrow> xdisk (initlog d (log_start s) (log_size s)) b = xdisk s b)
       \<or> (\<forall>b. b \<notin> log_area (log_start s) (log_size s) \<longrightarrow> xdisk (initlog d (log_start s) (log_size s)) b = log_bread s b)"
    by cases (use initlog_recovers(1) lg loggable_Nil [OF lg] in auto)
  then show ?thesis using h(4) by (simp add: logged_def)
qed

text \<open>A log with one block of its transaction: block 100, at the start of the log at block 2.\<close>

definition one_block_log :: xlog where
  "one_block_log = \<lparr>xdisk = (\<lambda>_ _. 0), dirty = (\<lambda>_. None)(100 \<mapsto> (\<lambda>_. 7)), history = [], log_start = 2,
     log_size = 30, outstanding = 0, committing = True, lh = [100]\<rparr>"

lemma one_block_ready: "log_ready one_block_log" "lh one_block_log \<noteq> []"
  by (simp_all add: one_block_log_def log_ready_def loggable_def log_area_def LOGSIZE_def head_blocks_def rd32_def)

lemma commit_one_block_history:
  "\<exists>ds. history (commit one_block_log) = history one_block_log @ ds \<and> xdisk (commit one_block_log) \<in> set ds"
proof (rule commit_spec [OF one_block_ready])
  fix ds es assume "history (commit one_block_log) = history one_block_log @ ds @ es @ [xdisk (commit one_block_log)]"
  then show ?thesis by (intro exI [of _ "ds @ es @ [xdisk (commit one_block_log)]"]) simp
qed

theorem commit_crash_safe_witness:
  "xdisk (commit one_block_log) 100 = (\<lambda>_. 7)"
proof -
  obtain ds where "history (commit one_block_log) = history one_block_log @ ds"
    "xdisk (commit one_block_log) \<in> set ds" using commit_one_block_history by blast
  then have "\<forall>b. b \<notin> log_area (log_start one_block_log) (log_size one_block_log) \<longrightarrow> xdisk (commit one_block_log) b = log_bread one_block_log b"
    using commit_crash_safe [OF one_block_ready] by blast
  then show ?thesis by (simp add: one_block_log_def log_area_def LOGSIZE_def log_bread_def)
qed

text \<open>Recovery can itself be cut off and started again: from every disk that recovery passes
  through, the next recovery gives the same contents of the data blocks.\<close>

theorem recovery_idempotent:
  assumes "logged d start sz bs new" and "loggable start sz bs"
    and "e \<in> set (history (initlog d start sz))" and "b \<notin> log_area start sz"
  shows "xdisk (initlog e start sz) b = xdisk (initlog d start sz) b"
proof -
  from initlog_recovers(2) [OF assms(1-3)] have "xdisk (initlog e start sz) b = new b"
    using initlog_recovers(1) [of e start sz _ new b] assms(2,4) loggable_Nil [OF assms(2)] by blast
  then show ?thesis using initlog_recovers(1) [OF assms(1,2,4)] by simp
qed

theorem recovery_idempotent_witness:
  "\<exists>e \<in> set (history (initlog (\<lambda>_ _. 0) 2 30)). xdisk (initlog e 2 30) 100 = xdisk (initlog (\<lambda>_ _. 0) 2 30) 100"
proof -
  have g: "loggable 2 30 []" by (simp add: loggable_def LOGSIZE_def)
  have l: "logged (\<lambda>_ _. 0) 2 30 [] (\<lambda>_ _. 0)" by (simp add: logged_def head_blocks_def rd32_def)
  have e: "xdisk (initlog (\<lambda>_ _. 0) 2 30) \<in> set (history (initlog (\<lambda>_ _. 0) 2 30))"
    by (simp add: initlog_def recover_from_log_def write_head_def log_bwrite_def Let_def)
  have "xdisk (initlog (xdisk (initlog (\<lambda>_ _. 0) 2 30)) 2 30) 100 = xdisk (initlog (\<lambda>_ _. 0) 2 30) 100"
    by (rule recovery_idempotent [OF l g e]) (simp add: log_area_def LOGSIZE_def)
  with e show ?thesis by blast
qed

section \<open>Concurrent system calls\<close>

text \<open>
  Several system calls use the log at once. A state of the system is the log with, for every
  call in flight, the number of \<open>log_write\<close>s it may still make; a call may make \<open>MAXOPBLOCKS\<close>.
\<close>

inductive log_step :: "xlog \<times> nat list \<Rightarrow> xlog \<times> nat list \<Rightarrow> bool" where
  op_begins: "begin_op s = Some s' \<Longrightarrow> log_step (s, bu) (s', bu @ [nat MAXOPBLOCKS])"
| op_writes: "log_write s b d = Some s' \<Longrightarrow> i < length bu \<Longrightarrow> 0 < bu ! i \<Longrightarrow> is_cint b
    \<Longrightarrow> b \<notin> log_area (log_start s) (log_size s) \<Longrightarrow> log_step (s, bu) (s', bu[i := bu ! i - 1])"
| op_ends: "end_op s = Some s' \<Longrightarrow> i < length bu \<Longrightarrow> log_step (s, bu) (s', take i bu @ drop (Suc i) bu)"

inductive_cases log_stepE: "log_step (s, bu) t"

definition log_inv :: "xlog \<times> nat list \<Rightarrow> bool" where
  "log_inv = (\<lambda>(s, bu). log_ready s \<and> \<not> committing s \<and> outstanding s = int (length bu)
     \<and> (\<forall>n \<in> set bu. int n \<le> MAXOPBLOCKS) \<and> int (length (lh s) + sum_list bu) \<le> LOGSIZE
     \<and> (bu = [] \<longrightarrow> lh s = []))"

lemma log_size_loops:
  "log_size (install_loop s n bs) = log_size s \<and> outstanding (install_loop s n bs) = outstanding s
    \<and> committing (install_loop s n bs) = committing s"
  "log_size (write_log_loop s n bs) = log_size s \<and> outstanding (write_log_loop s n bs) = outstanding s
    \<and> committing (write_log_loop s n bs) = committing s"
  by (induction bs arbitrary: s n) (simp_all add: log_bwrite_def Let_def)

lemma commit_keeps: "log_size (commit s) = log_size s" "outstanding (commit s) = outstanding s"
  by (simp_all add: commit_def write_head_def write_log_def install_trans_def log_bwrite_def log_size_loops Let_def)

lemma sum_list_budgets: "\<forall>n \<in> set bu. n \<le> m \<Longrightarrow> sum_list bu \<le> m * length bu"
  by (induction bu) auto

lemma sum_list_drop_nth:
  fixes bu :: "nat list"
  assumes "i < length bu"
  shows "sum_list (take i bu @ drop (Suc i) bu) + bu ! i = sum_list bu"
proof -
  have "sum_list bu = sum_list (take i bu @ bu ! i # drop (Suc i) bu)" using assms by (simp add: id_take_nth_drop [symmetric])
  then show ?thesis by simp
qed

lemma log_inv_commit:
  assumes "log_ready s"
  shows "log_ready (commit s) \<and> lh (commit s) = []"
proof (cases "lh s = []")
  case True
  then show ?thesis using assms by (simp add: commit_def)
next
  case False
  then show ?thesis
  proof (rule commit_spec [OF assms])
    fix ds es assume "logged (xdisk (commit s)) (log_start s) (log_size s) [] (log_bread s)"
      "\<forall>b. dirty (commit s) b = None" "lh (commit s) = []" "log_start (commit s) = log_start s"
    then show ?thesis
      using loggable_Nil [of "log_start s" "log_size s" "lh s"] assms
      by (simp add: log_ready_def logged_def commit_keeps)
  qed
qed

lemma log_ready_flags [simp]:
  "log_ready (s\<lparr>committing := c\<rparr>) = log_ready s" "log_ready (s\<lparr>outstanding := k\<rparr>) = log_ready s"
  by (simp_all add: log_ready_def)

lemma log_ready_write:
  assumes "log_write s b d = Some s'" and "log_ready s" and "is_cint b" and "b \<notin> log_area (log_start s) (log_size s)"
  shows "log_ready s'"
proof -
  let ?n = "int (length (lh s))"
  have "?n < LOGSIZE" "?n < log_size s - 1" and s': "s' = s\<lparr>lh := (if b \<in> set (lh s) then lh s else lh s @ [b]),
      dirty := (dirty s)(b \<mapsto> d)\<rparr>"
    using assms(1) by (auto simp: log_write_def Let_def split: if_splits)
  moreover have "loggable (log_start s) (log_size s) (lh s @ [b])"
    using assms(2-4) calculation by (simp add: log_ready_def loggable_def)
  ultimately show ?thesis using assms(2) by (simp add: log_ready_def)
qed

lemma log_inv_step: "log_step x y \<Longrightarrow> log_inv x \<Longrightarrow> log_inv y"
proof (induction rule: log_step.induct)
  case (op_begins s s' bu)
  then have s': "s' = s\<lparr>outstanding := outstanding s + 1\<rparr>"
    and room: "int (length (lh s)) + (outstanding s + 1) * MAXOPBLOCKS \<le> LOGSIZE"
    by (auto simp: begin_op_def split: if_splits)
  have out: "outstanding s = int (length bu)" and le: "\<forall>n \<in> set bu. n \<le> 10"
    using op_begins.prems by (auto simp: log_inv_def MAXOPBLOCKS_def)
  have "int (sum_list bu) \<le> 10 * int (length bu)" using sum_list_budgets [OF le] by linarith
  then show ?case using op_begins.prems room out by (auto simp: log_inv_def s' MAXOPBLOCKS_def)
next
  case (op_writes s b d s' i bu)
  have ln: "length (lh s') \<le> length (lh s) + 1" "committing s' = committing s" "outstanding s' = outstanding s"
    using op_writes.hyps(1) by (auto simp: log_write_def Let_def split: if_splits)
  have "sum_list (bu[i := bu ! i - 1]) + 1 = sum_list bu"
    using sum_list_update [OF op_writes.hyps(2), of "bu ! i - 1"] op_writes.hyps(2,3) member_le_sum_list [of "bu ! i" bu]
    by simp
  moreover have "\<forall>n \<in> set (bu[i := bu ! i - 1]). int n \<le> MAXOPBLOCKS"
  proof
    fix n assume "n \<in> set (bu[i := bu ! i - 1])"
    then have "n = bu ! i - 1 \<or> n \<in> set bu" using set_update_subset_insert by fastforce
    moreover have "int (bu ! i) \<le> MAXOPBLOCKS" using op_writes.prems op_writes.hyps(2) by (simp add: log_inv_def)
    ultimately show "int n \<le> MAXOPBLOCKS" using op_writes.prems by (auto simp: log_inv_def)
  qed
  moreover have "log_ready s'"
    by (rule log_ready_write [OF op_writes.hyps(1) _ op_writes.hyps(4,5)]) (use op_writes.prems in \<open>simp add: log_inv_def\<close>)
  ultimately show ?case using op_writes.prems op_writes.hyps(2) ln by (auto simp: log_inv_def)
next
  case (op_ends s s' i bu)
  let ?bu = "take i bu @ drop (Suc i) bu"
  have len: "int (length ?bu) = int (length bu) - 1" using op_ends.hyps(2) by simp
  have sum: "sum_list ?bu \<le> sum_list bu" using sum_list_drop_nth [OF op_ends.hyps(2)] by linarith
  have small: "\<forall>n \<in> set ?bu. int n \<le> MAXOPBLOCKS"
    using op_ends.prems by (auto simp: log_inv_def dest: in_set_takeD in_set_dropD)
  define t where "t = s\<lparr>outstanding := outstanding s - 1\<rparr>"
  have t: "log_ready t" "outstanding t = int (length ?bu)" "\<not> committing t" "lh t = lh s"
    using op_ends.prems len by (simp_all add: t_def log_inv_def)
  show ?case
  proof (cases "outstanding t = 0")
    case True
    then have "s' = (commit (t\<lparr>committing := True\<rparr>))\<lparr>committing := False\<rparr>"
      using op_ends.hyps(1) t(3) by (simp add: end_op_def t_def)
    then show ?thesis
      using True t small op_ends.hyps(2) log_inv_commit [of "t\<lparr>committing := True\<rparr>"] by (simp add: log_inv_def commit_keeps LOGSIZE_def)
  next
    case False
    then have "s' = t" using op_ends.hyps(1) t(3) by (simp add: end_op_def t_def)
    moreover have "?bu \<noteq> []" using False unfolding t(2) by (intro notI) (simp only: list.size of_nat_0)
    ultimately show ?thesis using t small sum op_ends.prems by (auto simp: log_inv_def)
  qed
qed

lemma log_inv_reach: "log_step\<^sup>*\<^sup>* x y \<Longrightarrow> log_inv x \<Longrightarrow> log_inv y"
  by (induction rule: rtranclp_induct) (auto intro: log_inv_step)

lemma log_size_step: "log_step x y \<Longrightarrow> log_size (fst y) = log_size (fst x)"
  by (induction rule: log_step.induct)
    (auto simp: begin_op_def log_write_def end_op_def commit_keeps Let_def split: if_splits)

lemma log_size_reach: "log_step\<^sup>*\<^sup>* x y \<Longrightarrow> log_size (fst y) = log_size (fst x)"
  by (induction rule: rtranclp_induct) (auto simp: log_size_step)

lemma log_inv_boot:
  assumes "logged d start sz bs new" and "loggable start sz bs"
  shows "log_inv (initlog d start sz, [])" and "log_size (initlog d start sz) = sz"
proof -
  define s where "s = \<lparr>xdisk = d, dirty = (\<lambda>_. None), history = [], log_start = start, log_size = sz,
      outstanding = 0, committing = False, lh = []\<rparr>"
  have i: "initlog d start sz = recover_from_log s" by (simp add: initlog_def s_def)
  have s: "log_start s = start" "\<forall>b. dirty s b = None" "logged (xdisk s) start sz bs new"
    using assms(1) by (simp_all add: s_def)
  have fl: "\<not> committing (recover_from_log s)" "outstanding (recover_from_log s) = 0" "log_size (recover_from_log s) = sz"
    by (simp_all add: s_def recover_from_log_def write_head_def log_bwrite_def install_trans_def read_head_def
        log_size_loops Let_def)
  show "log_inv (initlog d start sz, [])"
  proof (rule recover_correct [OF s assms(2)])
    assume "logged (xdisk (recover_from_log s)) start sz [] new" "lh (recover_from_log s) = []"
      "log_start (recover_from_log s) = start" "\<forall>b. dirty (recover_from_log s) b = None"
    then show ?thesis
      using fl loggable_Nil [OF assms(2)] by (simp add: i log_inv_def log_ready_def logged_def LOGSIZE_def)
  qed
  show "log_size (initlog d start sz) = sz"
    by (simp add: initlog_def recover_from_log_def write_head_def log_bwrite_def install_trans_def read_head_def log_size_loops Let_def)
qed

text \<open>C27: When \<open>log_write\<close> panics: in every state that concurrent system calls reach after a boot with a log region of at least \<open>LOGSIZE\<close> blocks, a call
  within its budget of \<open>MAXOPBLOCKS\<close> writes meets the panic ``too big a transaction'' exactly when the region has no block more than \<open>LOGSIZE\<close>, as on the
  image that \<open>mkfs\<close> makes, and the log already holds 29 blocks; it never meets ``outside of trans'', and the log never holds more than \<open>LOGSIZE\<close> blocks.\<close>

theorem log_write_panics_iff:
  assumes "logged d start sz bs new" and "loggable start sz bs" and "LOGSIZE \<le> sz"
    and "log_step\<^sup>*\<^sup>* (initlog d start sz, []) (s, bu)" and "i < length bu" and "0 < bu ! i"
  shows "(log_write s b c = None \<longleftrightarrow> sz = LOGSIZE \<and> length (lh s) = 29) \<and> int (length (lh s)) < LOGSIZE \<and> 1 \<le> outstanding s"
proof -
  have inv: "log_inv (s, bu)" using log_inv_reach [OF assms(4)] log_inv_boot(1) [OF assms(1,2)] by simp
  have sz: "log_size s = sz" using log_size_reach [OF assms(4)] log_inv_boot(2) [OF assms(1,2)] by simp
  have "bu ! i \<le> sum_list bu" using assms(5) by (intro member_le_sum_list) simp_all
  then have n: "int (length (lh s)) < LOGSIZE" using inv assms(6) by (simp add: log_inv_def)
  moreover have o: "1 \<le> outstanding s" using inv assms(5) by (simp add: log_inv_def)
  moreover have "log_write s b c = None \<longleftrightarrow> sz = LOGSIZE \<and> length (lh s) = 29"
    using assms(3) sz n o by (auto simp: log_write_def Let_def LOGSIZE_def)
  ultimately show ?thesis by blast
qed

lemma empty_disk_logged: "logged (\<lambda>_ _. 0) 2 sz [] (\<lambda>_ _. 0)"
  by (simp add: logged_def head_blocks_def rd32_def)

lemma first_op_begins:
  assumes "logged d start sz bs new" and "loggable start sz bs"
  shows "\<exists>s. log_step (initlog d start sz, []) (s, [10]) \<and> log_size s = sz"
proof -
  note inv = log_inv_boot [OF assms]
  then have "begin_op (initlog d start sz) = Some ((initlog d start sz)\<lparr>outstanding := 1\<rparr>)"
    by (simp add: begin_op_def log_inv_def MAXOPBLOCKS_def LOGSIZE_def)
  from op_begins [OF this, of "[]"] show ?thesis
    using inv(2) by (intro exI [of _ "(initlog d start sz)\<lparr>outstanding := 1\<rparr>"]) (simp add: MAXOPBLOCKS_def)
qed

theorem log_write_panics_iff_witness:
  "\<exists>s. log_step (initlog (\<lambda>_ _. 0) 2 30, []) (s, [10]) \<and> (log_write s 100 (\<lambda>_. 7) = None \<longleftrightarrow> length (lh s) = 29)"
proof -
  have g: "loggable 2 30 []" by (simp add: loggable_def LOGSIZE_def)
  obtain s where s: "log_step (initlog (\<lambda>_ _. 0) 2 30, []) (s, [10])"
    using first_op_begins [OF empty_disk_logged g] by blast
  have "(log_write s 100 (\<lambda>_. 7) = None \<longleftrightarrow> 30 = LOGSIZE \<and> length (lh s) = 29) \<and> int (length (lh s)) < LOGSIZE \<and> 1 \<le> outstanding s"
    by (rule log_write_panics_iff [OF empty_disk_logged g _ r_into_rtranclp [of log_step, OF s], of 0]) (simp_all add: LOGSIZE_def)
  then have "log_write s 100 (\<lambda>_. 7) = None \<longleftrightarrow> length (lh s) = 29" by (simp add: LOGSIZE_def)
  with s show ?thesis by (intro exI [of _ s] conjI)
qed

lemma end_op_possible:
  assumes "log_inv (s, bu)" and "bu \<noteq> []"
  shows "\<exists>s'. log_step (s, bu) (s', tl bu)"
proof -
  have "\<exists>s'. end_op s = Some s'" using assms by (auto simp: end_op_def log_inv_def Let_def)
  then obtain s' where "end_op s = Some s'" by blast
  from op_ends [OF this, of 0 bu] assms(2) show ?thesis by (auto simp: drop_Suc)
qed

text \<open>C32: No call waits for ever: from every reachable state, once the calls in flight end, a new call
  can begin (the commit at the last \<open>end_op\<close> empties the log).\<close>

theorem begin_op_eventually:
  assumes "logged d start sz bs new" and "loggable start sz bs"
    and "log_step\<^sup>*\<^sup>* (initlog d start sz, []) (s, bu)"
  shows "\<exists>s' s''. log_step\<^sup>*\<^sup>* (s, bu) (s', []) \<and> begin_op s' = Some s''"
proof -
  have "log_inv (s, bu)" using log_inv_reach [OF assms(3)] log_inv_boot(1) [OF assms(1,2)] by simp
  then show ?thesis
  proof (induction bu arbitrary: s)
    case Nil
    then have "\<exists>s''. begin_op s = Some s''" by (simp add: log_inv_def begin_op_def LOGSIZE_def MAXOPBLOCKS_def)
    then show ?case by blast
  next
    case (Cons n bu)
    obtain t where t: "log_step (s, n # bu) (t, bu)" using end_op_possible [OF Cons.prems] by auto
    from Cons.IH [OF log_inv_step [OF t Cons.prems]] t show ?case by (blast intro: converse_rtranclp_into_rtranclp)
  qed
qed

theorem begin_op_eventually_witness:
  "\<exists>s s' s''. log_step\<^sup>*\<^sup>* (s, [10]) (s', []) \<and> begin_op s' = Some s''"
proof -
  have g: "loggable 2 30 []" by (simp add: loggable_def LOGSIZE_def)
  obtain s where s: "log_step (initlog (\<lambda>_ _. 0) 2 30, []) (s, [10])"
    using first_op_begins [OF empty_disk_logged g] by blast
  from begin_op_eventually [OF empty_disk_logged g r_into_rtranclp [of log_step, OF s]] show ?thesis by blast
qed

text \<open>
  The image that \<open>mkfs.c\<close> writes has a log of \<open>LOGSIZE\<close> blocks, header included, so \<open>log_write\<close>
  refuses the 30th block.
\<close>

fun log_writes :: "xlog \<Rightarrow> int list \<Rightarrow> xlog option" where
  "log_writes s [] = Some s"
| "log_writes s (b # bs) = Option.bind (log_write s b (\<lambda>_. 0)) (\<lambda>s. log_writes s bs)"

lemma log_writes_distinct:
  assumes "distinct bs" and "set bs \<inter> set (lh s) = {}" and "1 \<le> outstanding s"
    and "int (length (lh s) + length bs) < log_size s" and "int (length (lh s) + length bs) \<le> LOGSIZE"
  shows "\<exists>t. log_writes s bs = Some t \<and> lh t = lh s @ bs \<and> log_size t = log_size s"
  using assms
proof (induction bs arbitrary: s)
  case (Cons b bs)
  define t where "t = s\<lparr>lh := lh s @ [b], dirty := (dirty s)(b \<mapsto> (\<lambda>_. 0))\<rparr>"
  have w: "log_write s b (\<lambda>_. 0) = Some t" using Cons.prems by (simp add: log_write_def t_def Let_def)
  have "\<exists>u. log_writes t bs = Some u \<and> lh u = lh t @ bs \<and> log_size u = log_size t"
    by (rule Cons.IH) (use Cons.prems in \<open>auto simp: t_def\<close>)
  then show ?case using w by (auto simp: t_def)
qed simp

text \<open>On the image that mkfs makes (a log of 30 blocks) three calls that together stay within
  the 30 blocks \<open>begin_op\<close> reserves for them fail: after 29 different blocks the next \<open>log_write\<close>
  panics.\<close>

theorem log_full_at_29:
  assumes "log_size s = 30" and "outstanding s = 3" and "lh s = []"
    and "distinct bs" and "length bs = 29"
  shows "\<exists>t. log_writes s bs = Some t \<and> log_write t b c = None
           \<and> int (length (lh s)) + outstanding s * MAXOPBLOCKS \<le> LOGSIZE"
proof -
  have "\<exists>t. log_writes s bs = Some t \<and> lh t = lh s @ bs \<and> log_size t = log_size s"
    by (rule log_writes_distinct) (use assms in \<open>simp_all add: LOGSIZE_def\<close>)
  then obtain t where t: "log_writes s bs = Some t" "lh t = bs" "log_size t = 30" using assms(1,3) by auto
  then have "log_write t b c = None" using assms(5) by (simp add: log_write_def LOGSIZE_def)
  with t(1) show ?thesis using assms(2,3) by (simp add: LOGSIZE_def MAXOPBLOCKS_def)
qed

theorem log_full_at_29_witness:
  "\<exists>t. log_writes (one_block_log\<lparr>lh := [], outstanding := 3\<rparr>) [100..128] = Some t \<and> log_write t 129 (\<lambda>_. 0) = None"
proof -
  have s: "log_size (one_block_log\<lparr>lh := [], outstanding := 3\<rparr>) = 30"
    "outstanding (one_block_log\<lparr>lh := [], outstanding := 3\<rparr>) = 3" "lh (one_block_log\<lparr>lh := [], outstanding := 3\<rparr>) = []"
    by (simp_all add: one_block_log_def)
  have "distinct [100..128 :: int]" "length [100..128 :: int] = 29" by simp_all
  from log_full_at_29 [OF s this] show ?thesis by blast
qed

end
