(* ===== verification/Xv6_Fs.thy ===== *)
theory Xv6_Fs
  imports Xv6_Log
begin

text \<open>
  The file system of xv6, \<open>hw09/unnas-hw09/xv6/fs.c\<close>, on top of the log: block allocation, the inode
  cache, inode contents, directories and path names.

  A call has the form \<open>s \<Rightarrow> (result \<times> s) option\<close>: a panic, and a wait for a lock that is held, have
  no result. A pointer to a cached inode is its index in the cache; the null pointer is \<open>None\<close>. A
  C string and the name of a directory entry are byte lists that stop before the NUL (a
  name has at most \<open>DIRSIZ\<close> bytes). Buffers passed by pointer are byte lists. The device
  switch says which bytes a device delivers and what it answers to a write. Reference counts are
  not bounded; the kernel has far fewer open files and processes than an \<open>int\<close> can count.
\<close>

section \<open>The on-disk format (fs.h)\<close>

definition BSIZE :: int where "BSIZE = 512"
definition NDIRECT :: int where "NDIRECT = 12"
definition NINDIRECT :: int where "NINDIRECT = 128"
definition MAXFILE :: int where "MAXFILE = NDIRECT + NINDIRECT"
definition IPB :: int where "IPB = 8"
definition BPB :: int where "BPB = 4096"
definition DIRSIZ :: nat where "DIRSIZ = 14"
definition ROOTINO :: int where "ROOTINO = 1"
definition ROOTDEV :: int where "ROOTDEV = 1"
definition NDEV :: int where "NDEV = 10"
definition T_DIR :: int where "T_DIR = 1"
definition T_DEV :: int where "T_DEV = 3"

record superblock =
  sb_size :: int
  sb_nblocks :: int
  sb_ninodes :: int
  sb_nlog :: int
  sb_logstart :: int
  sb_inodestart :: int
  sb_bmapstart :: int

definition IBLOCK :: "int \<Rightarrow> superblock \<Rightarrow> int" where
  "IBLOCK i sb = i div IPB + sb_inodestart sb"

definition BBLOCK :: "int \<Rightarrow> superblock \<Rightarrow> int" where
  "BBLOCK b sb = b div BPB + sb_bmapstart sb"

definition uint32 :: "int \<Rightarrow> int" where
  "uint32 v = v mod 4294967296"

definition cshort :: "int \<Rightarrow> int" where
  "cshort v = (v + 32768) mod 65536 - 32768"

definition rdu16 :: "mem \<Rightarrow> int \<Rightarrow> int" where
  "rdu16 m a = uint (m a) + 256 * uint (m (a + 1))"

definition wr16 :: "mem \<Rightarrow> int \<Rightarrow> int \<Rightarrow> mem" where
  "wr16 m a v = m(a := word_of_int v, a + 1 := word_of_int (v div 256))"

definition rdu32 :: "mem \<Rightarrow> int \<Rightarrow> int" where
  "rdu32 m a = uint32 (rd32 m a)"

section \<open>In-memory inodes (file.h)\<close>

record inode =
  idev :: int
  inum :: int
  iref :: int
  ilocked :: bool
  valid :: bool
  itype :: int
  major :: int
  minor :: int
  nlink :: int
  isize :: int
  addrs :: "int list"

record xfs =
  xlg :: xlog
  sb :: superblock
  icache :: "inode list"
  dev_read :: "int \<Rightarrow> (int \<Rightarrow> byte list) option"
  dev_write :: "int \<Rightarrow> (byte list \<Rightarrow> int) option"

definition bread :: "xfs \<Rightarrow> int \<Rightarrow> mem" where
  "bread s b = log_bread (xlg s) b"

definition fs_log_write :: "xfs \<Rightarrow> int \<Rightarrow> mem \<Rightarrow> xfs option" where
  "fs_log_write s b d = map_option (\<lambda>l. s\<lparr>xlg := l\<rparr>) (log_write (xlg s) b d)"

definition the_inode :: "xfs \<Rightarrow> nat \<Rightarrow> inode" where
  "the_inode s ip = icache s ! ip"

definition set_inode :: "xfs \<Rightarrow> nat \<Rightarrow> inode \<Rightarrow> xfs" where
  "set_inode s ip v = s\<lparr>icache := (icache s)[ip := v]\<rparr>"

section \<open>Super block and blocks\<close>

definition readsb :: "xfs \<Rightarrow> superblock" where
  "readsb s =
     (let d = bread s 1
      in \<lparr>sb_size = rdu32 d 0, sb_nblocks = rdu32 d 4, sb_ninodes = rdu32 d 8, sb_nlog = rdu32 d 12,
          sb_logstart = rdu32 d 16, sb_inodestart = rdu32 d 20, sb_bmapstart = rdu32 d 24\<rparr>)"

definition bzero :: "xfs \<Rightarrow> int \<Rightarrow> xfs option" where
  "bzero s bno = fs_log_write s bno (\<lambda>_. 0)"

definition bit_mask :: "int \<Rightarrow> byte" where
  "bit_mask bi = push_bit (nat (bi mod 8)) 1"

function find_free_bit :: "mem \<Rightarrow> int \<Rightarrow> int \<Rightarrow> int \<Rightarrow> int option" where
  "find_free_bit buf b bi sz =
     (if bi < BPB \<and> b + bi < sz then
        if buf (bi div 8) AND bit_mask bi = 0 then Some bi else find_free_bit buf b (bi + 1) sz
      else None)"
  by pat_completeness auto
termination by (relation "measure (\<lambda>(buf, b, bi, sz). nat (sz - (b + bi)))") auto

declare find_free_bit.simps [simp del]

function balloc_from :: "xfs \<Rightarrow> int \<Rightarrow> (int \<times> xfs) option" where
  "balloc_from s b =
     (if b < sb_size (sb s) then
        let bno = BBLOCK b (sb s); buf = bread s bno in
        case find_free_bit buf b 0 (sb_size (sb s)) of
          Some bi \<Rightarrow> do {
            s \<leftarrow> fs_log_write s bno (buf(bi div 8 := buf (bi div 8) OR bit_mask bi));
            s \<leftarrow> bzero s (b + bi);
            Some (b + bi, s) }
        | None \<Rightarrow> balloc_from s (b + BPB)
      else None)"
  by pat_completeness auto
termination by (relation "measure (\<lambda>(s, b). nat (sb_size (sb s) - b))") (auto simp: BPB_def)

declare balloc_from.simps [simp del]

definition balloc :: "xfs \<Rightarrow> (int \<times> xfs) option" where
  "balloc s = balloc_from s 0"

definition bfree :: "xfs \<Rightarrow> int \<Rightarrow> xfs option" where
  "bfree s b =
     (let bno = BBLOCK b (sb s); buf = bread s bno; bi = b mod BPB; m = bit_mask bi in
      if buf (bi div 8) AND m = 0 then None
      else fs_log_write s bno (buf(bi div 8 := buf (bi div 8) AND NOT m)))"

section \<open>Inodes\<close>

text \<open>The disk inode at byte \<open>base\<close> of a block.\<close>

fun put_addrs :: "mem \<Rightarrow> int \<Rightarrow> int list \<Rightarrow> mem" where
  "put_addrs buf a [] = buf"
| "put_addrs buf a (x # xs) = put_addrs (wr32 buf a x) (a + 4) xs"

definition put_dinode :: "mem \<Rightarrow> int \<Rightarrow> inode \<Rightarrow> mem" where
  "put_dinode buf base ip =
     (let buf = wr16 buf base (itype ip);
          buf = wr16 buf (base + 2) (major ip);
          buf = wr16 buf (base + 4) (minor ip);
          buf = wr16 buf (base + 6) (nlink ip);
          buf = wr32 buf (base + 8) (isize ip)
      in put_addrs buf (base + 12) (addrs ip))"

definition get_dinode :: "mem \<Rightarrow> int \<Rightarrow> inode \<Rightarrow> inode" where
  "get_dinode buf base ip = ip\<lparr>itype := cshort (rdu16 buf base), major := cshort (rdu16 buf (base + 2)),
     minor := cshort (rdu16 buf (base + 4)), nlink := cshort (rdu16 buf (base + 6)),
     isize := rdu32 buf (base + 8), addrs := map (\<lambda>k. rdu32 buf (base + 12 + 4 * int k)) [0..<nat NDIRECT + 1]\<rparr>"

definition dinode_base :: "int \<Rightarrow> int" where
  "dinode_base i = 64 * (i mod IPB)"

definition iupdate :: "xfs \<Rightarrow> nat \<Rightarrow> xfs option" where
  "iupdate s ip =
     (let v = the_inode s ip; bno = IBLOCK (inum v) (sb s)
      in fs_log_write s bno (put_dinode (bread s bno) (dinode_base (inum v)) v))"

text \<open>The scan of \<open>iget\<close>: the cached entry if there is one, and the first free slot.\<close>

fun iget_scan :: "inode list \<Rightarrow> int \<Rightarrow> int \<Rightarrow> nat \<Rightarrow> nat option \<Rightarrow> nat option \<times> nat option" where
  "iget_scan [] dev ino i free = (None, free)"
| "iget_scan (v # vs) dev ino i free =
     (if iref v > 0 \<and> idev v = dev \<and> inum v = ino then (Some i, free)
      else iget_scan vs dev ino (Suc i) (if free = None \<and> iref v = 0 then Some i else free))"

definition iget :: "xfs \<Rightarrow> int \<Rightarrow> int \<Rightarrow> (nat \<times> xfs) option" where
  "iget s dev ino =
     (case iget_scan (icache s) dev ino 0 None of
        (Some i, free) \<Rightarrow> Some (i, set_inode s i ((the_inode s i)\<lparr>iref := iref (the_inode s i) + 1\<rparr>))
      | (None, None) \<Rightarrow> None
      | (None, Some i) \<Rightarrow> Some (i, set_inode s i ((the_inode s i)\<lparr>idev := dev, inum := ino, iref := 1, valid := False\<rparr>)))"

function ialloc_from :: "xfs \<Rightarrow> int \<Rightarrow> int \<Rightarrow> int \<Rightarrow> (nat \<times> xfs) option" where
  "ialloc_from s dev type i =
     (if i < sb_ninodes (sb s) then
        let bno = IBLOCK i (sb s); buf = bread s bno; base = dinode_base i in
        if cshort (rdu16 buf base) = 0 then do {
          s \<leftarrow> fs_log_write s bno (wr16 (\<lambda>x. if base \<le> x \<and> x < base + 64 then 0 else buf x) base type);
          iget s dev i }
        else ialloc_from s dev type (i + 1)
      else None)"
  by pat_completeness auto
termination by (relation "measure (\<lambda>(s, dev, type, i). nat (sb_ninodes (sb s) - i))") auto

declare ialloc_from.simps [simp del]

definition ialloc :: "xfs \<Rightarrow> int \<Rightarrow> int \<Rightarrow> (nat \<times> xfs) option" where
  "ialloc s dev type = ialloc_from s dev type 1"

definition idup :: "xfs \<Rightarrow> nat \<Rightarrow> nat \<times> xfs" where
  "idup s ip = (ip, set_inode s ip ((the_inode s ip)\<lparr>iref := iref (the_inode s ip) + 1\<rparr>))"

definition ilock :: "xfs \<Rightarrow> nat \<Rightarrow> xfs option" where
  "ilock s ip =
     (let v = the_inode s ip in
      if iref v < 1 then None
      else if ilocked v then None
      else let v = v\<lparr>ilocked := True\<rparr> in
        if \<not> valid v then
          let v = (get_dinode (bread s (IBLOCK (inum v) (sb s))) (dinode_base (inum v)) v)\<lparr>valid := True\<rparr>
          in if itype v = 0 then None else Some (set_inode s ip v)
        else Some (set_inode s ip v))"

definition iunlock :: "xfs \<Rightarrow> nat \<Rightarrow> xfs option" where
  "iunlock s ip =
     (let v = the_inode s ip in
      if \<not> ilocked v \<or> iref v < 1 then None else Some (set_inode s ip (v\<lparr>ilocked := False\<rparr>)))"

section \<open>Inode content\<close>

definition bmap :: "xfs \<Rightarrow> nat \<Rightarrow> int \<Rightarrow> (int \<times> xfs) option" where
  "bmap s ip bn =
     (if bn < NDIRECT then
        let addr = addrs (the_inode s ip) ! nat bn in
        if addr = 0 then do {
          (addr, s) \<leftarrow> balloc s;
          let v = the_inode s ip;
          Some (addr, set_inode s ip (v\<lparr>addrs := (addrs v)[nat bn := addr]\<rparr>)) }
        else Some (addr, s)
      else if bn - NDIRECT < NINDIRECT then do {
        let bn = bn - NDIRECT;
        (addr, s) \<leftarrow> (let addr = addrs (the_inode s ip) ! nat NDIRECT in
          if addr = 0 then do {
            (addr, s) \<leftarrow> balloc s;
            let v = the_inode s ip;
            Some (addr, set_inode s ip (v\<lparr>addrs := (addrs v)[nat NDIRECT := addr]\<rparr>)) }
          else Some (addr, s));
        let a = rdu32 (bread s addr) (4 * bn);
        if a = 0 then do {
          (a, s) \<leftarrow> balloc s;
          s \<leftarrow> fs_log_write s addr (wr32 (bread s addr) (4 * bn) a);
          Some (a, s) }
        else Some (a, s) }
      else None)"

fun free_direct :: "xfs \<Rightarrow> nat \<Rightarrow> nat list \<Rightarrow> xfs option" where
  "free_direct s ip [] = Some s"
| "free_direct s ip (i # is) =
     (let a = addrs (the_inode s ip) ! i in
      if a \<noteq> 0 then do {
        s \<leftarrow> bfree s a;
        let v = the_inode s ip;
        free_direct (set_inode s ip (v\<lparr>addrs := (addrs v)[i := 0]\<rparr>)) ip is }
      else free_direct s ip is)"

fun free_indirect :: "xfs \<Rightarrow> int \<Rightarrow> nat list \<Rightarrow> xfs option" where
  "free_indirect s b [] = Some s"
| "free_indirect s b (j # js) =
     (let a = rdu32 (bread s b) (4 * int j) in
      if a \<noteq> 0 then do { s \<leftarrow> bfree s a; free_indirect s b js } else free_indirect s b js)"

definition itrunc :: "xfs \<Rightarrow> nat \<Rightarrow> xfs option" where
  "itrunc s ip = do {
     s \<leftarrow> free_direct s ip [0..<nat NDIRECT];
     s \<leftarrow> (let b = addrs (the_inode s ip) ! nat NDIRECT in
       if b \<noteq> 0 then do {
         s \<leftarrow> free_indirect s b [0..<nat NINDIRECT];
         s \<leftarrow> bfree s b;
         let v = the_inode s ip;
         Some (set_inode s ip (v\<lparr>addrs := (addrs v)[nat NDIRECT := 0]\<rparr>)) }
       else Some s);
     iupdate (set_inode s ip ((the_inode s ip)\<lparr>isize := 0\<rparr>)) ip }"

definition iput :: "xfs \<Rightarrow> nat \<Rightarrow> xfs option" where
  "iput s ip =
     (if ilocked (the_inode s ip) then None
      else do {
        let s = set_inode s ip ((the_inode s ip)\<lparr>ilocked := True\<rparr>);
        s \<leftarrow> (if valid (the_inode s ip) \<and> nlink (the_inode s ip) = 0 \<and> iref (the_inode s ip) = 1 then do {
            s \<leftarrow> itrunc s ip;
            s \<leftarrow> iupdate (set_inode s ip ((the_inode s ip)\<lparr>itype := 0\<rparr>)) ip;
            Some (set_inode s ip ((the_inode s ip)\<lparr>valid := False\<rparr>)) }
          else Some s);
        let s = set_inode s ip ((the_inode s ip)\<lparr>ilocked := False\<rparr>);
        Some (set_inode s ip ((the_inode s ip)\<lparr>iref := iref (the_inode s ip) - 1\<rparr>)) })"

definition iunlockput :: "xfs \<Rightarrow> nat \<Rightarrow> xfs option" where
  "iunlockput s ip = do { s \<leftarrow> iunlock s ip; iput s ip }"

record stat =
  st_type :: int
  st_dev :: int
  st_ino :: int
  st_nlink :: int
  st_size :: int

definition stati :: "xfs \<Rightarrow> nat \<Rightarrow> stat" where
  "stati s ip = (let v = the_inode s ip
     in \<lparr>st_type = itype v, st_dev = idev v, st_ino = inum v, st_nlink = nlink v, st_size = isize v\<rparr>)"

text \<open>The counters of the bytes read and written through an open file.\<close>

record iostats =
  read_bytes :: int
  write_bytes :: int

definition iostats_copy :: "iostats \<Rightarrow> iostats \<Rightarrow> iostats" where
  "iostats_copy is st = st\<lparr>read_bytes := read_bytes is, write_bytes := write_bytes is\<rparr>"

definition iostats_incr_read :: "iostats \<Rightarrow> int \<Rightarrow> iostats" where
  "iostats_incr_read is n = is\<lparr>read_bytes := uint32 (read_bytes is + n)\<rparr>"

definition iostats_incr_write :: "iostats \<Rightarrow> int \<Rightarrow> iostats" where
  "iostats_incr_write is n = is\<lparr>write_bytes := uint32 (write_bytes is + n)\<rparr>"

definition iostats_set_read :: "iostats \<Rightarrow> int \<Rightarrow> iostats" where
  "iostats_set_read is n = is\<lparr>read_bytes := n\<rparr>"

definition iostats_set_write :: "iostats \<Rightarrow> int \<Rightarrow> iostats" where
  "iostats_set_write is n = is\<lparr>write_bytes := n\<rparr>"

definition iostats_clear :: "iostats \<Rightarrow> iostats" where
  "iostats_clear is = is\<lparr>read_bytes := 0, write_bytes := 0\<rparr>"

definition block_bytes :: "mem \<Rightarrow> int \<Rightarrow> int \<Rightarrow> byte list" where
  "block_bytes buf a m = map (\<lambda>k. buf (a + int k)) [0..<nat m]"

definition put_bytes :: "mem \<Rightarrow> int \<Rightarrow> byte list \<Rightarrow> mem" where
  "put_bytes buf a cs = (\<lambda>x. if a \<le> x \<and> x < a + int (length cs) then cs ! nat (x - a) else buf x)"

lemma chunk_pos: "tot < n \<Longrightarrow> 0 < min (n - tot) (BSIZE - off mod BSIZE)"
  using pos_mod_bound [of BSIZE off] by (simp add: BSIZE_def)

function readi_loop :: "xfs \<Rightarrow> nat \<Rightarrow> int \<Rightarrow> int \<Rightarrow> int \<Rightarrow> (byte list \<times> xfs) option" where
  "readi_loop s ip tot n off =
     (if tot < n then
        case bmap s ip (off div BSIZE) of
          None \<Rightarrow> None
        | Some (b, s) \<Rightarrow>
            let m = min (n - tot) (BSIZE - off mod BSIZE)
            in map_option (\<lambda>(cs, s'). (block_bytes (bread s b) (off mod BSIZE) m @ cs, s'))
                 (readi_loop s ip (tot + m) n (off + m))
      else Some ([], s))"
  by pat_completeness auto
termination
  by (relation "measure (\<lambda>(s, ip, tot, n, off). nat (n - tot))") (use chunk_pos in fastforce)+

declare readi_loop.simps [simp del]

definition readi :: "xfs \<Rightarrow> nat \<Rightarrow> int \<Rightarrow> int \<Rightarrow> ((int \<times> byte list) \<times> xfs) option" where
  "readi s ip off n =
     (let v = the_inode s ip in
      if itype v = T_DEV then
        if major v < 0 \<or> major v \<ge> NDEV then Some ((- 1, []), s)
        else case dev_read s (major v) of
            None \<Rightarrow> Some ((- 1, []), s)
          | Some rd \<Rightarrow> Some ((int (length (rd n)), rd n), s)
      else if off > isize v \<or> uint32 (off + n) < off then Some ((- 1, []), s)
      else let n = (if uint32 (off + n) > isize v then isize v - off else n)
        in map_option (\<lambda>(cs, s'). ((n, cs), s')) (readi_loop s ip 0 n off))"

function writei_loop :: "xfs \<Rightarrow> nat \<Rightarrow> byte list \<Rightarrow> int \<Rightarrow> int \<Rightarrow> int \<Rightarrow> (int \<times> xfs) option" where
  "writei_loop s ip src tot n off =
     (if tot < n then
        case bmap s ip (off div BSIZE) of
          None \<Rightarrow> None
        | Some (b, s) \<Rightarrow>
            let m = min (n - tot) (BSIZE - off mod BSIZE) in
            case fs_log_write s b (put_bytes (bread s b) (off mod BSIZE) (take (nat m) (drop (nat tot) src))) of
              None \<Rightarrow> None
            | Some s \<Rightarrow> writei_loop s ip src (tot + m) n (off + m)
      else Some (off, s))"
  by pat_completeness auto
termination
  by (relation "measure (\<lambda>(s, ip, src, tot, n, off). nat (n - tot))") (use chunk_pos in fastforce)+

declare writei_loop.simps [simp del]

definition writei :: "xfs \<Rightarrow> nat \<Rightarrow> byte list \<Rightarrow> int \<Rightarrow> int \<Rightarrow> (int \<times> xfs) option" where
  "writei s ip src off n =
     (let v = the_inode s ip in
      if itype v = T_DEV then
        if major v < 0 \<or> major v \<ge> NDEV then Some (- 1, s)
        else case dev_write s (major v) of None \<Rightarrow> Some (- 1, s) | Some wr \<Rightarrow> Some (wr (take (nat n) src), s)
      else if off > isize v \<or> uint32 (off + n) < off then Some (- 1, s)
      else if uint32 (off + n) > MAXFILE * BSIZE then Some (- 1, s)
      else do {
        (off, s) \<leftarrow> writei_loop s ip src 0 n off;
        if n > 0 \<and> off > isize (the_inode s ip) then do {
          s \<leftarrow> iupdate (set_inode s ip ((the_inode s ip)\<lparr>isize := off\<rparr>)) ip;
          Some (n, s) }
        else Some (n, s) })"

section \<open>Directories\<close>

fun first_byte :: "byte list \<Rightarrow> byte" where
  "first_byte [] = 0"
| "first_byte (c # cs) = c"

fun strncmp_bytes :: "nat \<Rightarrow> byte list \<Rightarrow> byte list \<Rightarrow> int" where
  "strncmp_bytes 0 p q = 0"
| "strncmp_bytes (Suc n) p q =
     (if first_byte p \<noteq> 0 \<and> first_byte p = first_byte q then strncmp_bytes n (tl p) (tl q)
      else uint (first_byte p) - uint (first_byte q))"

definition namecmp :: "byte list \<Rightarrow> byte list \<Rightarrow> int" where
  "namecmp s t = strncmp_bytes DIRSIZ s t"

definition de_inum :: "byte list \<Rightarrow> int" where
  "de_inum de = uint (de ! 0) + 256 * uint (de ! 1)"

definition de_name :: "byte list \<Rightarrow> byte list" where
  "de_name de = take DIRSIZ (drop 2 de)"

text \<open>The result is the inode and the offset of the entry, or the null pointer.\<close>

function dirlookup_from :: "xfs \<Rightarrow> nat \<Rightarrow> byte list \<Rightarrow> int \<Rightarrow> int \<Rightarrow> ((nat \<times> int) option \<times> xfs) option" where
  "dirlookup_from s dp name off sz =
     (if off < sz then
        case readi s dp off 16 of
          None \<Rightarrow> None
        | Some ((r, de), s) \<Rightarrow>
            if r \<noteq> 16 then None
            else if de_inum de = 0 then dirlookup_from s dp name (off + 16) sz
            else if namecmp name (de_name de) = 0 then do {
              (ip, s) \<leftarrow> iget s (idev (the_inode s dp)) (de_inum de);
              Some (Some (ip, off), s) }
            else dirlookup_from s dp name (off + 16) sz
      else Some (None, s))"
  by pat_completeness auto
termination by (relation "measure (\<lambda>(s, dp, name, off, sz). nat (sz - off))") auto

declare dirlookup_from.simps [simp del]

definition dirlookup :: "xfs \<Rightarrow> nat \<Rightarrow> byte list \<Rightarrow> ((nat \<times> int) option \<times> xfs) option" where
  "dirlookup s dp name =
     (if itype (the_inode s dp) \<noteq> T_DIR then None
      else dirlookup_from s dp name 0 (isize (the_inode s dp)))"

text \<open>The search for an empty entry: the offset where the loop stops.\<close>

function dirlink_slot :: "xfs \<Rightarrow> nat \<Rightarrow> int \<Rightarrow> int \<Rightarrow> (int \<times> xfs) option" where
  "dirlink_slot s dp off sz =
     (if off < sz then
        case readi s dp off 16 of
          None \<Rightarrow> None
        | Some ((r, de), s) \<Rightarrow>
            if r \<noteq> 16 then None
            else if de_inum de = 0 then Some (off, s)
            else dirlink_slot s dp (off + 16) sz
      else Some (off, s))"
  by pat_completeness auto
termination by (relation "measure (\<lambda>(s, dp, off, sz). nat (sz - off))") auto

declare dirlink_slot.simps [simp del]

definition make_dirent :: "byte list \<Rightarrow> int \<Rightarrow> byte list" where
  "make_dirent name i = [word_of_int i, word_of_int (i div 256)]
     @ take DIRSIZ name @ replicate (DIRSIZ - length name) 0"

definition dirlink :: "xfs \<Rightarrow> nat \<Rightarrow> byte list \<Rightarrow> int \<Rightarrow> (int \<times> xfs) option" where
  "dirlink s dp name i = do {
     (found, s) \<leftarrow> dirlookup s dp name;
     case found of
       Some (ip, off) \<Rightarrow> do { s \<leftarrow> iput s ip; Some (- 1, s) }
     | None \<Rightarrow> do {
         (off, s) \<leftarrow> dirlink_slot s dp 0 (isize (the_inode s dp));
         (r, s) \<leftarrow> writei s dp (make_dirent name i) off 16;
         if r \<noteq> 16 then None else Some (0, s) } }"

section \<open>Paths\<close>

abbreviation slash :: byte where "slash \<equiv> 47"

definition skipelem :: "byte list \<Rightarrow> (byte list \<times> byte list) option" where
  "skipelem path =
     (let path = dropWhile (\<lambda>c. c = slash) path in
      if path = [] then None
      else let s = takeWhile (\<lambda>c. c \<noteq> slash) path; rest = dropWhile (\<lambda>c. c \<noteq> slash) path
        in Some (dropWhile (\<lambda>c. c = slash) rest, take DIRSIZ s))"

lemma skipelem_shorter: "skipelem path = Some (rest, name) \<Longrightarrow> length rest < length path"
proof -
  assume a: "skipelem path = Some (rest, name)"
  define p where "p = dropWhile (\<lambda>c. c = slash) path"
  have ne: "p \<noteq> []" and rest: "rest = dropWhile (\<lambda>c. c = slash) (dropWhile (\<lambda>c. c \<noteq> slash) p)"
    using a by (auto simp: skipelem_def p_def Let_def split: if_splits)
  have "hd p \<noteq> slash" using hd_dropWhile [of "\<lambda>c. c = slash" path] ne by (simp add: p_def)
  then have "length (dropWhile (\<lambda>c. c \<noteq> slash) p) < length p"
    using ne by (cases p) (simp_all add: length_dropWhile_le le_imp_less_Suc)
  moreover have "length p \<le> length path" by (simp add: p_def length_dropWhile_le)
  ultimately show ?thesis
    unfolding rest by (meson length_dropWhile_le le_less_trans less_le_trans)
qed

function namex_loop :: "xfs \<Rightarrow> nat \<Rightarrow> byte list \<Rightarrow> bool \<Rightarrow> byte list \<Rightarrow> ((nat option \<times> byte list) \<times> xfs) option" where
  "namex_loop s ip path parent name0 =
     (case skipelem path of
        None \<Rightarrow>
          if parent then map_option (\<lambda>s. ((None, name0), s)) (iput s ip) else Some ((Some ip, name0), s)
      | Some (rest, name) \<Rightarrow>
          (case ilock s ip of
             None \<Rightarrow> None
           | Some s \<Rightarrow>
               if itype (the_inode s ip) \<noteq> T_DIR then map_option (\<lambda>s. ((None, name), s)) (iunlockput s ip)
               else if parent \<and> rest = [] then map_option (\<lambda>s. ((Some ip, name), s)) (iunlock s ip)
               else
                 (case dirlookup s ip name of
                    None \<Rightarrow> None
                  | Some (None, s) \<Rightarrow> map_option (\<lambda>s. ((None, name), s)) (iunlockput s ip)
                  | Some (Some (nxt, off), s) \<Rightarrow>
                      (case iunlockput s ip of
                         None \<Rightarrow> None
                       | Some s \<Rightarrow> namex_loop s nxt rest parent name))))"
  by pat_completeness auto
termination by (relation "measure (\<lambda>(s, ip, path, parent, name). length path)") (auto dest: skipelem_shorter)

declare namex_loop.simps [simp del]

text \<open>\<open>cwd\<close> is the current directory of the process.\<close>

definition namex :: "xfs \<Rightarrow> nat \<Rightarrow> byte list \<Rightarrow> bool \<Rightarrow> ((nat option \<times> byte list) \<times> xfs) option" where
  "namex s cwd path parent = do {
     (ip, s) \<leftarrow> (if first_byte path = slash then iget s ROOTDEV ROOTINO else Some (idup s cwd));
     namex_loop s ip path parent [] }"

definition namei :: "xfs \<Rightarrow> nat \<Rightarrow> byte list \<Rightarrow> (nat option \<times> xfs) option" where
  "namei s cwd path = map_option (\<lambda>((ip, name), s). (ip, s)) (namex s cwd path False)"

definition nameiparent :: "xfs \<Rightarrow> nat \<Rightarrow> byte list \<Rightarrow> ((nat option \<times> byte list) \<times> xfs) option" where
  "nameiparent s cwd path = namex s cwd path True"

section \<open>Block allocation\<close>

definition block_used :: "xfs \<Rightarrow> int \<Rightarrow> bool" where
  "block_used s b \<longleftrightarrow> bread s (BBLOCK b (sb s)) (b mod BPB div 8) AND bit_mask (b mod BPB) \<noteq> 0"

lemma bit_mask_clear: "w AND bit_mask i = 0 \<longleftrightarrow> \<not> bit w (nat (i mod 8))"
proof
  assume a: "w AND bit_mask i = 0"
  show "\<not> bit w (nat (i mod 8))"
  proof
    assume "bit w (nat (i mod 8))"
    moreover have "nat (i mod 8) < 8" by simp
    ultimately have "bit (w AND bit_mask i) (nat (i mod 8))" by (simp add: bit_mask_def bit_simps)
    then show False using a by simp
  qed
next
  assume "\<not> bit w (nat (i mod 8))"
  then show "w AND bit_mask i = 0" by (intro bit_word_eqI) (auto simp: bit_mask_def bit_simps)
qed

lemma bit_mask_set:
  "(w OR bit_mask i) AND bit_mask j = 0 \<longleftrightarrow> i mod 8 \<noteq> j mod 8 \<and> w AND bit_mask j = 0"
proof -
  have "bit (w OR bit_mask i) (nat (j mod 8)) \<longleftrightarrow> bit w (nat (j mod 8)) \<or> i mod 8 = j mod 8"
    by (auto simp: bit_mask_def bit_simps nat_eq_iff2) 
  then show ?thesis by (auto simp: bit_mask_clear)
qed

lemma bit_mask_mod: "bit_mask (i mod BPB) = bit_mask i"
  by (simp add: bit_mask_def BPB_def mod_mod_cancel)

lemma find_free_bit_spec:
  assumes "0 \<le> bi"
  shows "case find_free_bit buf b bi sz of
      None \<Rightarrow> \<forall>j. bi \<le> j \<longrightarrow> j < BPB \<longrightarrow> b + j < sz \<longrightarrow> buf (j div 8) AND bit_mask j \<noteq> 0
    | Some k \<Rightarrow> bi \<le> k \<and> k < BPB \<and> b + k < sz \<and> buf (k div 8) AND bit_mask k = 0
        \<and> (\<forall>j. bi \<le> j \<longrightarrow> j < k \<longrightarrow> buf (j div 8) AND bit_mask j \<noteq> 0)"
proof (induction buf b bi sz rule: find_free_bit.induct)
  case (1 buf b bi sz)
  note unf = find_free_bit.simps [of buf b bi sz]
  show ?case
  proof (cases "bi < BPB \<and> b + bi < sz")
    case False
    then show ?thesis unfolding unf by auto
  next
    case True
    show ?thesis
    proof (cases "buf (bi div 8) AND bit_mask bi = 0")
      case free: True
      then show ?thesis using True unfolding unf by simp
    next
      case False
      have split: "bi \<le> j \<longleftrightarrow> j = bi \<or> bi + 1 \<le> j" for j by linarith
      have "find_free_bit buf b bi sz = find_free_bit buf b (bi + 1) sz" using True False unf by simp
      then show ?thesis using "1.IH" [OF True False] False
        by (cases "find_free_bit buf b (bi + 1) sz") (auto simp: split)
    qed
  qed
qed

lemma fs_log_write_Some:
  assumes "fs_log_write s b d = Some s'"
  shows "bread s' x = (if x = b then d else bread s x)" and "sb s' = sb s" and "icache s' = icache s"
  using assms by (auto simp: fs_log_write_def log_write_def bread_def log_bread_def Let_def split: if_splits option.splits)

lemma block_of_bit:
  assumes "b mod BPB = 0" and "0 \<le> k" and "k < BPB"
  shows "BBLOCK (b + k) su = BBLOCK b su" and "(b + k) mod BPB = k"
proof -
  obtain q where q: "b = 4096 * q" using assms(1) by (auto simp: BPB_def)
  show "BBLOCK (b + k) su = BBLOCK b su" "(b + k) mod BPB = k"
    using assms(2,3) by (simp_all add: q BBLOCK_def BPB_def)
qed

lemma balloc_from_spec:
  assumes "b mod BPB = 0" and "0 \<le> b" and "balloc_from s b = Some (r, s')"
  shows "b \<le> r \<and> r < sb_size (sb s) \<and> \<not> block_used s r \<and> (\<forall>x. b \<le> x \<longrightarrow> x < r \<longrightarrow> block_used s x)
       \<and> sb s' = sb s \<and> icache s' = icache s
       \<and> (\<forall>x. bread s' x = (if x = r then (\<lambda>_. 0)
            else if x = BBLOCK r (sb s)
              then (bread s x)(r mod BPB div 8 := bread s x (r mod BPB div 8) OR bit_mask (r mod BPB)) else bread s x))"
  using assms
proof (induction s b rule: balloc_from.induct)
  case (1 s b)
  note unf = balloc_from.simps [of s b]
  let ?n = "sb_size (sb s)" and ?bno = "BBLOCK b (sb s)"
  have lt: "b < ?n" using "1.prems"(3) unf by (auto split: if_splits)
  have used: "block_used s (b + k) \<longleftrightarrow> bread s ?bno (k div 8) AND bit_mask k \<noteq> 0" if "0 \<le> k" "k < BPB" for k
    using block_of_bit [OF "1.prems"(1) that] by (simp add: block_used_def)
  have sp: "case find_free_bit (bread s ?bno) b 0 ?n of
      None \<Rightarrow> \<forall>j. 0 \<le> j \<longrightarrow> j < BPB \<longrightarrow> b + j < ?n \<longrightarrow> bread s ?bno (j div 8) AND bit_mask j \<noteq> 0
    | Some k \<Rightarrow> 0 \<le> k \<and> k < BPB \<and> b + k < ?n \<and> bread s ?bno (k div 8) AND bit_mask k = 0
        \<and> (\<forall>j. 0 \<le> j \<longrightarrow> j < k \<longrightarrow> bread s ?bno (j div 8) AND bit_mask j \<noteq> 0)"
    by (rule find_free_bit_spec) simp
  show ?case
  proof (cases "find_free_bit (bread s ?bno) b 0 ?n")
    case None
    have IH: "b + BPB \<le> r \<and> r < ?n \<and> \<not> block_used s r \<and> (\<forall>x. b + BPB \<le> x \<longrightarrow> x < r \<longrightarrow> block_used s x)
       \<and> sb s' = sb s \<and> icache s' = icache s
       \<and> (\<forall>x. bread s' x = (if x = r then (\<lambda>_. 0)
            else if x = BBLOCK r (sb s)
              then (bread s x)(r mod BPB div 8 := bread s x (r mod BPB div 8) OR bit_mask (r mod BPB)) else bread s x))"
      by (rule "1.IH" [OF lt refl refl None]) (use "1.prems" unf None lt in \<open>auto simp: BPB_def Let_def\<close>)
    have "block_used s x" if "b \<le> x" "x < r" for x
    proof (cases "b + BPB \<le> x")
      case True
      then show ?thesis using IH that by simp
    next
      case False
      then have "0 \<le> x - b" "x - b < BPB" "b + (x - b) < ?n" using that IH by linarith+
      then show ?thesis using used [of "x - b"] sp None by simp
    qed
    then show ?thesis using IH by (auto simp: BPB_def)
  next
    case (Some k)
    then have k: "0 \<le> k" "k < BPB" "b + k < ?n" "bread s ?bno (k div 8) AND bit_mask k = 0"
      "\<forall>j. 0 \<le> j \<longrightarrow> j < k \<longrightarrow> bread s ?bno (j div 8) AND bit_mask j \<noteq> 0" using sp by simp_all
    define d where "d = (bread s ?bno)(k div 8 := bread s ?bno (k div 8) OR bit_mask k)"
    obtain t where t: "fs_log_write s ?bno d = Some t" "bzero t (b + k) = Some s'" "r = b + k"
      using "1.prems"(3) lt Some unf by (auto simp: Let_def d_def bind_eq_Some_conv)
    note w1 = fs_log_write_Some [OF t(1)] and w2 = fs_log_write_Some [OF t(2) [unfolded bzero_def]]
    have "block_used s x" if "b \<le> x" "x < r" for x
      using used [of "x - b"] k(2,5) that t(3) by simp
    moreover have "\<not> block_used s r" using used [OF k(1,2)] k(4) t(3) by simp
    moreover have "BBLOCK r (sb s) = ?bno" "r mod BPB = k" using block_of_bit [OF "1.prems"(1) k(1,2)] t(3) by simp_all
    ultimately show ?thesis using w1 w2 k t(3) by (auto simp: d_def)
  qed
qed

text \<open>C29: \<open>balloc\<close> returns the first block that the bitmap calls free, marks exactly this block as used,
  leaves it zeroed and changes no other block, provided that the blocks of the bitmap are themselves marked as used.\<close>

theorem balloc_correct:
  assumes "balloc s = Some (r, s')" and "\<forall>x. 0 \<le> x \<longrightarrow> x < sb_size (sb s) \<longrightarrow> BBLOCK x (sb s) \<noteq> r"
  shows "0 \<le> r \<and> r < sb_size (sb s) \<and> \<not> block_used s r \<and> (\<forall>x. 0 \<le> x \<longrightarrow> x < r \<longrightarrow> block_used s x)
       \<and> bread s' r = (\<lambda>_. 0) \<and> (\<forall>x. x \<noteq> r \<longrightarrow> x \<noteq> BBLOCK r (sb s) \<longrightarrow> bread s' x = bread s x)
       \<and> (\<forall>x. 0 \<le> x \<longrightarrow> x < sb_size (sb s) \<longrightarrow> block_used s' x = (x = r \<or> block_used s x))"
proof -
  have sp: "0 \<le> r \<and> r < sb_size (sb s) \<and> \<not> block_used s r \<and> (\<forall>x. 0 \<le> x \<longrightarrow> x < r \<longrightarrow> block_used s x)
       \<and> sb s' = sb s \<and> icache s' = icache s
       \<and> (\<forall>x. bread s' x = (if x = r then (\<lambda>_. 0)
            else if x = BBLOCK r (sb s)
              then (bread s x)(r mod BPB div 8 := bread s x (r mod BPB div 8) OR bit_mask (r mod BPB)) else bread s x))"
    by (rule balloc_from_spec [of 0]) (use assms(1) in \<open>simp_all add: balloc_def\<close>)
  have "block_used s' x = (x = r \<or> block_used s x)" if x: "0 \<le> x" "x < sb_size (sb s)" for x
  proof (cases "BBLOCK x (sb s) = BBLOCK r (sb s) \<and> x mod BPB div 8 = r mod BPB div 8")
    case True
    have "(x mod BPB) mod 8 = (r mod BPB) mod 8 \<longleftrightarrow> x = r"
    proof
      assume m: "(x mod BPB) mod 8 = (r mod BPB) mod 8"
      then have "x mod BPB = r mod BPB" using True by (metis div_mult_mod_eq)
      moreover have "x div BPB = r div BPB" using True by (simp add: BBLOCK_def)
      ultimately show "x = r" by (metis div_mult_mod_eq)
    qed simp
    moreover have "BBLOCK r (sb s) \<noteq> r" using assms(2) sp by blast
    ultimately show ?thesis
      using sp True bit_mask_set [of "bread s (BBLOCK r (sb s)) (r mod BPB div 8)" "r mod BPB" "x mod BPB"]
      by (auto simp: block_used_def)
  next
    case False
    moreover have "BBLOCK x (sb s) \<noteq> r" using assms(2) x by blast
    ultimately show ?thesis using sp by (auto simp: block_used_def)
  qed
  then show ?thesis using sp by auto
qed

text \<open>A file system of 100 blocks, nothing in use, with a transaction open.\<close>

definition small_fs :: xfs where
  "small_fs = \<lparr>xlg = \<lparr>xdisk = (\<lambda>_ _. 0), dirty = (\<lambda>_. None), history = [], log_start = 2, log_size = 30,
       outstanding = 1, committing = False, lh = []\<rparr>,
     sb = \<lparr>sb_size = 100, sb_nblocks = 41, sb_ninodes = 200, sb_nlog = 30, sb_logstart = 2, sb_inodestart = 32,
       sb_bmapstart = 58\<rparr>,
     icache = replicate 50 \<lparr>idev = 0, inum = 0, iref = 0, ilocked = False, valid = False, itype = 0, major = 0,
       minor = 0, nlink = 0, isize = 0, addrs = replicate 13 0\<rparr>,
     dev_read = (\<lambda>_. None), dev_write = (\<lambda>_. None)\<rparr>"

lemma small_fs_balloc: "\<exists>s'. balloc small_fs = Some (0, s')"
proof -
  have "find_free_bit (bread small_fs (BBLOCK 0 (sb small_fs))) 0 0 (sb_size (sb small_fs)) = Some 0"
    by (subst find_free_bit.simps) (simp add: small_fs_def bread_def log_bread_def BPB_def)
  then show ?thesis
    unfolding balloc_def
    by (subst balloc_from.simps) (simp add: small_fs_def bzero_def fs_log_write_def log_write_def LOGSIZE_def Let_def)
qed

theorem balloc_correct_witness:
  "\<exists>s'. balloc small_fs = Some (0, s') \<and> bread s' 0 = (\<lambda>_. 0) \<and> block_used s' 0"
proof -
  obtain s' where s': "balloc small_fs = Some (0, s')" using small_fs_balloc by blast
  have "\<forall>x. 0 \<le> x \<longrightarrow> x < sb_size (sb small_fs) \<longrightarrow> BBLOCK x (sb small_fs) \<noteq> 0"
    by (simp add: small_fs_def BBLOCK_def BPB_def)
  from balloc_correct [OF s' this] s' show ?thesis by (auto simp: small_fs_def)
qed

section \<open>References to cached inodes\<close>

text \<open>The identity of the cache entries: device, inode number and reference count.\<close>

definition ids :: "xfs \<Rightarrow> (int \<times> int \<times> int) list" where
  "ids s = map (\<lambda>v. (idev v, inum v, iref v)) (icache s)"

lemma length_ids [simp]: "length (ids s) = length (icache s)"
  by (simp add: ids_def)

lemma ids_nth: "i < length (icache s) \<Longrightarrow> ids s ! i = (idev (icache s ! i), inum (icache s ! i), iref (icache s ! i))"
  by (simp add: ids_def)

lemma ids_set_inode:
  "idev v = idev (the_inode s ip) \<Longrightarrow> inum v = inum (the_inode s ip) \<Longrightarrow> iref v = iref (the_inode s ip)
    \<Longrightarrow> ids (set_inode s ip v) = ids s"
proof (cases "ip < length (icache s)")
  case True
  assume "idev v = idev (the_inode s ip)" "inum v = inum (the_inode s ip)" "iref v = iref (the_inode s ip)"
  then have "(idev v, inum v, iref v) = ids s ! ip" using True by (simp add: ids_def the_inode_def)
  then show ?thesis by (simp add: ids_def set_inode_def map_update)
next
  case False
  then show ?thesis by (simp add: ids_def set_inode_def list_update_beyond)
qed

lemma ids_log_write: "fs_log_write s b d = Some s' \<Longrightarrow> ids s' = ids s"
  using fs_log_write_Some(3) by (simp add: ids_def)

lemma ids_iupdate: "iupdate s ip = Some s' \<Longrightarrow> ids s' = ids s"
  by (auto simp: iupdate_def Let_def dest: ids_log_write)

lemma ids_bfree: "bfree s b = Some s' \<Longrightarrow> ids s' = ids s"
  by (auto simp: bfree_def Let_def dest: ids_log_write split: if_splits)

lemma ids_balloc_from: "balloc_from s b = Some (r, s') \<Longrightarrow> ids s' = ids s"
proof (induction s b rule: balloc_from.induct)
  case (1 s b)
  then show ?case using balloc_from.simps [of s b]
    by (auto simp: Let_def bzero_def bind_eq_Some_conv dest!: ids_log_write split: if_splits option.splits)
qed

lemma ids_balloc: "balloc s = Some (r, s') \<Longrightarrow> ids s' = ids s"
  by (simp add: balloc_def ids_balloc_from)

lemma ids_bmap: "bmap s ip bn = Some (r, s') \<Longrightarrow> ids s' = ids s"
  by (auto simp: bmap_def Let_def bind_eq_Some_conv ids_set_inode dest!: ids_balloc ids_log_write split: if_splits)

lemma ids_free_direct: "free_direct s ip is = Some s' \<Longrightarrow> ids s' = ids s"
proof (induction s ip "is" rule: free_direct.induct)
  case (2 s ip i "is")
  show ?case
  proof (cases "addrs (the_inode s ip) ! i = 0")
    case True
    then show ?thesis using 2 by simp
  next
    case False
    then obtain t where t: "bfree s (addrs (the_inode s ip) ! i) = Some t"
      "free_direct (set_inode t ip ((the_inode t ip)\<lparr>addrs := (addrs (the_inode t ip))[i := 0]\<rparr>)) ip is = Some s'"
      using "2.prems" by (auto simp: Let_def bind_eq_Some_conv)
    have "ids s' = ids (set_inode t ip ((the_inode t ip)\<lparr>addrs := (addrs (the_inode t ip))[i := 0]\<rparr>))"
      by (rule "2.IH"(1)) (use False t in auto)
    then show ?thesis using ids_bfree [OF t(1)] by (simp add: ids_set_inode)
  qed
qed simp

lemma ids_free_indirect: "free_indirect s b js = Some s' \<Longrightarrow> ids s' = ids s"
proof (induction js arbitrary: s)
  case (Cons j js)
  show ?case
  proof (cases "rdu32 (bread s b) (4 * int j) = 0")
    case True
    then show ?thesis using Cons by simp
  next
    case False
    then obtain t where "bfree s (rdu32 (bread s b) (4 * int j)) = Some t" "free_indirect t b js = Some s'"
      using Cons.prems by (auto simp: Let_def bind_eq_Some_conv)
    then show ?thesis using ids_bfree Cons.IH by simp
  qed
qed simp

lemma ids_itrunc:
  assumes "itrunc s ip = Some s'"
  shows "ids s' = ids s"
proof -
  obtain t u where t: "free_direct s ip [0..<nat NDIRECT] = Some t"
    and u: "(let b = addrs (the_inode t ip) ! nat NDIRECT in
       if b \<noteq> 0 then do {
         s \<leftarrow> free_indirect t b [0..<nat NINDIRECT];
         s \<leftarrow> bfree s b;
         let v = the_inode s ip;
         Some (set_inode s ip (v\<lparr>addrs := (addrs v)[nat NDIRECT := 0]\<rparr>)) }
       else Some t) = Some u"
    and s': "iupdate (set_inode u ip ((the_inode u ip)\<lparr>isize := 0\<rparr>)) ip = Some s'"
    using assms unfolding itrunc_def bind_eq_Some_conv by blast
  have "ids u = ids t"
    using u by (auto simp: Let_def bind_eq_Some_conv ids_set_inode dest!: ids_free_indirect ids_bfree split: if_splits)
  then show ?thesis using ids_free_direct [OF t] ids_iupdate [OF s'] by (simp add: ids_set_inode)
qed

lemma ids_readi_loop: "readi_loop s ip tot n off = Some (cs, s') \<Longrightarrow> ids s' = ids s"
proof (induction s ip tot n off arbitrary: cs s' rule: readi_loop.induct)
  case (1 s ip tot n off)
  show ?case
  proof (cases "tot < n")
    case False
    then show ?thesis using "1.prems" readi_loop.simps [of s ip tot n off] by simp
  next
    case True
    define m where "m = min (n - tot) (BSIZE - off mod BSIZE)"
    obtain b t where bt: "bmap s ip (off div BSIZE) = Some (b, t)"
      using "1.prems" True readi_loop.simps [of s ip tot n off] by (cases "bmap s ip (off div BSIZE)") auto
    obtain ds where "readi_loop t ip (tot + m) n (off + m) = Some (ds, s')"
      using "1.prems" True bt readi_loop.simps [of s ip tot n off] by (auto simp: Let_def m_def)
    then have "ids s' = ids t" by (intro "1.IH" [OF True bt refl m_def])
    then show ?thesis using ids_bmap [OF bt] by simp
  qed
qed

lemma ids_readi: "readi s ip off n = Some (r, s') \<Longrightarrow> ids s' = ids s"
  by (auto simp: readi_def Let_def dest: ids_readi_loop split: if_splits option.splits)

lemma ids_writei_loop: "writei_loop s ip src tot n off = Some (e, s') \<Longrightarrow> ids s' = ids s"
proof (induction s ip src tot n off arbitrary: e s' rule: writei_loop.induct)
  case (1 s ip src tot n off)
  show ?case
  proof (cases "tot < n")
    case False
    then show ?thesis using "1.prems" writei_loop.simps [of s ip src tot n off] by simp
  next
    case True
    define m where "m = min (n - tot) (BSIZE - off mod BSIZE)"
    obtain b t where bt: "bmap s ip (off div BSIZE) = Some (b, t)"
      using "1.prems" True writei_loop.simps [of s ip src tot n off] by (cases "bmap s ip (off div BSIZE)") auto
    obtain u where u: "fs_log_write t b (put_bytes (bread t b) (off mod BSIZE) (take (nat m) (drop (nat tot) src))) = Some u"
      "writei_loop u ip src (tot + m) n (off + m) = Some (e, s')"
      using "1.prems" True bt writei_loop.simps [of s ip src tot n off] by (auto simp: Let_def m_def split: option.splits)
    have "ids s' = ids u" by (rule "1.IH" [OF True bt refl m_def u])
    then show ?thesis using ids_bmap [OF bt] ids_log_write [OF u(1)] by simp
  qed
qed

lemma ids_writei: "writei s ip src off n = Some (r, s') \<Longrightarrow> ids s' = ids s"
  by (auto simp: writei_def Let_def bind_eq_Some_conv ids_set_inode dest!: ids_writei_loop ids_iupdate split: if_splits option.splits)

text \<open>
  The kernel as a whole holds a multiset of references: which cache entry, for which device and
  inode number. Getting and duplicating a reference add one, \<open>iput\<close> drops one.
\<close>

type_synonym ref_set = "(nat \<times> int \<times> int) multiset"

inductive fs_step :: "xfs \<times> ref_set \<Rightarrow> xfs \<times> ref_set \<Rightarrow> bool" where
  gets: "iget s dev ino = Some (i, s') \<Longrightarrow> fs_step (s, H) (s', add_mset (i, dev, ino) H)"
| dups: "h \<in># H \<Longrightarrow> idup s (fst h) = (i, s') \<Longrightarrow> fs_step (s, H) (s', add_mset h H)"
| puts: "h \<in># H \<Longrightarrow> iput s (fst h) = Some s' \<Longrightarrow> fs_step (s, H) (s', H - {#h#})"
| locks: "h \<in># H \<Longrightarrow> ilock s (fst h) = Some s' \<Longrightarrow> fs_step (s, H) (s', H)"
| unlocks: "h \<in># H \<Longrightarrow> iunlock s (fst h) = Some s' \<Longrightarrow> fs_step (s, H) (s', H)"
| reads: "h \<in># H \<Longrightarrow> readi s (fst h) off n = Some (r, s') \<Longrightarrow> fs_step (s, H) (s', H)"
| writes: "h \<in># H \<Longrightarrow> writei s (fst h) src off n = Some (r', s') \<Longrightarrow> fs_step (s, H) (s', H)"

definition refs_to :: "nat \<Rightarrow> ref_set \<Rightarrow> int" where
  "refs_to i H = int (size (filter_mset (\<lambda>h. fst h = i) H))"

text \<open>The invariant, over the identities of the entries only.\<close>

definition refs_inv :: "(int \<times> int \<times> int) list \<Rightarrow> ref_set \<Rightarrow> bool" where
  "refs_inv es H \<longleftrightarrow> (\<forall>i d n. (i, d, n) \<in># H \<longrightarrow> i < length es \<and> es ! i = (d, n, refs_to i H))
     \<and> (\<forall>i < length es. snd (snd (es ! i)) = refs_to i H)
     \<and> (\<forall>i j d n. (i, d, n) \<in># H \<longrightarrow> (j, d, n) \<in># H \<longrightarrow> i = j)"

lemma refs_to_add: "refs_to i (add_mset h H) = refs_to i H + (if fst h = i then 1 else 0)"
  by (simp add: refs_to_def)

lemma refs_to_remove: "h \<in># H \<Longrightarrow> refs_to i (H - {#h#}) = refs_to i H - (if fst h = i then 1 else 0)"
  using refs_to_add [of i h "H - {#h#}"] by simp

lemma refs_to_pos: "(i, d, n) \<in># H \<Longrightarrow> 0 < refs_to i H"
proof -
  assume "(i, d, n) \<in># H"
  then have "(i, d, n) \<in># filter_mset (\<lambda>h. fst h = i) H" by simp
  then show ?thesis unfolding refs_to_def by (metis nonempty_has_size of_nat_0_less_iff empty_iff set_mset_empty)
qed

lemma refs_to_witness:
  assumes "0 < refs_to i H"
  obtains d n where "(i, d, n) \<in># H"
proof -
  have "filter_mset (\<lambda>h. fst h = i) H \<noteq> {#}" using assms by (intro notI) (simp add: refs_to_def)
  then obtain h where "h \<in># filter_mset (\<lambda>h. fst h = i) H" by (meson multiset_nonemptyE)
  then show thesis using that [of "fst (snd h)" "snd (snd h)"] by auto
qed

lemma refs_inv_add:
  assumes "refs_inv es H" and "k < length es"
    and "0 < refs_to k H \<Longrightarrow> fst (es ! k) = d \<and> fst (snd (es ! k)) = n"
    and "\<And>j. (j, d, n) \<in># H \<Longrightarrow> j = k"
  shows "refs_inv (es[k := (d, n, refs_to k H + 1)]) (add_mset (k, d, n) H)"
proof -
  have own: "d' = d \<and> n' = n" if "(k, d', n') \<in># H" for d' n'
    using assms(1,3) refs_to_pos [OF that] that by (auto simp: refs_inv_def)
  have "i < length es \<and> es[k := (d, n, refs_to k H + 1)] ! i = (d', n', refs_to i (add_mset (k, d, n) H))"
    if "(i, d', n') \<in># add_mset (k, d, n) H" for i d' n'
    using that assms(1,2) own by (cases "i = k") (auto simp: refs_inv_def refs_to_add)
  moreover have "snd (snd (es[k := (d, n, refs_to k H + 1)] ! i)) = refs_to i (add_mset (k, d, n) H)" if "i < length es" for i
    using that assms(1) by (cases "i = k") (auto simp: refs_inv_def refs_to_add)
  moreover have "i = j" if "(i, d', n') \<in># add_mset (k, d, n) H" "(j, d', n') \<in># add_mset (k, d, n) H" for i j d' n'
    using that assms(1,4) unfolding refs_inv_def by auto
  ultimately show ?thesis unfolding refs_inv_def length_list_update by blast
qed

lemma refs_inv_remove:
  assumes "refs_inv es H" and "(k, d, n) \<in># H"
  shows "refs_inv (es[k := (d, n, refs_to k H - 1)]) (H - {#(k, d, n)#})"
proof -
  have k: "k < length es" "es ! k = (d, n, refs_to k H)" using assms by (auto simp: refs_inv_def)
  have rt: "refs_to i (H - {#(k, d, n)#}) = refs_to i H - (if i = k then 1 else 0)" for i
    using refs_to_remove [OF assms(2), of i] by auto
  have sub: "h \<in># H" if "h \<in># H - {#(k, d, n)#}" for h using that by (rule in_diffD)
  have "i < length es \<and> es[k := (d, n, refs_to k H - 1)] ! i = (d', n', refs_to i (H - {#(k, d, n)#}))"
    if "(i, d', n') \<in># H - {#(k, d, n)#}" for i d' n'
    using sub [OF that] assms(1) k by (cases "i = k") (auto simp: refs_inv_def rt)
  moreover have "snd (snd (es[k := (d, n, refs_to k H - 1)] ! i)) = refs_to i (H - {#(k, d, n)#})" if "i < length es" for i
    using that assms(1) by (cases "i = k") (auto simp: refs_inv_def rt)
  moreover have "i = j" if "(i, d', n') \<in># H - {#(k, d, n)#}" "(j, d', n') \<in># H - {#(k, d, n)#}" for i j d' n'
    using sub [OF that(1)] sub [OF that(2)] assms(1) unfolding refs_inv_def by blast
  ultimately show ?thesis unfolding refs_inv_def length_list_update by blast
qed

lemma iget_scan_spec:
  assumes "iget_scan vs dev ino i free = (found, free')"
  shows "case found of
      Some k \<Rightarrow> i \<le> k \<and> k < i + length vs \<and> iref (vs ! (k - i)) > 0 \<and> idev (vs ! (k - i)) = dev \<and> inum (vs ! (k - i)) = ino
    | None \<Rightarrow> (\<forall>v \<in> set vs. \<not> (iref v > 0 \<and> idev v = dev \<and> inum v = ino))
        \<and> (\<forall>k. free' = Some k \<longrightarrow> free = Some k \<or> i \<le> k \<and> k < i + length vs \<and> iref (vs ! (k - i)) = 0)"
  using assms
proof (induction vs arbitrary: i free)
  case (Cons v vs)
  show ?case
  proof (cases "iref v > 0 \<and> idev v = dev \<and> inum v = ino")
    case True
    then show ?thesis using Cons.prems by auto
  next
    case False
    have "iget_scan vs dev ino (Suc i) (if free = None \<and> iref v = 0 then Some i else free) = (found, free')"
      using Cons.prems False by auto
    from Cons.IH [OF this] False show ?thesis
      by (cases found) (auto simp: nth_Cons' Suc_le_eq split: if_splits)
  qed
qed simp

lemma iget_refs:
  assumes "iget s dev ino = Some (i, s')" and "refs_inv (ids s) H"
  shows "refs_inv (ids s') (add_mset (i, dev, ino) H)"
proof -
  obtain found free where sc: "iget_scan (icache s) dev ino 0 None = (found, free)" by (cases "iget_scan (icache s) dev ino 0 None")
  note sp = iget_scan_spec [OF sc]
  have cnt: "refs_to j H = iref (icache s ! j)" if "j < length (icache s)" for j
    using assms(2) that by (simp add: refs_inv_def ids_def)
  have upd: "ids (set_inode s j v) = (ids s)[j := (idev v, inum v, iref v)]" for j v
    by (simp add: ids_def set_inode_def map_update)
  have entry: "j < length (icache s) \<and> idev (icache s ! j) = dev \<and> inum (icache s ! j) = ino \<and> iref (icache s ! j) > 0"
    if "(j, dev, ino) \<in># H" for j
  proof -
    have "j < length (ids s) \<and> ids s ! j = (dev, ino, refs_to j H)"
      using assms(2) that unfolding refs_inv_def by blast
    then show ?thesis using refs_to_pos [OF that] by (auto simp: ids_nth)
  qed
  show ?thesis
  proof (cases found)
    case (Some k)
    then have k: "k < length (icache s)" "iref (icache s ! k) > 0" "idev (icache s ! k) = dev" "inum (icache s ! k) = ino"
      using sp by simp_all
    have "i = k" and s': "ids s' = (ids s)[k := (dev, ino, refs_to k H + 1)]"
      using assms(1) sc Some k cnt [OF k(1)] by (auto simp: iget_def upd the_inode_def)
    obtain d n where "(k, d, n) \<in># H" using refs_to_witness [of k H] cnt [OF k(1)] k(2) by auto
    moreover from this have "ids s ! k = (d, n, refs_to k H)" using assms(2) unfolding refs_inv_def by blast
    then have "d = dev" "n = ino" using k by (simp_all add: ids_nth)
    ultimately have "j = k" if "(j, dev, ino) \<in># H" for j using that assms(2) unfolding refs_inv_def by blast
    then show ?thesis unfolding \<open>i = k\<close> s' using k by (intro refs_inv_add [OF assms(2)]) (auto simp: ids_def)
  next
    case None
    then obtain k where k: "free = Some k" "k < length (icache s)" "iref (icache s ! k) = 0"
      using assms(1) sc sp by (auto simp: iget_def split: option.splits)
    have "i = k" and s': "ids s' = (ids s)[k := (dev, ino, refs_to k H + 1)]"
      using assms(1) sc None k cnt [OF k(2)] by (auto simp: iget_def upd)
    have "False" if "(j, dev, ino) \<in># H" for j using entry [OF that] None sp by (auto dest: nth_mem)
    then show ?thesis unfolding \<open>i = k\<close> s' using k cnt [OF k(2)] by (intro refs_inv_add [OF assms(2)]) (auto simp: ids_def)
  qed
qed

lemma iput_ids:
  assumes "iput s ip = Some s'" and "ip < length (icache s)"
  shows "ids s' = (ids s)[ip := (idev (the_inode s ip), inum (the_inode s ip), iref (the_inode s ip) - 1)]"
proof -
  define s1 where "s1 = set_inode s ip ((the_inode s ip)\<lparr>ilocked := True\<rparr>)"
  have i1: "ids s1 = ids s" by (simp add: s1_def ids_set_inode)
  obtain u where u: "(if valid (the_inode s1 ip) \<and> nlink (the_inode s1 ip) = 0 \<and> iref (the_inode s1 ip) = 1 then do {
            s \<leftarrow> itrunc s1 ip;
            s \<leftarrow> iupdate (set_inode s ip ((the_inode s ip)\<lparr>itype := 0\<rparr>)) ip;
            Some (set_inode s ip ((the_inode s ip)\<lparr>valid := False\<rparr>)) }
          else Some s1) = Some u"
    and s': "s' = (let s = set_inode u ip ((the_inode u ip)\<lparr>ilocked := False\<rparr>)
        in set_inode s ip ((the_inode s ip)\<lparr>iref := iref (the_inode s ip) - 1\<rparr>))"
    using assms(1) unfolding iput_def s1_def [symmetric]
    by (auto simp: Let_def bind_eq_Some_conv s1_def split: if_splits)
  have iu: "ids u = ids s"
    using u i1 by (auto simp: bind_eq_Some_conv ids_set_inode dest!: ids_itrunc ids_iupdate split: if_splits)
  then have len: "ip < length (icache u)" using assms(2) by (metis ids_def length_map)
  have "ids u ! ip = ids s ! ip" using iu by simp
  then have f: "idev (the_inode u ip) = idev (the_inode s ip)" "inum (the_inode u ip) = inum (the_inode s ip)"
    "iref (the_inode u ip) = iref (the_inode s ip)"
    using len assms(2) by (simp_all add: ids_def the_inode_def)
  have "ids s' = (ids u)[ip := (idev (the_inode u ip), inum (the_inode u ip), iref (the_inode u ip) - 1)]"
    using len by (simp add: s' ids_def set_inode_def the_inode_def map_update Let_def)
  then show ?thesis using f iu by simp
qed

lemma ids_ilock: "ilock s ip = Some s' \<Longrightarrow> ids s' = ids s"
  by (auto simp: ilock_def Let_def get_dinode_def intro!: ids_set_inode split: if_splits)

lemma ids_iunlock: "iunlock s ip = Some s' \<Longrightarrow> ids s' = ids s"
  by (auto simp: iunlock_def Let_def intro!: ids_set_inode split: if_splits)

lemma refs_inv_step: "fs_step x y \<Longrightarrow> refs_inv (ids (fst x)) (snd x) \<Longrightarrow> refs_inv (ids (fst y)) (snd y)"
proof (induction rule: fs_step.induct)
  case (gets s dev ino i s' H)
  then show ?case by (simp add: iget_refs)
next
  case (dups h H s i s')
  obtain k d n where h: "h = (k, d, n)" by (cases h)
  have k: "k < length (ids s)" "ids s ! k = (d, n, refs_to k H)" using dups h by (auto simp: refs_inv_def)
  then have "ids s' = (ids s)[k := (d, n, refs_to k H + 1)]"
    using dups.hyps(2) by (auto simp: idup_def h ids_def set_inode_def map_update the_inode_def)
  moreover have "j = k" if "(j, d, n) \<in># H" for j using that dups h unfolding refs_inv_def by auto
  ultimately show ?case using k dups.prems by (simp add: h) (intro refs_inv_add, auto)
next
  case (puts h H s s')
  obtain k d n where h: "h = (k, d, n)" by (cases h)
  have k: "k < length (ids s)" "ids s ! k = (d, n, refs_to k H)" using puts h by (auto simp: refs_inv_def)
  then have "ids s' = (ids s)[k := (d, n, refs_to k H - 1)]"
    using iput_ids [of s k s'] puts.hyps(2) by (auto simp: h ids_def the_inode_def)
  then show ?case using refs_inv_remove [of "ids s" H k d n] puts h by simp
qed (auto dest: ids_ilock ids_iunlock ids_readi ids_writei)

text \<open>C18: The inode cache counts references exactly: from a boot with an empty cache, whatever
  sequence of cache and file operations runs, an entry that is still referenced is never recycled
  (it keeps the device and inode number it was handed out for), its count is the number of references, and all references to
  one inode share one entry.\<close>

theorem icache_references:
  assumes "fs_step\<^sup>*\<^sup>* (s0, {#}) (s, H)" and "\<forall>v \<in> set (icache s0). iref v = 0" and "(i, dev, ino) \<in># H"
  shows "i < length (icache s) \<and> idev (the_inode s i) = dev \<and> inum (the_inode s i) = ino
       \<and> iref (the_inode s i) = refs_to i H \<and> 0 < refs_to i H \<and> (\<forall>j. (j, dev, ino) \<in># H \<longrightarrow> j = i)"
proof -
  have base: "refs_inv (ids s0) {#}" using assms(2) by (simp add: refs_inv_def ids_def refs_to_def)
  have "refs_inv (ids (fst (s, H))) (snd (s, H))" using assms(1)
    by (induction rule: rtranclp_induct) (use base refs_inv_step in auto)
  then have inv: "refs_inv (ids s) H" by simp
  then have "i < length (ids s) \<and> ids s ! i = (dev, ino, refs_to i H)"
    using assms(3) unfolding refs_inv_def by blast
  moreover have "\<forall>j. (j, dev, ino) \<in># H \<longrightarrow> j = i" using inv assms(3) unfolding refs_inv_def by blast
  ultimately show ?thesis using refs_to_pos [OF assms(3)] by (auto simp: ids_nth the_inode_def)
qed

theorem icache_references_witness:
  "\<exists>s. fs_step\<^sup>*\<^sup>* (small_fs, {#}) (s, {#(0, 1, 1)#}) \<and> inum (the_inode s 0) = 1"
proof -
  have "iget_scan (icache small_fs) 1 1 0 None = (None, Some 0)"
    by (simp add: small_fs_def eval_nat_numeral)
  then obtain s where "iget small_fs 1 1 = Some (0, s)" by (simp add: iget_def)
  then have r: "fs_step\<^sup>*\<^sup>* (small_fs, {#}) (s, {#(0, 1, 1)#})" using gets [of small_fs 1 1 0 s "{#}"] by auto
  have "inum (the_inode s 0) = 1"
    using icache_references [OF r, of 0 1 1] by (simp add: small_fs_def)
  with r show ?thesis by blast
qed

section \<open>Path elements\<close>

lemma takeWhile_set: "set (takeWhile Q xs) \<subseteq> {c. Q c}"
  using set_takeWhileD by fastforce

text \<open>\<open>skipelem\<close> takes exactly the first element off a path: the path is slashes, the element, slashes and
  the rest, where the rest starts with no slash, and the name is the element cut to \<open>DIRSIZ\<close> bytes; there is
  no result exactly when the path has no element.\<close>

theorem skipelem_correct:
  "case skipelem path of
     None \<Rightarrow> set path \<subseteq> {slash}
   | Some (rest, name) \<Rightarrow> \<exists>pre el mid. path = pre @ el @ mid @ rest \<and> set pre \<subseteq> {slash} \<and> set mid \<subseteq> {slash}
       \<and> el \<noteq> [] \<and> slash \<notin> set el \<and> (rest = [] \<or> mid \<noteq> [] \<and> hd rest \<noteq> slash) \<and> name = take DIRSIZ el"
proof -
  define pre p where "pre = takeWhile (\<lambda>c. c = slash) path" and "p = dropWhile (\<lambda>c. c = slash) path"
  define el r where "el = takeWhile (\<lambda>c. c \<noteq> slash) p" and "r = dropWhile (\<lambda>c. c \<noteq> slash) p"
  define mid rest where "mid = takeWhile (\<lambda>c. c = slash) r" and "rest = dropWhile (\<lambda>c. c = slash) r"
  have path: "path = pre @ p" and p: "p = el @ r" and r: "r = mid @ rest"
    by (simp_all add: pre_def p_def el_def r_def mid_def rest_def)
  have pre: "set pre \<subseteq> {slash}" and mid: "set mid \<subseteq> {slash}" and el: "slash \<notin> set el"
    using takeWhile_set [of "\<lambda>c. c = slash" path] takeWhile_set [of "\<lambda>c. c = slash" r] takeWhile_set [of "\<lambda>c. c \<noteq> slash" p]
    by (auto simp: pre_def mid_def el_def)
  show ?thesis
  proof (cases "p = []")
    case True
    then have "skipelem path = None" by (simp add: skipelem_def p_def)
    then show ?thesis using True path pre by simp
  next
    case False
    then have sk: "skipelem path = Some (rest, take DIRSIZ el)"
      by (simp add: skipelem_def p_def [symmetric] Let_def rest_def r_def el_def)
    have "hd p \<noteq> slash" using hd_dropWhile [of "\<lambda>c. c = slash" path] False by (simp add: p_def)
    then have "el \<noteq> []" using False by (cases p) (simp_all add: el_def)
    moreover have "rest = [] \<or> mid \<noteq> [] \<and> hd rest \<noteq> slash"
    proof (cases "rest = []")
      case False
      then have "r \<noteq> []" by (auto simp: rest_def)
      then have "hd r = slash" using hd_dropWhile [of "\<lambda>c. c \<noteq> slash" p] by (simp add: r_def)
      then have "mid \<noteq> []" using \<open>r \<noteq> []\<close> by (cases r) (simp_all add: mid_def)
      moreover have "hd rest \<noteq> slash" using hd_dropWhile [of "\<lambda>c. c = slash" r] False by (simp add: rest_def)
      ultimately show ?thesis by simp
    qed simp
    ultimately have "path = pre @ el @ mid @ rest \<and> set pre \<subseteq> {slash} \<and> set mid \<subseteq> {slash}
       \<and> el \<noteq> [] \<and> slash \<notin> set el \<and> (rest = [] \<or> mid \<noteq> [] \<and> hd rest \<noteq> slash) \<and> take DIRSIZ el = take DIRSIZ el"
      using path p r pre mid el by auto
    then show ?thesis unfolding sk option.case prod.case by (intro exI)
  qed
qed

theorem skipelem_correct_witness:
  "\<exists>pre el mid. [47, 97, 47, 47, 98] = pre @ el @ mid @ [98 :: byte] \<and> el \<noteq> [] \<and> slash \<notin> set el \<and> [97] = take DIRSIZ el"
proof -
  have sk: "skipelem [47, 97, 47, 47, 98] = Some ([98], [97])" by (simp add: skipelem_def DIRSIZ_def)
  show ?thesis using skipelem_correct [of "[47, 97, 47, 47, 98]"] unfolding sk option.case prod.case by blast
qed

end
