(* ===== verification/Ring.thy ===== *)
theory Ring
  imports Prelude
begin

text \<open>
  Ring buffers between two free-running 32-bit counters, as \<open>pipe.c\<close> and \<open>console.c\<close> of xv6 use them: the element of number \<open>a\<close> is
  stored at index \<open>a\<close> modulo the size. The size divides \<open>2 ^ 32\<close>, so the counters may wrap around.
\<close>

definition ring :: "nat \<Rightarrow> 'a list \<Rightarrow> 32 word \<Rightarrow> 32 word \<Rightarrow> 'a list" where
  "ring N buf a b = map (\<lambda>k. buf ! ((unat a + k) mod N)) [0..<unat (b - a)]"

lemma length_ring [simp]: "length (ring N buf a b) = unat (b - a)"
  by (simp add: ring_def)

lemma ring_same [simp]: "ring N buf a a = []"
  by (simp add: ring_def)

lemma ring_empty_iff: "ring N buf a b = [] \<longleftrightarrow> a = b"
proof -
  have "ring N buf a b = [] \<longleftrightarrow> unat (b - a) = 0" by (simp add: ring_def)
  then show ?thesis by (simp add: unat_eq_0 right_minus_eq) auto
qed

lemma word_count_split:
  fixes a b c :: "32 word"
  assumes "unat (b - a) + unat (c - b) < 2 ^ 32"
  shows "unat (c - a) = unat (b - a) + unat (c - b)"
proof -
  have "c - a = (b - a) + (c - b)" by simp
  then have "unat (c - a) = (unat (b - a) + unat (c - b)) mod 2 ^ 32" by (simp only: unat_word_ariths) simp
  then show ?thesis using assms by simp
qed

locale ring_size =
  fixes N :: nat
  assumes pos: "0 < N" and dvd: "N dvd 4294967296" and small: "N < 4294967296"
begin

lemma index_add: "unat (a + b :: 32 word) mod N = (unat a + unat b) mod N"
proof -
  have "unat (a + b) = (unat a + unat b) mod 4294967296" by (simp add: unat_word_ariths)
  then show ?thesis using dvd by (simp add: mod_mod_cancel)
qed

lemma index_end: "unat b mod N = (unat a + unat (b - a)) mod N" for a b :: "32 word"
  using index_add [of a "b - a"] by simp

lemma append: "unat (b - a) + unat (c - b) < 4294967296 \<Longrightarrow> ring N buf a c = ring N buf a b @ ring N buf b c"
proof -
  assume "unat (b - a) + unat (c - b) < 4294967296"
  then have n: "unat (c - a) = unat (b - a) + unat (c - b)" by (intro word_count_split) simp
  have i: "(unat a + (unat (b - a) + k)) mod N = (unat b + k) mod N" for k
  proof -
    have "(unat b + k) mod N = (unat b mod N + k) mod N" by (rule mod_add_left_eq [symmetric])
    also have "\<dots> = ((unat a + unat (b - a)) mod N + k) mod N" by (simp only: index_end [of b a])
    also have "\<dots> = (unat a + (unat (b - a) + k)) mod N" by (simp add: mod_add_left_eq add.assoc)
    finally show ?thesis by simp
  qed
  have "[0..<unat (b - a) + unat (c - b)] = [0..<unat (b - a)] @ map (\<lambda>k. unat (b - a) + k) [0..<unat (c - b)]"
    by (rule nth_equalityI) (auto simp: nth_append)
  then show ?thesis unfolding ring_def n by (simp add: comp_def i)
qed

lemma one [simp]: "ring N buf a (a + 1) = [buf ! (unat a mod N)]"
  by (simp add: ring_def)

lemma put:
  assumes "length buf = N" and "unat (b - a) < N"
  shows "ring N (buf[unat b mod N := c]) a (b + 1) = ring N buf a b @ [c]"
proof -
  let ?n = "unat (b - a)"
  have i: "(unat a + k) mod N \<noteq> unat b mod N" if "k < ?n" for k
  proof
    assume "(unat a + k) mod N = unat b mod N"
    then have "(unat a + ?n) mod N = (unat a + k) mod N" using index_end [of b a] by simp
    then have "N dvd (unat a + ?n) - (unat a + k)" using that by (intro mod_eq_dvd_iff_nat [THEN iffD1]) simp_all
    then have "N dvd ?n - k" by simp
    then show False using that assms(2) by (auto dest!: dvd_imp_le)
  qed
  have "ring N (buf[unat b mod N := c]) a b = ring N buf a b" unfolding ring_def
  proof (rule map_cong [OF refl])
    fix k assume "k \<in> set [0..<?n]"
    then have "unat b mod N \<noteq> (unat a + k) mod N" using i [of k] by simp
    then show "buf[unat b mod N := c] ! ((unat a + k) mod N) = buf ! ((unat a + k) mod N)" by simp
  qed
  moreover have "ring N (buf[unat b mod N := c]) b (b + 1) = [c]" using assms(1) pos by simp
  moreover have "ring N (buf[unat b mod N := c]) a (b + 1) = ring N (buf[unat b mod N := c]) a b @ ring N (buf[unat b mod N := c]) b (b + 1)"
    by (rule append) (use assms(2) small in simp)
  ultimately show ?thesis by simp
qed

lemma count_down:
  assumes "(a :: 32 word) \<noteq> b"
  shows "unat (b - (a + 1)) = unat (b - a) - 1" and "0 < unat (b - a)" and "unat (b - 1 - a) = unat (b - a) - 1"
proof -
  have ne: "b - a \<noteq> 0" using assms by auto
  then show "0 < unat (b - a)" by (simp add: unat_gt_0)
  have "b - (a + 1) = (b - a) - 1" "b - 1 - a = (b - a) - 1" by (simp_all add: algebra_simps)
  then show "unat (b - (a + 1)) = unat (b - a) - 1" "unat (b - 1 - a) = unat (b - a) - 1" using unat_minus_one [OF ne] by metis+
qed

lemma get:
  assumes "a \<noteq> b"
  shows "ring N buf a b = (buf ! (unat a mod N)) # ring N buf (a + 1) b"
proof -
  have "ring N buf a b = ring N buf a (a + 1) @ ring N buf (a + 1) b"
    by (rule append) (use count_down [OF assms] unsigned_less [of "b - a", where 'a = nat] in simp)
  then show ?thesis by simp
qed

lemma unput:
  assumes "a \<noteq> b"
  shows "ring N buf a b = ring N buf a (b - 1) @ [buf ! (unat (b - 1) mod N)]"
proof -
  have "ring N buf a b = ring N buf a (b - 1) @ ring N buf (b - 1) b"
    by (rule append) (use count_down [OF assms] unsigned_less [of "b - a", where 'a = nat] in simp)
  then show ?thesis using one [of buf "b - 1"] by simp
qed

end

end
