(* ===== verification/Xv6_Pipe.thy ===== *)
theory Xv6_Pipe
  imports Ring
begin

text \<open>
  Pipes of xv6, \<open>hw09/unnas-hw09/xv6/pipe.c\<close>: a ring buffer of 512 bytes between two free-running
  32-bit counters. A call runs under the lock of the pipe until it returns or sleeps; one that
  sleeps is resumed at the same index when it is woken up. The wake-ups themselves are left to
  the scheduler. \<open>pipe_bytes\<close> is the abstract queue; the system of readers and writers is a step
  relation over the pipe and the bytes sent and received so far.
\<close>

section \<open>pipe.c\<close>

record pipe =
  data :: "byte list"
  nread :: "32 word"
  nwrite :: "32 word"
  readopen :: bool
  writeopen :: bool

abbreviation PIPESIZE :: "32 word" where "PIPESIZE \<equiv> 512"

text \<open>The part of \<open>pipealloc\<close> that sets up the pipe on a fresh page.\<close>

definition pipe_new :: "byte list \<Rightarrow> pipe" where
  "pipe_new junk = \<lparr>data = junk, nread = 0, nwrite = 0, readopen = True, writeopen = True\<rparr>"

text \<open>The second result says whether the page of the pipe is freed.\<close>

definition pipeclose :: "pipe \<Rightarrow> bool \<Rightarrow> pipe \<times> bool" where
  "pipeclose p writable =
     (let p = (if writable then p\<lparr>writeopen := False\<rparr> else p\<lparr>readopen := False\<rparr>)
      in (p, \<not> readopen p \<and> \<not> writeopen p))"

datatype outcome = Returns pipe int | Sleeps pipe int

fun pipe_of :: "outcome \<Rightarrow> pipe" where
  "pipe_of (Returns p r) = p"
| "pipe_of (Sleeps p i) = p"

definition pipe_put :: "pipe \<Rightarrow> byte \<Rightarrow> pipe" where
  "pipe_put p c = p\<lparr>data := (data p)[unat (nwrite p mod PIPESIZE) := c], nwrite := nwrite p + 1\<rparr>"

function pipewrite_from :: "pipe \<Rightarrow> (int \<Rightarrow> byte) \<Rightarrow> int \<Rightarrow> bool \<Rightarrow> int \<Rightarrow> outcome" where
  "pipewrite_from p addr n killed i =
     (if i < n then
        if nwrite p = nread p + PIPESIZE then
          if \<not> readopen p \<or> killed then Returns p (- 1) else Sleeps p i
        else pipewrite_from (pipe_put p (addr i)) addr n killed (i + 1)
      else Returns p n)"
  by pat_completeness auto
termination by (relation "measure (\<lambda>(p, addr, n, killed, i). nat (n - i))") auto

declare pipewrite_from.simps [simp del]

definition pipewrite :: "pipe \<Rightarrow> (int \<Rightarrow> byte) \<Rightarrow> int \<Rightarrow> bool \<Rightarrow> outcome" where
  "pipewrite p addr n killed = pipewrite_from p addr n killed 0"

definition pipe_get :: "pipe \<Rightarrow> byte \<times> pipe" where
  "pipe_get p = (data p ! unat (nread p mod PIPESIZE), p\<lparr>nread := nread p + 1\<rparr>)"

fun piperead_loop :: "pipe \<Rightarrow> nat \<Rightarrow> pipe \<times> byte list" where
  "piperead_loop p 0 = (p, [])"
| "piperead_loop p (Suc n) =
     (if nread p = nwrite p then (p, [])
      else let (c, q) = pipe_get p; (r, cs) = piperead_loop q n in (r, c # cs))"

text \<open>The bytes stored at \<open>addr\<close> are the second result; a call that sleeps starts again.\<close>

definition piperead :: "pipe \<Rightarrow> int \<Rightarrow> bool \<Rightarrow> outcome \<times> byte list" where
  "piperead p n killed =
     (if nread p = nwrite p \<and> writeopen p then
        if killed then (Returns p (- 1), []) else (Sleeps p 0, [])
      else let (q, cs) = piperead_loop p (nat n) in (Returns q (int (length cs)), cs))"

section \<open>The abstract queue\<close>

definition pipe_inv :: "pipe \<Rightarrow> bool" where
  "pipe_inv p \<longleftrightarrow> length (data p) = 512 \<and> unat (nwrite p - nread p) \<le> 512"

definition pipe_bytes :: "pipe \<Rightarrow> byte list" where
  "pipe_bytes p = ring 512 (data p) (nread p) (nwrite p)"

interpretation pipe_ring: ring_size 512
  by unfold_locales simp_all

lemma unat_mod_512: "unat (w mod PIPESIZE :: 32 word) = unat w mod 512"
  by (simp add: unat_mod)

lemma full_iff: "nwrite p = nread p + PIPESIZE \<longleftrightarrow> unat (nwrite p - nread p) = 512"
proof -
  have "unat (nwrite p - nread p) = 512 \<longleftrightarrow> nwrite p - nread p = PIPESIZE"
    by (simp add: word_unat_eq_iff)
  also have "\<dots> \<longleftrightarrow> nwrite p = nread p + PIPESIZE" by (simp add: diff_eq_eq add.commute)
  finally show ?thesis by simp
qed

lemma count_put:
  assumes "unat (nwrite p - nread p) < 512"
  shows "unat (nwrite p + 1 - nread p) = unat (nwrite p - nread p) + 1"
proof -
  have eq: "nwrite p + 1 - nread p = (nwrite p - nread p) + 1" by (simp add: algebra_simps)
  show ?thesis unfolding eq using assms unat_word_ariths(1) [of "nwrite p - nread p" 1] by simp
qed

text \<open>One byte in, one byte out, also when a counter wraps around.\<close>

lemma pipe_put_queue:
  assumes "pipe_inv p" and "nwrite p \<noteq> nread p + PIPESIZE"
  shows "pipe_inv (pipe_put p c)" and "pipe_bytes (pipe_put p c) = pipe_bytes p @ [c]"
proof -
  have n: "unat (nwrite p - nread p) < 512" using assms full_iff [of p] by (simp add: pipe_inv_def)
  show "pipe_inv (pipe_put p c)" using assms(1) n count_put [OF n] by (simp add: pipe_inv_def pipe_put_def)
  show "pipe_bytes (pipe_put p c) = pipe_bytes p @ [c]"
    using pipe_ring.put [of "data p" "nwrite p" "nread p" c] assms(1) n by (simp add: pipe_bytes_def pipe_put_def pipe_inv_def unat_mod_512)
qed

lemma pipe_get_queue:
  assumes "pipe_inv p" and "nread p \<noteq> nwrite p" and "pipe_get p = (c, q)"
  shows "pipe_inv q" and "pipe_bytes p = c # pipe_bytes q"
proof -
  have q: "q = p\<lparr>nread := nread p + 1\<rparr>" and c: "c = data p ! (unat (nread p) mod 512)"
    using assms(3) by (simp_all add: pipe_get_def unat_mod_512)
  show "pipe_inv q" using assms(1) pipe_ring.count_down [OF assms(2)] by (auto simp: pipe_inv_def q intro: order_trans [OF diff_le_self])
  show "pipe_bytes p = c # pipe_bytes q" unfolding pipe_bytes_def q c by (simp add: pipe_ring.get [OF assms(2)])
qed

section \<open>Whole calls\<close>

lemma pipewrite_from_queue:
  assumes "pipe_inv p" and "pipewrite_from p addr n killed i = r"
  shows "pipe_inv (pipe_of r)
       \<and> (\<exists>k. nwrite (pipe_of r) = nwrite p + of_nat k \<and> k \<le> 512 \<and> nread (pipe_of r) = nread p
            \<and> pipe_bytes (pipe_of r) = pipe_bytes p @ map (\<lambda>j. addr (i + int j)) [0..<k]
            \<and> length (pipe_bytes p) + k \<le> 512
            \<and> (r = Returns (pipe_of r) n \<and> int k = max 0 (n - i)
               \<or> r = Returns (pipe_of r) (- 1) \<and> (\<not> readopen p \<or> killed) \<and> length (pipe_bytes p) + k = 512
               \<or> r = Sleeps (pipe_of r) (i + int k) \<and> readopen p \<and> \<not> killed \<and> length (pipe_bytes p) + k = 512))"
  using assms
proof (induction p addr n killed i arbitrary: r rule: pipewrite_from.induct)
  case (1 p addr n killed i)
  have len: "length (pipe_bytes p) \<le> 512" using 1(2) by (simp add: pipe_inv_def pipe_bytes_def)
  consider "n \<le> i" | "i < n" "nwrite p = nread p + PIPESIZE" | "i < n" "nwrite p \<noteq> nread p + PIPESIZE" by linarith
  then show ?case
  proof cases
    case 1
    then show ?thesis using "1.prems" len pipewrite_from.simps [of p addr n killed i] by (auto intro!: exI [of _ 0])
  next
    case 2
    moreover have "length (pipe_bytes p) = 512" using 2(2) full_iff [of p] by (simp add: pipe_bytes_def)
    ultimately show ?thesis using "1.prems" pipewrite_from.simps [of p addr n killed i]
      by (cases "\<not> readopen p \<or> killed") (auto intro!: exI [of _ 0])
  next
    case 3
    define q where "q = pipe_put p (addr i)"
    note put = pipe_put_queue [OF "1.prems"(1) 3(2), of "addr i", folded q_def]
    have fields: "nwrite q = nwrite p + 1" "nread q = nread p" "readopen q = readopen p"
      by (simp_all add: q_def pipe_put_def)
    have run: "pipewrite_from q addr n killed (i + 1) = r"
      using "1.prems"(2) 3 pipewrite_from.simps [of p addr n killed i] by (simp add: q_def)
    have "pipe_inv (pipe_of r)
       \<and> (\<exists>k. nwrite (pipe_of r) = nwrite q + of_nat k \<and> k \<le> 512 \<and> nread (pipe_of r) = nread q
            \<and> pipe_bytes (pipe_of r) = pipe_bytes q @ map (\<lambda>j. addr (i + 1 + int j)) [0..<k]
            \<and> length (pipe_bytes q) + k \<le> 512
            \<and> (r = Returns (pipe_of r) n \<and> int k = max 0 (n - (i + 1))
               \<or> r = Returns (pipe_of r) (- 1) \<and> (\<not> readopen q \<or> killed) \<and> length (pipe_bytes q) + k = 512
               \<or> r = Sleeps (pipe_of r) (i + 1 + int k) \<and> readopen q \<and> \<not> killed \<and> length (pipe_bytes q) + k = 512))"
      by (rule "1.IH" [OF 3, folded q_def, OF put(1) run])
    then obtain k where k: "pipe_inv (pipe_of r)" "nwrite (pipe_of r) = nwrite q + of_nat k" "nread (pipe_of r) = nread q"
      "pipe_bytes (pipe_of r) = pipe_bytes q @ map (\<lambda>j. addr (i + 1 + int j)) [0..<k]" "length (pipe_bytes q) + k \<le> 512"
      "r = Returns (pipe_of r) n \<and> int k = max 0 (n - (i + 1))
               \<or> r = Returns (pipe_of r) (- 1) \<and> (\<not> readopen q \<or> killed) \<and> length (pipe_bytes q) + k = 512
               \<or> r = Sleeps (pipe_of r) (i + 1 + int k) \<and> readopen q \<and> \<not> killed \<and> length (pipe_bytes q) + k = 512"
      by (elim conjE exE) (rule that, assumption+)
    have "pipe_bytes (pipe_of r) = pipe_bytes p @ map (\<lambda>j. addr (i + int j)) [0..<Suc k]"
      unfolding k(4) put(2) by (simp add: upt_conv_Cons map_Suc_upt [symmetric] comp_def add.assoc del: upt_Suc)
    then show ?thesis
      using k put(2) fields 3(1) by (intro conjI exI [of _ "Suc k"]) (auto simp: add.assoc)
  qed
qed

lemma piperead_loop_queue:
  assumes "pipe_inv p" and "piperead_loop p n = (q, cs)"
  shows "pipe_inv q \<and> pipe_bytes p = cs @ pipe_bytes q \<and> (length cs = n \<or> length cs < n \<and> pipe_bytes q = [])
       \<and> nwrite q = nwrite p \<and> readopen q = readopen p \<and> writeopen q = writeopen p"
  using assms
proof (induction n arbitrary: p q cs)
  case (Suc n)
  show ?case
  proof (cases "nread p = nwrite p")
    case True
    then have "pipe_bytes p = []" by (simp add: pipe_bytes_def ring_empty_iff)
    then show ?thesis using Suc.prems True by simp
  next
    case False
    obtain c r where g: "pipe_get p = (c, r)" by (cases "pipe_get p")
    obtain t ds where l: "piperead_loop r n = (t, ds)" by (cases "piperead_loop r n")
    note get = pipe_get_queue [OF Suc.prems(1) False g]
    have "nwrite r = nwrite p" "readopen r = readopen p" "writeopen r = writeopen p" using g by (auto simp: pipe_get_def)
    moreover have "q = t" "cs = c # ds" using Suc.prems(2) False by (simp_all add: g l)
    moreover note Suc.IH [OF get(1) l]
    ultimately show ?thesis using get(2) by simp
  qed
qed simp

section \<open>Readers and writers\<close>

text \<open>
  Any number of readers and writers share one pipe. A step is one call, or the continuation of
  a call that has slept, up to its return or its next sleep; \<open>sent\<close> collects the bytes the
  writers have stored, \<open>received\<close> those the readers got.
\<close>

record pipe_sys =
  shared :: pipe
  sent :: "byte list"
  received :: "byte list"

inductive pipe_step :: "pipe_sys \<Rightarrow> pipe_sys \<Rightarrow> bool" where
  writes: "pipewrite_from (shared s) addr n killed i = r
    \<Longrightarrow> pipe_step s (s\<lparr>shared := pipe_of r,
          sent := sent s @ map (\<lambda>j. addr (i + int j)) [0..<unat (nwrite (pipe_of r) - nwrite (shared s))]\<rparr>)"
| reads: "piperead (shared s) n killed = (r, cs)
    \<Longrightarrow> pipe_step s (s\<lparr>shared := pipe_of r, received := received s @ cs\<rparr>)"
| closes: "pipeclose (shared s) w = (p, freed) \<Longrightarrow> pipe_step s (s\<lparr>shared := p\<rparr>)"

definition fifo :: "pipe_sys \<Rightarrow> bool" where
  "fifo s \<longleftrightarrow> pipe_inv (shared s) \<and> sent s = received s @ pipe_bytes (shared s)"

lemma fifo_step: "pipe_step s t \<Longrightarrow> fifo s \<Longrightarrow> fifo t"
proof (induction rule: pipe_step.induct)
  case (writes s addr n killed i r)
  then have inv: "pipe_inv (shared s)" by (simp add: fifo_def)
  obtain k where k: "pipe_inv (pipe_of r)" "nwrite (pipe_of r) = nwrite (shared s) + of_nat k" "k \<le> 512"
    "pipe_bytes (pipe_of r) = pipe_bytes (shared s) @ map (\<lambda>j. addr (i + int j)) [0..<k]"
    using pipewrite_from_queue [OF inv writes.hyps] by (elim conjE exE) (rule that, assumption+)
  have "unat (nwrite (pipe_of r) - nwrite (shared s)) = k" using k(2,3) by (simp add: unat_of_nat)
  then show ?case using k writes.prems by (simp add: fifo_def)
next
  case (reads s n killed r cs)
  show ?case
  proof (cases "nread (shared s) = nwrite (shared s) \<and> writeopen (shared s)")
    case True
    then show ?thesis using reads by (auto simp: piperead_def fifo_def split: if_splits)
  next
    case False
    obtain q ds where l: "piperead_loop (shared s) (nat n) = (q, ds)" by (cases "piperead_loop (shared s) (nat n)")
    then have "(r, cs) = (Returns q (int (length ds)), ds)"
      using reads.hyps unfolding piperead_def if_not_P [OF False] by auto
    then have "r = Returns q (int (length ds))" "cs = ds" by blast+
    then show ?thesis using reads.prems piperead_loop_queue [OF _ l] by (simp add: fifo_def)
  qed
next
  case (closes s w p freed)
  then show ?case by (auto simp: pipeclose_def fifo_def pipe_inv_def pipe_bytes_def Let_def split: if_splits)
qed

text \<open>C20: A pipe is a first-in first-out channel: after any interleaving of calls of readers and writers
  (with the counters wrapping around at 32 bits), the bytes received so far are a prefix of the
  bytes sent, in order, and what is missing, at most 512 bytes, is in the buffer.\<close>

theorem pipe_is_fifo:
  assumes "pipe_step\<^sup>*\<^sup>* \<lparr>shared = pipe_new junk, sent = [], received = []\<rparr> s" and "length junk = 512"
  shows "sent s = received s @ pipe_bytes (shared s) \<and> length (pipe_bytes (shared s)) \<le> 512"
proof -
  have "fifo s" using assms(1)
  proof (induction rule: rtranclp_induct)
    case base
    show ?case using assms(2) by (simp add: fifo_def pipe_inv_def pipe_bytes_def pipe_new_def)
  qed (rule fifo_step)
  then show ?thesis by (simp add: fifo_def pipe_inv_def pipe_bytes_def)
qed

theorem pipe_is_fifo_witness:
  "\<exists>s. pipe_step\<^sup>*\<^sup>* \<lparr>shared = pipe_new (replicate 512 0), sent = [], received = []\<rparr> s \<and> sent s = [7]
     \<and> received s @ pipe_bytes (shared s) = [7]"
proof -
  define s where "s = \<lparr>shared = pipe_new (replicate 512 0), sent = [], received = []\<rparr>"
  have run: "pipewrite_from (shared s) (\<lambda>_. 7) 1 False 0 = Returns (pipe_put (shared s) 7) 1"
    by (subst pipewrite_from.simps, subst pipewrite_from.simps) (simp add: s_def pipe_new_def)
  define t where "t = s\<lparr>shared := pipe_put (shared s) 7,
      sent := sent s @ map (\<lambda>j. 7) [0..<unat (nwrite (pipe_put (shared s) 7) - nwrite (shared s))]\<rparr>"
  have "pipe_step\<^sup>*\<^sup>* s t" using writes [OF run] by (simp add: t_def)
  moreover from this have "sent t = received t @ pipe_bytes (shared t)"
    using pipe_is_fifo [of "replicate 512 0" t] by (simp add: s_def)
  moreover have "sent t = [7]" by (simp add: t_def s_def pipe_put_def)
  ultimately show ?thesis by (auto simp: s_def)
qed

end
