(* ===== verification/Xv6_File.thy ===== *)
theory Xv6_File
  imports Xv6_Fs Xv6_Pipe
begin

text \<open>
  Open files and the file system calls of xv6, \<open>hw09/unnas-hw09/xv6/file.c\<close>, \<open>sysfile.c\<close> and the
  file side of \<open>pipe.c\<close>, on top of the inode layer and the pipes.

  A pointer to an open file is its index in the table, a pipe is the number of its page. Every process has a table
  of \<open>NOFILE\<close> descriptors and a current directory. A system call gets its arguments already fetched
  from user memory and runs alone; a panic and a call that sleeps have no result.

  The counters of the bytes read and written through a file are not in its entry: \<open>iostats_alloc\<close> takes for them the memory
  136 entries behind it (it adds \<open>sizeof(f) + 0x84\<close> to a pointer to \<open>struct file\<close>), which lies behind the table of 100
  entries for every file. What the linker places there is not in the sources: \<open>behind\<close> is the number of
  entries' worth of memory behind the table that nothing else uses, addresses of counters are counted in entries from the start of
  the table, and \<open>iomem\<close> is that memory. When the counters would lie outside it, they overwrite other data of the kernel, and the
  call has no result.
\<close>

section \<open>file.h and file.c\<close>

datatype ftype = FD_NONE | FD_PIPE | FD_INODE

record ofile =
  ftype :: ftype
  fref :: int
  readable :: bool
  writable :: bool
  fpipe :: nat
  fip :: nat
  foff :: int
  byte_mem :: nat

record ksys =
  kfs :: xfs
  ftable :: "ofile list"
  pipes :: "nat \<Rightarrow> pipe option"
  ofiles :: "nat option list list"
  cwds :: "nat option list"
  iomem :: "nat \<Rightarrow> iostats"
  behind :: nat

definition NFILE :: nat where "NFILE = 100"
definition NOFILE :: nat where "NOFILE = 16"
definition T_FILE :: int where "T_FILE = 2"

definition set_file :: "ksys \<Rightarrow> nat \<Rightarrow> ofile \<Rightarrow> ksys" where
  "set_file s f v = s\<lparr>ftable := (ftable s)[f := v]\<rparr>"

abbreviation the_file :: "ksys \<Rightarrow> nat \<Rightarrow> ofile" where
  "the_file s f \<equiv> ftable s ! f"

text \<open>\<open>begin_op\<close> and \<open>end_op\<close> on the log of the file system.\<close>

definition fs_begin_op :: "xfs \<Rightarrow> xfs option" where
  "fs_begin_op x = map_option (\<lambda>l. x\<lparr>xlg := l\<rparr>) (begin_op (xlg x))"

definition fs_end_op :: "xfs \<Rightarrow> xfs option" where
  "fs_end_op x = map_option (\<lambda>l. x\<lparr>xlg := l\<rparr>) (end_op (xlg x))"

fun find_free_file :: "ofile list \<Rightarrow> nat \<Rightarrow> nat option" where
  "find_free_file [] i = None"
| "find_free_file (v # vs) i = (if fref v = 0 then Some i else find_free_file vs (Suc i))"

text \<open>The comparison of the address with 0 in \<open>iostats_alloc\<close> is never true.\<close>

definition iostats_alloc :: "ksys \<Rightarrow> nat \<Rightarrow> ksys option" where
  "iostats_alloc s f =
     (let is = f + 4 + 0x84 in
      if NFILE \<le> is \<and> is < NFILE + behind s then
        let s = s\<lparr>iomem := (iomem s)(is := iostats_set_write (iostats_set_read (iomem s is) 0) 0)\<rparr>
        in Some (set_file s f ((the_file s f)\<lparr>byte_mem := is\<rparr>))
      else None)"

definition filealloc :: "ksys \<Rightarrow> (nat option \<times> ksys) option" where
  "filealloc s =
     (case find_free_file (ftable s) 0 of
        None \<Rightarrow> Some (None, s)
      | Some f \<Rightarrow> map_option (\<lambda>s. (Some f, s)) (iostats_alloc (set_file s f ((the_file s f)\<lparr>fref := 1\<rparr>)) f))"

text \<open>A change of the counters of a file. A file that a descriptor refers to has got them from \<open>filealloc\<close>.\<close>

definition with_stats :: "ksys \<Rightarrow> nat \<Rightarrow> (iostats \<Rightarrow> iostats) \<Rightarrow> ksys" where
  "with_stats s f g = (let is = byte_mem (the_file s f) in s\<lparr>iomem := (iomem s)(is := g (iomem s is))\<rparr>)"




definition fileiostats :: "ksys \<Rightarrow> nat \<Rightarrow> iostats \<Rightarrow> int \<times> iostats" where
  "fileiostats s f st = (0, iostats_copy (iomem s (byte_mem (the_file s f))) st)"

text \<open>The result of a read: its value and the bytes stored at the address. The value is kept in an unsigned
  variable before it is added to the counter and returned.\<close>

definition fileread :: "ksys \<Rightarrow> nat \<Rightarrow> int \<Rightarrow> bool \<Rightarrow> ((int \<times> byte list) \<times> ksys) option" where
  "fileread s f n kld =
     (let v = the_file s f in
      if \<not> readable v then Some ((- 1, []), s)
      else do {
        ((rv, cs), s) \<leftarrow>
          (case ftype v of
             FD_NONE \<Rightarrow> Some ((n, []), s)
           | FD_PIPE \<Rightarrow>
               (case pipes s (fpipe v) of
                  None \<Rightarrow> None
                | Some p \<Rightarrow>
                    (case piperead p n kld of
                       (Returns q r, cs) \<Rightarrow> Some ((r, cs), s\<lparr>pipes := (pipes s)(fpipe v \<mapsto> q)\<rparr>)
                     | (Sleeps q i, cs) \<Rightarrow> None))
           | FD_INODE \<Rightarrow> do {
               x \<leftarrow> ilock (kfs s) (fip v);
               ((r, cs), x) \<leftarrow> readi x (fip v) (foff v) (uint32 n);
               let s = (if r > 0 then set_file s f (v\<lparr>foff := uint32 (foff v + r)\<rparr>) else s);
               x \<leftarrow> iunlock x (fip v);
               Some ((r, cs), s\<lparr>kfs := x\<rparr>) });
        Some ((cint (uint32 rv), cs), with_stats s f (\<lambda>is. iostats_incr_read is (uint32 rv))) })"





section \<open>pipe.c: the two ends of a pipe\<close>


section \<open>sysfile.c\<close>

definition argfd :: "ksys \<Rightarrow> nat \<Rightarrow> int \<Rightarrow> nat option" where
  "argfd s p fd = (if fd < 0 \<or> fd \<ge> int NOFILE then None else ofiles s ! p ! nat fd)"



definition clear_stats :: "ksys \<Rightarrow> nat \<Rightarrow> ksys" where
  "clear_stats s f = with_stats s f iostats_clear"







definition sys_getiostats :: "ksys \<Rightarrow> nat \<Rightarrow> int \<Rightarrow> iostats \<Rightarrow> int \<times> iostats" where
  "sys_getiostats s p fd st = (case argfd s p fd of None \<Rightarrow> (- 1, st) | Some f \<Rightarrow> fileiostats s f st)"

definition add_nlink :: "xfs \<Rightarrow> nat \<Rightarrow> int \<Rightarrow> xfs" where
  "add_nlink x ip k = set_inode x ip ((the_inode x ip)\<lparr>nlink := cshort (nlink (the_inode x ip) + k)\<rparr>)"

text \<open>The label \<open>bad\<close> of \<open>sys_link\<close>.\<close>

definition link_bad :: "xfs \<Rightarrow> nat \<Rightarrow> (int \<times> xfs) option" where
  "link_bad x ip = do {
     x \<leftarrow> ilock x ip;
     x \<leftarrow> iupdate (add_nlink x ip (- 1)) ip;
     x \<leftarrow> iunlockput x ip;
     x \<leftarrow> fs_end_op x;
     Some (- 1, x) }"


text \<open>\<open>readi\<close> leaves the size of the directory alone, so the loop runs to the size it starts with.\<close>

function isdirempty_from :: "xfs \<Rightarrow> nat \<Rightarrow> int \<Rightarrow> int \<Rightarrow> (bool \<times> xfs) option" where
  "isdirempty_from x dp off sz =
     (if off < sz then
        case readi x dp off 16 of
          None \<Rightarrow> None
        | Some ((r, de), x) \<Rightarrow>
            if r \<noteq> 16 then None
            else if de_inum de \<noteq> 0 then Some (False, x)
            else isdirempty_from x dp (off + 16) sz
      else Some (True, x))"
  by pat_completeness auto
termination by (relation "measure (\<lambda>(x, dp, off, sz). nat (sz - off))") auto

declare isdirempty_from.simps [simp del]

definition isdirempty :: "xfs \<Rightarrow> nat \<Rightarrow> (bool \<times> xfs) option" where
  "isdirempty x dp = isdirempty_from x dp (2 * 16) (isize (the_inode x dp))"

definition unlink_bad :: "xfs \<Rightarrow> nat \<Rightarrow> (int \<times> xfs) option" where
  "unlink_bad x dp = do {
     x \<leftarrow> iunlockput x dp;
     x \<leftarrow> fs_end_op x;
     Some (- 1, x) }"


text \<open>The inode that \<open>create\<close> returns is locked.\<close>

definition create :: "xfs \<Rightarrow> nat \<Rightarrow> byte list \<Rightarrow> int \<Rightarrow> int \<Rightarrow> int \<Rightarrow> (nat option \<times> xfs) option" where
  "create x cwd path type mjr mnr = do {
     ((dp, name), x) \<leftarrow> nameiparent x cwd path;
     case dp of
       None \<Rightarrow> Some (None, x)
     | Some dp \<Rightarrow> do {
         x \<leftarrow> ilock x dp;
         (found, x) \<leftarrow> dirlookup x dp name;
         case found of
           Some (ip, off) \<Rightarrow> do {
             x \<leftarrow> iunlockput x dp;
             x \<leftarrow> ilock x ip;
             if type = T_FILE \<and> itype (the_inode x ip) = T_FILE then Some (Some ip, x)
             else do { x \<leftarrow> iunlockput x ip; Some (None, x) } }
         | None \<Rightarrow> do {
             (ip, x) \<leftarrow> ialloc x (idev (the_inode x dp)) type;
             x \<leftarrow> ilock x ip;
             x \<leftarrow> iupdate (set_inode x ip ((the_inode x ip)\<lparr>major := mjr, minor := mnr, nlink := 1\<rparr>)) ip;
             x \<leftarrow> (if type = T_DIR then do {
                 x \<leftarrow> iupdate (add_nlink x dp 1) dp;
                 (r, x) \<leftarrow> dirlink x ip [46] (inum (the_inode x ip));
                 if r < 0 then None
                 else do {
                   (r, x) \<leftarrow> dirlink x ip [46, 46] (inum (the_inode x dp));
                   if r < 0 then None else Some x } }
               else Some x);
             (r, x) \<leftarrow> dirlink x dp name (inum (the_inode x ip));
             if r < 0 then None
             else do { x \<leftarrow> iunlockput x dp; Some (Some ip, x) } } } }"















section \<open>References to inodes\<close>

text \<open>The reference counts of the inode cache, and how a call changes them.\<close>

definition cnt :: "xfs \<Rightarrow> nat \<Rightarrow> int" where
  "cnt x i = (if i < length (icache x) then iref (icache x ! i) else 0)"

definition one :: "nat \<Rightarrow> nat \<Rightarrow> int" where
  "one i j = (if i = j then 1 else 0)"

definition moves :: "xfs \<Rightarrow> xfs \<Rightarrow> (nat \<Rightarrow> int) \<Rightarrow> bool" where
  "moves x y d \<longleftrightarrow> length (icache y) = length (icache x) \<and> (\<forall>i. cnt y i = cnt x i + d i)"

abbreviation still :: "xfs \<Rightarrow> xfs \<Rightarrow> bool" where
  "still x y \<equiv> moves x y (\<lambda>_. 0)"

lemma moves_trans: "moves x y d \<Longrightarrow> moves y z e \<Longrightarrow> (\<And>i. f i = d i + e i) \<Longrightarrow> moves x z f"
  by (simp add: moves_def)

lemma still_refl: "still x x"
  by (simp add: moves_def)

lemma still_trans: "still x y \<Longrightarrow> moves y z d \<Longrightarrow> moves x z d"
  by (simp add: moves_def)

lemma moves_still: "moves x y d \<Longrightarrow> still y z \<Longrightarrow> moves x z d"
  by (simp add: moves_def)

lemma moves_len: "moves x y d \<Longrightarrow> length (icache y) = length (icache x)"
  by (simp add: moves_def)

lemma still_ids: "ids y = ids x \<Longrightarrow> still x y"
proof -
  assume a: "ids y = ids x"
  then have len: "length (icache y) = length (icache x)" by (metis length_ids)
  have "iref (icache y ! i) = iref (icache x ! i)" if "i < length (icache x)" for i
    using ids_nth [of i y] ids_nth [of i x] a len that by simp
  then show ?thesis using len by (simp add: moves_def cnt_def)
qed

lemma still_log: "icache y = icache x \<Longrightarrow> still x y"
  by (simp add: moves_def cnt_def)

lemma still_set_inode: "iref v = iref (the_inode x ip) \<Longrightarrow> still x (set_inode x ip v)"
  by (cases "ip < length (icache x)") (auto simp: moves_def cnt_def set_inode_def the_inode_def nth_list_update list_update_beyond)

lemma still_begin: "fs_begin_op x = Some y \<Longrightarrow> still x y"
  by (auto simp: fs_begin_op_def intro: still_log)

lemma still_end: "fs_end_op x = Some y \<Longrightarrow> still x y"
  by (auto simp: fs_end_op_def intro: still_log)

lemma still_ilock: "ilock x ip = Some y \<Longrightarrow> still x y"
  by (intro still_ids ids_ilock)

lemma still_iunlock: "iunlock x ip = Some y \<Longrightarrow> still x y"
  by (intro still_ids ids_iunlock)

lemma still_readi: "readi x ip off n = Some (r, y) \<Longrightarrow> still x y"
  by (intro still_ids ids_readi)

lemma still_writei: "writei x ip src off n = Some (r, y) \<Longrightarrow> still x y"
  by (intro still_ids ids_writei)

lemma still_iupdate: "iupdate x ip = Some y \<Longrightarrow> still x y"
  by (intro still_ids ids_iupdate)

lemma still_add_nlink: "still x (add_nlink x ip k)"
  by (simp add: add_nlink_def still_set_inode)

lemma moves_set_ref:
  assumes "ip < length (icache x)" and "iref v = iref (the_inode x ip) + k"
  shows "moves x (set_inode x ip v) (\<lambda>i. k * one ip i)"
  using assms by (auto simp: moves_def cnt_def set_inode_def the_inode_def one_def nth_list_update)

lemma moves_iget:
  assumes "iget x dev ino = Some (ip, y)"
  shows "moves x y (one ip)" and "ip < length (icache x)"
proof -
  obtain found free where sc: "iget_scan (icache x) dev ino 0 None = (found, free)" by (cases "iget_scan (icache x) dev ino 0 None")
  note sp = iget_scan_spec [OF sc]
  have "ip < length (icache x) \<and> (\<exists>v. y = set_inode x ip v \<and> iref v = iref (the_inode x ip) + 1)"
  proof (cases found)
    case (Some k)
    then show ?thesis using assms sc sp by (auto simp: iget_def)
  next
    case None
    then obtain k where "free = Some k" using assms sc by (auto simp: iget_def split: option.splits)
    then show ?thesis using assms sc sp None by (auto simp: iget_def the_inode_def)
  qed
  then show "moves x y (one ip)" "ip < length (icache x)" using moves_set_ref [of ip x _ 1] by auto
qed

lemma moves_idup: "idup x ip = (ip', y) \<Longrightarrow> ip < length (icache x) \<Longrightarrow> ip' = ip \<and> moves x y (one ip)"
  using moves_set_ref [of ip x _ 1] by (auto simp: idup_def)

lemma moves_iput:
  assumes "iput x ip = Some y" and "ip < length (icache x)"
  shows "moves x y (\<lambda>i. - one ip i)"
proof -
  note e = iput_ids [OF assms]
  have len: "length (icache y) = length (icache x)" using arg_cong [OF e, of length] by simp
  have "iref (icache y ! i) = iref (icache x ! i) + - one ip i" if "i < length (icache x)" for i
    using arg_cong [OF e, of "\<lambda>l. l ! i"] that len assms(2)
    by (cases "i = ip") (simp_all add: ids_nth one_def the_inode_def)
  then show ?thesis using len assms(2) by (auto simp: moves_def cnt_def one_def)
qed

lemma moves_iunlockput:
  assumes "iunlockput x ip = Some y" and "ip < length (icache x)"
  shows "moves x y (\<lambda>i. - one ip i)"
proof -
  obtain z where z: "iunlock x ip = Some z" "iput z ip = Some y" using assms(1) by (auto simp: iunlockput_def bind_eq_Some_conv)
  note s = still_iunlock [OF z(1)]
  show ?thesis using still_trans [OF s moves_iput [OF z(2)]] assms(2) moves_len [OF s] by simp
qed

lemma moves_dirlookup_from:
  assumes "dirlookup_from x dp name off sz = Some (r, y)"
  shows "case r of None \<Rightarrow> still x y | Some (ip, k) \<Rightarrow> moves x y (one ip) \<and> ip < length (icache x)"
  using assms
proof (induction x dp name off sz rule: dirlookup_from.induct)
  case (1 x dp name off sz)
  note unf = dirlookup_from.simps [of x dp name off sz]
  show ?case
  proof (cases "off < sz")
    case False
    then show ?thesis using "1.prems" unf by (simp add: still_refl)
  next
    case True
    then obtain q de z where z: "readi x dp off 16 = Some ((q, de), z)" "q = 16"
      using "1.prems" unf by (auto split: option.splits if_splits)
    note s = still_readi [OF z(1)]
    show ?thesis
    proof (cases "de_inum de \<noteq> 0 \<and> namecmp name (de_name de) = 0")
      case hit: True
      then obtain ip where ip: "iget z (idev (the_inode z dp)) (de_inum de) = Some (ip, y)" "r = Some (ip, off)"
        using "1.prems" unf True z by (auto simp: bind_eq_Some_conv)
      show ?thesis using moves_iget [OF ip(1)] still_trans [OF s] moves_len [OF s] ip(2) by simp
    next
      case miss: False
      have rec: "dirlookup_from z dp name (off + 16) sz = Some (r, y)"
        using "1.prems" unf True z miss by (auto split: if_splits)
      have "case r of None \<Rightarrow> still z y | Some (ip, k) \<Rightarrow> moves z y (one ip) \<and> ip < length (icache z)"
      proof (cases "de_inum de = 0")
        case zero: True
        show ?thesis by (rule "1.IH"(1) [OF True z(1)]) (use z(2) zero rec in auto)
      next
        case nz: False
        show ?thesis by (rule "1.IH"(2) [OF True z(1)]) (use z(2) nz miss rec in auto)
      qed
      then show ?thesis using still_trans [OF s] moves_len [OF s] by (auto split: option.splits)
    qed
  qed
qed

text \<open>
  \<open>after m Q\<close>: if the call \<open>m\<close> returns, \<open>Q\<close> holds of its result. The rules below follow the text of a call and
  carry \<open>moves x\<^sub>0 x d\<close>, the change of the counts since the state \<open>x\<^sub>0\<close>.
\<close>

definition after :: "'a option \<Rightarrow> ('a \<Rightarrow> bool) \<Rightarrow> bool" where
  "after m Q \<longleftrightarrow> (\<forall>r. m = Some r \<longrightarrow> Q r)"

named_theorems wp \<open>rules of \<^const>\<open>after\<close>\<close>

lemma after_Some [wp]: "Q r \<Longrightarrow> after (Some r) Q"
  by (simp add: after_def)

lemma after_None [wp]: "after None Q"
  by (simp add: after_def)

lemma after_bind [wp]: "after m (\<lambda>r. after (f r) Q) \<Longrightarrow> after (m \<bind> f) Q"
  by (auto simp: after_def bind_eq_Some_conv)

lemma after_mono: "after m P \<Longrightarrow> (\<And>r. P r \<Longrightarrow> Q r) \<Longrightarrow> after m Q"
  by (simp add: after_def)

lemma after_map [wp]: "after m (\<lambda>r. Q (f r)) \<Longrightarrow> after (map_option f m) Q"
  by (auto simp: after_def)

lemma after_if [wp]: "(b \<Longrightarrow> after m Q) \<Longrightarrow> (\<not> b \<Longrightarrow> after n Q) \<Longrightarrow> after (if b then m else n) Q"
  by simp

lemma after_let [wp]: "after (f v) Q \<Longrightarrow> after (let x = v in f x) Q"
  by simp

lemma after_option [wp]: "(r = None \<Longrightarrow> after m Q) \<Longrightarrow> (\<And>v. r = Some v \<Longrightarrow> after (f v) Q) \<Longrightarrow> after (case r of None \<Rightarrow> m | Some v \<Rightarrow> f v) Q"
  by (cases r) simp_all

lemma after_prod [wp]: "(\<And>a b. r = (a, b) \<Longrightarrow> after (f a b) Q) \<Longrightarrow> after (case r of (a, b) \<Rightarrow> f a b) Q"
  by (cases r) simp

lemma after_prod_app [wp]: "(\<And>a b. r = (a, b) \<Longrightarrow> after (f a b z) Q) \<Longrightarrow> after ((case r of (a, b) \<Rightarrow> f a b) z) Q"
  by (cases r) simp

lemma after_pair: "after (f a b) Q \<Longrightarrow> after (case (a, b) of (x, y) \<Rightarrow> f x y) Q"
  and after_pair_app: "after (h a b z) Q \<Longrightarrow> after ((case (a, b) of (x, y) \<Rightarrow> h x y) z) Q"
  and after_case_None: "after m Q \<Longrightarrow> after (case None of None \<Rightarrow> m | Some v \<Rightarrow> g v) Q"
  and after_case_Some: "after (g v) Q \<Longrightarrow> after (case Some v of None \<Rightarrow> m | Some v \<Rightarrow> g v) Q"
  by simp_all

lemmas wp_cases = after_pair after_pair_app after_case_None after_case_Some

lemma moves_eq: "moves x\<^sub>0 x d \<Longrightarrow> (\<And>i. e i = d i) \<Longrightarrow> moves x\<^sub>0 x e"
  by (simp add: moves_def)

lemma wp_still:
  assumes "moves x\<^sub>0 x d" and "\<And>y. m = Some y \<Longrightarrow> still x y" and "\<And>y. moves x\<^sub>0 y d \<Longrightarrow> Q y"
  shows "after m Q"
  using assms moves_still by (fastforce simp: after_def)

lemma wp_begin [wp]: "moves x\<^sub>0 x d \<Longrightarrow> (\<And>y. moves x\<^sub>0 y d \<Longrightarrow> Q y) \<Longrightarrow> after (fs_begin_op x) Q"
  by (rule wp_still [OF _ still_begin])

lemma wp_end [wp]: "moves x\<^sub>0 x d \<Longrightarrow> (\<And>y. moves x\<^sub>0 y d \<Longrightarrow> Q y) \<Longrightarrow> after (fs_end_op x) Q"
  by (rule wp_still [OF _ still_end])

lemma wp_ilock [wp]: "moves x\<^sub>0 x d \<Longrightarrow> (\<And>y. moves x\<^sub>0 y d \<Longrightarrow> Q y) \<Longrightarrow> after (ilock x ip) Q"
  by (rule wp_still [OF _ still_ilock])

lemma wp_iunlock [wp]: "moves x\<^sub>0 x d \<Longrightarrow> (\<And>y. moves x\<^sub>0 y d \<Longrightarrow> Q y) \<Longrightarrow> after (iunlock x ip) Q"
  by (rule wp_still [OF _ still_iunlock])

lemma wp_iupdate [wp]: "moves x\<^sub>0 x d \<Longrightarrow> (\<And>y. moves x\<^sub>0 y d \<Longrightarrow> Q y) \<Longrightarrow> after (iupdate x ip) Q"
  by (rule wp_still [OF _ still_iupdate])

lemma wp_iput [wp]:
  assumes "moves x\<^sub>0 x d" and "ip < length (icache x\<^sub>0)" and "\<And>y. moves x\<^sub>0 y (\<lambda>i. d i - one ip i) \<Longrightarrow> Q y"
  shows "after (iput x ip) Q"
  using moves_iput [of x ip] moves_len [OF assms(1)] assms moves_trans [OF assms(1)] by (fastforce simp: after_def)

lemma wp_iunlockput [wp]:
  assumes "moves x\<^sub>0 x d" and "ip < length (icache x\<^sub>0)" and "\<And>y. moves x\<^sub>0 y (\<lambda>i. d i - one ip i) \<Longrightarrow> Q y"
  shows "after (iunlockput x ip) Q"
  using moves_iunlockput [of x ip] moves_len [OF assms(1)] assms moves_trans [OF assms(1)] by (fastforce simp: after_def)

lemma wp_iget [wp]:
  assumes "moves x\<^sub>0 x d" and "\<And>ip y. ip < length (icache x\<^sub>0) \<Longrightarrow> moves x\<^sub>0 y (\<lambda>i. d i + one ip i) \<Longrightarrow> Q (ip, y)"
  shows "after (iget x dev ino) Q"
  using moves_iget [of x dev ino] moves_len [OF assms(1)] assms(2) moves_trans [OF assms(1)] by (fastforce simp: after_def)

lemma wp_readi [wp]: "moves x\<^sub>0 x d \<Longrightarrow> (\<And>r y. moves x\<^sub>0 y d \<Longrightarrow> Q (r, y)) \<Longrightarrow> after (readi x ip off n) Q"
  using moves_still still_readi by (fastforce simp: after_def)

lemma wp_writei [wp]: "moves x\<^sub>0 x d \<Longrightarrow> (\<And>r y. moves x\<^sub>0 y d \<Longrightarrow> Q (r, y)) \<Longrightarrow> after (writei x ip src off n) Q"
  using moves_still still_writei by (fastforce simp: after_def)

lemma wp_dirlookup [wp]:
  assumes "moves x\<^sub>0 x d" and "\<And>y. moves x\<^sub>0 y d \<Longrightarrow> Q (None, y)"
    and "\<And>ip off y. ip < length (icache x\<^sub>0) \<Longrightarrow> moves x\<^sub>0 y (\<lambda>i. d i + one ip i) \<Longrightarrow> Q (Some (ip, off), y)"
  shows "after (dirlookup x dp name) Q"
  unfolding after_def
proof (intro allI impI)
  fix r assume "dirlookup x dp name = Some r"
  then obtain f y where r: "r = (f, y)" "dirlookup_from x dp name 0 (isize (the_inode x dp)) = Some (f, y)"
    by (cases r) (auto simp: dirlookup_def split: if_splits)
  note m = moves_dirlookup_from [OF r(2)]
  show "Q r"
  proof (cases f)
    case None
    then show ?thesis using m assms(2) moves_still [OF assms(1)] r(1) by simp
  next
    case (Some v)
    then have v: "moves x y (one (fst v))" "fst v < length (icache x\<^sub>0)" using m moves_len [OF assms(1)] by (cases v; simp)+
    show ?thesis using assms(3) [OF v(2), of y "snd v"] moves_trans [OF assms(1) v(1)] r(1) Some by simp
  qed
qed

lemma wp_dirlink_slot [wp]:
  assumes "moves x\<^sub>0 x d" and "\<And>off y. moves x\<^sub>0 y d \<Longrightarrow> Q (off, y)"
  shows "after (dirlink_slot x dp off sz) Q"
  using assms(1)
proof (induction x dp off sz rule: dirlink_slot.induct)
  case (1 x dp off sz)
  show ?case
  proof (cases "off < sz")
    case False
    then show ?thesis using "1.prems" assms(2) by (simp add: dirlink_slot.simps [of x dp off sz] after_def)
  next
    case True
    show ?thesis
    proof (cases "\<exists>de z. readi x dp off 16 = Some ((16, de), z)")
      case False
      then have "dirlink_slot x dp off sz = None" using True
        by (auto simp: dirlink_slot.simps [of x dp off sz] split: option.splits prod.splits)
      then show ?thesis by (simp add: after_def)
    next
      case hit: True
      then obtain de z where z: "readi x dp off 16 = Some ((16, de), z)" by blast
      have mz: "moves x\<^sub>0 z d" by (rule moves_still [OF "1.prems" still_readi [OF z]])
      show ?thesis
        using "1.IH" [OF True z refl refl _ _ mz] assms(2) [OF mz] True z
        by (cases "de_inum de = 0") (simp_all add: dirlink_slot.simps [of x dp off sz] after_def)
    qed
  qed
qed

lemma wp_dirlink [wp]:
  assumes "moves x\<^sub>0 x d" and "\<And>r y. moves x\<^sub>0 y d \<Longrightarrow> Q (r, y)"
  shows "after (dirlink x dp name ino) Q"
  unfolding dirlink_def
  by ((rule wp_cases | rule wp | assumption | rule assms(1) | (rule assms(2), assumption) | (rule assms(2), erule moves_eq, simp))+)

lemma wp_namex_loop:
  assumes "moves x\<^sub>0 x d" and "ip < length (icache x\<^sub>0)"
    and "\<And>name y. moves x\<^sub>0 y (\<lambda>i. d i - one ip i) \<Longrightarrow> Q ((None, name), y)"
    and "\<And>r name y. r < length (icache x\<^sub>0) \<Longrightarrow> moves x\<^sub>0 y (\<lambda>i. d i - one ip i + one r i) \<Longrightarrow> Q ((Some r, name), y)"
  shows "after (namex_loop x ip path par name0) Q"
  using assms
proof (induction x ip path par name0 arbitrary: d rule: namex_loop.induct)
  case (1 x ip path par name0)
  note prems = "1.prems" and unf = namex_loop.simps [of x ip path par name0]
  show ?case
  proof (cases "skipelem path")
    case None
    have self: "Q ((Some ip, name0), x)" by (rule prems(4) [OF prems(2)]) (rule moves_eq [OF prems(1)], simp)
    show ?thesis unfolding unf None option.case
      by ((rule wp_cases | rule wp | rule prems(1) prems(2) self | (rule prems(3), assumption))+)
  next
    case (Some el)
    obtain rest name where el: "el = (rest, name)" by (cases el)
    show ?thesis
    proof (cases "ilock x ip")
      case None
      then show ?thesis using Some el by (simp add: unf after_def)
    next
      case y: (Some y)
      have my: "moves x\<^sub>0 y d" by (rule moves_still [OF prems(1) still_ilock [OF y]])
      have drop: "after (map_option (\<lambda>s. ((None, name), s)) (iunlockput z ip)) Q" if "moves x\<^sub>0 z d" for z
        by (rule wp)+ (rule that prems(2) | (rule prems(3), assumption))+
      have stop: "after (map_option (\<lambda>s. ((Some ip, name), s)) (iunlock y ip)) Q"
        by (rule wp)+ (rule my | (rule prems(4) [OF prems(2)], erule moves_eq, simp))+
      show ?thesis
      proof (cases "itype (the_inode y ip) \<noteq> T_DIR \<or> par \<and> rest = []")
        case True
        then show ?thesis using drop [OF my] stop Some el y by (auto simp: unf)
      next
        case False
        have step: "after (dirlookup y ip name) (\<lambda>(f, z). after (case f of
            None \<Rightarrow> map_option (\<lambda>s. ((None, name), s)) (iunlockput z ip)
          | Some (nxt, off) \<Rightarrow> (case iunlockput z ip of None \<Rightarrow> None | Some s \<Rightarrow> namex_loop s nxt rest par name)) Q)"
          unfolding after_def [of "dirlookup y ip name"]
        proof (intro allI impI)
          fix r assume r: "dirlookup y ip name = Some r"
          obtain f z where fz: "r = (f, z)" by (cases r)
          have dz: "after (dirlookup y ip name) (\<lambda>(f, z). case f of None \<Rightarrow> moves x\<^sub>0 z d
              | Some (n, k) \<Rightarrow> n < length (icache x\<^sub>0) \<and> moves x\<^sub>0 z (\<lambda>i. d i + one n i))"
            by (rule wp_dirlookup [OF my]) simp_all
          have "after (namex_loop w nxt rest par name) Q"
            if f: "f = Some (nxt, off)" and w: "iunlockput z ip = Some w" for nxt off w
          proof (rule "1.IH" [OF Some el [symmetric] y])
            have mz: "nxt < length (icache x\<^sub>0)" "moves x\<^sub>0 z (\<lambda>i. d i + one nxt i)"
              using dz r fz f by (simp_all add: after_def)
            have "after (iunlockput z ip) (\<lambda>w. moves x\<^sub>0 w (\<lambda>i. d i + one nxt i - one ip i))"
              by (rule wp_iunlockput [OF mz(2) prems(2)])
            then show "moves x\<^sub>0 w (\<lambda>i. d i + one nxt i - one ip i)" using w by (simp add: after_def)
            show "nxt < length (icache x\<^sub>0)" by (rule mz(1))
          qed (use False r fz f w prems(3,4) in \<open>auto elim: moves_eq\<close>)
          then have "after (case f of None \<Rightarrow> map_option (\<lambda>s. ((None, name), s)) (iunlockput z ip)
              | Some (nxt, off) \<Rightarrow> (case iunlockput z ip of None \<Rightarrow> None | Some s \<Rightarrow> namex_loop s nxt rest par name)) Q"
            using drop [of z] dz r fz by (auto simp: after_def split: option.splits)
          then show "case r of (f, z) \<Rightarrow> after (case f of None \<Rightarrow> map_option (\<lambda>s. ((None, name), s)) (iunlockput z ip)
              | Some (nxt, off) \<Rightarrow> (case iunlockput z ip of None \<Rightarrow> None | Some s \<Rightarrow> namex_loop s nxt rest par name)) Q"
            using fz by simp
        qed
        then show ?thesis using Some el y False by (cases "dirlookup y ip name") (auto simp: unf after_def)
      qed
    qed
  qed
qed

lemma wp_namex:
  assumes "moves x\<^sub>0 x d" and "cwd < length (icache x\<^sub>0)" and "\<And>name y. moves x\<^sub>0 y d \<Longrightarrow> Q ((None, name), y)"
    and "\<And>r name y. r < length (icache x\<^sub>0) \<Longrightarrow> moves x\<^sub>0 y (\<lambda>i. d i + one r i) \<Longrightarrow> Q ((Some r, name), y)"
  shows "after (namex x cwd path par) Q"
proof -
  have go: "after (namex_loop y ip path par []) Q" if "ip < length (icache x\<^sub>0)" "moves x\<^sub>0 y (\<lambda>i. d i + one ip i)" for ip y
    by (rule wp_namex_loop [OF that(2,1)]) (use assms(3,4) in \<open>auto elim: moves_eq\<close>)
  have "after (if first_byte path = slash then iget x ROOTDEV ROOTINO else Some (idup x cwd))
      (\<lambda>(ip, y). ip < length (icache x\<^sub>0) \<and> moves x\<^sub>0 y (\<lambda>i. d i + one ip i))"
    using moves_idup [of x cwd] moves_len [OF assms(1)] moves_trans [OF assms(1)] assms(2)
    by (intro wp) (auto simp: assms(1) idup_def)
  then show ?thesis using go unfolding namex_def by (intro after_bind) (auto simp: after_def)
qed

lemma wp_namei [wp]:
  assumes "moves x\<^sub>0 x d" and "cwd < length (icache x\<^sub>0)" and "\<And>y. moves x\<^sub>0 y d \<Longrightarrow> Q (None, y)"
    and "\<And>r y. r < length (icache x\<^sub>0) \<Longrightarrow> moves x\<^sub>0 y (\<lambda>i. d i + one r i) \<Longrightarrow> Q (Some r, y)"
  shows "after (namei x cwd path) Q"
  unfolding namei_def by (rule after_map, rule wp_namex [OF assms(1,2)]) (simp_all add: assms(3,4))

lemma wp_nameiparent [wp]:
  assumes "moves x\<^sub>0 x d" and "cwd < length (icache x\<^sub>0)" and "\<And>name y. moves x\<^sub>0 y d \<Longrightarrow> Q ((None, name), y)"
    and "\<And>r name y. r < length (icache x\<^sub>0) \<Longrightarrow> moves x\<^sub>0 y (\<lambda>i. d i + one r i) \<Longrightarrow> Q ((Some r, name), y)"
  shows "after (nameiparent x cwd path) Q"
  unfolding nameiparent_def by (rule wp_namex [OF assms])

lemma wp_log_write: "moves x\<^sub>0 x d \<Longrightarrow> (\<And>y. moves x\<^sub>0 y d \<Longrightarrow> Q y) \<Longrightarrow> after (fs_log_write x b c) Q"
  by (rule wp_still [OF _ still_ids [OF ids_log_write]])

lemma wp_ialloc [wp]:
  assumes "moves x\<^sub>0 x d" and "\<And>ip y. ip < length (icache x\<^sub>0) \<Longrightarrow> moves x\<^sub>0 y (\<lambda>i. d i + one ip i) \<Longrightarrow> Q (ip, y)"
  shows "after (ialloc x dev type) Q"
proof -
  have "after (ialloc_from x dev type i) Q" for i
    using assms(1)
  proof (induction x dev type i rule: ialloc_from.induct)
    case (1 x dev type i)
    note unf = ialloc_from.simps [of x dev type i]
    show ?case
    proof (cases "i < sb_ninodes (sb x) \<and> cshort (rdu16 (bread x (IBLOCK i (sb x))) (dinode_base i)) \<noteq> 0")
      case True
      then show ?thesis using "1.IH" "1.prems" by (auto simp: unf Let_def)
    next
      case False
      have "after (fs_log_write x b c \<bind> (\<lambda>y. iget y dev i)) Q" for b c
        by (rule wp, rule wp_log_write [OF "1.prems"], rule wp_iget, assumption, rule assms(2))
      then show ?thesis using False by (auto simp: unf Let_def after_None)
    qed
  qed
  then show ?thesis by (simp add: ialloc_def)
qed

lemma wp_isdirempty [wp]:
  assumes "moves x\<^sub>0 x d" and "\<And>r y. moves x\<^sub>0 y d \<Longrightarrow> Q (r, y)"
  shows "after (isdirempty x dp) Q"
proof -
  have "after (isdirempty_from x dp off sz) Q" for off sz
    using assms(1)
  proof (induction x dp off sz rule: isdirempty_from.induct)
    case (1 x dp off sz)
    note unf = isdirempty_from.simps [of x dp off sz]
    show ?case
    proof (cases "off < sz \<and> (\<exists>de z. readi x dp off 16 = Some ((16, de), z))")
      case False
      then show ?thesis using "1.prems" assms(2) by (auto simp: unf after_def split: option.splits prod.splits if_splits)
    next
      case True
      then obtain de z where z: "off < sz" "readi x dp off 16 = Some ((16, de), z)" by blast
      have mz: "moves x\<^sub>0 z d" by (rule moves_still [OF "1.prems" still_readi [OF z(2)]])
      show ?thesis using "1.IH" [OF z refl refl _ _ mz] assms(2) [OF mz] z
        by (cases "de_inum de = 0") (simp_all add: unf after_def)
    qed
  qed
  then show ?thesis by (simp add: isdirempty_def)
qed

lemma moves_add_nlink [simp]: "moves x\<^sub>0 (add_nlink x ip k) d \<longleftrightarrow> moves x\<^sub>0 x d"
  using moves_len [OF still_add_nlink [of x ip k]] still_add_nlink [of x ip k] by (simp add: moves_def)

lemma moves_set_inode: "iref v = iref (the_inode x ip) \<Longrightarrow> moves x\<^sub>0 x d \<Longrightarrow> moves x\<^sub>0 (set_inode x ip v) d"
  by (rule moves_still [OF _ still_set_inode])

lemma wp_iupdate_nlink [wp]: "moves x\<^sub>0 x d \<Longrightarrow> (\<And>y. moves x\<^sub>0 y d \<Longrightarrow> Q y) \<Longrightarrow> after (iupdate (add_nlink x ip k) jp) Q"
  by (rule wp_iupdate) simp_all

text \<open>\<open>create\<close> gives one reference to the inode that it returns and none otherwise; \<open>link\<close> and \<open>unlink\<close> keep none.\<close>

lemma wp_create [wp]:
  assumes "moves x\<^sub>0 x d" and "cwd < length (icache x\<^sub>0)" and "\<And>y. moves x\<^sub>0 y d \<Longrightarrow> Q (None, y)"
    and "\<And>r y. r < length (icache x\<^sub>0) \<Longrightarrow> moves x\<^sub>0 y (\<lambda>i. d i + one r i) \<Longrightarrow> Q (Some r, y)"
  shows "after (create x cwd path type mjr mnr) Q"
  unfolding create_def
  by ((rule wp_cases | rule wp_iupdate_nlink | rule wp | rule assms(1,2) | assumption | rule moves_set_inode, simp
    | (rule assms(3), erule moves_eq, simp) | (rule assms(4), assumption, erule moves_eq, simp))+)

lemma wp_link_bad [wp]:
  assumes "moves x\<^sub>0 x d" and "ip < length (icache x\<^sub>0)" and "\<And>r y. moves x\<^sub>0 y (\<lambda>i. d i - one ip i) \<Longrightarrow> Q (r, y)"
  shows "after (link_bad x ip) Q"
  unfolding link_bad_def
  by ((rule wp_cases | rule wp_iupdate_nlink | rule wp | rule assms(1,2) | assumption | (rule assms(3), assumption))+)


lemma wp_unlink_bad [wp]:
  assumes "moves x\<^sub>0 x d" and "ip < length (icache x\<^sub>0)" and "\<And>r y. moves x\<^sub>0 y (\<lambda>i. d i - one ip i) \<Longrightarrow> Q (r, y)"
  shows "after (unlink_bad x ip) Q"
  unfolding unlink_bad_def
  by ((rule wp_cases | rule wp | rule assms(1,2) | assumption | (rule assms(3), assumption))+)



section \<open>References to open files\<close>

definition ndesc :: "nat option list list \<Rightarrow> nat \<Rightarrow> int" where
  "ndesc T f = int (count_list (concat T) (Some f))"

definition nopen :: "ofile list \<Rightarrow> nat \<Rightarrow> int" where
  "nopen F i = int (length (filter (\<lambda>v. ftype v = FD_INODE \<and> fip v = i) F))"

definition ncwd :: "nat option list \<Rightarrow> nat \<Rightarrow> int" where
  "ncwd C i = int (count_list C (Some i))"

definition ref_of :: "ofile list \<Rightarrow> nat \<Rightarrow> int" where
  "ref_of F f = (if f < length F then fref (F ! f) else 0)"

definition type_of :: "ofile list \<Rightarrow> nat \<Rightarrow> ftype" where
  "type_of F f = (if f < length F then ftype (F ! f) else FD_NONE)"

text \<open>The counts of files and inodes are exact up to \<open>e\<close> and \<open>d\<close>, the references that the running call holds itself.\<close>

definition kinv :: "(nat \<Rightarrow> int) \<Rightarrow> (nat \<Rightarrow> int) \<Rightarrow> ksys \<Rightarrow> bool" where
  "kinv e d s \<longleftrightarrow> (\<forall>f. ref_of (ftable s) f = ndesc (ofiles s) f + e f) \<and> (\<forall>f. ref_of (ftable s) f = 0 \<longrightarrow> type_of (ftable s) f = FD_NONE)
     \<and> (\<forall>i. cnt (kfs s) i = nopen (ftable s) i + ncwd (cwds s) i + d i) \<and> (\<forall>t \<in> set (ofiles s). length t = NOFILE)"



lemma ndesc_nonneg [simp]: "0 \<le> ndesc T f" and nopen_nonneg [simp]: "0 \<le> nopen F i" and ncwd_nonneg [simp]: "0 \<le> ncwd C i"
  by (simp_all add: ndesc_def nopen_def ncwd_def)












lemma kinv_pipes [simp]: "kinv e d (s\<lparr>pipes := P\<rparr>) = kinv e d s"
  by (simp add: kinv_def)


lemma kinv_iomem [simp]: "kinv e d (s\<lparr>iomem := m\<rparr>) = kinv e d s"
  by (simp add: kinv_def)

lemma with_stats_simps [simp]: "kinv e d (with_stats s f g) = kinv e d s" "kfs (with_stats s f g) = kfs s"
  "ftable (with_stats s f g) = ftable s" "pipes (with_stats s f g) = pipes s" "ofiles (with_stats s f g) = ofiles s" "cwds (with_stats s f g) = cwds s"
  by (simp_all add: with_stats_def Let_def)





text \<open>The calls of the file table as rules of \<^const>\<open>after\<close>; \<open>same\<close> keeps the descriptors and directories.\<close>

definition same :: "ksys \<Rightarrow> ksys \<Rightarrow> bool" where
  "same s s' \<longleftrightarrow> ofiles s' = ofiles s \<and> cwds s' = cwds s"

lemma same_simps [simp]: "same s s" "same s (s'\<lparr>kfs := x\<rparr>) = same s s'" "same s (s'\<lparr>pipes := P\<rparr>) = same s s'"
  "same s (set_file s' f v) = same s s'" "same s (clear_stats s' f) = same s s'"
  by (simp_all add: same_def set_file_def clear_stats_def)


lemma set_file_simps [simp]: "kfs (set_file s f v) = kfs s" "pipes (set_file s f v) = pipes s" "ofiles (set_file s f v) = ofiles s"
  "cwds (set_file s f v) = cwds s" "length (ftable (set_file s f v)) = length (ftable s)"
  by (simp_all add: set_file_def)




section \<open>Every system call\<close>












lemma the_file_kfs [simp]: "the_file (s\<lparr>kfs := x\<rparr>) f = the_file s f" "the_file (s\<lparr>pipes := P\<rparr>) f = the_file s f"
  by simp_all













section \<open>The kernel\<close>










text \<open>A read that fails lowers the counter of the bytes read: the \<open>- 1\<close> is added as an unsigned number.\<close>

lemma fileread_error_uncounts:
  assumes "readable (the_file s f)" and "ftype (the_file s f) = FD_PIPE" and "pipes s (fpipe (the_file s f)) = Some q"
    and "nread q = nwrite q" and "writeopen q"
  shows "\<exists>s'. fileread s f n True = Some ((- 1, []), s') \<and> byte_mem (the_file s' f) = byte_mem (the_file s f)
    \<and> read_bytes (iomem s' (byte_mem (the_file s f))) = uint32 (read_bytes (iomem s (byte_mem (the_file s f))) - 1)"
proof -
  define c where "c = read_bytes (iomem s (byte_mem (the_file s f)))"
  have w: "uint32 (- 1) = 4294967295" "cint (uint32 (- 1)) = - 1" by (simp_all add: uint32_def cint_def)
  have "(c + 4294967295) mod 4294967296 = (c - 1) mod 4294967296" by (simp add: mod_eq_dvd_iff)
  then have c: "uint32 (c + uint32 (- 1)) = uint32 (c - 1)" unfolding w(1) by (simp only: uint32_def)
  have "piperead q n True = (Returns q (- 1), [])" using assms(4,5) by (simp add: piperead_def)
  then show ?thesis using assms(1-3) c w(2)
    by (simp add: fileread_def iostats_incr_read_def with_stats_def c_def Let_def)
qed

text \<open>The counters of a file never lie in the table: with less than 37 entries' worth of unused memory behind
  the table, every allocation of a file overwrites other data.\<close>

lemma filealloc_overwrites:
  assumes "find_free_file (ftable s) 0 = Some f" and "behind s \<le> 36"
  shows "filealloc s = None"
  using assms by (cases "NFILE \<le> f + 136") (auto simp: filealloc_def iostats_alloc_def set_file_def Let_def NFILE_def)

end
