(* ===== verification/Xv6_String.thy ===== *)
theory Xv6_String
  imports Prelude
begin

text \<open>
  The memory and string routines of xv6: the kernel's \<open>hw09/unnas-hw09/xv6/string.c\<close> and the
  user library's \<open>ulib.c\<close> (the definitions with the prefix \<open>user_\<close>), over the byte memory of the
  prelude. A \<open>uint\<close> count is a natural number. Loops that end at a NUL byte are partial functions:
  no NUL byte, no result.
\<close>

section \<open>string.c\<close>

fun stosb :: "mem \<Rightarrow> int \<Rightarrow> int \<Rightarrow> nat \<Rightarrow> mem" where
  "stosb m a c 0 = m"
| "stosb m a c (Suc n) = stosb (wr8 m a (word_of_int c)) (a + 1) c n"

fun stosl :: "mem \<Rightarrow> int \<Rightarrow> int \<Rightarrow> nat \<Rightarrow> mem" where
  "stosl m a c 0 = m"
| "stosl m a c (Suc n) = stosl (wr32 m a c) (a + 4) c n"

definition memset :: "mem \<Rightarrow> int \<Rightarrow> int \<Rightarrow> nat \<Rightarrow> mem" where
  "memset m dst c n =
     (if dst mod 4 = 0 \<and> n mod 4 = 0 then
        let c = c mod 256
        in stosl m dst (c * 16777216 + c * 65536 + c * 256 + c) (n div 4)
      else stosb m dst c n)"

fun memcmp :: "mem \<Rightarrow> int \<Rightarrow> int \<Rightarrow> nat \<Rightarrow> int" where
  "memcmp m s1 s2 0 = 0"
| "memcmp m s1 s2 (Suc n) =
     (if rd8 m s1 \<noteq> rd8 m s2 then uint (rd8 m s1) - uint (rd8 m s2)
      else memcmp m (s1 + 1) (s2 + 1) n)"

fun move_down :: "mem \<Rightarrow> int \<Rightarrow> int \<Rightarrow> nat \<Rightarrow> mem" where
  "move_down m d s 0 = m"
| "move_down m d s (Suc n) = move_down (wr8 m (d - 1) (rd8 m (s - 1))) (d - 1) (s - 1) n"

fun move_up :: "mem \<Rightarrow> int \<Rightarrow> int \<Rightarrow> nat \<Rightarrow> mem" where
  "move_up m d s 0 = m"
| "move_up m d s (Suc n) = move_up (wr8 m d (rd8 m s)) (d + 1) (s + 1) n"

definition memmove :: "mem \<Rightarrow> int \<Rightarrow> int \<Rightarrow> nat \<Rightarrow> mem" where
  "memmove m dst src n =
     (if src < dst \<and> src + int n > dst then move_down m (dst + int n) (src + int n) n
      else move_up m dst src n)"

definition memcpy :: "mem \<Rightarrow> int \<Rightarrow> int \<Rightarrow> nat \<Rightarrow> mem" where
  "memcpy m dst src n = memmove m dst src n"

fun strncmp :: "mem \<Rightarrow> int \<Rightarrow> int \<Rightarrow> nat \<Rightarrow> int" where
  "strncmp m p q 0 = 0"
| "strncmp m p q (Suc n) =
     (if rd8 m p \<noteq> 0 \<and> rd8 m p = rd8 m q then strncmp m (p + 1) (q + 1) n
      else uint (rd8 m p) - uint (rd8 m q))"

fun zero_fill :: "mem \<Rightarrow> int \<Rightarrow> nat \<Rightarrow> mem" where
  "zero_fill m s 0 = m"
| "zero_fill m s (Suc n) = zero_fill (wr8 m s 0) (s + 1) n"

fun strncpy_loop :: "mem \<Rightarrow> int \<Rightarrow> int \<Rightarrow> nat \<Rightarrow> mem" where
  "strncpy_loop m s t 0 = m"
| "strncpy_loop m s t (Suc n) =
     (let m' = wr8 m s (rd8 m t)
      in if rd8 m t \<noteq> 0 then strncpy_loop m' (s + 1) (t + 1) n else zero_fill m' (s + 1) n)"

definition strncpy :: "mem \<Rightarrow> int \<Rightarrow> int \<Rightarrow> int \<Rightarrow> mem" where
  "strncpy m s t n = strncpy_loop m s t (nat n)"

text \<open>The position after the copy is the second result.\<close>

fun safestrcpy_loop :: "mem \<Rightarrow> int \<Rightarrow> int \<Rightarrow> nat \<Rightarrow> mem \<times> int" where
  "safestrcpy_loop m s t 0 = (m, s)"
| "safestrcpy_loop m s t (Suc n) =
     (let m' = wr8 m s (rd8 m t)
      in if rd8 m t \<noteq> 0 then safestrcpy_loop m' (s + 1) (t + 1) n else (m', s + 1))"

definition safestrcpy :: "mem \<Rightarrow> int \<Rightarrow> int \<Rightarrow> int \<Rightarrow> mem" where
  "safestrcpy m s t n =
     (if n \<le> 0 then m
      else let (m', s') = safestrcpy_loop m s t (nat (n - 1)) in wr8 m' s' 0)"

partial_function (option) strlen_from :: "mem \<Rightarrow> int \<Rightarrow> int \<Rightarrow> int option" where
  "strlen_from m s n = (if rd8 m (s + n) = 0 then Some n else strlen_from m s (n + 1))"

definition strlen :: "mem \<Rightarrow> int \<Rightarrow> int option" where
  "strlen m s = strlen_from m s 0"

section \<open>ulib.c\<close>

partial_function (option) user_strcpy :: "mem \<Rightarrow> int \<Rightarrow> int \<Rightarrow> mem option" where
  "user_strcpy m s t =
     (let m' = wr8 m s (rd8 m t)
      in if rd8 m t \<noteq> 0 then user_strcpy m' (s + 1) (t + 1) else Some m')"

partial_function (option) user_strcmp :: "mem \<Rightarrow> int \<Rightarrow> int \<Rightarrow> int option" where
  "user_strcmp m p q =
     (if rd8 m p \<noteq> 0 \<and> rd8 m p = rd8 m q then user_strcmp m (p + 1) (q + 1)
      else Some (uint (rd8 m p) - uint (rd8 m q)))"

definition user_memset :: "mem \<Rightarrow> int \<Rightarrow> int \<Rightarrow> nat \<Rightarrow> mem" where
  "user_memset m dst c n = stosb m dst c n"

partial_function (option) user_strchr :: "mem \<Rightarrow> int \<Rightarrow> byte \<Rightarrow> int option" where
  "user_strchr m s c =
     (if rd8 m s = 0 then Some 0 else if rd8 m s = c then Some s else user_strchr m (s + 1) c)"

partial_function (option) atoi_loop :: "mem \<Rightarrow> int \<Rightarrow> int \<Rightarrow> int option" where
  "atoi_loop m s n =
     (if 48 \<le> uint (rd8 m s) \<and> uint (rd8 m s) \<le> 57
      then atoi_loop m (s + 1) (cint (n * 10 + uint (rd8 m s) - 48)) else Some n)"

definition user_atoi :: "mem \<Rightarrow> int \<Rightarrow> int option" where
  "user_atoi m s = atoi_loop m s 0"

text \<open>The input is the list of bytes that \<open>read\<close> still delivers; at its end \<open>read\<close> returns 0.\<close>

fun gets_loop :: "mem \<Rightarrow> int \<Rightarrow> int \<Rightarrow> int \<Rightarrow> byte list \<Rightarrow> mem \<times> int \<times> byte list" where
  "gets_loop m buf i mx [] = (m, i, [])"
| "gets_loop m buf i mx (c # inp) =
     (if i + 1 < mx then
        let m' = wr8 m (buf + i) c
        in if c = 10 \<or> c = 13 then (m', i + 1, inp) else gets_loop m' buf (i + 1) mx inp
      else (m, i, c # inp))"

definition user_gets :: "mem \<Rightarrow> int \<Rightarrow> int \<Rightarrow> byte list \<Rightarrow> mem \<times> byte list" where
  "user_gets m buf mx inp = (let (m', i, rest) = gets_loop m buf 0 mx inp in (wr8 m' (buf + i) 0, rest))"

definition user_memmove :: "mem \<Rightarrow> int \<Rightarrow> int \<Rightarrow> int \<Rightarrow> mem" where
  "user_memmove m dst src n = move_up m dst src (nat n)"

section \<open>Block operations\<close>

text \<open>The specification of a copy: every byte of the destination gets the old byte of the source.\<close>

definition block_copied :: "mem \<Rightarrow> int \<Rightarrow> int \<Rightarrow> nat \<Rightarrow> mem" where
  "block_copied m d s n = (\<lambda>x. if d \<le> x \<and> x < d + int n then m (x - d + s) else m x)"

definition block_filled :: "mem \<Rightarrow> int \<Rightarrow> byte \<Rightarrow> nat \<Rightarrow> mem" where
  "block_filled m d c n = (\<lambda>x. if d \<le> x \<and> x < d + int n then c else m x)"

lemma move_up_copies: "\<not> (s < d \<and> d < s + int n) \<Longrightarrow> move_up m d s n = block_copied m d s n"
proof (induction n arbitrary: m d s)
  case (Suc n)
  have "move_up m d s (Suc n) = block_copied (wr8 m d (rd8 m s)) (d + 1) (s + 1) n"
    using Suc.prems Suc.IH [of "s + 1" "d + 1" "wr8 m d (rd8 m s)"] by auto
  also have "\<dots> = block_copied m d s (Suc n)"
    using Suc.prems by (intro ext) (auto simp: block_copied_def wr8_def rd8_def algebra_simps)
  finally show ?case .
qed (auto simp: block_copied_def fun_eq_iff)

lemma move_down_copies: "s \<le> d \<Longrightarrow> move_down m (d + int n) (s + int n) n = block_copied m d s n"
proof (induction n arbitrary: m)
  case (Suc n)
  have "move_down m (d + int (Suc n)) (s + int (Suc n)) (Suc n)
      = block_copied (wr8 m (d + int n) (rd8 m (s + int n))) d s n"
    using Suc by simp
  also have "\<dots> = block_copied m d s (Suc n)"
    using Suc.prems by (intro ext) (auto simp: block_copied_def wr8_def rd8_def algebra_simps)
  finally show ?case .
qed (auto simp: block_copied_def fun_eq_iff)

lemma memmove_copies: "memmove m dst src n = block_copied m dst src n"
proof (cases "src < dst \<and> src + int n > dst")
  case True
  then show ?thesis using move_down_copies [of src dst m n] by (simp add: memmove_def)
next
  case False
  then show ?thesis unfolding memmove_def if_not_P [OF False] by (intro move_up_copies) auto
qed

text \<open>C30: \<open>memmove\<close> copies correctly also when the two regions overlap, whichever of its two loops runs:
  it is the copy through a snapshot of the source.\<close>

theorem memmove_correct: "memmove m dst src n = block_copied m dst src n"
  by (rule memmove_copies)

lemma stosb_fills: "stosb m d c n = block_filled m d (word_of_int c) n"
  by (induction n arbitrary: m d) (auto simp: block_filled_def wr8_def fun_eq_iff)

lemma fill_word_bytes:
  fixes c :: int
  assumes "0 \<le> c" and "c < 256"
  defines "w \<equiv> c * 16777216 + c * 65536 + c * 256 + c"
  shows "w mod 256 = c" "w div 256 mod 256 = c" "w div 65536 mod 256 = c" "w div 16777216 mod 256 = c"
proof -
  have digit: "(c + 256 * x) mod 256 = c" "(c + 256 * x) div 256 = x" for x
    using assms(1,2) by (simp_all add: div_add1_eq)
  have w: "w = c + 256 * (c + 256 * (c + 256 * c))" by (simp add: w_def)
  have dv: "w div 65536 = w div 256 div 256" "w div 16777216 = w div 256 div 256 div 256"
    by (simp_all flip: zdiv_zmult2_eq)
  show "w mod 256 = c" "w div 256 mod 256 = c" "w div 65536 mod 256 = c" "w div 16777216 mod 256 = c"
    unfolding dv unfolding w digit using assms(1,2) by simp_all
qed

lemma stosl_fills:
  assumes "0 \<le> c" and "c < 256"
  shows "stosl m d (c * 16777216 + c * 65536 + c * 256 + c) n = block_filled m d (word_of_int c) (4 * n)"
proof (induction n arbitrary: m d)
  case (Suc n)
  let ?w = "c * 16777216 + c * 65536 + c * 256 + c"
  have byte: "(word_of_int v :: byte) = word_of_int c" if "v mod 256 = c" for v
    using that assms by (simp add: word_uint_eq_iff uint_byte)
  have "wr32 m d ?w = block_filled m d (word_of_int c) 4"
    using byte [OF fill_word_bytes(1) [OF assms]] byte [OF fill_word_bytes(2) [OF assms]]
      byte [OF fill_word_bytes(3) [OF assms]] byte [OF fill_word_bytes(4) [OF assms]]
    by (intro ext) (auto simp: wr32_def block_filled_def)
  then have "stosl m d ?w (Suc n) = block_filled (block_filled m d (word_of_int c) 4) (d + 4) (word_of_int c) (4 * n)"
    unfolding stosl.simps by (simp only: Suc.IH)
  then show ?case by (auto simp: block_filled_def fun_eq_iff)
qed (auto simp: block_filled_def fun_eq_iff)

lemma memset_correct: "memset m dst c n = block_filled m dst (word_of_int c) n"
proof (cases "dst mod 4 = 0 \<and> n mod 4 = 0")
  case True
  have "(word_of_int (c mod 256) :: byte) = word_of_int c"
    by (simp add: word_uint_eq_iff uint_byte)
  moreover have "4 * (n div 4) = n" using True by auto
  ultimately show ?thesis
    unfolding memset_def if_P [OF True] Let_def using stosl_fills [of "c mod 256" m dst "n div 4"] by simp
next
  case False
  show ?thesis unfolding memset_def if_not_P [OF False] by (rule stosb_fills)
qed

text \<open>The user library copies upwards only, so an overlapping move to a higher address repeats bytes.\<close>

lemma user_memmove_overlap:
  "user_memmove m d (d - 1) 2 (d + 1) = m (d - 1)"
  by (simp add: user_memmove_def numeral_2_eq_2 wr8_def rd8_def)

section \<open>C strings\<close>

definition cstr_at :: "mem \<Rightarrow> int \<Rightarrow> byte list \<Rightarrow> bool" where
  "cstr_at m a s \<longleftrightarrow> 0 \<notin> set s \<and> (\<forall>i < length s. m (a + int i) = s ! i) \<and> m (a + int (length s)) = 0"

lemma cstr_at_Nil [simp]: "cstr_at m a [] \<longleftrightarrow> m a = 0"
  by (simp add: cstr_at_def)

lemma cstr_at_Cons: "cstr_at m a (c # s) \<longleftrightarrow> c \<noteq> 0 \<and> m a = c \<and> cstr_at m (a + 1) s"
  by (auto simp: cstr_at_def All_less_Suc2 algebra_simps)

lemma strlen_from_correct: "cstr_at m (a + n) s \<Longrightarrow> strlen_from m a n = Some (n + int (length s))"
proof (induction s arbitrary: n)
  case Nil
  then show ?case by (subst strlen_from.simps) (simp add: rd8_def)
next
  case (Cons c s)
  then show ?case using Cons.IH [of "n + 1"]
    by (subst strlen_from.simps) (simp add: rd8_def cstr_at_Cons add.assoc)
qed

lemma strlen_correct: "cstr_at m a s \<Longrightarrow> strlen m a = Some (int (length s))"
  using strlen_from_correct [of m a 0 s] by (simp add: strlen_def)

lemma strncmp_eq_0:
  assumes "cstr_at m p s" and "cstr_at m q t"
  shows "strncmp m p q n = 0 \<longleftrightarrow> take n s = take n t"
  using assms
proof (induction n arbitrary: p q s t)
  case (Suc n)
  show ?case
  proof (cases s; cases t)
    fix c s' d t' assume st: "s = c # s'" "t = d # t'"
    then show ?thesis using Suc.IH [of "p + 1" s' "q + 1" t'] Suc.prems
      by (auto simp: cstr_at_Cons rd8_def word_uint_eq_iff)
  qed (use Suc.prems in \<open>auto simp: cstr_at_Cons rd8_def unsigned_eq_0_iff\<close>)
qed simp

lemma safestrcpy_loop_bound:
  assumes "safestrcpy_loop m s t n = (m', s')"
  shows "s \<le> s' \<and> s' \<le> s + int n \<and> (\<forall>x. x < s \<or> s' \<le> x \<longrightarrow> m' x = m x)"
  using assms
proof (induction n arbitrary: m s t)
  case (Suc n)
  show ?case
  proof (cases "rd8 m t = 0")
    case True
    then show ?thesis using Suc.prems by (auto simp: wr8_def)
  next
    case False
    then have "safestrcpy_loop (wr8 m s (rd8 m t)) (s + 1) (t + 1) n = (m', s')" using Suc.prems by simp
    from Suc.IH [OF this] show ?thesis by (auto simp: wr8_def)
  qed
qed simp

text \<open>\<open>safestrcpy\<close> stays inside its buffer of \<open>n\<close> bytes and always leaves a terminated string there.\<close>

theorem safestrcpy_bounded:
  assumes "0 < n"
  shows "(\<forall>x. x < s \<or> s + n \<le> x \<longrightarrow> safestrcpy m s t n x = m x)
       \<and> (\<exists>k. 0 \<le> k \<and> k < n \<and> safestrcpy m s t n (s + k) = 0)"
proof -
  obtain m' s' where l: "safestrcpy_loop m s t (nat (n - 1)) = (m', s')" by (cases "safestrcpy_loop m s t (nat (n - 1))")
  then have r: "safestrcpy m s t n = wr8 m' s' 0" using assms by (simp add: safestrcpy_def)
  have b: "s \<le> s'" "s' \<le> s + (n - 1)" "\<forall>x. x < s \<or> s' \<le> x \<longrightarrow> m' x = m x"
    using safestrcpy_loop_bound [OF l] assms by auto
  have "\<forall>x. x < s \<or> s + n \<le> x \<longrightarrow> safestrcpy m s t n x = m x" using b by (auto simp: r wr8_def)
  moreover have "safestrcpy m s t n (s + (s' - s)) = 0" by (simp add: r wr8_def)
  ultimately show ?thesis using b assms by (intro conjI exI [of _ "s' - s"]) auto
qed

theorem safestrcpy_bounded_witness:
  "\<exists>k. 0 \<le> k \<and> k < (3::int) \<and> safestrcpy (\<lambda>_. 7) 100 0 3 (100 + k) = 0"
  using safestrcpy_bounded [of 3 100 "\<lambda>_. 7" 0] by simp

end
