(* ===== verification/Xv6_Kalloc.thy ===== *)
theory Xv6_Kalloc
  imports Xv6_String
begin

text \<open>
  The physical page allocator of xv6, \<open>hw09/unnas-hw09/xv6/kalloc.c\<close>, over the byte memory: the free
  pages are linked through their first word. Pointers are unsigned 32-bit addresses. A panic
  has no result. The end of the kernel image (\<open>end\<close>, set by the linker) is a parameter. Each
  operation is atomic (the lock, taken once \<open>use_lock\<close> is set). A step relation lets any number of users
  allocate, write to and free pages.
\<close>

section \<open>kalloc.c\<close>

definition rdptr :: "mem \<Rightarrow> int \<Rightarrow> int" where
  "rdptr m a = rd32 m a mod 4294967296"

abbreviation PGSIZE :: int where "PGSIZE \<equiv> 4096"
definition KERNBASE :: int where "KERNBASE = 2147483648"
definition PHYSTOP :: int where "PHYSTOP = 234881024"

definition V2P :: "int \<Rightarrow> int" where
  "V2P v = (v - KERNBASE) mod 4294967296"

definition PGROUNDUP :: "int \<Rightarrow> int" where
  "PGROUNDUP sz = (sz + PGSIZE - 1) mod 4294967296 div PGSIZE * PGSIZE"

record kmem =
  kmemory :: mem
  use_lock :: bool
  freelist :: int
  kend :: int

definition kfree :: "kmem \<Rightarrow> int \<Rightarrow> kmem option" where
  "kfree s v =
     (if v mod PGSIZE \<noteq> 0 \<or> v < kend s \<or> V2P v \<ge> PHYSTOP then None
      else Some (s\<lparr>kmemory := wr32 (memset (kmemory s) v 1 4096) v (freelist s), freelist := v\<rparr>))"

definition kalloc :: "kmem \<Rightarrow> kmem \<times> int" where
  "kalloc s =
     (let r = freelist s
      in if r \<noteq> 0 then (s\<lparr>freelist := rdptr (kmemory s) r\<rparr>, r) else (s, 0))"

function freerange_from :: "kmem \<Rightarrow> int \<Rightarrow> int \<Rightarrow> kmem option" where
  "freerange_from s p vend =
     (if p + PGSIZE \<le> vend then
        case kfree s p of None \<Rightarrow> None | Some s' \<Rightarrow> freerange_from s' (p + PGSIZE) vend
      else Some s)"
  by pat_completeness auto
termination by (relation "measure (\<lambda>(s, p, vend). nat (vend - p))") auto

declare freerange_from.simps [simp del]

definition freerange :: "kmem \<Rightarrow> int \<Rightarrow> int \<Rightarrow> kmem option" where
  "freerange s vstart vend = freerange_from s (PGROUNDUP vstart) vend"

definition kinit1 :: "kmem \<Rightarrow> int \<Rightarrow> int \<Rightarrow> kmem option" where
  "kinit1 s vstart vend = freerange (s\<lparr>use_lock := False\<rparr>) vstart vend"

definition kinit2 :: "kmem \<Rightarrow> int \<Rightarrow> int \<Rightarrow> kmem option" where
  "kinit2 s vstart vend = map_option (\<lambda>s. s\<lparr>use_lock := True\<rparr>) (freerange s vstart vend)"

section \<open>The free list\<close>

text \<open>An address that \<open>kfree\<close> accepts.\<close>

definition ram_page :: "int \<Rightarrow> int \<Rightarrow> bool" where
  "ram_page e v \<longleftrightarrow> v mod PGSIZE = 0 \<and> e \<le> v \<and> KERNBASE \<le> v \<and> v < KERNBASE + PHYSTOP"

fun run_list :: "mem \<Rightarrow> int \<Rightarrow> int list \<Rightarrow> bool" where
  "run_list m r [] \<longleftrightarrow> r = 0"
| "run_list m r (v # vs) \<longleftrightarrow> r = v \<and> v \<noteq> 0 \<and> run_list m (rdptr m v) vs"

definition in_page :: "int \<Rightarrow> int \<Rightarrow> bool" where
  "in_page v x \<longleftrightarrow> v \<le> x \<and> x < v + PGSIZE"

definition kmem_inv :: "kmem \<Rightarrow> int list \<Rightarrow> bool" where
  "kmem_inv s vs \<longleftrightarrow> run_list (kmemory s) (freelist s) vs \<and> distinct vs \<and> (\<forall>v \<in> set vs. ram_page (kend s) v)"

lemma in_page_unique:
  assumes "in_page v x" "in_page w x" "v mod PGSIZE = 0" "w mod PGSIZE = 0"
  shows "v = w"
proof -
  obtain i j where ij: "v = 4096 * i" "w = 4096 * j" using assms(3,4) by (auto elim!: dvdE simp: mod_eq_0_iff_dvd)
  have "i < j + 1" "j < i + 1" using assms(1,2) unfolding in_page_def ij by linarith+
  then show ?thesis using ij by simp
qed

lemma rdptr_cong: "(\<And>x. in_page v x \<Longrightarrow> m' x = m x) \<Longrightarrow> rdptr m' v = rdptr m v"
  unfolding rdptr_def using rd32_eq_on [of v m' m] by (simp add: in_page_def)

lemma run_list_cong:
  "run_list m r vs \<Longrightarrow> (\<And>v x. v \<in> set vs \<Longrightarrow> in_page v x \<Longrightarrow> m' x = m x) \<Longrightarrow> run_list m' r vs"
proof (induction vs arbitrary: r)
  case (Cons v vs)
  have "rdptr m' v = rdptr m v" using Cons.prems(2) [of v] by (intro rdptr_cong) simp
  moreover have "run_list m' (rdptr m v) vs"
    by (rule Cons.IH) (use Cons.prems in \<open>auto\<close>)
  ultimately show ?case using Cons.prems(1) by simp
qed simp

lemma V2P_ram: "KERNBASE \<le> v \<Longrightarrow> v < 4294967296 \<Longrightarrow> V2P v = v - KERNBASE"
  by (simp add: V2P_def KERNBASE_def)

lemma ram_page_accepted:
  assumes "ram_page (kend s) v"
  shows "kfree s v = Some (s\<lparr>kmemory := wr32 (memset (kmemory s) v 1 4096) v (freelist s), freelist := v\<rparr>)"
proof -
  have "v < 4294967296" using assms by (simp add: ram_page_def KERNBASE_def PHYSTOP_def)
  then have "V2P v < PHYSTOP" using assms V2P_ram [of v] by (simp add: ram_page_def)
  then show ?thesis using assms by (simp add: kfree_def ram_page_def)
qed

lemma rdptr_wr32: "0 \<le> p \<Longrightarrow> p < 4294967296 \<Longrightarrow> rdptr (wr32 m a p) a = p"
  by (simp add: rdptr_def mem_simps cint_mod_32)

lemma freelist_range:
  assumes "kmem_inv s vs"
  shows "0 \<le> freelist s \<and> freelist s < 4294967296"
  using assms by (cases vs) (auto simp: kmem_inv_def ram_page_def KERNBASE_def PHYSTOP_def)

lemma kfree_frame: "kfree s v = Some s' \<Longrightarrow> \<not> in_page v x \<Longrightarrow> kmemory s' x = kmemory s x"
  by (auto simp: kfree_def in_page_def memset_correct block_filled_def wr32_frame split: if_splits)

text \<open>Freeing a page that is not free puts exactly this page on the list.\<close>

lemma kfree_correct:
  assumes "kmem_inv s vs" and "ram_page (kend s) v" and "v \<notin> set vs"
  obtains s' where "kfree s v = Some s'" and "kmem_inv s' (v # vs)" and "kend s' = kend s"
    and "\<forall>x. \<not> in_page v x \<longrightarrow> kmemory s' x = kmemory s x"
proof -
  define s' where "s' = s\<lparr>kmemory := wr32 (memset (kmemory s) v 1 4096) v (freelist s), freelist := v\<rparr>"
  have k: "kfree s v = Some s'" using ram_page_accepted [OF assms(2)] by (simp add: s'_def)
  have fr: "\<forall>x. \<not> in_page v x \<longrightarrow> kmemory s' x = kmemory s x" using kfree_frame [OF k] by simp
  have "run_list (kmemory s') (freelist s) vs"
  proof (rule run_list_cong)
    show "run_list (kmemory s) (freelist s) vs" using assms(1) by (simp add: kmem_inv_def)
    fix w x assume w: "w \<in> set vs" "in_page w x"
    then have "w mod PGSIZE = 0" using assms(1) by (simp add: kmem_inv_def ram_page_def)
    then have "\<not> in_page v x" using in_page_unique [of v x w] w assms(2,3) by (auto simp: ram_page_def)
    then show "kmemory s' x = kmemory s x" using fr by simp
  qed
  moreover have "rdptr (kmemory s') v = freelist s"
    using freelist_range [OF assms(1)] by (simp add: s'_def rdptr_wr32)
  moreover have "v \<noteq> 0" using assms(2) by (auto simp: ram_page_def KERNBASE_def)
  ultimately have "kmem_inv s' (v # vs)" using assms by (simp add: kmem_inv_def s'_def)
  then show thesis using that k fr by (simp add: s'_def)
qed

lemma kalloc_correct:
  assumes "kmem_inv s vs" and "kalloc s = (s', r)"
  shows "(vs = [] \<and> r = 0 \<and> s' = s) \<or> (\<exists>ws. vs = r # ws \<and> r \<noteq> 0 \<and> kmem_inv s' ws \<and> kmemory s' = kmemory s \<and> kend s' = kend s)"
proof (cases vs)
  case Nil
  then show ?thesis using assms by (simp add: kmem_inv_def kalloc_def)
next
  case (Cons v ws)
  then show ?thesis using assms by (auto simp: kmem_inv_def kalloc_def)
qed

lemma freerange_correct:
  assumes "kmem_inv s vs" and "p mod PGSIZE = 0" and "kend s \<le> p" and "KERNBASE \<le> p"
    and "vend \<le> KERNBASE + PHYSTOP" and "\<forall>v \<in> set vs. v < p"
  shows "\<exists>s' ws. freerange_from s p vend = Some s' \<and> kmem_inv s' (ws @ vs)
       \<and> set ws = {v. v mod PGSIZE = 0 \<and> p \<le> v \<and> v + PGSIZE \<le> vend} \<and> kend s' = kend s"
  using assms
proof (induction "nat (vend - p)" arbitrary: s p vs rule: less_induct)
  case less
  show ?case
  proof (cases "p + PGSIZE \<le> vend")
    case False
    then have "{v. v mod PGSIZE = 0 \<and> p \<le> v \<and> v + PGSIZE \<le> vend} = {}" by auto
    moreover have "freerange_from s p vend = Some s" using False by (subst freerange_from.simps) simp
    ultimately show ?thesis using less.prems(1) by (intro exI [of _ s] exI [of _ "[]"]) simp
  next
    case True
    have "ram_page (kend s) p" using less.prems True by (simp add: ram_page_def)
    moreover have "p \<notin> set vs" using less.prems(6) by auto
    ultimately obtain t where t: "kfree s p = Some t" "kmem_inv t (p # vs)" "kend t = kend s"
      using kfree_correct [OF less.prems(1)] by metis
    have below: "\<forall>v \<in> set (p # vs). v < p + PGSIZE" using less.prems(6) by auto
    obtain s' ws where ih: "freerange_from t (p + PGSIZE) vend = Some s'" "kmem_inv s' (ws @ p # vs)"
      "set ws = {v. v mod PGSIZE = 0 \<and> p + PGSIZE \<le> v \<and> v + PGSIZE \<le> vend}" "kend s' = kend s"
      using less.hyps [of "p + PGSIZE" t "p # vs"] less.prems(2-5) t True below by (auto simp: mod_add_self2)
    have next_page: "v = p \<or> p + PGSIZE \<le> v" if "p \<le> v" "v mod PGSIZE = 0" for v
      using less.prems(2) in_page_unique [of v v p] that by (auto simp: in_page_def)
    have "{v. v mod PGSIZE = 0 \<and> p \<le> v \<and> v + PGSIZE \<le> vend} = set (ws @ [p])"
      using less.prems(2) True by (auto simp: ih(3) dest!: next_page)
    moreover have "freerange_from s p vend = Some s'" using True t(1) ih(1) by (subst freerange_from.simps) simp
    ultimately show ?thesis using ih(2,4) by (intro exI [of _ s'] exI [of _ "ws @ [p]"]) simp
  qed
qed

section \<open>Users of the allocator\<close>

text \<open>
  The state is the allocator with the set of pages that are in use. A user writes to pages
  it has, and frees pages it has.
\<close>

inductive kmem_step :: "kmem \<times> int set \<Rightarrow> kmem \<times> int set \<Rightarrow> bool" where
  allocates: "kalloc s = (s', r) \<Longrightarrow> r \<noteq> 0 \<Longrightarrow> kmem_step (s, live) (s', insert r live)"
| fails: "kalloc s = (s', 0) \<Longrightarrow> kmem_step (s, live) (s', live)"
| frees: "v \<in> live \<Longrightarrow> kfree s v = Some s' \<Longrightarrow> kmem_step (s, live) (s', live - {v})"
| user_writes: "v \<in> live \<Longrightarrow> in_page v x \<Longrightarrow> kmem_step (s, live) (s\<lparr>kmemory := wr8 (kmemory s) x b\<rparr>, live)"

definition pages_inv :: "int set \<Rightarrow> kmem \<times> int set \<Rightarrow> bool" where
  "pages_inv all = (\<lambda>(s, live). \<exists>vs. kmem_inv s vs \<and> set vs \<inter> live = {} \<and> set vs \<union> live = all
     \<and> (\<forall>v \<in> all. ram_page (kend s) v))"

lemma pages_invI:
  "kmem_inv s vs \<Longrightarrow> set vs \<inter> live = {} \<Longrightarrow> set vs \<union> live = all \<Longrightarrow> \<forall>v \<in> all. ram_page (kend s) v \<Longrightarrow> pages_inv all (s, live)"
  unfolding pages_inv_def by blast

lemma pages_inv_step: "kmem_step x y \<Longrightarrow> pages_inv all x \<Longrightarrow> pages_inv all y"
proof (induction rule: kmem_step.induct)
  case (allocates s s' r live)
  then obtain vs where vs: "kmem_inv s vs" "set vs \<inter> live = {}" "set vs \<union> live = all" "\<forall>v \<in> all. ram_page (kend s) v"
    unfolding pages_inv_def by blast
  then obtain ws where ws: "vs = r # ws" "kmem_inv s' ws" "kend s' = kend s"
    using kalloc_correct [OF vs(1) allocates.hyps(1)] allocates.hyps(2) by auto
  have "r \<notin> set ws" using vs(1) ws(1) by (simp add: kmem_inv_def)
  then show ?case using ws vs by (intro pages_invI [of s' ws]) auto
next
  case (fails s s' live)
  then obtain vs where vs: "kmem_inv s vs" "set vs \<inter> live = {}" "set vs \<union> live = all" "\<forall>v \<in> all. ram_page (kend s) v"
    unfolding pages_inv_def by blast
  then have "s' = s" using kalloc_correct [OF vs(1) fails.hyps] by auto
  then show ?case using fails.prems by simp
next
  case (frees v live s s')
  then obtain vs where vs: "kmem_inv s vs" "set vs \<inter> live = {}" "set vs \<union> live = all" "\<forall>v \<in> all. ram_page (kend s) v"
    unfolding pages_inv_def by blast
  then have v: "ram_page (kend s) v" "v \<notin> set vs" using frees.hyps(1) by auto
  obtain t where "kfree s v = Some t" "kmem_inv t (v # vs)" "kend t = kend s"
    using kfree_correct [OF vs(1) v] by metis
  then have "kmem_inv s' (v # vs)" "kend s' = kend s" using frees.hyps(2) by auto
  then show ?case using vs frees.hyps(1) by (intro pages_invI [of s' "v # vs"]) auto
next
  case (user_writes v live x s b)
  then obtain vs where vs: "kmem_inv s vs" "set vs \<inter> live = {}" "set vs \<union> live = all" "\<forall>v \<in> all. ram_page (kend s) v"
    unfolding pages_inv_def by blast
  have "run_list (wr8 (kmemory s) x b) (freelist s) vs"
  proof (rule run_list_cong)
    show "run_list (kmemory s) (freelist s) vs" using vs(1) by (simp add: kmem_inv_def)
    fix w y assume w: "w \<in> set vs" "in_page w y"
    then have "w \<noteq> v" "w mod PGSIZE = 0" "v mod PGSIZE = 0" using vs user_writes.hyps(1) by (auto simp: ram_page_def)
    then have "y \<noteq> x" using in_page_unique [of v x w] user_writes.hyps(2) w by auto
    then show "wr8 (kmemory s) x b y = kmemory s y" by (simp add: wr8_def)
  qed
  then have "kmem_inv (s\<lparr>kmemory := wr8 (kmemory s) x b\<rparr>) vs" using vs(1) by (simp add: kmem_inv_def)
  then show ?case by (rule pages_invI) (use vs in auto)
qed

lemma pages_inv_reach: "kmem_step\<^sup>*\<^sup>* x y \<Longrightarrow> pages_inv all x \<Longrightarrow> pages_inv all y"
  by (induction rule: rtranclp_induct) (auto intro: pages_inv_step)

definition P2V4M :: int where "P2V4M = KERNBASE + 4 * 1024 * 1024"

text \<open>The pages of a range whose start need not be aligned.\<close>

definition pages_in :: "int \<Rightarrow> int \<Rightarrow> int set" where
  "pages_in a z = {v. v mod PGSIZE = 0 \<and> a \<le> v \<and> v + PGSIZE \<le> z}"

lemma PGROUNDUP_least:
  assumes "0 \<le> a" and "a + PGSIZE \<le> 4294967296"
  shows "PGROUNDUP a mod PGSIZE = 0" and "a \<le> PGROUNDUP a" and "pages_in (PGROUNDUP a) z = pages_in a z"
proof -
  define q where "q = (a + 4095) div 4096"
  have q: "4096 * q \<le> a + 4095" "a \<le> 4096 * q"
    unfolding q_def using mult_div_mod_eq [of 4096 "a + 4095"] pos_mod_bound [of 4096 "a + 4095"] pos_mod_sign [of 4096 "a + 4095"] by linarith+
  have up: "PGROUNDUP a = 4096 * q" using assms by (simp add: PGROUNDUP_def q_def)
  show "PGROUNDUP a mod PGSIZE = 0" "a \<le> PGROUNDUP a" using q(2) by (simp_all add: up)
  have "4096 * q \<le> v \<longleftrightarrow> a \<le> v" if al: "v mod PGSIZE = 0" for v
  proof -
    obtain k where k: "v = 4096 * k" using al by (auto elim!: dvdE simp: mod_eq_0_iff_dvd)
    show ?thesis
    proof
      assume "a \<le> v"
      then have "q < k + 1" using q(1) k by simp
      then show "4096 * q \<le> v" using k by simp
    qed (use q in linarith)
  qed
  then show "pages_in (PGROUNDUP a) z = pages_in a z" by (auto simp: pages_in_def up)
qed

lemma freerange_pages:
  assumes "kmem_inv s vs" and "kend s \<le> a" and "KERNBASE \<le> a" and "a + PGSIZE \<le> 4294967296"
    and "z \<le> KERNBASE + PHYSTOP" and "\<forall>v \<in> set vs. v < a"
  shows "\<exists>s' ws. freerange s a z = Some s' \<and> kmem_inv s' (ws @ vs) \<and> set ws = pages_in a z \<and> kend s' = kend s"
proof -
  have "0 \<le> a" using assms(3) by (simp add: KERNBASE_def)
  note up = PGROUNDUP_least [OF this assms(4)]
  have "\<forall>v \<in> set vs. v < PGROUNDUP a" using assms(6) up(2) by fastforce
  then show ?thesis using freerange_correct [OF assms(1) up(1) _ _ assms(5)] assms(2,3) up(2,3)
    unfolding freerange_def by (auto simp: pages_in_def)
qed

lemma pages_inv_kend: "kmem_step\<^sup>*\<^sup>* x y \<Longrightarrow> pages_inv all x \<Longrightarrow> kend (fst y) = kend (fst x)"
proof (induction rule: rtranclp_induct)
  case (step y z)
  have "kend (fst z) = kend (fst y)"
    using step(2) by (induction rule: kmem_step.induct) (auto simp: kalloc_def kfree_def Let_def split: if_splits)
  then show ?case using step by simp
qed simp

text \<open>C22: The page allocator from boot on, for every end \<open>end\<close> of the kernel image below 4 MB: \<open>kinit1(end, P2V(4 MB))\<close> and later, with pages
  in use by then, \<open>kinit2(P2V(4 MB), P2V(PHYSTOP))\<close> return, and whatever the users do with the pages they have, before and after, the free list and
  the pages in use partition the whole pages between \<open>end\<close> and the end of memory: \<open>kalloc\<close> never hands out a page that is in use, and returns 0
  only when every page is.\<close>

theorem kalloc_fresh_page:
  assumes "freelist s0 = 0" and "KERNBASE \<le> kend s0" and "kend s0 \<le> P2V4M"
  shows "\<exists>s1. kinit1 s0 (kend s0) P2V4M = Some s1 \<and> (\<forall>s2 live2. kmem_step\<^sup>*\<^sup>* (s1, {}) (s2, live2) \<longrightarrow>
     (\<exists>s3. kinit2 s2 P2V4M (KERNBASE + PHYSTOP) = Some s3 \<and> (\<forall>s live s' r. kmem_step\<^sup>*\<^sup>* (s3, live2) (s, live) \<longrightarrow> kalloc s = (s', r) \<longrightarrow>
        (if r = 0 then live = pages_in (kend s0) (KERNBASE + PHYSTOP) else r \<notin> live \<and> r \<in> pages_in (kend s0) (KERNBASE + PHYSTOP)))))"
proof -
  let ?e = "kend s0" and ?top = "KERNBASE + PHYSTOP"
  let ?low = "pages_in ?e P2V4M" and ?all = "pages_in ?e ?top"
  have inv0: "kmem_inv (s0\<lparr>use_lock := False\<rparr>) []" using assms(1) by (simp add: kmem_inv_def)
  obtain s1 ws where s1: "kinit1 s0 ?e P2V4M = Some s1" "kmem_inv s1 ws" "set ws = ?low" "kend s1 = ?e"
    using freerange_pages [OF inv0, of ?e P2V4M] assms(2,3) by (auto simp: kinit1_def P2V4M_def KERNBASE_def PHYSTOP_def)
  have p1: "pages_inv ?low (s1, {})" by (rule pages_invI [of _ ws]) (use s1 in \<open>auto simp: kmem_inv_def\<close>)
  show ?thesis
  proof (rule exI [of _ s1], rule conjI, rule s1(1), intro allI impI)
    fix s2 live2
    assume st: "kmem_step\<^sup>*\<^sup>* (s1, {}) (s2, live2)"
    obtain vs where vs: "kmem_inv s2 vs" "set vs \<inter> live2 = {}" "set vs \<union> live2 = ?low" "\<forall>v \<in> ?low. ram_page (kend s2) v"
      using pages_inv_reach [OF st p1] by (auto simp: pages_inv_def)
    have e2: "kend s2 = ?e" using pages_inv_kend [OF st p1] s1(4) by simp
    have "set vs \<subseteq> ?low" using vs(3) by blast
    then have below: "\<forall>v \<in> set vs. v < P2V4M" by (force simp: pages_in_def)
    obtain t us where t: "freerange s2 P2V4M ?top = Some t" "kmem_inv t (us @ vs)" "set us = pages_in P2V4M ?top" "kend t = ?e"
      using freerange_pages [OF vs(1), of P2V4M ?top] below assms(3) e2 by (auto simp: P2V4M_def KERNBASE_def PHYSTOP_def)
    have k2: "kinit2 s2 P2V4M ?top = Some (t\<lparr>use_lock := True\<rparr>)" using t(1) by (simp add: kinit2_def)
    have un: "?low \<union> pages_in P2V4M ?top = ?all" "?low \<inter> pages_in P2V4M ?top = {}"
    proof -
      have "v + PGSIZE \<le> P2V4M" if al: "v mod PGSIZE = 0" and lt: "v < P2V4M" for v
      proof -
        obtain k where "v = 4096 * k" using al by (auto elim!: dvdE simp: mod_eq_0_iff_dvd)
        then show ?thesis using lt by (simp add: P2V4M_def KERNBASE_def)
      qed
      then show "?low \<union> pages_in P2V4M ?top = ?all" using assms(3) by (force simp: pages_in_def P2V4M_def PHYSTOP_def)
      show "?low \<inter> pages_in P2V4M ?top = {}" by (auto simp: pages_in_def)
    qed
    have sets: "set (us @ vs) \<inter> live2 = {}" "set (us @ vs) \<union> live2 = ?all" using t(3) vs(2,3) un by auto
    have ram: "\<forall>v \<in> ?all. ram_page ?e v" using assms(2) by (auto simp: pages_in_def ram_page_def)
    have kt: "kmem_inv (t\<lparr>use_lock := True\<rparr>) (us @ vs)" using t(2) by (simp add: kmem_inv_def)
    have p3: "pages_inv ?all (t\<lparr>use_lock := True\<rparr>, live2)" by (rule pages_invI [OF kt sets]) (use ram t(4) in simp)
    have "if r = 0 then live = ?all else r \<notin> live \<and> r \<in> ?all" if st3: "kmem_step\<^sup>*\<^sup>* (t\<lparr>use_lock := True\<rparr>, live2) (s, live)" and k: "kalloc s = (s', r)" for s live s' r
    proof -
      obtain xs where xs: "kmem_inv s xs" "set xs \<inter> live = {}" "set xs \<union> live = ?all" using pages_inv_reach [OF st3 p3] by (auto simp: pages_inv_def)
      show ?thesis using kalloc_correct [OF xs(1) k] xs(2,3) by auto
    qed
    with k2 show "\<exists>s3. kinit2 s2 P2V4M ?top = Some s3 \<and> (\<forall>s live s' r. kmem_step\<^sup>*\<^sup>* (s3, live2) (s, live) \<longrightarrow> kalloc s = (s', r) \<longrightarrow>
        (if r = 0 then live = ?all else r \<notin> live \<and> r \<in> ?all))" by blast
  qed
qed

text \<open>A kernel image that ends in the middle of a page.\<close>

definition boot_kmem :: kmem where
  "boot_kmem = \<lparr>kmemory = (\<lambda>_. 0), use_lock = False, freelist = 0, kend = 2148582200\<rparr>"

theorem kalloc_fresh_page_witness:
  "\<exists>s1 s3 s' r. kinit1 boot_kmem 2148582200 P2V4M = Some s1 \<and> kinit2 s1 P2V4M (KERNBASE + PHYSTOP) = Some s3 \<and> kalloc s3 = (s', r)
     \<and> r \<in> pages_in 2148582200 (KERNBASE + PHYSTOP)"
proof -
  have b: "freelist boot_kmem = 0" "KERNBASE \<le> kend boot_kmem" "kend boot_kmem \<le> P2V4M" "kend boot_kmem = 2148582200"
    by (simp_all add: boot_kmem_def KERNBASE_def P2V4M_def)
  obtain s1 where s1: "kinit1 boot_kmem 2148582200 P2V4M = Some s1" and k: "\<forall>s2 live2. kmem_step\<^sup>*\<^sup>* (s1, {}) (s2, live2) \<longrightarrow>
     (\<exists>s3. kinit2 s2 P2V4M (KERNBASE + PHYSTOP) = Some s3 \<and> (\<forall>s live s' r. kmem_step\<^sup>*\<^sup>* (s3, live2) (s, live) \<longrightarrow> kalloc s = (s', r) \<longrightarrow>
        (if r = 0 then live = pages_in 2148582200 (KERNBASE + PHYSTOP) else r \<notin> live \<and> r \<in> pages_in 2148582200 (KERNBASE + PHYSTOP))))"
    using kalloc_fresh_page [OF b(1-3)] unfolding b(4) by blast
  from k [rule_format, OF rtranclp.rtrancl_refl] obtain s3 where s3: "kinit2 s1 P2V4M (KERNBASE + PHYSTOP) = Some s3" and l: "\<forall>s live s' r. kmem_step\<^sup>*\<^sup>* (s3, {}) (s, live) \<longrightarrow>
      kalloc s = (s', r) \<longrightarrow> (if r = 0 then live = pages_in 2148582200 (KERNBASE + PHYSTOP) else r \<notin> live \<and> r \<in> pages_in 2148582200 (KERNBASE + PHYSTOP))" by blast
  obtain s' r where kr: "kalloc s3 = (s', r)" by (cases "kalloc s3")
  have "2148585472 \<in> pages_in 2148582200 (KERNBASE + PHYSTOP)" by (simp add: pages_in_def KERNBASE_def PHYSTOP_def)
  moreover have "if r = 0 then {} = pages_in 2148582200 (KERNBASE + PHYSTOP) else r \<notin> {} \<and> r \<in> pages_in 2148582200 (KERNBASE + PHYSTOP)"
    using l kr by blast
  ultimately have "r \<in> pages_in 2148582200 (KERNBASE + PHYSTOP)" by (metis empty_iff)
  then show ?thesis using s1 s3 kr by (intro exI conjI)
qed

end
