(* ===== verification/Xv6_Vm.thy ===== *)
theory Xv6_Vm
  imports Xv6_Kalloc
begin

text \<open>
  Page tables of xv6, \<open>hw09/unnas-hw09/xv6/vm.c\<close>, in the byte memory of the page allocator (\<open>Xv6_Kalloc\<close>): a page directory
  and its page tables are pages with 1024 little-endian entries of four bytes. Addresses are unsigned 32-bit numbers and wrap. A
  panic, and a dereferenced null pointer, have no result; nor has a loop that does not end, the loops that step through
  addresses being partial functions. The content of a file (\<open>readi\<close>) and the address \<open>data\<close> that the linker sets are
  parameters. Segment registers and the switch of the page table register are not modelled.
\<close>

section \<open>mmu.h and memlayout.h\<close>

abbreviation uint32 :: "int \<Rightarrow> int" where "uint32 v \<equiv> v mod 4294967296"

definition PDX :: "int \<Rightarrow> int" where "PDX va = va div 4194304 mod 1024"
definition PTX :: "int \<Rightarrow> int" where "PTX va = va div 4096 mod 1024"
definition PGADDR :: "int \<Rightarrow> int \<Rightarrow> int \<Rightarrow> int" where "PGADDR d t off = uint32 (push_bit 22 d OR push_bit 12 t OR off)"
definition PGROUNDDOWN :: "int \<Rightarrow> int" where "PGROUNDDOWN a = a div PGSIZE * PGSIZE"

abbreviation PTE_P :: int where "PTE_P \<equiv> 1"
abbreviation PTE_W :: int where "PTE_W \<equiv> 2"
abbreviation PTE_U :: int where "PTE_U \<equiv> 4"

definition PTE_ADDR :: "int \<Rightarrow> int" where "PTE_ADDR e = e div 4096 * 4096"
definition PTE_FLAGS :: "int \<Rightarrow> int" where "PTE_FLAGS e = e mod 4096"

definition EXTMEM :: int where "EXTMEM = 1048576"
definition DEVSPACE :: int where "DEVSPACE = 4261412864"
definition KERNLINK :: int where "KERNLINK = KERNBASE + EXTMEM"

definition P2V :: "int \<Rightarrow> int" where "P2V a = uint32 (a + KERNBASE)"

section \<open>vm.c\<close>

definition set_mem :: "kmem \<Rightarrow> mem \<Rightarrow> kmem" where
  "set_mem s m = s\<lparr>kmemory := m\<rparr>"

definition walkpgdir :: "kmem \<Rightarrow> int \<Rightarrow> int \<Rightarrow> bool \<Rightarrow> kmem \<times> int" where
  "walkpgdir s pgdir va alloc =
     (let pde = pgdir + 4 * PDX va;
          e = rdptr (kmemory s) pde
      in if e AND PTE_P \<noteq> 0 then (s, P2V (PTE_ADDR e) + 4 * PTX va)
         else if \<not> alloc then (s, 0)
         else case kalloc s of (s, pgtab) \<Rightarrow>
           if pgtab = 0 then (s, 0)
           else (set_mem s (wr32 (memset (kmemory s) pgtab 0 4096) pde (V2P pgtab OR PTE_P OR PTE_W OR PTE_U)),
                 pgtab + 4 * PTX va))"

partial_function (option) mappages_from :: "kmem \<Rightarrow> int \<Rightarrow> int \<Rightarrow> int \<Rightarrow> int \<Rightarrow> int \<Rightarrow> (kmem \<times> int) option" where
  "mappages_from s pgdir a lst pa perm =
     (case walkpgdir s pgdir a True of (s, pte) \<Rightarrow>
        if pte = 0 then Some (s, - 1)
        else if rdptr (kmemory s) pte AND PTE_P \<noteq> 0 then None
        else
          let s = set_mem s (wr32 (kmemory s) pte (pa OR perm OR PTE_P))
          in if a = lst then Some (s, 0)
             else mappages_from s pgdir (uint32 (a + PGSIZE)) lst (uint32 (pa + PGSIZE)) perm)"

definition mappages :: "kmem \<Rightarrow> int \<Rightarrow> int \<Rightarrow> int \<Rightarrow> int \<Rightarrow> int \<Rightarrow> (kmem \<times> int) option" where
  "mappages s pgdir va sz pa perm =
     mappages_from s pgdir (PGROUNDDOWN va) (PGROUNDDOWN (uint32 (va + sz - 1))) pa perm"

partial_function (option) deallocuvm_from :: "kmem \<Rightarrow> int \<Rightarrow> int \<Rightarrow> int \<Rightarrow> kmem option" where
  "deallocuvm_from s pgdir a oldsz =
     (if a < oldsz then
        case walkpgdir s pgdir a False of (s, pte) \<Rightarrow>
          if pte = 0 then deallocuvm_from s pgdir (PGADDR (PDX a + 1) 0 0) oldsz
          else
            let e = rdptr (kmemory s) pte
            in if e AND PTE_P \<noteq> 0 then
                 if PTE_ADDR e = 0 then None
                 else
                   case kfree s (P2V (PTE_ADDR e)) of
                     None \<Rightarrow> None
                   | Some s \<Rightarrow> deallocuvm_from (set_mem s (wr32 (kmemory s) pte 0)) pgdir (uint32 (a + PGSIZE)) oldsz
               else deallocuvm_from s pgdir (uint32 (a + PGSIZE)) oldsz
      else Some s)"

definition deallocuvm :: "kmem \<Rightarrow> int \<Rightarrow> int \<Rightarrow> int \<Rightarrow> (kmem \<times> int) option" where
  "deallocuvm s pgdir oldsz newsz =
     (if newsz \<ge> oldsz then Some (s, oldsz)
      else map_option (\<lambda>s. (s, newsz)) (deallocuvm_from s pgdir (PGROUNDUP newsz) oldsz))"

fun free_tables :: "kmem \<Rightarrow> int \<Rightarrow> nat list \<Rightarrow> kmem option" where
  "free_tables s pgdir [] = Some s"
| "free_tables s pgdir (i # js) =
     (let e = rdptr (kmemory s) (pgdir + 4 * int i)
      in if e AND PTE_P \<noteq> 0 then
           case kfree s (P2V (PTE_ADDR e)) of None \<Rightarrow> None | Some s \<Rightarrow> free_tables s pgdir js
         else free_tables s pgdir js)"

definition freevm :: "kmem \<Rightarrow> int \<Rightarrow> kmem option" where
  "freevm s pgdir =
     (if pgdir = 0 then None
      else
        do { (s, _) \<leftarrow> deallocuvm s pgdir KERNBASE 0;
             s \<leftarrow> free_tables s pgdir [0..<1024];
             kfree s pgdir })"

definition kmap :: "int \<Rightarrow> (int \<times> int \<times> int \<times> int) list" where
  "kmap data =
     [(KERNBASE, 0, EXTMEM, PTE_W),
      (KERNLINK, V2P KERNLINK, V2P data, 0),
      (data, V2P data, PHYSTOP, PTE_W),
      (DEVSPACE, DEVSPACE, 0, PTE_W)]"

fun map_kernel :: "kmem \<Rightarrow> int \<Rightarrow> (int \<times> int \<times> int \<times> int) list \<Rightarrow> (kmem \<times> int) option" where
  "map_kernel s pgdir [] = Some (s, pgdir)"
| "map_kernel s pgdir ((virt, phys_start, phys_end, perm) # ks) =
     do { (s, r) \<leftarrow> mappages s pgdir virt (uint32 (phys_end - phys_start)) phys_start perm;
          if r < 0 then map_option (\<lambda>s. (s, 0)) (freevm s pgdir) else map_kernel s pgdir ks }"

definition setupkvm :: "int \<Rightarrow> kmem \<Rightarrow> (kmem \<times> int) option" where
  "setupkvm data s =
     (case kalloc s of (s, pgdir) \<Rightarrow>
        if pgdir = 0 then Some (s, 0)
        else if P2V PHYSTOP > DEVSPACE then None
        else map_kernel (set_mem s (memset (kmemory s) pgdir 0 4096)) pgdir (kmap data))"

definition inituvm :: "kmem \<Rightarrow> int \<Rightarrow> int \<Rightarrow> int \<Rightarrow> kmem option" where
  "inituvm s pgdir init sz =
     (if sz \<ge> PGSIZE then None
      else case kalloc s of (s, mm) \<Rightarrow>
        if mm = 0 then None
        else
          do { (s, _) \<leftarrow> mappages (set_mem s (memset (kmemory s) mm 0 4096)) pgdir 0 PGSIZE (V2P mm) (PTE_W OR PTE_U);
               Some (set_mem s (memmove (kmemory s) mm init (nat sz))) })"

partial_function (option) loaduvm_from ::
  "(mem \<Rightarrow> int \<Rightarrow> int \<Rightarrow> int \<Rightarrow> mem \<times> int) \<Rightarrow> kmem \<Rightarrow> int \<Rightarrow> int \<Rightarrow> int \<Rightarrow> int \<Rightarrow> int \<Rightarrow> (kmem \<times> int) option" where
  "loaduvm_from readi s pgdir addr offset sz i =
     (if i < sz then
        case walkpgdir s pgdir (uint32 (addr + i)) False of (s, pte) \<Rightarrow>
          if pte = 0 then None
          else
            let pa = PTE_ADDR (rdptr (kmemory s) pte);
                n = (if sz - i < PGSIZE then sz - i else PGSIZE)
            in case readi (kmemory s) (P2V pa) (uint32 (offset + i)) n of (m, r) \<Rightarrow>
                 if r \<noteq> n then Some (set_mem s m, - 1)
                 else loaduvm_from readi (set_mem s m) pgdir addr offset sz (uint32 (i + PGSIZE))
      else Some (s, 0))"

definition loaduvm ::
  "(mem \<Rightarrow> int \<Rightarrow> int \<Rightarrow> int \<Rightarrow> mem \<times> int) \<Rightarrow> kmem \<Rightarrow> int \<Rightarrow> int \<Rightarrow> int \<Rightarrow> int \<Rightarrow> (kmem \<times> int) option" where
  "loaduvm readi s pgdir addr offset sz =
     (if addr mod PGSIZE \<noteq> 0 then None else loaduvm_from readi s pgdir addr offset sz 0)"

partial_function (option) allocuvm_from :: "kmem \<Rightarrow> int \<Rightarrow> int \<Rightarrow> int \<Rightarrow> int \<Rightarrow> (kmem \<times> int) option" where
  "allocuvm_from s pgdir oldsz newsz a =
     (if a < newsz then
        case kalloc s of (s, mm) \<Rightarrow>
          if mm = 0 then map_option (\<lambda>(s, _). (s, 0)) (deallocuvm s pgdir newsz oldsz)
          else
            do { (s, r) \<leftarrow> mappages (set_mem s (memset (kmemory s) mm 0 4096)) pgdir a PGSIZE (V2P mm) (PTE_W OR PTE_U);
                 if r < 0 then
                   do { (s, _) \<leftarrow> deallocuvm s pgdir newsz oldsz;
                        map_option (\<lambda>s. (s, 0)) (kfree s mm) }
                 else allocuvm_from s pgdir oldsz newsz (uint32 (a + PGSIZE)) }
      else Some (s, newsz))"

definition allocuvm :: "kmem \<Rightarrow> int \<Rightarrow> int \<Rightarrow> int \<Rightarrow> (kmem \<times> int) option" where
  "allocuvm s pgdir oldsz newsz =
     (if newsz \<ge> KERNBASE then Some (s, 0)
      else if newsz < oldsz then Some (s, oldsz)
      else allocuvm_from s pgdir oldsz newsz (PGROUNDUP oldsz))"

definition clearpteu :: "kmem \<Rightarrow> int \<Rightarrow> int \<Rightarrow> kmem option" where
  "clearpteu s pgdir uva =
     (case walkpgdir s pgdir uva False of (s, pte) \<Rightarrow>
        if pte = 0 then None
        else Some (set_mem s (wr32 (kmemory s) pte (rdptr (kmemory s) pte AND NOT PTE_U))))"

partial_function (option) copyuvm_from :: "kmem \<Rightarrow> int \<Rightarrow> int \<Rightarrow> int \<Rightarrow> int \<Rightarrow> (kmem \<times> int) option" where
  "copyuvm_from s pgdir d sz i =
     (if i < sz then
        case walkpgdir s pgdir i False of (s, pte) \<Rightarrow>
          if pte = 0 then None
          else
            let e = rdptr (kmemory s) pte
            in if e AND PTE_P = 0 then None
               else case kalloc s of (s, mm) \<Rightarrow>
                 if mm = 0 then map_option (\<lambda>s. (s, 0)) (freevm s d)
                 else
                   do { (s, r) \<leftarrow> mappages (set_mem s (memmove (kmemory s) mm (P2V (PTE_ADDR e)) 4096)) d i PGSIZE (V2P mm) (PTE_FLAGS e);
                        if r < 0 then do { s \<leftarrow> kfree s mm; map_option (\<lambda>s. (s, 0)) (freevm s d) }
                        else copyuvm_from s pgdir d sz (uint32 (i + PGSIZE)) }
      else Some (s, d))"

definition copyuvm :: "int \<Rightarrow> kmem \<Rightarrow> int \<Rightarrow> int \<Rightarrow> (kmem \<times> int) option" where
  "copyuvm data s pgdir sz =
     do { (s, d) \<leftarrow> setupkvm data s;
          if d = 0 then Some (s, 0) else copyuvm_from s pgdir d sz 0 }"

definition uva2ka :: "kmem \<Rightarrow> int \<Rightarrow> int \<Rightarrow> int option" where
  "uva2ka s pgdir uva =
     (case walkpgdir s pgdir uva False of (s, pte) \<Rightarrow>
        if pte = 0 then None
        else
          let e = rdptr (kmemory s) pte
          in if e AND PTE_P = 0 then Some 0
             else if e AND PTE_U = 0 then Some 0
             else Some (P2V (PTE_ADDR e)))"

function copyout :: "kmem \<Rightarrow> int \<Rightarrow> int \<Rightarrow> int \<Rightarrow> nat \<Rightarrow> (kmem \<times> int) option" where
  "copyout s pgdir va buf len =
     (if len > 0 then
        let va0 = PGROUNDDOWN va
        in do { pa0 \<leftarrow> uva2ka s pgdir va0;
                if pa0 = 0 then Some (s, - 1)
                else
                  let n = (if nat (PGSIZE - (va - va0)) > len then len else nat (PGSIZE - (va - va0)))
                  in copyout (set_mem s (memmove (kmemory s) (pa0 + (va - va0)) buf n)) pgdir (uint32 (va0 + PGSIZE)) (buf + int n) (len - n) }
      else Some (s, 0))"
  by pat_completeness auto
termination
  by (relation "measure (\<lambda>(s, pgdir, va, buf, len). len)")
    (auto simp: PGROUNDDOWN_def Let_def minus_div_mult_eq_mod [symmetric] less_diff_eq)

declare copyout.simps [simp del]

section \<open>Entries\<close>

lemma and_1: "(e AND 1 = 0) = even (e::int)" "(e AND 1 \<noteq> 0) = odd e"
  by (auto simp: and_one_eq odd_iff_mod_2_eq_one)

lemma rdptr_range: "0 \<le> rdptr m a \<and> rdptr m a < 4294967296"
  by (simp add: rdptr_def)

text \<open>The page of an address is determined; an entry lies in its page.\<close>

definition same_page :: "mem \<Rightarrow> mem \<Rightarrow> int \<Rightarrow> bool" where
  "same_page m m' p \<longleftrightarrow> (\<forall>x. in_page p x \<longrightarrow> m' x = m x)"

definition same_pages :: "mem \<Rightarrow> mem \<Rightarrow> int set \<Rightarrow> bool" where
  "same_pages m m' X \<longleftrightarrow> (\<forall>p. p mod PGSIZE = 0 \<longrightarrow> p \<notin> X \<longrightarrow> same_page m m' p)"

lemma rdptr_same: "same_page m m' p \<Longrightarrow> 0 \<le> i \<Longrightarrow> i < 1024 \<Longrightarrow> rdptr m' (p + 4 * i) = rdptr m (p + 4 * i)"
  unfolding rdptr_def using rd32_eq_on [of "p + 4 * i" m' m] by (simp add: same_page_def in_page_def)

lemma same_page_refl [simp]: "same_page m m p"
  by (simp add: same_page_def)

lemma same_page_trans: "same_page m m' p \<Longrightarrow> same_page m' m'' p \<Longrightarrow> same_page m m'' p"
  by (simp add: same_page_def)

lemma same_pages_refl [simp]: "same_pages m m X"
  by (simp add: same_pages_def)

lemma same_pages_trans: "same_pages m m' X \<Longrightarrow> same_pages m' m'' Y \<Longrightarrow> X \<subseteq> Z \<Longrightarrow> Y \<subseteq> Z \<Longrightarrow> same_pages m m'' Z"
  unfolding same_pages_def by (meson same_page_trans subsetD)

lemma same_pages_mono: "same_pages m m' X \<Longrightarrow> X \<subseteq> Y \<Longrightarrow> same_pages m m' Y"
  unfolding same_pages_def by (meson subsetD)

lemma same_pagesD: "same_pages m m' X \<Longrightarrow> p mod PGSIZE = 0 \<Longrightarrow> p \<notin> X \<Longrightarrow> same_page m m' p"
  by (simp add: same_pages_def)

lemma same_pages_write:
  assumes "p mod PGSIZE = 0" and "\<And>x. \<not> in_page p x \<Longrightarrow> m' x = m x"
  shows "same_pages m m' {p}"
  unfolding same_pages_def same_page_def
proof (intro allI impI)
  fix q x assume q: "q mod PGSIZE = 0" "q \<notin> {p}" "in_page q x"
  then have "\<not> in_page p x" using in_page_unique [of p x q] assms(1) by auto
  then show "m' x = m x" by (rule assms(2))
qed

lemma same_pages_wr32:
  assumes "p mod PGSIZE = 0" and "0 \<le> i" and "i < 1024"
  shows "same_pages m (wr32 m (p + 4 * i) v) {p}"
  by (rule same_pages_write [OF assms(1)]) (use assms in \<open>auto simp: in_page_def intro!: wr32_frame\<close>)

lemma same_pages_memset: "p mod PGSIZE = 0 \<Longrightarrow> same_pages m (memset m p c 4096) {p}"
  by (rule same_pages_write) (auto simp: memset_correct block_filled_def in_page_def)

lemma same_pages_kfree: "kfree s p = Some s' \<Longrightarrow> same_pages (kmemory s) (kmemory s') {p}"
  by (rule same_pages_write) (auto simp: kfree_frame, auto simp: kfree_def split: if_splits)

lemma entry_wr32:
  assumes "0 \<le> i" and "i < 1024" and "0 \<le> j" and "j < 1024"
  shows "rdptr (wr32 m (p + 4 * i) v) (p + 4 * j) = (if i = j then uint32 v else rdptr m (p + 4 * j))"
  using i32.rd_wr_array [of i j m p v] by (auto simp: rdptr_def mem_simps cint_mod_32 mult.commute)

lemma rdptr_zero: "p mod 4 = 0 \<Longrightarrow> 0 \<le> j \<Longrightarrow> j < 1024 \<Longrightarrow> rdptr (memset m p 0 4096) (p + 4 * j) = 0"
  by (simp add: rdptr_def rd32_def memset_correct block_filled_def)

section \<open>Addresses\<close>

lemma P2V_V2P: "ram_page e v \<Longrightarrow> P2V (V2P v) = v"
  by (simp add: ram_page_def P2V_def V2P_def KERNBASE_def PHYSTOP_def mod_simps)

lemma ram_aligned: "ram_page e v \<Longrightarrow> v mod PGSIZE = 0"
  by (simp add: ram_page_def)

lemma V2P_aligned: "ram_page e v \<Longrightarrow> V2P v mod 4096 = 0 \<and> 0 \<le> V2P v \<and> V2P v < PHYSTOP"
  by (auto simp: ram_page_def V2P_def KERNBASE_def PHYSTOP_def mod_diff_eq mod_mod_cancel)

lemma or_flags:
  fixes a f :: int
  assumes "a mod 4096 = 0" and "0 \<le> f" and "f < 4096"
  shows "a OR f = a + f" and "PTE_ADDR (a OR f) = a" and "PTE_FLAGS (a OR f) = f"
proof -
  obtain k where k: "a = 4096 * k" using assms(1) by auto
  have "a = push_bit 12 k" "f = take_bit 12 f" using k assms(2,3) by (simp_all add: push_bit_eq_mult take_bit_eq_mod)
  moreover have "push_bit 12 k AND take_bit 12 f = 0" by (simp add: bit_eq_iff bit_simps)
  ultimately have "a AND f = 0" by metis
  then show e: "a OR f = a + f" by (simp add: disjunctive_add_eq_or)
  show "PTE_ADDR (a OR f) = a" "PTE_FLAGS (a OR f) = f" unfolding e using assms(2,3) by (auto simp: PTE_ADDR_def PTE_FLAGS_def k)
qed


section \<open>The mapping of a page directory\<close>

text \<open>The mapping that the hardware finds: from a virtual page number to an entry. The user pages come first.\<close>

abbreviation USER :: int where "USER \<equiv> 524288"

definition pde :: "mem \<Rightarrow> int \<Rightarrow> int \<Rightarrow> int" where
  "pde m pgdir i = rdptr m (pgdir + 4 * i)"

definition frame :: "int \<Rightarrow> int" where
  "frame e = P2V (PTE_ADDR e)"

definition has_table :: "mem \<Rightarrow> int \<Rightarrow> int \<Rightarrow> bool" where
  "has_table m pgdir i \<longleftrightarrow> 0 \<le> i \<and> i < 1024 \<and> odd (pde m pgdir i)"

definition table :: "mem \<Rightarrow> int \<Rightarrow> int \<Rightarrow> int" where
  "table m pgdir i = frame (pde m pgdir i)"

definition vmap :: "mem \<Rightarrow> int \<Rightarrow> int \<Rightarrow> int option" where
  "vmap m pgdir vp =
     (if has_table m pgdir (vp div 1024) then
        let e = rdptr m (table m pgdir (vp div 1024) + 4 * (vp mod 1024)) in if odd e then Some e else None
      else None)"

definition tables :: "mem \<Rightarrow> int \<Rightarrow> int set" where
  "tables m pgdir = table m pgdir ` {i. has_table m pgdir i}"

definition user_pages :: "mem \<Rightarrow> int \<Rightarrow> int set" where
  "user_pages m pgdir = {vp. 0 \<le> vp \<and> vp < USER \<and> vmap m pgdir vp \<noteq> None}"

definition frames :: "mem \<Rightarrow> int \<Rightarrow> int set" where
  "frames m pgdir = (\<lambda>vp. frame (the (vmap m pgdir vp))) ` user_pages m pgdir"

definition owned :: "mem \<Rightarrow> int \<Rightarrow> int set" where
  "owned m pgdir = insert pgdir (tables m pgdir \<union> frames m pgdir)"

text \<open>An address space: the page directory, its page tables and the user pages are different pages of memory,
  and none of them is free.\<close>

definition space :: "kmem \<Rightarrow> int list \<Rightarrow> int \<Rightarrow> bool" where
  "space s vs pgdir \<longleftrightarrow> kmem_inv s vs \<and> KERNBASE < kend s
     \<and> inj_on (table (kmemory s) pgdir) {i. has_table (kmemory s) pgdir i}
     \<and> inj_on (\<lambda>vp. frame (the (vmap (kmemory s) pgdir vp))) (user_pages (kmemory s) pgdir)
     \<and> pgdir \<notin> tables (kmemory s) pgdir \<and> pgdir \<notin> frames (kmemory s) pgdir
     \<and> tables (kmemory s) pgdir \<inter> frames (kmemory s) pgdir = {}
     \<and> owned (kmemory s) pgdir \<inter> set vs = {} \<and> (\<forall>p \<in> owned (kmemory s) pgdir. ram_page (kend s) p)"

lemma has_table_cong: "same_page m m' pgdir \<Longrightarrow> has_table m' pgdir i = has_table m pgdir i"
  by (auto simp: has_table_def pde_def rdptr_same)

lemma table_cong: "same_page m m' pgdir \<Longrightarrow> has_table m pgdir i \<Longrightarrow> table m' pgdir i = table m pgdir i"
  by (auto simp: has_table_def table_def pde_def rdptr_same)

lemma tables_cong: "same_page m m' pgdir \<Longrightarrow> tables m' pgdir = tables m pgdir"
  by (auto simp: tables_def has_table_cong table_cong image_iff)

lemma vmap_cong:
  assumes "same_page m m' pgdir" and "\<And>p. p \<in> tables m pgdir \<Longrightarrow> same_page m m' p"
  shows "vmap m' pgdir = vmap m pgdir"
proof
  fix vp
  show "vmap m' pgdir vp = vmap m pgdir vp"
  proof (cases "has_table m pgdir (vp div 1024)")
    case True
    then have "table m pgdir (vp div 1024) \<in> tables m pgdir" by (auto simp: tables_def)
    then have "rdptr m' (table m pgdir (vp div 1024) + 4 * (vp mod 1024)) = rdptr m (table m pgdir (vp div 1024) + 4 * (vp mod 1024))"
      using rdptr_same [OF assms(2)] by simp
    then show ?thesis using True assms by (simp add: vmap_def has_table_cong table_cong)
  next
    case False
    then show ?thesis using assms by (simp add: vmap_def has_table_cong)
  qed
qed

lemma space_cong:
  assumes "space s vs pgdir" and "kmem_inv s' vs'" and "kend s' = kend s" and "owned (kmemory s) pgdir \<inter> set vs' = {}"
    and "same_page (kmemory s) (kmemory s') pgdir" and "\<And>p. p \<in> tables (kmemory s) pgdir \<Longrightarrow> same_page (kmemory s) (kmemory s') p"
  shows "space s' vs' pgdir" and "vmap (kmemory s') pgdir = vmap (kmemory s) pgdir" and "tables (kmemory s') pgdir = tables (kmemory s) pgdir"
    and "owned (kmemory s') pgdir = owned (kmemory s) pgdir" and "frames (kmemory s') pgdir = frames (kmemory s) pgdir"
proof -
  show v: "vmap (kmemory s') pgdir = vmap (kmemory s) pgdir" by (rule vmap_cong [OF assms(5,6)])
  show t: "tables (kmemory s') pgdir = tables (kmemory s) pgdir" by (rule tables_cong [OF assms(5)])
  have u: "user_pages (kmemory s') pgdir = user_pages (kmemory s) pgdir" by (simp add: user_pages_def v)
  show f: "frames (kmemory s') pgdir = frames (kmemory s) pgdir" by (simp add: frames_def u v)
  show o: "owned (kmemory s') pgdir = owned (kmemory s) pgdir" by (simp add: owned_def t f)
  have h: "{i. has_table (kmemory s') pgdir i} = {i. has_table (kmemory s) pgdir i}" using has_table_cong [OF assms(5)] by simp
  have "inj_on (table (kmemory s') pgdir) {i. has_table (kmemory s') pgdir i}"
    unfolding h using assms(1) by (auto simp: space_def inj_on_def table_cong [OF assms(5)])
  then show "space s' vs' pgdir" using assms(1-4) by (simp add: space_def v t u f o)
qed


section \<open>Writing entries\<close>

lemma spaceD:
  assumes "space s vs pgdir"
  shows "kmem_inv s vs" and "pgdir mod PGSIZE = 0"
    and "\<And>i. has_table (kmemory s) pgdir i \<Longrightarrow> table (kmemory s) pgdir i mod PGSIZE = 0 \<and> table (kmemory s) pgdir i \<noteq> pgdir \<and> KERNBASE < table (kmemory s) pgdir i"
    and "\<And>i j. has_table (kmemory s) pgdir i \<Longrightarrow> has_table (kmemory s) pgdir j \<Longrightarrow> table (kmemory s) pgdir i = table (kmemory s) pgdir j \<Longrightarrow> i = j"
    and "\<And>p. p \<in> owned (kmemory s) pgdir \<Longrightarrow> p \<notin> set vs \<and> ram_page (kend s) p"
proof -
  show "kmem_inv s vs" using assms by (simp add: space_def)
  show o: "\<And>p. p \<in> owned (kmemory s) pgdir \<Longrightarrow> p \<notin> set vs \<and> ram_page (kend s) p" using assms by (auto simp: space_def)
  have "pgdir \<in> owned (kmemory s) pgdir" by (simp add: owned_def)
  then show "pgdir mod PGSIZE = 0" using o ram_aligned by blast
  show "\<And>i. has_table (kmemory s) pgdir i \<Longrightarrow> table (kmemory s) pgdir i mod PGSIZE = 0 \<and> table (kmemory s) pgdir i \<noteq> pgdir \<and> KERNBASE < table (kmemory s) pgdir i"
  proof -
    fix i assume "has_table (kmemory s) pgdir i"
    then have t: "table (kmemory s) pgdir i \<in> tables (kmemory s) pgdir" by (auto simp: tables_def)
    then have "ram_page (kend s) (table (kmemory s) pgdir i)" using o by (simp add: owned_def)
    then show "table (kmemory s) pgdir i mod PGSIZE = 0 \<and> table (kmemory s) pgdir i \<noteq> pgdir \<and> KERNBASE < table (kmemory s) pgdir i"
      using t assms by (auto simp: ram_page_def space_def)
  qed
  show "\<And>i j. has_table (kmemory s) pgdir i \<Longrightarrow> has_table (kmemory s) pgdir j \<Longrightarrow> table (kmemory s) pgdir i = table (kmemory s) pgdir j \<Longrightarrow> i = j"
    using assms by (auto simp: space_def inj_on_def)
qed

lemma set_entry:
  assumes "space s vs pgdir" and "has_table (kmemory s) pgdir i" and "0 \<le> j" and "j < 1024"
    and "m' = wr32 (kmemory s) (table (kmemory s) pgdir i + 4 * j) v"
  shows "same_page (kmemory s) m' pgdir" and "same_pages (kmemory s) m' {table (kmemory s) pgdir i}"
    and "tables m' pgdir = tables (kmemory s) pgdir"
    and "vmap m' pgdir = (vmap (kmemory s) pgdir)(1024 * i + j := if odd (uint32 v) then Some (uint32 v) else None)"
proof -
  let ?m = "kmemory s" and ?t = "table (kmemory s) pgdir i"
  note D = spaceD [OF assms(1)]
  have t: "?t mod PGSIZE = 0" "?t \<noteq> pgdir" using D(3) [OF assms(2)] by auto
  show sp: "same_pages ?m m' {?t}" unfolding assms(5) by (rule same_pages_wr32 [OF t(1) assms(3,4)])
  show sd: "same_page ?m m' pgdir" by (rule same_pagesD [OF sp D(2)]) (use t in auto)
  show "tables m' pgdir = tables ?m pgdir" by (rule tables_cong [OF sd])
  show "vmap m' pgdir = (vmap ?m pgdir)(1024 * i + j := if odd (uint32 v) then Some (uint32 v) else None)"
  proof
    fix vp :: int
    have ht: "has_table m' pgdir k = has_table ?m pgdir k" for k by (rule has_table_cong [OF sd])
    show "vmap m' pgdir vp = ((vmap ?m pgdir)(1024 * i + j := if odd (uint32 v) then Some (uint32 v) else None)) vp"
    proof (cases "vp div 1024 = i")
      case True
      then have vp: "vp = 1024 * i + vp mod 1024" by auto
      have "rdptr m' (?t + 4 * (vp mod 1024)) = (if j = vp mod 1024 then uint32 v else rdptr ?m (?t + 4 * (vp mod 1024)))"
        unfolding assms(5) by (rule entry_wr32) (use assms(3,4) in auto)
      moreover have "vp = 1024 * i + j \<longleftrightarrow> j = vp mod 1024" using vp by auto
      ultimately show ?thesis using True assms(2) ht table_cong [OF sd assms(2)] by (auto simp: vmap_def Let_def)
    next
      case False
      then have ne: "vp \<noteq> 1024 * i + j" using assms(3,4) by auto
      show ?thesis
      proof (cases "has_table ?m pgdir (vp div 1024)")
        case T: True
        have "table ?m pgdir (vp div 1024) \<noteq> ?t" using D(4) [OF T assms(2)] False by blast
        then have "same_page ?m m' (table ?m pgdir (vp div 1024))" using same_pagesD [OF sp] D(3) [OF T] by auto
        then have "rdptr m' (table ?m pgdir (vp div 1024) + 4 * (vp mod 1024)) = rdptr ?m (table ?m pgdir (vp div 1024) + 4 * (vp mod 1024))"
          by (rule rdptr_same) auto
        then show ?thesis using ne T ht table_cong [OF sd T] by (simp add: vmap_def)
      next
        case False
        then show ?thesis using ne ht by (simp add: vmap_def)
      qed
    qed
  qed
qed

lemma add_table:
  assumes "space s vs pgdir" and "\<not> has_table (kmemory s) pgdir i" and "0 \<le> i" and "i < 1024"
    and "ram_page e r" and "r \<notin> owned (kmemory s) pgdir"
    and "m' = wr32 (memset (kmemory s) r 0 4096) (pgdir + 4 * i) (V2P r OR PTE_P OR PTE_W OR PTE_U)"
  shows "same_pages (kmemory s) m' {pgdir, r}" and "has_table m' pgdir k \<longleftrightarrow> k = i \<or> has_table (kmemory s) pgdir k"
    and "table m' pgdir i = r" and "has_table (kmemory s) pgdir k \<Longrightarrow> table m' pgdir k = table (kmemory s) pgdir k"
    and "vmap m' pgdir = vmap (kmemory s) pgdir"
proof -
  let ?m = "kmemory s" and ?z = "memset (kmemory s) r 0 4096"
  note D = spaceD [OF assms(1)]
  have r: "r mod PGSIZE = 0" "r \<noteq> pgdir" using ram_aligned [OF assms(5)] assms(6) by (auto simp: owned_def)
  have z: "same_pages ?m ?z {r}" by (rule same_pages_memset [OF r(1)])
  have w: "same_pages ?z m' {pgdir}" unfolding assms(7) by (rule same_pages_wr32 [OF D(2) assms(3,4)])
  show sp: "same_pages ?m m' {pgdir, r}" by (rule same_pages_trans [OF z w]) auto
  have zd: "same_page ?m ?z pgdir" by (rule same_pagesD [OF z D(2)]) (use r in auto)
  have flags: "(PTE_P OR PTE_W OR PTE_U) = 7" by simp
  have fr: "uint32 (V2P r OR 7) = V2P r OR 7" "odd (V2P r OR 7)" "PTE_ADDR (V2P r OR 7) = V2P r"
    using V2P_aligned [OF assms(5)] or_flags [of "V2P r" 7] by (auto simp: PHYSTOP_def elim!: dvdE)
  have pde': "pde m' pgdir k = (if k = i then V2P r OR 7 else pde ?m pgdir k)" if "0 \<le> k" "k < 1024" for k
    unfolding pde_def assms(7) flags using entry_wr32 [OF assms(3,4) that, of ?z pgdir "V2P r OR 7"] rdptr_same [OF zd that] fr(1) by auto
  show ht: "has_table m' pgdir k \<longleftrightarrow> k = i \<or> has_table ?m pgdir k" for k
    using pde' [of k] fr(2) assms(3,4) by (cases "k = i") (auto simp: has_table_def)
  show tn: "table m' pgdir i = r" using pde' [OF assms(3,4)] fr(3) P2V_V2P [OF assms(5)] by (simp add: table_def frame_def)
  show told: "table m' pgdir k = table ?m pgdir k" if "has_table ?m pgdir k" for k
    using pde' [of k] that assms(2) by (auto simp: table_def has_table_def)
  show "vmap m' pgdir = vmap ?m pgdir"
  proof
    fix vp :: int
    show "vmap m' pgdir vp = vmap ?m pgdir vp"
    proof (cases "vp div 1024 = i")
      case True
      have zr: "same_page ?z m' r" by (rule same_pagesD [OF w r(1)]) (use r in auto)
      have "rdptr m' (r + 4 * (vp mod 1024)) = 0"
        using rdptr_same [OF zr, of "vp mod 1024"] rdptr_zero [of r "vp mod 1024" ?m] r(1) by (auto elim!: dvdE)
      then show ?thesis using True tn ht assms(2) by (simp add: vmap_def)
    next
      case False
      show ?thesis
      proof (cases "has_table ?m pgdir (vp div 1024)")
        case T: True
        have "table ?m pgdir (vp div 1024) \<noteq> r" using T assms(6) by (auto simp: owned_def tables_def)
        then have "same_page ?m m' (table ?m pgdir (vp div 1024))" using same_pagesD [OF sp] D(3) [OF T] by auto
        then show ?thesis using T ht told [OF T] rdptr_same [of ?m m' "table ?m pgdir (vp div 1024)" "vp mod 1024"] by (simp add: vmap_def)
      next
        case F: False
        then show ?thesis using ht False by (simp add: vmap_def)
      qed
    qed
  qed
qed


section \<open>Walking and mapping\<close>

lemma page_index:
  assumes "0 \<le> va" and "va < 4294967296"
  shows "PDX va = va div 4096 div 1024" and "PTX va = va div 4096 mod 1024" and "0 \<le> PDX va" and "PDX va < 1024" and "0 \<le> PTX va" and "PTX va < 1024"
    and "1024 * PDX va + PTX va = va div 4096"
proof -
  have d: "va div 4194304 = va div 4096 div 1024" by (simp flip: zdiv_zmult2_eq)
  have "0 \<le> va div 4096 div 1024" "va div 4096 div 1024 < 1024" using assms by (auto simp: div_less_iff_less_mult pos_imp_zdiv_nonneg_iff simp flip: d)
  then show "PDX va = va div 4096 div 1024" "0 \<le> PDX va" "PDX va < 1024" by (simp_all add: PDX_def d)
  then show "1024 * PDX va + PTX va = va div 4096" by (simp add: PTX_def)
qed (simp_all add: PTX_def)

lemma walk_found: "has_table (kmemory s) pgdir (PDX va) \<Longrightarrow>
    walkpgdir s pgdir va alloc = (s, table (kmemory s) pgdir (PDX va) + 4 * PTX va)"
  by (simp add: walkpgdir_def has_table_def pde_def table_def frame_def and_1)

lemma walk_missing:
  assumes "\<not> has_table (kmemory s) pgdir (PDX va)"
  shows "walkpgdir s pgdir va False = (s, 0)"
proof -
  have "0 \<le> PDX va" "PDX va < 1024" by (simp_all add: PDX_def)
  then show ?thesis using assms by (simp add: walkpgdir_def has_table_def pde_def and_1)
qed

lemma pte_nonnull: "space s vs pgdir \<Longrightarrow> has_table (kmemory s) pgdir i \<Longrightarrow> 0 \<le> j \<Longrightarrow> table (kmemory s) pgdir i + 4 * j \<noteq> 0"
  using spaceD(3) [of s vs pgdir i] by (auto simp: KERNBASE_def)

lemma pte_vmap:
  assumes "0 \<le> va" and "va < 4294967296" and "has_table m pgdir (PDX va)"
  shows "vmap m pgdir (va div 4096) = (let e = rdptr m (table m pgdir (PDX va) + 4 * PTX va) in if odd e then Some e else None)"
  using assms page_index [OF assms(1,2)] by (simp add: vmap_def)

text \<open>What the allocation of a page table changes: the page comes from the free list, the mapping stays.\<close>

lemma space_kalloc:
  assumes "space s (r # vs) pgdir" and "kalloc s = (s1, r)"
  shows "space s1 vs pgdir" and "kmemory s1 = kmemory s" and "kend s1 = kend s" and "ram_page (kend s) r" and "r \<notin> set vs"
    and "r \<notin> owned (kmemory s) pgdir" and "r \<noteq> 0"
proof -
  have k: "kmem_inv s (r # vs)" using assms(1) by (simp add: space_def)
  have c: "kmem_inv s1 vs" "kmemory s1 = kmemory s" "kend s1 = kend s" "r \<noteq> 0" using kalloc_correct [OF k assms(2)] by auto
  then show "kmemory s1 = kmemory s" "kend s1 = kend s" "r \<noteq> 0" by auto
  show "ram_page (kend s) r" "r \<notin> set vs" using k by (simp_all add: kmem_inv_def)
  show "r \<notin> owned (kmemory s) pgdir" using assms(1) by (auto simp: space_def)
  show "space s1 vs pgdir" using assms(1) c by (auto simp: space_def)
qed

lemma kalloc_empty: "space s [] pgdir \<Longrightarrow> kalloc s = (s, 0)"
  by (simp add: space_def kmem_inv_def kalloc_def)

lemma kalloc_head: "space s (r # vs) pgdir \<Longrightarrow> \<exists>s1. kalloc s = (s1, r)"
  by (simp add: space_def kmem_inv_def kalloc_def)

lemma frames_cong: "vmap m' pgdir = vmap m pgdir \<Longrightarrow> frames m' pgdir = frames m pgdir \<and> user_pages m' pgdir = user_pages m pgdir"
  by (simp add: frames_def user_pages_def)

lemma kmem_inv_write:
  assumes "kmem_inv s vs" and "same_pages (kmemory s) m X" and "X \<inter> set vs = {}"
  shows "kmem_inv (set_mem s m) vs"
proof -
  have "run_list m (freelist s) vs"
  proof (rule run_list_cong)
    show "run_list (kmemory s) (freelist s) vs" using assms(1) by (simp add: kmem_inv_def)
    fix v x assume v: "v \<in> set vs" "in_page v x"
    then have "v mod PGSIZE = 0" "v \<notin> X" using assms(1,3) by (auto simp: kmem_inv_def ram_page_def)
    then show "m x = kmemory s x" using same_pagesD [OF assms(2)] v(2) by (simp add: same_page_def)
  qed
  then show ?thesis using assms(1) by (simp add: kmem_inv_def set_mem_def)
qed

lemma set_mem_simps [simp]: "kmemory (set_mem s m) = m" "kend (set_mem s m) = kend s" "freelist (set_mem s m) = freelist s"
  "set_mem (set_mem s m) m' = set_mem s m'"
  by (simp_all add: set_mem_def)

lemma space_add_table:
  assumes "space s vs pgdir" and "\<not> has_table (kmemory s) pgdir i" and "0 \<le> i" and "i < 1024"
    and "ram_page (kend s) r" and "r \<notin> owned (kmemory s) pgdir" and "r \<notin> set vs"
    and "m' = wr32 (memset (kmemory s) r 0 4096) (pgdir + 4 * i) (V2P r OR PTE_P OR PTE_W OR PTE_U)"
  shows "space (set_mem s m') vs pgdir" and "tables m' pgdir = insert r (tables (kmemory s) pgdir)"
proof -
  let ?m = "kmemory s"
  note A = add_table [OF assms(1-6,8)]
  note D = spaceD [OF assms(1)]
  have ht: "{k. has_table m' pgdir k} = insert i {k. has_table ?m pgdir k}" using A(2) by auto
  show t: "tables m' pgdir = insert r (tables ?m pgdir)" unfolding tables_def ht using A(3,4) by auto
  have f: "frames m' pgdir = frames ?m pgdir" "user_pages m' pgdir = user_pages ?m pgdir" using frames_cong [OF A(5)] by auto
  have o: "owned m' pgdir = insert r (owned ?m pgdir)" by (auto simp: owned_def t f)
  have "inj_on (table m' pgdir) {k. has_table m' pgdir k}"
  proof (rule inj_onI)
    fix a b assume "a \<in> {k. has_table m' pgdir k}" "b \<in> {k. has_table m' pgdir k}" and e: "table m' pgdir a = table m' pgdir b"
    then have ab: "a = i \<or> has_table ?m pgdir a" "b = i \<or> has_table ?m pgdir b" using ht by auto
    have old: "table m' pgdir k \<noteq> r" if "has_table ?m pgdir k" for k
      using A(4) [OF that] that assms(6) by (auto simp: owned_def tables_def)
    show "a = b" using ab e old A(3,4) D(4) by metis
  qed
  moreover have "kmem_inv (set_mem s m') vs"
    by (rule kmem_inv_write [OF D(1) A(1)]) (use D(5) assms(7) in \<open>auto simp: owned_def\<close>)
  ultimately show "space (set_mem s m') vs pgdir"
    using assms(1,5-7) t by (auto simp: space_def o f A(5), auto simp: owned_def)
qed

text \<open>\<open>walkpgdir\<close> with \<open>alloc\<close>: it fails exactly when a page table is missing and memory is exhausted; else it gives the
  place of the entry, and the mapping is unchanged.\<close>

lemma walk_alloc:
  assumes "space s vs pgdir"
  obtains (full) "vs = []" and "walkpgdir s pgdir va True = (s, 0)"
  | (found) s' vs' where "walkpgdir s pgdir va True = (s', table (kmemory s') pgdir (PDX va) + 4 * PTX va)"
      and "has_table (kmemory s') pgdir (PDX va)" and "space s' vs' pgdir" and "vmap (kmemory s') pgdir = vmap (kmemory s) pgdir"
      and "kend s' = kend s" and "vs = vs' \<or> (\<exists>r. vs = r # vs')" and "tables (kmemory s') pgdir \<union> set vs' = tables (kmemory s) pgdir \<union> set vs"
      and "same_pages (kmemory s) (kmemory s') (insert pgdir (set vs))"
proof (cases "has_table (kmemory s) pgdir (PDX va)")
  case True
  then show thesis using found [of s vs] walk_found [OF True] assms by simp
next
  case F: False
  have i: "0 \<le> PDX va" "PDX va < 1024" by (simp_all add: PDX_def)
  have e: "rdptr (kmemory s) (pgdir + 4 * PDX va) AND PTE_P = 0" using F i by (simp add: has_table_def pde_def and_1)
  show thesis
  proof (cases vs)
    case Nil
    then show thesis using full kalloc_empty [of s pgdir] assms e by (simp add: walkpgdir_def)
  next
    case (Cons r vs')
    then obtain s1 where s1: "kalloc s = (s1, r)" using kalloc_head assms by blast
    note K = space_kalloc [OF assms [unfolded Cons] s1]
    define m' where "m' = wr32 (memset (kmemory s1) r 0 4096) (pgdir + 4 * PDX va) (V2P r OR PTE_P OR PTE_W OR PTE_U)"
    have F1: "\<not> has_table (kmemory s1) pgdir (PDX va)" using F K(2) by simp
    have r: "ram_page (kend s1) r" "r \<notin> owned (kmemory s1) pgdir" using K by simp_all
    note S = space_add_table [OF K(1) F1 i r K(5) m'_def] and A = add_table [OF K(1) F1 i r m'_def]
    have "walkpgdir s pgdir va True = (set_mem s1 m', r + 4 * PTX va)" using e s1 K(7) by (simp add: walkpgdir_def m'_def)
    moreover have "same_pages (kmemory s) m' (insert pgdir (set vs))"
      using same_pages_mono [OF A(1), of "insert pgdir (set vs)"] K(2) Cons by auto
    ultimately show thesis using found [of "set_mem s1 m'" vs'] A S K Cons by auto
  qed
qed


text \<open>Storing an entry for a page that is not mapped, and clearing one.\<close>

lemma space_map_entry:
  assumes "space s vs pgdir" and "has_table (kmemory s) pgdir i" and "0 \<le> j" and "j < 1024"
    and "m' = wr32 (kmemory s) (table (kmemory s) pgdir i + 4 * j) e" and "uint32 e = e" and "odd e"
    and "vmap (kmemory s) pgdir (1024 * i + j) = None"
    and user: "1024 * i + j < USER \<Longrightarrow> ram_page (kend s) (frame e) \<and> frame e \<notin> set vs \<and> frame e \<notin> owned (kmemory s) pgdir"
  shows "space (set_mem s m') vs pgdir"
    and "frames m' pgdir = (if 1024 * i + j < USER then insert (frame e) (frames (kmemory s) pgdir) else frames (kmemory s) pgdir)"
proof -
  let ?m = "kmemory s" and ?vp = "1024 * i + j"
  note E = set_entry [OF assms(1-5)]
  note D = spaceD [OF assms(1)]
  have v: "vmap m' pgdir = (vmap ?m pgdir)(?vp \<mapsto> e)" using E(4) assms(6,7) by simp
  have vp: "0 \<le> ?vp" using assms(2,3) by (simp add: has_table_def)
  have u: "user_pages m' pgdir = (if ?vp < USER then insert ?vp (user_pages ?m pgdir) else user_pages ?m pgdir)"
    using vp assms(8) by (auto simp: user_pages_def v)
  have un: "?vp \<notin> user_pages ?m pgdir" using assms(8) by (simp add: user_pages_def)
  have img: "(\<lambda>x. frame (the (vmap m' pgdir x))) ` user_pages ?m pgdir = frames ?m pgdir"
    unfolding frames_def by (rule image_cong) (use un in \<open>auto simp: v\<close>)
  show f: "frames m' pgdir = (if ?vp < USER then insert (frame e) (frames ?m pgdir) else frames ?m pgdir)"
    unfolding frames_def [of m'] u using img by (simp add: v)
  have inj: "inj_on (\<lambda>x. frame (the (vmap m' pgdir x))) (user_pages ?m pgdir)"
    using assms(1) un by (auto simp: space_def inj_on_def v)
  have inj': "inj_on (\<lambda>x. frame (the (vmap m' pgdir x))) (user_pages m' pgdir)"
  proof (cases "?vp < USER")
    case True
    have "frame (the (vmap m' pgdir ?vp)) \<notin> (\<lambda>x. frame (the (vmap m' pgdir x))) ` (user_pages ?m pgdir - {?vp})"
      using img user True un by (auto simp: v owned_def)
    then show ?thesis unfolding u using inj True by simp
  next
    case False
    then show ?thesis unfolding u using inj by simp
  qed
  have o: "owned m' pgdir = (if ?vp < USER then insert (frame e) (owned ?m pgdir) else owned ?m pgdir)" by (auto simp: owned_def f E(3))
  have t: "table ?m pgdir i \<in> owned ?m pgdir" using assms(2) by (auto simp: owned_def tables_def)
  have k: "kmem_inv (set_mem s m') vs" by (rule kmem_inv_write [OF D(1) E(2)]) (use t D(5) in auto)
  have "inj_on (table m' pgdir) {k. has_table m' pgdir k}"
    using D(4) has_table_cong [OF E(1)] table_cong [OF E(1)] by (auto simp: inj_on_def)
  then show "space (set_mem s m') vs pgdir"
    using assms(1) k inj' user by (auto simp: space_def o f E(3), auto simp: owned_def)
qed

lemma space_clear_entry:
  assumes "space s vs pgdir" and "has_table (kmemory s) pgdir i" and "0 \<le> j" and "j < 1024"
    and "m' = wr32 (kmemory s) (table (kmemory s) pgdir i + 4 * j) 0"
    and "vmap (kmemory s) pgdir (1024 * i + j) = Some e" and "1024 * i + j < USER"
  shows "space (set_mem s m') vs pgdir" and "frames m' pgdir = frames (kmemory s) pgdir - {frame e}"
proof -
  let ?m = "kmemory s" and ?vp = "1024 * i + j"
  note E = set_entry [OF assms(1-5)]
  note D = spaceD [OF assms(1)]
  have v: "vmap m' pgdir = (vmap ?m pgdir)(?vp := None)" using E(4) by simp
  have vp: "?vp \<in> user_pages ?m pgdir" using assms(2,3,6,7) by (simp add: has_table_def user_pages_def)
  have u: "user_pages m' pgdir = user_pages ?m pgdir - {?vp}" by (auto simp: user_pages_def v)
  have inj: "inj_on (\<lambda>x. frame (the (vmap ?m pgdir x))) (user_pages ?m pgdir)" using assms(1) by (simp add: space_def)
  have "frames m' pgdir = (\<lambda>x. frame (the (vmap ?m pgdir x))) ` (user_pages ?m pgdir - {?vp})"
    unfolding frames_def u by (rule image_cong) (auto simp: v)
  also have "\<dots> = frames ?m pgdir - {frame (the (vmap ?m pgdir ?vp))}"
    unfolding frames_def using inj vp by (auto simp: inj_on_def)
  finally show f: "frames m' pgdir = frames ?m pgdir - {frame e}" using assms(6) by simp
  have inj': "inj_on (\<lambda>x. frame (the (vmap m' pgdir x))) (user_pages m' pgdir)"
    unfolding u using inj by (auto simp: inj_on_def v)
  have t: "table ?m pgdir i \<in> owned ?m pgdir" using assms(2) by (auto simp: owned_def tables_def)
  have k: "kmem_inv (set_mem s m') vs" by (rule kmem_inv_write [OF D(1) E(2)]) (use t D(5) in auto)
  have "inj_on (table m' pgdir) {k. has_table m' pgdir k}"
    using D(4) has_table_cong [OF E(1)] table_cong [OF E(1)] by (auto simp: inj_on_def)
  then show "space (set_mem s m') vs pgdir"
    using assms(1) k inj' by (auto simp: space_def owned_def f E(3))
qed

lemma mappages_one:
  assumes "a mod PGSIZE = 0" and "0 \<le> a" and "a < 4294967296"
  shows "mappages s pgdir a PGSIZE pa perm = mappages_from s pgdir a a pa perm"
proof -
  obtain k where k: "a = 4096 * k" using assms(1) by auto
  have "k < 1048576" "0 \<le> k" using assms k by auto
  then have "uint32 (a + PGSIZE - 1) = 4096 * k + 4095" unfolding k by simp
  then show ?thesis by (simp add: mappages_def PGROUNDDOWN_def k mult.commute)
qed

lemma map_page:
  assumes "space s vs pgdir" and "a mod PGSIZE = 0" and "0 \<le> a" and "a < 4294967296"
    and "vmap (kmemory s) pgdir (a div 4096) = None" and "ram_page (kend s) r" and "r \<notin> set vs" and "r \<notin> owned (kmemory s) pgdir"
    and "0 \<le> perm" and "perm < 4096"
  obtains (full) "vs = []" and "mappages s pgdir a PGSIZE (V2P r) perm = Some (s, - 1)"
  | (mapped) s' vs' e where "mappages s pgdir a PGSIZE (V2P r) perm = Some (s', 0)" and "space s' vs' pgdir" and "kend s' = kend s"
      and "e = V2P r OR perm OR PTE_P" and "frame e = r" and "vmap (kmemory s') pgdir = (vmap (kmemory s) pgdir)(a div 4096 \<mapsto> e)"
      and "vs = vs' \<or> (\<exists>p. vs = p # vs')" and "tables (kmemory s') pgdir \<union> set vs' = tables (kmemory s) pgdir \<union> set vs"
      and "same_pages (kmemory s) (kmemory s') (insert pgdir (tables (kmemory s') pgdir \<union> set vs))"
proof -
  note one = mappages_one [OF assms(2-4)]
  note ix = page_index [OF assms(3,4)]
  show thesis
  proof (cases rule: walk_alloc [OF assms(1), where va = a])
    case 1
    then show thesis using full one by (simp add: mappages_from.simps)
  next
    case (2 s1 vs')
    let ?t = "table (kmemory s1) pgdir (PDX a)"
    let ?e = "V2P r OR perm OR PTE_P"
    have V: "V2P r mod 4096 = 0" "0 \<le> V2P r" "V2P r < PHYSTOP" using V2P_aligned [OF assms(6)] by auto
    have pf: "0 \<le> perm OR PTE_P" "perm OR PTE_P < 4096" "odd (perm OR PTE_P)"
      using assms(9,10) OR_upper [of perm 12 1] by (auto simp: even_or_iff)
    note O = or_flags [OF V(1) pf(1,2)]
    have fr: "frame ?e = r" using O(2) P2V_V2P [OF assms(6)] by (simp add: frame_def)
    have e: "uint32 ?e = ?e" "odd ?e" using O(1) V pf by (auto simp: PHYSTOP_def elim!: dvdE)
    have none: "vmap (kmemory s1) pgdir (1024 * PDX a + PTX a) = None" using 2(4) assms(5) ix(7) by simp
    have "rdptr (kmemory s1) (?t + 4 * PTX a) AND PTE_P = 0"
      using pte_vmap [OF assms(3,4) 2(2)] none ix(7) by (auto simp: and_1 Let_def split: if_splits)
    then have res: "mappages s pgdir a PGSIZE (V2P r) perm = Some (set_mem s1 (wr32 (kmemory s1) (?t + 4 * PTX a) ?e), 0)"
      using one 2(1) pte_nonnull [OF 2(3,2) ix(5)] by (simp add: mappages_from.simps [of s])
    have "r \<notin> tables (kmemory s1) pgdir" using 2(7) assms(7,8) by (auto simp: owned_def)
    then have fresh: "r \<notin> set vs'" "r \<notin> owned (kmemory s1) pgdir"
      using 2(6) assms(7,8) frames_cong [OF 2(4)] by (auto simp: owned_def)
    note S = space_map_entry [OF 2(3,2) ix(5,6) refl e none]
    note E = set_entry [OF 2(3,2) ix(5,6) refl, of ?e]
    have "space (set_mem s1 (wr32 (kmemory s1) (?t + 4 * PTX a) ?e)) vs' pgdir"
      by (rule S(1)) (use fr fresh assms(6) 2(5) in simp)
    moreover have "?t \<in> tables (kmemory s1) pgdir" using 2(2) by (auto simp: tables_def)
    then have "same_pages (kmemory s) (wr32 (kmemory s1) (?t + 4 * PTX a) ?e) (insert pgdir (tables (kmemory s1) pgdir \<union> set vs))"
      by (intro same_pages_trans [OF 2(8) E(2)]) auto
    ultimately show thesis
      by (intro mapped [of "set_mem s1 (wr32 (kmemory s1) (?t + 4 * PTX a) ?e)" vs' ?e])
        (use res fr 2 E e ix(7) in auto)
  qed
qed


section \<open>Unmapping and freeing\<close>

lemma space_kfree:
  assumes "space s vs pgdir" and "ram_page (kend s) v" and "v \<notin> set vs" and "v \<notin> owned (kmemory s) pgdir"
  obtains s' where "kfree s v = Some s'" and "space s' (v # vs) pgdir" and "kend s' = kend s" and "same_pages (kmemory s) (kmemory s') {v}"
    and "vmap (kmemory s') pgdir = vmap (kmemory s) pgdir" and "tables (kmemory s') pgdir = tables (kmemory s) pgdir"
    and "frames (kmemory s') pgdir = frames (kmemory s) pgdir"
proof -
  note D = spaceD [OF assms(1)]
  obtain s' where s': "kfree s v = Some s'" "kmem_inv s' (v # vs)" "kend s' = kend s" using kfree_correct [OF D(1) assms(2,3)] by metis
  have sp: "same_pages (kmemory s) (kmemory s') {v}" by (rule same_pages_kfree [OF s'(1)])
  have own: "same_page (kmemory s) (kmemory s') p" if "p \<in> owned (kmemory s) pgdir" for p
    by (rule same_pagesD [OF sp]) (use that D(5) [OF that] assms(4) ram_aligned in auto)
  note C = space_cong [OF assms(1) s'(2,3)]
  have o: "owned (kmemory s) pgdir \<inter> set (v # vs) = {}" using assms(4) D(5) by auto
  have "same_page (kmemory s) (kmemory s') pgdir" "\<And>p. p \<in> tables (kmemory s) pgdir \<Longrightarrow> same_page (kmemory s) (kmemory s') p"
    using own by (auto simp: owned_def)
  note C = C [OF o this]
  show thesis by (rule that [OF s'(1) C(1) s'(3) sp C(2,3,5)])
qed

lemma wr32_point: "m y = m' y \<Longrightarrow> wr32 m a v y = wr32 m' a v y"
  by (simp add: wr32_def)

lemma kfree_commute:
  assumes "kfree s v = Some s1" and "t mod PGSIZE = 0" and "t \<noteq> v" and "0 \<le> j" and "j < 1024"
  shows "kfree (set_mem s (wr32 (kmemory s) (t + 4 * j) x)) v = Some (set_mem s1 (wr32 (kmemory s1) (t + 4 * j) x))"
proof -
  have v: "v mod PGSIZE = 0" and s1: "s1 = s\<lparr>kmemory := wr32 (memset (kmemory s) v 1 4096) v (freelist s), freelist := v\<rparr>"
    using assms(1) by (auto simp: kfree_def split: if_splits)
  have "wr32 (memset (wr32 (kmemory s) (t + 4 * j) x) v 1 4096) v (freelist s) y
    = wr32 (wr32 (memset (kmemory s) v 1 4096) v (freelist s)) (t + 4 * j) x y" for y
  proof (cases "in_page v y")
    case True
    then have "\<not> in_page t y" using in_page_unique [of v y t] v assms(2,3) by blast
    then have "y < t + 4 * j \<or> t + 4 * j + 4 \<le> y" using assms(4,5) by (auto simp: in_page_def)
    then have "wr32 (wr32 (memset (kmemory s) v 1 4096) v (freelist s)) (t + 4 * j) x y = wr32 (memset (kmemory s) v 1 4096) v (freelist s) y"
      by (rule wr32_frame)
    moreover have "wr32 (memset (wr32 (kmemory s) (t + 4 * j) x) v 1 4096) v (freelist s) y = wr32 (memset (kmemory s) v 1 4096) v (freelist s) y"
      by (rule wr32_point) (use True in \<open>simp add: memset_correct block_filled_def in_page_def\<close>)
    ultimately show ?thesis by simp
  next
    case False
    then have m: "wr32 (memset m v 1 4096) v (freelist s) y = m y" for m
      by (subst wr32_frame) (auto simp: memset_correct block_filled_def in_page_def)
    show ?thesis unfolding m by (rule wr32_point) (rule m [of "kmemory s", symmetric])
  qed
  then have "wr32 (memset (wr32 (kmemory s) (t + 4 * j) x) v 1 4096) v (freelist s)
    = wr32 (wr32 (memset (kmemory s) v 1 4096) v (freelist s)) (t + 4 * j) x" by (intro ext)
  then show ?thesis using assms(1) unfolding s1 kfree_def by (simp add: set_mem_def split: if_splits)
qed

definition unmapped :: "(int \<Rightarrow> int option) \<Rightarrow> int \<Rightarrow> int \<Rightarrow> int \<Rightarrow> int option" where
  "unmapped f a b vp = (if a \<le> vp * 4096 \<and> vp * 4096 < b then None else f vp)"

text \<open>What unmapping a range does: the pages of the range, and only they, go to the free list.\<close>

definition dealloc_spec :: "kmem \<Rightarrow> int list \<Rightarrow> int \<Rightarrow> int \<Rightarrow> int \<Rightarrow> kmem \<Rightarrow> int list \<Rightarrow> bool" where
  "dealloc_spec s vs pgdir a oldsz s' vs' \<longleftrightarrow> space s' vs' pgdir \<and> kend s' = kend s
     \<and> tables (kmemory s') pgdir = tables (kmemory s) pgdir
     \<and> vmap (kmemory s') pgdir = unmapped (vmap (kmemory s) pgdir) a oldsz
     \<and> set vs' \<union> frames (kmemory s') pgdir = set vs \<union> frames (kmemory s) pgdir \<and> frames (kmemory s') pgdir \<subseteq> frames (kmemory s) pgdir
     \<and> same_pages (kmemory s) (kmemory s') (tables (kmemory s) pgdir \<union> (frames (kmemory s) pgdir - frames (kmemory s') pgdir))"

lemma dealloc_frame:
  assumes "space s vs pgdir" and "vmap (kmemory s) pgdir vp = Some e" and "0 \<le> vp" and "vp < USER"
  shows "ram_page (kend s) (frame e)" and "frame e \<in> frames (kmemory s) pgdir" and "PTE_ADDR e \<noteq> 0" and "frame e \<notin> set vs"
    and "frame e \<notin> tables (kmemory s) pgdir" and "frame e \<noteq> pgdir"
proof -
  have "vp \<in> user_pages (kmemory s) pgdir" using assms(2-4) by (simp add: user_pages_def)
  then show f: "frame e \<in> frames (kmemory s) pgdir" unfolding frames_def using assms(2) by force
  then show r: "ram_page (kend s) (frame e)" "frame e \<notin> set vs" using spaceD(5) [OF assms(1)] by (auto simp: owned_def)
  have "KERNBASE < kend s" using assms(1) by (simp add: space_def)
  then show "PTE_ADDR e \<noteq> 0" using r(1) by (auto simp: frame_def ram_page_def P2V_def KERNBASE_def)
  show "frame e \<notin> tables (kmemory s) pgdir" "frame e \<noteq> pgdir" using f assms(1) by (auto simp: space_def)
qed

lemma dealloc_page:
  assumes "space s vs pgdir" and "has_table (kmemory s) pgdir i" and "0 \<le> j" and "j < 1024"
    and "vmap (kmemory s) pgdir (1024 * i + j) = Some e" and "1024 * i + j < USER"
  obtains s1 where "kfree s (frame e) = Some s1"
    and "dealloc_spec s vs pgdir (4096 * (1024 * i + j)) (4096 * (1024 * i + j) + 4096) (set_mem s1 (wr32 (kmemory s1) (table (kmemory s) pgdir i + 4 * j) 0)) (frame e # vs)"
proof -
  let ?vp = "1024 * i + j" and ?m = "kmemory s" and ?t = "table (kmemory s) pgdir i"
  have vp: "0 \<le> ?vp" using assms(2,3) by (simp add: has_table_def)
  note F = dealloc_frame [OF assms(1,5) vp assms(6)]
  obtain s1 where s1: "kfree s (frame e) = Some s1" using ram_page_accepted [OF F(1)] by blast
  define m' where "m' = wr32 ?m (?t + 4 * j) 0"
  note C = space_clear_entry [OF assms(1-4) m'_def assms(5,6)]
  note E = set_entry [OF assms(1-4) m'_def]
  have t: "?t \<in> tables ?m pgdir" "?t mod PGSIZE = 0" using assms(2) spaceD(3) [OF assms(1,2)] by (auto simp: tables_def)
  have o: "owned m' pgdir = owned ?m pgdir - {frame e}" using F(2,5,6) by (auto simp: owned_def C(2) E(3))
  obtain s2 where s2: "kfree (set_mem s m') (frame e) = Some s2" "space s2 (frame e # vs) pgdir" "kend s2 = kend s"
    "same_pages m' (kmemory s2) {frame e}" "vmap (kmemory s2) pgdir = vmap m' pgdir" "tables (kmemory s2) pgdir = tables m' pgdir"
    "frames (kmemory s2) pgdir = frames m' pgdir"
    using space_kfree [OF C(1), of "frame e"] F o by auto
  have "s2 = set_mem s1 (wr32 (kmemory s1) (?t + 4 * j) 0)"
    using kfree_commute [OF s1 t(2) _ assms(3,4), of 0] s2(1) t(1) F(5) unfolding m'_def by (metis option.inject)
  moreover have "dealloc_spec s vs pgdir (4096 * ?vp) (4096 * ?vp + 4096) s2 (frame e # vs)"
    unfolding dealloc_spec_def
  proof (intro conjI)
    show "vmap (kmemory s2) pgdir = unmapped (vmap ?m pgdir) (4096 * ?vp) (4096 * ?vp + 4096)"
      unfolding s2(5) E(4) by (auto simp: unmapped_def fun_eq_iff)
    show "same_pages ?m (kmemory s2) (tables ?m pgdir \<union> (frames ?m pgdir - frames (kmemory s2) pgdir))"
      by (rule same_pages_trans [OF E(2) s2(4)]) (use t s2(7) C(2) F(2) in auto)
  qed (use s2 C(2) E(3) F(2) in auto)
  ultimately show thesis using that [OF s1] by simp
qed

lemma dealloc_spec_refl: "space s vs pgdir \<Longrightarrow> oldsz \<le> a \<Longrightarrow> dealloc_spec s vs pgdir a oldsz s vs"
  by (auto simp: dealloc_spec_def unmapped_def fun_eq_iff)

lemma dealloc_spec_trans:
  assumes "dealloc_spec s vs pgdir a b s1 vs1" and "dealloc_spec s1 vs1 pgdir b c s2 vs2" and "a \<le> b" and "b \<le> c"
  shows "dealloc_spec s vs pgdir a c s2 vs2"
proof -
  have "unmapped (unmapped f a b) b c = unmapped f a c" for f using assms(3,4) by (auto simp: unmapped_def fun_eq_iff)
  moreover have "same_pages (kmemory s) (kmemory s2) (tables (kmemory s) pgdir \<union> (frames (kmemory s) pgdir - frames (kmemory s2) pgdir))"
    by (rule same_pages_trans [where m' = "kmemory s1"]) (use assms(1,2) in \<open>auto simp: dealloc_spec_def\<close>)
  ultimately show ?thesis using assms(1,2) by (auto simp: dealloc_spec_def)
qed


lemma unmapped_none: "(\<And>vp. a \<le> vp * 4096 \<Longrightarrow> vp * 4096 < b \<Longrightarrow> f vp = None) \<Longrightarrow> unmapped f a b = f"
  by (auto simp: unmapped_def fun_eq_iff)

lemma dealloc_spec_skip:
  assumes "space s vs pgdir" and "\<And>vp. a \<le> vp * 4096 \<Longrightarrow> vp * 4096 < b \<Longrightarrow> vmap (kmemory s) pgdir vp = None"
  shows "dealloc_spec s vs pgdir a b s vs"
  using assms(1) unmapped_none [of a b "vmap (kmemory s) pgdir"] assms(2) by (simp add: dealloc_spec_def)

lemma aligned_step: "a mod PGSIZE = 0 \<Longrightarrow> a \<le> vp * 4096 \<Longrightarrow> vp * 4096 < a + 4096 \<Longrightarrow> vp = a div 4096" for a :: int
  by (auto elim!: dvdE)

lemma dealloc_spec_bound:
  assumes "dealloc_spec s vs pgdir a (a + 4096) s' vs'" and "a mod PGSIZE = 0" and "a < b"
  shows "dealloc_spec s vs pgdir a (min (a + 4096) b) s' vs'"
proof -
  have "unmapped f a (min (a + 4096) b) = unmapped f a (a + 4096)" for f
  proof
    fix vp
    have "vp * 4096 < b" if "a \<le> vp * 4096" "vp * 4096 < a + 4096" using aligned_step [OF assms(2) that] assms(2,3) by (auto elim!: dvdE)
    then show "unmapped f a (min (a + 4096) b) vp = unmapped f a (a + 4096) vp" by (auto simp: unmapped_def)
  qed
  then show ?thesis using assms(1) by (simp add: dealloc_spec_def)
qed

lemma div_eq_if_bounds: "1024 * q \<le> v \<Longrightarrow> v < 1024 * (q + 1) \<Longrightarrow> v div 1024 = q" for v q :: int
  by (rule int_div_pos_eq [of v 1024 q "v - 1024 * q"]) auto

lemma deallocuvm_from_correct:
  assumes "space s vs pgdir" and "a mod PGSIZE = 0" and "0 \<le> a" and "oldsz \<le> KERNBASE"
  shows "\<exists>s' vs'. deallocuvm_from s pgdir a oldsz = Some s' \<and> dealloc_spec s vs pgdir a oldsz s' vs'"
  using assms
proof (induction "nat (oldsz - a)" arbitrary: s vs a rule: less_induct)
  case less
  note prems = less.prems
  show ?case
  proof (cases "a < oldsz")
    case False
    then show ?thesis using prems(1) dealloc_spec_refl [of s vs pgdir oldsz a] by (subst deallocuvm_from.simps) auto
  next
    case True
    have a: "0 \<le> a" "a < 2147483648" "a < 4294967296" using prems(3,4) True by (auto simp: KERNBASE_def)
    note ix = page_index [OF a(1,3)]
    obtain k where k: "a = 4096 * k" using prems(2) by auto
    have vp: "a div 4096 < USER" "4096 * (a div 4096) = a" using a k by auto
    have go: "\<exists>s' vs'. deallocuvm_from s1 pgdir b oldsz = Some s' \<and> dealloc_spec s vs pgdir a oldsz s' vs'"
      if d: "dealloc_spec s vs pgdir a (min b oldsz) s1 vs1" and b: "a < b" "b mod PGSIZE = 0" for s1 vs1 b
    proof (cases "b \<le> oldsz")
      case B: True
      have "space s1 vs1 pgdir" using d by (simp add: dealloc_spec_def)
      moreover have "nat (oldsz - b) < nat (oldsz - a)" "0 \<le> b" using b(1) True prems(3) by auto
      ultimately obtain s' vs' where "deallocuvm_from s1 pgdir b oldsz = Some s'" "dealloc_spec s1 vs1 pgdir b oldsz s' vs'"
        using less.hyps [of b s1 vs1] b(2) prems(4) by blast
      then show ?thesis using dealloc_spec_trans [of s vs pgdir a b s1 vs1 oldsz s' vs'] d b(1) B by (auto simp: min_def)
    next
      case B: False
      then have "deallocuvm_from s1 pgdir b oldsz = Some s1" by (simp add: deallocuvm_from.simps)
      then show ?thesis using d B by (auto simp: min_def)
    qed
    show ?thesis
    proof (cases "has_table (kmemory s) pgdir (PDX a)")
      case T: False
      let ?b = "PGADDR (PDX a + 1) 0 0"
      have "PDX a < 512" using ix(1) a(2) by (simp add: div_less_iff_less_mult zdiv_zmult2_eq [symmetric])
      then have b: "?b = 4194304 * (PDX a + 1)" using ix(3) by (simp add: PGADDR_def push_bit_eq_mult)
      define q where "q = k div 1024"
      have pk: "PDX a = q" using ix(1) k by (simp add: q_def)
      have kk: "1024 * q \<le> k" "k < 1024 * q + 1024"
        using mult_div_mod_eq [of 1024 k] pos_mod_bound [of 1024 k] pos_mod_sign [of 1024 k] unfolding q_def by linarith+
      have "4096 * k < 4096 * (1024 * q + 1024)" using kk(2) by simp
      then have "a < 4194304 * (q + 1)" using k by simp
      then have ab: "a < ?b" by (subst b) (simp only: pk)
      have bm: "?b mod PGSIZE = 0" unfolding b by (rule mod_eq_0_iff_dvd [THEN iffD2]) (rule dvd_mult2, simp)
      have "vmap (kmemory s) pgdir v = None" if "a \<le> v * 4096" "v * 4096 < min ?b oldsz" for v
      proof -
        have "k \<le> v" "v < 1024 * (q + 1)" using that b pk k by auto
        then have "v div 1024 = PDX a" unfolding pk using kk by (intro div_eq_if_bounds) linarith+
        then show ?thesis using T by (simp add: vmap_def)
      qed
      then have "dealloc_spec s vs pgdir a (min ?b oldsz) s vs" by (rule dealloc_spec_skip [OF prems(1)])
      from go [OF this ab bm] show ?thesis using True walk_missing [OF T] by (subst deallocuvm_from.simps) simp
    next
      case T: True
      let ?t = "table (kmemory s) pgdir (PDX a) + 4 * PTX a"
      have nn: "?t \<noteq> 0" by (rule pte_nonnull [OF prems(1) T ix(5)])
      have nx: "uint32 (a + PGSIZE) = a + 4096" "(a + 4096) mod PGSIZE = 0" using a prems(2) by auto
      note V = pte_vmap [OF a(1,3) T]
      show ?thesis
      proof (cases "odd (rdptr (kmemory s) ?t)")
        case O: True
        let ?e = "rdptr (kmemory s) ?t"
        have v: "vmap (kmemory s) pgdir (a div 4096) = Some ?e" using V O by simp
        obtain s1 where s1: "kfree s (frame ?e) = Some s1"
          "dealloc_spec s vs pgdir a (a + 4096) (set_mem s1 (wr32 (kmemory s1) ?t 0)) (frame ?e # vs)"
          using dealloc_page [OF prems(1) T ix(5,6)] v vp ix(7) by metis
        have "PTE_ADDR ?e \<noteq> 0" by (rule dealloc_frame(3) [OF prems(1) v]) (use vp a in auto)
        moreover note go [OF dealloc_spec_bound [OF s1(2) prems(2) True] _ nx(2)]
        ultimately show ?thesis using True walk_found [OF T] nn O s1(1) nx(1)
          by (subst deallocuvm_from.simps) (simp add: and_1 frame_def)
      next
        case O: False
        then have v: "vmap (kmemory s) pgdir (a div 4096) = None" using V by simp
        have "dealloc_spec s vs pgdir a (min (a + 4096) oldsz) s vs"
          by (rule dealloc_spec_skip [OF prems(1)]) (use aligned_step [OF prems(2)] v in auto)
        from go [OF this _ nx(2)] show ?thesis using True walk_found [OF T] nn O nx(1)
          by (subst deallocuvm_from.simps) (simp add: and_1)
      qed
    qed
  qed
qed

section \<open>Growing an address space\<close>

lemma space_write_other:
  assumes "space s vs pgdir" and "same_pages (kmemory s) m' {r}" and "r \<notin> owned (kmemory s) pgdir" and "r \<notin> set vs"
  shows "space (set_mem s m') vs pgdir" and "vmap m' pgdir = vmap (kmemory s) pgdir" and "tables m' pgdir = tables (kmemory s) pgdir"
    and "owned m' pgdir = owned (kmemory s) pgdir" and "frames m' pgdir = frames (kmemory s) pgdir"
proof -
  note D = spaceD [OF assms(1)]
  have k: "kmem_inv (set_mem s m') vs" by (rule kmem_inv_write [OF D(1) assms(2)]) (use assms(4) in simp)
  have own: "same_page (kmemory s) m' p" if "p \<in> owned (kmemory s) pgdir" for p
    by (rule same_pagesD [OF assms(2)]) (use that D(5) [OF that] assms(3) ram_aligned in auto)
  note C = space_cong [OF assms(1) k]
  have "kend (set_mem s m') = kend s" "owned (kmemory s) pgdir \<inter> set vs = {}" using D(5) by auto
  note C = C [OF this]
  have "same_page (kmemory s) (kmemory (set_mem s m')) pgdir" "\<And>p. p \<in> tables (kmemory s) pgdir \<Longrightarrow> same_page (kmemory s) (kmemory (set_mem s m')) p"
    using own by (auto simp: owned_def)
  note C = C [OF this]
  show "space (set_mem s m') vs pgdir" by (rule C(1))
  show "vmap m' pgdir = vmap (kmemory s) pgdir" "tables m' pgdir = tables (kmemory s) pgdir"
    "owned m' pgdir = owned (kmemory s) pgdir" "frames m' pgdir = frames (kmemory s) pgdir" using C(2-5) by simp_all
qed

definition zero_page :: "mem \<Rightarrow> int \<Rightarrow> bool" where
  "zero_page m r \<longleftrightarrow> (\<forall>x. in_page r x \<longrightarrow> m x = 0)"

text \<open>The pages of the set \<open>R\<close> have been mapped to pages that were free and are filled with zeros; nothing else has changed.\<close>

definition grown :: "kmem \<Rightarrow> int list \<Rightarrow> int \<Rightarrow> int set \<Rightarrow> kmem \<Rightarrow> int list \<Rightarrow> bool" where
  "grown s vs pgdir R s' vs' \<longleftrightarrow> space s' vs' pgdir \<and> kend s' = kend s \<and> R \<subseteq> {0..<USER}
     \<and> (\<forall>vp. vp \<notin> R \<longrightarrow> vmap (kmemory s') pgdir vp = vmap (kmemory s) pgdir vp)
     \<and> (\<forall>vp \<in> R. \<exists>r \<in> set vs. vmap (kmemory s') pgdir vp = Some (V2P r OR (PTE_W OR PTE_U) OR PTE_P)
          \<and> frame (V2P r OR (PTE_W OR PTE_U) OR PTE_P) = r \<and> zero_page (kmemory s') r)
     \<and> set vs' \<union> owned (kmemory s') pgdir = set vs \<union> owned (kmemory s) pgdir \<and> set vs' \<subseteq> set vs
     \<and> tables (kmemory s') pgdir \<subseteq> tables (kmemory s) pgdir \<union> set vs
     \<and> same_pages (kmemory s) (kmemory s') (insert pgdir (set vs \<union> tables (kmemory s) pgdir))"

text \<open>The pages from \<open>a\<close> to \<open>b\<close> have been unmapped and are free; nothing else has changed, but page tables may
  have been added.\<close>

definition undone :: "kmem \<Rightarrow> int list \<Rightarrow> int \<Rightarrow> int \<Rightarrow> int \<Rightarrow> kmem \<Rightarrow> int list \<Rightarrow> bool" where
  "undone s vs pgdir a b s' vs' \<longleftrightarrow> space s' vs' pgdir \<and> kend s' = kend s
     \<and> vmap (kmemory s') pgdir = unmapped (vmap (kmemory s) pgdir) a b
     \<and> set vs' \<union> owned (kmemory s') pgdir = set vs \<union> owned (kmemory s) pgdir
     \<and> same_pages (kmemory s) (kmemory s') (insert pgdir (set vs \<union> tables (kmemory s) pgdir \<union> (frames (kmemory s) pgdir - frames (kmemory s') pgdir)))"

lemma grownD:
  assumes "grown s vs pgdir R s' vs'"
  shows "space s' vs' pgdir" and "kend s' = kend s" and "R \<subseteq> {0..<USER}"
    and "\<And>vp. vp \<notin> R \<Longrightarrow> vmap (kmemory s') pgdir vp = vmap (kmemory s) pgdir vp"
    and "\<And>vp. vp \<in> R \<Longrightarrow> \<exists>r \<in> set vs. vmap (kmemory s') pgdir vp = Some (V2P r OR (PTE_W OR PTE_U) OR PTE_P)
          \<and> frame (V2P r OR (PTE_W OR PTE_U) OR PTE_P) = r \<and> zero_page (kmemory s') r"
    and "set vs' \<union> owned (kmemory s') pgdir = set vs \<union> owned (kmemory s) pgdir" and "set vs' \<subseteq> set vs"
    and "tables (kmemory s') pgdir \<subseteq> tables (kmemory s) pgdir \<union> set vs"
    and "same_pages (kmemory s) (kmemory s') (insert pgdir (set vs \<union> tables (kmemory s) pgdir))"
  using assms unfolding grown_def by simp_all

lemma grown_refl: "space s vs pgdir \<Longrightarrow> grown s vs pgdir {} s vs"
  by (simp add: grown_def)

lemma grown_frames:
  assumes "grown s vs pgdir R s' vs'"
  shows "frames (kmemory s') pgdir \<subseteq> frames (kmemory s) pgdir \<union> set vs"
proof
  fix p assume "p \<in> frames (kmemory s') pgdir"
  then obtain vp e where vp: "vp \<in> {0..<USER}" "vmap (kmemory s') pgdir vp = Some e" "p = frame e"
    by (auto simp: frames_def user_pages_def)
  show "p \<in> frames (kmemory s) pgdir \<union> set vs"
  proof (cases "vp \<in> R")
    case True
    then show ?thesis using assms vp by (auto simp: grown_def)
  next
    case False
    then have v: "vmap (kmemory s) pgdir vp = Some e" using assms vp(2) by (auto simp: grown_def)
    then have "vp \<in> user_pages (kmemory s) pgdir" using vp(1) by (simp add: user_pages_def)
    then show ?thesis using v vp(3) by (force simp: frames_def)
  qed
qed

lemma grown_trans:
  assumes "grown s vs pgdir R s\<^sub>1 vs\<^sub>1" and "grown s\<^sub>1 vs\<^sub>1 pgdir R' s\<^sub>2 vs\<^sub>2" and "R \<inter> R' = {}"
  shows "grown s vs pgdir (R \<union> R') s\<^sub>2 vs\<^sub>2"
proof -
  note G = grownD [OF assms(1)] and G' = grownD [OF assms(2)]
  have old: "\<exists>r \<in> set vs. vmap (kmemory s\<^sub>2) pgdir vp = Some (V2P r OR (PTE_W OR PTE_U) OR PTE_P)
      \<and> frame (V2P r OR (PTE_W OR PTE_U) OR PTE_P) = r \<and> zero_page (kmemory s\<^sub>2) r" if inR: "vp \<in> R" for vp
  proof -
    obtain r where r: "r \<in> set vs" "vmap (kmemory s\<^sub>1) pgdir vp = Some (V2P r OR (PTE_W OR PTE_U) OR PTE_P)"
      "frame (V2P r OR (PTE_W OR PTE_U) OR PTE_P) = r" "zero_page (kmemory s\<^sub>1) r" using G(5) [OF inR] by blast
    have vp: "0 \<le> vp" "vp < USER" "vp \<notin> R'" using G(3) assms(3) inR by auto
    note F = dealloc_frame [OF G(1) r(2) vp(1,2), unfolded r(3)]
    have "r \<notin> insert pgdir (set vs\<^sub>1 \<union> tables (kmemory s\<^sub>1) pgdir)" using F(4-6) by simp
    then have "same_page (kmemory s\<^sub>1) (kmemory s\<^sub>2) r" using same_pagesD [OF G'(9) ram_aligned [OF F(1)]] by blast
    then have "zero_page (kmemory s\<^sub>2) r" using r(4) by (simp add: zero_page_def same_page_def)
    then show ?thesis using r(1-3) G'(4) [OF vp(3)] by metis
  qed
  have new: "\<exists>r \<in> set vs. vmap (kmemory s\<^sub>2) pgdir vp = Some (V2P r OR (PTE_W OR PTE_U) OR PTE_P)
      \<and> frame (V2P r OR (PTE_W OR PTE_U) OR PTE_P) = r \<and> zero_page (kmemory s\<^sub>2) r" if "vp \<in> R'" for vp
    using G'(5) [OF that] G(7) by blast
  have same: "same_pages (kmemory s) (kmemory s\<^sub>2) (insert pgdir (set vs \<union> tables (kmemory s) pgdir))"
    by (rule same_pages_trans [OF G(9) G'(9)]) (use G(7,8) in auto)
  have sub: "R \<union> R' \<subseteq> {0..<USER}" "set vs\<^sub>2 \<subseteq> set vs" "tables (kmemory s\<^sub>2) pgdir \<subseteq> tables (kmemory s) pgdir \<union> set vs"
    using G(3,7,8) G'(3,7,8) by auto
  have keep: "vmap (kmemory s\<^sub>2) pgdir vp = vmap (kmemory s) pgdir vp" if "vp \<notin> R \<union> R'" for vp
    using that G(4) G'(4) by simp
  show ?thesis unfolding grown_def
    by (intro conjI allI impI ballI G'(1) same sub) (use G(2,6) G'(2,6) in simp, erule keep, erule UnE, erule old, erule new, use G(6) G'(6) in simp)
qed

lemma grown_undone:
  assumes "grown s vs pgdir R s\<^sub>1 vs\<^sub>1" and "undone s\<^sub>1 vs\<^sub>1 pgdir a b s' vs'" and "\<And>vp. vp \<in> R \<Longrightarrow> a \<le> vp * 4096 \<and> vp * 4096 < b"
  shows "undone s vs pgdir a b s' vs'"
proof -
  note G = grownD [OF assms(1)]
  have "unmapped (vmap (kmemory s\<^sub>1) pgdir) a b = unmapped (vmap (kmemory s) pgdir) a b"
    using assms(3) G(4) by (auto simp: unmapped_def fun_eq_iff)
  moreover have "same_pages (kmemory s) (kmemory s') (insert pgdir (set vs \<union> tables (kmemory s) pgdir \<union> (frames (kmemory s) pgdir - frames (kmemory s') pgdir)))"
  proof (rule same_pages_trans [OF G(9)])
    show "same_pages (kmemory s\<^sub>1) (kmemory s') (insert pgdir (set vs\<^sub>1 \<union> tables (kmemory s\<^sub>1) pgdir \<union> (frames (kmemory s\<^sub>1) pgdir - frames (kmemory s') pgdir)))"
      using assms(2) by (simp add: undone_def)
  qed (use G(7,8) grown_frames [OF assms(1)] in auto)
  ultimately show ?thesis using assms(2) G(2,6) by (simp add: undone_def)
qed


lemma PGROUNDUP_facts:
  assumes "0 \<le> a" and "a < KERNBASE"
  shows "PGROUNDUP a mod PGSIZE = 0" and "a \<le> PGROUNDUP a" and "0 \<le> PGROUNDUP a"
proof -
  have e: "PGROUNDUP a = (a + 4095) div 4096 * 4096" using assms by (simp add: PGROUNDUP_def KERNBASE_def)
  show "PGROUNDUP a mod PGSIZE = 0" by (simp add: e)
  have "(a + 4095) div 4096 * 4096 + (a + 4095) mod 4096 = a + 4095" "(a + 4095) mod 4096 < 4096" by simp_all
  then show "a \<le> PGROUNDUP a" unfolding e by linarith
  then show "0 \<le> PGROUNDUP a" using assms(1) by simp
qed

lemma dealloc_undone:
  assumes "space s vs pgdir" and "0 \<le> oldsz" and "oldsz < newsz" and "newsz < KERNBASE"
  shows "\<exists>s' vs'. deallocuvm s pgdir newsz oldsz = Some (s', oldsz) \<and> undone s vs pgdir (PGROUNDUP oldsz) newsz s' vs'
    \<and> set vs' \<subseteq> set vs \<union> frames (kmemory s) pgdir \<and> tables (kmemory s') pgdir = tables (kmemory s) pgdir
    \<and> frames (kmemory s') pgdir \<subseteq> frames (kmemory s) pgdir"
proof -
  note P = PGROUNDUP_facts [of oldsz]
  obtain s' vs' where d: "deallocuvm_from s pgdir (PGROUNDUP oldsz) newsz = Some s'" "dealloc_spec s vs pgdir (PGROUNDUP oldsz) newsz s' vs'"
    using deallocuvm_from_correct [OF assms(1), of "PGROUNDUP oldsz" newsz] P assms by auto
  have "undone s vs pgdir (PGROUNDUP oldsz) newsz s' vs'"
    using d(2) unfolding undone_def dealloc_spec_def owned_def
    by (intro conjI) (simp, simp, simp, blast, elim conjE, erule same_pages_mono, blast)
  moreover have "set vs' \<subseteq> set vs \<union> frames (kmemory s) pgdir" "tables (kmemory s') pgdir = tables (kmemory s) pgdir"
    "frames (kmemory s') pgdir \<subseteq> frames (kmemory s) pgdir" using d(2) by (auto simp: dealloc_spec_def)
  ultimately show ?thesis using d(1) assms(3) by (auto simp: deallocuvm_def)
qed

lemma frames_insert:
  assumes "vmap m' pgdir = (vmap m pgdir)(vp \<mapsto> e)" and "vmap m pgdir vp = None" and "0 \<le> vp" and "vp < USER"
  shows "frames m' pgdir = insert (frame e) (frames m pgdir)"
proof -
  have u: "user_pages m' pgdir = insert vp (user_pages m pgdir)" using assms by (auto simp: user_pages_def)
  have "vp \<notin> user_pages m pgdir" using assms(2) by (simp add: user_pages_def)
  then have "(\<lambda>x. frame (the (vmap m' pgdir x))) ` user_pages m pgdir = frames m pgdir"
    unfolding frames_def by (intro image_cong) (auto simp: assms(1))
  then show ?thesis unfolding frames_def [of m'] u by (simp add: assms(1))
qed

text \<open>A page that \<open>kalloc\<close> returns, filled with zeros.\<close>

lemma zeroed_page:
  assumes "space s (r # vs) pgdir" and "kalloc s = (s1, r)" and "m = memset (kmemory s1) r 0 4096"
  shows "space (set_mem s1 m) vs pgdir" and "vmap m pgdir = vmap (kmemory s) pgdir" and "tables m pgdir = tables (kmemory s) pgdir"
    and "frames m pgdir = frames (kmemory s) pgdir" and "owned m pgdir = owned (kmemory s) pgdir"
    and "same_pages (kmemory s) m {r}" and "zero_page m r" and "kend s1 = kend s" and "ram_page (kend s) r"
    and "r \<notin> set vs" and "r \<notin> owned (kmemory s) pgdir" and "r \<noteq> 0"
proof -
  note K = space_kalloc [OF assms(1,2)]
  show sm: "same_pages (kmemory s) m {r}" unfolding assms(3) K(2) by (rule same_pages_memset [OF ram_aligned [OF K(4)]])
  note W = space_write_other [OF K(1) sm [folded K(2)] K(6) [folded K(2)] K(5)]
  show "space (set_mem s1 m) vs pgdir" "vmap m pgdir = vmap (kmemory s) pgdir" "tables m pgdir = tables (kmemory s) pgdir"
    "frames m pgdir = frames (kmemory s) pgdir" "owned m pgdir = owned (kmemory s) pgdir" using W K(2) by simp_all
  show "zero_page m r" by (simp add: zero_page_def assms(3) memset_correct block_filled_def in_page_def)
qed (use space_kalloc [OF assms(1,2)] in simp_all)

lemma undo_page:
  assumes "space s (r # vs) pgdir" and "kalloc s = (s1, r)" and "m = memset (kmemory s1) r 0 4096"
    and "0 \<le> oldsz" and "oldsz < newsz" and "newsz < KERNBASE"
  shows "\<exists>s' s4 vs'. deallocuvm (set_mem s1 m) pgdir newsz oldsz = Some (s', oldsz) \<and> kfree s' r = Some s4
    \<and> undone s (r # vs) pgdir (PGROUNDUP oldsz) newsz s4 vs'"
proof -
  note Z = zeroed_page [OF assms(1-3)]
  obtain s' vs' where d: "deallocuvm (set_mem s1 m) pgdir newsz oldsz = Some (s', oldsz)"
    "undone (set_mem s1 m) vs pgdir (PGROUNDUP oldsz) newsz s' vs'" "set vs' \<subseteq> set vs \<union> frames m pgdir"
    "tables (kmemory s') pgdir = tables m pgdir" "frames (kmemory s') pgdir \<subseteq> frames m pgdir"
    using dealloc_undone [OF Z(1) assms(4-6)] by auto
  have own: "owned (kmemory s') pgdir \<subseteq> owned (kmemory s) pgdir" using d(4,5) Z(3,4) by (auto simp: owned_def)
  have rf: "r \<notin> set vs'" "r \<notin> owned (kmemory s') pgdir" using d(3) own Z(4,10,11) by (auto simp: owned_def)
  have u: "space s' vs' pgdir" "kend s' = kend s" "vmap (kmemory s') pgdir = unmapped (vmap (kmemory s) pgdir) (PGROUNDUP oldsz) newsz"
    "set vs' \<union> owned (kmemory s') pgdir = set vs \<union> owned (kmemory s) pgdir"
    "same_pages m (kmemory s') (insert pgdir (set vs \<union> tables m pgdir \<union> (frames m pgdir - frames (kmemory s') pgdir)))"
    using d(2) Z(2,5,8) by (simp_all add: undone_def)
  obtain s4 where s4: "kfree s' r = Some s4" "space s4 (r # vs') pgdir" "kend s4 = kend s'" "same_pages (kmemory s') (kmemory s4) {r}"
    "vmap (kmemory s4) pgdir = vmap (kmemory s') pgdir" "tables (kmemory s4) pgdir = tables (kmemory s') pgdir"
    "frames (kmemory s4) pgdir = frames (kmemory s') pgdir"
    using space_kfree [OF u(1) _ rf] Z(9) u(2) by metis
  let ?X = "insert pgdir (set (r # vs) \<union> tables (kmemory s) pgdir \<union> (frames (kmemory s) pgdir - frames (kmemory s4) pgdir))"
  have "same_pages m (kmemory s4) ?X" by (rule same_pages_trans [OF u(5) s4(4)]) (auto simp: Z(3,4) s4(7))
  then have same: "same_pages (kmemory s) (kmemory s4) ?X" by (intro same_pages_trans [OF Z(6)]) auto
  have "owned (kmemory s4) pgdir = owned (kmemory s') pgdir" using s4(6,7) by (simp add: owned_def)
  then have "undone s (r # vs) pgdir (PGROUNDUP oldsz) newsz s4 (r # vs')"
    unfolding undone_def using s4(2,3,5) u(2,3,4) same by simp
  then show ?thesis using d(1) s4(1) by blast
qed

lemma grown_page:
  assumes "space s (r # vs) pgdir" and "kalloc s = (s1, r)" and "m = memset (kmemory s1) r 0 4096"
    and "0 \<le> vp" and "vp < USER" and "vmap (kmemory s) pgdir vp = None"
    and "space s3 vs3 pgdir" and "kend s3 = kend s" and "e = V2P r OR (PTE_W OR PTE_U) OR PTE_P" and "frame e = r"
    and "vmap (kmemory s3) pgdir = (vmap m pgdir)(vp \<mapsto> e)" and "vs = vs3 \<or> (\<exists>p. vs = p # vs3)"
    and "tables (kmemory s3) pgdir \<union> set vs3 = tables m pgdir \<union> set vs"
    and "same_pages m (kmemory s3) (insert pgdir (tables (kmemory s3) pgdir \<union> set vs))"
  shows "grown s (r # vs) pgdir {vp} s3 vs3"
proof -
  note Z = zeroed_page [OF assms(1-3)]
  have v: "vmap (kmemory s3) pgdir = (vmap (kmemory s) pgdir)(vp \<mapsto> e)" using assms(11) Z(2) by simp
  note F = dealloc_frame [OF assms(7), of vp e, unfolded assms(10)]
  have n: "r \<notin> insert pgdir (tables (kmemory s3) pgdir \<union> set vs)" using F(5,6) v assms(4,5) Z(10) by simp
  have "same_page m (kmemory s3) r" using same_pagesD [OF assms(14) ram_aligned [OF Z(9)] n] .
  then have z: "zero_page (kmemory s3) r" using Z(7) by (simp add: zero_page_def same_page_def)
  have fr: "frames (kmemory s3) pgdir = insert r (frames (kmemory s) pgdir)" using frames_insert [OF v assms(6,4,5)] assms(10) by simp
  have t: "tables (kmemory s3) pgdir \<subseteq> tables (kmemory s) pgdir \<union> set vs" using assms(13) Z(3) by auto
  have "set vs3 \<union> owned (kmemory s3) pgdir = set (r # vs) \<union> owned (kmemory s) pgdir"
    using assms(13) Z(3) fr unfolding owned_def by auto
  moreover have "same_pages (kmemory s) (kmemory s3) (insert pgdir (set (r # vs) \<union> tables (kmemory s) pgdir))"
    by (rule same_pages_trans [OF Z(6) assms(14)]) (use t in auto)
  ultimately show ?thesis unfolding grown_def using assms(4,5,7-10,12) v z t by auto
qed

lemma page_range_step:
  fixes a b :: int
  assumes "a mod PGSIZE = 0" and "a < b"
  shows "{vp. a \<le> vp * 4096 \<and> vp * 4096 < b} = {a div 4096} \<union> {vp. a + 4096 \<le> vp * 4096 \<and> vp * 4096 < b}"
  using assms by (auto elim!: dvdE)

lemma allocuvm_from_correct:
  assumes "space s vs pgdir" and "a mod PGSIZE = 0" and "PGROUNDUP oldsz \<le> a" and "0 \<le> oldsz" and "oldsz \<le> newsz" and "newsz < KERNBASE"
    and "\<And>vp. a \<le> vp * 4096 \<Longrightarrow> vp * 4096 < newsz \<Longrightarrow> vmap (kmemory s) pgdir vp = None"
  shows "\<exists>s' r vs'. allocuvm_from s pgdir oldsz newsz a = Some (s', r)
    \<and> (r = newsz \<and> grown s vs pgdir {vp. a \<le> vp * 4096 \<and> vp * 4096 < newsz} s' vs'
       \<or> r = 0 \<and> undone s vs pgdir (PGROUNDUP oldsz) newsz s' vs' \<and> length vs < 2 * card {vp. a \<le> vp * 4096 \<and> vp * 4096 < newsz})"
  using assms
proof (induction "nat (newsz - a)" arbitrary: s vs a rule: less_induct)
  case less
  note prems = less.prems
  note P = PGROUNDUP_facts [of oldsz]
  have start: "0 \<le> PGROUNDUP oldsz" "oldsz \<le> PGROUNDUP oldsz" using P prems(4-6) by auto
  show ?case
  proof (cases "a < newsz")
    case False
    then have none: "{vp. a \<le> vp * 4096 \<and> vp * 4096 < newsz} = {}" by auto
    have "allocuvm_from s pgdir oldsz newsz a = Some (s, newsz)" using False by (simp add: allocuvm_from.simps)
    then show ?thesis unfolding none using grown_refl [OF prems(1)] by blast
  next
    case True
    have a: "0 \<le> a" "a < 4294967296" "a < 2147483648" using start prems(3,6) True by (auto simp: KERNBASE_def)
    let ?R = "{vp. a \<le> vp * 4096 \<and> vp * 4096 < newsz}"
    have fin: "finite {vp. b \<le> vp * 4096 \<and> vp * 4096 < newsz}" if "0 \<le> b" for b
      by (rule finite_subset [of _ "{0..newsz}"]) (use that in auto)
    have card: "card ?R = Suc (card {vp. a + 4096 \<le> vp * 4096 \<and> vp * 4096 < newsz})"
      unfolding page_range_step [OF prems(2) True] using fin [of "a + 4096"] prems(2) a(1) by (auto elim!: dvdE)
    have lt: "oldsz < newsz" using start prems(3) True by simp
    obtain k where k: "a = 4096 * k" using prems(2) by auto
    have vpa: "a div 4096 * 4096 = a" "0 \<le> a div 4096" "a div 4096 < USER" using k a by auto
    have free: "vmap (kmemory s) pgdir (a div 4096) = None" using prems(7) vpa(1) True by simp
    show ?thesis
    proof (cases vs)
      case Nil
      obtain s' vs' where "deallocuvm s pgdir newsz oldsz = Some (s', oldsz)" "undone s vs pgdir (PGROUNDUP oldsz) newsz s' vs'"
        using dealloc_undone [OF prems(1,4) lt prems(6)] by blast
      then show ?thesis using True kalloc_empty [of s pgdir] prems(1) Nil card by (subst allocuvm_from.simps) auto
    next
      case (Cons r vs1)
      note sp = prems(1) [unfolded Cons]
      obtain s1 where s1: "kalloc s = (s1, r)" using kalloc_head sp by blast
      define m where "m = memset (kmemory s1) r 0 4096"
      note Z = zeroed_page [OF sp s1 m_def]
      have none: "vmap (kmemory (set_mem s1 m)) pgdir (a div 4096) = None" using Z(2) free by simp
      have r: "ram_page (kend (set_mem s1 m)) r" "r \<notin> owned (kmemory (set_mem s1 m)) pgdir" using Z(5,8,9,11) by simp_all
      show ?thesis
      proof (cases rule: map_page [OF Z(1) prems(2) a(1,2) none r(1) Z(10) r(2), where perm = "PTE_W OR PTE_U"])
        case 3
        then show ?thesis using True s1 Z(12) undo_page [OF sp s1 m_def prems(4) lt prems(6)]
          by (subst allocuvm_from.simps) (auto simp: m_def Cons card)
      next
        case (4 s3 vs3 e)
        have G: "grown s vs pgdir {a div 4096} s3 vs3"
          unfolding Cons by (rule grown_page [OF sp s1 m_def vpa(2,3) free 4(2) _ 4(4-5)]) (use 4(3,6-9) Z(8) in simp_all)
        have step: "allocuvm_from s pgdir oldsz newsz a = allocuvm_from s3 pgdir oldsz newsz (a + 4096)"
          using True s1 Z(12) 4(1) a by (subst allocuvm_from.simps) (simp add: m_def)
        have "nat (newsz - (a + 4096)) < nat (newsz - a)" "(a + 4096) mod PGSIZE = 0" "PGROUNDUP oldsz \<le> a + 4096"
          using True prems(2,3) by auto
        note IH = less.hyps [OF this(1) 4(2) this(2,3) prems(4-6)]
        have "vmap (kmemory s3) pgdir vp = None" if "a + 4096 \<le> vp * 4096" "vp * 4096 < newsz" for vp
          using grownD(4) [OF G, of vp] prems(7) [of vp] that vpa(1) by fastforce
        from IH [OF this] obtain s' r' vs' where I: "allocuvm_from s3 pgdir oldsz newsz (a + 4096) = Some (s', r')"
          "r' = newsz \<and> grown s3 vs3 pgdir {vp. a + 4096 \<le> vp * 4096 \<and> vp * 4096 < newsz} s' vs'
           \<or> r' = 0 \<and> undone s3 vs3 pgdir (PGROUNDUP oldsz) newsz s' vs' \<and> length vs3 < 2 * card {vp. a + 4096 \<le> vp * 4096 \<and> vp * 4096 < newsz}" by blast
        have "length vs \<le> length vs3 + 2" using 4(7) Cons by auto
        moreover have "grown s vs pgdir {vp. a \<le> vp * 4096 \<and> vp * 4096 < newsz} s' vs'"
          if "grown s3 vs3 pgdir {vp. a + 4096 \<le> vp * 4096 \<and> vp * 4096 < newsz} s' vs'"
          unfolding page_range_step [OF prems(2) True] by (rule grown_trans [OF G that]) (use vpa(1) in auto)
        moreover have "undone s vs pgdir (PGROUNDUP oldsz) newsz s' vs'" if "undone s3 vs3 pgdir (PGROUNDUP oldsz) newsz s' vs'"
          by (rule grown_undone [OF G that]) (use vpa(1) prems(3) True in auto)
        ultimately show ?thesis unfolding card using step I by auto
      qed simp_all
    qed
  qed
qed

lemma freed_table:
  assumes "kmem_inv s vs" and "kfree s v = Some s1" and "v mod PGSIZE = 0" and "v \<noteq> pgdir" and "pgdir mod PGSIZE = 0"
  shows "same_page (kmemory s) (kmemory s1) pgdir"
  using same_pagesD [OF same_pages_kfree [OF assms(2)] assms(5)] assms(4) by auto

lemma free_tables_correct:
  assumes "kmem_inv s vs" and "distinct js" and "set js \<subseteq> {..<1024}" and "pgdir mod PGSIZE = 0"
    and "inj_on (table (kmemory s) pgdir) {i. has_table (kmemory s) pgdir i}"
    and "\<And>i. has_table (kmemory s) pgdir i \<Longrightarrow> ram_page (kend s) (table (kmemory s) pgdir i) \<and> table (kmemory s) pgdir i \<noteq> pgdir"
    and "\<And>i. i \<in> set js \<Longrightarrow> has_table (kmemory s) pgdir (int i) \<Longrightarrow> table (kmemory s) pgdir (int i) \<notin> set vs"
  shows "\<exists>s' vs'. free_tables s pgdir js = Some s' \<and> kmem_inv s' vs' \<and> kend s' = kend s
    \<and> set vs' = set vs \<union> table (kmemory s) pgdir ` {i. has_table (kmemory s) pgdir i \<and> nat i \<in> set js}"
  using assms
proof (induction js arbitrary: s vs)
  case (Cons j js)
  note prems = Cons.prems
  let ?t = "table (kmemory s) pgdir"
  have j: "j < 1024" "j \<notin> set js" using prems(2,3) by auto
  show ?case
  proof (cases "has_table (kmemory s) pgdir (int j)")
    case False
    then have "free_tables s pgdir (j # js) = free_tables s pgdir js" using j by (simp add: has_table_def pde_def and_1 Let_def)
    moreover have "{i. has_table (kmemory s) pgdir i \<and> nat i \<in> set (j # js)} = {i. has_table (kmemory s) pgdir i \<and> nat i \<in> set js}"
      using False by (auto simp: has_table_def)
    ultimately show ?thesis using Cons.IH [OF prems(1)] prems by auto
  next
    case True
    have v: "ram_page (kend s) (?t (int j))" "?t (int j) \<noteq> pgdir" "?t (int j) \<notin> set vs" using prems(6,7) True by auto
    obtain s1 where s1: "kfree s (?t (int j)) = Some s1" "kmem_inv s1 (?t (int j) # vs)" "kend s1 = kend s"
      using kfree_correct [OF prems(1) v(1,3)] by metis
    have same: "same_page (kmemory s) (kmemory s1) pgdir" by (rule freed_table [OF prems(1) s1(1) ram_aligned [OF v(1)] v(2) prems(4)])
    note H = has_table_cong [OF same] and T = table_cong [OF same]
    have "inj_on (table (kmemory s1) pgdir) {i. has_table (kmemory s1) pgdir i}" using prems(5) T by (simp add: H inj_on_def)
    moreover have "table (kmemory s1) pgdir (int i) \<notin> set (?t (int j) # vs)" if "i \<in> set js" "has_table (kmemory s1) pgdir (int i)" for i
      using inj_onD [OF prems(5), of "int i" "int j"] that T H prems(7) [of i] True j(2) by auto
    ultimately obtain s' vs' where s': "free_tables s1 pgdir js = Some s'" "kmem_inv s' vs'" "kend s' = kend s1"
      "set vs' = set (?t (int j) # vs) \<union> table (kmemory s1) pgdir ` {i. has_table (kmemory s1) pgdir i \<and> nat i \<in> set js}"
      using Cons.IH [OF s1(2) _ _ prems(4)] prems(2,3,6) s1(3) H T by auto
    have "table (kmemory s1) pgdir ` {i. has_table (kmemory s1) pgdir i \<and> nat i \<in> set js} = ?t ` {i. has_table (kmemory s) pgdir i \<and> nat i \<in> set js}"
      by (rule image_cong) (auto simp: H T)
    moreover have "{i. has_table (kmemory s) pgdir i \<and> nat i \<in> set (j # js)} = insert (int j) {i. has_table (kmemory s) pgdir i \<and> nat i \<in> set js}"
      using True by (auto simp: has_table_def)
    moreover have "free_tables s pgdir (j # js) = free_tables s1 pgdir js"
      using True s1(1) by (simp add: has_table_def table_def frame_def pde_def and_1 Let_def)
    ultimately show ?thesis using s' s1(3) by auto
  qed
qed auto

text \<open>C23: Freeing an address space (\<open>freevm\<close>) gives every page that it owns back, and no other: user pages, page tables and the
  page directory. It never panics.\<close>

theorem freevm_correct:
  assumes "space s vs pgdir"
  shows "\<exists>s' vs'. freevm s pgdir = Some s' \<and> kmem_inv s' vs' \<and> kend s' = kend s \<and> set vs' = set vs \<union> owned (kmemory s) pgdir"
proof -
  obtain s1 vs1 where d: "deallocuvm_from s pgdir 0 KERNBASE = Some s1" "dealloc_spec s vs pgdir 0 KERNBASE s1 vs1"
    using deallocuvm_from_correct [OF assms, of 0 KERNBASE] by (auto simp: KERNBASE_def)
  have "user_pages (kmemory s1) pgdir = {}" using d(2) by (auto simp: dealloc_spec_def user_pages_def unmapped_def KERNBASE_def)
  then have f: "frames (kmemory s1) pgdir = {}" by (simp add: frames_def)
  have sp: "space s1 vs1 pgdir" "kend s1 = kend s" "tables (kmemory s1) pgdir = tables (kmemory s) pgdir" "set vs1 = set vs \<union> frames (kmemory s) pgdir"
    using d(2) f by (auto simp: dealloc_spec_def)
  note D = spaceD [OF sp(1)]
  have pg: "ram_page (kend s1) pgdir" "pgdir \<notin> set vs1" "pgdir \<notin> tables (kmemory s1) pgdir" using sp(1) by (auto simp: space_def owned_def)
  have t: "ram_page (kend s1) (table (kmemory s1) pgdir i) \<and> table (kmemory s1) pgdir i \<noteq> pgdir \<and> table (kmemory s1) pgdir i \<notin> set vs1"
    if "has_table (kmemory s1) pgdir i" for i
  proof -
    have "table (kmemory s1) pgdir i \<in> tables (kmemory s1) pgdir" using that by (auto simp: tables_def)
    then show ?thesis using sp(1) by (auto simp: space_def owned_def)
  qed
  have inj: "inj_on (table (kmemory s1) pgdir) {i. has_table (kmemory s1) pgdir i}" using sp(1) by (simp add: space_def)
  have upt: "set [0..<1024] \<subseteq> {..<1024::nat}" by auto
  obtain s2 vs2 where s2: "free_tables s1 pgdir [0..<1024] = Some s2" "kmem_inv s2 vs2" "kend s2 = kend s1"
    "set vs2 = set vs1 \<union> table (kmemory s1) pgdir ` {i. has_table (kmemory s1) pgdir i \<and> nat i \<in> set [0..<1024]}"
    using free_tables_correct [OF D(1) distinct_upt [of 0 1024] upt ram_aligned [OF pg(1)] inj] t by auto
  have "{i. has_table (kmemory s1) pgdir i \<and> nat i \<in> set [0..<1024]} = {i. has_table (kmemory s1) pgdir i}" by (auto simp: has_table_def)
  then have vs2: "set vs2 = set vs1 \<union> tables (kmemory s1) pgdir" using s2(4) by (simp add: tables_def)
  obtain s3 where s3: "kfree s2 pgdir = Some s3" "kmem_inv s3 (pgdir # vs2)" "kend s3 = kend s2"
    using kfree_correct [OF s2(2)] pg vs2 s2(3) by (metis Un_iff)
  have "pgdir \<noteq> 0" using pg(1) by (auto simp: ram_page_def KERNBASE_def)
  moreover have "PGROUNDUP 0 = 0" by (simp add: PGROUNDUP_def)
  ultimately have "freevm s pgdir = Some s3" using d(1) s2(1) s3(1) by (simp add: freevm_def deallocuvm_def KERNBASE_def)
  moreover have "set (pgdir # vs2) = set vs \<union> owned (kmemory s) pgdir" using vs2 sp(3,4) by (auto simp: owned_def)
  ultimately show ?thesis using s3 s2(3) sp(2) by metis
qed

text \<open>C4: Growing a process (\<open>allocuvm\<close>) from \<open>oldsz\<close> to \<open>newsz\<close> always returns. A size that reaches the kernel
  gives 0 and a smaller size gives \<open>oldsz\<close>, with nothing changed. Otherwise there are two outcomes. Either the result
  is \<open>newsz\<close> and each page between the sizes is mapped, writable by the user, to a page of its own that
  was free and is filled with zeros, while every other mapping is as before. Or the result is 0 and the mappings are as
  before; this happens only if there are fewer free pages than two for each page to map (one for it and one for a
  page table). In every case the user's pages keep their contents and no page is lost: a page that was free
  or belonged to the address space still is one or the other.\<close>

theorem allocuvm_correct:
  assumes "space s vs pgdir" and "0 \<le> oldsz"
    and "\<And>vp. PGROUNDUP oldsz \<le> vp * 4096 \<Longrightarrow> vp * 4096 < newsz \<Longrightarrow> vmap (kmemory s) pgdir vp = None"
  shows "\<exists>s' r vs'. allocuvm s pgdir oldsz newsz = Some (s', r) \<and> space s' vs' pgdir
      \<and> set vs' \<union> owned (kmemory s') pgdir = set vs \<union> owned (kmemory s) pgdir
      \<and> (\<forall>p \<in> frames (kmemory s) pgdir. same_page (kmemory s) (kmemory s') p)
      \<and> (if KERNBASE \<le> newsz then r = 0 \<and> s' = s
         else if newsz < oldsz then r = oldsz \<and> s' = s
         else r = newsz \<and> grown s vs pgdir {vp. PGROUNDUP oldsz \<le> vp * 4096 \<and> vp * 4096 < newsz} s' vs'
           \<or> r = 0 \<and> vmap (kmemory s') pgdir = vmap (kmemory s) pgdir
             \<and> length vs < 2 * card {vp. PGROUNDUP oldsz \<le> vp * 4096 \<and> vp * 4096 < newsz})"
    (is "\<exists>s' r vs'. ?A s' r \<and> ?S s' vs' \<and> ?O s' vs' \<and> ?F s' \<and> ?C s' r vs'")
proof (cases "KERNBASE \<le> newsz \<or> newsz < oldsz")
  case True
  then show ?thesis by (intro exI [of _ s] exI [of _ "if KERNBASE \<le> newsz then 0 else oldsz"] exI [of _ vs])
      (use assms(1) in \<open>auto simp: allocuvm_def\<close>)
next
  case False
  then have sz: "newsz < KERNBASE" "oldsz \<le> newsz" by auto
  have "PGROUNDUP oldsz mod PGSIZE = 0" using PGROUNDUP_facts(1) [of oldsz] sz assms(2) by simp
  from allocuvm_from_correct [OF assms(1) this order_refl assms(2) sz(2,1) assms(3)]
  obtain s' r vs' where A: "allocuvm_from s pgdir oldsz newsz (PGROUNDUP oldsz) = Some (s', r)"
    "r = newsz \<and> grown s vs pgdir {vp. PGROUNDUP oldsz \<le> vp * 4096 \<and> vp * 4096 < newsz} s' vs'
     \<or> r = 0 \<and> undone s vs pgdir (PGROUNDUP oldsz) newsz s' vs' \<and> length vs < 2 * card {vp. PGROUNDUP oldsz \<le> vp * 4096 \<and> vp * 4096 < newsz}" by blast
  have "unmapped (vmap (kmemory s) pgdir) (PGROUNDUP oldsz) newsz = vmap (kmemory s) pgdir" by (rule unmapped_none [OF assms(3)])
  then have U: "vmap (kmemory s') pgdir = vmap (kmemory s) pgdir" if "undone s vs pgdir (PGROUNDUP oldsz) newsz s' vs'"
    using that by (simp add: undone_def)
  let ?X = "insert pgdir (set vs \<union> tables (kmemory s) pgdir)"
  have S: "same_pages (kmemory s) (kmemory s') ?X"
    using A(2) frames_cong [OF U] by (auto simp: grown_def undone_def)
  have "?F s'"
  proof
    fix p assume p: "p \<in> frames (kmemory s) pgdir"
    then have "ram_page (kend s) p" using assms(1) by (simp add: space_def owned_def)
    moreover have "p \<notin> ?X" using p assms(1) by (auto simp: space_def owned_def)
    ultimately show "same_page (kmemory s) (kmemory s') p" by (intro same_pagesD [OF S] ram_aligned)
  qed
  moreover have "?S s' vs'" "?O s' vs'" using A(2) by (auto simp: grown_def undone_def)
  moreover have "?A s' r" using A(1) sz by (simp add: allocuvm_def)
  moreover have "?C s' r vs'" using A(2) U sz by auto
  ultimately show ?thesis by blast
qed

text \<open>An empty address space and two free pages.\<close>

definition vm_example :: kmem where
  "vm_example = \<lparr>kmemory = wr32 (memset (wr32 (memset (\<lambda>_. 0) 2149580800 1 4096) 2149580800 0) 2149584896 1 4096) 2149584896 2149580800,
     use_lock = True, freelist = 2149584896, kend = 2148532224\<rparr>"

lemma vm_example_space:
  "space vm_example [2149584896, 2149580800] 2148532224" "vmap (kmemory vm_example) 2148532224 = (\<lambda>_. None)"
  "owned (kmemory vm_example) 2148532224 = {2148532224}"
proof -
  let ?s = "\<lparr>kmemory = \<lambda>_. 0, use_lock = True, freelist = 0, kend = 2148532224\<rparr>"
  have z: "rdptr (\<lambda>_. 0) a = 0" for a by (simp add: rdptr_def rd32_def)
  have none: "vmap (\<lambda>_. 0) 2148532224 = (\<lambda>_. None)" "tables (\<lambda>_. 0) 2148532224 = {}" "\<And>i. \<not> has_table (\<lambda>_. 0) 2148532224 i"
    by (auto simp: vmap_def tables_def has_table_def pde_def z)
  then have o: "owned (\<lambda>_. 0) 2148532224 = {2148532224}" "frames (\<lambda>_. 0) 2148532224 = {}" "user_pages (\<lambda>_. 0) 2148532224 = {}"
    by (simp_all add: owned_def frames_def user_pages_def)
  have sp: "space ?s [] 2148532224" by (simp add: space_def kmem_inv_def none o ram_page_def KERNBASE_def PHYSTOP_def)
  obtain s1 where s1: "kfree ?s 2149580800 = Some s1" "space s1 [2149580800] 2148532224" "kend s1 = 2148532224" "vmap (kmemory s1) 2148532224 = (\<lambda>_. None)"
    "owned (kmemory s1) 2148532224 = {2148532224}"
    by (rule space_kfree [OF sp, where v = 2149580800]) (simp_all add: o ram_page_def KERNBASE_def PHYSTOP_def none owned_def)
  obtain s2 where s2: "kfree s1 2149584896 = Some s2" "space s2 [2149584896, 2149580800] 2148532224" "vmap (kmemory s2) 2148532224 = (\<lambda>_. None)"
    "owned (kmemory s2) 2148532224 = {2148532224}"
    by (rule space_kfree [OF s1(2), where v = 2149584896]) (use s1(3-5) in \<open>auto simp: ram_page_def KERNBASE_def PHYSTOP_def owned_def\<close>)
  have "s2 = vm_example" using s1(1) s2(1) by (auto simp: kfree_def V2P_def vm_example_def KERNBASE_def PHYSTOP_def)
  then show "space vm_example [2149584896, 2149580800] 2148532224" "vmap (kmemory vm_example) 2148532224 = (\<lambda>_. None)"
    "owned (kmemory vm_example) 2148532224 = {2148532224}" using s2 by simp_all
qed

theorem allocuvm_correct_witness:
  "\<exists>s' vs'. allocuvm vm_example 2148532224 0 4096 = Some (s', 4096) \<and> grown vm_example [2149584896, 2149580800] 2148532224 {0} s' vs'"
proof -
  have "{vp. PGROUNDUP 0 \<le> vp * 4096 \<and> vp * 4096 < (4096::int)} = {0}" by (auto simp: PGROUNDUP_def)
  then show ?thesis
    using allocuvm_correct [OF vm_example_space(1), of 0 4096] vm_example_space(2) by (auto simp: KERNBASE_def)
qed

theorem freevm_correct_witness:
  "\<exists>s' vs'. freevm vm_example 2148532224 = Some s' \<and> kmem_inv s' vs' \<and> set vs' = {2148532224, 2149584896, 2149580800}"
  using freevm_correct [OF vm_example_space(1)] unfolding vm_example_space(3) by auto

section \<open>Copying to user memory\<close>

text \<open>The kernel address of the byte at a user address, if the user may reach it.\<close>

definition user_at :: "mem \<Rightarrow> int \<Rightarrow> int \<Rightarrow> int option" where
  "user_at m pgdir va =
     (case vmap m pgdir (va div 4096) of
        Some e \<Rightarrow> if e AND PTE_U \<noteq> 0 then Some (frame e + va mod 4096) else None
      | None \<Rightarrow> None)"

lemma uva2ka_cases:
  assumes "space s vs pgdir" and "0 \<le> va" and "va < 4294967296"
  shows "uva2ka s pgdir va =
    (if has_table (kmemory s) pgdir (PDX va) then Some (case vmap (kmemory s) pgdir (va div 4096) of
        Some e \<Rightarrow> if e AND PTE_U = 0 then 0 else frame e | None \<Rightarrow> 0) else None)"
proof (cases "has_table (kmemory s) pgdir (PDX va)")
  case True
  note ix = page_index [OF assms(2,3)]
  show ?thesis
    using True walk_found [OF True] pte_nonnull [OF assms(1) True ix(5)]
    by (simp add: uva2ka_def pte_vmap [OF assms(2,3) True] and_1 frame_def Let_def)
next
  case False
  then show ?thesis using walk_missing [OF False] by (simp add: uva2ka_def)
qed

lemma uva2ka_user:
  assumes "space s vs pgdir" and "0 \<le> va" and "va < KERNBASE" and "user_at (kmemory s) pgdir va = Some x"
  obtains p where "uva2ka s pgdir (PGROUNDDOWN va) = Some p" and "p \<noteq> 0" and "p \<in> frames (kmemory s) pgdir" and "x = p + va mod 4096"
    and "\<And>w. w div 4096 = va div 4096 \<Longrightarrow> user_at (kmemory s) pgdir w = Some (p + w mod 4096)"
proof -
  obtain e where e: "vmap (kmemory s) pgdir (va div 4096) = Some e" "e AND PTE_U \<noteq> 0" "x = frame e + va mod 4096"
    using assms(4) by (auto simp: user_at_def split: option.splits if_splits)
  have r: "0 \<le> PGROUNDDOWN va" "PGROUNDDOWN va < 4294967296" "PGROUNDDOWN va div 4096 = va div 4096"
    using assms(2,3) div_mult_mod_eq [of va 4096] pos_mod_sign [of 4096 va] unfolding PGROUNDDOWN_def KERNBASE_def by simp_all
  have "va div 4096 < USER" "0 \<le> va div 4096" using assms(2,3) by (auto simp: KERNBASE_def)
  note F = dealloc_frame [OF assms(1) e(1) this(2,1)]
  have "has_table (kmemory s) pgdir (PDX (PGROUNDDOWN va))"
    using e(1) page_index(1) [OF r(1,2)] r(3) by (auto simp: vmap_def split: if_splits)
  then have "uva2ka s pgdir (PGROUNDDOWN va) = Some (frame e)" using uva2ka_cases [OF assms(1) r(1,2)] e(1,2) r(3) by simp
  then show thesis by (rule that [OF _ _ F(2) e(3)]) (use F(1) e(1,2) in \<open>auto simp: user_at_def ram_page_def KERNBASE_def\<close>)
qed

text \<open>A write inside a page of the user's changes neither the mappings nor the free list.\<close>

lemma space_write_frame:
  assumes "space s vs pgdir" and "p \<in> frames (kmemory s) pgdir" and "\<And>x. \<not> in_page p x \<Longrightarrow> m' x = kmemory s x"
  shows "space (set_mem s m') vs pgdir" and "vmap m' pgdir = vmap (kmemory s) pgdir" and "frames m' pgdir = frames (kmemory s) pgdir"
proof -
  note D = spaceD [OF assms(1)]
  have o: "p \<in> owned (kmemory s) pgdir" using assms(2) by (simp add: owned_def)
  have p: "p \<in> owned (kmemory s) pgdir" "p \<noteq> pgdir" "p \<notin> tables (kmemory s) pgdir" "p mod PGSIZE = 0"
    using o assms(1,2) D(5) [OF o] ram_aligned [of "kend s" p] by (auto simp: space_def)
  have sm: "same_pages (kmemory s) m' {p}" unfolding same_pages_def same_page_def
  proof (intro allI impI)
    fix q x assume "q mod PGSIZE = 0" "q \<notin> {p}" "in_page q x"
    then have "\<not> in_page p x" using in_page_unique [of p x q] p(4) by auto
    then show "m' x = kmemory s x" by (rule assms(3))
  qed
  have k: "kmem_inv (set_mem s m') vs" by (rule kmem_inv_write [OF D(1) sm]) (use D(5) [OF p(1)] in simp)
  have "owned (kmemory s) pgdir \<inter> set vs = {}" using D(5) by auto
  note C = space_cong [OF assms(1) k _ this, simplified]
  have own: "same_page (kmemory s) m' q" if "q \<in> insert pgdir (tables (kmemory s) pgdir)" for q
    by (rule same_pagesD [OF sm]) (use that p D(5) [of q] ram_aligned in \<open>auto simp: owned_def\<close>)
  show "space (set_mem s m') vs pgdir" "vmap m' pgdir = vmap (kmemory s) pgdir" "frames m' pgdir = frames (kmemory s) pgdir"
    using C own by simp_all
qed

lemma user_at_frame:
  assumes "space s vs pgdir" and "user_at (kmemory s) pgdir w = Some x" and "0 \<le> w" and "w < KERNBASE"
  obtains e where "vmap (kmemory s) pgdir (w div 4096) = Some e" and "x = frame e + w mod 4096" and "in_page (frame e) x"
    and "frame e mod PGSIZE = 0" and "w div 4096 \<in> user_pages (kmemory s) pgdir"
proof -
  obtain e where e: "vmap (kmemory s) pgdir (w div 4096) = Some e" "x = frame e + w mod 4096"
    using assms(2) by (auto simp: user_at_def split: option.splits if_splits)
  have "w div 4096 < USER" "0 \<le> w div 4096" using assms(3,4) by (auto simp: KERNBASE_def)
  note dealloc_frame [OF assms(1) e(1) this(2,1)]
  then show thesis by (intro that [OF e]) (use e \<open>w div 4096 < USER\<close> \<open>0 \<le> w div 4096\<close> ram_aligned in \<open>auto simp: in_page_def user_pages_def\<close>)
qed

lemma user_at_page:
  assumes "space s vs pgdir" and "user_at (kmemory s) pgdir w = Some x" and "0 \<le> w" and "w < KERNBASE"
  shows "\<exists>p \<in> frames (kmemory s) pgdir. in_page p x"
proof -
  obtain e where e: "vmap (kmemory s) pgdir (w div 4096) = Some e" "in_page (frame e) x" "w div 4096 \<in> user_pages (kmemory s) pgdir"
    by (rule user_at_frame [OF assms])
  then have "frame e \<in> frames (kmemory s) pgdir" unfolding frames_def by force
  then show ?thesis using e(2) by blast
qed

lemma user_at_inj:
  assumes "space s vs pgdir" and "user_at (kmemory s) pgdir w = Some x" and "user_at (kmemory s) pgdir w' = Some x"
    and "0 \<le> w" and "w < KERNBASE" and "0 \<le> w'" and "w' < KERNBASE"
  shows "w = w'"
proof -
  obtain e where e: "vmap (kmemory s) pgdir (w div 4096) = Some e" "x = frame e + w mod 4096" "in_page (frame e) x"
    "frame e mod PGSIZE = 0" "w div 4096 \<in> user_pages (kmemory s) pgdir" by (rule user_at_frame [OF assms(1,2,4,5)])
  obtain e' where e': "vmap (kmemory s) pgdir (w' div 4096) = Some e'" "x = frame e' + w' mod 4096" "in_page (frame e') x"
    "frame e' mod PGSIZE = 0" "w' div 4096 \<in> user_pages (kmemory s) pgdir" by (rule user_at_frame [OF assms(1,3,6,7)])
  have f: "frame e = frame e'" by (rule in_page_unique [OF e(3) e'(3) e(4) e'(4)])
  have "inj_on (\<lambda>vp. frame (the (vmap (kmemory s) pgdir vp))) (user_pages (kmemory s) pgdir)" using assms(1) by (simp add: space_def)
  then have "w div 4096 = w' div 4096" by (rule inj_onD) (use e(1,5) e'(1,5) f in simp_all)
  moreover have "w mod 4096 = w' mod 4096" using e(2) e'(2) f by simp
  ultimately show ?thesis by (metis div_mult_mod_eq)
qed

text \<open>What a copy to user memory promises.\<close>

definition copied :: "mem \<Rightarrow> int \<Rightarrow> int \<Rightarrow> int \<Rightarrow> nat \<Rightarrow> mem \<Rightarrow> bool" where
  "copied m pgdir va buf len m' \<longleftrightarrow>
     (\<forall>i < len. m' (the (user_at m pgdir (va + int i))) = m (buf + int i))
     \<and> (\<forall>x. (\<forall>i < len. user_at m pgdir (va + int i) \<noteq> Some x) \<longrightarrow> m' x = m x)"

lemma user_at_cong: "vmap m' pgdir = vmap m pgdir \<Longrightarrow> user_at m' pgdir = user_at m pgdir"
  by (simp add: user_at_def fun_eq_iff)

lemma copied_append:
  assumes "space s vs pgdir" and "0 \<le> va" and "va + int (n + k) \<le> KERNBASE" and "copied (kmemory s) pgdir va buf n m\<^sub>1"
    and "copied m\<^sub>1 pgdir (va + int n) (buf + int n) k m'" and "vmap m\<^sub>1 pgdir = vmap (kmemory s) pgdir"
    and "\<And>i j. i < n + k \<Longrightarrow> j < n \<Longrightarrow> user_at (kmemory s) pgdir (va + int j) \<noteq> Some (buf + int i)"
    and "\<And>i. i < n + k \<Longrightarrow> user_at (kmemory s) pgdir (va + int i) \<noteq> None"
  shows "copied (kmemory s) pgdir va buf (n + k) m'"
proof -
  let ?u = "user_at (kmemory s) pgdir"
  have C: "\<And>i. i < n \<Longrightarrow> m\<^sub>1 (the (?u (va + int i))) = kmemory s (buf + int i)" "\<And>x. \<forall>i < n. ?u (va + int i) \<noteq> Some x \<Longrightarrow> m\<^sub>1 x = kmemory s x"
    using assms(4) by (auto simp: copied_def)
  have C': "\<And>i. i < k \<Longrightarrow> m' (the (?u (va + int n + int i))) = m\<^sub>1 (buf + int n + int i)" "\<And>x. \<forall>i < k. ?u (va + int n + int i) \<noteq> Some x \<Longrightarrow> m' x = m\<^sub>1 x"
    using assms(5) unfolding copied_def user_at_cong [OF assms(6)] by (auto simp: add.assoc)
  have "m' (the (?u (va + int i))) = kmemory s (buf + int i)" if i: "i < n + k" for i
  proof (cases "i < n")
    case True
    obtain x where x: "?u (va + int i) = Some x" using assms(8) i by blast
    have "?u (va + int n + int j) \<noteq> Some x" if "j < k" for j
      using user_at_inj [OF assms(1) x, of "va + int n + int j"] assms(2,3) that True i by auto
    then show ?thesis using C'(2) [of x] C(1) [OF True] x by simp
  next
    case False
    then obtain j where j: "i = n + j" "j < k" using i by (metis add_less_cancel_left le_Suc_ex linorder_not_less)
    have "m\<^sub>1 (buf + int i) = kmemory s (buf + int i)" by (rule C(2)) (use assms(7) [OF i] in blast)
    then have "m\<^sub>1 (buf + int n + int j) = kmemory s (buf + int i)" using j(1) by (simp add: add.assoc)
    then show ?thesis using C'(1) [OF j(2)] j(1) by (simp add: add.assoc)
  qed
  moreover have "m' x = kmemory s x" if x: "\<forall>i < n + k. ?u (va + int i) \<noteq> Some x" for x
  proof -
    have "?u (va + int n + int i) \<noteq> Some x" if "i < k" for i using x that by (metis add.assoc add_less_cancel_left of_nat_add)
    then have "m' x = m\<^sub>1 x" using C'(2) by blast
    also have "\<dots> = kmemory s x" using C(2) x by simp
    finally show ?thesis .
  qed
  ultimately show ?thesis by (simp add: copied_def)
qed

lemma copied_page:
  assumes "\<And>w. w div 4096 = va div 4096 \<Longrightarrow> user_at m pgdir w = Some (p + w mod 4096)" and "int n \<le> 4096 - va mod 4096"
  shows "copied m pgdir va buf n (memmove m (p + va mod 4096) buf n)"
proof -
  have u: "user_at m pgdir (va + int i) = Some (p + va mod 4096 + int i)" if "i < n" for i
  proof -
    have "va + int i = 4096 * (va div 4096) + (va mod 4096 + int i)" by simp
    moreover have "0 \<le> va mod 4096 + int i" "va mod 4096 + int i < 4096" using that assms(2) by simp_all
    ultimately have "(va + int i) div 4096 = va div 4096" "(va + int i) mod 4096 = va mod 4096 + int i"
      by (metis int_div_pos_eq, metis int_mod_pos_eq)
    then show ?thesis using assms(1) by simp
  qed
  have x: "\<exists>i < n. x = p + va mod 4096 + int i" if "p + va mod 4096 \<le> x" "x < p + va mod 4096 + int n" for x
    by (rule exI [of _ "nat (x - (p + va mod 4096))"]) (use that in auto)
  show ?thesis unfolding copied_def
  proof (intro conjI allI impI)
    show "memmove m (p + va mod 4096) buf n (the (user_at m pgdir (va + int i))) = m (buf + int i)" if "i < n" for i
      using that by (simp add: u memmove_copies block_copied_def add.commute)
    fix y assume "\<forall>i < n. user_at m pgdir (va + int i) \<noteq> Some y"
    then have "\<not> (p + va mod 4096 \<le> y \<and> y < p + va mod 4096 + int n)" using u x by metis
    then show "memmove m (p + va mod 4096) buf n y = m y" unfolding memmove_copies block_copied_def by auto
  qed
qed

text \<open>C24: Copying to a user's memory (\<open>copyout\<close>), page by page through the page table. If the user may reach each
  byte of the destination and the source is not part of it, the call returns 0, the bytes of the destination
  are those of the source and no other byte of memory has changed, whichever page boundaries the destination crosses; the mappings and
  the free list are kept.\<close>

theorem copyout_correct:
  assumes "space s vs pgdir" and "0 \<le> va" and "va + int len \<le> KERNBASE"
    and "\<And>i. i < len \<Longrightarrow> user_at (kmemory s) pgdir (va + int i) \<noteq> None"
    and "\<And>i p. i < len \<Longrightarrow> p \<in> frames (kmemory s) pgdir \<Longrightarrow> \<not> in_page p (buf + int i)"
  shows "\<exists>s'. copyout s pgdir va buf len = Some (s', 0) \<and> space s' vs pgdir \<and> vmap (kmemory s') pgdir = vmap (kmemory s) pgdir
    \<and> copied (kmemory s) pgdir va buf len (kmemory s')"
  using assms
proof (induction len arbitrary: s va buf rule: less_induct)
  case (less len)
  note prems = less.prems
  show ?case
  proof (cases "len = 0")
    case True
    then show ?thesis using prems(1) by (simp add: copyout.simps copied_def)
  next
    case False
    define n where "n = (if nat (4096 - va mod 4096) > len then len else nat (4096 - va mod 4096))"
    have va: "va < KERNBASE" using prems(3) False by simp
    have n: "0 < n" "n \<le> len" "int n \<le> 4096 - va mod 4096" "va - PGROUNDDOWN va = va mod 4096"
      using False by (auto simp: n_def PGROUNDDOWN_def minus_div_mult_eq_mod)
    obtain x where "user_at (kmemory s) pgdir va = Some x" using prems(4) [of 0] False by auto
    then obtain p where p: "uva2ka s pgdir (PGROUNDDOWN va) = Some p" "p \<noteq> 0" "p \<in> frames (kmemory s) pgdir"
      "\<And>w. w div 4096 = va div 4096 \<Longrightarrow> user_at (kmemory s) pgdir w = Some (p + w mod 4096)"
      using uva2ka_user [OF prems(1,2) va] by metis
    define m where "m = memmove (kmemory s) (p + va mod 4096) buf n"
    have C: "copied (kmemory s) pgdir va buf n m" unfolding m_def by (rule copied_page [OF p(4) n(3)])
    have "m y = kmemory s y" if "\<not> in_page p y" for y
      using that n(3) pos_mod_sign [of 4096 va] unfolding m_def memmove_copies block_copied_def in_page_def by auto
    note S = space_write_frame [OF prems(1) p(3) this]
    have u: "user_at m pgdir = user_at (kmemory s) pgdir" by (rule user_at_cong [OF S(2)])
    have dis: "user_at (kmemory s) pgdir (va + int j) \<noteq> Some (buf + int i)" if "i < len" "j < len" for i j
      using user_at_page [OF prems(1), of "va + int j" "buf + int i"] prems(2,3) prems(5) [OF that(1)] that(2) by fastforce
    have step: "copyout s pgdir va buf len = copyout (set_mem s m) pgdir (uint32 (PGROUNDDOWN va + PGSIZE)) (buf + int n) (len - n)"
      using False p(1,2) n(4) by (subst copyout.simps) (simp add: Let_def n_def m_def)
    have nxt: "uint32 (PGROUNDDOWN va + PGSIZE) = va + int n \<or> n = len"
      using n(4) prems(2,3) va pos_mod_sign [of 4096 va] pos_mod_bound [of 4096 va] False unfolding n_def KERNBASE_def by auto
    show ?thesis
    proof (cases "n = len")
      case True
      then show ?thesis using step S C by (simp add: copyout.simps)
    next
      case less_len: False
      then have "copyout s pgdir va buf len = copyout (set_mem s m) pgdir (va + int n) (buf + int n) (len - n)" using step nxt by simp
      moreover obtain s' where "copyout (set_mem s m) pgdir (va + int n) (buf + int n) (len - n) = Some (s', 0)" "space s' vs pgdir"
        "vmap (kmemory s') pgdir = vmap m pgdir" "copied m pgdir (va + int n) (buf + int n) (len - n) (kmemory s')"
      proof (atomize_elim, rule less.IH [of "len - n" "set_mem s m" "va + int n" "buf + int n", simplified])
        show "len - n < len" "space (set_mem s m) vs pgdir" "0 \<le> va + int n" using n prems(2) S(1) False by auto
        show "va + int n + int (len - n) \<le> KERNBASE" using n(2) prems(3) by simp
        show "\<exists>y. user_at m pgdir (va + int n + int i) = Some y" if "i < len - n" for i
          using prems(4) [of "n + i"] that n(2) u by (simp add: add.assoc)
        show "\<not> in_page q (buf + int n + int i)" if "i < len - n" "q \<in> frames m pgdir" for i q
          using prems(5) [of "n + i" q] that n(2) S(3) by (simp add: add.assoc)
      qed
      moreover have "copied (kmemory s) pgdir va buf (n + (len - n)) (kmemory s')"
        by (rule copied_append [OF prems(1,2) _ C]) (use calculation prems(3,4) n S dis in auto)
      ultimately show ?thesis using S(2) n(2) by auto
    qed
  qed
qed

lemma vm_example_grown:
  "\<exists>s vs. allocuvm vm_example 2148532224 0 4096 = Some (s, 4096) \<and> grown vm_example [2149584896, 2149580800] 2148532224 {0} s vs"
proof -
  have "{vp. 0 \<le> vp * 4096 \<and> vp * 4096 < (4096::int)} = {0}" "PGROUNDUP 0 = 0" by (auto simp: PGROUNDUP_def)
  then show ?thesis
    using allocuvm_from_correct [OF vm_example_space(1), of 0 0 4096] vm_example_space(2) by (auto simp: KERNBASE_def allocuvm_def)
qed

theorem copyout_correct_witness:
  "\<exists>s s'. allocuvm vm_example 2148532224 0 4096 = Some (s, 4096) \<and> copyout s 2148532224 10 2148536320 3 = Some (s', 0)
    \<and> copied (kmemory s) 2148532224 10 2148536320 3 (kmemory s')"
proof -
  obtain s vs where s: "allocuvm vm_example 2148532224 0 4096 = Some (s, 4096)" "grown vm_example [2149584896, 2149580800] 2148532224 {0} s vs"
    using vm_example_grown by blast
  obtain r where r: "r \<in> set [2149584896, 2149580800]" "vmap (kmemory s) 2148532224 0 = Some (V2P r OR (PTE_W OR PTE_U) OR PTE_P)"
    using grownD(5) [OF s(2), of 0] by auto
  have "(V2P r OR (PTE_W OR PTE_U) OR PTE_P) AND PTE_U \<noteq> 0" using r(1) by (auto simp: V2P_def KERNBASE_def)
  then have u: "user_at (kmemory s) 2148532224 (10 + int i) \<noteq> None" if "i < 3" for i using r(2) that by (simp add: user_at_def)
  have "frames (kmemory vm_example) 2148532224 = {}" using vm_example_space(2) by (simp add: frames_def user_pages_def)
  then have f: "\<not> in_page p (2148536320 + int i)" if "i < 3" "p \<in> frames (kmemory s) 2148532224" for i p
    using grown_frames [OF s(2)] that by (auto simp: in_page_def)
  show ?thesis using copyout_correct [OF grownD(1) [OF s(2)], of 10 3 2148536320] u f s(1) by (auto simp: KERNBASE_def)
qed

end
