(* ===== verification/Xv6_Proc.thy ===== *)
theory Xv6_Proc
  imports Prelude
begin

text \<open>
  The process table of xv6, \<open>hw09/unnas-hw09/xv6/proc.c\<close>: creation, exit and reaping of processes, sleeping and waking,
  killing, and the scheduler of every CPU.

  A process is an index of the table. The lock of the table makes each operation one step but for \<open>fork\<close>, which
  holds the lock only while it takes an entry and again while it makes the child runnable: it is a sequence of
  five steps, between which other processes run, and \<open>forkpc\<close> says where in it a process is (what the code has on its
  kernel stack). A process in the middle of \<open>fork\<close> is in the kernel and does not sleep, so it can only be preempted or go on.
  The writes of \<open>fork\<close> without the lock are to an entry that belongs to the caller, and the other scans of the table are
  for other parents. What \<open>kalloc\<close> and \<open>copyuvm\<close> return is an argument. Registers, open files and the current directory are left out; a switch to the scheduler is
  the CPU losing its process. The address of a table entry, used as a channel by \<open>wait\<close>, is
  different from every other channel. A panic has no result.
\<close>

section \<open>proc.h\<close>

datatype procstate = UNUSED | EMBRYO | SLEEPING | RUNNABLE | RUNNING | ZOMBIE

datatype channel = No_chan | Proc_chan nat | Chan int

record proc =
  psz :: int
  pgdir :: int
  kstack :: int
  pstate :: procstate
  pid :: int
  parent :: "nat option"
  chan :: channel
  killed :: bool

text \<open>The table, with the process that each CPU runs and the place of each process in \<open>fork\<close>.\<close>

datatype fork_pc = Outside | Slot nat | Stacked nat | Copied nat | Linked nat

record ptable =
  procs :: "proc list"
  nextpid :: int
  initproc :: nat
  cpus :: "nat option list"
  forkpc :: "nat \<Rightarrow> fork_pc"

section \<open>proc.c\<close>

definition upd :: "ptable \<Rightarrow> nat \<Rightarrow> (proc \<Rightarrow> proc) \<Rightarrow> ptable" where
  "upd s i f = s\<lparr>procs := (procs s)[i := f (procs s ! i)]\<rparr>"

fun find_unused :: "proc list \<Rightarrow> nat \<Rightarrow> nat option" where
  "find_unused [] i = None"
| "find_unused (p # ps) i = (if pstate p = UNUSED then Some i else find_unused ps (Suc i))"

text \<open>\<open>allocproc\<close>: an entry is taken under the lock, the stack is allocated behind it.\<close>

definition alloc_slot :: "ptable \<Rightarrow> nat option \<times> ptable" where
  "alloc_slot s =
     (case find_unused (procs s) 0 of
        None \<Rightarrow> (None, s)
      | Some i \<Rightarrow> (Some i, (upd s i (\<lambda>p. p\<lparr>pstate := EMBRYO, pid := nextpid s\<rparr>))\<lparr>nextpid := cint (nextpid s + 1)\<rparr>))"

definition alloc_stack :: "ptable \<Rightarrow> nat \<Rightarrow> int \<Rightarrow> nat option \<times> ptable" where
  "alloc_stack s i stack =
     (let s = upd s i (\<lambda>p. p\<lparr>kstack := stack\<rparr>)
      in if stack = 0 then (None, upd s i (\<lambda>p. p\<lparr>pstate := UNUSED\<rparr>)) else (Some i, s))"

definition allocproc :: "ptable \<Rightarrow> int \<Rightarrow> nat option \<times> ptable" where
  "allocproc s stack =
     (case alloc_slot s of
        (None, s) \<Rightarrow> (None, s)
      | (Some i, s) \<Rightarrow> alloc_stack s i stack)"

text \<open>The parts of \<open>fork\<close> behind \<open>allocproc\<close>: the copy of the address space, the link to the parent, and the child
  made runnable under the lock.\<close>

definition fork_copy :: "ptable \<Rightarrow> nat \<Rightarrow> int \<Rightarrow> bool \<times> ptable" where
  "fork_copy s np dir =
     (let s = upd s np (\<lambda>p. p\<lparr>pgdir := dir\<rparr>)
      in if dir = 0 then (False, upd s np (\<lambda>p. p\<lparr>kstack := 0, pstate := UNUSED\<rparr>)) else (True, s))"

definition fork_link :: "ptable \<Rightarrow> nat \<Rightarrow> nat \<Rightarrow> ptable" where
  "fork_link s cur np = upd s np (\<lambda>p. p\<lparr>psz := psz (procs s ! cur), parent := Some cur\<rparr>)"

definition fork_ready :: "ptable \<Rightarrow> nat \<Rightarrow> ptable" where
  "fork_ready s np = upd s np (\<lambda>p. p\<lparr>pstate := RUNNABLE\<rparr>)"

text \<open>\<open>fork\<close> when nothing comes between, and one of its steps; \<open>a\<close> is what \<open>kalloc\<close> or \<open>copyuvm\<close> returns in it.\<close>

definition fork :: "ptable \<Rightarrow> nat \<Rightarrow> int \<Rightarrow> int \<Rightarrow> int \<times> ptable" where
  "fork s cur stack dir =
     (case allocproc s stack of
        (None, s) \<Rightarrow> (- 1, s)
      | (Some np, s) \<Rightarrow>
          (case fork_copy s np dir of
             (False, s) \<Rightarrow> (- 1, s)
           | (True, s) \<Rightarrow>
               let s = fork_link s cur np
               in (pid (procs s ! np), fork_ready s np)))"

fun fork_step :: "ptable \<Rightarrow> nat \<Rightarrow> fork_pc \<Rightarrow> int \<Rightarrow> fork_pc \<times> ptable" where
  "fork_step s cur Outside a = (case alloc_slot s of (None, s) \<Rightarrow> (Outside, s) | (Some np, s) \<Rightarrow> (Slot np, s))"
| "fork_step s cur (Slot np) a = (case alloc_stack s np a of (None, s) \<Rightarrow> (Outside, s) | (Some np, s) \<Rightarrow> (Stacked np, s))"
| "fork_step s cur (Stacked np) a = (case fork_copy s np a of (False, s) \<Rightarrow> (Outside, s) | (True, s) \<Rightarrow> (Copied np, s))"
| "fork_step s cur (Copied np) a = (Linked np, fork_link s cur np)"
| "fork_step s cur (Linked np) a = (Outside, fork_ready s np)"

text \<open>The table at boot, and the first process. A null entry from \<open>allocproc\<close> is dereferenced: no result.\<close>

definition NPROC :: nat where
  "NPROC = 64"

definition ptable0 :: "nat \<Rightarrow> ptable" where
  "ptable0 ncpu =
     \<lparr>procs = replicate NPROC \<lparr>psz = 0, pgdir = 0, kstack = 0, pstate = UNUSED, pid = 0, parent = None, chan = No_chan, killed = False\<rparr>,
      nextpid = 1, initproc = 0, cpus = replicate ncpu None, forkpc = \<lambda>_. Outside\<rparr>"

definition userinit :: "ptable \<Rightarrow> int \<Rightarrow> int \<Rightarrow> ptable option" where
  "userinit s stack dir =
     (case allocproc s stack of
        (None, s) \<Rightarrow> None
      | (Some p, s) \<Rightarrow>
          if dir = 0 then None
          else Some ((upd s p (\<lambda>q. q\<lparr>pgdir := dir, psz := 4096, pstate := RUNNABLE\<rparr>))\<lparr>initproc := p\<rparr>))"

definition wakeup1 :: "ptable \<Rightarrow> channel \<Rightarrow> ptable" where
  "wakeup1 s ch = s\<lparr>procs := map (\<lambda>p. if pstate p = SLEEPING \<and> chan p = ch then p\<lparr>pstate := RUNNABLE\<rparr> else p) (procs s)\<rparr>"

definition wakeup :: "ptable \<Rightarrow> channel \<Rightarrow> ptable" where
  "wakeup s ch = wakeup1 s ch"

text \<open>\<open>sched\<close> on CPU \<open>c\<close>: back to the scheduler.\<close>

definition sched :: "ptable \<Rightarrow> nat \<Rightarrow> nat \<Rightarrow> ptable option" where
  "sched s c p = (if pstate (procs s ! p) = RUNNING then None else Some (s\<lparr>cpus := (cpus s)[c := None]\<rparr>))"

fun chan_of :: "nat option \<Rightarrow> channel" where
  "chan_of None = No_chan"
| "chan_of (Some q) = Proc_chan q"

fun reparent :: "ptable \<Rightarrow> nat \<Rightarrow> nat list \<Rightarrow> ptable" where
  "reparent s cur [] = s"
| "reparent s cur (i # is) =
     (if parent (procs s ! i) = Some cur then
        let s = upd s i (\<lambda>p. p\<lparr>parent := Some (initproc s)\<rparr>)
        in reparent (if pstate (procs s ! i) = ZOMBIE then wakeup1 s (Proc_chan (initproc s)) else s) cur is
      else reparent s cur is)"

definition proc_exit :: "ptable \<Rightarrow> nat \<Rightarrow> nat \<Rightarrow> ptable option" where
  "proc_exit s c cur =
     (if cur = initproc s then None
      else
        let s = wakeup1 s (chan_of (parent (procs s ! cur)));
            s = reparent s cur [0..<length (procs s)]
        in sched (upd s cur (\<lambda>p. p\<lparr>pstate := ZOMBIE\<rparr>)) c cur)"

definition sleep :: "ptable \<Rightarrow> nat \<Rightarrow> nat \<Rightarrow> channel \<Rightarrow> ptable option" where
  "sleep s c p ch = sched (upd s p (\<lambda>p. p\<lparr>chan := ch, pstate := SLEEPING\<rparr>)) c p"

text \<open>What \<open>sleep\<close> does when the process runs again.\<close>

definition sleep_tidy :: "ptable \<Rightarrow> nat \<Rightarrow> ptable" where
  "sleep_tidy s p = upd s p (\<lambda>p. p\<lparr>chan := No_chan\<rparr>)"

fun find_zombie :: "proc list \<Rightarrow> nat \<Rightarrow> nat \<Rightarrow> nat option" where
  "find_zombie [] cur i = None"
| "find_zombie (p # ps) cur i =
     (if parent p = Some cur \<and> pstate p = ZOMBIE then Some i else find_zombie ps cur (Suc i))"

datatype waited = Returned int | Asleep

text \<open>One pass of the loop of \<open>wait\<close>.\<close>

definition wait :: "ptable \<Rightarrow> nat \<Rightarrow> nat \<Rightarrow> (waited \<times> ptable) option" where
  "wait s c cur =
     (case find_zombie (procs s) cur 0 of
        Some i \<Rightarrow> Some (Returned (pid (procs s ! i)),
          upd s i (\<lambda>p. p\<lparr>kstack := 0, pid := 0, parent := None, killed := False, pstate := UNUSED\<rparr>))
      | None \<Rightarrow>
          if \<not> (\<exists>p \<in> set (procs s). parent p = Some cur) \<or> killed (procs s ! cur) then Some (Returned (- 1), s)
          else map_option (\<lambda>s. (Asleep, s)) (sleep s c cur (Proc_chan cur)))"

text \<open>The scheduler of CPU \<open>c\<close> takes the process \<open>p\<close>.\<close>

definition schedule :: "ptable \<Rightarrow> nat \<Rightarrow> nat \<Rightarrow> ptable" where
  "schedule s c p = (upd s p (\<lambda>p. p\<lparr>pstate := RUNNING\<rparr>))\<lparr>cpus := (cpus s)[c := Some p]\<rparr>"

definition yield :: "ptable \<Rightarrow> nat \<Rightarrow> nat \<Rightarrow> ptable option" where
  "yield s c p = sched (upd s p (\<lambda>p. p\<lparr>pstate := RUNNABLE\<rparr>)) c p"

fun find_pid :: "proc list \<Rightarrow> int \<Rightarrow> nat \<Rightarrow> nat option" where
  "find_pid [] k i = None"
| "find_pid (p # ps) k i = (if pid p = k then Some i else find_pid ps k (Suc i))"

definition kill :: "ptable \<Rightarrow> int \<Rightarrow> int \<times> ptable" where
  "kill s k =
     (case find_pid (procs s) k 0 of
        None \<Rightarrow> (- 1, s)
      | Some i \<Rightarrow> (0, upd s i (\<lambda>p. (if pstate p = SLEEPING then p\<lparr>pstate := RUNNABLE\<rparr> else p)\<lparr>killed := True\<rparr>)))"

section \<open>The system\<close>

inductive proc_step :: "ptable \<Rightarrow> ptable \<Rightarrow> bool" where
  schedules: "c < length (cpus s) \<Longrightarrow> cpus s ! c = None \<Longrightarrow> p < length (procs s) \<Longrightarrow> pstate (procs s ! p) = RUNNABLE
    \<Longrightarrow> proc_step s (schedule s c p)"
| yields: "c < length (cpus s) \<Longrightarrow> cpus s ! c = Some p \<Longrightarrow> yield s c p = Some s' \<Longrightarrow> proc_step s s'"
| sleeps: "c < length (cpus s) \<Longrightarrow> cpus s ! c = Some p \<Longrightarrow> forkpc s p = Outside \<Longrightarrow> sleep s c p (Chan a) = Some s' \<Longrightarrow> proc_step s s'"
| tidies: "c < length (cpus s) \<Longrightarrow> cpus s ! c = Some p \<Longrightarrow> forkpc s p = Outside \<Longrightarrow> proc_step s (sleep_tidy s p)"
| forks: "c < length (cpus s) \<Longrightarrow> cpus s ! c = Some p \<Longrightarrow> fork_step s p (forkpc s p) a = (pc, s')
    \<Longrightarrow> proc_step s (s'\<lparr>forkpc := (forkpc s)(p := pc)\<rparr>)"
| exits: "c < length (cpus s) \<Longrightarrow> cpus s ! c = Some p \<Longrightarrow> forkpc s p = Outside \<Longrightarrow> proc_exit s c p = Some s' \<Longrightarrow> proc_step s s'"
| waits: "c < length (cpus s) \<Longrightarrow> cpus s ! c = Some p \<Longrightarrow> forkpc s p = Outside \<Longrightarrow> wait s c p = Some (r', s') \<Longrightarrow> proc_step s s'"
| wakes: "proc_step s (wakeup s (Chan a))"
| kills: "kill s k = (r, s') \<Longrightarrow> proc_step s s'"

section \<open>The process tree\<close>

definition live :: "procstate \<Rightarrow> bool" where
  "live st \<longleftrightarrow> st = SLEEPING \<or> st = RUNNABLE \<or> st = RUNNING"

definition alive :: "proc list \<Rightarrow> nat \<Rightarrow> bool" where
  "alive ps p \<longleftrightarrow> p < length ps \<and> live (pstate (ps ! p))"

text \<open>No child of a process that sleeps in \<open>wait\<close> is a zombie.\<close>

definition not_missed :: "proc list \<Rightarrow> nat \<Rightarrow> bool" where
  "not_missed ps p \<longleftrightarrow> (\<forall>q. pstate (ps ! p) = SLEEPING \<longrightarrow> chan (ps ! p) = Proc_chan q \<longrightarrow>
     q = p \<and> (\<forall>z < length ps. parent (ps ! z) = Some p \<longrightarrow> pstate (ps ! z) \<noteq> ZOMBIE))"

text \<open>The state of an entry that no process has yet, or that \<open>fork\<close> is still filling in.\<close>

definition unborn :: "procstate \<Rightarrow> bool" where
  "unborn st \<longleftrightarrow> st = UNUSED \<or> st = EMBRYO"

definition tree_inv :: "nat \<Rightarrow> proc list \<Rightarrow> bool" where
  "tree_inv i ps \<longleftrightarrow> alive ps i \<and> parent (ps ! i) = None
     \<and> (\<forall>p < length ps. pstate (ps ! p) = UNUSED \<longrightarrow> parent (ps ! p) = None)
     \<and> (\<forall>p < length ps. \<not> unborn (pstate (ps ! p)) \<longrightarrow> p \<noteq> i \<longrightarrow> parent (ps ! p) \<noteq> None)
     \<and> (\<forall>p < length ps. \<forall>q. parent (ps ! p) = Some q \<longrightarrow> q \<noteq> p \<and> alive ps q)
     \<and> (\<forall>p < length ps. not_missed ps p)"

lemma tree_invD:
  assumes "tree_inv i ps" and "p < length ps"
  shows "pstate (ps ! p) = UNUSED \<Longrightarrow> parent (ps ! p) = None" and "\<not> unborn (pstate (ps ! p)) \<Longrightarrow> p \<noteq> i \<Longrightarrow> parent (ps ! p) \<noteq> None"
    and "parent (ps ! p) = Some q \<Longrightarrow> q \<noteq> p \<and> alive ps q \<and> p \<noteq> i \<and> pstate (ps ! p) \<noteq> UNUSED" and "not_missed ps p"
  using assms unfolding tree_inv_def by (blast, blast, force, blast)

lemma tree_invI:
  assumes "alive ps i" and "parent (ps ! i) = None"
    and "\<And>p. p < length ps \<Longrightarrow> pstate (ps ! p) = UNUSED \<Longrightarrow> parent (ps ! p) = None"
    and "\<And>p. p < length ps \<Longrightarrow> \<not> unborn (pstate (ps ! p)) \<Longrightarrow> p \<noteq> i \<Longrightarrow> parent (ps ! p) \<noteq> None"
    and "\<And>p q. p < length ps \<Longrightarrow> parent (ps ! p) = Some q \<Longrightarrow> q \<noteq> p \<and> alive ps q"
    and "\<And>p. p < length ps \<Longrightarrow> not_missed ps p"
  shows "tree_inv i ps"
  unfolding tree_inv_def using assms by blast

lemma tree_inv_init:
  assumes "tree_inv i ps"
  shows "alive ps i" and "i < length ps" and "parent (ps ! i) = None"
  using assms by (simp_all add: tree_inv_def alive_def)

text \<open>Changes of one entry that keep its parent and keep it alive.\<close>

lemma tree_inv_update:
  assumes "tree_inv i ps" and "alive ps p" and "live (pstate v)" and "parent v = parent (ps ! p)"
    and "\<And>q. pstate v = SLEEPING \<Longrightarrow> chan v = Proc_chan q
        \<Longrightarrow> q = p \<and> (\<forall>z < length ps. parent (ps ! z) = Some p \<longrightarrow> pstate (ps ! z) \<noteq> ZOMBIE)"
  shows "tree_inv i (ps[p := v])"
proof -
  have p: "p < length ps" "live (pstate (ps ! p))" using assms(2) by (simp_all add: alive_def)
  have al: "alive (ps[p := v]) q = alive ps q" for q
    using p assms(3) by (cases "q = p") (simp_all add: alive_def)
  have par: "parent (ps[p := v] ! q) = parent (ps ! q)" if "q < length ps" for q
    using assms(4) that by (cases "q = p") simp_all
  have z: "pstate (ps[p := v] ! q) = ZOMBIE \<longleftrightarrow> pstate (ps ! q) = ZOMBIE"
    "pstate (ps[p := v] ! q) = UNUSED \<longleftrightarrow> pstate (ps ! q) = UNUSED" if "q < length ps" for q
    using p assms(3) that by (cases "q = p"; auto simp: live_def)+
  have em: "unborn (pstate (ps[p := v] ! q)) = unborn (pstate (ps ! q))" if "q < length ps" for q
    using p assms(3) that by (cases "q = p") (auto simp: live_def unborn_def)
  have nm: "not_missed (ps[p := v]) q" if q: "q < length ps" for q
  proof (cases "q = p")
    case True
    have "\<forall>y < length ps. parent (ps[p := v] ! y) = Some p \<longrightarrow> pstate (ps[p := v] ! y) \<noteq> ZOMBIE"
      if "pstate v = SLEEPING" "chan v = Proc_chan r" for r using assms(5) [OF that] z(1) par by simp
    then show ?thesis using True q assms(5) unfolding not_missed_def by auto
  next
    case False
    then show ?thesis using tree_invD(4) [OF assms(1) q] z(1) par by (simp add: not_missed_def)
  qed
  have i: "i < length ps" using assms(1) by (simp add: tree_inv_def alive_def)
  show ?thesis unfolding tree_inv_def length_list_update al
    using assms(1) par [OF i] par z em nm unfolding tree_inv_def by simp
qed

lemma tree_inv_same:
  assumes "tree_inv i ps" and "pstate v = pstate (ps ! p)" and "parent v = parent (ps ! p)" and "chan v = chan (ps ! p)"
  shows "tree_inv i (ps[p := v])"
proof (cases "p < length ps")
  case True
  have same: "pstate (ps[p := v] ! q) = pstate (ps ! q)" "parent (ps[p := v] ! q) = parent (ps ! q)"
    "chan (ps[p := v] ! q) = chan (ps ! q)" for q
    using assms(2-4) True by (cases "q = p"; simp)+
  show ?thesis using assms(1) unfolding tree_inv_def not_missed_def alive_def length_list_update same .
qed (simp add: assms(1) list_update_beyond)

definition woken :: "channel \<Rightarrow> proc \<Rightarrow> proc" where
  "woken ch p = (if pstate p = SLEEPING \<and> chan p = ch then p\<lparr>pstate := RUNNABLE\<rparr> else p)"

lemma woken_simps [simp]: "parent (woken ch p) = parent p" "chan (woken ch p) = chan p"
  "pstate (woken ch p) = ZOMBIE \<longleftrightarrow> pstate p = ZOMBIE" "pstate (woken ch p) = UNUSED \<longleftrightarrow> pstate p = UNUSED"
  "pstate (woken ch p) = EMBRYO \<longleftrightarrow> pstate p = EMBRYO" "unborn (pstate (woken ch p)) = unborn (pstate p)" "live (pstate (woken ch p)) = live (pstate p)"
  "pstate (woken ch p) = RUNNING \<longleftrightarrow> pstate p = RUNNING"
  by (auto simp: woken_def live_def unborn_def)

lemma woken_sleeps: "pstate (woken ch p) = SLEEPING \<longleftrightarrow> pstate p = SLEEPING \<and> chan p \<noteq> ch"
  by (auto simp: woken_def)

lemma wakeup1_procs: "procs (wakeup1 s ch) = map (woken ch) (procs s)"
  by (simp add: wakeup1_def woken_def [abs_def])

lemma tree_inv_wakeup: "tree_inv i ps \<Longrightarrow> tree_inv i (map (woken ch) ps)"
proof -
  assume a: "tree_inv i ps"
  have al: "alive (map (woken ch) ps) q = alive ps q" for q by (auto simp: alive_def)
  have nm: "not_missed (map (woken ch) ps) p" if "p < length ps" for p
    using tree_invD(4) [OF a that] that by (auto simp: not_missed_def woken_sleeps)
  have "i < length ps" using a by (simp add: tree_inv_def alive_def)
  then show ?thesis using a nm unfolding tree_inv_def length_map al by simp
qed

lemma find_index_spec:
  "find_unused ps k = Some j \<Longrightarrow> k \<le> j \<and> j < k + length ps \<and> pstate (ps ! (j - k)) = UNUSED"
  "find_zombie ps cur k = Some j \<Longrightarrow> k \<le> j \<and> j < k + length ps \<and> parent (ps ! (j - k)) = Some cur \<and> pstate (ps ! (j - k)) = ZOMBIE"
  "find_pid ps n k = Some j \<Longrightarrow> k \<le> j \<and> j < k + length ps \<and> pid (ps ! (j - k)) = n"
proof -
  show "find_unused ps k = Some j \<Longrightarrow> k \<le> j \<and> j < k + length ps \<and> pstate (ps ! (j - k)) = UNUSED"
    by (induction ps arbitrary: k) (force simp: nth_Cons' split: if_splits)+
  show "find_zombie ps cur k = Some j \<Longrightarrow> k \<le> j \<and> j < k + length ps \<and> parent (ps ! (j - k)) = Some cur \<and> pstate (ps ! (j - k)) = ZOMBIE"
    by (induction ps arbitrary: k) (force simp: nth_Cons' split: if_splits)+
  show "find_pid ps n k = Some j \<Longrightarrow> k \<le> j \<and> j < k + length ps \<and> pid (ps ! (j - k)) = n"
    by (induction ps arbitrary: k) (force simp: nth_Cons' split: if_splits)+
qed

lemma find_zombie_None: "find_zombie ps cur k = None \<longleftrightarrow> (\<forall>p \<in> set ps. \<not> (parent p = Some cur \<and> pstate p = ZOMBIE))"
  by (induction ps arbitrary: k) auto

lemma not_missed_update:
  assumes "not_missed ps p" and "p \<noteq> k" and "pstate v \<noteq> ZOMBIE"
  shows "not_missed (ps[k := v]) p"
  unfolding not_missed_def length_list_update
proof (intro allI impI)
  fix q assume "pstate (ps[k := v] ! p) = SLEEPING" "chan (ps[k := v] ! p) = Proc_chan q"
  then have old: "q = p \<and> (\<forall>z < length ps. parent (ps ! z) = Some p \<longrightarrow> pstate (ps ! z) \<noteq> ZOMBIE)"
    using assms(1,2) unfolding not_missed_def by simp
  have "pstate (ps[k := v] ! z) \<noteq> ZOMBIE" if "z < length ps" "parent (ps[k := v] ! z) = Some p" for z
    using old that assms(3) by (cases "z = k") simp_all
  then show "q = p \<and> (\<forall>z < length ps. parent (ps[k := v] ! z) = Some p \<longrightarrow> pstate (ps[k := v] ! z) \<noteq> ZOMBIE)"
    using old by simp
qed

lemma not_missed_awake: "pstate (ps ! p) \<noteq> SLEEPING \<Longrightarrow> not_missed ps p"
  by (simp add: not_missed_def)

text \<open>An entry on its way from free to runnable, and a zombie that its parent reaps.\<close>

lemma tree_inv_born:
  assumes "tree_inv i ps" and "np < length ps" and "unborn (pstate (ps ! np))" and "unborn (pstate v) \<or> pstate v = RUNNABLE"
    and "\<And>q. parent v = Some q \<Longrightarrow> q \<noteq> np \<and> alive ps q" and "pstate v = UNUSED \<Longrightarrow> parent v = None"
    and "pstate v = RUNNABLE \<Longrightarrow> parent v \<noteq> None"
  shows "tree_inv i (ps[np := v])"
proof -
  note D = tree_invD [OF assms(1)] and init = tree_inv_init [OF assms(1)]
  have ne: "i \<noteq> np" using init(1) assms(3) by (auto simp: alive_def live_def unborn_def)
  have al: "alive (ps[np := v]) q" if "alive ps q" for q
    using that assms(3) by (cases "q = np") (auto simp: alive_def live_def unborn_def)
  have nz: "pstate v \<noteq> ZOMBIE" "pstate v \<noteq> SLEEPING" using assms(4) by (auto simp: unborn_def)
  have nm: "not_missed (ps[np := v]) p" if "p < length ps" for p
    using D(4) [OF that] assms(2) nz by (cases "p = np") (simp_all add: not_missed_update not_missed_awake)
  show ?thesis
  proof (rule tree_invI)
    fix p assume p: "p < length (ps[np := v])"
    show "parent (ps[np := v] ! p) = None" if "pstate (ps[np := v] ! p) = UNUSED"
      using that p D(1) assms(6) by (cases "p = np") simp_all
    show "parent (ps[np := v] ! p) \<noteq> None" if "\<not> unborn (pstate (ps[np := v] ! p))" "p \<noteq> i"
      using that p D(2) assms(4,7) by (cases "p = np") auto
    show "q \<noteq> p \<and> alive (ps[np := v]) q" if "parent (ps[np := v] ! p) = Some q" for q
      using that p D(3) [of p q] assms(5) [of q] al [of q] by (cases "p = np") auto
  qed (use al nm init ne in simp_all)
qed

lemma tree_inv_reap:
  assumes "tree_inv i ps" and "z < length ps" and "pstate (ps ! z) = ZOMBIE" and "pstate v = UNUSED" and "parent v = None"
  shows "tree_inv i (ps[z := v])"
proof -
  note D = tree_invD [OF assms(1)] and init = tree_inv_init [OF assms(1)]
  have ne: "i \<noteq> z" using init(1) assms(3) by (auto simp: alive_def live_def)
  have al: "alive (ps[z := v]) q" if "alive ps q" for q
    using that assms(3) by (cases "q = z") (auto simp: alive_def live_def)
  have nm: "not_missed (ps[z := v]) p" if "p < length ps" for p
    using D(4) [OF that] assms(2,4) by (cases "p = z") (simp_all add: not_missed_update not_missed_awake)
  show ?thesis
  proof (rule tree_invI)
    fix p assume p: "p < length (ps[z := v])"
    show "parent (ps[z := v] ! p) = None" if "pstate (ps[z := v] ! p) = UNUSED"
      using that p D(1) assms(5) by (cases "p = z") simp_all
    show "parent (ps[z := v] ! p) \<noteq> None" if "\<not> unborn (pstate (ps[z := v] ! p))" "p \<noteq> i"
      using that p D(2) assms(4) by (cases "p = z") (auto simp: unborn_def)
    show "q \<noteq> p \<and> alive (ps[z := v]) q" if "parent (ps[z := v] ! p) = Some q" for q
      using that p D(3) [of p q] assms(5) al [of q] by (cases "p = z") auto
  qed (use al nm init ne in simp_all)
qed

section \<open>Exit\<close>

text \<open>\<open>quiet s s'\<close>: at most some processes have been woken up.\<close>

definition quiet :: "ptable \<Rightarrow> ptable \<Rightarrow> bool" where
  "quiet s s' \<longleftrightarrow> length (procs s') = length (procs s) \<and> initproc s' = initproc s \<and> cpus s' = cpus s \<and> forkpc s' = forkpc s
     \<and> (\<forall>j < length (procs s). chan (procs s' ! j) = chan (procs s ! j)
          \<and> (pstate (procs s' ! j) = pstate (procs s ! j) \<or> pstate (procs s ! j) = SLEEPING \<and> pstate (procs s' ! j) = RUNNABLE))"

lemma quiet_refl: "quiet s s"
  by (simp add: quiet_def)

lemma quietD:
  assumes "quiet s s'" and "j < length (procs s)"
  shows "chan (procs s' ! j) = chan (procs s ! j)"
    and "pstate (procs s' ! j) = pstate (procs s ! j) \<or> pstate (procs s ! j) = SLEEPING \<and> pstate (procs s' ! j) = RUNNABLE"
  using assms by (simp_all add: quiet_def)

lemma quiet_trans:
  assumes "quiet s t" and "quiet t u"
  shows "quiet s u"
proof -
  have len: "length (procs t) = length (procs s)" using assms(1) by (simp add: quiet_def)
  have "chan (procs u ! j) = chan (procs s ! j) \<and> (pstate (procs u ! j) = pstate (procs s ! j)
      \<or> pstate (procs s ! j) = SLEEPING \<and> pstate (procs u ! j) = RUNNABLE)" if "j < length (procs s)" for j
    using quietD [OF assms(1) that] quietD [OF assms(2), of j] that len by auto
  then show ?thesis using assms unfolding quiet_def by simp
qed

lemma quiet_wakeup: "quiet s (wakeup1 s ch)"
  by (auto simp: quiet_def wakeup1_def)

lemma quiet_upd:
  assumes "\<And>p. pstate (f p) = pstate p \<and> chan (f p) = chan p"
  shows "quiet s (upd s i f)"
proof -
  have "chan ((procs s)[i := f (procs s ! i)] ! j) = chan (procs s ! j)
      \<and> pstate ((procs s)[i := f (procs s ! i)] ! j) = pstate (procs s ! j)" if "j < length (procs s)" for j
    using assms that by (cases "j = i") simp_all
  then show ?thesis by (simp add: quiet_def upd_def)
qed

definition no_sleeper :: "ptable \<Rightarrow> channel \<Rightarrow> bool" where
  "no_sleeper s ch \<longleftrightarrow> (\<forall>j < length (procs s). \<not> (pstate (procs s ! j) = SLEEPING \<and> chan (procs s ! j) = ch))"

lemma no_sleeperD: "no_sleeper s ch \<Longrightarrow> j < length (procs s) \<Longrightarrow> pstate (procs s ! j) = SLEEPING \<Longrightarrow> chan (procs s ! j) \<noteq> ch"
  by (simp add: no_sleeper_def)

lemma no_sleeper_quiet:
  assumes "quiet s t" and "no_sleeper s ch"
  shows "no_sleeper t ch"
proof -
  have "length (procs t) = length (procs s)" using assms(1) by (simp add: quiet_def)
  moreover have "\<not> (pstate (procs t ! j) = SLEEPING \<and> chan (procs t ! j) = ch)" if "j < length (procs s)" for j
    using quietD [OF assms(1) that] assms(2) that unfolding no_sleeper_def by auto
  ultimately show ?thesis by (simp add: no_sleeper_def)
qed

lemma no_sleeper_wakeup: "no_sleeper (wakeup1 s ch) ch"
  by (auto simp: no_sleeper_def wakeup1_procs woken_sleeps)

text \<open>One round of the loop of \<open>exit\<close>.\<close>

definition adopt :: "ptable \<Rightarrow> nat \<Rightarrow> nat \<Rightarrow> ptable" where
  "adopt s cur i =
     (if parent (procs s ! i) = Some cur then
        let s = upd s i (\<lambda>p. p\<lparr>parent := Some (initproc s)\<rparr>)
        in if pstate (procs s ! i) = ZOMBIE then wakeup1 s (Proc_chan (initproc s)) else s
      else s)"

lemma reparent_adopt: "reparent s cur (i # is) = reparent (adopt s cur i) cur is"
  by (simp add: adopt_def Let_def)

lemma adopt_spec:
  assumes "i < length (procs s)"
  shows "quiet s (adopt s cur i)"
    and "parent (procs (adopt s cur i) ! j) = (if j = i \<and> parent (procs s ! i) = Some cur then Some (initproc s) else parent (procs s ! j))
         \<or> length (procs s) \<le> j"
    and "parent (procs s ! i) = Some cur \<Longrightarrow> pstate (procs s ! i) = ZOMBIE \<Longrightarrow> no_sleeper (adopt s cur i) (Proc_chan (initproc s))"
proof -
  let ?t = "upd s i (\<lambda>p. p\<lparr>parent := Some (initproc s)\<rparr>)"
  have q: "quiet s ?t" by (rule quiet_upd) simp
  show "quiet s (adopt s cur i)"
    using q quiet_trans [OF q quiet_wakeup] by (simp add: adopt_def Let_def quiet_refl)
  show "parent (procs (adopt s cur i) ! j) = (if j = i \<and> parent (procs s ! i) = Some cur then Some (initproc s) else parent (procs s ! j))
         \<or> length (procs s) \<le> j"
    using assms by (cases "j < length (procs s)") (auto simp: adopt_def Let_def upd_def wakeup1_procs nth_list_update)
  have "initproc ?t = initproc s" by (simp add: upd_def)
  then show "parent (procs s ! i) = Some cur \<Longrightarrow> pstate (procs s ! i) = ZOMBIE \<Longrightarrow> no_sleeper (adopt s cur i) (Proc_chan (initproc s))"
    using assms no_sleeper_wakeup [of ?t "Proc_chan (initproc s)"] by (simp add: adopt_def Let_def upd_def)
qed

lemma reparent_quiet: "\<forall>i \<in> set is. i < length (procs s) \<Longrightarrow> quiet s (reparent s cur is)"
proof (induction "is" arbitrary: s)
  case (Cons i "is")
  have q: "quiet s (adopt s cur i)" using Cons.prems by (intro adopt_spec(1)) simp
  then have "\<forall>k \<in> set is. k < length (procs (adopt s cur i))" using q Cons.prems by (simp add: quiet_def)
  from Cons.IH [OF this] q show ?case unfolding reparent_adopt by (rule quiet_trans [rotated])
qed (simp add: quiet_refl)

lemma reparent_parent:
  assumes "\<forall>i \<in> set is. i < length (procs s)" and "j < length (procs s)" and "cur \<noteq> initproc s"
  shows "parent (procs (reparent s cur is) ! j)
       = (if j \<in> set is \<and> parent (procs s ! j) = Some cur then Some (initproc s) else parent (procs s ! j))"
  using assms
proof (induction "is" arbitrary: s)
  case (Cons i "is")
  have q: "quiet s (adopt s cur i)" using Cons.prems by (intro adopt_spec(1)) simp
  then have pre: "\<forall>k \<in> set is. k < length (procs (adopt s cur i))" "j < length (procs (adopt s cur i))"
    "cur \<noteq> initproc (adopt s cur i)" "initproc (adopt s cur i) = initproc s"
    using Cons.prems by (simp_all add: quiet_def)
  have "parent (procs (adopt s cur i) ! j) = (if j = i \<and> parent (procs s ! i) = Some cur then Some (initproc s) else parent (procs s ! j))"
    using adopt_spec(2) [of i s cur j] Cons.prems by auto
  then show ?case unfolding reparent_adopt using Cons.IH [OF pre(1-3)] pre(4) Cons.prems(3) by auto
qed simp

lemma reparent_wakes_init:
  assumes "\<forall>i \<in> set is. i < length (procs s)" and "z \<in> set is" and "cur \<noteq> initproc s"
    and "parent (procs s ! z) = Some cur" and "pstate (procs s ! z) = ZOMBIE"
  shows "no_sleeper (reparent s cur is) (Proc_chan (initproc s))"
  using assms
proof (induction "is" arbitrary: s)
  case (Cons i "is")
  have i: "i < length (procs s)" using Cons.prems(1) by simp
  note ad = adopt_spec [OF i, of cur]
  have len: "\<forall>k \<in> set is. k < length (procs (adopt s cur i))" "initproc (adopt s cur i) = initproc s"
    using ad(1) Cons.prems(1) by (simp_all add: quiet_def)
  show ?case
  proof (cases "z = i")
    case True
    then have "no_sleeper (adopt s cur i) (Proc_chan (initproc s))" using ad(3) Cons.prems(4,5) by simp
    then show ?thesis unfolding reparent_adopt using no_sleeper_quiet [OF reparent_quiet [OF len(1)]] by simp
  next
    case False
    then have z: "z \<in> set is" "z < length (procs s)" using Cons.prems(1,2) by auto
    have "parent (procs (adopt s cur i) ! z) = Some cur" using ad(2) [of z] False Cons.prems(4) z(2) by auto
    moreover have "pstate (procs (adopt s cur i) ! z) = ZOMBIE" using ad(1) z(2) Cons.prems(5) unfolding quiet_def by auto
    ultimately show ?thesis unfolding reparent_adopt using Cons.IH [OF len(1) z(1)] len(2) Cons.prems(3) by simp
  qed
qed simp

text \<open>What \<open>exit\<close> does to the table: the caller becomes a zombie, its children go to \<open>init\<close>, and nobody
  sleeps any more on the caller's parent, nor on \<open>init\<close> when one of the adopted children is a zombie.\<close>

definition exited :: "nat \<Rightarrow> nat \<Rightarrow> proc list \<Rightarrow> proc list \<Rightarrow> bool" where
  "exited ini cur ps ps' \<longleftrightarrow> length ps' = length ps
     \<and> (\<forall>j < length ps. chan (ps' ! j) = chan (ps ! j)
        \<and> parent (ps' ! j) = (if parent (ps ! j) = Some cur then Some ini else parent (ps ! j))
        \<and> (if j = cur then pstate (ps' ! j) = ZOMBIE
           else pstate (ps' ! j) = pstate (ps ! j) \<or> pstate (ps ! j) = SLEEPING \<and> pstate (ps' ! j) = RUNNABLE))
     \<and> (\<forall>j < length ps. pstate (ps' ! j) = SLEEPING \<longrightarrow> chan (ps ! j) \<noteq> chan_of (parent (ps ! cur)))
     \<and> (\<forall>j < length ps. \<forall>z < length ps. pstate (ps' ! j) = SLEEPING \<longrightarrow> parent (ps ! z) = Some cur \<longrightarrow> pstate (ps ! z) = ZOMBIE
          \<longrightarrow> chan (ps ! j) \<noteq> Proc_chan ini)"

lemma exitedD:
  assumes "exited ini cur ps ps'" and "j < length ps"
  shows "chan (ps' ! j) = chan (ps ! j)"
    and "parent (ps' ! j) = (if parent (ps ! j) = Some cur then Some ini else parent (ps ! j))"
    and "j = cur \<Longrightarrow> pstate (ps' ! j) = ZOMBIE"
    and "j \<noteq> cur \<Longrightarrow> pstate (ps' ! j) = pstate (ps ! j) \<or> pstate (ps ! j) = SLEEPING \<and> pstate (ps' ! j) = RUNNABLE"
    and "pstate (ps' ! j) = SLEEPING \<Longrightarrow> chan (ps ! j) \<noteq> chan_of (parent (ps ! cur))"
    and "pstate (ps' ! j) = SLEEPING \<Longrightarrow> z < length ps \<Longrightarrow> parent (ps ! z) = Some cur \<Longrightarrow> pstate (ps ! z) = ZOMBIE
          \<Longrightarrow> chan (ps ! j) \<noteq> Proc_chan ini"
    and "length ps' = length ps"
  using assms unfolding exited_def by simp_all

lemma proc_exit_exited:
  assumes "proc_exit s c cur = Some s'" and "cur < length (procs s)" and "pstate (procs s ! cur) \<noteq> SLEEPING"
  shows "exited (initproc s) cur (procs s) (procs s')" and "initproc s' = initproc s" and "cpus s' = (cpus s)[c := None]"
    and "cur \<noteq> initproc s" and "forkpc s' = forkpc s"
proof -
  define n ini where "n = length (procs s)" and "ini = initproc s"
  show ci: "cur \<noteq> initproc s" using assms(1) by (auto simp: proc_exit_def)
  define s1 where "s1 = wakeup1 s (chan_of (parent (procs s ! cur)))"
  define s2 where "s2 = reparent s1 cur [0..<n]"
  have q1: "quiet s s1" by (simp add: s1_def quiet_wakeup)
  have b: "\<forall>i \<in> set [0..<n]. i < length (procs s1)" using q1 by (simp add: n_def quiet_def)
  have q2: "quiet s1 s2" unfolding s2_def by (rule reparent_quiet [OF b])
  have q: "quiet s s2" by (rule quiet_trans [OF q1 q2])
  have i1: "initproc s1 = ini" "length (procs s1) = n" using q1 by (simp_all add: quiet_def n_def ini_def)
  have par1: "parent (procs s1 ! j) = parent (procs s ! j)" if "j < n" for j using that by (simp add: s1_def wakeup1_procs n_def)
  have par: "parent (procs s2 ! j) = (if parent (procs s ! j) = Some cur then Some ini else parent (procs s ! j))" if "j < n" for j
    using reparent_parent [OF b, of j cur] that ci by (simp add: s2_def i1 par1 ini_def)
  have len2: "length (procs s2) = n" using q by (simp add: quiet_def n_def)
  define v where "v = (procs s2 ! cur)\<lparr>pstate := ZOMBIE\<rparr>"
  have cn: "cur < n" using assms(2) by (simp add: n_def)
  have ps': "procs s' = (procs s2)[cur := v]" and rest: "initproc s' = initproc s" "cpus s' = (cpus s)[c := None]" "forkpc s' = forkpc s"
    using assms(1) ci q cn len2
    by (auto simp: proc_exit_def ini_def Let_def sched_def upd_def v_def s2_def s1_def n_def quiet_def wakeup1_procs split: if_splits)
  show "initproc s' = initproc s" "cpus s' = (cpus s)[c := None]" "forkpc s' = forkpc s" using rest by simp_all
  have same: "chan (procs s' ! j) = chan (procs s2 ! j)" "parent (procs s' ! j) = parent (procs s2 ! j)"
    "pstate (procs s' ! j) = (if j = cur then ZOMBIE else pstate (procs s2 ! j))" if "j < n" for j
    using that cn len2 by (cases "j = cur"; simp add: ps' v_def)+
  have sl: "pstate (procs s2 ! j) = SLEEPING" if "j < n" "pstate (procs s' ! j) = SLEEPING" for j
    using that same(3) by (simp split: if_splits)
  have "no_sleeper s2 (chan_of (parent (procs s ! cur)))"
    using no_sleeper_quiet [OF q2] no_sleeper_wakeup by (simp add: s1_def)
  then have w1: "chan (procs s ! j) \<noteq> chan_of (parent (procs s ! cur))" if "j < n" "pstate (procs s' ! j) = SLEEPING" for j
    using no_sleeperD [OF _ _ sl [OF that]] that(1) quietD(1) [OF q, of j] len2 by (simp add: n_def)
  have w2: "chan (procs s ! j) \<noteq> Proc_chan ini"
    if "j < n" "pstate (procs s' ! j) = SLEEPING" "z < n" "parent (procs s ! z) = Some cur" "pstate (procs s ! z) = ZOMBIE" for j z
  proof -
    have "pstate (procs s1 ! z) = ZOMBIE" using quietD(2) [OF q1, of z] that by (simp add: n_def)
    then have "no_sleeper s2 (Proc_chan ini)"
      using reparent_wakes_init [OF b, of z cur] that ci par1 i1(1) by (simp add: s2_def ini_def)
    then show ?thesis using no_sleeperD [OF _ _ sl [OF that(1,2)]] that(1) quietD(1) [OF q, of j] len2 by (simp add: n_def)
  qed
  show "exited (initproc s) cur (procs s) (procs s')"
    unfolding exited_def ini_def [symmetric] n_def [symmetric]
  proof (intro conjI allI impI)
    show "length (procs s') = n" by (simp add: ps' len2)
    fix j assume j: "j < n"
    note Q = quietD [OF q j [unfolded n_def]]
    show "chan (procs s' ! j) = chan (procs s ! j)" using same(1) [OF j] Q(1) by simp
    show "parent (procs s' ! j) = (if parent (procs s ! j) = Some cur then Some ini else parent (procs s ! j))"
      using same(2) [OF j] par [OF j] by simp
    show "if j = cur then pstate (procs s' ! j) = ZOMBIE
        else pstate (procs s' ! j) = pstate (procs s ! j) \<or> pstate (procs s ! j) = SLEEPING \<and> pstate (procs s' ! j) = RUNNABLE"
      using same(3) [OF j] Q(2) by (cases "j = cur") simp_all
  qed (use w1 w2 in blast)+
qed

text \<open>The wait channels after an exit: a sleeping parent was woken for the caller, and \<open>init\<close> for an adopted zombie.\<close>

lemma not_missed_exit:
  assumes "tree_inv ini ps" and "exited ini cur ps ps'" and "p < length ps"
  shows "not_missed ps' p"
  unfolding not_missed_def
proof (intro allI impI)
  note E = exitedD [OF assms(2)]
  fix q assume sl: "pstate (ps' ! p) = SLEEPING" "chan (ps' ! p) = Proc_chan q"
  have "p \<noteq> cur" using sl(1) E(3) [OF assms(3)] by auto
  then have ps: "pstate (ps ! p) = SLEEPING" "chan (ps ! p) = Proc_chan q"
    using sl E(1,4) [OF assms(3)] by auto
  have nm: "q = p \<and> (\<forall>z < length ps. parent (ps ! z) = Some p \<longrightarrow> pstate (ps ! z) \<noteq> ZOMBIE)"
    using tree_invD(4) [OF assms(1,3)] ps unfolding not_missed_def by blast
  have "pstate (ps' ! z) \<noteq> ZOMBIE" if z: "z < length ps" "parent (ps' ! z) = Some p" for z
  proof (cases "parent (ps ! z) = Some cur")
    case True
    then have "p = ini" "z \<noteq> cur" using z(2) E(2) [OF z(1)] tree_invD(3) [OF assms(1) z(1) True] by auto
    then show ?thesis using E(4) [OF z(1)] E(6) [OF assms(3) sl(1) z(1) True] ps(2) nm by auto
  next
    case False
    then have old: "parent (ps ! z) = Some p" using z(2) E(2) [OF z(1)] by simp
    then have "z \<noteq> cur" using E(5) [OF assms(3) sl(1)] ps(2) nm by auto
    then show ?thesis using E(4) [OF z(1)] old nm z(1) by auto
  qed
  then show "q = p \<and> (\<forall>z < length ps'. parent (ps' ! z) = Some p \<longrightarrow> pstate (ps' ! z) \<noteq> ZOMBIE)"
    using nm E(7) [OF assms(3)] by simp
qed

lemma tree_inv_exit:
  assumes "tree_inv ini ps" and "exited ini cur ps ps'" and "pstate (ps ! cur) = RUNNING" and "cur \<noteq> ini"
  shows "tree_inv ini ps'"
proof (rule tree_invI)
  note E = exitedD [OF assms(2)] and init = tree_inv_init [OF assms(1)]
  have len: "length ps' = length ps" by (rule E(7) [OF init(2)])
  have al: "alive ps' j" if "alive ps j" "j \<noteq> cur" for j
    using that E(4) [of j] len by (auto simp: alive_def live_def)
  show "alive ps' ini" using al [OF init(1)] assms(4) by simp
  show "parent (ps' ! ini) = None" using E(2) [OF init(2)] init(3) by simp
  fix p assume "p < length ps'"
  then have p: "p < length ps" using len by simp
  show "parent (ps' ! p) = None" if "pstate (ps' ! p) = UNUSED"
  proof -
    have "pstate (ps ! p) = UNUSED" using that E(3,4) [OF p] by (cases "p = cur") auto
    then show ?thesis using tree_invD(1) [OF assms(1) p] E(2) [OF p] by simp
  qed
  show "parent (ps' ! p) \<noteq> None" if us: "\<not> unborn (pstate (ps' ! p))" "p \<noteq> ini"
  proof -
    have "\<not> unborn (pstate (ps ! p))" using us(1) E(4) [OF p] assms(3) by (cases "p = cur") (auto simp: unborn_def)
    then show ?thesis using tree_invD(2) [OF assms(1) p _ us(2)] E(2) [OF p] by simp
  qed
  show "q \<noteq> p \<and> alive ps' q" if q': "parent (ps' ! p) = Some q" for q
  proof (cases "parent (ps ! p) = Some cur")
    case True
    then show ?thesis using q' E(2) [OF p] tree_invD(3) [OF assms(1) p True] al [OF init(1)] assms(4) by auto
  next
    case False
    then have "parent (ps ! p) = Some q" "q \<noteq> cur" using q' E(2) [OF p] by auto
    then show ?thesis using tree_invD(3) [OF assms(1) p] al by blast
  qed
  show "not_missed ps' p" by (rule not_missed_exit [OF assms(1,2) p])
qed

section \<open>Processes and CPUs\<close>

text \<open>The process of a CPU is running, no process is on two CPUs, and every running process is on a CPU.\<close>

definition cpu_inv :: "proc list \<Rightarrow> nat option list \<Rightarrow> bool" where
  "cpu_inv ps cs \<longleftrightarrow> (\<forall>c < length cs. \<forall>p. cs ! c = Some p \<longrightarrow> p < length ps \<and> pstate (ps ! p) = RUNNING)
     \<and> (\<forall>c < length cs. \<forall>d < length cs. cs ! c = cs ! d \<longrightarrow> cs ! c \<noteq> None \<longrightarrow> c = d)
     \<and> (\<forall>p < length ps. pstate (ps ! p) = RUNNING \<longrightarrow> (\<exists>c < length cs. cs ! c = Some p))"

lemma cpu_invD:
  assumes "cpu_inv ps cs"
  shows "c < length cs \<Longrightarrow> cs ! c = Some p \<Longrightarrow> p < length ps \<and> pstate (ps ! p) = RUNNING"
    and "c < length cs \<Longrightarrow> d < length cs \<Longrightarrow> cs ! c = Some p \<Longrightarrow> cs ! d = Some p \<Longrightarrow> c = d"
    and "p < length ps \<Longrightarrow> pstate (ps ! p) = RUNNING \<Longrightarrow> \<exists>c < length cs. cs ! c = Some p"
  using assms unfolding cpu_inv_def by (simp, metis option.distinct(1), simp)

lemma cpu_invI:
  assumes "\<And>c p. c < length cs \<Longrightarrow> cs ! c = Some p \<Longrightarrow> p < length ps \<and> pstate (ps ! p) = RUNNING"
    and "\<And>c d p. c < length cs \<Longrightarrow> d < length cs \<Longrightarrow> cs ! c = Some p \<Longrightarrow> cs ! d = Some p \<Longrightarrow> c = d"
    and "\<And>p. p < length ps \<Longrightarrow> pstate (ps ! p) = RUNNING \<Longrightarrow> \<exists>c < length cs. cs ! c = Some p"
  shows "cpu_inv ps cs"
  unfolding cpu_inv_def using assms by (metis not_None_eq)

text \<open>Changes of the table that a CPU does not see, a CPU that gives up its process, and one that takes a process.\<close>

lemma cpu_inv_keep:
  assumes "cpu_inv ps cs" and "length ps' = length ps"
    and "\<And>j. j < length ps \<Longrightarrow> pstate (ps' ! j) = RUNNING \<longleftrightarrow> pstate (ps ! j) = RUNNING"
  shows "cpu_inv ps' cs"
  using assms(1) unfolding cpu_inv_def assms(2) using assms(3) by meson

lemma cpu_inv_leave:
  assumes "cpu_inv ps cs" and "length ps' = length ps" and "c < length cs" and "cs ! c = Some p"
    and "\<And>j. j < length ps \<Longrightarrow> pstate (ps' ! j) = RUNNING \<longleftrightarrow> j \<noteq> p \<and> pstate (ps ! j) = RUNNING"
  shows "cpu_inv ps' (cs[c := None])"
proof (rule cpu_invI)
  note D = cpu_invD [OF assms(1)]
  fix d q assume d: "d < length (cs[c := None])" "cs[c := None] ! d = Some q"
  then have dc: "d \<noteq> c" "d < length cs" "cs ! d = Some q" using assms(3) by (auto simp: nth_list_update split: if_splits)
  have "q \<noteq> p" using D(2) [OF dc(2) assms(3) dc(3)] assms(4) dc(1) by auto
  then show "q < length ps' \<and> pstate (ps' ! q) = RUNNING" using D(1) [OF dc(2,3)] assms(2,5) by simp
next
  fix d e q assume "d < length (cs[c := None])" "e < length (cs[c := None])" "cs[c := None] ! d = Some q" "cs[c := None] ! e = Some q"
  then show "d = e" using cpu_invD(2) [OF assms(1), of d e q] assms(3) by (auto simp: nth_list_update split: if_splits)
next
  fix q assume "q < length ps'" "pstate (ps' ! q) = RUNNING"
  then have q: "q < length ps" "q \<noteq> p" "pstate (ps ! q) = RUNNING" using assms(2,5) by simp_all
  then obtain d where "d < length cs" "cs ! d = Some q" using cpu_invD(3) [OF assms(1)] by blast
  then show "\<exists>d < length (cs[c := None]). cs[c := None] ! d = Some q"
    using q(2) assms(3,4) by (intro exI [of _ d]) (auto simp: nth_list_update)
qed

lemma cpu_inv_enter:
  assumes "cpu_inv ps cs" and "length ps' = length ps" and "c < length cs" and "cs ! c = None" and "p < length ps"
    and "pstate (ps ! p) \<noteq> RUNNING"
    and "\<And>j. j < length ps \<Longrightarrow> pstate (ps' ! j) = RUNNING \<longleftrightarrow> j = p \<or> pstate (ps ! j) = RUNNING"
  shows "cpu_inv ps' (cs[c := Some p])"
proof (rule cpu_invI)
  note D = cpu_invD [OF assms(1)]
  fix d q assume d: "d < length (cs[c := Some p])" "cs[c := Some p] ! d = Some q"
  then show "q < length ps' \<and> pstate (ps' ! q) = RUNNING"
    using D(1) [of d q] assms(2,5,7) by (cases "d = c") (simp_all add: assms(3))
next
  note D = cpu_invD [OF assms(1)]
  fix d e q assume de: "d < length (cs[c := Some p])" "e < length (cs[c := Some p])" "cs[c := Some p] ! d = Some q" "cs[c := Some p] ! e = Some q"
  have "cs ! d \<noteq> Some p" if "d < length cs" for d using D(1) [OF that] assms(6) by blast
  then show "d = e" using de D(2) [of d e q] assms(3) by (auto simp: nth_list_update split: if_splits)
next
  fix q assume q: "q < length ps'" "pstate (ps' ! q) = RUNNING"
  show "\<exists>d < length (cs[c := Some p]). cs[c := Some p] ! d = Some q"
  proof (cases "q = p")
    case True
    then show ?thesis using assms(3) by (intro exI [of _ c]) simp
  next
    case False
    then obtain d where "d < length cs" "cs ! d = Some q" using cpu_invD(3) [OF assms(1)] q assms(2,7) by auto
    then show ?thesis using assms(3,4) by (intro exI [of _ d]) (auto simp: nth_list_update)
  qed
qed

section \<open>Processes in fork\<close>

fun embryo_of :: "fork_pc \<Rightarrow> nat option" where
  "embryo_of Outside = None"
| "embryo_of (Slot np) = Some np"
| "embryo_of (Stacked np) = Some np"
| "embryo_of (Copied np) = Some np"
| "embryo_of (Linked np) = Some np"

fun linked :: "fork_pc \<Rightarrow> bool" where
  "linked (Linked np) = True"
| "linked pc = False"

text \<open>The entries in state \<open>EMBRYO\<close> are those that the processes in \<open>fork\<close> fill in, one each.\<close>

definition fork_inv :: "(nat \<Rightarrow> fork_pc) \<Rightarrow> proc list \<Rightarrow> bool" where
  "fork_inv pc ps \<longleftrightarrow> (\<forall>q np. embryo_of (pc q) = Some np \<longrightarrow> alive ps q \<and> np < length ps \<and> pstate (ps ! np) = EMBRYO
        \<and> parent (ps ! np) = (if linked (pc q) then Some q else None))
     \<and> (\<forall>q r np. embryo_of (pc q) = Some np \<longrightarrow> embryo_of (pc r) = Some np \<longrightarrow> q = r)
     \<and> (\<forall>p < length ps. pstate (ps ! p) = EMBRYO \<longrightarrow> (\<exists>q. embryo_of (pc q) = Some p))"

lemma fork_invD:
  assumes "fork_inv pc ps"
  shows "embryo_of (pc q) = Some np \<Longrightarrow> alive ps q \<and> np < length ps \<and> pstate (ps ! np) = EMBRYO
        \<and> parent (ps ! np) = (if linked (pc q) then Some q else None)"
    and "embryo_of (pc q) = Some np \<Longrightarrow> embryo_of (pc r) = Some np \<Longrightarrow> q = r"
    and "p < length ps \<Longrightarrow> pstate (ps ! p) = EMBRYO \<Longrightarrow> \<exists>q. embryo_of (pc q) = Some p"
  using assms unfolding fork_inv_def by blast+

lemma fork_invI:
  assumes "\<And>q np. embryo_of (pc q) = Some np \<Longrightarrow> alive ps q \<and> np < length ps \<and> pstate (ps ! np) = EMBRYO
        \<and> parent (ps ! np) = (if linked (pc q) then Some q else None)"
    and "\<And>q r np. embryo_of (pc q) = Some np \<Longrightarrow> embryo_of (pc r) = Some np \<Longrightarrow> q = r"
    and "\<And>p. p < length ps \<Longrightarrow> pstate (ps ! p) = EMBRYO \<Longrightarrow> \<exists>q. embryo_of (pc q) = Some p"
  shows "fork_inv pc ps"
  unfolding fork_inv_def using assms by blast

text \<open>Changes that are not part of a \<open>fork\<close>.\<close>

lemma fork_inv_keep:
  assumes "fork_inv pc ps" and "length ps' = length ps"
    and "\<And>j. j < length ps \<Longrightarrow> pstate (ps' ! j) = EMBRYO \<longleftrightarrow> pstate (ps ! j) = EMBRYO"
    and "\<And>j. j < length ps \<Longrightarrow> pstate (ps ! j) = EMBRYO \<Longrightarrow> parent (ps' ! j) = parent (ps ! j)"
    and "\<And>q. alive ps q \<Longrightarrow> pc q \<noteq> Outside \<Longrightarrow> alive ps' q"
  shows "fork_inv pc ps'"
proof (rule fork_invI)
  note D = fork_invD [OF assms(1)]
  fix q np assume q: "embryo_of (pc q) = Some np"
  then have "pc q \<noteq> Outside" by auto
  then show "alive ps' q \<and> np < length ps' \<and> pstate (ps' ! np) = EMBRYO \<and> parent (ps' ! np) = (if linked (pc q) then Some q else None)"
    using D(1) [OF q] assms(2-5) by simp
next
  fix p assume "p < length ps'" "pstate (ps' ! p) = EMBRYO"
  then show "\<exists>q. embryo_of (pc q) = Some p" using fork_invD(3) [OF assms(1)] assms(2,3) by simp
qed (rule fork_invD(2) [OF assms(1)])

lemma fork_inv_entry:
  assumes "fork_inv pc ps" and "pstate v = EMBRYO \<longleftrightarrow> pstate (ps ! p) = EMBRYO"
    and "pstate (ps ! p) = EMBRYO \<Longrightarrow> parent v = parent (ps ! p)" and "live (pstate (ps ! p)) \<Longrightarrow> live (pstate v)"
  shows "fork_inv pc (ps[p := v])"
proof (rule fork_inv_keep [OF assms(1)])
  fix j assume j: "j < length ps"
  show "pstate (ps[p := v] ! j) = EMBRYO \<longleftrightarrow> pstate (ps ! j) = EMBRYO" using assms(2) j by (cases "j = p") simp_all
  show "parent (ps[p := v] ! j) = parent (ps ! j)" if "pstate (ps ! j) = EMBRYO" using assms(3) j that by (cases "j = p") simp_all
next
  show "alive (ps[p := v]) q" if "alive ps q" for q using that assms(4) by (cases "q = p") (auto simp: alive_def)
qed simp

text \<open>The changes of \<open>fork\<close>: it takes an entry, it works on its own entry, and it lets it go.\<close>

lemma alive_embryo: "\<not> live (pstate (ps ! np)) \<Longrightarrow> alive ps q \<Longrightarrow> alive (ps[np := v]) q"
  by (cases "q = np") (auto simp: alive_def)

lemma fork_inv_take:
  assumes "fork_inv pc ps" and "alive ps cur" and "pc cur = Outside" and "np < length ps" and "pstate (ps ! np) = UNUSED"
    and "pstate v = EMBRYO" and "parent v = None"
  shows "fork_inv (pc(cur := Slot np)) (ps[np := v])"
proof (rule fork_invI)
  note D = fork_invD [OF assms(1)]
  have other: "np' \<noteq> np" if "embryo_of (pc q) = Some np'" for q np' using D(1) [OF that] assms(5) by auto
  have al: "alive (ps[np := v]) q" if "alive ps q" for q using that assms(5) by (intro alive_embryo) (simp_all add: live_def)
  show "alive (ps[np := v]) q \<and> np' < length (ps[np := v]) \<and> pstate (ps[np := v] ! np') = EMBRYO
      \<and> parent (ps[np := v] ! np') = (if linked ((pc(cur := Slot np)) q) then Some q else None)"
    if "embryo_of ((pc(cur := Slot np)) q) = Some np'" for q np'
    using that D(1) [of q np'] other [of q np'] al assms(2,4,6,7) by (cases "q = cur") simp_all
  show "q = r" if "embryo_of ((pc(cur := Slot np)) q) = Some np'" "embryo_of ((pc(cur := Slot np)) r) = Some np'" for q r np'
    using that D(2) [of q np' r] other [of q np'] other [of r np'] by (cases "q = cur"; cases "r = cur") auto
  show "\<exists>q. embryo_of ((pc(cur := Slot np)) q) = Some p" if e: "p < length (ps[np := v])" "pstate (ps[np := v] ! p) = EMBRYO" for p
  proof (cases "p = np")
    case True
    then show ?thesis by (intro exI [of _ cur]) simp
  next
    case False
    then obtain q where "embryo_of (pc q) = Some p" using D(3) [of p] e by auto
    then show ?thesis using assms(3) by (intro exI [of _ q]) auto
  qed
qed

lemma fork_inv_own:
  assumes "fork_inv pc ps" and "embryo_of (pc cur) = Some np" and "embryo_of k = Some np"
    and "pstate v = EMBRYO" and "parent v = (if linked k then Some cur else None)"
  shows "fork_inv (pc(cur := k)) (ps[np := v])"
proof (rule fork_invI)
  note D = fork_invD [OF assms(1)]
  note own = D(1) [OF assms(2)]
  have same: "embryo_of ((pc(cur := k)) q) = embryo_of (pc q)" for q using assms(2,3) by simp
  have al: "alive (ps[np := v]) q" if "alive ps q" for q using that own by (intro alive_embryo) (simp_all add: live_def)
  show "alive (ps[np := v]) q \<and> np' < length (ps[np := v]) \<and> pstate (ps[np := v] ! np') = EMBRYO
      \<and> parent (ps[np := v] ! np') = (if linked ((pc(cur := k)) q) then Some q else None)"
    if "embryo_of ((pc(cur := k)) q) = Some np'" for q np'
  proof (cases "q = cur")
    case True
    then show ?thesis using that own al assms(3-5) by simp
  next
    case False
    then have "np' \<noteq> np" using D(2) [OF _ assms(2), of q] that by auto
    then show ?thesis using False that D(1) [of q np'] al by simp
  qed
  show "q = r" if "embryo_of ((pc(cur := k)) q) = Some np'" "embryo_of ((pc(cur := k)) r) = Some np'" for q r np'
    using that D(2) unfolding same by blast
  show "\<exists>q. embryo_of ((pc(cur := k)) q) = Some p" if "p < length (ps[np := v])" "pstate (ps[np := v] ! p) = EMBRYO" for p
    unfolding same using that D(3) [of p] own by (cases "p = np") auto
qed

lemma fork_inv_release:
  assumes "fork_inv pc ps" and "embryo_of (pc cur) = Some np" and "pstate v \<noteq> EMBRYO"
  shows "fork_inv (pc(cur := Outside)) (ps[np := v])"
proof (rule fork_invI)
  note D = fork_invD [OF assms(1)]
  note own = D(1) [OF assms(2)]
  have al: "alive (ps[np := v]) q" if "alive ps q" for q using that own by (intro alive_embryo) (simp_all add: live_def)
  have other: "embryo_of (pc q) = Some np' \<and> q \<noteq> cur \<and> np' \<noteq> np" if "embryo_of ((pc(cur := Outside)) q) = Some np'" for q np'
    using that D(2) [OF _ assms(2), of q] by (cases "q = cur") auto
  show "alive (ps[np := v]) q \<and> np' < length (ps[np := v]) \<and> pstate (ps[np := v] ! np') = EMBRYO
      \<and> parent (ps[np := v] ! np') = (if linked ((pc(cur := Outside)) q) then Some q else None)"
    if "embryo_of ((pc(cur := Outside)) q) = Some np'" for q np'
    using other [OF that] D(1) [of q np'] al by simp
  show "q = r" if "embryo_of ((pc(cur := Outside)) q) = Some np'" "embryo_of ((pc(cur := Outside)) r) = Some np'" for q r np'
    using other [OF that(1)] other [OF that(2)] D(2) by blast
  show "\<exists>q. embryo_of ((pc(cur := Outside)) q) = Some p" if e: "p < length (ps[np := v])" "pstate (ps[np := v] ! p) = EMBRYO" for p
  proof -
    have p: "p \<noteq> np" using e assms(3) by auto
    then obtain q where q: "embryo_of (pc q) = Some p" using D(3) [of p] e by auto
    then have "q \<noteq> cur" using p assms(2) by auto
    then show ?thesis using q by (intro exI [of _ q]) simp
  qed
qed

section \<open>Every step\<close>

definition table_inv :: "ptable \<Rightarrow> bool" where
  "table_inv s \<longleftrightarrow> cpu_inv (procs s) (cpus s) \<and> tree_inv (initproc s) (procs s) \<and> fork_inv (forkpc s) (procs s)"

lemma on_cpu:
  assumes "table_inv s" and "c < length (cpus s)" and "cpus s ! c = Some p"
  shows "p < length (procs s)" and "pstate (procs s ! p) = RUNNING" and "alive (procs s) p"
  using assms cpu_invD(1) by (auto simp: table_inv_def alive_def live_def)

text \<open>A process that leaves its CPU alive.\<close>

lemma table_inv_leave:
  assumes "table_inv s" and "c < length (cpus s)" and "cpus s ! c = Some p" and "live (pstate v)" and "pstate v \<noteq> RUNNING"
    and "parent v = parent (procs s ! p)" and "sched (s\<lparr>procs := (procs s)[p := v]\<rparr>) c p = Some s'"
    and "\<And>q. pstate v = SLEEPING \<Longrightarrow> chan v = Proc_chan q
        \<Longrightarrow> q = p \<and> (\<forall>z < length (procs s). parent (procs s ! z) = Some p \<longrightarrow> pstate (procs s ! z) \<noteq> ZOMBIE)"
  shows "table_inv s'"
proof -
  note p = on_cpu [OF assms(1-3)]
  have s': "s' = s\<lparr>procs := (procs s)[p := v], cpus := (cpus s)[c := None]\<rparr>"
    using assms(7) by (simp add: sched_def split: if_splits)
  have "cpu_inv ((procs s)[p := v]) ((cpus s)[c := None])"
    using assms(1-3,5) p(1) by (intro cpu_inv_leave [of "procs s" _ _ _ p]) (auto simp: table_inv_def nth_list_update)
  moreover have "tree_inv (initproc s) ((procs s)[p := v])"
    using assms(1,4,6,8) p(3) by (intro tree_inv_update) (simp_all add: table_inv_def)
  moreover have "fork_inv (forkpc s) ((procs s)[p := v])"
    using assms(1,4) p(2) by (intro fork_inv_entry) (auto simp: table_inv_def live_def)
  ultimately show ?thesis by (simp add: table_inv_def s')
qed

text \<open>A change of one entry that no CPU runs, or that goes on running.\<close>

lemma table_inv_entry:
  assumes "table_inv s" and "tree_inv (initproc s) ((procs s)[p := v])" and "procs s' = (procs s)[p := v]"
    and "cpus s' = cpus s" and "initproc s' = initproc s" and "pstate v = RUNNING \<longleftrightarrow> pstate (procs s ! p) = RUNNING"
    and "fork_inv (forkpc s') ((procs s)[p := v])"
  shows "table_inv s'"
proof -
  have "pstate ((procs s)[p := v] ! j) = RUNNING \<longleftrightarrow> pstate (procs s ! j) = RUNNING" if "j < length (procs s)" for j
    using assms(6) that by (cases "j = p") simp_all
  then have "cpu_inv ((procs s)[p := v]) (cpus s)"
    using assms(1) by (simp add: table_inv_def cpu_inv_keep [of "procs s"])
  then show ?thesis using assms by (simp add: table_inv_def)
qed

lemma table_inv_schedule:
  assumes "table_inv s" and "c < length (cpus s)" and "cpus s ! c = None" and "p < length (procs s)" and "pstate (procs s ! p) = RUNNABLE"
  shows "table_inv (schedule s c p)"
proof -
  let ?v = "(procs s ! p)\<lparr>pstate := RUNNING\<rparr>"
  have "cpu_inv ((procs s)[p := ?v]) ((cpus s)[c := Some p])"
    using assms by (intro cpu_inv_enter [of "procs s"]) (auto simp: table_inv_def nth_list_update)
  moreover have "tree_inv (initproc s) ((procs s)[p := ?v])"
    using assms by (intro tree_inv_update) (simp_all add: table_inv_def alive_def live_def)
  moreover have "fork_inv (forkpc s) ((procs s)[p := ?v])"
    using assms by (intro fork_inv_entry) (simp_all add: table_inv_def live_def)
  ultimately show ?thesis by (simp add: table_inv_def schedule_def upd_def)
qed

text \<open>What a step of \<open>fork\<close> does: nothing, or it takes a free entry, or it writes the entry it has.\<close>

lemma fork_step_cases:
  assumes "fork_step s cur pc a = (k, s')" and "\<forall>np. embryo_of pc = Some np \<longrightarrow> np < length (procs s)"
  obtains (full) "s' = s" and "pc = Outside" and "k = Outside"
    | (take) np v where "pc = Outside" and "k = Slot np" and "np < length (procs s)" and "pstate (procs s ! np) = UNUSED"
        and "procs s' = (procs s)[np := v]" and "cpus s' = cpus s" and "initproc s' = initproc s"
        and "pstate v = EMBRYO" and "parent v = parent (procs s ! np)"
    | (own) np v where "embryo_of pc = Some np" and "embryo_of k = Some np"
        and "procs s' = (procs s)[np := v]" and "cpus s' = cpus s" and "initproc s' = initproc s"
        and "pstate v = pstate (procs s ! np)" and "\<not> linked pc" and "parent v = (if linked k then Some cur else parent (procs s ! np))"
    | (release) np v where "embryo_of pc = Some np" and "k = Outside"
        and "procs s' = (procs s)[np := v]" and "cpus s' = cpus s" and "initproc s' = initproc s"
        and "parent v = parent (procs s ! np)" and "pstate v = (if linked pc then RUNNABLE else UNUSED)"
proof (cases pc)
  case Outside
  show thesis
  proof (cases "find_unused (procs s) 0")
    case None
    then show thesis using assms Outside by (intro full) (auto simp: alloc_slot_def)
  next
    case (Some np)
    note np = find_index_spec(1) [OF Some]
    show thesis
      by (rule take [of np "(procs s ! np)\<lparr>pstate := EMBRYO, pid := nextpid s\<rparr>"])
         (use assms Outside Some np in \<open>auto simp: alloc_slot_def upd_def\<close>)
  qed
next
  case (Slot np)
  have np: "np < length (procs s)" using assms(2) Slot by simp
  show thesis
  proof (cases "a = 0")
    case True
    show thesis
      by (rule release [of np "procs s' ! np"]) (use assms(1) Slot True np in \<open>auto simp: alloc_stack_def upd_def Let_def\<close>)
  next
    case False
    show thesis
      by (rule own [of np "procs s' ! np"]) (use assms(1) Slot False np in \<open>auto simp: alloc_stack_def upd_def Let_def\<close>)
  qed
next
  case (Stacked np)
  have np: "np < length (procs s)" using assms(2) Stacked by simp
  show thesis
  proof (cases "a = 0")
    case True
    show thesis
      by (rule release [of np "procs s' ! np"]) (use assms(1) Stacked True np in \<open>auto simp: fork_copy_def upd_def Let_def\<close>)
  next
    case False
    show thesis
      by (rule own [of np "procs s' ! np"]) (use assms(1) Stacked False np in \<open>auto simp: fork_copy_def upd_def Let_def\<close>)
  qed
next
  case (Copied np)
  have np: "np < length (procs s)" using assms(2) Copied by simp
  show thesis
    by (rule own [of np "procs s' ! np"]) (use assms(1) Copied np in \<open>auto simp: fork_link_def upd_def\<close>)
next
  case (Linked np)
  have np: "np < length (procs s)" using assms(2) Linked by simp
  show thesis
    by (rule release [of np "procs s' ! np"]) (use assms(1) Linked np in \<open>auto simp: fork_ready_def upd_def\<close>)
qed

lemma fork_inv_stays:
  assumes "fork_inv pc ps" and "pc cur = Outside"
  shows "fork_inv (pc(cur := Outside)) ps"
proof -
  have "pc(cur := Outside) = pc" using assms(2) by auto
  then show ?thesis using assms(1) by simp
qed

lemma table_inv_fork:
  assumes "table_inv s" and "c < length (cpus s)" and "cpus s ! c = Some cur" and "fork_step s cur (forkpc s cur) a = (k, s')"
  shows "table_inv (s'\<lparr>forkpc := (forkpc s)(cur := k)\<rparr>)"
proof -
  have inv: "tree_inv (initproc s) (procs s)" "fork_inv (forkpc s) (procs s)" using assms(1) by (simp_all add: table_inv_def)
  note cur = on_cpu [OF assms(1-3)]
  have len: "\<forall>np. embryo_of (forkpc s cur) = Some np \<longrightarrow> np < length (procs s)" using fork_invD(1) [OF inv(2)] by blast
  show ?thesis
  proof (cases rule: fork_step_cases [OF assms(4) len, case_names full take own release])
    case full
    then show ?thesis using assms(1) fork_inv_stays by (auto simp: table_inv_def)
  next
    case (take np v)
    have pn: "parent v = None" using tree_invD(1) [OF inv(1) take(3,4)] take(9) by simp
    have "tree_inv (initproc s) ((procs s)[np := v])"
      by (rule tree_inv_born [OF inv(1) take(3)]) (use take pn in \<open>auto simp: unborn_def\<close>)
    moreover have "fork_inv ((forkpc s)(cur := k)) ((procs s)[np := v])"
      unfolding take(2) by (rule fork_inv_take [OF inv(2) cur(3) take(1,3,4,8) pn])
    ultimately show ?thesis using take by (intro table_inv_entry [OF assms(1), of np v]) auto
  next
    case (own np v)
    note e = fork_invD(1) [OF inv(2) own(1)]
    have pv: "parent v = (if linked k then Some cur else None)" using own(7,8) e by simp
    have ne: "cur \<noteq> np" using e cur(2) by auto
    have "tree_inv (initproc s) ((procs s)[np := v])"
      by (rule tree_inv_born [OF inv(1)]) (use own e pv cur ne in \<open>auto simp: unborn_def split: if_splits\<close>)
    moreover have "fork_inv ((forkpc s)(cur := k)) ((procs s)[np := v])"
      by (rule fork_inv_own [OF inv(2) own(1,2) _ pv]) (use own e in simp)
    ultimately show ?thesis using own e by (intro table_inv_entry [OF assms(1), of np v]) auto
  next
    case (release np v)
    note e = fork_invD(1) [OF inv(2) release(1)]
    have ne: "cur \<noteq> np" using e cur(2) by auto
    have "tree_inv (initproc s) ((procs s)[np := v])"
      by (rule tree_inv_born [OF inv(1)]) (use release e cur ne in \<open>auto simp: unborn_def split: if_splits\<close>)
    moreover have "fork_inv ((forkpc s)(cur := k)) ((procs s)[np := v])"
      unfolding release(2) by (rule fork_inv_release [OF inv(2) release(1)]) (use release in auto)
    ultimately show ?thesis using release e by (intro table_inv_entry [OF assms(1), of np v]) auto
  qed
qed

text \<open>\<open>fork\<close> is its steps in a row.\<close>

lemma fork_in_steps:
  "snd (fork s cur stack dir) =
     (case fork_step s cur Outside 0 of
        (Slot np, s) \<Rightarrow>
          (case fork_step s cur (Slot np) stack of
             (Stacked np, s) \<Rightarrow>
               (case fork_step s cur (Stacked np) dir of
                  (Copied np, s) \<Rightarrow> snd (fork_step (snd (fork_step s cur (Copied np) 0)) cur (Linked np) 0)
                | (_, s) \<Rightarrow> s)
           | (_, s) \<Rightarrow> s)
      | (_, s) \<Rightarrow> s)"
  by (auto simp: fork_def allocproc_def alloc_slot_def alloc_stack_def fork_copy_def Let_def split: option.splits)

text \<open>No entry that \<open>exit\<close> passes to \<open>init\<close> is one that another process is filling in.\<close>

lemma fork_inv_exit:
  assumes "fork_inv pc ps" and "exited ini cur ps ps'" and "pstate (ps ! cur) = RUNNING" and "cur < length ps" and "pc cur = Outside"
  shows "fork_inv pc ps'"
proof (rule fork_inv_keep [OF assms(1)])
  note E = exitedD [OF assms(2)]
  show len: "length ps' = length ps" by (rule E(7) [OF assms(4)])
  show "pstate (ps' ! j) = EMBRYO \<longleftrightarrow> pstate (ps ! j) = EMBRYO" if "j < length ps" for j
    using E(3,4) [OF that] assms(3) by (cases "j = cur") auto
  show "parent (ps' ! j) = parent (ps ! j)" if j: "j < length ps" "pstate (ps ! j) = EMBRYO" for j
  proof -
    obtain q where q: "embryo_of (pc q) = Some j" using fork_invD(3) [OF assms(1) j] by blast
    then have "q \<noteq> cur" using assms(5) by auto
    then have "parent (ps ! j) \<noteq> Some cur" using fork_invD(1) [OF assms(1) q] by simp
    then show ?thesis using E(2) [OF j(1)] by simp
  qed
  show "alive ps' q" if "alive ps q" "pc q \<noteq> Outside" for q
  proof -
    have "q \<noteq> cur" using that assms(5) by auto
    then show ?thesis using that E(4) [of q] len by (auto simp: alive_def live_def)
  qed
qed

lemma table_inv_exit:
  assumes "table_inv s" and "c < length (cpus s)" and "cpus s ! c = Some cur" and "proc_exit s c cur = Some s'"
    and "forkpc s cur = Outside"
  shows "table_inv s'"
proof -
  note p = on_cpu [OF assms(1-3)]
  note x = proc_exit_exited [OF assms(4) p(1)]
  have ex: "exited (initproc s) cur (procs s) (procs s')" using x(1) p(2) by simp
  have "tree_inv (initproc s) (procs s')" using tree_inv_exit [OF _ ex p(2)] x(4) p(2) assms(1) by (simp add: table_inv_def)
  moreover have "cpu_inv (procs s') ((cpus s)[c := None])"
  proof (rule cpu_inv_leave [where p = cur])
    show "length (procs s') = length (procs s)" by (rule exitedD(7) [OF ex p(1)])
    fix j assume j: "j < length (procs s)"
    show "pstate (procs s' ! j) = RUNNING \<longleftrightarrow> j \<noteq> cur \<and> pstate (procs s ! j) = RUNNING"
      using exitedD(3,4) [OF ex j] by (cases "j = cur") auto
  qed (use assms in \<open>simp_all add: table_inv_def\<close>)
  moreover have "fork_inv (forkpc s) (procs s')"
    using fork_inv_exit [of "forkpc s", OF _ ex p(2,1) assms(5)] assms(1) by (simp add: table_inv_def)
  ultimately show ?thesis using x(2,3,5) p(2) by (simp add: table_inv_def)
qed

lemma table_inv_wait:
  assumes "table_inv s" and "c < length (cpus s)" and "cpus s ! c = Some cur" and "wait s c cur = Some (r, s')"
  shows "table_inv s'"
proof (cases "find_zombie (procs s) cur 0")
  case (Some i)
  note z = find_index_spec(2) [OF Some]
  let ?v = "(procs s ! i)\<lparr>kstack := 0, pid := 0, parent := None, killed := False, pstate := UNUSED\<rparr>"
  have s': "s' = s\<lparr>procs := (procs s)[i := ?v]\<rparr>" using assms(4) Some by (simp add: wait_def upd_def)
  have "tree_inv (initproc s) ((procs s)[i := ?v])"
    using z assms(1) by (intro tree_inv_reap) (simp_all add: table_inv_def)
  moreover have "fork_inv (forkpc s) ((procs s)[i := ?v])"
    using z assms(1) by (intro fork_inv_entry) (simp_all add: table_inv_def live_def)
  ultimately show ?thesis using z by (intro table_inv_entry [OF assms(1), of i ?v]) (simp_all add: s')
next
  case None
  have z: "\<forall>j < length (procs s). parent (procs s ! j) = Some cur \<longrightarrow> pstate (procs s ! j) \<noteq> ZOMBIE"
    using None unfolding find_zombie_None by auto
  show ?thesis
  proof (cases "s' = s")
    case False
    then have sl: "sleep s c cur (Proc_chan cur) = Some s'"
      using assms(4) None by (auto simp: wait_def split: if_splits)
    show ?thesis
      by (rule table_inv_leave [OF assms(1-3) _ _ _ sl [unfolded sleep_def upd_def]]) (use z in \<open>auto simp: live_def\<close>)
  qed (simp add: assms(1))
qed

lemma table_inv_kill:
  assumes "table_inv s" and "kill s k = (r, s')"
  shows "table_inv s'"
proof (cases "find_pid (procs s) k 0")
  case None
  then show ?thesis using assms by (simp add: kill_def)
next
  case (Some i)
  note i = find_index_spec(3) [OF Some]
  let ?v = "(if pstate (procs s ! i) = SLEEPING then (procs s ! i)\<lparr>pstate := RUNNABLE\<rparr> else procs s ! i)\<lparr>killed := True\<rparr>"
  have t: "tree_inv (initproc s) (procs s)" using assms(1) by (simp add: table_inv_def)
  have "tree_inv (initproc s) ((procs s)[i := ?v])"
  proof (cases "pstate (procs s ! i) = SLEEPING")
    case True
    then show ?thesis using i by (intro tree_inv_update [OF t]) (auto simp: alive_def live_def)
  qed (intro tree_inv_same [OF t]; simp)
  moreover have "fork_inv (forkpc s) ((procs s)[i := ?v])"
    using assms(1) by (intro fork_inv_entry) (auto simp: table_inv_def live_def)
  moreover have "s' = s\<lparr>procs := (procs s)[i := ?v]\<rparr>" using assms(2) Some by (simp add: kill_def upd_def)
  ultimately show ?thesis by (intro table_inv_entry [OF assms(1), of i ?v]) simp_all
qed

lemma table_inv_wakeup: "table_inv s \<Longrightarrow> table_inv (wakeup s ch)"
  unfolding table_inv_def wakeup_def wakeup1_procs
  using cpu_inv_keep [of "procs s" "cpus s" "map (woken ch) (procs s)"]
    fork_inv_keep [of "forkpc s" "procs s" "map (woken ch) (procs s)"]
  by (simp add: wakeup1_def tree_inv_wakeup alive_def)

lemma table_inv_tidy:
  assumes "table_inv s" and "c < length (cpus s)" and "cpus s ! c = Some p"
  shows "table_inv (sleep_tidy s p)"
proof -
  let ?v = "(procs s ! p)\<lparr>chan := No_chan\<rparr>"
  have "tree_inv (initproc s) ((procs s)[p := ?v])"
    using assms(1) on_cpu [OF assms] by (intro tree_inv_update) (simp_all add: table_inv_def live_def)
  moreover have "fork_inv (forkpc s) ((procs s)[p := ?v])"
    using assms(1) on_cpu [OF assms] by (intro fork_inv_entry) (simp_all add: table_inv_def live_def)
  ultimately show ?thesis by (intro table_inv_entry [OF assms(1), of p ?v]) (simp_all add: sleep_tidy_def upd_def)
qed

lemma table_inv_step: "proc_step s s' \<Longrightarrow> table_inv s \<Longrightarrow> table_inv s'"
proof (induction rule: proc_step.induct)
  case (yields c s p s')
  then show ?case by (intro table_inv_leave [OF yields.prems yields.hyps(1,2) _ _ _ yields.hyps(3) [unfolded yield_def upd_def]]) (simp_all add: live_def)
next
  case (sleeps c s p a s')
  then show ?case by (intro table_inv_leave [OF sleeps.prems sleeps.hyps(1,2) _ _ _ sleeps.hyps(4) [unfolded sleep_def upd_def]]) (simp_all add: live_def)
qed (blast intro: table_inv_schedule table_inv_tidy table_inv_fork table_inv_exit table_inv_wait table_inv_wakeup table_inv_kill)+

lemma ptable0_procs:
  "procs (ptable0 n) = \<lparr>psz = 0, pgdir = 0, kstack = 0, pstate = UNUSED, pid = 0, parent = None, chan = No_chan, killed = False\<rparr>
     # replicate 63 \<lparr>psz = 0, pgdir = 0, kstack = 0, pstate = UNUSED, pid = 0, parent = None, chan = No_chan, killed = False\<rparr>"
  by (simp add: ptable0_def NPROC_def eval_nat_numeral)

lemma ptable0_cpus: "cpus (ptable0 n) = replicate n None" "forkpc (ptable0 n) = (\<lambda>_. Outside)"
  by (simp_all add: ptable0_def)

lemma userinit_entry:
  assumes "userinit (ptable0 n) stack dir = Some s"
  obtains v where "procs s = (procs (ptable0 n))[0 := v]" and "pstate v = RUNNABLE" and "parent v = None"
    and "initproc s = 0" and "cpus s = replicate n None" and "forkpc s = (\<lambda>_. Outside)"
proof (rule that)
  note u = assms [unfolded userinit_def allocproc_def alloc_slot_def ptable0_procs]
  show "procs s = (procs (ptable0 n))[0 := procs s ! 0]" "pstate (procs s ! 0) = RUNNABLE" "parent (procs s ! 0) = None"
    "initproc s = 0" "cpus s = replicate n None" "forkpc s = (\<lambda>_. Outside)"
    using u by (auto simp: alloc_stack_def upd_def Let_def ptable0_procs ptable0_cpus split: if_splits)
qed

lemma table_inv_userinit:
  assumes "userinit (ptable0 n) stack dir = Some s"
  shows "table_inv s"
  using assms
proof (rule userinit_entry)
  fix v assume v: "procs s = (procs (ptable0 n))[0 := v]" "pstate v = RUNNABLE" "parent v = None"
    "initproc s = 0" "cpus s = replicate n None" "forkpc s = (\<lambda>_. Outside)"
  have e: "pstate (procs s ! j) = (if j = 0 then RUNNABLE else UNUSED)" "parent (procs s ! j) = None"
    if "j < length (procs s)" for j
    using that v(2,3) unfolding v(1) by (cases j; simp add: ptable0_procs)+
  have l: "0 < length (procs s)" by (simp add: v(1) ptable0_procs)
  have "cpu_inv (procs s) (cpus s)" using e by (intro cpu_invI) (auto simp: v(5) split: if_splits)
  moreover have "tree_inv 0 (procs s)"
    using e l by (intro tree_invI not_missed_awake) (auto simp: alive_def live_def unborn_def split: if_splits)
  moreover have "fork_inv (forkpc s) (procs s)" using e by (intro fork_invI) (auto simp: v(6) split: if_splits)
  ultimately show ?thesis by (simp add: table_inv_def v(4))
qed

lemma table_inv_reachable: "proc_step\<^sup>*\<^sup>* s s' \<Longrightarrow> table_inv s \<Longrightarrow> table_inv s'"
  by (induction rule: rtranclp_induct) (auto intro: table_inv_step)

text \<open>C2: In every state that the scheduler and the system calls reach from the first process, other processes running between the
  steps of a \<open>fork\<close>: a process is running exactly when one CPU, and only one, runs it; every process but \<open>init\<close> whose entry is filled in
  (neither free nor an embryo) has a parent that is alive; an embryo belongs to exactly one process, which is alive and in the middle of \<open>fork\<close>,
  and has no parent yet or that process; and no process that sleeps in
  \<open>wait\<close> has a zombie child, so that no wakeup of \<open>exit\<close> is lost.\<close>

theorem process_table_safe:
  assumes "userinit (ptable0 n) stack dir = Some s\<^sub>0" and "proc_step\<^sup>*\<^sup>* s\<^sub>0 s"
  shows "(\<forall>p < length (procs s). pstate (procs s ! p) = RUNNING \<longleftrightarrow> (\<exists>!c. c < length (cpus s) \<and> cpus s ! c = Some p))
    \<and> (\<forall>p < length (procs s). pstate (procs s ! p) \<notin> {UNUSED, EMBRYO} \<longrightarrow> p \<noteq> initproc s
         \<longrightarrow> (\<exists>q. parent (procs s ! p) = Some q \<and> q \<noteq> p \<and> alive (procs s) q))
    \<and> (\<forall>p < length (procs s). pstate (procs s ! p) = EMBRYO
         \<longrightarrow> (\<exists>q. alive (procs s) q \<and> parent (procs s ! p) \<in> {None, Some q} \<and> (\<forall>r. embryo_of (forkpc s r) = Some p \<longleftrightarrow> r = q)))
    \<and> (\<forall>p < length (procs s). \<forall>z < length (procs s). pstate (procs s ! p) = SLEEPING \<and> chan (procs s ! p) = Proc_chan p
         \<and> parent (procs s ! z) = Some p \<longrightarrow> pstate (procs s ! z) \<noteq> ZOMBIE)"
proof -
  have inv: "cpu_inv (procs s) (cpus s)" "tree_inv (initproc s) (procs s)" "fork_inv (forkpc s) (procs s)"
    using table_inv_reachable [OF assms(2) table_inv_userinit [OF assms(1)]] by (simp_all add: table_inv_def)
  note C = cpu_invD [OF inv(1)]
  have "pstate (procs s ! p) = RUNNING \<longleftrightarrow> (\<exists>!c. c < length (cpus s) \<and> cpus s ! c = Some p)" if "p < length (procs s)" for p
  proof
    assume "pstate (procs s ! p) = RUNNING"
    then obtain c where "c < length (cpus s)" "cpus s ! c = Some p" using C(3) \<open>p < length (procs s)\<close> by blast
    then show "\<exists>!c. c < length (cpus s) \<and> cpus s ! c = Some p" using C(2) by blast
  qed (use C(1) in blast)
  moreover have "pstate (procs s ! z) \<noteq> ZOMBIE"
    if "p < length (procs s)" "z < length (procs s)" "pstate (procs s ! p) = SLEEPING" "chan (procs s ! p) = Proc_chan p"
      "parent (procs s ! z) = Some p" for p z
    using tree_invD(4) [OF inv(2) that(1)] that unfolding not_missed_def by blast
  moreover have "\<exists>q. parent (procs s ! p) = Some q \<and> q \<noteq> p \<and> alive (procs s) q"
    if "p < length (procs s)" "pstate (procs s ! p) \<notin> {UNUSED, EMBRYO}" "p \<noteq> initproc s" for p
    using tree_invD(2,3) [OF inv(2) that(1)] that(2,3) by (auto simp: unborn_def)
  moreover have "\<exists>q. alive (procs s) q \<and> parent (procs s ! p) \<in> {None, Some q} \<and> (\<forall>r. embryo_of (forkpc s r) = Some p \<longleftrightarrow> r = q)"
    if "p < length (procs s)" "pstate (procs s ! p) = EMBRYO" for p
    using fork_invD(3) [OF inv(3) that] fork_invD(1,2) [OF inv(3)] by (metis insertI1 insertI2)
  ultimately show ?thesis by blast
qed

definition boot2 :: ptable where
  "boot2 = the (userinit (ptable0 2) 1 1)"

lemma boot2_userinit: "userinit (ptable0 2) 1 1 = Some boot2"
  by (simp add: boot2_def userinit_def allocproc_def alloc_slot_def alloc_stack_def ptable0_procs Let_def)

lemma boot2_runs: "proc_step boot2 (schedule boot2 1 0)"
  by (rule schedules) (simp_all add: boot2_def userinit_def allocproc_def alloc_slot_def alloc_stack_def ptable0_procs ptable0_cpus Let_def upd_def)

text \<open>The first process in the middle of a \<open>fork\<close>: the next entry is an embryo without a parent.\<close>

definition boot2_forking :: ptable where
  "boot2_forking = (case fork_step (schedule boot2 1 0) 0 Outside 0 of
     (pc, s) \<Rightarrow> s\<lparr>forkpc := (forkpc (schedule boot2 1 0))(0 := pc)\<rparr>)"

lemma ptable0_tail: "replicate 63 x = x # replicate 62 x"
  by (simp add: eval_nat_numeral)

lemmas boot2_eval = boot2_def userinit_def allocproc_def alloc_slot_def alloc_stack_def schedule_def upd_def ptable0_procs
  ptable0_cpus ptable0_tail Let_def

lemma boot2_forks: "proc_step (schedule boot2 1 0) boot2_forking"
proof -
  obtain pc s where f: "fork_step (schedule boot2 1 0) 0 Outside 0 = (pc, s)" by fastforce
  have o: "forkpc (schedule boot2 1 0) 0 = Outside" by (simp add: boot2_eval)
  have "1 < length (cpus (schedule boot2 1 0))" "cpus (schedule boot2 1 0) ! 1 = Some 0" by (simp_all add: boot2_eval)
  from forks [OF this, unfolded o, OF f] show ?thesis unfolding boot2_forking_def f prod.case .
qed

theorem process_table_safe_witness:
  "pstate (procs (schedule boot2 1 0) ! 0) = RUNNING
   \<and> (\<exists>!c. c < length (cpus (schedule boot2 1 0)) \<and> cpus (schedule boot2 1 0) ! c = Some 0)
   \<and> pstate (procs boot2_forking ! 1) = EMBRYO
   \<and> (\<exists>q. alive (procs boot2_forking) q \<and> parent (procs boot2_forking ! 1) \<in> {None, Some q})"
proof -
  have a: "pstate (procs (schedule boot2 1 0) ! 0) = RUNNING" "0 < length (procs (schedule boot2 1 0))"
    by (simp_all add: boot2_eval)
  have b: "pstate (procs boot2_forking ! 1) = EMBRYO" "1 < length (procs boot2_forking)"
    by (simp_all add: boot2_forking_def boot2_eval)
  have r1: "proc_step\<^sup>*\<^sup>* boot2 (schedule boot2 1 0)" using boot2_runs by (rule r_into_rtranclp)
  have r2: "proc_step\<^sup>*\<^sup>* boot2 boot2_forking" using r1 boot2_forks by (rule rtranclp.rtrancl_into_rtrancl)
  from process_table_safe [OF boot2_userinit r1] a
  have "\<exists>!c. c < length (cpus (schedule boot2 1 0)) \<and> cpus (schedule boot2 1 0) ! c = Some 0" by simp
  moreover from process_table_safe [OF boot2_userinit r2] b
  have "\<exists>q. alive (procs boot2_forking) q \<and> parent (procs boot2_forking ! 1) \<in> {None, Some q}" by blast
  ultimately show ?thesis using a b by blast
qed

end
