(* ===== verification/Xv6_Bio.thy ===== *)
theory Xv6_Bio
  imports Prelude
begin

text \<open>
  The buffer cache of xv6, \<open>hw09/unnas-hw09/xv6/bio.c\<close>, with the sleep locks of its buffers
  (\<open>sleeplock.c\<close>) and the disk in memory (\<open>memide.c\<close>).

  A pointer to a buffer is its index; the index after the last buffer is the head of the ring. The scans follow
  the links of the ring and need not end, so they are partial functions; the ring invariant shows that they do. A panic and a
  wait for a sleep lock have no result. The spin lock of the cache makes each section it protects one
  step; \<open>brelse\<close>, which releases the sleep lock just before its section, is one step with it. The disk maps block numbers to contents.
\<close>

section \<open>sleeplock.c\<close>

record sleeplock =
  slocked :: bool
  spid :: int

definition initsleeplock :: sleeplock where
  "initsleeplock = \<lparr>slocked = False, spid = 0\<rparr>"

definition acquiresleep :: "sleeplock \<Rightarrow> int \<Rightarrow> sleeplock option" where
  "acquiresleep lk p = (if slocked lk then None else Some (lk\<lparr>slocked := True, spid := p\<rparr>))"

definition releasesleep :: "sleeplock \<Rightarrow> sleeplock" where
  "releasesleep lk = lk\<lparr>slocked := False, spid := 0\<rparr>"

definition holdingsleep :: "sleeplock \<Rightarrow> int \<Rightarrow> bool" where
  "holdingsleep lk p \<longleftrightarrow> slocked lk \<and> spid lk = p"

section \<open>buf.h\<close>

definition B_VALID :: "32 word" where "B_VALID = 2"
definition B_DIRTY :: "32 word" where "B_DIRTY = 4"
definition NBUF :: nat where "NBUF = 30"

record buf =
  bflags :: "32 word"
  bdev :: int
  blockno :: int
  block :: sleeplock
  refcnt :: int
  bprev :: nat
  bnext :: nat
  bdata :: mem

record bcache =
  bufs :: "buf list"
  memdisk :: "int \<Rightarrow> mem"
  disksize :: int

definition updb :: "bcache \<Rightarrow> nat \<Rightarrow> (buf \<Rightarrow> buf) \<Rightarrow> bcache" where
  "updb s b f = s\<lparr>bufs := (bufs s)[b := f (bufs s ! b)]\<rparr>"

section \<open>memide.c\<close>

definition iderw :: "bcache \<Rightarrow> int \<Rightarrow> nat \<Rightarrow> bcache option" where
  "iderw s p b =
     (let v = bufs s ! b in
      if \<not> holdingsleep (block v) p then None
      else if bflags v AND (B_VALID OR B_DIRTY) = B_VALID then None
      else if bdev v \<noteq> 1 then None
      else if blockno v \<ge> disksize s then None
      else if bflags v AND B_DIRTY \<noteq> 0 then
        Some ((updb s b (\<lambda>v. v\<lparr>bflags := (bflags v AND NOT B_DIRTY) OR B_VALID\<rparr>))
                \<lparr>memdisk := (memdisk s)(blockno v := bdata v)\<rparr>)
      else Some (updb s b (\<lambda>v. v\<lparr>bdata := memdisk s (blockno v), bflags := bflags v OR B_VALID\<rparr>)))"

section \<open>bio.c\<close>

text \<open>The four assignments that put a buffer behind the head.\<close>

definition ring_insert :: "bcache \<Rightarrow> nat \<Rightarrow> bcache" where
  "ring_insert s b =
     (let s = updb s b (\<lambda>v. v\<lparr>bnext := bnext (bufs s ! NBUF)\<rparr>);
          s = updb s b (\<lambda>v. v\<lparr>bprev := NBUF\<rparr>);
          s = updb s (bnext (bufs s ! NBUF)) (\<lambda>v. v\<lparr>bprev := b\<rparr>)
      in updb s NBUF (\<lambda>v. v\<lparr>bnext := b\<rparr>))"

definition ring_remove :: "bcache \<Rightarrow> nat \<Rightarrow> bcache" where
  "ring_remove s b =
     (let s = updb s (bnext (bufs s ! b)) (\<lambda>v. v\<lparr>bprev := bprev (bufs s ! b)\<rparr>)
      in updb s (bprev (bufs s ! b)) (\<lambda>v. v\<lparr>bnext := bnext (bufs s ! b)\<rparr>))"

fun binit_loop :: "bcache \<Rightarrow> nat list \<Rightarrow> bcache" where
  "binit_loop s [] = s"
| "binit_loop s (b # bs) = binit_loop (updb (ring_insert s b) b (\<lambda>v. v\<lparr>block := initsleeplock\<rparr>)) bs"

definition binit :: "bcache \<Rightarrow> bcache" where
  "binit s = binit_loop (updb s NBUF (\<lambda>v. v\<lparr>bprev := NBUF, bnext := NBUF\<rparr>)) [0..<NBUF]"

partial_function (option) scan_cached :: "buf list \<Rightarrow> int \<Rightarrow> int \<Rightarrow> nat \<Rightarrow> nat option option" where
  "scan_cached bs dev n b =
     (if b = NBUF then Some None
      else if bdev (bs ! b) = dev \<and> blockno (bs ! b) = n then Some (Some b)
      else scan_cached bs dev n (bnext (bs ! b)))"

partial_function (option) scan_unused :: "buf list \<Rightarrow> nat \<Rightarrow> nat option option" where
  "scan_unused bs b =
     (if b = NBUF then Some None
      else if refcnt (bs ! b) = 0 \<and> bflags (bs ! b) AND B_DIRTY = 0 then Some (Some b)
      else scan_unused bs (bprev (bs ! b)))"

text \<open>The part of \<open>bget\<close> under the lock of the cache; then it waits for the lock of the buffer.\<close>

definition bget_ref :: "bcache \<Rightarrow> int \<Rightarrow> int \<Rightarrow> (nat \<times> bcache) option" where
  "bget_ref s dev n =
     (case scan_cached (bufs s) dev n (bnext (bufs s ! NBUF)) of
        None \<Rightarrow> None
      | Some (Some b) \<Rightarrow> Some (b, updb s b (\<lambda>v. v\<lparr>refcnt := refcnt v + 1\<rparr>))
      | Some None \<Rightarrow>
          (case scan_unused (bufs s) (bprev (bufs s ! NBUF)) of
             None \<Rightarrow> None
           | Some None \<Rightarrow> None
           | Some (Some b) \<Rightarrow> Some (b, updb s b (\<lambda>v. v\<lparr>bdev := dev, blockno := n, bflags := 0, refcnt := 1\<rparr>))))"

definition lock_buf :: "bcache \<Rightarrow> int \<Rightarrow> nat \<Rightarrow> bcache option" where
  "lock_buf s p b = map_option (\<lambda>lk. updb s b (\<lambda>v. v\<lparr>block := lk\<rparr>)) (acquiresleep (block (bufs s ! b)) p)"

definition bget :: "bcache \<Rightarrow> int \<Rightarrow> int \<Rightarrow> int \<Rightarrow> (nat \<times> bcache) option" where
  "bget s p dev n = do {
     (b, s) \<leftarrow> bget_ref s dev n;
     s \<leftarrow> lock_buf s p b;
     Some (b, s) }"

definition fill_buf :: "bcache \<Rightarrow> int \<Rightarrow> nat \<Rightarrow> bcache option" where
  "fill_buf s p b = (if bflags (bufs s ! b) AND B_VALID = 0 then iderw s p b else Some s)"

definition bread_buf :: "bcache \<Rightarrow> int \<Rightarrow> int \<Rightarrow> int \<Rightarrow> (nat \<times> bcache) option" where
  "bread_buf s p dev n = do {
     (b, s) \<leftarrow> bget s p dev n;
     s \<leftarrow> fill_buf s p b;
     Some (b, s) }"

definition bwrite :: "bcache \<Rightarrow> int \<Rightarrow> nat \<Rightarrow> bcache option" where
  "bwrite s p b =
     (if \<not> holdingsleep (block (bufs s ! b)) p then None
      else iderw (updb s b (\<lambda>v. v\<lparr>bflags := bflags v OR B_DIRTY\<rparr>)) p b)"

definition brelse :: "bcache \<Rightarrow> int \<Rightarrow> nat \<Rightarrow> bcache option" where
  "brelse s p b =
     (if \<not> holdingsleep (block (bufs s ! b)) p then None
      else
        let s = updb s b (\<lambda>v. v\<lparr>block := releasesleep (block v)\<rparr>);
            s = updb s b (\<lambda>v. v\<lparr>refcnt := refcnt v - 1\<rparr>)
        in Some (if refcnt (bufs s ! b) = 0 then ring_insert (ring_remove s b) b else s))"

section \<open>Rings\<close>

text \<open>\<open>link nx pv x os y\<close>: the links lead from \<open>x\<close> through \<open>os\<close> to \<open>y\<close>, and back.\<close>

fun link :: "(nat \<Rightarrow> nat) \<Rightarrow> (nat \<Rightarrow> nat) \<Rightarrow> nat \<Rightarrow> nat list \<Rightarrow> nat \<Rightarrow> bool" where
  "link nx pv x [] y \<longleftrightarrow> nx x = y \<and> pv y = x"
| "link nx pv x (z # os) y \<longleftrightarrow> nx x = z \<and> pv z = x \<and> link nx pv z os y"

lemma link_append: "link nx pv x (as @ b # cs) y \<longleftrightarrow> link nx pv x as b \<and> link nx pv b cs y"
  by (induction as arbitrary: x) auto

lemma link_cong:
  assumes "link nx pv x os y" and "\<And>z. z \<in> set (x # os) \<Longrightarrow> nx' z = nx z" and "\<And>z. z \<in> set (os @ [y]) \<Longrightarrow> pv' z = pv z"
  shows "link nx' pv' x os y"
  using assms by (induction os arbitrary: x) auto

lemma link_ends:
  assumes "link nx pv x os y"
  shows "nx x \<in> set (os @ [y])" and "pv y \<in> set (x # os)"
  using assms by (induction os arbitrary: x) auto

lemma link_insert:
  assumes "link nx pv h os h" and "distinct (h # b # os)"
  shows "link (nx(b := nx h, h := b)) (pv(b := h, nx h := b)) h (b # os) h"
proof (cases os)
  case Nil
  then show ?thesis using assms by simp
next
  case (Cons a as)
  have a: "nx h = a" "link nx pv a as h" using assms(1) Cons by simp_all
  have "link (nx(b := nx h, h := b)) (pv(b := h, nx h := b)) a as h"
    by (rule link_cong [OF a(2)]) (use assms(2) Cons a(1) in auto)
  then show ?thesis using a(1) assms(2) Cons by simp
qed

lemma link_remove:
  assumes "link nx pv x (as @ b # cs) y" and "distinct (x # as @ b # cs)" and "y \<notin> set (as @ b # cs)"
  shows "link (nx(pv b := nx b)) (pv(nx b := pv b)) x (as @ cs) y"
  using assms
proof (induction as arbitrary: x)
  case Nil
  show ?case
  proof (cases cs)
    case (Cons c cs')
    have c: "nx b = c" "pv b = x" "link nx pv c cs' y" using Nil Cons by simp_all
    have "link (nx(x := c)) (pv(c := x)) c cs' y"
      by (rule link_cong [OF c(3)]) (use Nil Cons in auto)
    then show ?thesis using c Cons by (simp add: fun_upd_def)
  qed (use Nil in simp)
next
  case (Cons a as)
  have a: "nx x = a" "pv a = x" "link nx pv a (as @ b # cs) y" using Cons.prems(1) by simp_all
  have "link nx pv a as b" "link nx pv b cs y" using a(3) by (simp_all add: link_append)
  then have "pv b \<in> set (a # as)" "nx b \<in> set (cs @ [y])" using link_ends by blast+
  then have "x \<noteq> pv b" "a \<noteq> nx b" using Cons.prems(2,3) by auto
  then show ?case using Cons.IH [OF a(3)] Cons.prems(2,3) a(1,2) by simp
qed

text \<open>The ring of a cache: all buffers, most recently used first.\<close>

definition ring :: "buf list \<Rightarrow> nat list \<Rightarrow> bool" where
  "ring bs os \<longleftrightarrow> length bs = Suc NBUF \<and> distinct os \<and> set os = {..<NBUF}
     \<and> link (\<lambda>i. bnext (bs ! i)) (\<lambda>i. bprev (bs ! i)) NBUF os NBUF"

lemma scan_cached_find:
  assumes "link (\<lambda>i. bnext (bs ! i)) pv x os NBUF" and "NBUF \<notin> set os"
  shows "scan_cached bs dev n (bnext (bs ! x)) = Some (find (\<lambda>b. bdev (bs ! b) = dev \<and> blockno (bs ! b) = n) os)"
  using assms
proof (induction os arbitrary: x)
  case Nil
  then show ?case by (simp add: scan_cached.simps)
next
  case (Cons b os)
  then show ?case using Cons.IH [of b] scan_cached.simps [of bs dev n b] by simp
qed

lemma link_rev: "link nx pv x os y \<Longrightarrow> link pv nx y (rev os) x"
proof (induction os arbitrary: x)
  case (Cons z os)
  then show ?case by (simp add: link_append)
qed simp

lemma scan_unused_find:
  assumes "link (\<lambda>i. bprev (bs ! i)) nx x os NBUF" and "NBUF \<notin> set os"
  shows "scan_unused bs (bprev (bs ! x)) = Some (find (\<lambda>b. refcnt (bs ! b) = 0 \<and> bflags (bs ! b) AND B_DIRTY = 0) os)"
  using assms
proof (induction os arbitrary: x)
  case Nil
  then show ?case by (simp add: scan_unused.simps)
next
  case (Cons b os)
  then show ?case using Cons.IH [of b] scan_unused.simps [of bs b] by simp
qed

text \<open>The links after the updates of the list of buffers.\<close>

lemma ring_bounds:
  assumes "ring bs os"
  shows "length bs = Suc NBUF" and "distinct os" and "i \<in> set os \<longleftrightarrow> i < NBUF" and "NBUF \<notin> set os"
    and "link (\<lambda>i. bnext (bs ! i)) (\<lambda>i. bprev (bs ! i)) NBUF os NBUF"
  using assms by (auto simp: ring_def)

lemma ring_keep:
  assumes "ring bs os" and "bnext v = bnext (bs ! b)" and "bprev v = bprev (bs ! b)"
  shows "ring (bs[b := v]) os"
proof (cases "b < length bs")
  case True
  have "(\<lambda>i. bnext (bs[b := v] ! i)) = (\<lambda>i. bnext (bs ! i))" "(\<lambda>i. bprev (bs[b := v] ! i)) = (\<lambda>i. bprev (bs ! i))"
    using assms(2,3) True by (auto simp: fun_eq_iff nth_list_update)
  then show ?thesis using assms(1) by (simp add: ring_def)
qed (simp add: assms(1) list_update_beyond)

lemma nx_upd:
  assumes "b < length (bufs s)"
  shows "(\<lambda>i. bnext (bufs (updb s b f) ! i)) = (\<lambda>i. bnext (bufs s ! i))(b := bnext (f (bufs s ! b)))"
    and "(\<lambda>i. bprev (bufs (updb s b f) ! i)) = (\<lambda>i. bprev (bufs s ! i))(b := bprev (f (bufs s ! b)))"
  using assms by (auto simp: updb_def fun_eq_iff nth_list_update)

lemma length_updb [simp]: "length (bufs (updb s b f)) = length (bufs s)"
  by (simp add: updb_def)

text \<open>A buffer without its links.\<close>

definition core :: "buf \<Rightarrow> buf" where
  "core v = v\<lparr>bprev := 0, bnext := 0\<rparr>"

lemma core_simps [simp]: "bflags (core v) = bflags v" "bdev (core v) = bdev v" "blockno (core v) = blockno v"
  "block (core v) = block v" "refcnt (core v) = refcnt v" "bdata (core v) = bdata v"
  by (simp_all add: core_def)

lemma core_links [simp]: "core (v\<lparr>bnext := x\<rparr>) = core v" "core (v\<lparr>bprev := x\<rparr>) = core v"
  by (simp_all add: core_def)

lemma core_fields:
  assumes "core v = core w"
  shows "bflags v = bflags w \<and> bdev v = bdev w \<and> blockno v = blockno w \<and> block v = block w \<and> refcnt v = refcnt w \<and> bdata v = bdata w"
  using assms core_simps by metis

lemma core_updb:
  assumes "\<And>v. core (f v) = core v"
  shows "core (bufs (updb s b f) ! i) = core (bufs s ! i)"
  using assms by (cases "b < length (bufs s)"; cases "i = b") (simp_all add: updb_def list_update_beyond)

lemma ring_insert_spec:
  assumes "link (\<lambda>i. bnext (bufs s ! i)) (\<lambda>i. bprev (bufs s ! i)) NBUF os NBUF" and "distinct (NBUF # b # os)"
    and "length (bufs s) = Suc NBUF" and "b < NBUF" and "set os \<subseteq> {..<NBUF}"
  shows "link (\<lambda>i. bnext (bufs (ring_insert s b) ! i)) (\<lambda>i. bprev (bufs (ring_insert s b) ! i)) NBUF (b # os) NBUF"
    and "core (bufs (ring_insert s b) ! i) = core (bufs s ! i)" and "length (bufs (ring_insert s b)) = length (bufs s)"
    and "memdisk (ring_insert s b) = memdisk s" and "disksize (ring_insert s b) = disksize s"
proof -
  let ?h = "bnext (bufs s ! NBUF)"
  have h: "?h < length (bufs s)" using link_ends(1) [OF assms(1)] assms(3,5) by auto
  define s2 where "s2 = updb (updb s b (\<lambda>v. v\<lparr>bnext := ?h\<rparr>)) b (\<lambda>v. v\<lparr>bprev := NBUF\<rparr>)"
  have e: "bnext (bufs s2 ! NBUF) = ?h" using assms(3,4) by (simp add: s2_def updb_def)
  have ri: "ring_insert s b = updb (updb s2 ?h (\<lambda>v. v\<lparr>bprev := b\<rparr>)) NBUF (\<lambda>v. v\<lparr>bnext := b\<rparr>)"
    unfolding ring_insert_def Let_def s2_def [symmetric] e ..
  have nx: "(\<lambda>i. bnext (bufs (ring_insert s b) ! i)) = (\<lambda>i. bnext (bufs s ! i))(b := ?h, NBUF := b)"
    unfolding ri s2_def using assms(3,4) h by (simp add: nx_upd fun_upd_idem) (auto simp: updb_def fun_eq_iff nth_list_update)
  have pv: "(\<lambda>i. bprev (bufs (ring_insert s b) ! i)) = (\<lambda>i. bprev (bufs s ! i))(b := NBUF, ?h := b)"
    unfolding ri s2_def using assms(3,4) h by (simp add: nx_upd fun_upd_idem) (auto simp: updb_def fun_eq_iff nth_list_update)
  show "link (\<lambda>i. bnext (bufs (ring_insert s b) ! i)) (\<lambda>i. bprev (bufs (ring_insert s b) ! i)) NBUF (b # os) NBUF"
    unfolding nx pv by (rule link_insert [OF assms(1,2)])
  show "core (bufs (ring_insert s b) ! i) = core (bufs s ! i)" unfolding ri s2_def by (simp add: core_updb)
  show "length (bufs (ring_insert s b)) = length (bufs s)" "memdisk (ring_insert s b) = memdisk s" "disksize (ring_insert s b) = disksize s"
    unfolding ri s2_def by (simp_all add: updb_def)
qed

lemma ring_remove_spec:
  assumes "ring (bufs s) (as @ b # cs)"
  shows "link (\<lambda>i. bnext (bufs (ring_remove s b) ! i)) (\<lambda>i. bprev (bufs (ring_remove s b) ! i)) NBUF (as @ cs) NBUF"
    and "core (bufs (ring_remove s b) ! i) = core (bufs s ! i)" and "length (bufs (ring_remove s b)) = length (bufs s)"
    and "memdisk (ring_remove s b) = memdisk s" and "disksize (ring_remove s b) = disksize s"
proof -
  note R = ring_bounds [OF assms]
  let ?n = "bnext (bufs s ! b)" and ?p = "bprev (bufs s ! b)"
  have l: "link (\<lambda>i. bnext (bufs s ! i)) (\<lambda>i. bprev (bufs s ! i)) NBUF as b"
    "link (\<lambda>i. bnext (bufs s ! i)) (\<lambda>i. bprev (bufs s ! i)) b cs NBUF" using R(5) by (simp_all add: link_append)
  have b: "b < NBUF" using R(3) [of b] by simp
  have "?n \<in> set cs \<or> ?n = NBUF" "?p \<in> set as \<or> ?p = NBUF" using link_ends(1) [OF l(2)] link_ends(2) [OF l(1)] by auto
  moreover have "b \<notin> set as" "b \<notin> set cs" using R(2) by simp_all
  moreover have "i < NBUF" if "i \<in> set as \<or> i \<in> set cs" for i using R(3) [of i] that by auto
  ultimately have np: "?n < length (bufs s)" "?p < length (bufs s)" "?n \<noteq> b" "?p \<noteq> b" using R(1) b by fastforce+
  define s1 where "s1 = updb s ?n (\<lambda>v. v\<lparr>bprev := ?p\<rparr>)"
  have e: "bprev (bufs s1 ! b) = ?p" "bnext (bufs s1 ! b) = ?n" using np by (simp_all add: s1_def updb_def)
  have rr: "ring_remove s b = updb s1 ?p (\<lambda>v. v\<lparr>bnext := ?n\<rparr>)"
    unfolding ring_remove_def Let_def s1_def [symmetric] e ..
  have nx: "(\<lambda>i. bnext (bufs (ring_remove s b) ! i)) = (\<lambda>i. bnext (bufs s ! i))(?p := ?n)"
    "(\<lambda>i. bprev (bufs (ring_remove s b) ! i)) = (\<lambda>i. bprev (bufs s ! i))(?n := ?p)"
    unfolding rr s1_def using np by (auto simp: updb_def fun_eq_iff nth_list_update)
  show "link (\<lambda>i. bnext (bufs (ring_remove s b) ! i)) (\<lambda>i. bprev (bufs (ring_remove s b) ! i)) NBUF (as @ cs) NBUF"
    unfolding nx by (rule link_remove [OF R(5)]) (use R(2,4) in auto)
  show "core (bufs (ring_remove s b) ! i) = core (bufs s ! i)" unfolding rr s1_def by (simp add: core_updb)
  show "length (bufs (ring_remove s b)) = length (bufs s)" "memdisk (ring_remove s b) = memdisk s" "disksize (ring_remove s b) = disksize s"
    unfolding rr s1_def by (simp_all add: updb_def)
qed

text \<open>A released buffer moves to the front of the ring.\<close>

lemma ring_move:
  assumes "ring (bufs s) os" and "b < NBUF"
  shows "ring (bufs (ring_insert (ring_remove s b) b)) (b # remove1 b os)"
    and "core (bufs (ring_insert (ring_remove s b) b) ! i) = core (bufs s ! i)"
    and "memdisk (ring_insert (ring_remove s b) b) = memdisk s" and "disksize (ring_insert (ring_remove s b) b) = disksize s"
proof -
  note R = ring_bounds [OF assms(1)]
  obtain as cs where os: "os = as @ b # cs" "b \<notin> set as" using split_list_first [of b os] R(3) assms(2) by auto
  have rm: "remove1 b os = as @ cs" using os by (simp add: remove1_append)
  note rem = ring_remove_spec [OF assms(1) [unfolded os(1)]]
  have d: "distinct (NBUF # b # as @ cs)" "set (as @ cs) \<subseteq> {..<NBUF}" "insert b (set (as @ cs)) = {..<NBUF}"
    using R(2,3,4) os(1) assms(1) by (auto simp: ring_def)
  note ins = ring_insert_spec [OF rem(1) d(1) _ assms(2) d(2)]
  have len: "length (bufs (ring_remove s b)) = Suc NBUF" using rem(3) R(1) by simp
  show "ring (bufs (ring_insert (ring_remove s b) b)) (b # remove1 b os)"
    unfolding ring_def rm using ins(1,3) [OF len] len d by auto
  show "core (bufs (ring_insert (ring_remove s b) b) ! i) = core (bufs s ! i)" using ins(2) [OF len] rem(2) by simp
  show "memdisk (ring_insert (ring_remove s b) b) = memdisk s" "disksize (ring_insert (ring_remove s b) b) = disksize s"
    using ins(4,5) [OF len] rem(4,5) by simp_all
qed

section \<open>The cache as a memory of blocks\<close>

text \<open>
  Processes that use the cache the way \<open>log.c\<close> and \<open>fs.c\<close> do: they get a reference to a buffer, wait for its lock, fill it, change its data
  (and pin it, as \<open>log_write\<close> does, or write it) and release it. \<open>refs\<close> has the references to each buffer, by process; \<open>content\<close> has the
  data that was last put into each block.
\<close>

record bstate =
  cache :: bcache
  refs :: "nat \<Rightarrow> int multiset"
  content :: "int \<Rightarrow> mem"

definition valid_buf :: "buf \<Rightarrow> bool" where
  "valid_buf v \<longleftrightarrow> bflags v AND B_VALID \<noteq> 0"

definition dirty_buf :: "buf \<Rightarrow> bool" where
  "dirty_buf v \<longleftrightarrow> bflags v AND B_DIRTY \<noteq> 0"

inductive bstep :: "bstate \<Rightarrow> bstate \<Rightarrow> bool" where
  gets: "bget_ref (cache s) 1 n = Some (b, c) \<Longrightarrow> bstep s (s\<lparr>cache := c, refs := (refs s)(b := add_mset p (refs s b))\<rparr>)"
| locks: "p \<in># refs s b \<Longrightarrow> lock_buf (cache s) p b = Some c \<Longrightarrow> bstep s (s\<lparr>cache := c\<rparr>)"
| fills: "p \<in># refs s b \<Longrightarrow> fill_buf (cache s) p b = Some c \<Longrightarrow> bstep s (s\<lparr>cache := c\<rparr>)"
| pins: "p \<in># refs s b \<Longrightarrow> holdingsleep (block (bufs (cache s) ! b)) p \<Longrightarrow> valid_buf (bufs (cache s) ! b)
    \<Longrightarrow> bstep s (s\<lparr>cache := updb (cache s) b (\<lambda>v. v\<lparr>bdata := d, bflags := bflags v OR B_DIRTY\<rparr>),
                    content := (content s)(blockno (bufs (cache s) ! b) := d)\<rparr>)"
| writes: "p \<in># refs s b \<Longrightarrow> valid_buf (bufs (cache s) ! b) \<Longrightarrow> bwrite (updb (cache s) b (\<lambda>v. v\<lparr>bdata := d\<rparr>)) p b = Some c
    \<Longrightarrow> bstep s (s\<lparr>cache := c, content := (content s)(blockno (bufs (cache s) ! b) := d)\<rparr>)"
| releases: "p \<in># refs s b \<Longrightarrow> brelse (cache s) p b = Some c
    \<Longrightarrow> bstep s (s\<lparr>cache := c, refs := (refs s)(b := refs s b - {#p#})\<rparr>)"

lemma flag_bits: "f AND B_VALID = 0 \<longleftrightarrow> \<not> bit f 1" "f AND B_DIRTY = 0 \<longleftrightarrow> \<not> bit f 2"
  using and_exp_eq_0_iff_not_bit [of f 1] and_exp_eq_0_iff_not_bit [of f 2] by (simp_all add: B_VALID_def B_DIRTY_def)

lemma bit_flags: "bit B_VALID n \<longleftrightarrow> n = 1" "bit B_DIRTY n \<longleftrightarrow> n = 2"
  using bit_exp_iff [of 1 n, where 'a = "32 word"] bit_exp_iff [of 2 n, where 'a = "32 word"]
  by (auto simp: B_VALID_def B_DIRTY_def)

lemma valid_dirty_simps [simp]:
  "valid_buf (v\<lparr>bflags := f\<rparr>) \<longleftrightarrow> bit f 1" "dirty_buf (v\<lparr>bflags := f\<rparr>) \<longleftrightarrow> bit f 2"
  by (simp_all add: valid_buf_def dirty_buf_def flag_bits)

lemma valid_dirty_bits: "valid_buf v \<longleftrightarrow> bit (bflags v) 1" "dirty_buf v \<longleftrightarrow> bit (bflags v) 2"
  by (simp_all add: valid_buf_def dirty_buf_def flag_bits)

definition buf_ok :: "(int \<Rightarrow> mem) \<Rightarrow> int multiset \<Rightarrow> buf \<Rightarrow> bool" where
  "buf_ok m R v \<longleftrightarrow> refcnt v = int (size R) \<and> (slocked (block v) \<longrightarrow> spid (block v) \<in># R) \<and> (R \<noteq> {#} \<longrightarrow> bdev v = 1)
     \<and> (dirty_buf v \<longrightarrow> valid_buf v \<and> bdev v = 1) \<and> (valid_buf v \<and> bdev v = 1 \<longrightarrow> bdata v = m (blockno v))"

definition caches :: "buf \<Rightarrow> int \<Rightarrow> bool" where
  "caches v n \<longleftrightarrow> bdev v = 1 \<and> blockno v = n"

definition binv :: "buf list \<Rightarrow> (nat \<Rightarrow> int multiset) \<Rightarrow> (int \<Rightarrow> mem) \<Rightarrow> (int \<Rightarrow> mem) \<Rightarrow> bool" where
  "binv bs R m d \<longleftrightarrow> (\<exists>os. ring bs os) \<and> (\<forall>i < NBUF. buf_ok m (R i) (bs ! i)) \<and> (\<forall>i \<ge> NBUF. R i = {#})
     \<and> (\<forall>i < NBUF. \<forall>j < NBUF. \<forall>n. caches (bs ! i) n \<longrightarrow> caches (bs ! j) n \<longrightarrow> i = j)
     \<and> (\<forall>n. (\<forall>i < NBUF. caches (bs ! i) n \<longrightarrow> \<not> dirty_buf (bs ! i)) \<longrightarrow> d n = m n)"

lemma binvD:
  assumes "binv bs R m d"
  shows "\<exists>os. ring bs os" and "i < NBUF \<Longrightarrow> buf_ok m (R i) (bs ! i)" and "p \<in># R i \<Longrightarrow> i < NBUF"
    and "i < NBUF \<Longrightarrow> j < NBUF \<Longrightarrow> caches (bs ! i) n \<Longrightarrow> caches (bs ! j) n \<Longrightarrow> i = j"
    and "(\<And>i. i < NBUF \<Longrightarrow> caches (bs ! i) n \<Longrightarrow> \<not> dirty_buf (bs ! i)) \<Longrightarrow> d n = m n"
  using assms unfolding binv_def by (blast, blast, metis empty_iff linorder_not_le set_mset_empty, blast, blast)

lemma binv_clean:
  assumes "binv bs R m d" and "b < NBUF" and "caches (bs ! b) n" and "\<not> dirty_buf (bs ! b)"
  shows "d n = m n"
  using binvD(4,5) [OF assms(1)] assms(2-4) by blast

text \<open>A step replaces one buffer, which then caches block \<open>n\<close>, and leaves the other blocks alone.\<close>

lemma binv_update:
  assumes "binv bs R m d" and "b < NBUF" and "bnext v = bnext (bs ! b)" and "bprev v = bprev (bs ! b)" and "caches v n"
    and "\<And>j. j < NBUF \<Longrightarrow> j \<noteq> b \<Longrightarrow> \<not> caches (bs ! j) n" and "bdev (bs ! b) = 1 \<Longrightarrow> dirty_buf (bs ! b) \<Longrightarrow> blockno (bs ! b) = n"
    and "\<And>k. k \<noteq> n \<Longrightarrow> m' k = m k" and "\<And>k. k \<noteq> n \<Longrightarrow> d' k = d k" and "buf_ok m' R' v" and "\<not> dirty_buf v \<Longrightarrow> d' n = m' n"
  shows "binv (bs[b := v]) (R(b := R')) m' d'"
proof -
  obtain os where os: "ring bs os" using binvD(1) [OF assms(1)] by blast
  have b: "b < length bs" using assms(2) ring_bounds(1) [OF os] by simp
  have "buf_ok m' ((R(b := R')) i) (bs[b := v] ! i)" if "i < NBUF" for i
  proof (cases "i = b")
    case False
    then have "buf_ok m (R i) (bs ! i)" "\<not> caches (bs ! i) n" using binvD(2) [OF assms(1)] assms(6) that by simp_all
    then show ?thesis using False assms(8) by (auto simp: buf_ok_def caches_def)
  qed (use b assms(10) in simp)
  moreover have "i = j" if "i < NBUF" "j < NBUF" "caches (bs[b := v] ! i) k" "caches (bs[b := v] ! j) k" for i j k
  proof -
    have nb: "k \<noteq> n" if "l < NBUF" "l \<noteq> b" "caches (bs ! l) k" for l using assms(6) that by blast
    have vn: "caches v k \<Longrightarrow> k = n" using assms(5) by (simp add: caches_def)
    show ?thesis using that nb vn binvD(4) [OF assms(1)] b by (cases "i = b"; cases "j = b") auto
  qed
  moreover have "d' k = m' k" if cl: "\<And>i. i < NBUF \<Longrightarrow> caches (bs[b := v] ! i) k \<Longrightarrow> \<not> dirty_buf (bs[b := v] ! i)" for k
  proof (cases "k = n")
    case True
    then show ?thesis using cl [OF assms(2)] assms(5,11) b by simp
  next
    case False
    have "\<not> dirty_buf (bs ! i)" if "i < NBUF" "caches (bs ! i) k" for i
      using cl [OF that(1)] that assms(7) False by (cases "i = b") (auto simp: caches_def)
    then show ?thesis using binvD(5) [OF assms(1), of k] assms(8,9) [OF False] by simp
  qed
  moreover have "(R(b := R')) i = {#}" if "i \<ge> NBUF" for i using assms(1,2) that by (simp add: binv_def)
  ultimately show ?thesis using ring_keep [OF os assms(3,4)] unfolding binv_def by blast
qed

lemma binv_core:
  assumes "binv bs R m d" and "\<And>i. i < NBUF \<Longrightarrow> core (bs' ! i) = core (bs ! i)" and "ring bs' os"
  shows "binv bs' R m d"
proof -
  have "caches (bs' ! i) n = caches (bs ! i) n" "dirty_buf (bs' ! i) = dirty_buf (bs ! i)" "buf_ok m (R i) (bs' ! i) = buf_ok m (R i) (bs ! i)"
    if "i < NBUF" for i n
    using core_fields [OF assms(2) [OF that]] by (simp_all add: caches_def dirty_buf_def valid_buf_def buf_ok_def)
  then show ?thesis using assms(1,3) unfolding binv_def by auto
qed

text \<open>A step on a buffer that is in use.\<close>

lemma binv_touch:
  assumes "binv bs R m d" and "p \<in># R b"
    and "bnext v = bnext (bs ! b)" and "bprev v = bprev (bs ! b)" and "bdev v = bdev (bs ! b)" and "blockno v = blockno (bs ! b)"
    and "\<And>k. k \<noteq> blockno v \<Longrightarrow> m' k = m k" and "\<And>k. k \<noteq> blockno v \<Longrightarrow> d' k = d k" and "buf_ok m' R' v"
    and "\<not> dirty_buf v \<Longrightarrow> d' (blockno v) = m' (blockno v)"
  shows "binv (bs[b := v]) (R(b := R')) m' d'"
proof -
  have b: "b < NBUF" using binvD(3) [OF assms(1,2)] .
  have dev: "bdev (bs ! b) = 1" using binvD(2) [OF assms(1) b] assms(2) by (auto simp: buf_ok_def)
  then have c: "caches (bs ! b) (blockno v)" using assms(6) by (simp add: caches_def)
  show ?thesis
  proof (rule binv_update [OF assms(1) b assms(3,4), where n = "blockno v"])
    show "\<not> caches (bs ! j) (blockno v)" if "j < NBUF" "j \<noteq> b" for j using binvD(4) [OF assms(1) that(1) b] c that(2) by blast
  qed (use assms dev in \<open>simp_all add: caches_def\<close>)
qed

lemma buf_okD:
  assumes "buf_ok m R v"
  shows "refcnt v = int (size R)" and "slocked (block v) \<Longrightarrow> spid (block v) \<in># R" and "p \<in># R \<Longrightarrow> bdev v = 1"
    and "dirty_buf v \<Longrightarrow> valid_buf v \<and> bdev v = 1" and "valid_buf v \<Longrightarrow> bdev v = 1 \<Longrightarrow> bdata v = m (blockno v)"
  using assms by (auto simp: buf_ok_def)

lemma refs_same: "R(b := R b) = (R :: nat \<Rightarrow> int multiset)"
  by simp

lemma binv_disk:
  assumes "binv bs R m d" and "p \<in># R b" and "\<not> dirty_buf (bs ! b)"
  shows "d (blockno (bs ! b)) = m (blockno (bs ! b))"
  using binv_clean [OF assms(1) binvD(3) [OF assms(1,2)] _ assms(3)] buf_okD(3) [OF binvD(2) [OF assms(1) binvD(3) [OF assms(1,2)]] assms(2)]
  by (simp add: caches_def)

abbreviation binv_of :: "bstate \<Rightarrow> bool" where
  "binv_of s \<equiv> binv (bufs (cache s)) (refs s) (content s) (memdisk (cache s))"

lemma binv_lock:
  assumes "binv_of s" and "p \<in># refs s b" and "lock_buf (cache s) p b = Some c"
  shows "binv_of (s\<lparr>cache := c\<rparr>)"
proof -
  let ?v = "bufs (cache s) ! b"
  have ok: "buf_ok (content s) (refs s b) ?v" using binvD(2) [OF assms(1) binvD(3) [OF assms(1,2)]] .
  have c: "c = updb (cache s) b (\<lambda>v. v\<lparr>block := (block v)\<lparr>slocked := True, spid := p\<rparr>\<rparr>)"
    using assms(3) by (auto simp: lock_buf_def acquiresleep_def updb_def split: if_splits)
  have "binv ((bufs (cache s))[b := ?v\<lparr>block := (block ?v)\<lparr>slocked := True, spid := p\<rparr>\<rparr>]) ((refs s)(b := refs s b)) (content s) (memdisk (cache s))"
    by (rule binv_touch [OF assms(1,2)])
      (use ok assms(2) binv_disk [OF assms(1,2)] in \<open>simp_all add: buf_ok_def valid_dirty_bits\<close>)
  then show ?thesis by (simp add: c updb_def refs_same)
qed

lemma iderw_cases:
  assumes "iderw s p b = Some c"
  obtains (wr) "holdingsleep (block (bufs s ! b)) p" and "bdev (bufs s ! b) = 1" and "dirty_buf (bufs s ! b)"
      and "c = s\<lparr>bufs := (bufs s)[b := (bufs s ! b)\<lparr>bflags := (bflags (bufs s ! b) AND NOT B_DIRTY) OR B_VALID\<rparr>],
                  memdisk := (memdisk s)(blockno (bufs s ! b) := bdata (bufs s ! b))\<rparr>"
    | (rd) "holdingsleep (block (bufs s ! b)) p" and "bdev (bufs s ! b) = 1" and "\<not> dirty_buf (bufs s ! b)"
      and "c = s\<lparr>bufs := (bufs s)[b := (bufs s ! b)\<lparr>bdata := memdisk s (blockno (bufs s ! b)), bflags := bflags (bufs s ! b) OR B_VALID\<rparr>]\<rparr>"
  using assms by (auto simp: iderw_def Let_def updb_def dirty_buf_def split: if_splits)

lemma binv_fill:
  assumes "binv_of s" and "p \<in># refs s b" and "fill_buf (cache s) p b = Some c"
  shows "binv_of (s\<lparr>cache := c\<rparr>)"
proof (cases "valid_buf (bufs (cache s) ! b)")
  case True
  then show ?thesis using assms by (simp add: fill_buf_def valid_buf_def)
next
  case False
  let ?v = "bufs (cache s) ! b"
  have ok: "buf_ok (content s) (refs s b) ?v" using binvD(2) [OF assms(1) binvD(3) [OF assms(1,2)]] .
  have clean: "\<not> dirty_buf ?v" using buf_okD(4) [OF ok] False by blast
  have "iderw (cache s) p b = Some c" using assms(3) False by (simp add: fill_buf_def valid_buf_def)
  then show ?thesis
  proof (cases rule: iderw_cases)
    case rd
    have "binv ((bufs (cache s))[b := ?v\<lparr>bdata := memdisk (cache s) (blockno ?v), bflags := bflags ?v OR B_VALID\<rparr>])
        ((refs s)(b := refs s b)) (content s) (memdisk (cache s))"
      by (rule binv_touch [OF assms(1,2)])
        (use ok clean binv_disk [OF assms(1,2) clean] in \<open>simp_all add: buf_ok_def valid_dirty_bits bit_or_iff bit_flags\<close>)
    then show ?thesis by (simp add: rd(4) refs_same)
  qed (use clean in blast)
qed

lemma binv_pin:
  assumes "binv_of s" and "p \<in># refs s b" and "valid_buf (bufs (cache s) ! b)"
  shows "binv_of (s\<lparr>cache := updb (cache s) b (\<lambda>v. v\<lparr>bdata := d, bflags := bflags v OR B_DIRTY\<rparr>),
                    content := (content s)(blockno (bufs (cache s) ! b) := d)\<rparr>)"
proof -
  let ?v = "bufs (cache s) ! b"
  have ok: "buf_ok (content s) (refs s b) ?v" using binvD(2) [OF assms(1) binvD(3) [OF assms(1,2)]] .
  have "bdev ?v = 1" by (rule buf_okD(3) [OF ok assms(2)])
  then have "binv ((bufs (cache s))[b := ?v\<lparr>bdata := d, bflags := bflags ?v OR B_DIRTY\<rparr>])
      ((refs s)(b := refs s b)) ((content s)(blockno ?v := d)) (memdisk (cache s))"
    by (intro binv_touch [OF assms(1,2)])
      (use ok assms(3) in \<open>simp_all add: buf_ok_def valid_dirty_bits bit_or_iff bit_flags\<close>)
  then show ?thesis by (simp add: updb_def refs_same)
qed

lemma binv_write:
  assumes "binv_of s" and "p \<in># refs s b" and "valid_buf (bufs (cache s) ! b)" and "bwrite (updb (cache s) b (\<lambda>v. v\<lparr>bdata := d\<rparr>)) p b = Some c"
  shows "binv_of (s\<lparr>cache := c, content := (content s)(blockno (bufs (cache s) ! b) := d)\<rparr>)"
proof -
  let ?v = "bufs (cache s) ! b"
  have b: "b < NBUF" using binvD(3) [OF assms(1,2)] .
  obtain os where "ring (bufs (cache s)) os" using binvD(1) [OF assms(1)] by blast
  then have bl: "b < length (bufs (cache s))" using b ring_bounds(1) by fastforce
  have ok: "buf_ok (content s) (refs s b) ?v" using binvD(2) [OF assms(1) b] .
  have "iderw (updb (cache s) b (\<lambda>v. v\<lparr>bdata := d, bflags := bflags v OR B_DIRTY\<rparr>)) p b = Some c"
    using assms(4) bl by (simp add: bwrite_def updb_def split: if_splits)
  then show ?thesis
  proof (cases rule: iderw_cases)
    case wr
    have c: "bufs c = (bufs (cache s))[b := ?v\<lparr>bdata := d, bflags := (bflags ?v OR B_DIRTY) AND NOT B_DIRTY OR B_VALID\<rparr>]"
      "memdisk c = (memdisk (cache s))(blockno ?v := d)" using wr(4) bl by (simp_all add: updb_def)
    have "bdev ?v = 1" by (rule buf_okD(3) [OF ok assms(2)])
    then have "binv ((bufs (cache s))[b := ?v\<lparr>bdata := d, bflags := (bflags ?v OR B_DIRTY) AND NOT B_DIRTY OR B_VALID\<rparr>])
        ((refs s)(b := refs s b)) ((content s)(blockno ?v := d)) ((memdisk (cache s))(blockno ?v := d))"
      by (intro binv_touch [OF assms(1,2)])
        (use ok in \<open>simp_all add: buf_ok_def valid_dirty_bits bit_or_iff bit_and_iff bit_not_iff bit_flags\<close>)
    then show ?thesis by (simp add: c refs_same)
  next
    case rd
    then show ?thesis using bl by (simp add: updb_def valid_dirty_bits bit_or_iff bit_flags)
  qed
qed

lemma binv_release:
  assumes "binv_of s" and "p \<in># refs s b" and "brelse (cache s) p b = Some c"
  shows "binv_of (s\<lparr>cache := c, refs := (refs s)(b := refs s b - {#p#})\<rparr>)"
proof -
  let ?v = "bufs (cache s) ! b"
  let ?w = "?v\<lparr>block := releasesleep (block ?v), refcnt := refcnt ?v - 1\<rparr>"
  have b: "b < NBUF" using binvD(3) [OF assms(1,2)] .
  obtain os where os: "ring (bufs (cache s)) os" using binvD(1) [OF assms(1)] by blast
  then have bl: "b < length (bufs (cache s))" using b ring_bounds(1) by fastforce
  have ok: "buf_ok (content s) (refs s b) ?v" using binvD(2) [OF assms(1) b] .
  have dev: "bdev ?v = 1" by (rule buf_okD(3) [OF ok assms(2)])
  have size: "int (size (refs s b)) - 1 = int (size (refs s b - {#p#}))"
    using size_Diff_singleton [OF assms(2)] assms(2) by (cases "refs s b") auto
  define t where "t = (cache s)\<lparr>bufs := (bufs (cache s))[b := ?w]\<rparr>"
  have tb: "bufs t = (bufs (cache s))[b := ?w]" by (simp add: t_def)
  have inv: "binv (bufs t) ((refs s)(b := refs s b - {#p#})) (content s) (memdisk (cache s))"
    unfolding tb
    by (rule binv_touch [OF assms(1,2)])
      (use ok dev size binv_disk [OF assms(1,2)] in \<open>auto simp: buf_ok_def releasesleep_def valid_dirty_bits\<close>)
  have c: "c = (if refcnt ?w = 0 then ring_insert (ring_remove t b) b else t)"
    using assms(3) bl by (auto simp: brelse_def Let_def updb_def t_def split: if_splits)
  show ?thesis
  proof (cases "refcnt ?w = 0")
    case True
    have rt: "ring (bufs t) os" unfolding tb by (rule ring_keep [OF os]) simp_all
    note mv = ring_move [OF rt b]
    show ?thesis using True binv_core [OF inv mv(2,1)] mv(3) by (simp add: c t_def)
  next
    case False
    then show ?thesis using inv by (simp add: c) (simp add: t_def)
  qed
qed

text \<open>What \<open>bget\<close> finds: the cached block, or the least recently used buffer that is free and clean.\<close>

lemma bget_ref_ring:
  assumes "ring (bufs s) os"
  shows "bget_ref s dev n =
    (case find (\<lambda>b. bdev (bufs s ! b) = dev \<and> blockno (bufs s ! b) = n) os of
       Some b \<Rightarrow> Some (b, updb s b (\<lambda>v. v\<lparr>refcnt := refcnt v + 1\<rparr>))
     | None \<Rightarrow> map_option (\<lambda>b. (b, updb s b (\<lambda>v. v\<lparr>bdev := dev, blockno := n, bflags := 0, refcnt := 1\<rparr>)))
         (find (\<lambda>b. refcnt (bufs s ! b) = 0 \<and> bflags (bufs s ! b) AND B_DIRTY = 0) (rev os)))"
proof -
  note R = ring_bounds [OF assms]
  have "scan_unused (bufs s) (bprev (bufs s ! NBUF))
      = Some (find (\<lambda>b. refcnt (bufs s ! b) = 0 \<and> bflags (bufs s ! b) AND B_DIRTY = 0) (rev os))"
    by (rule scan_unused_find [OF link_rev [OF R(5)]]) (use R(4) in simp)
  then show ?thesis using scan_cached_find [OF R(5,4)] by (simp add: bget_ref_def split: option.splits)
qed

lemma binv_get:
  assumes "binv_of s" and "bget_ref (cache s) 1 n = Some (b, c)"
  shows "binv_of (s\<lparr>cache := c, refs := (refs s)(b := add_mset p (refs s b))\<rparr>)"
proof -
  let ?bs = "bufs (cache s)"
  obtain os where os: "ring ?bs os" using binvD(1) [OF assms(1)] by blast
  note R = ring_bounds [OF os]
  show ?thesis
  proof (cases "find (\<lambda>b. bdev (?bs ! b) = 1 \<and> blockno (?bs ! b) = n) os")
    case (Some a)
    have a: "a < NBUF" "caches (?bs ! a) n" using Some R(3) [of a] by (auto simp: find_Some_iff caches_def)
    have c: "b = a" "c = updb (cache s) a (\<lambda>v. v\<lparr>refcnt := refcnt v + 1\<rparr>)"
      using assms(2) bget_ref_ring [OF os, of 1 n] Some by auto
    have "binv (?bs[a := (?bs ! a)\<lparr>refcnt := refcnt (?bs ! a) + 1\<rparr>]) ((refs s)(a := add_mset p (refs s a))) (content s) (memdisk (cache s))"
    proof (rule binv_update [OF assms(1) a(1), where n = n])
      show "\<not> caches (?bs ! j) n" if "j < NBUF" "j \<noteq> a" for j using binvD(4) [OF assms(1) that(1) a(1)] a(2) that(2) by blast
      show "memdisk (cache s) n = content s n" if "\<not> dirty_buf ((?bs ! a)\<lparr>refcnt := refcnt (?bs ! a) + 1\<rparr>)"
        using binv_clean [OF assms(1) a] that by (simp add: dirty_buf_def)
      show "buf_ok (content s) (add_mset p (refs s a)) ((?bs ! a)\<lparr>refcnt := refcnt (?bs ! a) + 1\<rparr>)"
        using binvD(2) [OF assms(1) a(1)] a(2) by (auto simp: buf_ok_def caches_def valid_dirty_bits)
    qed (use a(2) in \<open>simp_all add: caches_def\<close>)
    then show ?thesis by (simp add: c updb_def)
  next
    case None
    have nc: "\<not> caches (?bs ! j) n" if "j < NBUF" for j using None R(3) [of j] that by (auto simp: find_None_iff caches_def)
    then have fu: "find (\<lambda>b. refcnt (?bs ! b) = 0 \<and> bflags (?bs ! b) AND B_DIRTY = 0) (rev os) = Some b"
      and c: "c = updb (cache s) b (\<lambda>v. v\<lparr>bdev := 1, blockno := n, bflags := 0, refcnt := 1\<rparr>)"
      using assms(2) bget_ref_ring [OF os, of 1 n] None by (auto split: option.splits)
    have b: "b < NBUF" "refcnt (?bs ! b) = 0" "\<not> dirty_buf (?bs ! b)" using fu R(3) [of b] by (auto simp: find_Some_iff dirty_buf_def)
      (metis length_rev nth_mem set_rev)
    have ok: "buf_ok (content s) (refs s b) (?bs ! b)" by (rule binvD(2) [OF assms(1) b(1)])
    have R0: "refs s b = {#}" using buf_okD(1) [OF ok] b(2) by simp
    have "binv (?bs[b := (?bs ! b)\<lparr>bdev := 1, blockno := n, bflags := 0, refcnt := 1\<rparr>]) ((refs s)(b := add_mset p (refs s b))) (content s) (memdisk (cache s))"
    proof (rule binv_update [OF assms(1) b(1), where n = n])
      show "memdisk (cache s) n = content s n" using binvD(5) [OF assms(1), of n] nc by blast
      show "buf_ok (content s) (add_mset p (refs s b)) ((?bs ! b)\<lparr>bdev := 1, blockno := n, bflags := 0, refcnt := 1\<rparr>)"
        using buf_okD(2) [OF ok] R0 by (auto simp: buf_ok_def valid_dirty_bits)
    qed (use nc b in \<open>simp_all add: caches_def\<close>)
    then show ?thesis by (simp add: c updb_def)
  qed
qed

lemma binv_step:
  assumes "bstep s t" and "binv_of s"
  shows "binv_of t"
  using assms(1)
proof cases
  case gets then show ?thesis using binv_get [OF assms(2)] by simp
next
  case locks then show ?thesis using binv_lock [OF assms(2)] by simp
next
  case fills then show ?thesis using binv_fill [OF assms(2)] by simp
next
  case pins then show ?thesis using binv_pin [OF assms(2)] by simp
next
  case writes then show ?thesis using binv_write [OF assms(2)] by simp
next
  case releases then show ?thesis using binv_release [OF assms(2)] by simp
qed

section \<open>From boot\<close>

definition zero_buf :: buf where
  "zero_buf = \<lparr>bflags = 0, bdev = 0, blockno = 0, block = \<lparr>slocked = False, spid = 0\<rparr>, refcnt = 0, bprev = 0, bnext = 0, bdata = (\<lambda>_. 0)\<rparr>"

definition bcache0 :: "(int \<Rightarrow> mem) \<Rightarrow> int \<Rightarrow> bcache" where
  "bcache0 d sz = \<lparr>bufs = replicate (Suc NBUF) zero_buf, memdisk = d, disksize = sz\<rparr>"

definition bstart :: "(int \<Rightarrow> mem) \<Rightarrow> int \<Rightarrow> bstate" where
  "bstart d sz = \<lparr>cache = binit (bcache0 d sz), refs = (\<lambda>_. {#}), content = d\<rparr>"

lemma binit_loop_spec:
  assumes "link (\<lambda>i. bnext (bufs s ! i)) (\<lambda>i. bprev (bufs s ! i)) NBUF os NBUF" and "length (bufs s) = Suc NBUF"
    and "distinct (bs @ os)" and "set (bs @ os) \<subseteq> {..<NBUF}" and "\<forall>i < NBUF. core (bufs s ! i) = zero_buf"
  shows "link (\<lambda>i. bnext (bufs (binit_loop s bs) ! i)) (\<lambda>i. bprev (bufs (binit_loop s bs) ! i)) NBUF (rev bs @ os) NBUF
    \<and> length (bufs (binit_loop s bs)) = Suc NBUF \<and> (\<forall>i < NBUF. core (bufs (binit_loop s bs) ! i) = zero_buf)
    \<and> memdisk (binit_loop s bs) = memdisk s \<and> disksize (binit_loop s bs) = disksize s"
  using assms
proof (induction bs arbitrary: s os)
  case (Cons b bs)
  have d: "distinct (NBUF # b # os)" "b < NBUF" "set os \<subseteq> {..<NBUF}" using Cons.prems(3,4) by auto
  note I = ring_insert_spec [OF Cons.prems(1) d(1) Cons.prems(2) d(2,3)]
  let ?t = "updb (ring_insert s b) b (\<lambda>v. v\<lparr>block := initsleeplock\<rparr>)"
  have bl: "b < length (bufs (ring_insert s b))" using I(3) Cons.prems(2) d(2) by simp
  have lk: "link (\<lambda>i. bnext (bufs ?t ! i)) (\<lambda>i. bprev (bufs ?t ! i)) NBUF (b # os) NBUF"
    unfolding nx_upd [OF bl] using I(1) by (simp add: fun_upd_idem del: link.simps)
  have z: "core (bufs ?t ! i) = zero_buf" if "i < NBUF" for i
  proof (cases "i = b")
    case True
    then have "core (bufs ?t ! i) = (core (bufs (ring_insert s b) ! b))\<lparr>block := initsleeplock\<rparr>"
      using bl by (simp add: updb_def core_def)
    then show ?thesis using I(2) [of b] Cons.prems(5) d(2) by (simp add: zero_buf_def initsleeplock_def)
  qed (use I(2) [of i] Cons.prems(5) that in \<open>simp add: updb_def\<close>)
  show ?case
    using Cons.IH [OF lk] I(3-5) Cons.prems(2-4) z by (simp add: updb_def del: link.simps)
qed simp

lemma binit_spec:
  shows "ring (bufs (binit (bcache0 d sz))) (rev [0..<NBUF])" and "memdisk (binit (bcache0 d sz)) = d"
    and "disksize (binit (bcache0 d sz)) = sz"
    and "i < NBUF \<Longrightarrow> bdev (bufs (binit (bcache0 d sz)) ! i) = 0 \<and> bflags (bufs (binit (bcache0 d sz)) ! i) = 0
      \<and> refcnt (bufs (binit (bcache0 d sz)) ! i) = 0 \<and> block (bufs (binit (bcache0 d sz)) ! i) = \<lparr>slocked = False, spid = 0\<rparr>"
proof -
  let ?s = "updb (bcache0 d sz) NBUF (\<lambda>v. v\<lparr>bprev := NBUF, bnext := NBUF\<rparr>)"
  have "link (\<lambda>i. bnext (bufs ?s ! i)) (\<lambda>i. bprev (bufs ?s ! i)) NBUF [] NBUF"
    by (simp add: updb_def bcache0_def del: replicate.simps)
  moreover have "\<forall>i < NBUF. core (bufs ?s ! i) = zero_buf"
    by (simp add: updb_def bcache0_def core_def zero_buf_def del: replicate.simps)
  ultimately have L: "link (\<lambda>i. bnext (bufs (binit (bcache0 d sz)) ! i)) (\<lambda>i. bprev (bufs (binit (bcache0 d sz)) ! i)) NBUF (rev [0..<NBUF]) NBUF"
    "length (bufs (binit (bcache0 d sz))) = Suc NBUF" "\<forall>i < NBUF. core (bufs (binit (bcache0 d sz)) ! i) = zero_buf"
    "memdisk (binit (bcache0 d sz)) = d" "disksize (binit (bcache0 d sz)) = sz"
    using binit_loop_spec [of ?s "[]" "[0..<NBUF]"]
    by (simp_all add: binit_def bcache0_def updb_def atLeast0LessThan del: link.simps replicate.simps)
  show "ring (bufs (binit (bcache0 d sz))) (rev [0..<NBUF])" using L(1,2) by (auto simp: ring_def)
  show "memdisk (binit (bcache0 d sz)) = d" "disksize (binit (bcache0 d sz)) = sz" by (fact L(4,5))+
  assume "i < NBUF"
  have "core zero_buf = zero_buf" by (simp add: core_def zero_buf_def)
  then have "core (bufs (binit (bcache0 d sz)) ! i) = core zero_buf" using L(3) \<open>i < NBUF\<close> by simp
  from core_fields [OF this] show "bdev (bufs (binit (bcache0 d sz)) ! i) = 0 \<and> bflags (bufs (binit (bcache0 d sz)) ! i) = 0
      \<and> refcnt (bufs (binit (bcache0 d sz)) ! i) = 0 \<and> block (bufs (binit (bcache0 d sz)) ! i) = \<lparr>slocked = False, spid = 0\<rparr>"
    by (simp add: zero_buf_def)
qed

lemma binv_start: "binv_of (bstart d sz)"
  using binit_spec [where d = d and sz = sz] by (auto simp: binv_def bstart_def buf_ok_def caches_def valid_dirty_bits)

lemma binv_reachable: "bstep\<^sup>*\<^sup>* s t \<Longrightarrow> binv_of s \<Longrightarrow> binv_of t"
  by (induction rule: rtranclp_induct) (auto intro: binv_step)

text \<open>C3: In every state that processes reach by reading, changing, writing and releasing blocks through the cache: a process that
  holds a filled buffer sees the data last put into its block, whoever put it there and whether it is on the
  disk or not; no block is in two buffers; and the reference count of a buffer is the number of references to it, so
  that \<open>bget\<close> never gives a buffer in use to another block.\<close>

theorem bcache_coherent:
  assumes "bstep\<^sup>*\<^sup>* (bstart d sz) s"
  shows "(\<forall>b p. b < NBUF \<and> holdingsleep (block (bufs (cache s) ! b)) p \<and> valid_buf (bufs (cache s) ! b)
            \<longrightarrow> bdata (bufs (cache s) ! b) = content s (blockno (bufs (cache s) ! b)))
    \<and> (\<forall>a b n. a < NBUF \<and> b < NBUF \<and> caches (bufs (cache s) ! a) n \<and> caches (bufs (cache s) ! b) n \<longrightarrow> a = b)
    \<and> (\<forall>b < NBUF. refcnt (bufs (cache s) ! b) = int (size (refs s b)))
    \<and> (\<forall>b c n. bget_ref (cache s) 1 n = Some (b, c) \<and> refs s b \<noteq> {#} \<longrightarrow> blockno (bufs (cache s) ! b) = n)"
proof -
  have inv: "binv_of s" by (rule binv_reachable [OF assms binv_start])
  have "bdata (bufs (cache s) ! b) = content s (blockno (bufs (cache s) ! b))"
    if "b < NBUF" "holdingsleep (block (bufs (cache s) ! b)) p" "valid_buf (bufs (cache s) ! b)" for b p
  proof -
    have ok: "buf_ok (content s) (refs s b) (bufs (cache s) ! b)" by (rule binvD(2) [OF inv that(1)])
    then have "bdev (bufs (cache s) ! b) = 1" using that(2) buf_okD(2,3) by (fastforce simp: holdingsleep_def)
    then show ?thesis using buf_okD(5) [OF ok that(3)] by simp
  qed
  moreover have "blockno (bufs (cache s) ! b) = n" if g: "bget_ref (cache s) 1 n = Some (b, c)" "refs s b \<noteq> {#}" for b c n
  proof -
    obtain os where os: "ring (bufs (cache s)) os" using binvD(1) [OF inv] by blast
    obtain p where "p \<in># refs s b" using g(2) by blast
    then have "b < NBUF" by (rule binvD(3) [OF inv])
    then have "refcnt (bufs (cache s) ! b) \<noteq> 0" using buf_okD(1) [OF binvD(2) [OF inv]] g(2) by simp
    then show ?thesis using g(1) unfolding bget_ref_ring [OF os] by (auto simp: find_Some_iff split: option.splits)
  qed
  ultimately show ?thesis using binvD(4) [OF inv] buf_okD(1) [OF binvD(2) [OF inv]] by blast
qed

text \<open>A first read: a process gets a buffer for block 5, locks it and fills it.\<close>

lemma bstart_reads:
  obtains s where "bstep\<^sup>*\<^sup>* (bstart d 100) s" and "holdingsleep (block (bufs (cache s) ! 0)) 7" and "valid_buf (bufs (cache s) ! 0)"
proof -
  let ?c = "binit (bcache0 d 100)"
  note B = binit_spec [where d = d and sz = 100]
  have l: "0 < length (bufs ?c)" "0 < NBUF" "[0..<NBUF] = 0 # [1..<NBUF]"
    using ring_bounds(1) [OF B(1)] by (simp_all add: NBUF_def upt_conv_Cons)
  note z = B(4) [OF l(2)]
  have "find (\<lambda>b. bdev (bufs ?c ! b) = 1 \<and> blockno (bufs ?c ! b) = 5) (rev [0..<NBUF]) = None"
    using B(4) by (auto simp: find_None_iff)
  moreover have "find (\<lambda>b. refcnt (bufs ?c ! b) = 0 \<and> bflags (bufs ?c ! b) AND B_DIRTY = 0) (rev (rev [0..<NBUF])) = Some 0"
    using z by (simp add: l(3))
  ultimately have g: "bget_ref (cache (bstart d 100)) 1 5 = Some (0, updb ?c 0 (\<lambda>v. v\<lparr>bdev := 1, blockno := 5, bflags := 0, refcnt := 1\<rparr>))"
    by (simp add: bget_ref_ring [OF B(1)] bstart_def)
  define s1 where "s1 = (bstart d 100)\<lparr>cache := updb ?c 0 (\<lambda>v. v\<lparr>bdev := 1, blockno := 5, bflags := 0, refcnt := 1\<rparr>),
    refs := (refs (bstart d 100))(0 := add_mset 7 (refs (bstart d 100) 0))\<rparr>"
  have 1: "bstep (bstart d 100) s1" unfolding s1_def by (rule gets [OF g])
  define s2 where "s2 = s1\<lparr>cache := updb (cache s1) 0 (\<lambda>v. v\<lparr>block := \<lparr>slocked = True, spid = 7\<rparr>\<rparr>)\<rparr>"
  have 2: "bstep s1 s2" unfolding s2_def
    by (rule locks [of 7 _ 0]) (use z l in \<open>simp_all add: s1_def lock_buf_def acquiresleep_def updb_def\<close>)
  define s3 where "s3 = s2\<lparr>cache := updb (cache s2) 0 (\<lambda>v. v\<lparr>bdata := d 5, bflags := B_VALID\<rparr>)\<rparr>"
  have 3: "bstep s2 s3" unfolding s3_def
    by (rule fills [of 7 _ 0])
      (use l B(2,3) in \<open>simp_all add: s2_def s1_def fill_buf_def iderw_def updb_def holdingsleep_def B_VALID_def B_DIRTY_def\<close>)
  have "bstep\<^sup>*\<^sup>* (bstart d 100) s3" using 1 2 3 by (meson converse_rtranclp_into_rtranclp rtranclp.rtrancl_refl)
  moreover have "holdingsleep (block (bufs (cache s3) ! 0)) 7" "valid_buf (bufs (cache s3) ! 0)"
    using l by (simp_all add: s3_def s2_def s1_def updb_def holdingsleep_def valid_dirty_bits bit_flags)
  ultimately show thesis by (rule that)
qed

theorem bcache_coherent_witness:
  "\<exists>s. bstep\<^sup>*\<^sup>* (bstart (\<lambda>n _. of_int n) 100) s \<and> holdingsleep (block (bufs (cache s) ! 0)) 7
     \<and> bdata (bufs (cache s) ! 0) = content s (blockno (bufs (cache s) ! 0))"
proof -
  obtain s where s: "bstep\<^sup>*\<^sup>* (bstart (\<lambda>n _. of_int n) 100) s" "holdingsleep (block (bufs (cache s) ! 0)) 7" "valid_buf (bufs (cache s) ! 0)"
    by (rule bstart_reads)
  have "0 < NBUF" by (simp add: NBUF_def)
  then show ?thesis using bcache_coherent [OF s(1)] s by blast
qed

lemma find_split: "find P xs = Some x \<Longrightarrow> \<exists>us vs. xs = us @ x # vs \<and> (\<forall>u \<in> set us. \<not> P u) \<and> P x"
proof (induction xs)
  case (Cons y xs)
  show ?case
  proof (cases "P y")
    case True
    then have "x = y" using Cons.prems by simp
    then have "y # xs = [] @ x # xs" "\<forall>u \<in> set []. \<not> P u" "P x" using True by simp_all
    then show ?thesis by blast
  next
    case False
    then have "find P xs = Some x" using Cons.prems by simp
    then obtain us vs where uv: "xs = us @ x # vs" "\<forall>u \<in> set us. \<not> P u" "P x" using Cons.IH by blast
    then have "y # xs = (y # us) @ x # vs" "\<forall>u \<in> set (y # us). \<not> P u" using False by simp_all
    then show ?thesis using uv(3) by blast
  qed
qed simp

lemma brelse_ring:
  assumes "ring (bufs s) os" and "b < NBUF" and "brelse s p b = Some s'"
  shows "ring (bufs s') (if refcnt (bufs s ! b) = 1 then b # remove1 b os else os)"
proof -
  define t where "t = s\<lparr>bufs := (bufs s)[b := (bufs s ! b)\<lparr>block := releasesleep (block (bufs s ! b)), refcnt := refcnt (bufs s ! b) - 1\<rparr>]\<rparr>"
  have bl: "b < length (bufs s)" using assms(1,2) ring_bounds(1) by fastforce
  have rt: "ring (bufs t) os" unfolding t_def by (simp add: ring_keep [OF assms(1)])
  have "s' = (if refcnt (bufs s ! b) = 1 then ring_insert (ring_remove t b) b else t)"
    using assms(3) bl by (auto simp: brelse_def Let_def updb_def t_def split: if_splits)
  then show ?thesis using ring_move(1) [OF rt assms(2)] rt by simp
qed

text \<open>The cache is a least-recently-used cache. In a ring with the buffers in the order of their last release, most recent first,
  \<open>bget\<close> of a block that is not cached takes a buffer that is free and clean such that every buffer
  released longer ago is in use or dirty, and panics exactly when all are; releasing the last reference moves a buffer to the front.\<close>

theorem bget_lru:
  assumes "ring (bufs s) os" and "\<forall>b < NBUF. \<not> (bdev (bufs s ! b) = dev \<and> blockno (bufs s ! b) = n)"
  shows "(bget_ref s dev n = None \<longleftrightarrow> (\<forall>b < NBUF. refcnt (bufs s ! b) \<noteq> 0 \<or> dirty_buf (bufs s ! b)))
    \<and> (\<forall>b s'. bget_ref s dev n = Some (b, s') \<longrightarrow> refcnt (bufs s ! b) = 0 \<and> \<not> dirty_buf (bufs s ! b) \<and> ring (bufs s') os
         \<and> (\<exists>newer older. os = newer @ b # older \<and> (\<forall>x \<in> set older. refcnt (bufs s ! x) \<noteq> 0 \<or> dirty_buf (bufs s ! x))))
    \<and> (\<forall>p b s'. b < NBUF \<and> brelse s p b = Some s' \<longrightarrow> ring (bufs s') (if refcnt (bufs s ! b) = 1 then b # remove1 b os else os))"
proof -
  note R = ring_bounds [OF assms(1)]
  let ?P = "\<lambda>b. refcnt (bufs s ! b) = 0 \<and> bflags (bufs s ! b) AND B_DIRTY = 0"
  have nc: "find (\<lambda>b. bdev (bufs s ! b) = dev \<and> blockno (bufs s ! b) = n) os = None"
    using assms(2) R(3) by (auto simp: find_None_iff)
  then have g: "bget_ref s dev n = map_option (\<lambda>b. (b, updb s b (\<lambda>v. v\<lparr>bdev := dev, blockno := n, bflags := 0, refcnt := 1\<rparr>))) (find ?P (rev os))"
    by (simp add: bget_ref_ring [OF assms(1)])
  have "bget_ref s dev n = None \<longleftrightarrow> (\<forall>b < NBUF. refcnt (bufs s ! b) \<noteq> 0 \<or> dirty_buf (bufs s ! b))"
    using R(3) by (auto simp: g find_None_iff dirty_buf_def)
  moreover have "refcnt (bufs s ! b) = 0 \<and> \<not> dirty_buf (bufs s ! b) \<and> ring (bufs s') os
      \<and> (\<exists>newer older. os = newer @ b # older \<and> (\<forall>x \<in> set older. refcnt (bufs s ! x) \<noteq> 0 \<or> dirty_buf (bufs s ! x)))"
    if "bget_ref s dev n = Some (b, s')" for b s'
  proof -
    have f: "find ?P (rev os) = Some b" "bufs s' = (bufs s)[b := (bufs s ! b)\<lparr>bdev := dev, blockno := n, bflags := 0, refcnt := 1\<rparr>]"
      using that by (auto simp: g updb_def)
    obtain us vs where uv: "rev os = us @ b # vs" "\<forall>u \<in> set us. \<not> ?P u" "?P b" using find_split [OF f(1)] by blast
    have "os = rev vs @ b # rev us" using uv(1) by (metis rev_append rev_rev_ident rev.simps(2) append.assoc append_Cons append_Nil)
    moreover have "ring (bufs s') os" unfolding f(2) by (rule ring_keep [OF assms(1)]) simp_all
    ultimately show ?thesis using uv(2,3) unfolding dirty_buf_def by (metis set_rev)
  qed
  ultimately show ?thesis using brelse_ring [OF assms(1)] by blast
qed

theorem bget_lru_witness:
  "bget_ref (binit (bcache0 (\<lambda>_ _. 0) 100)) 1 5 \<noteq> None"
proof -
  note B = binit_spec [where d = "\<lambda>_ _. 0" and sz = 100]
  have "\<not> (bdev (bufs (binit (bcache0 (\<lambda>_ _. 0) 100)) ! b) = 1 \<and> blockno (bufs (binit (bcache0 (\<lambda>_ _. 0) 100)) ! b) = 5)" if "b < NBUF" for b
    using B(4) [OF that] by simp
  moreover have "refcnt (bufs (binit (bcache0 (\<lambda>_ _. 0) 100)) ! 0) = 0" "\<not> dirty_buf (bufs (binit (bcache0 (\<lambda>_ _. 0) 100)) ! 0)" "0 < NBUF"
    using B(4) [of 0] by (simp_all add: NBUF_def valid_dirty_bits)
  ultimately show ?thesis using bget_lru [OF B(1), of 1 5] by blast
qed

end
