(* ===== verification/Xv6_Sh.thy ===== *)
theory Xv6_Sh
  imports Prelude
begin

text \<open>
  The shell of xv6, \<open>hw09/unnas-hw09/xv6/sh.c\<close>: the parser of command lines.

  The line is a buffer of characters; a pointer into it is a position. The parser works in place: a command holds the
  positions where its words begin and end, and \<open>nulterminate\<close> writes NUL characters into the buffer at the ends. A read or write
  outside of the buffer is the failure \<open>Fault\<close>, a panic of the shell (a message and \<open>exit\<close>) is \<open>Panic\<close>. \<open>malloc\<close> succeeds.
  A command is a tree; the pointer \<open>cmd\<close> that \<open>parseexec\<close> keeps to its \<open>execcmd\<close> below the redirections around it is
  followed by \<open>add_arg\<close>.
\<close>

named_theorems sh_simps \<open>how the routines of the parser act on known input\<close>

section \<open>Results\<close>

type_synonym buffer = "char list"

datatype fail = Fault | Panic string

definition andthen :: "fail + 'a \<Rightarrow> ('a \<Rightarrow> fail + 'b) \<Rightarrow> fail + 'b" where
  "andthen m f = (case m of Inl e \<Rightarrow> Inl e | Inr x \<Rightarrow> f x)"

lemma andthen_simps [simp]: "andthen (Inl e) f = Inl e" "andthen (Inr x) f = f x"
  by (simp_all add: andthen_def)

lemma andthen_cong [fundef_cong]:
  "m = m' \<Longrightarrow> (\<And>x. m' = Inr x \<Longrightarrow> f x = f' x) \<Longrightarrow> andthen m f = andthen m' f'"
  by (cases m') auto

lemma andthen_Inr: "andthen m f = Inr y \<longleftrightarrow> (\<exists>x. m = Inr x \<and> f x = Inr y)"
  by (cases m) auto

text \<open>What a routine promises: its failures satisfy \<open>E\<close>, its results \<open>P\<close>.\<close>

definition yields :: "(fail \<Rightarrow> bool) \<Rightarrow> fail + 'a \<Rightarrow> ('a \<Rightarrow> bool) \<Rightarrow> bool" where
  "yields E m P \<longleftrightarrow> (case m of Inl e \<Rightarrow> E e | Inr x \<Rightarrow> P x)"

named_theorems yld \<open>what the routines promise\<close>

lemma yields_simps [simp]: "yields E (Inl e) P \<longleftrightarrow> E e" "yields E (Inr x) P \<longleftrightarrow> P x"
  by (simp_all add: yields_def)

lemma yields_andthen:
  "yields E m Q \<Longrightarrow> (\<And>x. m = Inr x \<Longrightarrow> Q x \<Longrightarrow> yields E (f x) P) \<Longrightarrow> yields E (andthen m f) P"
  by (cases m) auto

lemma yields_weaken: "yields E m Q \<Longrightarrow> (\<And>x. Q x \<Longrightarrow> P x) \<Longrightarrow> yields E m P"
  by (cases m) auto

lemma yields_Inr: "yields E m P \<Longrightarrow> m = Inr x \<Longrightarrow> P x"
  by simp

lemma yields_if: "(c \<Longrightarrow> yields E m P) \<Longrightarrow> (\<not> c \<Longrightarrow> yields E m' P) \<Longrightarrow> yields E (if c then m else m') P"
  by simp

definition rd :: "buffer \<Rightarrow> nat \<Rightarrow> fail + char" where
  "rd b i = (if i < length b then Inr (b ! i) else Inl Fault)"

definition wr :: "buffer \<Rightarrow> nat \<Rightarrow> char \<Rightarrow> fail + buffer" where
  "wr b i c = (if i < length b then Inr (b[i := c]) else Inl Fault)"

section \<open>sh.c\<close>

definition MAXARGS :: nat where "MAXARGS = 10"

definition O_RDONLY :: int where "O_RDONLY = 0"
definition O_WRONLY :: int where "O_WRONLY = 1"
definition O_RDWR :: int where "O_RDWR = 2"
definition O_CREATE :: int where "O_CREATE = 512"

datatype cmd =
    EXEC "(nat \<times> nat) list"
  | REDIR cmd nat nat int int
  | PIPE cmd cmd
  | LIST cmd cmd
  | BACK cmd

definition whitespace :: string where
  "whitespace = [CHR '' '', CHR 0x09, CHR 0x0D, CHR 0x0A, CHR 0x0B]"

definition symbols :: string where
  "symbols = ''<|>&;()''"

definition strchr :: "string \<Rightarrow> char \<Rightarrow> bool" where
  "strchr cs c \<longleftrightarrow> c \<in> set cs"

function skip_space :: "buffer \<Rightarrow> nat \<Rightarrow> nat \<Rightarrow> fail + nat" where
  "skip_space b es s =
     (if s < es then andthen (rd b s) (\<lambda>c. if strchr whitespace c then skip_space b es (Suc s) else Inr s)
      else Inr s)"
  by pat_completeness auto
termination by (relation "measure (\<lambda>(b, es, s). es - s)") auto

function word_end :: "buffer \<Rightarrow> nat \<Rightarrow> nat \<Rightarrow> fail + nat" where
  "word_end b es s =
     (if s < es then
        andthen (rd b s) (\<lambda>c. if \<not> strchr whitespace c \<and> \<not> strchr symbols c then word_end b es (Suc s) else Inr s)
      else Inr s)"
  by pat_completeness auto
termination by (relation "measure (\<lambda>(b, es, s). es - s)") auto

declare skip_space.simps [simp del] word_end.simps [simp del]

definition gettoken :: "buffer \<Rightarrow> nat \<Rightarrow> nat \<Rightarrow> fail + char \<times> nat \<times> nat \<times> nat" where
  "gettoken b es s =
     andthen (skip_space b es s) (\<lambda>q.
     andthen (rd b q) (\<lambda>c.
     andthen
       (if c = NUL then Inr (c, q)
        else if strchr ''|();&<'' c then Inr (c, Suc q)
        else if c = CHR ''>'' then
          andthen (rd b (Suc q)) (\<lambda>d. if d = CHR ''>'' then Inr (CHR ''+'', Suc (Suc q)) else Inr (c, Suc q))
        else andthen (word_end b es q) (\<lambda>eq. Inr (CHR ''a'', eq))) (\<lambda>(ret, eq).
     andthen (skip_space b es eq) (\<lambda>s.
     Inr (ret, q, eq, s)))))"

definition peek :: "buffer \<Rightarrow> nat \<Rightarrow> nat \<Rightarrow> string \<Rightarrow> fail + bool \<times> nat" where
  "peek b es s toks =
     andthen (skip_space b es s) (\<lambda>s.
     andthen (rd b s) (\<lambda>c.
     Inr (c \<noteq> NUL \<and> strchr toks c, s)))"

text \<open>A line is terminated when its first NUL character is at \<open>es\<close>. A word is a longest run of characters
  that are neither white space nor operators. \<open>safe g\<close> excludes faults where the assumption \<open>g\<close> holds.\<close>

definition terminated :: "buffer \<Rightarrow> nat \<Rightarrow> bool" where
  "terminated b es \<longleftrightarrow> es < length b \<and> b ! es = NUL \<and> (\<forall>i < es. b ! i \<noteq> NUL)"

definition wordc :: "char \<Rightarrow> bool" where
  "wordc c \<longleftrightarrow> \<not> strchr whitespace c \<and> \<not> strchr symbols c \<and> c \<noteq> NUL"

definition word_at :: "buffer \<Rightarrow> nat \<Rightarrow> nat \<Rightarrow> nat \<Rightarrow> bool" where
  "word_at b es q eq \<longleftrightarrow> q < eq \<and> eq \<le> es \<and> (\<forall>i. q \<le> i \<and> i < eq \<longrightarrow> wordc (b ! i)) \<and> \<not> wordc (b ! eq)"

definition safe :: "bool \<Rightarrow> fail \<Rightarrow> bool" where
  "safe g e \<longleftrightarrow> g \<longrightarrow> e \<noteq> Fault"

lemma safe_Panic [simp]: "safe g (Panic m)"
  by (simp add: safe_def)

lemma yields_rd [yld]: "(g \<Longrightarrow> i < length b) \<Longrightarrow> yields (safe g) (rd b i) (\<lambda>c. c = b ! i \<and> i < length b)"
  by (auto simp: rd_def safe_def)

lemma yields_skip_space [yld]:
  assumes "g \<Longrightarrow> terminated b es \<and> s \<le> es"
  shows "yields (safe g) (skip_space b es s) (\<lambda>s'. s \<le> s' \<and> skip_space b es s' = Inr s' \<and> (g \<longrightarrow> s' \<le> es)
    \<and> (s' < es \<longrightarrow> \<not> strchr whitespace (b ! s')))"
  using assms
proof (induction b es s rule: skip_space.induct)
  case (1 b es s)
  show ?case
  proof (cases "s < es \<and> s < length b \<and> strchr whitespace (b ! s)")
    case True
    then have c: "rd b s = Inr (b ! s)" by (simp add: rd_def)
    have "yields (safe g) (skip_space b es (Suc s)) (\<lambda>s'. Suc s \<le> s' \<and> skip_space b es s' = Inr s' \<and> (g \<longrightarrow> s' \<le> es)
      \<and> (s' < es \<longrightarrow> \<not> strchr whitespace (b ! s')))"
      by (rule "1.IH") (use True c "1.prems" in auto)
    then show ?thesis using True c skip_space.simps [of b es s] by (auto elim: yields_weaken)
  next
    case False
    then show ?thesis using "1.prems" skip_space.simps [of b es s] by (auto simp: rd_def safe_def terminated_def)
  qed
qed

lemma yields_word_end [yld]:
  assumes "g \<Longrightarrow> terminated b es \<and> s \<le> es"
  shows "yields (safe g) (word_end b es s) (\<lambda>s'. s \<le> s' \<and>
    (g \<longrightarrow> s' \<le> es \<and> (\<forall>i. s \<le> i \<and> i < s' \<longrightarrow> wordc (b ! i)) \<and> \<not> wordc (b ! s')))"
  using assms
proof (induction b es s rule: word_end.induct)
  case (1 b es s)
  show ?case
  proof (cases "s < es \<and> s < length b \<and> \<not> strchr whitespace (b ! s) \<and> \<not> strchr symbols (b ! s)")
    case True
    then have c: "rd b s = Inr (b ! s)" by (simp add: rd_def)
    have "yields (safe g) (word_end b es (Suc s)) (\<lambda>s'. Suc s \<le> s' \<and>
      (g \<longrightarrow> s' \<le> es \<and> (\<forall>i. Suc s \<le> i \<and> i < s' \<longrightarrow> wordc (b ! i)) \<and> \<not> wordc (b ! s')))"
      by (rule "1.IH") (use True c "1.prems" in auto)
    moreover have "wordc (b ! s)" if g using True "1.prems" [OF that] by (auto simp: terminated_def wordc_def)
    moreover have "word_end b es s = word_end b es (Suc s)" using True c word_end.simps [of b es s] by simp
    ultimately show ?thesis by (auto elim!: yields_weaken) (metis Suc_leI le_neq_implies_less)
  next
    case False
    then show ?thesis using "1.prems" word_end.simps [of b es s]
      by (auto simp: rd_def safe_def terminated_def wordc_def)
  qed
qed



text \<open>A position is normal when the characters before it have been skipped.\<close>

definition normal :: "buffer \<Rightarrow> nat \<Rightarrow> nat \<Rightarrow> bool" where
  "normal b es s \<longleftrightarrow> skip_space b es s = Inr s"

lemma yields_peek [yld]:
  assumes "g \<Longrightarrow> terminated b es \<and> s \<le> es"
  shows "yields (safe g) (peek b es s toks) (\<lambda>(r, s'). s \<le> s' \<and> s' < length b \<and> normal b es s' \<and> (g \<longrightarrow> s' \<le> es)
    \<and> (r \<longleftrightarrow> b ! s' \<noteq> NUL \<and> strchr toks (b ! s')))"
  unfolding peek_def
proof (rule yields_andthen [OF yields_skip_space [OF assms]])
  fix s' assume s': "s \<le> s' \<and> skip_space b es s' = Inr s' \<and> (g \<longrightarrow> s' \<le> es) \<and> (s' < es \<longrightarrow> \<not> strchr whitespace (b ! s'))"
  then have "g \<Longrightarrow> s' < length b" using assms by (auto simp: terminated_def)
  then show "yields (safe g) (andthen (rd b s') (\<lambda>c. Inr (c \<noteq> NUL \<and> strchr toks c, s')))
    (\<lambda>(r, s'). s \<le> s' \<and> s' < length b \<and> normal b es s' \<and> (g \<longrightarrow> s' \<le> es) \<and> (r \<longleftrightarrow> b ! s' \<noteq> NUL \<and> strchr toks (b ! s')))"
    using s' by (intro yields_andthen [OF yields_rd]) (auto simp: normal_def)
qed

definition operators :: string where
  "operators = ''|();&<>''"

lemma set_operators: "set operators = set symbols"
  by (auto simp: operators_def symbols_def)

lemma yields_gettoken [yld]:
  assumes g: "g \<Longrightarrow> terminated b es \<and> s \<le> es"
  shows "yields (safe g) (gettoken b es s) (\<lambda>(tok, q, eq, s'). s \<le> q \<and> q \<le> eq \<and> eq \<le> s' \<and> normal b es s' \<and> q < length b
    \<and> (strchr operators (b ! q) \<longrightarrow> q < s') \<and> (normal b es s \<longrightarrow> q = s)
    \<and> (g \<longrightarrow> s' \<le> es \<and> (tok = CHR ''a'' \<longrightarrow> word_at b es q eq)))"
  unfolding gettoken_def
proof (rule yields_andthen [OF yields_skip_space [OF g]], assumption)
  fix q assume skip: "skip_space b es s = Inr q" and q: "s \<le> q \<and> skip_space b es q = Inr q \<and> (g \<longrightarrow> q \<le> es) \<and> (q < es \<longrightarrow> \<not> strchr whitespace (b ! q))"
  have ql: "g \<Longrightarrow> q < length b" "g \<Longrightarrow> b ! q \<noteq> NUL \<Longrightarrow> q < es" "g \<Longrightarrow> Suc q \<le> es \<Longrightarrow> Suc q < length b" 
    using q g by (auto simp: terminated_def le_less)
  have nrm: "normal b es s \<longrightarrow> q = s" using skip by (simp add: normal_def)
  let ?M = "\<lambda>c. if c = NUL then Inr (c, q) else if strchr ''|();&<'' c then Inr (c, Suc q)
      else if c = CHR ''>'' then andthen (rd b (Suc q)) (\<lambda>d. if d = CHR ''>'' then Inr (CHR ''+'', Suc (Suc q)) else Inr (c, Suc q))
      else andthen (word_end b es q) (\<lambda>eq. Inr (CHR ''a'', eq))"
  have M: "yields (safe g) (?M (b ! q)) (\<lambda>(tok, eq). q \<le> eq \<and> (strchr operators (b ! q) \<longrightarrow> q < eq)
     \<and> (g \<longrightarrow> eq \<le> es \<and> (tok = CHR ''a'' \<longrightarrow> word_at b es q eq)))"
  proof -
    consider "b ! q = NUL" | "b ! q \<noteq> NUL" "strchr ''|();&<'' (b ! q)" | "b ! q = CHR ''>''"
      | "b ! q \<noteq> NUL" "\<not> strchr ''|();&<'' (b ! q)" "b ! q \<noteq> CHR ''>''" by blast
    then show ?thesis
    proof cases
      case 1
      then show ?thesis using q by (simp add: strchr_def operators_def)
    next
      case 2
      then show ?thesis using ql by (auto simp: strchr_def operators_def)
    next
      case 3
      have "g \<Longrightarrow> Suc q < length b" using ql 3 by (simp add: Suc_leI)
      moreover have "g \<Longrightarrow> b ! Suc q = CHR ''>'' \<Longrightarrow> Suc (Suc q) \<le> es"
        using ql(2) 3 g by (cases "Suc q = es") (auto simp: terminated_def)
      ultimately show ?thesis using 3 ql
        by (auto simp: strchr_def operators_def intro!: yields_andthen [OF yields_rd])
    next
      case 4
      have e: "?M (b ! q) = andthen (word_end b es q) (\<lambda>eq. Inr (CHR ''a'', eq))" using 4 by simp
      have o: "\<not> strchr operators (b ! q)" using 4 by (simp add: strchr_def operators_def)
      have w: "g \<Longrightarrow> wordc (b ! q)" using ql(2) 4 q o set_operators by (auto simp: wordc_def strchr_def)
      have "g \<Longrightarrow> terminated b es \<and> q \<le> es" using g q by auto
      then show ?thesis unfolding e
        by (rule yields_andthen [OF yields_word_end]) (use w o in \<open>auto simp: word_at_def le_less\<close>)
    qed
  qed
  show "yields (safe g) (andthen (rd b q) (\<lambda>c. andthen (?M c) (\<lambda>(ret, eq). andthen (skip_space b es eq) (\<lambda>s. Inr (ret, q, eq, s)))))
    (\<lambda>(tok, q, eq, s'). s \<le> q \<and> q \<le> eq \<and> eq \<le> s' \<and> normal b es s' \<and> q < length b
    \<and> (strchr operators (b ! q) \<longrightarrow> q < s') \<and> (normal b es s \<longrightarrow> q = s) \<and> (g \<longrightarrow> s' \<le> es \<and> (tok = CHR ''a'' \<longrightarrow> word_at b es q eq)))"
  proof (rule yields_andthen [OF yields_rd], erule ql(1), elim conjE, hypsubst, rule yields_andthen [OF M], clarify)
    fix tok eq assume *: "q \<le> eq" "strchr operators (b ! q) \<longrightarrow> q < eq" "g \<longrightarrow> eq \<le> es \<and> (tok = CHR ''a'' \<longrightarrow> word_at b es q eq)" "q < length b"
    have "g \<Longrightarrow> terminated b es \<and> eq \<le> es" using g * by auto
    then show "yields (safe g) (andthen (skip_space b es eq) (\<lambda>s. Inr (tok, q, eq, s)))
      (\<lambda>(tok, q, eq, s'). s \<le> q \<and> q \<le> eq \<and> eq \<le> s' \<and> normal b es s' \<and> q < length b
    \<and> (strchr operators (b ! q) \<longrightarrow> q < s') \<and> (normal b es s \<longrightarrow> q = s) \<and> (g \<longrightarrow> s' \<le> es \<and> (tok = CHR ''a'' \<longrightarrow> word_at b es q eq)))"
      by (rule yields_andthen [OF yields_skip_space]) (use * q nrm in \<open>auto simp: normal_def\<close>)
  qed
qed

lemma peeked_operator:
  assumes "peek b es s toks = Inr (True, s1)" and "set toks \<subseteq> set operators" and "gettoken b es s1 = Inr (tok, q, eq, s2)"
  shows "s \<le> s1 \<and> s1 < length b \<and> s1 < s2"
  using yields_Inr [OF yields_peek assms(1), of False] yields_Inr [OF yields_gettoken assms(3), of False] assms(2)
  by (auto simp: strchr_def)

lemma gettoken_mono: "gettoken b es s = Inr (tok, q, eq, s') \<Longrightarrow> s \<le> s'"
  using yields_Inr [OF yields_gettoken, of False] by fastforce

function parseredirs :: "buffer \<Rightarrow> nat \<Rightarrow> cmd \<Rightarrow> nat \<Rightarrow> fail + cmd \<times> nat" where
  "parseredirs b es cmd s =
     andthen (peek b es s ''<>'') (\<lambda>(redirection, s).
     if redirection then
       andthen (gettoken b es s) (\<lambda>(tok, _, _, s).
       andthen (gettoken b es s) (\<lambda>(file_tok, q, eq, s).
       if file_tok \<noteq> CHR ''a'' then Inl (Panic ''missing file for redirection'')
       else parseredirs b es
              (if tok = CHR ''<'' then REDIR cmd q eq O_RDONLY 0
               else if tok = CHR ''>'' \<or> tok = CHR ''+'' then REDIR cmd q eq (O_WRONLY OR O_CREATE) 1
               else cmd) s))
     else Inr (cmd, s))"
  by pat_completeness auto
termination
proof (relation "measure (\<lambda>(b, es, cmd, s). length b - s)", goal_cases)
  case (2 b es cmd s x r s1 y tok z q1 w eq1 s2 u ftok v q t eq s3)
  then have "peek b es s ''<>'' = Inr (True, s1)" "gettoken b es s1 = Inr (tok, q1, eq1, s2)"
    "gettoken b es s2 = Inr (ftok, q, eq, s3)" by auto
  then have "s \<le> s1 \<and> s1 < length b \<and> s1 < s2" "s2 \<le> s3"
    using peeked_operator [of b es s "''<>''"] gettoken_mono by (auto simp: operators_def)
  then show ?case by auto
qed simp

function parse_backs :: "buffer \<Rightarrow> nat \<Rightarrow> cmd \<Rightarrow> nat \<Rightarrow> fail + cmd \<times> nat" where
  "parse_backs b es cmd s =
     andthen (peek b es s ''&'') (\<lambda>(amp, s).
     if amp then andthen (gettoken b es s) (\<lambda>(_, _, _, s). parse_backs b es (BACK cmd) s)
     else Inr (cmd, s))"
  by pat_completeness auto
termination
proof (relation "measure (\<lambda>(b, es, cmd, s). length b - s)", goal_cases)
  case (2 b es cmd s x r s1 y tok z q1 w eq1 s2)
  then have "peek b es s ''&'' = Inr (True, s1)" "gettoken b es s1 = Inr (tok, q1, eq1, s2)" by auto
  then have "s \<le> s1 \<and> s1 < length b \<and> s1 < s2"
    using peeked_operator [of b es s "''&''"] by (auto simp: operators_def)
  then show ?case by auto
qed simp

fun add_arg :: "cmd \<Rightarrow> nat \<Rightarrow> nat \<Rightarrow> cmd" where
  "add_arg (EXEC args) q eq = EXEC (args @ [(q, eq)])"
| "add_arg (REDIR cmd f ef mode fd) q eq = REDIR (add_arg cmd q eq) f ef mode fd"
| "add_arg cmd q eq = cmd"

function parse_args :: "buffer \<Rightarrow> nat \<Rightarrow> nat \<Rightarrow> cmd \<Rightarrow> nat \<Rightarrow> fail + cmd \<times> nat" where
  "parse_args b es argc ret s =
     andthen (peek b es s ''|)&;'') (\<lambda>(stop, s).
     if stop then Inr (ret, s)
     else
       andthen (gettoken b es s) (\<lambda>(tok, q, eq, s).
       if tok = NUL then Inr (ret, s)
       else if tok \<noteq> CHR ''a'' then Inl (Panic ''syntax'')
       else if Suc argc \<ge> MAXARGS then Inl (Panic ''too many args'')
       else
         andthen (parseredirs b es (add_arg ret q eq) s) (\<lambda>(ret, s).
         parse_args b es (Suc argc) ret s)))"
  by pat_completeness auto
termination by (relation "measure (\<lambda>(b, es, argc, ret, s). MAXARGS - argc)") auto

declare parseredirs.simps [simp del] parse_backs.simps [simp del] parse_args.simps [simp del]

section \<open>What the parser returns\<close>

fun nargs :: "cmd \<Rightarrow> nat" where
  "nargs (EXEC args) = length args"
| "nargs (REDIR cmd q eq mode fd) = nargs cmd"
| "nargs cmd = 0"

definition redir_ok :: "int \<Rightarrow> int \<Rightarrow> bool" where
  "redir_ok mode fd \<longleftrightarrow> mode = O_RDONLY \<and> fd = 0 \<or> mode = O_WRONLY OR O_CREATE \<and> fd = 1"

fun cmd_ok :: "buffer \<Rightarrow> nat \<Rightarrow> cmd \<Rightarrow> bool" where
  "cmd_ok b es (EXEC args) \<longleftrightarrow> length args < MAXARGS \<and> (\<forall>(q, eq) \<in> set args. word_at b es q eq)"
| "cmd_ok b es (REDIR cmd q eq mode fd) \<longleftrightarrow> cmd_ok b es cmd \<and> word_at b es q eq \<and> redir_ok mode fd"
| "cmd_ok b es (PIPE l r) \<longleftrightarrow> cmd_ok b es l \<and> cmd_ok b es r"
| "cmd_ok b es (LIST l r) \<longleftrightarrow> cmd_ok b es l \<and> cmd_ok b es r"
| "cmd_ok b es (BACK cmd) \<longleftrightarrow> cmd_ok b es cmd"

definition parsed :: "buffer \<Rightarrow> nat \<Rightarrow> bool \<Rightarrow> nat \<Rightarrow> cmd \<times> nat \<Rightarrow> bool" where
  "parsed b es g s = (\<lambda>(cmd, s'). s \<le> s' \<and> (g \<longrightarrow> s' \<le> es \<and> cmd_ok b es cmd))"

lemma nargs_add_arg: "nargs (add_arg cmd q eq) \<le> Suc (nargs cmd)"
  by (induction cmd) auto

lemma cmd_ok_add_arg: "cmd_ok b es cmd \<Longrightarrow> word_at b es q eq \<Longrightarrow> Suc (nargs cmd) < MAXARGS \<Longrightarrow> cmd_ok b es (add_arg cmd q eq)"
  by (induction cmd) auto

text \<open>A routine followed by the rest of the program.\<close>

lemma then_peek:
  assumes "g \<Longrightarrow> terminated b es \<and> s \<le> es"
    and "\<And>r s'. peek b es s toks = Inr (r, s') \<Longrightarrow> s \<le> s' \<Longrightarrow> s' < length b \<Longrightarrow> (g \<Longrightarrow> s' \<le> es) \<Longrightarrow> yields (safe g) (f r s') P"
  shows "yields (safe g) (andthen (peek b es s toks) (\<lambda>(r, s). f r s)) P"
  by (rule yields_andthen [OF yields_peek [OF assms(1)]]) (use assms(2) in auto)

lemma then_token:
  assumes "g \<Longrightarrow> terminated b es \<and> s \<le> es"
    and "\<And>tok q eq s'. gettoken b es s = Inr (tok, q, eq, s') \<Longrightarrow> s \<le> s' \<Longrightarrow> (g \<Longrightarrow> s' \<le> es) \<Longrightarrow> (g \<Longrightarrow> tok = CHR ''a'' \<Longrightarrow> word_at b es q eq)
          \<Longrightarrow> yields (safe g) (f tok q eq s') P"
  shows "yields (safe g) (andthen (gettoken b es s) (\<lambda>(tok, q, eq, s). f tok q eq s)) P"
  by (rule yields_andthen [OF yields_gettoken [OF assms(1)]]) (use assms(2) in auto)

lemma yields_parseredirs:
  assumes "g \<Longrightarrow> terminated b es \<and> s \<le> es \<and> cmd_ok b es cmd"
  shows "yields (safe g) (parseredirs b es cmd s) (\<lambda>(cmd', s'). parsed b es g s (cmd', s') \<and> nargs cmd' = nargs cmd)"
  using assms
proof (induction b es cmd s rule: parseredirs.induct)
  case (1 b es cmd s)
  note prem = "1.prems"
  show ?case
    unfolding parseredirs.simps [of b es cmd s]
  proof (intro then_peek yields_if then_token, goal_cases)
    case (5 r s1 tok q1 eq1 s2 ftok q eq s3)
    show ?case
      by (rule yields_weaken [OF "1.IH" [OF 5(1) refl 5(5,6) refl refl refl 5(10) refl refl refl]])
        (use 5 prem in \<open>auto simp: parsed_def redir_ok_def\<close>)
  qed (use prem in \<open>auto simp: parsed_def\<close>)
qed

lemma yields_parse_backs:
  assumes "g \<Longrightarrow> terminated b es \<and> s \<le> es \<and> cmd_ok b es cmd"
  shows "yields (safe g) (parse_backs b es cmd s) (parsed b es g s)"
  using assms
proof (induction b es cmd s rule: parse_backs.induct)
  case (1 b es cmd s)
  note prem = "1.prems"
  show ?case
    unfolding parse_backs.simps [of b es cmd s]
  proof (intro then_peek yields_if then_token, goal_cases)
    case (3 r s1 tok q1 eq1 s2)
    show ?case
      by (rule yields_weaken [OF "1.IH" [OF 3(1) refl 3(5,6) refl refl refl]]) (use 3 prem in \<open>auto simp: parsed_def\<close>)
  qed (use prem in \<open>auto simp: parsed_def\<close>)
qed

lemma then_parsed:
  assumes "yields (safe g) m (parsed b es g s)"
    and "\<And>cmd s'. m = Inr (cmd, s') \<Longrightarrow> s \<le> s' \<Longrightarrow> (g \<Longrightarrow> s' \<le> es \<and> cmd_ok b es cmd) \<Longrightarrow> yields (safe g) (f cmd s') P"
  shows "yields (safe g) (andthen m (\<lambda>(cmd, s). f cmd s)) P"
  by (rule yields_andthen [OF assms(1)]) (use assms(2) in \<open>auto simp: parsed_def\<close>)

lemma yields_parse_args:
  assumes "g \<Longrightarrow> terminated b es \<and> s \<le> es \<and> cmd_ok b es ret \<and> nargs ret \<le> argc"
  shows "yields (safe g) (parse_args b es argc ret s) (parsed b es g s)"
  using assms
proof (induction b es argc ret s rule: parse_args.induct)
  case (1 b es argc ret s)
  note prem = "1.prems"
  show ?case
    unfolding parse_args.simps [of b es argc ret s]
  proof (intro then_peek yields_if then_token, goal_cases)
    case (7 r s1 tok q eq s2)
    have c: "g \<Longrightarrow> terminated b es \<and> s2 \<le> es \<and> cmd_ok b es (add_arg ret q eq)"
      using 7 prem by (auto intro: cmd_ok_add_arg)
    show ?case
    proof (rule yields_andthen [OF yields_parseredirs [OF c]], assumption, clarify)
      fix ret' s3 assume r: "parseredirs b es (add_arg ret q eq) s2 = Inr (ret', s3)" "parsed b es g s2 (ret', s3)" "nargs ret' = nargs (add_arg ret q eq)"
      have "nargs ret' \<le> Suc (nargs ret)" using nargs_add_arg r(3) by simp
      then have "yields (safe g) (parse_args b es (Suc argc) ret' s3) (parsed b es g s3)"
        by (intro "1.IH" [OF 7(1) refl 7(5,6) refl refl refl 7(10,11,12) r(1) refl]) (use r prem in \<open>auto simp: parsed_def\<close>)
      then show "yields (safe g) (parse_args b es (Suc argc) ret' s3) (parsed b es g s)"
        using 7 r by (auto simp: parsed_def elim: yields_weaken)
    qed
  qed (use prem in \<open>auto simp: parsed_def\<close>)
qed

function parseline :: "buffer \<Rightarrow> nat \<Rightarrow> nat \<Rightarrow> fail + cmd \<times> nat"
  and parsepipe :: "buffer \<Rightarrow> nat \<Rightarrow> nat \<Rightarrow> fail + cmd \<times> nat"
  and parseexec :: "buffer \<Rightarrow> nat \<Rightarrow> nat \<Rightarrow> fail + cmd \<times> nat"
  and parseblock :: "buffer \<Rightarrow> nat \<Rightarrow> nat \<Rightarrow> fail + cmd \<times> nat"
where
  "parseline b es s =
     andthen (parsepipe b es s) (\<lambda>(cmd, s).
     andthen (parse_backs b es cmd s) (\<lambda>(cmd, s).
     andthen (peek b es s '';'') (\<lambda>(semi, s).
     if semi then
       andthen (gettoken b es s) (\<lambda>(_, _, _, s).
       andthen (parseline b es s) (\<lambda>(right, s).
       Inr (LIST cmd right, s)))
     else Inr (cmd, s))))"
| "parsepipe b es s =
     andthen (parseexec b es s) (\<lambda>(cmd, s).
     andthen (peek b es s ''|'') (\<lambda>(bar, s).
     if bar then
       andthen (gettoken b es s) (\<lambda>(_, _, _, s).
       andthen (parsepipe b es s) (\<lambda>(right, s).
       Inr (PIPE cmd right, s)))
     else Inr (cmd, s)))"
| "parseexec b es s =
     andthen (peek b es s ''('') (\<lambda>(block, s).
     if block then parseblock b es s
     else
       andthen (parseredirs b es (EXEC []) s) (\<lambda>(ret, s).
       parse_args b es 0 ret s))"
| "parseblock b es s =
     andthen (peek b es s ''('') (\<lambda>(open_paren, s).
     if \<not> open_paren then Inl (Panic ''parseblock'')
     else
       andthen (gettoken b es s) (\<lambda>(_, _, _, s).
       andthen (parseline b es s) (\<lambda>(cmd, s).
       andthen (peek b es s '')'') (\<lambda>(close_paren, s).
       if \<not> close_paren then Inl (Panic ''syntax - missing )'')
       else
         andthen (gettoken b es s) (\<lambda>(_, _, _, s).
         parseredirs b es cmd s)))))"
  by pat_completeness auto

text \<open>The four routines call each other; they return at a position that is not before the one they start from.\<close>

lemma parse_dom:
  "parseline_parsepipe_parseexec_parseblock_dom (Inl (Inl (b, es, s))) \<Longrightarrow> (g \<Longrightarrow> terminated b es \<and> s \<le> es)
     \<Longrightarrow> yields (safe g) (parseline b es s) (parsed b es g s)"
  "parseline_parsepipe_parseexec_parseblock_dom (Inl (Inr (b, es, s))) \<Longrightarrow> (g \<Longrightarrow> terminated b es \<and> s \<le> es)
     \<Longrightarrow> yields (safe g) (parsepipe b es s) (parsed b es g s)"
  "parseline_parsepipe_parseexec_parseblock_dom (Inr (Inl (b, es, s))) \<Longrightarrow> (g \<Longrightarrow> terminated b es \<and> s \<le> es)
     \<Longrightarrow> yields (safe g) (parseexec b es s) (parsed b es g s)"
  "parseline_parsepipe_parseexec_parseblock_dom (Inr (Inr (b, es, s))) \<Longrightarrow> (g \<Longrightarrow> terminated b es \<and> s \<le> es)
     \<Longrightarrow> yields (safe g) (parseblock b es s) (parsed b es g s)"
proof (induction b es s and b es s and b es s and b es s rule: parseline_parsepipe_parseexec_parseblock.pinduct)
  case (1 b es s)
  show ?case unfolding parseline.psimps [OF 1(1)]
  proof (intro then_parsed [OF 1(2)] then_parsed [OF yields_parse_backs] then_peek yields_if then_token, goal_cases)
    case (5 c1 s1 c2 s2 r s3 tok q eq s4)
    have "g \<Longrightarrow> terminated b es \<and> s4 \<le> es" using 5 1(4) by auto
    from 1(3) [OF 5(1) refl 5(4) refl 5(7) refl 5(11,12) refl refl refl this]
    show ?case by (rule then_parsed) (use 5 in \<open>auto simp: parsed_def\<close>)
  qed (use 1(4) in \<open>auto simp: parsed_def\<close>)
next
  case (2 b es s)
  show ?case unfolding parsepipe.psimps [OF 2(1)]
  proof (intro then_parsed [OF 2(2)] then_peek yields_if then_token, goal_cases)
    case (4 c1 s1 r s3 tok q eq s4)
    have "g \<Longrightarrow> terminated b es \<and> s4 \<le> es" using 4 2(4) by auto
    from 2(3) [OF 4(1) refl 4(4) refl 4(8,9) refl refl refl this]
    show ?case by (rule then_parsed) (use 4 in \<open>auto simp: parsed_def\<close>)
  qed (use 2(4) in \<open>auto simp: parsed_def\<close>)
next
  case (3 b es s)
  show ?case unfolding parseexec.psimps [OF 3(1)]
  proof (intro then_peek yields_if, goal_cases)
    case (2 r s1)
    have "g \<Longrightarrow> terminated b es \<and> s1 \<le> es" using 2 3(3) by auto
    from 3(2) [OF 2(1) refl 2(5) this]
    show ?case by (rule yields_weaken) (use 2 in \<open>auto simp: parsed_def\<close>)
  next
    case (3 r s1)
    have "g \<Longrightarrow> terminated b es \<and> s1 \<le> es \<and> cmd_ok b es (EXEC [])" using 3 "3.prems" by (auto simp: MAXARGS_def)
    then have "yields (safe g) (parseredirs b es (EXEC []) s1) (\<lambda>(c, s2). parsed b es g s1 (c, s2) \<and> nargs c = nargs (EXEC []))"
      by (rule yields_parseredirs)
    then show ?case
    proof (rule yields_andthen, clarify)
      fix c s2 assume *: "parsed b es g s1 (c, s2)" "nargs c = nargs (EXEC [])"
      have "yields (safe g) (parse_args b es 0 c s2) (parsed b es g s2)"
        by (rule yields_parse_args) (use * "3.prems" in \<open>auto simp: parsed_def\<close>)
      then show "yields (safe g) (parse_args b es 0 c s2) (parsed b es g s)"
        by (rule yields_weaken) (use * 3 in \<open>auto simp: parsed_def\<close>)
    qed
  qed (use 3(3) in auto)
next
  case (4 b es s)
  show ?case unfolding parseblock.psimps [OF 4(1)]
  proof (intro then_peek yields_if then_token, goal_cases)
    case (4 r s1 tok q eq s2)
    have "g \<Longrightarrow> terminated b es \<and> s2 \<le> es" using 4 "4.prems" by auto
    note IH = "4.IH" [OF 4(1) refl 4(5,6) refl refl refl this]
    show ?case
    proof (intro then_parsed [OF IH] then_peek yields_if then_token, goal_cases)
      case (5 c s3 r' s4 tok q eq s5)
      have "g \<Longrightarrow> terminated b es \<and> s5 \<le> es \<and> cmd_ok b es c" using 5 "4.prems" by auto
      then have "yields (safe g) (parseredirs b es c s5) (\<lambda>(c', s6). parsed b es g s5 (c', s6) \<and> nargs c' = nargs c)"
        by (rule yields_parseredirs)
      then show ?case
        by (rule yields_weaken) (use 4 5 in \<open>auto simp: parsed_def\<close>)
    qed (use "4.prems" in auto)
  qed (use 4 in auto)
qed

lemmas parse_mono_dom = parse_dom [where g = False, THEN yields_Inr]

lemma parse_total: "All parseline_parsepipe_parseexec_parseblock_dom"
proof (relation "measure (\<lambda>x. case x of
    Inl (Inl (b, es, s)) \<Rightarrow> 4 * (length b - s) + 3 | Inl (Inr (b, es, s)) \<Rightarrow> 4 * (length b - s) + 2
  | Inr (Inl (b, es, s)) \<Rightarrow> 4 * (length b - s) + 1 | Inr (Inr (b, es, s)) \<Rightarrow> 4 * (length b - s))", goal_cases)
  case (3 b es s x c1 s1 y c2 s2 z r s3 w tok t1 q t2 eq s4)
  then have "s \<le> s1" "s1 \<le> s2" "s2 \<le> s3 \<and> s3 < length b \<and> s3 < s4"
    using parse_mono_dom(2) yields_Inr [OF yields_parse_backs, of False] peeked_operator [of b es s2 "'';''"]
    by (auto simp: parsed_def operators_def)
  then show ?case by auto
next
  case (5 b es s x c1 s1 z r s3 w tok t1 q t2 eq s4)
  then have "s \<le> s1" "s1 \<le> s3 \<and> s3 < length b \<and> s3 < s4"
    using parse_mono_dom(3) peeked_operator [of b es s1 "''|''"]
    by (auto simp: parsed_def operators_def)
  then show ?case by auto
next
  case (6 b es s x r s1)
  then have "s \<le> s1" using yields_Inr [OF yields_peek, of False] by fastforce
  then show ?case by simp
next
  case (7 b es s x r s1 w tok t1 q t2 eq s2)
  then have "s \<le> s1 \<and> s1 < length b \<and> s1 < s2" using peeked_operator [of b es s "''(''"] by (auto simp: operators_def)
  then show ?case by auto
qed auto

termination parseline by (rule parse_total)

declare parseline.simps [simp del] parsepipe.simps [simp del] parseexec.simps [simp del] parseblock.simps [simp del]

lemmas yields_parseline = parse_dom(1) [OF parse_total [THEN spec]]

function strlen_from :: "buffer \<Rightarrow> nat \<Rightarrow> fail + nat" where
  "strlen_from b n = andthen (rd b n) (\<lambda>c. if c \<noteq> NUL then strlen_from b (Suc n) else Inr n)"
  by pat_completeness auto
termination by (relation "measure (\<lambda>(b, n). length b - n)") (auto simp: rd_def split: if_splits)

declare strlen_from.simps [simp del]

fun nul_args :: "buffer \<Rightarrow> (nat \<times> nat) list \<Rightarrow> fail + buffer" where
  "nul_args b [] = Inr b"
| "nul_args b ((q, eq) # args) = andthen (wr b eq NUL) (\<lambda>b. nul_args b args)"

fun nulterminate :: "buffer \<Rightarrow> cmd \<Rightarrow> fail + buffer" where
  "nulterminate b (EXEC args) = nul_args b args"
| "nulterminate b (REDIR cmd q eq mode fd) = andthen (nulterminate b cmd) (\<lambda>b. wr b eq NUL)"
| "nulterminate b (PIPE l r) = andthen (nulterminate b l) (\<lambda>b. nulterminate b r)"
| "nulterminate b (LIST l r) = andthen (nulterminate b l) (\<lambda>b. nulterminate b r)"
| "nulterminate b (BACK cmd) = nulterminate b cmd"

definition parsecmd :: "buffer \<Rightarrow> fail + cmd \<times> buffer" where
  "parsecmd b =
     andthen (strlen_from b 0) (\<lambda>es.
     andthen (parseline b es 0) (\<lambda>(cmd, s).
     andthen (peek b es s '''') (\<lambda>(_, s).
     if s \<noteq> es then Inl (Panic ''syntax'')
     else andthen (nulterminate b cmd) (\<lambda>b. Inr (cmd, b)))))"

section \<open>The words of a command\<close>

text \<open>A command as the shell's user means it. \<open>command_of\<close> reads the words of a parsed command from a buffer: as
  the parts between the recorded positions before, as C strings after \<open>nulterminate\<close>.\<close>

datatype command =
    Exec "string list"
  | Redir command string int int
  | Pipe command command
  | Seq command command
  | Bg command

fun command_of :: "(nat \<times> nat \<Rightarrow> string) \<Rightarrow> cmd \<Rightarrow> command" where
  "command_of str (EXEC args) = Exec (map str args)"
| "command_of str (REDIR cmd q eq mode fd) = Redir (command_of str cmd) (str (q, eq)) mode fd"
| "command_of str (PIPE l r) = Pipe (command_of str l) (command_of str r)"
| "command_of str (LIST l r) = Seq (command_of str l) (command_of str r)"
| "command_of str (BACK cmd) = Bg (command_of str cmd)"

definition slice :: "buffer \<Rightarrow> nat \<times> nat \<Rightarrow> string" where
  "slice b = (\<lambda>(q, eq). take (eq - q) (drop q b))"

definition cstring :: "buffer \<Rightarrow> nat \<times> nat \<Rightarrow> string" where
  "cstring b = (\<lambda>(q, _). takeWhile (\<lambda>c. c \<noteq> NUL) (drop q b))"

definition is_word :: "string \<Rightarrow> bool" where
  "is_word w \<longleftrightarrow> w \<noteq> [] \<and> (\<forall>c \<in> set w. wordc c)"

fun command_ok :: "command \<Rightarrow> bool" where
  "command_ok (Exec args) \<longleftrightarrow> length args < MAXARGS \<and> (\<forall>w \<in> set args. is_word w)"
| "command_ok (Redir c f mode fd) \<longleftrightarrow> command_ok c \<and> is_word f \<and> redir_ok mode fd"
| "command_ok (Pipe l r) \<longleftrightarrow> command_ok l \<and> command_ok r"
| "command_ok (Seq l r) \<longleftrightarrow> command_ok l \<and> command_ok r"
| "command_ok (Bg c) \<longleftrightarrow> command_ok c"

fun words_of :: "cmd \<Rightarrow> (nat \<times> nat) list" where
  "words_of (EXEC args) = args"
| "words_of (REDIR cmd q eq mode fd) = words_of cmd @ [(q, eq)]"
| "words_of (PIPE l r) = words_of l @ words_of r"
| "words_of (LIST l r) = words_of l @ words_of r"
| "words_of (BACK cmd) = words_of cmd"

lemma command_of_cong: "(\<And>w. w \<in> set (words_of cmd) \<Longrightarrow> f w = g w) \<Longrightarrow> command_of f cmd = command_of g cmd"
  by (induction cmd) auto

lemma cmd_ok_words: "cmd_ok b es cmd \<Longrightarrow> (q, eq) \<in> set (words_of cmd) \<Longrightarrow> word_at b es q eq"
  by (induction cmd) auto

lemma nulterminate_words: "nulterminate b cmd = nul_args b (words_of cmd)"
proof -
  have app: "nul_args b (xs @ ys) = andthen (nul_args b xs) (\<lambda>b. nul_args b ys)" for b xs ys
    by (induction b xs rule: nul_args.induct) (auto simp: andthen_def split: sum.splits)
  have id: "andthen m Inr = m" for m :: "fail + buffer" by (cases m) simp_all
  show ?thesis by (induction b cmd rule: nulterminate.induct) (simp_all add: app id cong: andthen_cong)
qed

lemma word_slice: "word_at b es q eq \<Longrightarrow> es < length b \<Longrightarrow> is_word (slice b (q, eq))"
  by (auto simp: is_word_def slice_def word_at_def in_set_conv_nth)

text \<open>\<open>nulterminate\<close> overwrites only characters that belong to no word.\<close>

definition blanked :: "buffer \<Rightarrow> buffer \<Rightarrow> bool" where
  "blanked b b' \<longleftrightarrow> length b' = length b \<and> (\<forall>i. b' ! i = b ! i \<or> b' ! i = NUL \<and> \<not> wordc (b ! i))"

lemma nul_args_ok:
  assumes "blanked b b0" and "\<forall>(q, eq) \<in> set ws. word_at b es q eq" and "es < length b"
  shows "\<exists>b'. nul_args b0 ws = Inr b' \<and> blanked b b' \<and> (\<forall>i. b0 ! i = NUL \<longrightarrow> b' ! i = NUL) \<and> (\<forall>(q, eq) \<in> set ws. b' ! eq = NUL)"
  using assms
proof (induction b0 ws rule: nul_args.induct)
  case (2 b0 q eq ws)
  have eq: "eq < length b0" "\<not> wordc (b ! eq)" using "2.prems" by (auto simp: blanked_def word_at_def)
  have w: "wr b0 eq NUL = Inr (b0[eq := NUL])" using eq by (simp add: wr_def)
  have "blanked b (b0[eq := NUL])" using "2.prems"(1) eq by (auto simp: blanked_def nth_list_update)
  then obtain b' where b': "nul_args (b0[eq := NUL]) ws = Inr b'" "blanked b b'" "\<forall>i. b0[eq := NUL] ! i = NUL \<longrightarrow> b' ! i = NUL"
    "\<forall>(q, eq) \<in> set ws. b' ! eq = NUL" using "2.IH" [OF w] "2.prems" by auto
  have "b' ! i = NUL" if "b0 ! i = NUL" for i using b'(3) that by (cases "i = eq") (auto simp: eq)
  then show ?case using b' w eq by auto
qed auto

lemma cstring_blanked:
  assumes "word_at b es q eq" and "es < length b" and "blanked b b'" and "b' ! eq = NUL"
  shows "cstring b' (q, eq) = slice b (q, eq)"
proof -
  have len: "q < eq" "eq < length b" "length b' = length b" using assms by (auto simp: word_at_def blanked_def)
  have "drop q b' = take (eq - q) (drop q b') @ b' ! eq # drop (Suc eq) b'"
    using len id_take_nth_drop [of "eq - q" "drop q b'"] by simp
  moreover have t: "take (eq - q) (drop q b') = take (eq - q) (drop q b)"
  proof (rule nth_equalityI)
    fix i assume "i < length (take (eq - q) (drop q b'))"
    then have "wordc (b ! (q + i))" "i < eq - q" using assms(1) len by (simp_all add: word_at_def)
    then show "take (eq - q) (drop q b') ! i = take (eq - q) (drop q b) ! i"
      using assms(3) len by (auto simp: blanked_def)
  qed (use len in simp)
  moreover have "\<forall>c \<in> set (take (eq - q) (drop q b)). c \<noteq> NUL"
    using word_slice [OF assms(1,2)] by (auto simp: is_word_def slice_def wordc_def)
  ultimately show ?thesis using assms(4) by (simp add: cstring_def slice_def takeWhile_append2)
qed

lemma command_ok_slice: "cmd_ok b es cmd \<Longrightarrow> es < length b \<Longrightarrow> command_ok (command_of (slice b) cmd)"
  by (induction cmd) (auto intro: word_slice)

lemma nulterminate_ok:
  assumes "cmd_ok b es cmd" and "es < length b"
  obtains b' where "nulterminate b cmd = Inr b'" and "length b' = length b"
    and "command_of (cstring b') cmd = command_of (slice b) cmd"
proof -
  have w: "\<forall>(q, eq) \<in> set (words_of cmd). word_at b es q eq" using cmd_ok_words [OF assms(1)] by auto
  obtain b' where b': "nul_args b (words_of cmd) = Inr b'" "blanked b b'" "\<forall>(q, eq) \<in> set (words_of cmd). b' ! eq = NUL"
    using nul_args_ok [OF _ w assms(2), of b] by (auto simp: blanked_def)
  have "command_of (cstring b') cmd = command_of (slice b) cmd"
    by (rule command_of_cong) (use b' w cstring_blanked assms(2) in fastforce)
  then show thesis using that b' nulterminate_words by (simp add: blanked_def)
qed


lemma strlen_from_spec:
  assumes "NUL \<in> set (drop n b)" and "\<forall>i < n. b ! i \<noteq> NUL"
  obtains es where "strlen_from b n = Inr es" and "terminated b es"
  using assms
proof (induction b n arbitrary: thesis rule: strlen_from.induct)
  case (1 b n)
  have n: "n < length b" using "1.prems"(2) by (cases "n < length b") auto
  show thesis
  proof (cases "b ! n = NUL")
    case True
    then show thesis using "1.prems" n strlen_from.simps [of b n] by (auto simp: rd_def terminated_def)
  next
    case False
    have "NUL \<in> set (drop (Suc n) b)" using "1.prems"(2) n False Cons_nth_drop_Suc [OF n] by (metis set_ConsD)
    moreover have "\<forall>i < Suc n. b ! i \<noteq> NUL" using "1.prems"(3) False by (simp add: less_Suc_eq)
    moreover have "strlen_from b n = strlen_from b (Suc n)" using strlen_from.simps [of b n] n False by (simp add: rd_def)
    ultimately show thesis using "1.IH" [of "b ! n"] "1.prems"(1) n False by (auto simp: rd_def)
  qed
qed

lemma parse_result:
  assumes "NUL \<in> set b"
  shows "case parsecmd b of
      Inl e \<Rightarrow> e \<noteq> Fault
    | Inr (cmd, b') \<Rightarrow> length b' = length b \<and> command_ok (command_of (cstring b') cmd)
        \<and> command_of (cstring b') cmd = command_of (slice b) cmd"
proof -
  obtain es where es: "strlen_from b 0 = Inr es" "terminated b es" using strlen_from_spec [of 0 b] assms by auto
  let ?P = "\<lambda>(cmd, b'). length b' = length b \<and> command_ok (command_of (cstring b') cmd) \<and> command_of (cstring b') cmd = command_of (slice b) cmd"
  have "yields (safe True) (parsecmd b) ?P"
    unfolding parsecmd_def es(1) andthen_simps
  proof (intro then_parsed [OF yields_parseline] then_peek yields_if, goal_cases)
    case (4 cmd s r s')
    then obtain b' where "nulterminate b cmd = Inr b'" "length b' = length b" "command_of (cstring b') cmd = command_of (slice b) cmd"
      using nulterminate_ok [of b es cmd] es(2) by (auto simp: terminated_def)
    moreover have "command_ok (command_of (slice b) cmd)" using command_ok_slice 4 es(2) by (auto simp: terminated_def)
    ultimately show ?case by simp
  qed (use es in auto)
  then show ?thesis by (auto simp: yields_def safe_def split: sum.splits)
qed

text \<open>C13: The parser handles every line. Given any buffer with a NUL character, \<open>parsecmd\<close> stops, and never reads or writes outside of the
  buffer: it reports a syntax error, or it returns a command with fewer than \<open>MAXARGS\<close> arguments in
  every program call, a legal mode in every redirection, and words that are nonempty and free of separators; and the C strings left in the buffer
  by the in-place termination are exactly the words between the recorded positions of the line.\<close>

theorem parsecmd_well_typed:
  assumes "NUL \<in> set b"
  shows "case parsecmd b of
      Inl e \<Rightarrow> e \<noteq> Fault
    | Inr (cmd, b') \<Rightarrow> length b' = length b \<and> command_ok (command_of (cstring b') cmd)
        \<and> command_of (cstring b') cmd = command_of (slice b) cmd"
  by (rule parse_result [OF assms])

theorem parsecmd_well_typed_witness:
  "NUL \<in> set (''ls >x y'' @ [NUL])
   \<and> (case parsecmd (''ls >x y'' @ [NUL]) of
       Inl e \<Rightarrow> e \<noteq> Fault
     | Inr (cmd, b') \<Rightarrow> length b' = length (''ls >x y'' @ [NUL]) \<and> command_ok (command_of (cstring b') cmd)
         \<and> command_of (cstring b') cmd = command_of (slice (''ls >x y'' @ [NUL])) cmd)"
  using parsecmd_well_typed [of "''ls >x y'' @ [NUL]"] by simp

section \<open>Printing and parsing\<close>

text \<open>The text of a command, with blocks in parentheses where the grammar needs them.\<close>

fun level :: "command \<Rightarrow> nat" where
  "level (Seq l r) = 0"
| "level (Bg c) = 1"
| "level (Pipe l r) = 2"
| "level c = 3"

definition paren :: "nat \<Rightarrow> command \<Rightarrow> string \<Rightarrow> string" where
  "paren n c t = (if level c < n then ''('' @ t @ '')'' else t)"

definition redir_text :: "int \<Rightarrow> string \<Rightarrow> string" where
  "redir_text fd f = (if fd = 0 then CHR ''<'' else CHR ''>'') # f"

fun body :: "command \<Rightarrow> string" where
  "body (Exec args) = concat (map ((#) (CHR '' '')) args)"
| "body (Redir c f mode fd) = paren 3 c (body c) @ redir_text fd f"
| "body (Pipe l r) = paren 3 l (body l) @ ''|'' @ paren 2 r (body r)"
| "body (Seq l r) = paren 1 l (body l) @ '';'' @ body r"
| "body (Bg c) = paren 1 c (body c) @ ''&''"

abbreviation shown :: "nat \<Rightarrow> command \<Rightarrow> string" where
  "shown n c \<equiv> paren n c (body c)"

text \<open>The rest of the line, up to white space at its front.\<close>

definition trim :: "string \<Rightarrow> string" where
  "trim = dropWhile (strchr whitespace)"

definition rest :: "buffer \<Rightarrow> nat \<Rightarrow> nat \<Rightarrow> string" where
  "rest b es s = take (es - s) (drop s b)"

definition at :: "buffer \<Rightarrow> nat \<Rightarrow> nat \<Rightarrow> string \<Rightarrow> bool" where
  "at b es s t \<longleftrightarrow> terminated b es \<and> s \<le> es \<and> trim (rest b es s) = trim t"

lemma trim_simps [simp]: "trim [] = []" "strchr whitespace c \<Longrightarrow> trim (c # t) = trim t" "\<not> strchr whitespace c \<Longrightarrow> trim (c # t) = c # t"
  by (simp_all add: trim_def)

lemma trim_trim [simp]: "trim (trim t) = trim t"
  by (simp add: trim_def)

lemma rest_Cons:
  assumes "terminated b es" and "s < es"
  shows "rest b es s = b ! s # rest b es (Suc s)"
proof -
  have "drop s b = b ! s # drop (Suc s) b" "es - s = Suc (es - Suc s)"
    using assms Cons_nth_drop_Suc [of s b] by (auto simp: terminated_def)
  then show ?thesis by (simp add: rest_def)
qed

lemma rest_end [simp]: "rest b es es = []"
  by (simp add: rest_def)

lemma rest_empty: "terminated b es \<Longrightarrow> s \<le> es \<Longrightarrow> rest b es s = [] \<longleftrightarrow> s = es"
  by (auto simp: rest_def terminated_def)

lemma skip_space_rest:
  assumes "terminated b es" and "s \<le> es"
  shows "\<exists>s'. skip_space b es s = Inr s' \<and> s' \<le> es \<and> rest b es s' = trim (rest b es s)"
  using assms
proof (induction b es s rule: skip_space.induct)
  case (1 b es s)
  show ?case
  proof (cases "s < es")
    case True
    then have r: "rd b s = Inr (b ! s)" using "1.prems" by (simp add: rd_def terminated_def)
    show ?thesis using "1.IH" [OF True r] "1.prems" True r skip_space.simps [of b es s] rest_Cons [of b es s] by auto
  next
    case False
    then show ?thesis using "1.prems" skip_space.simps [of b es s] by simp
  qed
qed

lemma at_skip:
  assumes "at b es s t"
  obtains s' where "skip_space b es s = Inr s'" and "s' \<le> es" and "rest b es s' = trim t"
  using assms skip_space_rest [of b es s] by (auto simp: at_def)

lemma at_rest: "terminated b es \<Longrightarrow> s \<le> es \<Longrightarrow> rest b es s = t \<Longrightarrow> at b es s t"
  by (simp add: at_def)

lemma at_trim [simp]: "at b es s (trim t) \<longleftrightarrow> at b es s t" "strchr whitespace c \<Longrightarrow> at b es s (c # t) \<longleftrightarrow> at b es s t"
  by (simp_all add: at_def)

lemma rest_ConsD:
  assumes "rest b es s = c # t" and "terminated b es" and "s \<le> es"
  shows "s < es" and "b ! s = c" and "rest b es (Suc s) = t" and "rd b s = Inr c" and "c \<noteq> NUL"
proof -
  show s: "s < es" using assms by (cases "s = es") auto
  show c: "b ! s = c" "rest b es (Suc s) = t" using rest_Cons [OF assms(2) s] assms(1) by auto
  show "rd b s = Inr c" "c \<noteq> NUL" using s c assms(2) by (auto simp: rd_def terminated_def)
qed

lemma rd_end: "terminated b es \<Longrightarrow> rd b es = Inr NUL"
  by (simp add: rd_def terminated_def)

lemma peek_at:
  assumes "at b es s t"
  obtains s' where "peek b es s toks = Inr (trim t \<noteq> [] \<and> strchr toks (hd (trim t)), s')" and "at b es s' t" and "trim t = [] \<Longrightarrow> s' = es"
proof -
  obtain s' where s': "skip_space b es s = Inr s'" "s' \<le> es" "rest b es s' = trim t" by (rule at_skip [OF assms])
  have T: "terminated b es" using assms by (simp add: at_def)
  have a: "at b es s' t" using at_rest [OF T s'(2,3)] by simp
  show thesis
  proof (cases "trim t")
    case Nil
    then have "s' = es" using s' rest_empty [OF T] by simp
    then show thesis using that s' a T Nil by (simp add: peek_def rd_end)
  next
    case (Cons c u)
    then have "rd b s' = Inr c" "c \<noteq> NUL" using rest_ConsD [OF _ T s'(2), of c u] s' by auto
    then show thesis using that s' a Cons by (simp add: peek_def)
  qed
qed


lemma gettoken_op_at:
  assumes "at b es s (c # t)" and "strchr ''|();&<'' c"
  obtains q eq s' where "gettoken b es s = Inr (c, q, eq, s')" and "at b es s' t"
proof -
  have ns: "\<not> strchr whitespace c" using assms(2) by (auto simp: strchr_def whitespace_def)
  have T: "terminated b es" using assms by (simp add: at_def)
  obtain q where q: "skip_space b es s = Inr q" "q \<le> es" "rest b es q = c # t" using at_skip [OF assms(1)] ns by auto
  note r = rest_ConsD [OF q(3) T q(2)]
  have "at b es (Suc q) t" using r by (intro at_rest T) auto
  then obtain s' where s': "skip_space b es (Suc q) = Inr s'" "s' \<le> es" "rest b es s' = trim t" by (rule at_skip)
  show thesis using that q(1) r(4,5) s'(1) assms(2) at_rest [OF T s'(2,3)] by (simp add: gettoken_def)
qed

lemma gettoken_gt_at:
  assumes "at b es s (CHR ''>'' # t)" and "t \<noteq> []" and "hd t \<noteq> CHR ''>''"
  obtains q eq s' where "gettoken b es s = Inr (CHR ''>'', q, eq, s')" and "at b es s' t"
proof -
  have T: "terminated b es" using assms by (simp add: at_def)
  have ns: "\<not> strchr whitespace (CHR ''>'')" by (simp add: strchr_def whitespace_def)
  obtain q where q: "skip_space b es s = Inr q" "q \<le> es" "rest b es q = CHR ''>'' # t" using at_skip [OF assms(1)] ns by auto
  note r = rest_ConsD [OF q(3) T q(2)]
  have le: "Suc q \<le> es" using r(1) by simp
  obtain d u where t: "t = d # u" "d \<noteq> CHR ''>''" using assms(2,3) by (cases t) auto
  have d: "rd b (Suc q) = Inr d" using rest_ConsD(4) [OF _ T le] r(3) t by blast
  have "at b es (Suc q) t" using r by (intro at_rest T) auto
  then obtain s' where s': "skip_space b es (Suc q) = Inr s'" "s' \<le> es" "rest b es s' = trim t" by (rule at_skip)
  show thesis using that q(1) r(4,5) s'(1) d t(2) at_rest [OF T s'(2,3)] by (simp add: gettoken_def strchr_def)
qed

definition sep :: "string \<Rightarrow> bool" where
  "sep t \<longleftrightarrow> t = [] \<or> \<not> wordc (hd t)"

lemma word_end_rest:
  assumes "terminated b es" and "q \<le> es" and "rest b es q = w @ t" and "\<forall>c \<in> set w. wordc c" and "sep t"
  shows "word_end b es q = Inr (q + length w) \<and> q + length w \<le> es \<and> rest b es (q + length w) = t \<and> slice b (q, q + length w) = w"
  using assms
proof (induction w arbitrary: q)
  case Nil
  show ?case
  proof (cases t)
    case Nil
    then have "q = es" using Nil "local.Nil.prems" rest_empty by simp
    then show ?thesis using Nil word_end.simps [of b es q] by (simp add: slice_def)
  next
    case (Cons c u)
    note r = rest_ConsD [of b es q c u]
    have "\<not> wordc c" "c \<noteq> NUL" "q < es" "rd b q = Inr c" using Nil.prems Cons r by (auto simp: sep_def)
    then show ?thesis using Nil.prems Cons word_end.simps [of b es q] by (auto simp: wordc_def slice_def)
  qed
next
  case (Cons c w)
  note r = rest_ConsD [of b es q c "w @ t"]
  have c: "q < es" "b ! q = c" "rest b es (Suc q) = w @ t" "rd b q = Inr c" using Cons.prems r by auto
  then have "word_end b es q = word_end b es (Suc q)" using Cons.prems word_end.simps [of b es q] by (simp add: wordc_def)
  moreover have "drop q b = c # drop (Suc q) b"
    using c Cons.prems(1) Cons_nth_drop_Suc [of q b] by (auto simp: terminated_def)
  then have "slice b (q, Suc (q + n)) = c # slice b (Suc q, Suc (q + n))" for n by (simp add: slice_def)
  ultimately show ?case using Cons.IH [of "Suc q"] Cons.prems c by simp
qed

lemma gettoken_word_at:
  assumes "at b es s (w @ t)" and "is_word w" and "sep t"
  obtains q eq s' where "gettoken b es s = Inr (CHR ''a'', q, eq, s')" and "slice b (q, eq) = w" and "at b es s' t"
proof -
  have T: "terminated b es" using assms by (simp add: at_def)
  obtain c v where w: "w = c # v" "wordc c" "\<forall>c \<in> set w. wordc c" using assms(2) by (cases w) (auto simp: is_word_def)
  have "trim (w @ t) = w @ t" using w by (simp add: wordc_def)
  then obtain q where q: "skip_space b es s = Inr q" "q \<le> es" "rest b es q = w @ t" using at_skip [OF assms(1)] by auto
  have r: "rd b q = Inr c" "c \<noteq> NUL" using rest_ConsD [OF _ T q(2), of c "v @ t"] q(3) w by auto
  note e = word_end_rest [OF T q(2,3) w(3) assms(3)]
  have "at b es (q + length w) t" using e by (intro at_rest T) auto
  then obtain s' where s': "skip_space b es (q + length w) = Inr s'" "s' \<le> es" "rest b es s' = trim t" by (rule at_skip)
  have op: "\<not> strchr ''|();&<'' c" "c \<noteq> CHR ''>''" using w(2) by (auto simp: wordc_def strchr_def symbols_def)
  have "gettoken b es s = Inr (CHR ''a'', q, q + length w, s')" using q(1) r op e s'(1) by (simp add: gettoken_def)
  then show thesis using that e at_rest [OF T s'(2,3)] by simp
qed

lemma gettoken_end_at:
  assumes "at b es s t" and "trim t = []"
  obtains q eq s' where "gettoken b es s = Inr (NUL, q, eq, s')" and "at b es s' t"
proof -
  have T: "terminated b es" using assms by (simp add: at_def)
  obtain q where q: "skip_space b es s = Inr q" "q \<le> es" "rest b es q = []" using at_skip [OF assms(1)] assms(2) by auto
  then have "q = es" using rest_empty [OF T] by simp
  moreover have "skip_space b es es = Inr es" using skip_space.simps [of b es es] by simp
  ultimately show thesis using that [of es es es] q T assms(2) by (simp add: gettoken_def rd_end at_def)
qed


text \<open>The rest of the line begins, after white space, with none of the given characters, or only with one of them.\<close>

definition avoids :: "string \<Rightarrow> string \<Rightarrow> bool" where
  "avoids cs t \<longleftrightarrow> trim t = [] \<or> \<not> strchr cs (hd (trim t))"

definition stops :: "string \<Rightarrow> string \<Rightarrow> bool" where
  "stops cs t \<longleftrightarrow> trim t = [] \<or> strchr cs (hd (trim t))"

lemma peek_no:
  assumes "at b es s t" and "avoids toks t"
  obtains s' where "peek b es s toks = Inr (False, s')" and "at b es s' t"
  by (rule peek_at [OF assms(1), of toks]) (use that assms(2) in \<open>auto simp: avoids_def\<close>)

lemma peek_yes:
  assumes "at b es s (c # t)" and "strchr toks c" and "\<not> strchr whitespace c"
  obtains s' where "peek b es s toks = Inr (True, s')" and "at b es s' (c # t)"
  by (rule peek_at [OF assms(1), of toks]) (use that assms(2,3) in auto)

lemma stops_avoids: "stops cs t \<Longrightarrow> set cs \<inter> set ds = {} \<Longrightarrow> avoids ds t"
  by (auto simp: stops_def avoids_def strchr_def)

lemma sep_stops: "stops cs t \<Longrightarrow> set cs \<subseteq> set symbols \<Longrightarrow> sep t"
  by (cases t) (auto simp: stops_def sep_def wordc_def strchr_def trim_def split: if_splits)

fun wrap :: "command \<Rightarrow> (string \<times> int \<times> int) list \<Rightarrow> command" where
  "wrap c [] = c"
| "wrap c ((f, mode, fd) # rs) = wrap (Redir c f mode fd) rs"

definition redirs_text :: "(string \<times> int \<times> int) list \<Rightarrow> string" where
  "redirs_text rs = concat (map (\<lambda>(f, mode, fd). redir_text fd f) rs)"

definition redirs_ok :: "(string \<times> int \<times> int) list \<Rightarrow> bool" where
  "redirs_ok rs \<longleftrightarrow> (\<forall>(f, mode, fd) \<in> set rs. is_word f \<and> redir_ok mode fd)"

lemma redirs_text_simps [simp]: "redirs_text [] = []" "redirs_text ((f, mode, fd) # rs) = redir_text fd f @ redirs_text rs"
  by (simp_all add: redirs_text_def)

lemma sep_redirs: "sep t \<Longrightarrow> sep (redirs_text rs @ t)"
  by (cases rs) (auto simp: sep_def redir_text_def wordc_def symbols_def strchr_def split: if_splits)

lemma parseredirs_none:
  assumes "at b es s t" and "avoids ''<>'' t"
  obtains s' where "parseredirs b es cmd s = Inr (cmd, s')" and "at b es s' t"
proof -
  obtain s' where "peek b es s ''<>'' = Inr (False, s')" "at b es s' t" by (rule peek_no [OF assms])
  then show thesis using that parseredirs.simps [of b es cmd s] by simp
qed

lemma parseredirs_at:
  assumes "at b es s (redirs_text rs @ t)" and "redirs_ok rs" and "sep t" and "avoids ''<>'' t"
  shows "\<exists>cmd' s'. parseredirs b es cmd s = Inr (cmd', s') \<and> at b es s' t \<and> command_of (slice b) cmd' = wrap (command_of (slice b) cmd) rs"
  using assms
proof (induction rs arbitrary: s cmd)
  case Nil
  have "at b es s t" using Nil.prems(1) by simp
  then obtain s' where "parseredirs b es cmd s = Inr (cmd, s')" "at b es s' t" using Nil.prems(4) by (rule parseredirs_none)
  then show ?case by auto
next
  case (Cons r rs)
  obtain f mode fd where r: "r = (f, mode, fd)" by (cases r)
  have f: "is_word f" "redir_ok mode fd" "redirs_ok rs" using Cons.prems(2) r by (auto simp: redirs_ok_def)
  let ?u = "f @ redirs_text rs @ t"
  have u: "?u \<noteq> []" "hd ?u \<noteq> CHR ''>''" using f(1) by (cases f; auto simp: is_word_def wordc_def symbols_def strchr_def)+
  define c where "c = (if fd = 0 then CHR ''<'' else CHR ''>'')"
  have a: "at b es s (c # ?u)" using Cons.prems(1) r by (simp add: redir_text_def c_def split: if_splits)
  have cc: "strchr ''<>'' c" "\<not> strchr whitespace c" by (simp_all add: c_def strchr_def whitespace_def)
  obtain s1 where s1: "peek b es s ''<>'' = Inr (True, s1)" "at b es s1 (c # ?u)" by (rule peek_yes [OF a cc])
  obtain q1 eq1 s2 where s2: "gettoken b es s1 = Inr (c, q1, eq1, s2)" "at b es s2 ?u"
  proof (cases "fd = 0")
    case True
    then show thesis using that s1(2) gettoken_op_at [of b es s1 c ?u] by (auto simp: c_def strchr_def)
  next
    case False
    then show thesis using that s1(2) gettoken_gt_at [of b es s1 ?u, OF _ u] by (auto simp: c_def)
  qed
  obtain q eq s3 where s3: "gettoken b es s2 = Inr (CHR ''a'', q, eq, s3)" "slice b (q, eq) = f" "at b es s3 (redirs_text rs @ t)"
    by (rule gettoken_word_at [OF s2(2) f(1) sep_redirs [OF Cons.prems(3)]])
  have m: "(if c = CHR ''<'' then REDIR cmd q eq O_RDONLY 0
            else if c = CHR ''>'' \<or> c = CHR ''+'' then REDIR cmd q eq (O_WRONLY OR O_CREATE) 1 else cmd) = REDIR cmd q eq mode fd"
    using f(2) by (auto simp: c_def redir_ok_def)
  have "parseredirs b es cmd s = parseredirs b es (REDIR cmd q eq mode fd) s3"
    using parseredirs.simps [of b es cmd s] s1(1) s2(1) s3(1) m by (simp del: parseredirs.simps)
  then show ?case using Cons.IH [OF s3(3) f(3) Cons.prems(3,4), of "REDIR cmd q eq mode fd"] s3(2) r by simp
qed

definition words_text :: "string list \<Rightarrow> string" where
  "words_text ws = concat (map ((#) (CHR '' '')) ws)"

lemma blank [simp]: "strchr whitespace (CHR '' '')"
  by (simp add: strchr_def whitespace_def)

lemma words_text_simps [simp]: "words_text [] = []" "words_text (w # ws) = CHR '' '' # w @ words_text ws"
  by (simp_all add: words_text_def)

lemma avoids_words: "is_word w \<Longrightarrow> set cs \<subseteq> set symbols \<Longrightarrow> avoids cs (w @ t)"
  by (cases w) (auto simp: avoids_def is_word_def wordc_def strchr_def)

lemma avoids_blank [simp]: "avoids cs (CHR '' '' # t) \<longleftrightarrow> avoids cs t"
  by (simp add: avoids_def)

lemma sep_blank [simp]: "sep (CHR '' '' # t)"
  by (simp add: sep_def wordc_def)

lemma parse_args_stop:
  assumes "at b es s t" and "stops ''|)&;'' t"
  obtains s' where "parse_args b es argc ret s = Inr (ret, s')" and "at b es s' t"
proof -
  obtain s1 where s1: "peek b es s ''|)&;'' = Inr (trim t \<noteq> [] \<and> strchr ''|)&;'' (hd (trim t)), s1)" "at b es s1 t"
    by (rule peek_at [OF assms(1)])
  show thesis
  proof (cases "trim t = []")
    case True
    obtain q eq s2 where "gettoken b es s1 = Inr (NUL, q, eq, s2)" "at b es s2 t" by (rule gettoken_end_at [OF s1(2) True])
    then show thesis using that parse_args.simps [of b es argc ret s] s1 True by simp
  next
    case False
    then show thesis using that parse_args.simps [of b es argc ret s] s1 assms(2) by (simp add: stops_def)
  qed
qed

lemma parse_args_at:
  assumes "at b es s (words_text ws @ redirs_text rs @ t)" and "\<forall>w \<in> set ws. is_word w" and "redirs_ok rs" and "stops ''|)&;'' t"
    and "length a + length ws < MAXARGS" and "ws = [] \<Longrightarrow> rs = []"
  shows "\<exists>cmd' s'. parse_args b es (length a) (EXEC a) s = Inr (cmd', s') \<and> at b es s' t
     \<and> command_of (slice b) cmd' = wrap (Exec (map (slice b) a @ ws)) rs"
  using assms
proof (induction ws arbitrary: s a)
  case Nil
  have "at b es s t" using Nil.prems(1,6) by simp
  then obtain s' where "parse_args b es (length a) (EXEC a) s = Inr (EXEC a, s')" "at b es s' t"
    using Nil.prems(4) by (rule parse_args_stop)
  then show ?case using Nil by auto
next
  case (Cons w ws)
  let ?u = "words_text ws @ redirs_text rs @ t"
  have sp: "sep t" "avoids ''<>'' t" using sep_stops [OF Cons.prems(4)] stops_avoids [OF Cons.prems(4)] by (auto simp: symbols_def)
  have w: "is_word w" and u: "sep ?u" using Cons.prems(2) sep_redirs [OF sp(1)] by (cases ws; auto)+
  have a1: "at b es s (w @ ?u)" using Cons.prems(1) by simp
  obtain s1 where s1: "peek b es s ''|)&;'' = Inr (False, s1)" "at b es s1 (w @ ?u)"
    by (rule peek_no [OF a1]) (use avoids_words [OF w] in \<open>auto simp: symbols_def\<close>)
  obtain q eq s2 where s2: "gettoken b es s1 = Inr (CHR ''a'', q, eq, s2)" "slice b (q, eq) = w" "at b es s2 ?u"
    by (rule gettoken_word_at [OF s1(2) w u])
  have step: "parse_args b es (length a) (EXEC a) s
    = andthen (parseredirs b es (EXEC (a @ [(q, eq)])) s2) (\<lambda>(ret, s). parse_args b es (Suc (length a)) ret s)"
    using parse_args.simps [of b es "length a" "EXEC a" s] s1(1) s2(1) Cons.prems(5) by simp
  show ?case
  proof (cases ws)
    case Nil
    then have "at b es s2 (redirs_text rs @ t)" using s2(3) by simp
    from parseredirs_at [OF this Cons.prems(3) sp, of "EXEC (a @ [(q, eq)])"]
    obtain cmd' s3 where s3: "parseredirs b es (EXEC (a @ [(q, eq)])) s2 = Inr (cmd', s3)" "at b es s3 t"
      "command_of (slice b) cmd' = wrap (Exec (map (slice b) (a @ [(q, eq)]))) rs" by auto
    obtain s4 where "parse_args b es (Suc (length a)) cmd' s3 = Inr (cmd', s4)" "at b es s4 t"
      by (rule parse_args_stop [OF s3(2) Cons.prems(4)])
    then show ?thesis using step s3 s2(2) Nil by simp
  next
    case (Cons v vs)
    have "avoids ''<>'' ?u" using Cons "local.Cons.prems"(2) avoids_words [of v "''<>''"] by (auto simp: symbols_def)
    then obtain s3 where s3: "parseredirs b es (EXEC (a @ [(q, eq)])) s2 = Inr (EXEC (a @ [(q, eq)]), s3)" "at b es s3 ?u"
      by (rule parseredirs_none [OF s2(3)])
    show ?thesis using Cons.IH [OF s3(2), of "a @ [(q, eq)]"] Cons.prems step s3(1) s2(2) \<open>ws = v # vs\<close> by simp
  qed
qed

text \<open>What it means that a routine reads the text of a command that is followed by one of the given characters.\<close>

definition parses :: "(nat \<Rightarrow> fail + cmd \<times> nat) \<Rightarrow> string \<Rightarrow> string \<Rightarrow> buffer \<Rightarrow> nat \<Rightarrow> command \<Rightarrow> bool" where
  "parses f txt cs b es c \<longleftrightarrow> (\<forall>s t. at b es s (txt @ t) \<longrightarrow> stops cs t \<longrightarrow>
     (\<exists>cmd s'. f s = Inr (cmd, s') \<and> at b es s' t \<and> command_of (slice b) cmd = c))"

definition backs_parses :: "buffer \<Rightarrow> nat \<Rightarrow> command \<Rightarrow> bool" where
  "backs_parses b es c \<longleftrightarrow> (\<forall>s t. at b es s (shown 1 c @ t) \<longrightarrow> stops '')&;'' t \<longrightarrow>
     (\<exists>cmd\<^sub>1 s\<^sub>1 cmd s'. parsepipe b es s = Inr (cmd\<^sub>1, s\<^sub>1) \<and> parse_backs b es cmd\<^sub>1 s\<^sub>1 = parse_backs b es cmd s'
        \<and> at b es s' t \<and> command_of (slice b) cmd = c))"

lemma parsesE:
  assumes "parses f txt cs b es c" and "at b es s (txt @ t)" and "stops cs t"
  obtains cmd s' where "f s = Inr (cmd, s')" and "at b es s' t" and "command_of (slice b) cmd = c"
  using assms unfolding parses_def by blast

lemma stops_Cons: "strchr cs c \<Longrightarrow> \<not> strchr whitespace c \<Longrightarrow> stops cs (c # t)"
  by (simp add: stops_def)

lemma stops_mono: "stops cs t \<Longrightarrow> set cs \<subseteq> set ds \<Longrightarrow> stops ds t"
  by (auto simp: stops_def strchr_def)

lemma strchr_list [sh_simps]: "strchr [] c \<longleftrightarrow> False" "strchr (d # cs) c \<longleftrightarrow> c = d \<or> strchr cs c"
  by (simp_all add: strchr_def)

lemma op_chars [sh_simps]:
  "\<not> strchr whitespace (CHR ''|'')" "\<not> strchr whitespace (CHR ''('')" "\<not> strchr whitespace (CHR '')'')"
  "\<not> strchr whitespace (CHR '';'')" "\<not> strchr whitespace (CHR ''&'')"
  "\<not> strchr whitespace (CHR ''<'')" "\<not> strchr whitespace (CHR ''>'')"
  by (simp_all add: strchr_def whitespace_def)

lemma pipe_of_exec:
  assumes "parses (parseexec b es) (shown 2 c) ''|)&;'' b es c"
  shows "parses (parsepipe b es) (shown 2 c) '')&;'' b es c"
  unfolding parses_def
proof (intro allI impI)
  fix s t assume a: "at b es s (shown 2 c @ t)" and st: "stops '')&;'' t"
  obtain cmd s1 where s1: "parseexec b es s = Inr (cmd, s1)" "at b es s1 t" "command_of (slice b) cmd = c"
    by (rule parsesE [OF assms a stops_mono [OF st]]) auto
  obtain s2 where s2: "peek b es s1 ''|'' = Inr (False, s2)" "at b es s2 t"
    by (rule peek_no [OF s1(2) stops_avoids [OF st]]) auto
  show "\<exists>cmd s'. parsepipe b es s = Inr (cmd, s') \<and> at b es s' t \<and> command_of (slice b) cmd = c"
    using parsepipe.simps [of b es s] s1 s2 by simp
qed

lemma pipe_of_pipe:
  assumes "parses (parseexec b es) (shown 3 l) ''|)&;'' b es l" and "parses (parsepipe b es) (shown 2 r) '')&;'' b es r"
  shows "parses (parsepipe b es) (body (Pipe l r)) '')&;'' b es (Pipe l r)"
  unfolding parses_def
proof (intro allI impI)
  fix s t assume "at b es s (body (Pipe l r) @ t)" and st: "stops '')&;'' t"
  then have a: "at b es s (shown 3 l @ CHR ''|'' # shown 2 r @ t)" by simp
  obtain cl s1 where s1: "parseexec b es s = Inr (cl, s1)" "at b es s1 (CHR ''|'' # shown 2 r @ t)" "command_of (slice b) cl = l"
    by (rule parsesE [OF assms(1) a]) (simp_all add: stops_Cons sh_simps)
  obtain s2 where s2: "peek b es s1 ''|'' = Inr (True, s2)" "at b es s2 (CHR ''|'' # shown 2 r @ t)"
    by (rule peek_yes [OF s1(2), of "''|''"]) (simp_all add: sh_simps)
  obtain q eq s3 where s3: "gettoken b es s2 = Inr (CHR ''|'', q, eq, s3)" "at b es s3 (shown 2 r @ t)"
    by (rule gettoken_op_at [OF s2(2)]) (simp_all add: sh_simps)
  obtain cr s4 where s4: "parsepipe b es s3 = Inr (cr, s4)" "at b es s4 t" "command_of (slice b) cr = r"
    by (rule parsesE [OF assms(2) s3(2) st])
  show "\<exists>cmd s'. parsepipe b es s = Inr (cmd, s') \<and> at b es s' t \<and> command_of (slice b) cmd = Pipe l r"
    using parsepipe.simps [of b es s] s1 s2 s3 s4 by simp
qed

lemma backs_of_pipe: "parses (parsepipe b es) (shown 1 c) '')&;'' b es c \<Longrightarrow> backs_parses b es c"
  unfolding backs_parses_def parses_def by (intro allI impI) metis

lemma backs_of_bg:
  assumes "backs_parses b es c"
  shows "backs_parses b es (Bg c)"
  unfolding backs_parses_def
proof (intro allI impI)
  fix s t assume "at b es s (shown 1 (Bg c) @ t)" and st: "stops '')&;'' t"
  then have a: "at b es s (shown 1 c @ CHR ''&'' # t)" by (simp add: paren_def)
  have "stops '')&;'' (CHR ''&'' # t)" by (simp add: stops_Cons sh_simps)
  then obtain c1 s1 cmd s2 where s2: "parsepipe b es s = Inr (c1, s1)" "parse_backs b es c1 s1 = parse_backs b es cmd s2"
    "at b es s2 (CHR ''&'' # t)" "command_of (slice b) cmd = c"
    using assms a unfolding backs_parses_def by blast
  obtain s3 where s3: "peek b es s2 ''&'' = Inr (True, s3)" "at b es s3 (CHR ''&'' # t)"
    by (rule peek_yes [OF s2(3), of "''&''"]) (simp_all add: sh_simps)
  obtain q eq s4 where s4: "gettoken b es s3 = Inr (CHR ''&'', q, eq, s4)" "at b es s4 t"
    by (rule gettoken_op_at [OF s3(2)]) (simp_all add: sh_simps)
  have "parse_backs b es cmd s2 = parse_backs b es (BACK cmd) s4" using parse_backs.simps [of b es cmd s2] s3(1) s4(1) by simp
  then show "\<exists>c1 s1 cmd s'. parsepipe b es s = Inr (c1, s1) \<and> parse_backs b es c1 s1 = parse_backs b es cmd s'
      \<and> at b es s' t \<and> command_of (slice b) cmd = Bg c"
    using s2(1,2,4) s4(2) by (intro exI [of _ c1] exI [of _ s1] exI [of _ "BACK cmd"] exI [of _ s4]) simp
qed

lemma parse_backs_done:
  assumes "at b es s t" and "avoids ''&'' t"
  obtains s' where "parse_backs b es cmd s = Inr (cmd, s')" and "at b es s' t"
proof -
  obtain s' where "peek b es s ''&'' = Inr (False, s')" "at b es s' t" by (rule peek_no [OF assms])
  then show thesis using that parse_backs.simps [of b es cmd s] by simp
qed

lemma line_of_backs:
  assumes "backs_parses b es c"
  shows "parses (parseline b es) (shown 1 c) '')'' b es c"
  unfolding parses_def
proof (intro allI impI)
  fix s t assume a: "at b es s (shown 1 c @ t)" and st: "stops '')'' t"
  have "stops '')&;'' t" using stops_mono [OF st] by simp
  then obtain c1 s1 cmd s2 where s2: "parsepipe b es s = Inr (c1, s1)" "parse_backs b es c1 s1 = parse_backs b es cmd s2"
    "at b es s2 t" "command_of (slice b) cmd = c" using assms a unfolding backs_parses_def by blast
  obtain s3 where s3: "parse_backs b es cmd s2 = Inr (cmd, s3)" "at b es s3 t"
    by (rule parse_backs_done [OF s2(3) stops_avoids [OF st]]) auto
  obtain s4 where s4: "peek b es s3 '';'' = Inr (False, s4)" "at b es s4 t"
    by (rule peek_no [OF s3(2) stops_avoids [OF st]]) auto
  show "\<exists>cmd s'. parseline b es s = Inr (cmd, s') \<and> at b es s' t \<and> command_of (slice b) cmd = c"
    using parseline.simps [of b es s] s2 s3 s4 by simp
qed

lemma line_of_seq:
  assumes "backs_parses b es l" and "parses (parseline b es) (body r) '')'' b es r"
  shows "parses (parseline b es) (body (Seq l r)) '')'' b es (Seq l r)"
  unfolding parses_def
proof (intro allI impI)
  fix s t assume "at b es s (body (Seq l r) @ t)" and st: "stops '')'' t"
  then have a: "at b es s (shown 1 l @ CHR '';'' # body r @ t)" by simp
  let ?u = "CHR '';'' # body r @ t"
  have u: "stops '';'' ?u" by (simp add: stops_Cons sh_simps)
  have "stops '')&;'' ?u" using stops_mono [OF u] by simp
  then obtain c1 s1 cl s2 where s2: "parsepipe b es s = Inr (c1, s1)" "parse_backs b es c1 s1 = parse_backs b es cl s2"
    "at b es s2 ?u" "command_of (slice b) cl = l" using assms(1) a unfolding backs_parses_def by blast
  obtain s3 where s3: "parse_backs b es cl s2 = Inr (cl, s3)" "at b es s3 ?u"
    by (rule parse_backs_done [OF s2(3) stops_avoids [OF u]]) auto
  obtain s4 where s4: "peek b es s3 '';'' = Inr (True, s4)" "at b es s4 ?u"
    by (rule peek_yes [OF s3(2), of "'';''"]) (simp_all add: sh_simps)
  obtain q eq s5 where s5: "gettoken b es s4 = Inr (CHR '';'', q, eq, s5)" "at b es s5 (body r @ t)"
    by (rule gettoken_op_at [OF s4(2)]) (simp_all add: sh_simps)
  obtain cr s6 where s6: "parseline b es s5 = Inr (cr, s6)" "at b es s6 t" "command_of (slice b) cr = r"
    by (rule parsesE [OF assms(2) s5(2) st])
  show "\<exists>cmd s'. parseline b es s = Inr (cmd, s') \<and> at b es s' t \<and> command_of (slice b) cmd = Seq l r"
    using parseline.simps [of b es s] s2 s3 s4 s5 s6 by simp
qed

lemma exec_of_block:
  assumes "parses (parseline b es) (body c) '')'' b es c" and "redirs_ok rs"
  shows "parses (parseexec b es) (''('' @ body c @ '')'' @ redirs_text rs) ''|)&;'' b es (wrap c rs)"
  unfolding parses_def
proof (intro allI impI)
  fix s t assume "at b es s ((''('' @ body c @ '')'' @ redirs_text rs) @ t)" and st: "stops ''|)&;'' t"
  then have a: "at b es s (CHR ''('' # body c @ CHR '')'' # redirs_text rs @ t)" by simp
  let ?v = "CHR '')'' # redirs_text rs @ t"
  obtain s1 where s1: "peek b es s ''('' = Inr (True, s1)" "at b es s1 (CHR ''('' # body c @ ?v)"
    by (rule peek_yes [OF a, of "''(''"]) (simp_all add: sh_simps)
  obtain s2 where s2: "peek b es s1 ''('' = Inr (True, s2)" "at b es s2 (CHR ''('' # body c @ ?v)"
    by (rule peek_yes [OF s1(2), of "''(''"]) (simp_all add: sh_simps)
  obtain q eq s3 where s3: "gettoken b es s2 = Inr (CHR ''('', q, eq, s3)" "at b es s3 (body c @ ?v)"
    by (rule gettoken_op_at [OF s2(2)]) (simp_all add: sh_simps)
  obtain cl s4 where s4: "parseline b es s3 = Inr (cl, s4)" "at b es s4 ?v" "command_of (slice b) cl = c"
    by (rule parsesE [OF assms(1) s3(2)]) (simp_all add: stops_Cons sh_simps)
  obtain s5 where s5: "peek b es s4 '')'' = Inr (True, s5)" "at b es s5 ?v"
    by (rule peek_yes [OF s4(2), of "'')''"]) (simp_all add: sh_simps)
  obtain q' eq' s6 where s6: "gettoken b es s5 = Inr (CHR '')'', q', eq', s6)" "at b es s6 (redirs_text rs @ t)"
    by (rule gettoken_op_at [OF s5(2)]) (simp_all add: sh_simps)
  have sp: "sep t" "avoids ''<>'' t" using sep_stops [OF st] stops_avoids [OF st] by (auto simp: symbols_def)
  obtain cmd s7 where "parseredirs b es cl s6 = Inr (cmd, s7)" "at b es s7 t" "command_of (slice b) cmd = wrap c rs"
    using parseredirs_at [OF s6(2) assms(2) sp, of cl] s4(3) by auto
  then show "\<exists>cmd s'. parseexec b es s = Inr (cmd, s') \<and> at b es s' t \<and> command_of (slice b) cmd = wrap c rs"
    using parseexec.simps [of b es s] parseblock.simps [of b es s1] s1 s2 s3 s4 s5 s6 by simp
qed

lemma exec_of_words:
  assumes "\<forall>w \<in> set ws. is_word w" and "length ws < MAXARGS" and "redirs_ok rs"
  shows "parses (parseexec b es) (words_text ws @ redirs_text rs) ''|)&;'' b es (wrap (Exec ws) rs)"
  unfolding parses_def
proof (intro allI impI)
  fix s t assume "at b es s ((words_text ws @ redirs_text rs) @ t)" and st: "stops ''|)&;'' t"
  then have a: "at b es s (words_text ws @ redirs_text rs @ t)" by simp
  have sp: "sep t" "avoids ''<>'' t" "avoids ''('' t" using sep_stops [OF st] stops_avoids [OF st] by (auto simp: symbols_def)
  have rb: "avoids ''('' (redirs_text rs @ t)" using sp(3)
    by (cases rs) (auto simp: avoids_def redir_text_def sh_simps split: if_splits)
  show "\<exists>cmd s'. parseexec b es s = Inr (cmd, s') \<and> at b es s' t \<and> command_of (slice b) cmd = wrap (Exec ws) rs"
  proof (cases ws)
    case Nil
    obtain s1 where s1: "peek b es s ''('' = Inr (False, s1)" "at b es s1 (redirs_text rs @ t)"
      by (rule peek_no [of b es s "redirs_text rs @ t"]) (use a rb Nil in simp_all)
    obtain cmd s2 where s2: "parseredirs b es (EXEC []) s1 = Inr (cmd, s2)" "at b es s2 t" "command_of (slice b) cmd = wrap (Exec []) rs"
      using parseredirs_at [OF s1(2) assms(3) sp(1,2), of "EXEC []"] by auto
    obtain s3 where "parse_args b es 0 cmd s2 = Inr (cmd, s3)" "at b es s3 t" by (rule parse_args_stop [OF s2(2) st])
    then show ?thesis using parseexec.simps [of b es s] s1 s2 Nil by simp
  next
    case (Cons w vs)
    let ?u = "words_text ws @ redirs_text rs @ t"
    have w: "avoids ''('' ?u" "avoids ''<>'' ?u" using Cons assms(1) avoids_words [of w] by (auto simp: symbols_def)
    obtain s1 where s1: "peek b es s ''('' = Inr (False, s1)" "at b es s1 ?u" by (rule peek_no [OF a w(1)])
    obtain s2 where s2: "parseredirs b es (EXEC []) s1 = Inr (EXEC [], s2)" "at b es s2 ?u" by (rule parseredirs_none [OF s1(2) w(2)])
    obtain cmd s3 where "parse_args b es 0 (EXEC []) s2 = Inr (cmd, s3)" "at b es s3 t" "command_of (slice b) cmd = wrap (Exec ws) rs"
      using parse_args_at [OF s2(2) assms(1,3) st, of "[]"] assms(2) Cons by auto
    then show ?thesis using parseexec.simps [of b es s] s1 s2 by simp
  qed
qed


text \<open>Every command of the highest level is a program call or a block inside redirections.\<close>

lemma wrap_append: "wrap c (rs @ [(f, mode, fd)]) = Redir (wrap c rs) f mode fd"
  by (induction c rs rule: wrap.induct) auto

definition unwraps :: "command \<Rightarrow> command \<Rightarrow> (string \<times> int \<times> int) list \<Rightarrow> bool" where
  "unwraps c e rs \<longleftrightarrow> c = wrap e rs \<and> redirs_ok rs \<and> command_ok e \<and> size e \<le> size c \<and> shown 3 c = shown 3 e @ redirs_text rs
    \<and> (level e < 3 \<or> (\<exists>ws. e = Exec ws)) \<and> (level c = 3 \<and> level e < 3 \<longrightarrow> size e < size c)"

lemma unwraps_self: "command_ok c \<Longrightarrow> level c < 3 \<or> (\<exists>ws. c = Exec ws) \<Longrightarrow> unwraps c c []"
  by (auto simp: unwraps_def redirs_ok_def)

lemma unwrap: "command_ok c \<Longrightarrow> \<exists>e rs. unwraps c e rs"
proof (induction c)
  case (Redir c f mode fd)
  then obtain e rs where e: "unwraps c e rs" by auto
  have "unwraps (Redir c f mode fd) e (rs @ [(f, mode, fd)])"
    using e Redir.prems by (auto simp: unwraps_def wrap_append redirs_ok_def redirs_text_def paren_def)
  then show ?case by blast
qed (use unwraps_self in fastforce)+

lemma shown_simps: "shown 3 c = (if level c < 3 then ''('' @ body c @ '')'' else body c)"
  "level c \<noteq> 2 \<Longrightarrow> shown 2 c = shown 3 c" "level c \<noteq> 1 \<Longrightarrow> shown 1 c = shown 2 c" "level c \<noteq> 0 \<Longrightarrow> shown 1 c = body c" "level c = 2 \<Longrightarrow> shown 2 c = body c"
  by (cases c; simp add: paren_def)+

lemma levels: "level c < 4"
  by (cases c) auto

text \<open>All four routines read what they should.\<close>

lemma parses_all:
  assumes "command_ok c"
  shows "parses (parseexec b es) (shown 3 c) ''|)&;'' b es c \<and> parses (parsepipe b es) (shown 2 c) '')&;'' b es c
    \<and> backs_parses b es c \<and> parses (parseline b es) (body c) '')'' b es c"
  using assms
proof (induction c rule: measure_induct_rule [of size])
  case (less c)
  have exec: "parses (parseexec b es) (shown 3 c) ''|)&;'' b es c" if "level c < 3" "parses (parseline b es) (body c) '')'' b es c"
    using exec_of_block [OF that(2), of "[]"] that(1) by (simp add: shown_simps(1) redirs_ok_def)
  have pipe: "parses (parsepipe b es) (shown 2 c) '')&;'' b es c" if "level c \<noteq> 2" "parses (parseexec b es) (shown 3 c) ''|)&;'' b es c"
    using pipe_of_exec [of b es c] that by (simp add: shown_simps(2))
  have backs: "backs_parses b es c" if "level c \<noteq> 1" "parses (parsepipe b es) (shown 2 c) '')&;'' b es c"
    by (rule backs_of_pipe) (simp only: shown_simps(3) [OF that(1)] that(2))
  have line: "parses (parseline b es) (body c) '')'' b es c" if "level c \<noteq> 0" "backs_parses b es c"
    using line_of_backs [OF that(2)] unfolding shown_simps(4) [OF that(1)] .
  consider (seq) l r where "c = Seq l r" | (bg) d where "c = Bg d" | (pip) l r where "c = Pipe l r" | (call) "level c = 3"
    by (cases c) auto
  then show ?case
  proof cases
    case seq
    then have "parses (parseline b es) (body c) '')'' b es c" using line_of_seq less by simp
    then show ?thesis using exec pipe backs seq by simp
  next
    case bg
    then have "backs_parses b es c" using backs_of_bg less by simp
    then show ?thesis using exec pipe line bg by simp
  next
    case pip
    then have "parses (parsepipe b es) (shown 2 c) '')&;'' b es c" using pipe_of_pipe [of b es l r] less by (simp add: paren_def [of 2 "Pipe l r"])
    then show ?thesis using exec backs line pip by simp
  next
    case call
    obtain e rs where e: "c = wrap e rs" "redirs_ok rs" "command_ok e" "shown 3 c = shown 3 e @ redirs_text rs"
      "level e < 3 \<or> (\<exists>ws. e = Exec ws)" "level e < 3 \<longrightarrow> size e < size c" using unwrap [OF less.prems] call by (auto simp: unwraps_def)
    have "parses (parseexec b es) (shown 3 c) ''|)&;'' b es c"
    proof (cases "level e < 3")
      case True
      then have "parses (parseline b es) (body e) '')'' b es e" using less.IH e by blast
      from exec_of_block [OF this e(2)] show ?thesis using e(1,4) True by (simp add: shown_simps(1))
    next
      case False
      then obtain ws where ws: "e = Exec ws" using e(5) by auto
      have "shown 3 c = words_text ws @ redirs_text rs" using e(4) ws by (simp add: paren_def words_text_def)
      then show ?thesis using exec_of_words [of ws rs b es] e(1-3) ws by simp
    qed
    then show ?thesis using pipe backs line call by simp
  qed
qed

lemma NUL_text: "command_ok c \<Longrightarrow> NUL \<notin> set (body c)"
  by (induction c) (auto simp: paren_def redir_text_def is_word_def wordc_def)

lemma terminated_text: "NUL \<notin> set t \<Longrightarrow> terminated (t @ NUL # u) (length t)"
  by (auto simp: terminated_def nth_append in_set_conv_nth)

lemma terminated_unique: "terminated b es \<Longrightarrow> terminated b es' \<Longrightarrow> es = es'"
  by (metis nat_neq_iff terminated_def)

lemma trim_blank: "set w \<subseteq> set whitespace \<Longrightarrow> trim w = []"
  by (auto simp: trim_def strchr_def)

lemma parse_text:
  assumes "command_ok c" and "set w \<subseteq> set whitespace"
  shows "\<exists>cmd b'. parsecmd (body c @ w @ NUL # junk) = Inr (cmd, b') \<and> command_of (cstring b') cmd = c"
proof -
  let ?b = "(body c @ w) @ NUL # junk"
  have "NUL \<notin> set (body c @ w)" using NUL_text [OF assms(1)] assms(2) by (auto simp: whitespace_def)
  then have T: "terminated ?b (length (body c @ w))" by (rule terminated_text)
  obtain es where es: "strlen_from ?b 0 = Inr es" "terminated ?b es" using strlen_from_spec [of 0 ?b] by auto
  have len: "es = length (body c @ w)" by (rule terminated_unique [OF es(2) T])
  have "at ?b es 0 (body c @ w)" using es(2) len by (simp add: at_def rest_def)
  then obtain cmd s where s: "parseline ?b es 0 = Inr (cmd, s)" "at ?b es s w" "command_of (slice ?b) cmd = c"
    by (rule parsesE [OF parses_all [OF assms(1), THEN conjunct2, THEN conjunct2, THEN conjunct2]])
      (simp add: stops_def trim_blank [OF assms(2)])
  have s': "peek ?b es s '''' = Inr (False, es)"
    by (rule peek_at [OF s(2), of "''''"]) (simp add: trim_blank [OF assms(2)])
  have "cmd_ok ?b es cmd" using yields_Inr [OF yields_parseline s(1), of True] es(2) by (simp add: parsed_def)
  then obtain b' where "nulterminate ?b cmd = Inr b'" "command_of (cstring b') cmd = command_of (slice ?b) cmd"
    using nulterminate_ok [of ?b es cmd] es(2) by (auto simp: terminated_def)
  then show ?thesis using es(1) s s' by (simp add: parsecmd_def)
qed

text \<open>C11: Parsing undoes printing. Every command (program calls with fewer than \<open>MAXARGS\<close> words, redirections, pipes,
  sequences, background commands, nested to any depth) has a text, with parentheses where the grammar needs them. When the buffer
  holds the text and a NUL character, \<open>parsecmd\<close> returns a tree whose C strings, read from the buffer it leaves, are the command.\<close>

theorem parsecmd_roundtrip:
  assumes "command_ok c"
  shows "\<exists>cmd b'. parsecmd (body c @ NUL # junk) = Inr (cmd, b') \<and> command_of (cstring b') cmd = c"
  using parse_text [OF assms, of "[]"] by simp

theorem parsecmd_roundtrip_witness:
  "\<exists>cmd b'. parsecmd ('' grep x<in|( make&; echo ok>log)'' @ NUL # ''old'') = Inr (cmd, b')
     \<and> command_of (cstring b') cmd = Pipe (Redir (Exec [''grep'', ''x'']) ''in'' O_RDONLY 0)
          (Seq (Bg (Exec [''make''])) (Redir (Exec [''echo'', ''ok'']) ''log'' (O_WRONLY OR O_CREATE) 1))"
proof -
  let ?c = "Pipe (Redir (Exec [''grep'', ''x'']) ''in'' O_RDONLY 0)
          (Seq (Bg (Exec [''make''])) (Redir (Exec [''echo'', ''ok'']) ''log'' (O_WRONLY OR O_CREATE) 1))"
  have t: "body ?c = '' grep x<in|( make&; echo ok>log)''" by (simp add: paren_def redir_text_def)
  have "command_ok ?c"
    by (simp add: MAXARGS_def is_word_def wordc_def strchr_def whitespace_def symbols_def redir_ok_def)
  from parsecmd_roundtrip [OF this, of "''old''"] show ?thesis unfolding t .
qed

end
