(* ===== verification/Xv6_Sh_Run.thy ===== *)
theory Xv6_Sh_Run
  imports Xv6_Sh
begin

text \<open>
  The shell of xv6, \<open>hw09/unnas-hw09/xv6/sh.c\<close>: running commands, and the main loop.

  What the shell and its children do is a tree of actions. Every process has a table of file descriptors; \<open>open\<close>,
  \<open>dup\<close> and \<open>pipe\<close> take the lowest free one, as \<open>fdalloc\<close> of the kernel does. Whether a system call succeeds is a
  parameter, with an answer of its own for every call of a run: the calls of \<open>fork\<close>, \<open>pipe\<close> and \<open>exec\<close> are told
  apart by their place in the command, those of \<open>open\<close> by the place and the command that is still to run under the
  redirection, those of \<open>chdir\<close> by the number of the line. A program that is started, and a wait for a child, are
  recorded with the descriptors that are open at that moment. The input is the sequence of characters that the shell's
  own reads return; its children have descriptor 0 too, and what they read from it is not part of this sequence.
\<close>

section \<open>System calls\<close>

type_synonym place = "nat list"

datatype fobj = Console | File string int | Pipe_in place | Pipe_out place | Inherited nat

type_synonym fds = "nat \<Rightarrow> fobj option"

record answers =
  fork_ok :: "place \<Rightarrow> bool"
  pipe_ok :: "place \<Rightarrow> bool"
  console_ok :: "nat \<Rightarrow> bool"
  open_ok :: "place \<Rightarrow> command \<Rightarrow> string \<Rightarrow> int \<Rightarrow> bool"
  exec_ok :: "place \<Rightarrow> string \<Rightarrow> bool"
  chdir_ok :: "nat \<Rightarrow> string \<Rightarrow> bool"

datatype act =
    Run "string list" fds
  | Child "act list"
  | Wait fds
  | Message string
  | Chdir string
  | Exit

definition NOFILE :: nat where "NOFILE = 16"

definition fdalloc :: "fds \<Rightarrow> nat option" where
  "fdalloc fds = List.find (\<lambda>n. fds n = None) [0..<NOFILE]"

definition close_fd :: "fds \<Rightarrow> nat \<Rightarrow> fds" where
  "close_fd fds n = fds(n := None)"

definition open_file :: "bool \<Rightarrow> fds \<Rightarrow> string \<Rightarrow> int \<Rightarrow> (nat \<times> fds) option" where
  "open_file ok fds f mode =
     (if ok then map_option (\<lambda>n. (n, fds(n \<mapsto> File f mode))) (fdalloc fds) else None)"

definition dup :: "fds \<Rightarrow> nat \<Rightarrow> fds" where
  "dup fds n = (case (fds n, fdalloc fds) of (Some f, Some m) \<Rightarrow> fds(m \<mapsto> f) | _ \<Rightarrow> fds)"

definition pipe :: "answers \<Rightarrow> place \<Rightarrow> fds \<Rightarrow> (nat \<times> nat \<times> fds) option" where
  "pipe k p fds =
     (if \<not> pipe_ok k p then None
      else case fdalloc fds of
        None \<Rightarrow> None
      | Some p0 \<Rightarrow>
          (case fdalloc (fds(p0 \<mapsto> Pipe_in p)) of
             None \<Rightarrow> None
           | Some p1 \<Rightarrow> Some (p0, p1, fds(p0 \<mapsto> Pipe_in p, p1 \<mapsto> Pipe_out p))))"

section \<open>sh.c\<close>

definition sh_panic :: "string \<Rightarrow> act list" where
  "sh_panic m = [Message m, Exit]"

fun runcmd :: "answers \<Rightarrow> place \<Rightarrow> fds \<Rightarrow> command \<Rightarrow> act list" where
  "runcmd k p fds (Exec args) =
     (case args of
        [] \<Rightarrow> [Exit]
      | w # _ \<Rightarrow> if exec_ok k p w then [Run args fds] else [Message (''exec '' @ w @ '' failed''), Exit])"
| "runcmd k p fds (Redir c f mode fd) =
     (case open_file (open_ok k p c f mode) (close_fd fds (nat fd)) f mode of
        None \<Rightarrow> [Message (''open '' @ f @ '' failed''), Exit]
      | Some (_, fds) \<Rightarrow> runcmd k p fds c)"
| "runcmd k p fds (Seq l r) =
     (if fork_ok k (p @ [0]) then Child (runcmd k (p @ [0]) fds l) # Wait fds # runcmd k (p @ [1]) fds r
      else sh_panic ''fork'')"
| "runcmd k p fds (Pipe l r) =
     (case pipe k p fds of
        None \<Rightarrow> sh_panic ''pipe''
      | Some (p0, p1, fds) \<Rightarrow>
          if \<not> fork_ok k (p @ [0]) then sh_panic ''fork''
          else
            Child (runcmd k (p @ [0]) (close_fd (close_fd (dup (close_fd fds 1) p1) p0) p1) l)
            # (if \<not> fork_ok k (p @ [1]) then sh_panic ''fork''
               else
                 let fds' = close_fd (close_fd fds p0) p1
                 in [Child (runcmd k (p @ [1]) (close_fd (close_fd (dup (close_fd fds 0) p0) p0) p1) r),
                     Wait fds', Wait fds', Exit]))"
| "runcmd k p fds (Bg c) =
     (if fork_ok k (p @ [0]) then [Child (runcmd k (p @ [0]) fds c), Exit] else sh_panic ''fork'')"

fun gets :: "nat \<Rightarrow> string \<Rightarrow> string \<times> string" where
  "gets (Suc n) (c # inp) =
     (if c = CHR 0x0A \<or> c = CHR 0x0D then ([c], inp) else case gets n inp of (line, inp) \<Rightarrow> (c # line, inp))"
| "gets _ inp = ([], inp)"

definition getcmd :: "nat \<Rightarrow> string \<Rightarrow> bool \<times> buffer \<times> string" where
  "getcmd nbuf inp =
     (case gets (nbuf - 1) inp of (line, inp) \<Rightarrow>
        let buf = line @ replicate (nbuf - length line) NUL
        in (buf ! 0 \<noteq> NUL, buf, inp))"

definition cd_arg :: "buffer \<Rightarrow> string" where
  "cd_arg buf =
     (let buf = buf[length (takeWhile (\<lambda>c. c \<noteq> NUL) buf) - 1 := NUL]
      in cstring buf (3, 0))"

definition run_line :: "answers \<Rightarrow> place \<Rightarrow> fds \<Rightarrow> buffer \<Rightarrow> act list" where
  "run_line k p fds buf =
     (case parsecmd buf of
        Inl (Panic m) \<Rightarrow> sh_panic m
      | Inl Fault \<Rightarrow> []
      | Inr (cmd, buf) \<Rightarrow> runcmd k p fds (command_of (cstring buf) cmd))"

lemma gets_shorter: "gets n inp = (line, inp') \<Longrightarrow> length inp = length line + length inp' \<and> length line \<le> n"
  by (induction n inp arbitrary: line inp' rule: gets.induct) (auto split: if_splits prod.splits)

lemma getcmd_shorter: "getcmd nbuf inp = (True, buf, inp') \<Longrightarrow> 1 < nbuf \<Longrightarrow> length inp' < length inp"
  using gets_shorter [of "nbuf - 1" inp] by (auto simp: getcmd_def Let_def nth_append split: prod.splits if_splits)

function main_loop :: "answers \<Rightarrow> nat \<Rightarrow> fds \<Rightarrow> string \<Rightarrow> act list" where
  "main_loop k n fds inp =
     (case getcmd 100 inp of (again, buf, inp') \<Rightarrow>
        if \<not> again then [Exit]
        else if buf ! 0 = CHR ''c'' \<and> buf ! 1 = CHR ''d'' \<and> buf ! 2 = CHR '' '' then
          Chdir (cd_arg buf)
          # (if chdir_ok k n (cd_arg buf) then [] else [Message (''cannot cd '' @ cd_arg buf)]) @ main_loop k (Suc n) fds inp'
        else if fork_ok k [n] then Child (run_line k [n] fds buf) # Wait fds # main_loop k (Suc n) fds inp'
        else sh_panic ''fork'')"
  by pat_completeness auto
termination by (relation "measure (\<lambda>(k, n, fds, inp). length inp)") (auto dest: getcmd_shorter [OF sym])

lemma fdalloc_Some: "fdalloc fds = Some n \<Longrightarrow> fds n = None \<and> n < NOFILE \<and> (\<forall>m < n. fds m \<noteq> None)"
  by (auto simp: fdalloc_def find_Some_iff)

lemma fdalloc_first: "fds n = None \<Longrightarrow> n < NOFILE \<Longrightarrow> (\<And>m. m < n \<Longrightarrow> fds m \<noteq> None) \<Longrightarrow> fdalloc fds = Some n"
  by (auto simp: fdalloc_def find_Some_iff)

definition free_fds :: "fds \<Rightarrow> nat set" where
  "free_fds fds = {n. n < NOFILE \<and> fds n = None}"

lemma finite_free [simp]: "finite (free_fds fds)"
  by (simp add: free_fds_def)

function open_consoles :: "answers \<Rightarrow> nat \<Rightarrow> fds \<Rightarrow> fds" where
  "open_consoles k i fds =
     (case open_file (console_ok k i) fds ''console'' O_RDWR of
        None \<Rightarrow> fds
      | Some (n, fds') \<Rightarrow> if n \<ge> 3 then close_fd fds' n else open_consoles k (Suc i) fds')"
  by pat_completeness auto
termination
proof (relation "measure (\<lambda>(k, i, fds). card (free_fds fds))", goal_cases)
  case (2 k i fds x n fds')
  then have "fdalloc fds = Some n" "fds' = fds(n \<mapsto> File ''console'' O_RDWR)"
    by (auto simp: open_file_def split: if_splits)
  then have "free_fds fds' \<subset> free_fds fds" using fdalloc_Some [of fds n] by (auto simp: free_fds_def)
  then show ?case by (simp add: psubset_card_mono)
qed simp

declare main_loop.simps [simp del] open_consoles.simps [simp del]

definition sh_main :: "answers \<Rightarrow> fds \<Rightarrow> string \<Rightarrow> act list" where
  "sh_main k fds inp = main_loop k 0 (open_consoles k 0 fds) inp"

section \<open>Descriptors\<close>

definition std :: "fds \<Rightarrow> bool" where
  "std fds \<longleftrightarrow> fds 0 \<noteq> None \<and> fds 1 \<noteq> None \<and> fds 2 \<noteq> None"

lemma reopen_0: "fdalloc (close_fd fds 0) = Some 0"
  by (rule fdalloc_first) (auto simp: close_fd_def NOFILE_def)

lemma reopen_1: "fds 0 \<noteq> None \<Longrightarrow> fdalloc (close_fd fds 1) = Some 1"
  by (rule fdalloc_first) (auto simp: close_fd_def NOFILE_def less_Suc_eq)

lemma open_redirected:
  assumes "redir_ok mode fd" and "fds 0 \<noteq> None" and "open_file ok (close_fd fds (nat fd)) f mode = Some (n, fds')"
  shows "fds' = fds(nat fd \<mapsto> File f mode)"
  using assms reopen_0 [of fds] reopen_1 [of fds]
  by (auto simp: open_file_def redir_ok_def close_fd_def split: if_splits)

lemma pipe_ends:
  assumes "pipe k p fds = Some (p0, p1, fds')" and "std fds"
  shows "fds' = fds(p0 \<mapsto> Pipe_in p, p1 \<mapsto> Pipe_out p)" and "p0 \<noteq> p1" and "fds p0 = None" and "fds p1 = None" and "2 < p0" and "2 < p1"
proof -
  from assms(1) have a: "fdalloc fds = Some p0" "fdalloc (fds(p0 \<mapsto> Pipe_in p)) = Some p1" "fds' = fds(p0 \<mapsto> Pipe_in p, p1 \<mapsto> Pipe_out p)"
    by (auto simp: pipe_def split: if_splits option.splits)
  show "fds' = fds(p0 \<mapsto> Pipe_in p, p1 \<mapsto> Pipe_out p)" by (rule a(3))
  show ne: "p0 \<noteq> p1" "fds p0 = None" "fds p1 = None" using fdalloc_Some [OF a(1)] fdalloc_Some [OF a(2)] by (auto split: if_splits)
  have "2 < n" if "fds n = None" for n
    using assms(2) that by (cases n rule: nat.exhaust; cases "n = 1"; cases "n = 2") (auto simp: std_def)
  then show "2 < p0" "2 < p1" using ne by auto
qed

text \<open>The descriptors of the two sides of a pipe, and of the shell that waits for them.\<close>

lemma pipe_sides:
  assumes "pipe k p fds = Some (p0, p1, fds')" and "std fds"
  shows "close_fd (close_fd (dup (close_fd fds' 1) p1) p0) p1 = fds(1 \<mapsto> Pipe_out p)"
    and "close_fd (close_fd (dup (close_fd fds' 0) p0) p0) p1 = fds(0 \<mapsto> Pipe_in p)"
    and "close_fd (close_fd fds' p0) p1 = fds"
proof -
  note e = pipe_ends [OF assms]
  have "fdalloc (close_fd fds' 1) = Some 1" "fdalloc (close_fd fds' 0) = Some 0"
    using reopen_1 [of fds'] reopen_0 [of fds'] assms(2) e by (auto simp: std_def)
  moreover have "close_fd fds' 1 p1 = Some (Pipe_out p)" "close_fd fds' 0 p0 = Some (Pipe_in p)" using e by (auto simp: close_fd_def)
  ultimately have d: "dup (close_fd fds' 1) p1 = fds'(1 \<mapsto> Pipe_out p)" "dup (close_fd fds' 0) p0 = fds'(0 \<mapsto> Pipe_in p)"
    by (simp_all add: dup_def) (simp_all add: close_fd_def)
  show "close_fd (close_fd (dup (close_fd fds' 1) p1) p0) p1 = fds(1 \<mapsto> Pipe_out p)"
    "close_fd (close_fd (dup (close_fd fds' 0) p0) p0) p1 = fds(0 \<mapsto> Pipe_in p)"
    unfolding d using e by (auto simp: close_fd_def fun_eq_iff)
  show "close_fd (close_fd fds' p0) p1 = fds" using e by (auto simp: close_fd_def fun_eq_iff)
qed

text \<open>The descriptor tables of the programs that are started and of the waits, and the programs in the order of
  the actions.\<close>

fun tables :: "act \<Rightarrow> fds list" where
  "tables (Run args fds) = [fds]"
| "tables (Wait fds) = [fds]"
| "tables (Child as) = concat (map tables as)"
| "tables a = []"

fun programs :: "act \<Rightarrow> (string list \<times> fds) list" where
  "programs (Run args fds) = [(args, fds)]"
| "programs (Child as) = concat (map programs as)"
| "programs a = []"

abbreviation all_tables :: "act list \<Rightarrow> fds list" where
  "all_tables as \<equiv> concat (map tables as)"

abbreviation all_programs :: "act list \<Rightarrow> (string list \<times> fds) list" where
  "all_programs as \<equiv> concat (map programs as)"

lemma tables_panic [simp]: "all_tables (sh_panic m) = []" "all_programs (sh_panic m) = []"
  by (simp_all add: sh_panic_def)

lemma std_upd: "std fds \<Longrightarrow> std (fds(n \<mapsto> x))"
  by (simp add: std_def)

lemma dom_upd: "fds n \<noteq> None \<Longrightarrow> dom (fds(n \<mapsto> x)) = dom fds"
  by auto

lemma redir_dom: "redir_ok mode fd \<Longrightarrow> std fds \<Longrightarrow> fds (nat fd) \<noteq> None"
  by (auto simp: redir_ok_def std_def)

lemma runcmd_tables:
  assumes "std fds" and "command_ok c" and "t \<in> set (all_tables (runcmd k p fds c))"
  shows "dom t = dom fds"
  using assms
proof (induction k p fds c rule: runcmd.induct)
  case (2 k p fds c f mode fd)
  obtain n fds' where o: "open_file (open_ok k p c f mode) (close_fd fds (nat fd)) f mode = Some (n, fds')"
    using "2.prems"(3) by (auto split: option.splits)
  have f: "fds' = fds(nat fd \<mapsto> File f mode)" using open_redirected [OF _ _ o] "2.prems"(1,2) by (simp add: std_def)
  have "std fds'" using std_upd [OF "2.prems"(1)] f by simp
  then have "dom t = dom fds'" by (rule "2.IH" [OF o refl]) (use "2.prems" o in simp_all)
  then show ?case using f redir_dom "2.prems"(1,2) by (auto simp: dom_upd)
next
  case (4 k p fds l r)
  obtain p0 p1 fds' where o: "pipe k p fds = Some (p0, p1, fds')" and l: "fork_ok k (p @ [0])"
    using "4.prems"(3) by (auto simp: sh_panic_def split: option.splits if_splits)
  note sides = pipe_sides [OF o "4.prems"(1)]
  have st: "std (fds(1 \<mapsto> Pipe_out p))" "std (fds(0 \<mapsto> Pipe_in p))" using "4.prems"(1) by (simp_all add: std_upd)
  have dm: "dom (fds(1 \<mapsto> Pipe_out p)) = dom fds" "dom (fds(0 \<mapsto> Pipe_in p)) = dom fds"
    using "4.prems"(1) by (auto simp: std_def dom_upd)
  consider "t \<in> set (all_tables (runcmd k (p @ [0]) (fds(1 \<mapsto> Pipe_out p)) l))" | "t = fds"
    | "fork_ok k (p @ [1])" "t \<in> set (all_tables (runcmd k (p @ [1]) (fds(0 \<mapsto> Pipe_in p)) r))"
    using "4.prems"(3) o l sides by (auto simp: Let_def sh_panic_def split: if_splits)
  then show ?case
  proof cases
    case 1
    have "dom t = dom (fds(1 \<mapsto> Pipe_out p))"
      by (rule "4.IH"(1) [OF o refl refl, unfolded sides, OF _ st(1) _ 1]) (use "4.prems"(2) l in simp_all)
    then show ?thesis using dm by simp
  next
    case 3
    have "dom t = dom (fds(0 \<mapsto> Pipe_in p))"
      by (rule "4.IH"(2) [OF o refl refl, unfolded sides, OF _ _ refl st(2) _ 3(2)]) (use "4.prems"(2) 3(1) l in simp_all)
    then show ?thesis using dm by simp
  qed simp
qed (auto simp: sh_panic_def split: if_splits list.splits)


lemma open_consoles_dom:
  assumes "\<forall>i. console_ok k i"
  shows "dom (open_consoles k i fds) = dom fds \<union> {0, 1, 2}"
  using assms
proof (induction k i fds rule: open_consoles.induct)
  case (1 k i fds)
  show ?case
  proof (cases "fdalloc fds")
    case None
    then have "{0, 1, 2} \<subseteq> dom fds" by (auto simp: fdalloc_def find_None_iff NOFILE_def)
    then show ?thesis using None open_consoles.simps [of k i fds] by (auto simp: open_file_def)
  next
    case (Some n)
    note n = fdalloc_Some [OF Some]
    have o: "open_file (console_ok k i) fds ''console'' O_RDWR = Some (n, fds(n \<mapsto> File ''console'' O_RDWR))"
      using Some "1.prems" by (simp add: open_file_def)
    show ?thesis
    proof (cases "3 \<le> n")
      case True
      then have "{0, 1, 2} \<subseteq> dom fds" using n by (auto simp: dom_def)
      moreover have "close_fd (fds(n \<mapsto> File ''console'' O_RDWR)) n = fds" using n by (auto simp: close_fd_def)
      ultimately show ?thesis using True o open_consoles.simps [of k i fds] by auto
    next
      case False
      then have "n \<in> {0, 1, 2}" by auto
      moreover have "dom (open_consoles k (Suc i) (fds(n \<mapsto> File ''console'' O_RDWR))) = dom (fds(n \<mapsto> File ''console'' O_RDWR)) \<union> {0, 1, 2}"
        by (rule "1.IH" [OF o refl False "1.prems"])
      ultimately show ?thesis using False o open_consoles.simps [of k i fds] by auto
    qed
  qed
qed

lemma std_dom: "std fds \<longleftrightarrow> {0, 1, 2} \<subseteq> dom fds"
  by (auto simp: std_def)

lemma getcmd_NUL: "getcmd 100 inp = (r, buf, inp') \<Longrightarrow> NUL \<in> set buf"
  using gets_shorter [of 99 inp] by (auto simp: getcmd_def Let_def split: prod.splits)

lemma run_line_tables:
  assumes "std fds" and "NUL \<in> set buf" and "t \<in> set (all_tables (run_line k p fds buf))"
  shows "dom t = dom fds"
proof -
  have p: "case parsecmd buf of Inl e \<Rightarrow> e \<noteq> Fault | Inr (cmd, b') \<Rightarrow> command_ok (command_of (cstring b') cmd)"
    using parse_result [OF assms(2)] by (auto split: sum.splits)
  show ?thesis
  proof (cases "parsecmd buf")
    case (Inl e)
    then show ?thesis using p assms(3) by (cases e) (auto simp: run_line_def sh_panic_def)
  next
    case (Inr x)
    then show ?thesis using p assms(1,3) runcmd_tables [of fds] by (cases x) (auto simp: run_line_def)
  qed
qed

lemma main_loop_tables:
  assumes "std fds" and "t \<in> set (all_tables (main_loop k n fds inp))"
  shows "dom t = dom fds"
  using assms
proof (induction k n fds inp rule: main_loop.induct)
  case (1 k n fds inp)
  obtain r buf inp' where g: "getcmd 100 inp = (r, buf, inp')" by (cases "getcmd 100 inp")
  have buf: "NUL \<in> set buf" by (rule getcmd_NUL [OF g])
  let ?cd = "buf ! 0 = CHR ''c'' \<and> buf ! 1 = CHR ''d'' \<and> buf ! 2 = CHR '' ''"
  consider "\<not> r" | "r" "?cd" "t \<in> set (all_tables (main_loop k (Suc n) fds inp'))"
    | "r" "\<not> ?cd" "fork_ok k [n]" "t \<in> set (all_tables (run_line k [n] fds buf)) \<or> t = fds \<or> t \<in> set (all_tables (main_loop k (Suc n) fds inp'))"
    using "1.prems"(2) main_loop.simps [of k n fds inp] g by (auto simp: sh_panic_def split: if_splits)
  then show ?case
  proof cases
    case 1
    then show ?thesis using "1.prems"(2) main_loop.simps [of k n fds inp] g by simp
  next
    case 2
    then show ?thesis using "1.IH"(1) [OF g [symmetric] refl] "1.prems"(1) by simp
  next
    case 3
    then show ?thesis using "1.IH"(2) [OF g [symmetric] refl] "1.prems"(1) run_line_tables [OF "1.prems"(1) buf] by blast
  qed
qed

text \<open>C14: The shell leaks no descriptor. Provided the console can be opened when the shell starts, so that the three
  standard descriptors are open, whatever the input is and whichever other system calls fail, every program that a command line starts,
  and every process of the shell that waits for a child, has open exactly the descriptors that the shell was
  started with and the three standard ones: both ends of every pipe are closed but where they replace standard input or
  output, so the reader of a pipe sees its end once the writer is gone.\<close>

theorem shell_no_leak:
  assumes "\<forall>i. console_ok k i"
  shows "\<forall>t \<in> set (all_tables (sh_main k fds inp)). dom t = dom fds \<union> {0, 1, 2}"
proof
  fix t assume t: "t \<in> set (all_tables (sh_main k fds inp))"
  have d: "dom (open_consoles k 0 fds) = dom fds \<union> {0, 1, 2}" by (rule open_consoles_dom [OF assms])
  then have "std (open_consoles k 0 fds)" by (simp add: std_dom)
  then show "dom t = dom fds \<union> {0, 1, 2}" using main_loop_tables t d unfolding sh_main_def by metis
qed

definition sh_fds :: fds where
  "sh_fds = [0 \<mapsto> Inherited 0, 5 \<mapsto> Inherited 5]"

definition sh_answers :: answers where
  "sh_answers = \<lparr>fork_ok = \<lambda>p. p \<noteq> [0, 1], pipe_ok = \<lambda>p. True, console_ok = \<lambda>i. True, open_ok = \<lambda>p c f mode. True,
     exec_ok = \<lambda>p w. True, chdir_ok = \<lambda>n d. True\<rparr>"

theorem shell_no_leak_witness:
  "dom ` set (all_tables (sh_main sh_answers sh_fds (''a|b'' @ [CHR 0x0A]))) = {{0, 1, 2, 5}}"
proof -
  have k: "\<forall>i. console_ok sh_answers i" "fork_ok sh_answers [0]" by (simp_all add: sh_answers_def)
  have "gets 99 (''a|b'' @ [CHR 0x0A]) = (''a|b'' @ [CHR 0x0A], [])" by code_simp
  then have g: "getcmd 100 (''a|b'' @ [CHR 0x0A]) = (True, (''a|b'' @ [CHR 0x0A]) @ replicate 96 NUL, [])"
    by (simp add: getcmd_def Let_def)
  have t: "open_consoles sh_answers 0 sh_fds \<in> set (all_tables (sh_main sh_answers sh_fds (''a|b'' @ [CHR 0x0A])))"
    unfolding sh_main_def main_loop.simps [of _ _ _ "''a|b'' @ [CHR 0x0A]"] g by (simp add: k)
  have d: "dom sh_fds \<union> {0, 1, 2} = {0, 1, 2, 5}" by (auto simp: sh_fds_def)
  have image: "dom ` T = {D}" if "\<forall>t \<in> T. dom t = D" "x \<in> T" for T D and x :: fds using that by auto
  show ?thesis by (rule image [OF shell_no_leak [OF k(1), of sh_fds, unfolded d] t])
qed

section \<open>Wiring\<close>

text \<open>What a command means: the programs in order, with their standard input and output.\<close>

fun wiring :: "place \<Rightarrow> fobj option \<Rightarrow> fobj option \<Rightarrow> command \<Rightarrow> (string list \<times> fobj option \<times> fobj option) list" where
  "wiring p i out (Exec args) = (if args = [] then [] else [(args, i, out)])"
| "wiring p i out (Redir c f mode fd) =
     (if fd = 0 then wiring p (Some (File f mode)) out c else wiring p i (Some (File f mode)) c)"
| "wiring p i out (Pipe l r) = wiring (p @ [0]) i (Some (Pipe_out p)) l @ wiring (p @ [1]) (Some (Pipe_in p)) out r"
| "wiring p i out (Seq l r) = wiring (p @ [0]) i out l @ wiring (p @ [1]) i out r"
| "wiring p i out (Bg c) = wiring (p @ [0]) i out c"

definition all_succeed :: "answers \<Rightarrow> bool" where
  "all_succeed k \<longleftrightarrow> (\<forall>p. fork_ok k p \<and> pipe_ok k p) \<and> (\<forall>p c f mode. open_ok k p c f mode) \<and> (\<forall>p w. exec_ok k p w)"

definition started :: "fds \<Rightarrow> string list \<times> fobj option \<times> fobj option \<Rightarrow> string list \<times> fds" where
  "started fds = (\<lambda>(args, i, out). (args, fds(0 := i, 1 := out)))"

lemma started_upd: "started (fds(0 := x)) = started fds" "started (fds(1 := x)) = started fds"
  by (auto simp: started_def fun_eq_iff)

lemma pipe_succeeds:
  assumes "pipe_ok k p" and "2 \<le> card (free_fds fds)"
  obtains p0 p1 fds' where "pipe k p fds = Some (p0, p1, fds')"
proof -
  have "free_fds fds \<noteq> {}" using assms(2) by auto
  then obtain p0 where p0: "fdalloc fds = Some p0"
    by (cases "fdalloc fds") (auto simp: fdalloc_def find_None_iff free_fds_def)
  have "free_fds (fds(p0 \<mapsto> Pipe_in p)) = free_fds fds - {p0}" by (auto simp: free_fds_def)
  then have "free_fds (fds(p0 \<mapsto> Pipe_in p)) \<noteq> {}"
    using assms(2) card_mono [of "{p0}" "free_fds fds"] by auto
  then obtain p1 where "fdalloc (fds(p0 \<mapsto> Pipe_in p)) = Some p1"
    by (cases "fdalloc (fds(p0 \<mapsto> Pipe_in p))") (auto simp: fdalloc_def find_None_iff free_fds_def)
  then show thesis using that assms(1) p0 by (simp add: pipe_def)
qed

lemma free_upd: "fds n \<noteq> None \<Longrightarrow> free_fds (fds(n \<mapsto> x)) = free_fds fds"
  by (auto simp: free_fds_def)

lemma runcmd_programs:
  assumes "all_succeed k" and "std fds" and "2 \<le> card (free_fds fds)" and "command_ok c"
  shows "all_programs (runcmd k p fds c) = map (started fds) (wiring p (fds 0) (fds 1) c)"
  using assms
proof (induction c arbitrary: p fds)
  case (Exec args)
  have "fds(0 := fds 0, 1 := fds 1) = fds" by simp
  then show ?case using Exec by (cases args) (auto simp: all_succeed_def started_def)
next
  case (Redir c f mode fd)
  have r: "redir_ok mode fd" "command_ok c" "open_ok k p c f mode" using Redir.prems by (auto simp: all_succeed_def)
  have "fdalloc (close_fd fds (nat fd)) = Some (nat fd)"
    using r(1) reopen_0 [of fds] reopen_1 [of fds] Redir.prems(2) by (auto simp: redir_ok_def std_def)
  then have o: "open_file (open_ok k p c f mode) (close_fd fds (nat fd)) f mode = Some (nat fd, fds(nat fd \<mapsto> File f mode))"
    using r(3) by (simp add: open_file_def close_fd_def)
  have u: "std (fds(nat fd \<mapsto> File f mode))" "2 \<le> card (free_fds (fds(nat fd \<mapsto> File f mode)))"
    using std_upd [OF Redir.prems(2)] free_upd [of fds "nat fd", OF redir_dom [OF r(1) Redir.prems(2)]] Redir.prems(3) by simp_all
  have "all_programs (runcmd k p fds (Redir c f mode fd)) = all_programs (runcmd k p (fds(nat fd \<mapsto> File f mode)) c)"
    using o by simp
  also have "\<dots> = map (started (fds(nat fd \<mapsto> File f mode)))
      (wiring p ((fds(nat fd \<mapsto> File f mode)) 0) ((fds(nat fd \<mapsto> File f mode)) 1) c)"
    by (rule Redir.IH [OF Redir.prems(1) u r(2)])
  finally have *: "all_programs (runcmd k p fds (Redir c f mode fd)) = map (started (fds(nat fd \<mapsto> File f mode)))
      (wiring p ((fds(nat fd \<mapsto> File f mode)) 0) ((fds(nat fd \<mapsto> File f mode)) 1) c)" .
  consider "fd = 0" | "fd = 1" using r(1) by (auto simp: redir_ok_def)
  then show ?case unfolding * by cases (simp_all add: started_upd started_upd(2) [unfolded One_nat_def])
next
  case (Pipe l r)
  obtain p0 p1 fds' where o: "pipe k p fds = Some (p0, p1, fds')"
    using pipe_succeeds [of k p fds] Pipe.prems(1,3) by (auto simp: all_succeed_def)
  note sides = pipe_sides [OF o Pipe.prems(2)]
  have f: "fork_ok k q" for q using Pipe.prems(1) by (simp add: all_succeed_def)
  have d: "fds 0 \<noteq> None" "fds 1 \<noteq> None" using Pipe.prems(2) by (simp_all add: std_def)
  have u: "2 \<le> card (free_fds (fds(1 \<mapsto> Pipe_out p)))" "2 \<le> card (free_fds (fds(0 \<mapsto> Pipe_in p)))"
    using free_upd [of fds 1, OF d(2)] free_upd [of fds 0, OF d(1)] Pipe.prems(3) by simp_all
  have cl: "command_ok l" "command_ok r" using Pipe.prems(4) by simp_all
  note L = Pipe.IH(1) [OF Pipe.prems(1) std_upd [OF Pipe.prems(2)] u(1) cl(1), of "p @ [0]"]
  note R = Pipe.IH(2) [OF Pipe.prems(1) std_upd [OF Pipe.prems(2)] u(2) cl(2), of "p @ [1]"]
  have "all_programs (runcmd k p fds (Pipe l r))
    = all_programs (runcmd k (p @ [0]) (fds(1 \<mapsto> Pipe_out p)) l) @ all_programs (runcmd k (p @ [1]) (fds(0 \<mapsto> Pipe_in p)) r)"
    using o f by (simp add: sides Let_def del: One_nat_def)
  then show ?case unfolding L R started_upd by simp
qed (auto simp: all_succeed_def)


lemma gets_line:
  assumes "\<forall>c \<in> set line. c \<noteq> CHR 0x0A \<and> c \<noteq> CHR 0x0D" and "length line < n"
  shows "gets n (line @ CHR 0x0A # inp) = (line @ [CHR 0x0A], inp)"
  using assms
proof (induction line arbitrary: n)
  case Nil
  then show ?case by (cases n) auto
next
  case (Cons c line)
  then show ?case by (cases n) auto
qed

lemma text_no_newline: "command_ok c \<Longrightarrow> \<forall>x \<in> set (body c). x \<noteq> CHR 0x0A \<and> x \<noteq> CHR 0x0D \<and> x \<noteq> NUL"
  by (induction c) (auto simp: paren_def redir_text_def is_word_def wordc_def strchr_def whitespace_def)

lemma sep_append: "sep t \<Longrightarrow> t \<noteq> [] \<or> sep u \<Longrightarrow> sep (t @ u)"
  by (cases t) (auto simp: sep_def)

lemma sep_op: "strchr symbols c \<Longrightarrow> sep (c # t)"
  by (simp add: sep_def wordc_def)

lemma sep_text: "sep (body c)"
proof (induction c)
  case (Exec args)
  then show ?case by (cases args) (auto simp: sep_def wordc_def)
qed (auto simp: paren_def redir_text_def symbols_def strchr_def intro!: sep_append sep_op)

text \<open>C12: The shell does what the command says. When the shell reads a line with the text of a command (shorter than the buffer), and no system call
  fails, the shell parses it and starts exactly the programs of the command, in order, each with its own arguments,
  with the standard input and output that the redirections and pipes around it give, and with all other descriptors as
  the shell has them.\<close>

theorem shell_runs_command:
  assumes "command_ok c" and "length (body c) < 99" and "all_succeed k" and "std fds" and "2 \<le> card (free_fds fds)"
  shows "all_programs (main_loop k n fds (body c @ CHR 0x0A # inp))
    = map (started fds) (wiring [n] (fds 0) (fds 1) c) @ all_programs (main_loop k (Suc n) fds inp)"
proof -
  let ?line = "body c @ [CHR 0x0A]"
  let ?buf = "?line @ replicate (100 - length ?line) NUL"
  have "gets 99 (body c @ CHR 0x0A # inp) = (?line, inp)"
    using gets_line [of "body c" 99 inp] text_no_newline [OF assms(1)] assms(2) by auto
  moreover have "?buf ! 0 \<noteq> NUL" using text_no_newline [OF assms(1)] by (cases "body c") auto
  ultimately have g: "getcmd 100 (body c @ CHR 0x0A # inp) = (True, ?buf, inp)" by (simp add: getcmd_def Let_def)
  have "\<not> (?buf ! 0 = CHR ''c'' \<and> ?buf ! 1 = CHR ''d'' \<and> ?buf ! 2 = CHR '' '')"
    using sep_text [of c] by (cases "body c") (auto simp: sep_def wordc_def strchr_def whitespace_def symbols_def)
  then have m: "main_loop k n fds (body c @ CHR 0x0A # inp) = Child (run_line k [n] fds ?buf) # Wait fds # main_loop k (Suc n) fds inp"
    using main_loop.simps [of k n fds "body c @ CHR 0x0A # inp"] g assms(3) by (simp add: all_succeed_def)
  obtain j where "100 - length ?line = Suc j" using assms(2) by (cases "100 - length ?line") auto
  then have "?buf = body c @ [CHR 0x0A] @ NUL # replicate j NUL" by simp
  then obtain cmd b' where "parsecmd ?buf = Inr (cmd, b')" "command_of (cstring b') cmd = c"
    using parse_text [OF assms(1), of "[CHR 0x0A]" "replicate j NUL"] by (auto simp: whitespace_def)
  then have "run_line k [n] fds ?buf = runcmd k [n] fds c" by (simp add: run_line_def)
  then show ?thesis using m runcmd_programs [OF assms(3-5,1), of "[n]"] by simp
qed

definition all_ok :: answers where
  "all_ok = \<lparr>fork_ok = \<lambda>p. True, pipe_ok = \<lambda>p. True, console_ok = \<lambda>i. True, open_ok = \<lambda>p c f mode. True,
     exec_ok = \<lambda>p w. True, chdir_ok = \<lambda>n d. True\<rparr>"

definition console_fds :: fds where
  "console_fds = [0 \<mapsto> Console, 1 \<mapsto> Console, 2 \<mapsto> Console]"

theorem shell_runs_command_witness:
  "all_programs (main_loop all_ok 0 console_fds ('' cat<in| wc'' @ CHR 0x0A # []))
   = [([''cat''], console_fds(0 \<mapsto> File ''in'' O_RDONLY, 1 \<mapsto> Pipe_out [0])), ([''wc''], console_fds(0 \<mapsto> Pipe_in [0], 1 \<mapsto> Console))]"
proof -
  let ?c = "Pipe (Redir (Exec [''cat'']) ''in'' O_RDONLY 0) (Exec [''wc''])"
  have t: "body ?c = '' cat<in| wc''" by (simp add: paren_def redir_text_def)
  have ok: "command_ok ?c"
    by (simp add: MAXARGS_def is_word_def wordc_def strchr_def whitespace_def symbols_def redir_ok_def)
  have "free_fds console_fds = {3..<16}" by (auto simp: free_fds_def console_fds_def NOFILE_def)
  then have free: "2 \<le> card (free_fds console_fds)" by simp
  have "main_loop all_ok (Suc 0) console_fds [] = [Exit]"
    using main_loop.simps [of all_ok "Suc 0" console_fds "[]"] by (simp add: getcmd_def)
  then show ?thesis using shell_runs_command [OF ok, of all_ok console_fds 0 "[]"] free
    unfolding t by (simp add: all_succeed_def all_ok_def std_def started_def console_fds_def)
qed

end
