(* ===== verification/Xv6_User.thy ===== *)
theory Xv6_User
  imports Prelude
begin

text \<open>
  User programs of xv6 (\<open>hw09/unnas-hw09/xv6\<close>): \<open>grep.c\<close> with its pattern matcher, \<open>wc.c\<close>, \<open>cat.c\<close>, \<open>echo.c\<close> and the formatted
  output of \<open>printf.c\<close>.

  A C string is a list of characters without its final NUL; a pointer into it is the rest of the string. An open file is the list of the pieces
  in which its content arrives: a regular file is one piece, a pipe or the console has one for each write. A read returns the
  part of the first piece that fits into the buffer, and nothing at the end; reads and writes do not fail. What a program writes is
  a list of writes, each with its descriptor. An argument of \<open>printf\<close> is a number or a string.
\<close>

abbreviation NL :: char where "NL \<equiv> CHR 0x0A"

section \<open>printf.c\<close>

datatype arg = Num int | Str "string option"

definition digits :: string where
  "digits = ''0123456789ABCDEF''"

function print_digits :: "string \<Rightarrow> int \<Rightarrow> int \<Rightarrow> string" where
  "print_digits ds base x = (ds ! nat (x mod base)) # (if x div base = 0 \<or> x < 0 \<or> base < 2 then [] else print_digits ds base (x div base))"
  by pat_completeness auto
termination print_digits
proof (relation "measure (\<lambda>(ds, base, x). nat x)")
  fix ds :: string and base x :: int
  assume a: "\<not> (x div base = 0 \<or> x < 0 \<or> base < 2)"
  then have "x \<noteq> 0" by auto
  then have "x div base < x" using a by (intro int_div_less_self) auto
  then show "((ds, base, x div base), (ds, base, x)) \<in> measure (\<lambda>(ds, base, x). nat x)" using a \<open>x \<noteq> 0\<close> by auto
qed simp

declare print_digits.simps [simp del]

definition printint :: "int \<Rightarrow> int \<Rightarrow> bool \<Rightarrow> string" where
  "printint xx base sg =
     (let neg = (sg \<and> xx < 0);
          x = (if neg then (- xx) mod 4294967296 else xx mod 4294967296)
      in rev (print_digits digits base x @ (if neg then ''-'' else [])))"

fun printf_loop :: "bool \<Rightarrow> string \<Rightarrow> arg list \<Rightarrow> string option" where
  "printf_loop state [] ap = Some []"
| "printf_loop False (c # fmt) ap =
     (if c = CHR ''%'' then printf_loop True fmt ap else map_option ((#) c) (printf_loop False fmt ap))"
| "printf_loop True (c # fmt) ap =
     (if c = CHR ''d'' then
        (case ap of Num v # ap \<Rightarrow> map_option ((@) (printint (cint v) 10 True)) (printf_loop False fmt ap) | _ \<Rightarrow> None)
      else if c = CHR ''x'' \<or> c = CHR ''p'' then
        (case ap of Num v # ap \<Rightarrow> map_option ((@) (printint (cint v) 16 False)) (printf_loop False fmt ap) | _ \<Rightarrow> None)
      else if c = CHR ''s'' then
        (case ap of Str s # ap \<Rightarrow> map_option ((@) (case s of None \<Rightarrow> ''(null)'' | Some s \<Rightarrow> s)) (printf_loop False fmt ap) | _ \<Rightarrow> None)
      else if c = CHR ''c'' then
        (case ap of Num v # ap \<Rightarrow> map_option ((#) (char_of (nat (v mod 256)))) (printf_loop False fmt ap) | _ \<Rightarrow> None)
      else if c = CHR ''%'' then map_option ((#) c) (printf_loop False fmt ap)
      else map_option ((@) [CHR ''%'', c]) (printf_loop False fmt ap))"

definition printf :: "string \<Rightarrow> arg list \<Rightarrow> string option" where
  "printf fmt ap = printf_loop False fmt ap"

section \<open>Reading\<close>

fun read_chunk :: "string list \<Rightarrow> nat \<Rightarrow> string \<times> string list" where
  "read_chunk [] n = ([], [])"
| "read_chunk (c # cs) n = (take n c, if length c \<le> n then cs else drop n c # cs)"

lemma read_chunk_less:
  assumes "fst (read_chunk cs n) \<noteq> []"
  shows "length (concat (snd (read_chunk cs n))) < length (concat cs)"
  using assms by (cases cs) auto

section \<open>grep.c\<close>

function matchhere :: "string \<Rightarrow> string \<Rightarrow> bool"
  and matchstar :: "char \<Rightarrow> string \<Rightarrow> string \<Rightarrow> bool" where
  "matchhere re tx =
     (case re of
        [] \<Rightarrow> True
      | c # re' \<Rightarrow>
          if re' \<noteq> [] \<and> hd re' = CHR ''*'' then matchstar c (tl re') tx
          else if c = CHR ''$'' \<and> re' = [] then tx = []
          else if tx \<noteq> [] \<and> (c = CHR ''.'' \<or> c = hd tx) then matchhere re' (tl tx)
          else False)"
| "matchstar c re tx =
     (if matchhere re tx then True
      else if tx \<noteq> [] \<and> (hd tx = c \<or> c = CHR ''.'') then matchstar c re (tl tx)
      else False)"
  by pat_completeness auto
termination matchhere
  by (relation "measures [\<lambda>x. case x of Inl (re, tx) \<Rightarrow> length re | Inr (c, re, tx) \<Rightarrow> length re,
        \<lambda>x. case x of Inl (re, tx) \<Rightarrow> length tx | Inr (c, re, tx) \<Rightarrow> length tx, \<lambda>x. case x of Inl _ \<Rightarrow> 0 | Inr _ \<Rightarrow> 1]") auto

declare matchhere.simps [simp del] matchstar.simps [simp del]

fun match_from :: "string \<Rightarrow> string \<Rightarrow> bool" where
  "match_from re tx = (if matchhere re tx then True else case tx of [] \<Rightarrow> False | _ # tx \<Rightarrow> match_from re tx)"

declare match_from.simps [simp del]

definition match :: "string \<Rightarrow> string \<Rightarrow> bool" where
  "match re tx = (if re \<noteq> [] \<and> hd re = CHR ''^'' then matchhere (tl re) tx else match_from re tx)"

text \<open>The loop over the lines of the buffer: what it writes, and the rest of the buffer from \<open>p\<close>.\<close>

function grep_lines :: "string \<Rightarrow> string \<Rightarrow> string list \<times> string" where
  "grep_lines pattern p =
     (let q = dropWhile (\<lambda>c. c \<noteq> NL \<and> c \<noteq> NUL) p;
          l = takeWhile (\<lambda>c. c \<noteq> NL \<and> c \<noteq> NUL) p
      in if q \<noteq> [] \<and> hd q = NL then
           let (ws, r) = grep_lines pattern (tl q)
           in (if match pattern l then (l @ [NL]) # ws else ws, r)
         else ([], p))"
  by pat_completeness auto
termination grep_lines
proof (relation "measure (\<lambda>(pattern, p). length p)")
  fix pattern p q l
  assume "q = dropWhile (\<lambda>c. c \<noteq> NL \<and> c \<noteq> NUL) p" "q \<noteq> [] \<and> hd q = NL"
  then have "length (tl q) < length q" "length q \<le> length p" by (auto simp: length_dropWhile_le)
  then show "((pattern, tl q), (pattern, p)) \<in> measure (\<lambda>(pattern, p). length p)" by simp
qed simp

declare grep_lines.simps [simp del]

function grep_loop :: "string \<Rightarrow> string list \<Rightarrow> string \<Rightarrow> string list" where
  "grep_loop pattern fd held =
     (let n = fst (read_chunk fd (1024 - length held - 1))
      in if n \<noteq> [] then
           let buf = held @ n;
               p = snd (grep_lines pattern buf)
           in fst (grep_lines pattern buf) @ grep_loop pattern (snd (read_chunk fd (1024 - length held - 1))) (if length p = length buf then [] else p)
         else [])"
  by pat_completeness auto
termination grep_loop
  by (relation "measure (\<lambda>(pattern, fd, held). length (concat fd))") (use read_chunk_less in auto)

declare grep_loop.simps [simp del]

definition grep :: "string \<Rightarrow> string list \<Rightarrow> string list" where
  "grep pattern fd = grep_loop pattern fd []"

type_synonym writes = "(int \<times> string) list"

definition to_fd :: "int \<Rightarrow> string list \<Rightarrow> writes" where
  "to_fd d ws = map (Pair d) ws"

definition fprintf :: "int \<Rightarrow> string \<Rightarrow> arg list \<Rightarrow> writes" where
  "fprintf d fmt ap = (case printf fmt ap of None \<Rightarrow> [] | Some s \<Rightarrow> map (\<lambda>c. (d, [c])) s)"

fun grep_files :: "(string \<Rightarrow> string list option) \<Rightarrow> string \<Rightarrow> string list \<Rightarrow> writes" where
  "grep_files fs pattern [] = []"
| "grep_files fs pattern (f # argv) =
     (case fs f of
        None \<Rightarrow> fprintf 1 (''grep: cannot open %s'' @ [NL]) [Str (Some f)]
      | Some fd \<Rightarrow> to_fd 1 (grep pattern fd) @ grep_files fs pattern argv)"

definition grep_main :: "(string \<Rightarrow> string list option) \<Rightarrow> string list \<Rightarrow> string list \<Rightarrow> writes" where
  "grep_main fs stdin argv =
     (if length argv \<le> 1 then fprintf 2 (''usage: grep pattern [file ...]'' @ [NL]) []
      else if length argv \<le> 2 then to_fd 1 (grep (argv ! 1) stdin)
      else grep_files fs (argv ! 1) (drop 2 argv))"

section \<open>wc.c\<close>

record counts =
  wc_l :: int
  wc_w :: int
  wc_c :: int
  inword :: bool

fun wc_chars :: "string \<Rightarrow> counts \<Rightarrow> counts" where
  "wc_chars [] k = k"
| "wc_chars (b # buf) k =
     wc_chars buf
       (let k = k\<lparr>wc_c := cint (wc_c k + 1)\<rparr>;
            k = (if b = NL then k\<lparr>wc_l := cint (wc_l k + 1)\<rparr> else k)
        in if b \<in> {CHR '' '', CHR 0x0D, CHR 0x09, NL, CHR 0x0B} then k\<lparr>inword := False\<rparr>
           else if \<not> inword k then k\<lparr>wc_w := cint (wc_w k + 1), inword := True\<rparr>
           else k)"

function wc_loop :: "string list \<Rightarrow> counts \<Rightarrow> counts" where
  "wc_loop fd k =
     (let n = fst (read_chunk fd 512)
      in if n \<noteq> [] then wc_loop (snd (read_chunk fd 512)) (wc_chars n k) else k)"
  by pat_completeness auto
termination wc_loop
  by (relation "measure (\<lambda>(fd, k). length (concat fd))") (use read_chunk_less in auto)

declare wc_loop.simps [simp del]

definition wc :: "string list \<Rightarrow> string \<Rightarrow> writes" where
  "wc fd name =
     (let k = wc_loop fd \<lparr>wc_l = 0, wc_w = 0, wc_c = 0, inword = False\<rparr>
      in fprintf 1 (''%d %d %d %s'' @ [NL]) [Num (wc_l k), Num (wc_w k), Num (wc_c k), Str (Some name)])"

fun wc_files :: "(string \<Rightarrow> string list option) \<Rightarrow> string list \<Rightarrow> writes" where
  "wc_files fs [] = []"
| "wc_files fs (f # argv) =
     (case fs f of
        None \<Rightarrow> fprintf 1 (''wc: cannot open %s'' @ [NL]) [Str (Some f)]
      | Some fd \<Rightarrow> wc fd f @ wc_files fs argv)"

definition wc_main :: "(string \<Rightarrow> string list option) \<Rightarrow> string list \<Rightarrow> string list \<Rightarrow> writes" where
  "wc_main fs stdin argv = (if length argv \<le> 1 then wc stdin '''' else wc_files fs (drop 1 argv))"

section \<open>cat.c and echo.c\<close>

function cat :: "string list \<Rightarrow> writes" where
  "cat fd =
     (let n = fst (read_chunk fd 512)
      in if n \<noteq> [] then (1, n) # cat (snd (read_chunk fd 512)) else [])"
  by pat_completeness auto
termination cat
  by (relation "measure (\<lambda>fd. length (concat fd))") (use read_chunk_less in auto)

declare cat.simps [simp del]

fun cat_files :: "(string \<Rightarrow> string list option) \<Rightarrow> string list \<Rightarrow> writes" where
  "cat_files fs [] = []"
| "cat_files fs (f # argv) =
     (case fs f of
        None \<Rightarrow> fprintf 1 (''cat: cannot open %s'' @ [NL]) [Str (Some f)]
      | Some fd \<Rightarrow> cat fd @ cat_files fs argv)"

definition cat_main :: "(string \<Rightarrow> string list option) \<Rightarrow> string list \<Rightarrow> string list \<Rightarrow> writes" where
  "cat_main fs stdin argv = (if length argv \<le> 1 then cat stdin else cat_files fs (drop 1 argv))"

fun echo :: "string list \<Rightarrow> writes" where
  "echo [] = []"
| "echo (a # argv) = fprintf 1 ''%s%s'' [Str (Some a), Str (Some (if argv \<noteq> [] then '' '' else [NL]))] @ echo argv"

definition echo_main :: "string list \<Rightarrow> writes" where
  "echo_main argv = echo (drop 1 argv)"

section \<open>What a pattern means\<close>

text \<open>A pattern is a sequence of items, each one character or any number of characters that fit; it may be anchored at both
  ends. The dot fits every character.\<close>

datatype item = One char | Many char

definition fits :: "char \<Rightarrow> char \<Rightarrow> bool" where
  "fits c d \<longleftrightarrow> c = CHR ''.'' \<or> c = d"

fun lang :: "item list \<Rightarrow> string set" where
  "lang [] = {[]}"
| "lang (One c # is) = {d # u | d u. fits c d \<and> u \<in> lang is}"
| "lang (Many c # is) = {v @ u | v u. list_all (fits c) v \<and> u \<in> lang is}"

fun items :: "string \<Rightarrow> item list \<times> bool" where
  "items [] = ([], False)"
| "items [c] = (if c = CHR ''$'' then ([], True) else ([One c], False))"
| "items (c # d # re) =
     (if d = CHR ''*'' then (Many c # fst (items re), snd (items re))
      else (One c # fst (items (d # re)), snd (items (d # re))))"

text \<open>The pattern matches a part \<open>u\<close> of the text.\<close>

definition found :: "string \<Rightarrow> string \<Rightarrow> bool" where
  "found re tx \<longleftrightarrow>
     (let start = (re \<noteq> [] \<and> hd re = CHR ''^'');
          (is, fin) = items (if start then tl re else re)
      in \<exists>a u b. tx = a @ u @ b \<and> u \<in> lang is \<and> (start \<longrightarrow> a = []) \<and> (fin \<longrightarrow> b = []))"

definition found_here :: "item list \<times> bool \<Rightarrow> string \<Rightarrow> bool" where
  "found_here p tx \<longleftrightarrow> (\<exists>u b. tx = u @ b \<and> u \<in> lang (fst p) \<and> (snd p \<longrightarrow> b = []))"

lemma found_hereI: "u \<in> lang is \<Longrightarrow> (fin \<Longrightarrow> b = []) \<Longrightarrow> found_here (is, fin) (u @ b)"
  by (auto simp: found_here_def)

lemma found_hereE:
  assumes "found_here (is, fin) tx"
  obtains u b where "tx = u @ b" and "u \<in> lang is" and "fin \<longrightarrow> b = []"
  using assms unfolding found_here_def fst_conv snd_conv by blast

lemma found_here_Nil: "found_here ([], fin) tx \<longleftrightarrow> (fin \<longrightarrow> tx = [])"
  by (auto simp: found_here_def)

lemma found_here_One: "found_here (One c # is, fin) tx \<longleftrightarrow> (\<exists>d t. tx = d # t \<and> fits c d \<and> found_here (is, fin) t)"
proof
  assume "found_here (One c # is, fin) tx"
  then obtain u b where "tx = u @ b" "u \<in> lang (One c # is)" "fin \<longrightarrow> b = []" by (elim found_hereE)
  then show "\<exists>d t. tx = d # t \<and> fits c d \<and> found_here (is, fin) t" using found_hereI [of _ "is" fin b] by auto
next
  assume "\<exists>d t. tx = d # t \<and> fits c d \<and> found_here (is, fin) t"
  then obtain d t where t: "tx = d # t" "fits c d" "found_here (is, fin) t" by blast
  then obtain u b where "t = u @ b" "u \<in> lang is" "fin \<longrightarrow> b = []" by (elim found_hereE)
  then show "found_here (One c # is, fin) tx" using found_hereI [of "d # u" "One c # is" fin b] t by simp
qed

lemma found_here_Many:
  "found_here (Many c # is, fin) tx \<longleftrightarrow> found_here (is, fin) tx \<or> (\<exists>d t. tx = d # t \<and> fits c d \<and> found_here (Many c # is, fin) t)"
proof
  assume "found_here (Many c # is, fin) tx"
  then obtain w b where w: "tx = w @ b" "w \<in> lang (Many c # is)" "fin \<longrightarrow> b = []" by (elim found_hereE)
  then obtain v u where u: "w = v @ u" "list_all (fits c) v" "u \<in> lang is" by auto
  show "found_here (is, fin) tx \<or> (\<exists>d t. tx = d # t \<and> fits c d \<and> found_here (Many c # is, fin) t)"
  proof (cases v)
    case Nil
    then show ?thesis using u w found_hereI [of u "is" fin b] by simp
  next
    case (Cons d v')
    then have "v' @ u \<in> lang (Many c # is)" using u by auto
    then show ?thesis using u w Cons found_hereI [of "v' @ u" "Many c # is" fin b] by simp
  qed
next
  assume "found_here (is, fin) tx \<or> (\<exists>d t. tx = d # t \<and> fits c d \<and> found_here (Many c # is, fin) t)"
  then consider (now) "found_here (is, fin) tx" | (step) d t where "tx = d # t" "fits c d" "found_here (Many c # is, fin) t" by blast
  then show "found_here (Many c # is, fin) tx"
  proof cases
    case now
    then obtain u b where u: "tx = u @ b" "u \<in> lang is" "fin \<longrightarrow> b = []" by (elim found_hereE)
    moreover have "u \<in> lang (Many c # is)" using u(2) by (auto intro: exI [of _ "[]"])
    ultimately show ?thesis using found_hereI [of u "Many c # is" fin b] by simp
  next
    case step
    then obtain w b where w: "t = w @ b" "w \<in> lang (Many c # is)" "fin \<longrightarrow> b = []" by (elim found_hereE)
    then obtain v u where u: "w = v @ u" "list_all (fits c) v" "u \<in> lang is" by auto
    have "d # w \<in> lang (Many c # is)" unfolding lang.simps mem_Collect_eq by (intro exI [of _ "d # v"] exI [of _ u]) (use u step(2) in simp)
    then show ?thesis using found_hereI [of "d # w" "Many c # is" fin b] w step(1) by simp
  qed
qed

lemma matchhere_found:
  "matchhere re tx \<longleftrightarrow> found_here (items re) tx"
  "matchstar c re tx \<longleftrightarrow> found_here (Many c # fst (items re), snd (items re)) tx"
proof (induction re tx and c re tx rule: matchhere_matchstar.induct)
  case (1 re tx)
  show ?case
  proof (cases re rule: items.cases)
    case 1
    then show ?thesis by (subst matchhere.simps) (simp add: found_here_def)
  next
    case (2 c)
    show ?thesis
    proof (cases "c = CHR ''$''")
      case True
      then show ?thesis using 2 by (subst matchhere.simps) (simp add: found_here_def)
    next
      case False
      then show ?thesis using 2
        by (subst matchhere.simps) (cases tx; auto simp: found_here_One found_here_Nil fits_def matchhere.simps [of "[]"])
    qed
  next
    case (3 c d re')
    show ?thesis
    proof (cases "d = CHR ''*''")
      case True
      then have "matchhere re tx = matchstar c re' tx" using 3 by (subst matchhere.simps) simp
      then show ?thesis using "1.IH"(1) [of c "d # re'"] 3 True by simp
    next
      case False
      then have "matchhere re tx = (\<exists>x t. tx = x # t \<and> fits c x \<and> matchhere (d # re') t)"
        using 3 by (subst matchhere.simps) (cases tx; auto simp: fits_def)
      then show ?thesis using "1.IH"(2) [of c "d # re'"] 3 False
        by (cases tx) (auto simp: found_here_One fits_def)
    qed
  qed
next
  case (2 c re tx)
  have "matchstar c re tx = (matchhere re tx \<or> (\<exists>d t. tx = d # t \<and> fits c d \<and> matchstar c re t))"
    by (subst matchstar.simps) (cases tx; auto simp: fits_def)
  then show ?case using 2 found_here_Many [of c "fst (items re)" "snd (items re)" tx] by (cases tx) (auto simp: fits_def)
qed

lemma match_from_found: "match_from re tx \<longleftrightarrow> (\<exists>a t. tx = a @ t \<and> found_here (items re) t)"
proof (induction tx)
  case Nil
  then show ?case by (subst match_from.simps) (simp add: matchhere_found)
next
  case (Cons d tx)
  have "(\<exists>a t. d # tx = a @ t \<and> found_here (items re) t) \<longleftrightarrow> found_here (items re) (d # tx) \<or> (\<exists>a t. tx = a @ t \<and> found_here (items re) t)"
    by (auto simp: Cons_eq_append_conv)
  then show ?case using Cons by (subst match_from.simps) (simp add: matchhere_found)
qed

lemma match_found: "match re tx = found re tx"
proof -
  have here: "found_here p tx \<longleftrightarrow> (\<exists>u b. tx = u @ b \<and> u \<in> lang (fst p) \<and> (snd p \<longrightarrow> b = []))" for p tx by (simp add: found_here_def)
  show ?thesis
  proof (cases "re \<noteq> [] \<and> hd re = CHR ''^''")
    case True
    then show ?thesis by (simp add: match_def found_def matchhere_found here split: prod.split)
  next
    case False
    then show ?thesis by (simp add: match_def found_def match_from_found here split: prod.split) blast
  qed
qed

text \<open>C25: The recursive matcher of \<open>grep\<close> (\<open>match\<close>, \<open>matchhere\<close>, \<open>matchstar\<close>) is exact: it accepts a text if and only if some part of the text is a
  word of the pattern's language, at the start if the pattern begins with \<open>^\<close> and up to the end if it ends with \<open>$\<close>. All patterns are
  covered, also those with a leading or doubled star.\<close>

theorem match_correct: "match re tx = found re tx"
  by (rule match_found)

section \<open>Lines\<close>

lemma grep_lines_Nil [simp]: "grep_lines pattern [] = ([], [])"
  by (simp add: grep_lines.simps)

lemma grep_lines_none:
  assumes "NL \<notin> set r"
  shows "grep_lines pattern r = ([], r)"
proof -
  have "hd (dropWhile (\<lambda>c. c \<noteq> NL \<and> c \<noteq> NUL) r) \<noteq> NL" if "dropWhile (\<lambda>c. c \<noteq> NL \<and> c \<noteq> NUL) r \<noteq> []"
    using assms that set_dropWhileD [of NL] hd_in_set by metis
  then show ?thesis by (subst grep_lines.simps) (auto simp: Let_def)
qed

lemma grep_lines_line:
  assumes "NL \<notin> set l" and "NUL \<notin> set l"
  shows "grep_lines pattern (l @ NL # r) =
    ((if match pattern l then (l @ [NL]) # fst (grep_lines pattern r) else fst (grep_lines pattern r)), snd (grep_lines pattern r))"
proof -
  have "takeWhile (\<lambda>c. c \<noteq> NL \<and> c \<noteq> NUL) (l @ NL # r) = l" "dropWhile (\<lambda>c. c \<noteq> NL \<and> c \<noteq> NUL) (l @ NL # r) = NL # r"
    using assms by (subst takeWhile_append2, auto, subst dropWhile_append2, auto)
  then show ?thesis by (subst grep_lines.simps) (simp add: split_beta)
qed

definition lines_of :: "string list \<Rightarrow> string" where
  "lines_of ls = concat (map (\<lambda>l. l @ [NL]) ls)"

definition matching :: "string \<Rightarrow> string list \<Rightarrow> string list" where
  "matching pattern ls = map (\<lambda>l. l @ [NL]) (filter (match pattern) ls)"

lemma lines_of_simps [simp]: "lines_of [] = []" "lines_of (l # ls) = l @ NL # lines_of ls"
  by (simp_all add: lines_of_def)

lemma matching_append: "matching pattern (ls @ ls') = matching pattern ls @ matching pattern ls'"
  by (simp add: matching_def)

abbreviation plain :: "string \<Rightarrow> bool" where
  "plain l \<equiv> NL \<notin> set l \<and> NUL \<notin> set l"

lemma grep_lines_lines:
  "(\<forall>l \<in> set ls. plain l) \<Longrightarrow> NL \<notin> set r \<Longrightarrow> grep_lines pattern (lines_of ls @ r) = (matching pattern ls, r)"
  by (induction ls) (simp_all add: grep_lines_none grep_lines_line matching_def)

text \<open>A prefix of the text consists of whole lines and the beginning of the next.\<close>

lemma lines_prefix:
  assumes "k \<le> length (lines_of ls)"
  shows "\<exists>ls1 ls2 r. ls = ls1 @ ls2 \<and> take k (lines_of ls) = lines_of ls1 @ r \<and> (ls2 = [] \<longrightarrow> r = []) \<and> (ls2 \<noteq> [] \<longrightarrow> (\<exists>r'. hd ls2 = r @ r'))"
  using assms
proof (induction ls arbitrary: k)
  case Nil
  then show ?case by simp
next
  case (Cons l ls)
  show ?case
  proof (cases "k \<le> length l")
    case True
    then have "take k (lines_of (l # ls)) = lines_of [] @ take k l" "hd (l # ls) = take k l @ drop k l" by simp_all
    then show ?thesis by (intro exI [of _ "[]"] exI [of _ "l # ls"] exI [of _ "take k l"]) blast
  next
    case False
    have le: "k - Suc (length l) \<le> length (lines_of ls)" using Cons.prems by simp
    obtain ls1 ls2 r where "ls = ls1 @ ls2" "take (k - Suc (length l)) (lines_of ls) = lines_of ls1 @ r" "ls2 = [] \<longrightarrow> r = []"
      "ls2 \<noteq> [] \<longrightarrow> (\<exists>r'. hd ls2 = r @ r')" using Cons.IH [OF le] by blast
    moreover have "take k (lines_of (l # ls)) = l @ NL # take (k - Suc (length l)) (lines_of ls)" using False by (simp add: take_Cons')
    ultimately show ?thesis by (intro exI [of _ "l # ls1"] exI [of _ ls2] exI [of _ r]) simp
  qed
qed

definition piece :: "string \<Rightarrow> string list" where
  "piece s = (if s = [] then [] else [s])"

lemma read_piece: "0 < n \<Longrightarrow> read_chunk (piece s) n = (take n s, piece (drop n s))"
  by (auto simp: piece_def)

lemma lines_of_append: "lines_of (ls @ ls') = lines_of ls @ lines_of ls'"
  by (simp add: lines_of_def)

lemma full_buffer_has_line:
  assumes "take 1023 (lines_of ls) = lines_of ls1 @ r" and "ls = ls1 @ ls2" and "ls \<noteq> []" and "ls2 \<noteq> [] \<longrightarrow> (\<exists>r'. hd ls2 = r @ r')"
    and "ls2 = [] \<longrightarrow> r = []" and "\<forall>l \<in> set ls. plain l \<and> length l \<le> 1022"
  shows "ls1 \<noteq> []"
proof
  assume n: "ls1 = []"
  then obtain r' where r': "hd ls = r @ r'" using assms(2-4) by auto
  obtain l ls' where l: "ls = l # ls'" using assms(3) by (cases ls) auto
  have "length r \<le> length l" using r' l by simp
  moreover have "length r = min 1023 (length (lines_of ls))" using assms(1) n by (metis append_Nil length_take lines_of_simps(1) min.commute)
  moreover have "length l < length (lines_of ls)" "length l \<le> 1022" using l assms(6) by simp_all
  ultimately show False by simp
qed

lemma grep_loop_lines:
  assumes "held @ rest = lines_of ls" and "ls = [] \<longrightarrow> held = []" and "ls \<noteq> [] \<longrightarrow> (\<exists>r'. hd ls = held @ r')"
    and "\<forall>l \<in> set ls. plain l \<and> length l \<le> 1022"
  shows "grep_loop pattern (piece rest) held = matching pattern ls"
  using assms
proof (induction "length rest" arbitrary: held rest ls rule: less_induct)
  case less
  note prems = less.prems
  show ?case
  proof (cases "rest = []")
    case True
    have "ls = []"
    proof (rule ccontr)
      assume n: "ls \<noteq> []"
      then obtain l ls' where l: "ls = l # ls'" by (cases ls) auto
      then have "NL \<notin> set held" using prems(3,4) by auto
      moreover have "NL \<in> set held" using prems(1) True l by simp
      ultimately show False by simp
    qed
    then show ?thesis using True prems(1) by (subst grep_loop.simps) (simp add: piece_def matching_def)
  next
    case False
    then have ne: "ls \<noteq> []" using prems(1) by auto
    then have h: "length held \<le> 1022" using prems(3,4) by (cases ls) auto
    let ?n = "1023 - length held"
    have "held @ take ?n rest = take 1023 (held @ rest)" using h by simp
    then have buf: "held @ take ?n rest = take 1023 (lines_of ls)" using prems(1) by simp
    have k: "min 1023 (length (lines_of ls)) \<le> length (lines_of ls)" "take (min 1023 (length (lines_of ls))) (lines_of ls) = take 1023 (lines_of ls)"
      by (auto simp: min_def)
    from lines_prefix [OF k(1), unfolded k(2)] obtain ls1 ls2 r where L: "ls = ls1 @ ls2" "take 1023 (lines_of ls) = lines_of ls1 @ r"
      "ls2 = [] \<longrightarrow> r = []" "ls2 \<noteq> [] \<longrightarrow> (\<exists>r'. hd ls2 = r @ r')" by blast
    have ls1: "ls1 \<noteq> []" by (rule full_buffer_has_line [OF L(2,1) ne L(4,3) prems(4)])
    have r: "NL \<notin> set r" using L(1,3,4) prems(4) by (cases ls2) auto
    have G: "grep_lines pattern (held @ take ?n rest) = (matching pattern ls1, r)"
      unfolding buf L(2) by (rule grep_lines_lines) (use L(1) prems(4) r in auto)
    have lt: "length (lines_of ls1 @ r) \<noteq> length r" using ls1 by (cases ls1) auto
    have "held @ rest = held @ take ?n rest @ drop ?n rest" by simp
    then have "lines_of ls1 @ lines_of ls2 = lines_of ls1 @ r @ drop ?n rest" using buf L(1,2) prems(1) by (metis append.assoc lines_of_append)
    then have rest: "r @ drop ?n rest = lines_of ls2" by simp
    have "length (drop ?n rest) < length rest" using h False by (cases rest) auto
    from less.hyps [OF this rest L(3,4)] prems(4) L(1)
    have IH: "grep_loop pattern (piece (drop ?n rest)) r = matching pattern ls2" by auto
    have n: "0 < ?n" "1024 - length held - 1 = ?n" "take ?n rest \<noteq> []" using h False by auto
    show ?thesis
      unfolding grep_loop.simps [of pattern "piece rest"] n(2) read_piece [OF n(1)] fst_conv snd_conv Let_def G if_P [OF n(3)]
      using IH lt buf L(1,2) by (simp add: matching_append)
  qed
qed

text \<open>C26: \<open>grep\<close> on a regular file whose lines end with a newline, contain no NUL character and are at most 1022 characters long writes exactly
  the lines that match, each with its newline, in their order, however the lines lie across the 1024-byte buffer.\<close>

theorem grep_correct:
  assumes "\<forall>l \<in> set ls. plain l \<and> length l \<le> 1022"
  shows "grep pattern (piece (lines_of ls)) = map (\<lambda>l. l @ [NL]) (filter (found pattern) ls)"
proof -
  have "grep pattern (piece (lines_of ls)) = matching pattern ls"
    unfolding grep_def by (rule grep_loop_lines) (use assms in auto)
  moreover have "match pattern = found pattern" by (intro ext match_found)
  ultimately show ?thesis by (simp add: matching_def)
qed

theorem grep_correct_witness:
  "grep ''b*c'' (piece (lines_of [''abbc'', ''ab'', ''c''])) = [''abbc'' @ [NL], ''c'' @ [NL]]"
proof -
  have "filter (found ''b*c'') [''abbc'', ''ab'', ''c''] = [''abbc'', ''c'']"
    by (simp flip: match_found add: match_def match_from.simps matchhere.simps matchstar.simps)
  then show ?thesis using grep_correct [of "[''abbc'', ''ab'', ''c'']" "''b*c''"] by simp
qed

text \<open>\<open>grep\<close> loses a line that arrives in two reads, as it may from a pipe or the console: when a read brings no newline, the characters that
  are already in the buffer are thrown away. So a line that matches is not written, although it is short; in one piece it is.\<close>

theorem grep_loses_split_line:
  assumes "plain l" and "l \<noteq> []" and "length l \<le> 1022" and "match pattern l" and "\<not> match pattern []"
  shows "grep pattern [l, [NL]] = [] \<and> grep pattern [l @ [NL]] = [l @ [NL]]"
proof
  have e: "grep_loop pattern [] held = []" for held by (simp add: grep_loop.simps)
  have nl: "grep_lines pattern [NL] = ([], [])" using grep_lines_line [of "[]" pattern "[]"] assms(5) by simp
  have l: "take 1023 l = l" "grep_lines pattern l = ([], l)" using assms(1,3) grep_lines_none by auto
  have "grep_loop pattern [[NL]] [] = []" by (subst grep_loop.simps) (simp add: nl e)
  then show "grep pattern [l, [NL]] = []" unfolding grep_def using assms(2,3) l by (subst grep_loop.simps) simp
  have w: "grep_lines pattern (l @ [NL]) = ([l @ [NL]], [])" using grep_lines_line [of l pattern "[]"] assms(1,4) by simp
  show "grep pattern [l @ [NL]] = [l @ [NL]]" unfolding grep_def using assms(3) w by (subst grep_loop.simps) (simp add: e)
qed

theorem grep_loses_split_line_witness:
  "grep ''a'' [''a'', [NL]] = [] \<and> grep ''a'' [[CHR ''a'', NL]] = [[CHR ''a'', NL]]"
proof -
  have "match ''a'' ''a''" "\<not> match ''a'' []" by (simp_all add: match_def match_from.simps matchhere.simps)
  then show ?thesis using grep_loses_split_line [of "''a''" "''a''"] by simp
qed

section \<open>Words\<close>

definition blank :: "char \<Rightarrow> bool" where
  "blank c \<longleftrightarrow> c \<in> {CHR '' '', CHR 0x0D, CHR 0x09, NL, CHR 0x0B}"

text \<open>The words of a text: its maximal parts without blanks.\<close>

function words :: "string \<Rightarrow> string list" where
  "words tx =
     (let t = dropWhile blank tx
      in if t = [] then [] else takeWhile (\<lambda>c. \<not> blank c) t # words (dropWhile (\<lambda>c. \<not> blank c) t))"
  by pat_completeness auto
termination words
proof (relation "measure length")
  fix tx t assume t: "t = dropWhile blank tx" "t \<noteq> []"
  then have "\<not> blank (hd t)" by (simp add: hd_dropWhile)
  then have "dropWhile (\<lambda>c. \<not> blank c) t = dropWhile (\<lambda>c. \<not> blank c) (tl t)" using t(2) by (cases t) auto
  then have "length (dropWhile (\<lambda>c. \<not> blank c) t) < length t" using t(2) length_dropWhile_le [of "\<lambda>c. \<not> blank c" "tl t"] by (cases t) auto
  also have "\<dots> \<le> length tx" using t(1) by (simp add: length_dropWhile_le)
  finally show "(dropWhile (\<lambda>c. \<not> blank c) t, tx) \<in> measure length" by simp
qed simp

declare words.simps [simp del]

lemma words_Nil [simp]: "words [] = []"
  by (simp add: words.simps)

lemma words_Cons: "words (c # tx) = (if blank c then words tx else (c # takeWhile (\<lambda>c. \<not> blank c) tx) # words (dropWhile (\<lambda>c. \<not> blank c) tx))"
  by (subst words.simps) (simp add: words.simps [of tx])

definition word_count :: "bool \<Rightarrow> string \<Rightarrow> nat" where
  "word_count inw tx = (if inw then length (words (dropWhile (\<lambda>c. \<not> blank c) tx)) else length (words tx))"

lemma word_count_simps: "word_count inw [] = 0"
  "word_count inw (c # tx) = (if blank c then word_count False tx else if inw then word_count True tx else Suc (word_count True tx))"
  by (simp_all add: word_count_def words_Cons)

definition last_in_word :: "bool \<Rightarrow> string \<Rightarrow> bool" where
  "last_in_word inw tx = (if tx = [] then inw else \<not> blank (last tx))"

lemma wc_chars_correct:
  assumes "0 \<le> wc_l k" and "0 \<le> wc_w k" and "0 \<le> wc_c k" and "wc_l k \<le> wc_c k" and "wc_w k \<le> wc_c k" and "wc_c k + int (length tx) < 2147483648"
  shows "wc_chars tx k = \<lparr>wc_l = wc_l k + int (count_list tx NL), wc_w = wc_w k + int (word_count (inword k) tx),
    wc_c = wc_c k + int (length tx), inword = last_in_word (inword k) tx\<rparr>"
  using assms
proof (induction tx arbitrary: k)
  case Nil
  then show ?case by (simp add: word_count_simps last_in_word_def)
next
  case (Cons c tx)
  have bl: "blank NL" by (simp add: blank_def)
  have b: "c \<in> {CHR '' '', CHR 0x0D, CHR 0x09, NL, CHR 0x0B} \<longleftrightarrow> blank c" by (simp add: blank_def)
  show ?case using Cons.prems
    by (simp only: wc_chars.simps b) (auto simp: Cons.IH word_count_simps last_in_word_def bl Let_def)
qed

lemma word_count_append: "word_count inw (a @ b) = word_count inw a + word_count (last_in_word inw a) b"
  by (induction a arbitrary: inw) (auto simp: word_count_simps last_in_word_def)

lemma word_count_le: "word_count inw tx \<le> length tx"
  by (induction tx arbitrary: inw) (auto simp: word_count_simps intro: le_SucI)

lemma last_in_word_append: "last_in_word inw (a @ b) = last_in_word (last_in_word inw a) b"
  by (auto simp: last_in_word_def)

lemma read_chunk_data:
  "fst (read_chunk fd n) @ concat (snd (read_chunk fd n)) = concat fd"
  "[] \<notin> set fd \<Longrightarrow> 0 < n \<Longrightarrow> (fst (read_chunk fd n) = []) = (fd = [])" "[] \<notin> set fd \<Longrightarrow> [] \<notin> set (snd (read_chunk fd n))"
  by (cases fd; auto simp flip: append_assoc)+

lemma wc_loop_correct:
  assumes "[] \<notin> set fd" and "0 \<le> wc_l k" and "0 \<le> wc_w k" and "0 \<le> wc_c k" and "wc_l k \<le> wc_c k" and "wc_w k \<le> wc_c k"
    and "wc_c k + int (length (concat fd)) < 2147483648"
  shows "wc_loop fd k = \<lparr>wc_l = wc_l k + int (count_list (concat fd) NL), wc_w = wc_w k + int (word_count (inword k) (concat fd)),
    wc_c = wc_c k + int (length (concat fd)), inword = last_in_word (inword k) (concat fd)\<rparr>"
  using assms
proof (induction fd k rule: wc_loop.induct)
  case (1 fd k)
  define n fd' where "n = fst (read_chunk fd 512)" and "fd' = snd (read_chunk fd 512)"
  have d: "concat fd = n @ concat fd'" "[] \<notin> set fd'" "(n = []) = (fd = [])" using read_chunk_data "1.prems"(1) by (simp_all add: n_def fd'_def)
  show ?case
  proof (cases "n = []")
    case True
    then show ?thesis using d(3) n_def by (subst wc_loop.simps) (simp add: word_count_simps last_in_word_def)
  next
    case False
    have C: "wc_chars n k = \<lparr>wc_l = wc_l k + int (count_list n NL), wc_w = wc_w k + int (word_count (inword k) n),
      wc_c = wc_c k + int (length n), inword = last_in_word (inword k) n\<rparr>"
      by (rule wc_chars_correct) (use "1.prems" d(1) in auto)
    have "wc_loop fd k = wc_loop fd' (wc_chars n k)" using False by (subst wc_loop.simps) (simp add: n_def fd'_def)
    also have "\<dots> = \<lparr>wc_l = wc_l (wc_chars n k) + int (count_list (concat fd') NL), wc_w = wc_w (wc_chars n k) + int (word_count (inword (wc_chars n k)) (concat fd')),
      wc_c = wc_c (wc_chars n k) + int (length (concat fd')), inword = last_in_word (inword (wc_chars n k)) (concat fd')\<rparr>"
      unfolding n_def fd'_def by (rule "1.IH" [OF refl])
        (use "1.prems" False C d word_count_le [of "inword k" n] count_le_length [of n NL] in \<open>auto simp flip: n_def fd'_def\<close>)
    finally show ?thesis by (simp add: C d(1) word_count_append last_in_word_append)
  qed
qed

text \<open>\<open>wc\<close> prints the number of newlines, of words (maximal parts without blanks) and of characters of its input, whatever the pieces in which the
  input arrives and however words lie across the reads, up to the range of an \<open>int\<close>.\<close>

theorem wc_correct:
  assumes "[] \<notin> set fd" and "length (concat fd) < 2147483648"
  shows "wc fd name = fprintf 1 (''%d %d %d %s'' @ [NL])
    [Num (int (count_list (concat fd) NL)), Num (int (length (words (concat fd)))), Num (int (length (concat fd))), Str (Some name)]"
  using wc_loop_correct [OF assms(1), of "\<lparr>wc_l = 0, wc_w = 0, wc_c = 0, inword = False\<rparr>"] assms(2) by (simp add: wc_def word_count_def)

theorem wc_correct_witness: "wc [''ab c'', [CHR ''d'', NL]] ''f'' = map (\<lambda>c. (1, [c])) (''1 2 6 f'' @ [NL])"
proof -
  have w: "length (words [CHR ''a'', CHR ''b'', CHR '' '', CHR ''c'', CHR ''d'', NL]) = 2" by (simp add: words_Cons blank_def)
  have "wc [''ab c'', [CHR ''d'', NL]] ''f'' = fprintf 1 (''%d %d %d %s'' @ [NL]) [Num 1, Num 2, Num 6, Str (Some ''f'')]"
    using wc_correct [of "[''ab c'', [CHR ''d'', NL]]" "''f''"] w by simp
  then show ?thesis by (simp add: fprintf_def printf_def printint_def print_digits.simps digits_def)
qed

lemma cat_copies: "[] \<notin> set fd \<Longrightarrow> concat (map snd (cat fd)) = concat fd \<and> (\<forall>w \<in> set (cat fd). fst w = 1)"
proof (induction fd rule: cat.induct)
  case (1 fd)
  show ?case
  proof (cases "fst (read_chunk fd 512) = []")
    case True
    then show ?thesis using read_chunk_data(2) [OF 1(2), of 512] by (subst cat.simps, subst cat.simps) auto
  next
    case False
    have "cat fd = (1, fst (read_chunk fd 512)) # cat (snd (read_chunk fd 512))" using False by (subst cat.simps) simp
    then show ?thesis using "1.IH" [OF refl False] read_chunk_data(1,3) [of fd 512] 1(2) by simp
  qed
qed

section \<open>Numbers\<close>

text \<open>The number that a string of digits stands for.\<close>

definition digit_value :: "string \<Rightarrow> char \<Rightarrow> int" where
  "digit_value ds c = int (length (takeWhile (\<lambda>d. d \<noteq> c) ds))"

definition digits_value :: "string \<Rightarrow> int \<Rightarrow> string \<Rightarrow> int" where
  "digits_value ds base s = foldl (\<lambda>v c. v * base + digit_value ds c) 0 s"

definition number_value :: "string \<Rightarrow> int \<Rightarrow> string \<Rightarrow> int" where
  "number_value ds base s = (if s \<noteq> [] \<and> hd s = CHR ''-'' then - digits_value ds base (tl s) else digits_value ds base s)"

text \<open>Sixteen different digits, none of them the minus sign.\<close>

abbreviation digit_table :: "string \<Rightarrow> bool" where
  "digit_table ds \<equiv> distinct ds \<and> length ds = 16 \<and> CHR ''-'' \<notin> set ds"

lemma takeWhile_nth: "distinct xs \<Longrightarrow> n < length xs \<Longrightarrow> length (takeWhile (\<lambda>d. d \<noteq> xs ! n) xs) = n"
  by (induction xs arbitrary: n) (auto simp: nth_Cons split: nat.splits)

lemma digit_value_digit:
  assumes "digit_table ds" and "0 \<le> v" and "v < 16"
  shows "digit_value ds (ds ! nat v) = v" and "ds ! nat v \<noteq> CHR ''-''"
proof -
  have v: "nat v < length ds" using assms by simp
  show "digit_value ds (ds ! nat v) = v" unfolding digit_value_def using takeWhile_nth [OF _ v] assms by simp
  show "ds ! nat v \<noteq> CHR ''-''" using nth_mem [OF v] assms(1) by metis
qed

lemma print_digits_value:
  assumes "digit_table ds" and "2 \<le> base" and "base \<le> 16" and "0 \<le> x"
  shows "digits_value ds base (rev (print_digits ds base x)) = x \<and> CHR ''-'' \<notin> set (print_digits ds base x) \<and> print_digits ds base x \<noteq> []"
  using assms
proof (induction ds base x rule: print_digits.induct)
  case (1 ds base x)
  have m: "0 \<le> x mod base" "x mod base < 16" using "1.prems" pos_mod_sign [of base x] pos_mod_bound [of base x] by linarith+
  note D = digit_value_digit [OF "1.prems"(1) m]
  show ?case
  proof (cases "x div base = 0")
    case True
    then have "x mod base = x" using div_mult_mod_eq [of x base] by simp
    then show ?thesis using True D by (subst (1 2 3) print_digits.simps) (auto simp: digits_value_def)
  next
    case False
    then have "\<not> (x div base = 0 \<or> x < 0 \<or> base < 2)" using "1.prems" by auto
    note IH = "1.IH" [OF this "1.prems"(1,2,3)]
    have p: "print_digits ds base x = (ds ! nat (x mod base)) # print_digits ds base (x div base)" using False "1.prems" by (subst print_digits.simps) auto
    show ?thesis using IH D "1.prems" by (auto simp: p digits_value_def pos_imp_zdiv_nonneg_iff)
  qed
qed

lemma print_digits_length:
  "2 \<le> base \<Longrightarrow> 0 \<le> x \<Longrightarrow> x < base ^ Suc k \<Longrightarrow> length (print_digits ds base x) \<le> Suc k"
proof (induction k arbitrary: x)
  case 0
  then show ?case by (subst print_digits.simps) simp
next
  case (Suc k)
  have "base * (x div base) \<le> x" using mult_div_mod_eq [of base x] pos_mod_sign [of base x] Suc.prems(1) by linarith
  then have "base * (x div base) < base * base ^ Suc k" using Suc.prems(3) by simp
  then have "x div base < base ^ Suc k" using Suc.prems(1) by (simp only: mult_less_cancel_left)
  then have "length (print_digits ds base (x div base)) \<le> Suc k" using Suc.IH [of "x div base"] Suc.prems by (simp add: pos_imp_zdiv_nonneg_iff)
  then show ?case by (subst print_digits.simps) simp
qed

text \<open>The number printed with a sign, or as an unsigned one.\<close>

lemma signed_digits:
  fixes v base :: int
  assumes "digit_table ds" and "is_cint v" and "base = 10 \<or> base = 16"
    and "neg = (sg \<and> v < 0)" and "x = (if neg then (- v) mod 4294967296 else v mod 4294967296)"
    and "p = rev (print_digits ds base x @ (if neg then ''-'' else []))"
  shows "number_value ds base p = (if sg then v else v mod 4294967296)" and "length p \<le> 16"
proof -
  have x: "0 \<le> x" "x < 4294967296" by (simp_all add: assms(5))
  have b: "2 \<le> base" "base \<le> 16" using assms(3) by auto
  have D: "digits_value ds base (rev (print_digits ds base x)) = x" "CHR ''-'' \<notin> set (print_digits ds base x)" "print_digits ds base x \<noteq> []"
    using print_digits_value [OF assms(1) b x(1)] by auto
  have "hd (rev (print_digits ds base x)) \<noteq> CHR ''-''" using D(2,3) by (metis hd_in_set rev_is_Nil_conv set_rev)
  then have "number_value ds base p = (if neg then - x else x)" using D(1) by (simp add: assms(6) number_value_def)
  also have "\<dots> = (if sg then v else v mod 4294967296)" using assms(2) by (auto simp: assms(4,5))
  finally show "number_value ds base p = (if sg then v else v mod 4294967296)" .
  have "x < base ^ Suc 9" using assms(3) x(2) by auto
  then have "length (print_digits ds base x) \<le> 10" using print_digits_length [OF b(1) x(1), of 9] by simp
  then show "length p \<le> 16" by (simp add: assms(6))
qed

text \<open>\<open>printint\<close> prints a number that reads back as the number, for every value of an \<open>int\<close> (the smallest one included, whose
  negation does not fit an \<open>int\<close>), in decimal and in hexadecimal notation; signed or as the unsigned value of its bits. The digits and the sign
  fit into the buffer of 16 characters.\<close>

theorem printint_roundtrip:
  assumes "is_cint v" and "base = 10 \<or> base = 16"
  shows "number_value digits base (printint v base sg) = (if sg then v else v mod 4294967296) \<and> length (printint v base sg) \<le> 16"
proof -
  have "digit_table digits" by (simp add: digits_def)
  from signed_digits [OF this assms refl refl refl] show ?thesis by (simp add: printint_def Let_def)
qed

theorem printint_roundtrip_witness: "number_value digits 10 (printint (- 2147483648) 10 True) = - 2147483648"
  using printint_roundtrip [of "- 2147483648" 10 True] by simp

end
