(* ===== verification/Xv6_Console.thy ===== *)
theory Xv6_Console
  imports Ring Xv6_User
begin

text \<open>
  The console of xv6, \<open>hw09/unnas-hw09/xv6/console.c\<close>: the line editor between the keyboard interrupt and the processes that read, the
  formatted output of the kernel, and the text screen.

  The input is a ring of 128 bytes with three 32-bit counters. A character that is typed is a number; an interrupt brings a list of
  them. A read runs under the lock until it returns or sleeps, and a read that sleeps continues with the rest of its count. What is
  printed is the list of the arguments of \<open>consputc\<close>. The screen is a list of cells of 16 bits with the position of the cursor,
  which the video controller keeps. The serial port, the process listing (\<open>^P\<close>) and the locks of the inode are left out.
\<close>

section \<open>Formatted output\<close>

definition cons_digits :: string where
  "cons_digits = ''0123456789abcdef''"

definition cons_printint :: "int \<Rightarrow> int \<Rightarrow> bool \<Rightarrow> string" where
  "cons_printint xx base sign =
     (let sign = (sign \<and> xx < 0);
          x = (if sign then (- xx) mod 4294967296 else xx mod 4294967296)
      in rev (print_digits cons_digits base x @ (if sign then ''-'' else [])))"

fun cprintf_loop :: "string \<Rightarrow> arg list \<Rightarrow> string option" where
  "cprintf_loop [] argp = Some []"
| "cprintf_loop (c # fmt) argp =
     (if c \<noteq> CHR ''%'' then map_option ((#) c) (cprintf_loop fmt argp)
      else case fmt of
        [] \<Rightarrow> Some []
      | c # fmt \<Rightarrow>
          if c = CHR ''d'' then
            (case argp of Num v # argp \<Rightarrow> map_option ((@) (cons_printint (cint v) 10 True)) (cprintf_loop fmt argp) | _ \<Rightarrow> None)
          else if c = CHR ''x'' \<or> c = CHR ''p'' then
            (case argp of Num v # argp \<Rightarrow> map_option ((@) (cons_printint (cint v) 16 False)) (cprintf_loop fmt argp) | _ \<Rightarrow> None)
          else if c = CHR ''s'' then
            (case argp of Str s # argp \<Rightarrow> map_option ((@) (case s of None \<Rightarrow> ''(null)'' | Some s \<Rightarrow> s)) (cprintf_loop fmt argp) | _ \<Rightarrow> None)
          else if c = CHR ''%'' then map_option ((#) (CHR ''%'')) (cprintf_loop fmt argp)
          else map_option ((@) [CHR ''%'', c]) (cprintf_loop fmt argp))"

section \<open>The screen\<close>

abbreviation BACKSPACE :: int where "BACKSPACE \<equiv> 256"

record screen =
  crt :: "int list"
  cursor :: int

definition cell :: "int \<Rightarrow> int" where
  "cell c = (c AND 255) OR 1792"

text \<open>A store outside of the 25 lines, and the panic, have no result.\<close>

definition put_cell :: "int list \<Rightarrow> int \<Rightarrow> int \<Rightarrow> int list option" where
  "put_cell cs p v = (if 0 \<le> p \<and> p < 25 * 80 then Some (cs[nat p := v]) else None)"

definition cgaputc :: "screen \<Rightarrow> int \<Rightarrow> screen option" where
  "cgaputc s c =
     (let p = cursor s
      in do { (cs, p) \<leftarrow>
                (if c = 10 then Some (crt s, p + (80 - p mod 80))
                 else if c = BACKSPACE then Some (crt s, if p > 0 then p - 1 else p)
                 else map_option (\<lambda>cs. (cs, p + 1)) (put_cell (crt s) p (cell c)));
              if p < 0 \<or> p > 25 * 80 then None
              else
                let (cs, p) =
                  (if p div 80 \<ge> 24 then
                     let p = p - 80;
                         cs = take (23 * 80) (drop 80 cs) @ drop (23 * 80) cs
                     in (take (nat p) cs @ replicate (nat (24 * 80 - p)) 0 @ drop (24 * 80) cs, p)
                   else (cs, p))
                in map_option (\<lambda>cs. \<lparr>crt = cs, cursor = p\<rparr>) (put_cell cs p (cell 32)) })"

section \<open>Input\<close>

abbreviation INPUT_BUF :: "32 word" where "INPUT_BUF \<equiv> 128"

definition C :: "char \<Rightarrow> int" where
  "C x = of_char x - of_char (CHR ''@'')"

record input =
  ibuf :: "byte list"
  ri :: "32 word"
  wi :: "32 word"
  ei :: "32 word"
  shown :: "int list"

interpretation cons_ring: ring_size 128
  by unfold_locales simp_all

definition consputc :: "input \<Rightarrow> int \<Rightarrow> input" where
  "consputc s c = s\<lparr>shown := shown s @ [c]\<rparr>"

function kill_line :: "input \<Rightarrow> input" where
  "kill_line s =
     (if ei s \<noteq> wi s \<and> ibuf s ! unat ((ei s - 1) mod INPUT_BUF) \<noteq> 10 then kill_line (consputc (s\<lparr>ei := ei s - 1\<rparr>) BACKSPACE) else s)"
  by pat_completeness auto
termination kill_line
proof (relation "measure (\<lambda>s. unat (ei s - wi s))")
  fix s :: input
  assume "ei s \<noteq> wi s \<and> ibuf s ! unat ((ei s - 1) mod INPUT_BUF) \<noteq> 10"
  then have "wi s \<noteq> ei s" by auto
  then have "unat (ei s - 1 - wi s) < unat (ei s - wi s)" using cons_ring.count_down(2,3) [of "wi s" "ei s"] by linarith
  then show "(consputc (s\<lparr>ei := ei s - 1\<rparr>) BACKSPACE, s) \<in> measure (\<lambda>s. unat (ei s - wi s))" by (simp add: consputc_def)
qed simp

declare kill_line.simps [simp del]

text \<open>One round of the loop of \<open>consoleintr\<close>; the second result says whether sleeping readers are woken up.\<close>

definition cons_key :: "input \<Rightarrow> int \<Rightarrow> input \<times> bool" where
  "cons_key s c =
     (if c = C (CHR ''P'') then (s, False)
      else if c = C (CHR ''U'') then (kill_line s, False)
      else if c = C (CHR ''H'') \<or> c = 127 then
        (if ei s \<noteq> wi s then consputc (s\<lparr>ei := ei s - 1\<rparr>) BACKSPACE else s, False)
      else if c \<noteq> 0 \<and> ei s - ri s < INPUT_BUF then
        let c = (if c = 13 then 10 else c);
            s = consputc (s\<lparr>ibuf := (ibuf s)[unat (ei s mod INPUT_BUF) := word_of_int c], ei := ei s + 1\<rparr>) c
        in if c = 10 \<or> c = C (CHR ''D'') \<or> ei s = ri s + INPUT_BUF then (s\<lparr>wi := ei s\<rparr>, True) else (s, False)
      else (s, False))"

fun consoleintr :: "input \<Rightarrow> int list \<Rightarrow> input \<times> bool" where
  "consoleintr s [] = (s, False)"
| "consoleintr s (c # cs) =
     (if c < 0 then (s, False)
      else let (s, w) = cons_key s c; (s, w') = consoleintr s cs in (s, w \<or> w'))"

datatype progress = Returned int | Sleeping int

function consoleread_from :: "input \<Rightarrow> byte list \<Rightarrow> int \<Rightarrow> int \<Rightarrow> bool \<Rightarrow> input \<times> byte list \<times> progress" where
  "consoleread_from s dst n target killed =
     (if n > 0 then
        if ri s = wi s then (s, dst, if killed then Returned (- 1) else Sleeping n)
        else
          let c = ibuf s ! unat (ri s mod INPUT_BUF)
          in if uint c = C (CHR ''D'') then (if n < target then s else s\<lparr>ri := ri s + 1\<rparr>, dst, Returned (target - n))
             else if c = 10 then (s\<lparr>ri := ri s + 1\<rparr>, dst @ [c], Returned (target - (n - 1)))
             else consoleread_from (s\<lparr>ri := ri s + 1\<rparr>) (dst @ [c]) (n - 1) target killed
      else (s, dst, Returned (target - n)))"
  by pat_completeness auto
termination consoleread_from
  by (relation "measure (\<lambda>(s, dst, n, target, killed). nat n)") auto

declare consoleread_from.simps [simp del]

definition consoleread :: "input \<Rightarrow> int \<Rightarrow> bool \<Rightarrow> input \<times> byte list \<times> progress" where
  "consoleread s n killed = consoleread_from s [] n n killed"

fun consolewrite :: "input \<Rightarrow> byte list \<Rightarrow> input" where
  "consolewrite s [] = s"
| "consolewrite s (b # bs) = consolewrite (consputc s (uint b)) bs"

section \<open>The line editor\<close>

text \<open>What the input promises: a queue of bytes that are ready to be read, and the line that is being edited.\<close>

record editor =
  ready :: "byte list"
  editing :: "byte list"

definition key_spec :: "editor \<Rightarrow> int \<Rightarrow> editor" where
  "key_spec a c =
     (if c = 16 \<or> c = 0 then a
      else if c = 21 then a\<lparr>editing := []\<rparr>
      else if c = 8 \<or> c = 127 then a\<lparr>editing := butlast (editing a)\<rparr>
      else if length (ready a) + length (editing a) = 128 then a
      else
        let c = (if c = 13 then 10 else c);
            l = editing a @ [word_of_int c]
        in if c = 10 \<or> c = 4 \<or> length (ready a) + length l = 128 then \<lparr>ready = ready a @ l, editing = []\<rparr> else a\<lparr>editing := l\<rparr>)"

definition cons_inv :: "input \<Rightarrow> bool" where
  "cons_inv s \<longleftrightarrow> length (ibuf s) = 128 \<and> unat (wi s - ri s) + unat (ei s - wi s) \<le> 128 \<and> (10 :: byte) \<notin> set (ring 128 (ibuf s) (wi s) (ei s))"

definition editor_of :: "input \<Rightarrow> editor" where
  "editor_of s = \<lparr>ready = ring 128 (ibuf s) (ri s) (wi s), editing = ring 128 (ibuf s) (wi s) (ei s)\<rparr>"

lemma unat_mod_128: "unat (w mod INPUT_BUF :: 32 word) = unat w mod 128"
  by (simp add: unat_mod)

lemma control: "C (CHR ''P'') = 16" "C (CHR ''U'') = 21" "C (CHR ''H'') = 8" "C (CHR ''D'') = 4"
  by (simp_all add: C_def)

lemma consputc_simps [simp]: "ibuf (consputc s c) = ibuf s" "ri (consputc s c) = ri s" "wi (consputc s c) = wi s" "ei (consputc s c) = ei s"
  by (simp_all add: consputc_def)

lemma cons_count: "cons_inv s \<Longrightarrow> unat (ei s - ri s) = unat (wi s - ri s) + unat (ei s - wi s)"
  by (rule word_count_split) (simp add: cons_inv_def)

lemma backspace:
  assumes "cons_inv s" and "ei s \<noteq> wi s" and "s' = consputc (s\<lparr>ei := ei s - 1\<rparr>) c"
  shows "cons_inv s'" and "editor_of s' = (editor_of s)\<lparr>editing := butlast (editing (editor_of s))\<rparr>"
    and "ibuf s ! unat ((ei s - 1) mod INPUT_BUF) = last (editing (editor_of s))" and "editing (editor_of s) \<noteq> []"
proof -
  have ne: "wi s \<noteq> ei s" using assms(2) by simp
  note U = cons_ring.unput [OF ne, of "ibuf s"] and D = cons_ring.count_down [OF ne]
  show "cons_inv s'" using assms(1) U D by (auto simp: cons_inv_def assms(3))
  show "editor_of s' = (editor_of s)\<lparr>editing := butlast (editing (editor_of s))\<rparr>" using U by (simp add: editor_of_def assms(3))
  show "ibuf s ! unat ((ei s - 1) mod INPUT_BUF) = last (editing (editor_of s))" using U by (simp add: editor_of_def unat_mod_128)
  show "editing (editor_of s) \<noteq> []" using U by (simp add: editor_of_def)
qed

lemma kill_line_spec:
  assumes "cons_inv s"
  shows "cons_inv (kill_line s) \<and> editor_of (kill_line s) = (editor_of s)\<lparr>editing := []\<rparr>"
  using assms
proof (induction s rule: kill_line.induct)
  case (1 s)
  show ?case
  proof (cases "ei s = wi s")
    case True
    then show ?thesis using "1.prems" by (subst (1 2) kill_line.simps) (simp add: editor_of_def)
  next
    case False
    note B = backspace [OF "1.prems" False refl]
    have "last (editing (editor_of s)) \<in> set (editing (editor_of s))" using B(4) by (rule last_in_set)
    then have "ibuf s ! unat ((ei s - 1) mod INPUT_BUF) \<noteq> 10" using "1.prems" B(3) by (auto simp: cons_inv_def editor_of_def)
    then have step: "ei s \<noteq> wi s \<and> ibuf s ! unat ((ei s - 1) mod INPUT_BUF) \<noteq> 10" using False by simp
    have "kill_line s = kill_line (consputc (s\<lparr>ei := ei s - 1\<rparr>) BACKSPACE)" using step by (subst kill_line.simps) simp
    then show ?thesis using "1.IH" [OF step B(1)] B(2) by simp
  qed
qed

lemma insert_char:
  assumes "cons_inv s" and "unat (ei s - ri s) < 128" and "s' = consputc (s\<lparr>ibuf := (ibuf s)[unat (ei s mod INPUT_BUF) := b], ei := ei s + 1\<rparr>) c"
  shows "ring 128 (ibuf s') (wi s') (ei s') = editing (editor_of s) @ [b]" and "ring 128 (ibuf s') (ri s') (wi s') = ready (editor_of s)"
    and "unat (ei s' - wi s') = unat (ei s - wi s) + 1" and "unat (ei s' - ri s') = unat (ei s - ri s) + 1"
proof -
  have len: "length (ibuf s) = 128" "unat (ei s - wi s) < 128" using assms(1,2) cons_count [OF assms(1)] by (auto simp: cons_inv_def)
  have s': "ibuf s' = (ibuf s)[unat (ei s) mod 128 := b]" "ri s' = ri s" "wi s' = wi s" "ei s' = ei s + 1" by (simp_all add: assms(3) unat_mod_128)
  show e: "ring 128 (ibuf s') (wi s') (ei s') = editing (editor_of s) @ [b]"
    unfolding s' using cons_ring.put [OF len, of b] by (simp add: editor_of_def)
  have w: "ring 128 (ibuf s') (ri s) (ei s + 1) = ring 128 (ibuf s) (ri s) (ei s) @ [b]" unfolding s' by (rule cons_ring.put [OF len(1) assms(2)])
  have "length (ring 128 (ibuf s') (wi s') (ei s')) = Suc (length (editing (editor_of s)))" unfolding e by simp
  then show n: "unat (ei s' - wi s') = unat (ei s - wi s) + 1" by (simp add: editor_of_def)
  have "length (ring 128 (ibuf s') (ri s) (ei s + 1)) = Suc (length (ring 128 (ibuf s) (ri s) (ei s)))" unfolding w by simp
  then show "unat (ei s' - ri s') = unat (ei s - ri s) + 1" by (simp add: s')
  have "ring 128 (ibuf s) (ri s) (ei s) = ring 128 (ibuf s) (ri s) (wi s) @ ring 128 (ibuf s) (wi s) (ei s)"
    by (rule cons_ring.append) (use cons_count [OF assms(1)] assms(2) in simp)
  moreover have "ring 128 (ibuf s') (ri s) (ei s + 1) = ring 128 (ibuf s') (ri s) (wi s) @ ring 128 (ibuf s') (wi s) (ei s + 1)"
    by (rule cons_ring.append) (use cons_count [OF assms(1)] assms(2) n s' in simp)
  ultimately have "ring 128 (ibuf s') (ri s) (wi s) @ (ring 128 (ibuf s) (wi s) (ei s) @ [b])
    = ring 128 (ibuf s) (ri s) (wi s) @ (ring 128 (ibuf s) (wi s) (ei s) @ [b])" using w e s' by (simp add: editor_of_def)
  then show "ring 128 (ibuf s') (ri s') (wi s') = ready (editor_of s)" by (simp add: s'(2,3) editor_of_def)
qed

lemma byte_eq:
  assumes "0 \<le> c" and "c < 256" and "0 \<le> k" and "k < 256"
  shows "(word_of_int c :: byte) = word_of_int k \<longleftrightarrow> c = k"
proof
  assume "(word_of_int c :: byte) = word_of_int k"
  then have "uint (word_of_int c :: byte) = uint (word_of_int k :: byte)" by simp
  then show "c = k" using assms by (simp add: uint_word_of_int)
qed simp

lemma cons_key_refines:
  assumes "cons_inv s" and "0 \<le> c" and "c < 256"
  shows "cons_inv (fst (cons_key s c)) \<and> editor_of (fst (cons_key s c)) = key_spec (editor_of s) c
    \<and> snd (cons_key s c) = (ready (key_spec (editor_of s) c) \<noteq> ready (editor_of s))"
proof -
  let ?a = "editor_of s"
  have n: "length (ready ?a) = unat (wi s - ri s)" "length (editing ?a) = unat (ei s - wi s)" by (simp_all add: editor_of_def)
  have full: "ei s - ri s < INPUT_BUF \<longleftrightarrow> length (ready ?a) + length (editing ?a) \<noteq> 128"
    using cons_count [OF assms(1)] assms(1) by (auto simp: n word_less_nat_alt cons_inv_def)
  consider (listing) "c = 16" | (erase) "c = 21" | (rubout) "c = 8 \<or> c = 127"
    | (ignored) "c \<notin> {16, 21, 8, 127}" "c = 0 \<or> \<not> ei s - ri s < INPUT_BUF" | (typed) "c \<notin> {16, 21, 8, 127, 0}" "ei s - ri s < INPUT_BUF" by blast
  then show ?thesis
  proof cases
    case listing
    then show ?thesis using assms(1) by (simp add: cons_key_def control key_spec_def)
  next
    case erase
    then show ?thesis using kill_line_spec [OF assms(1)] by (simp add: cons_key_def control key_spec_def)
  next
    case rubout
    show ?thesis
    proof (cases "ei s = wi s")
      case True
      then have "editing ?a = []" by (simp add: editor_of_def)
      then show ?thesis using rubout True assms(1) by (auto simp: cons_key_def control key_spec_def)
    next
      case False
      then show ?thesis using rubout backspace [OF assms(1) False refl] by (auto simp: cons_key_def control key_spec_def)
    qed
  next
    case ignored
    then show ?thesis using assms(1) full by (auto simp: cons_key_def control key_spec_def)
  next
    case typed
    define k where "k = (if c = 13 then 10 else c)"
    define t where "t = consputc (s\<lparr>ibuf := (ibuf s)[unat (ei s mod INPUT_BUF) := word_of_int k], ei := ei s + 1\<rparr>) k"
    have lt: "unat (ei s - ri s) < 128" using typed(2) by (simp add: word_less_nat_alt)
    note T = insert_char [OF assms(1) lt t_def]
    have k: "(word_of_int k :: byte) = 10 \<longleftrightarrow> k = 10" using byte_eq [of k 10] assms(2,3) by (simp add: k_def)
    have full': "ei t = ri t + INPUT_BUF \<longleftrightarrow> unat (ei t - ri t) = 128"
    proof -
      have "unat (ei t - ri t) = 128 \<longleftrightarrow> ei t - ri t = INPUT_BUF" by (simp add: word_unat_eq_iff)
      also have "\<dots> \<longleftrightarrow> ei t = ri t + INPUT_BUF" by (simp add: diff_eq_eq add.commute)
      finally show ?thesis by simp
    qed
    have key: "cons_key s c = (if k = 10 \<or> k = 4 \<or> unat (ei t - ri t) = 128 then (t\<lparr>wi := ei t\<rparr>, True) else (t, False))"
      unfolding cons_key_def Let_def k_def [symmetric] t_def [symmetric] control full' using typed by auto
    have len: "length (ibuf t) = 128" "wi t = wi s" "ri t = ri s" using assms(1) by (simp_all add: t_def cons_inv_def)
    have spec: "key_spec ?a c = (if k = 10 \<or> k = 4 \<or> unat (ei t - ri t) = 128 then \<lparr>ready = ready ?a @ editing ?a @ [word_of_int k], editing = []\<rparr>
        else ?a\<lparr>editing := editing ?a @ [word_of_int k]\<rparr>)"
      using typed full cons_count [OF assms(1)] T(4) by (simp add: key_spec_def Let_def n flip: k_def)
    show ?thesis
    proof (cases "k = 10 \<or> k = 4 \<or> unat (ei t - ri t) = 128")
      case True
      have "ring 128 (ibuf t) (ri t) (ei t) = ring 128 (ibuf t) (ri t) (wi t) @ ring 128 (ibuf t) (wi t) (ei t)"
        by (rule cons_ring.append) (use T(3,4) lt len cons_count [OF assms(1)] in simp)
      then have "editor_of (t\<lparr>wi := ei t\<rparr>) = key_spec ?a c" unfolding spec using True T(1,2) by (simp add: editor_of_def)
      moreover have "cons_inv (t\<lparr>wi := ei t\<rparr>)" using len T(4) lt by (simp add: cons_inv_def)
      moreover have "ready (key_spec ?a c) \<noteq> ready ?a" using True by (simp add: spec)
      ultimately show ?thesis using True by (simp add: key)
    next
      case False
      have "editor_of t = key_spec ?a c" unfolding spec using False T(1,2) by (simp add: editor_of_def)
      moreover have "cons_inv t"
        using False len T lt k assms(1) cons_count [OF assms(1)] by (auto simp: cons_inv_def editor_of_def)
      ultimately show ?thesis using False by (simp add: key spec)
    qed
  qed
qed

lemma take_ready:
  assumes "cons_inv s" and "ri s \<noteq> wi s" and "s' = s\<lparr>ri := ri s + 1\<rparr>"
  shows "cons_inv s'" and "ready (editor_of s) = (ibuf s ! unat (ri s mod INPUT_BUF)) # ready (editor_of s')" and "editing (editor_of s') = editing (editor_of s)"
proof -
  show "cons_inv s'" using assms(1) cons_ring.count_down(1,2) [OF assms(2)] by (auto simp: cons_inv_def assms(3) intro: order_trans [OF diff_le_self])
  show "ready (editor_of s) = (ibuf s ! unat (ri s mod INPUT_BUF)) # ready (editor_of s')"
    using cons_ring.get [OF assms(2), of "ibuf s"] by (simp add: editor_of_def assms(3) unat_mod_128)
  show "editing (editor_of s') = editing (editor_of s)" by (simp add: editor_of_def assms(3))
qed

text \<open>What a read gets from the bytes that are ready: at most \<open>n\<close> bytes, at most one line. A \<open>^D\<close> ends the read and is consumed only if it is the first
  thing the read meets, so that the next read returns 0. The first result is what stays in the queue.\<close>

definition plain_bytes :: "byte list \<Rightarrow> byte list" where
  "plain_bytes q = takeWhile (\<lambda>b. b \<noteq> 4 \<and> b \<noteq> 10) q"

definition read_spec :: "byte list \<Rightarrow> nat \<Rightarrow> bool \<Rightarrow> bool \<Rightarrow> byte list \<times> byte list \<times> int option" where
  "read_spec q n begun killed =
     (let d = plain_bytes q
      in if n \<le> length d then (drop n q, take n q, Some (int n))
         else if d = q then ([], q, if killed then Some (- 1) else None)
         else if q ! length d = 10 then (drop (length d + 1) q, d @ [10], Some (int (length d + 1)))
         else (drop (if begun \<or> d \<noteq> [] then length d else 1) q, d, Some (int (length d))))"

definition outcome_of :: "int option \<Rightarrow> int \<Rightarrow> nat \<Rightarrow> nat \<Rightarrow> progress" where
  "outcome_of r have_read n got = (case r of Some v \<Rightarrow> if v < 0 then Returned (- 1) else Returned (have_read + v) | None \<Rightarrow> Sleeping (int n - int got))"

lemma read_spec_Cons:
  assumes "b \<noteq> 4" and "b \<noteq> 10"
  shows "read_spec (b # q) (Suc n) begun killed = (case read_spec q n True killed of (q', d, r) \<Rightarrow> (q', b # d, case r of Some v \<Rightarrow> Some (if v < 0 then v else v + 1) | None \<Rightarrow> None))"
  using assms by (auto simp: read_spec_def plain_bytes_def Let_def)

lemma consoleread_from_refines:
  assumes "cons_inv s" and "0 \<le> n" and "n \<le> target"
    and "read_spec (ready (editor_of s)) (nat n) (n < target) killed = (q, d, r)"
  shows "\<exists>s'. consoleread_from s dst n target killed = (s', dst @ d, outcome_of r (target - n) (nat n) (length d))
    \<and> cons_inv s' \<and> editor_of s' = \<lparr>ready = q, editing = editing (editor_of s)\<rparr>"
  using assms
proof (induction s dst n target killed arbitrary: q d r rule: consoleread_from.induct)
  case (1 s dst n target killed)
  note prems = "1.prems"
  let ?q = "ready (editor_of s)"
  have e: "editor_of s = \<lparr>ready = ?q, editing = editing (editor_of s)\<rparr>" by simp
  consider (finished) "n = 0" | (empty) "0 < n" "ri s = wi s" | (byte) "0 < n" "ri s \<noteq> wi s" using prems(2) by linarith
  then show ?case
  proof cases
    case finished
    then have "q = ?q" "d = []" "r = Some 0" using prems(4) by (auto simp: read_spec_def)
    then show ?thesis using finished prems(1) by (subst consoleread_from.simps) (simp add: outcome_of_def)
  next
    case empty
    then have "?q = []" by (simp add: editor_of_def)
    then have "q = ?q" "d = []" "r = (if killed then Some (- 1) else None)" using prems(4) empty(1) by (auto simp: read_spec_def plain_bytes_def)
    then show ?thesis using empty prems(1) by (subst consoleread_from.simps) (simp add: outcome_of_def)
  next
    case byte
    define s1 where "s1 = s\<lparr>ri := ri s + 1\<rparr>"
    let ?b = "ibuf s ! unat (ri s mod INPUT_BUF)"
    note T = take_ready [OF prems(1) byte(2) s1_def]
    have b: "uint ?b = C (CHR ''D'') \<longleftrightarrow> ?b = 4" by (simp add: control word_uint_eq_iff)
    obtain k where k: "nat n = Suc k" using byte(1) by (cases "nat n") auto
    then have k1: "nat (n - 1) = k" by simp
    consider (eof) "?b = 4" | (nl) "?b = 10" | (plain) "?b \<noteq> 4" "?b \<noteq> 10" by blast
    then show ?thesis
    proof cases
      case eof
      then have "q = (if n < target then ?q else ready (editor_of s1))" "d = []" "r = Some 0"
        using prems(4) T(2) k by (auto simp: read_spec_def plain_bytes_def split: if_splits)
      then show ?thesis using eof byte b prems(1) T by (subst consoleread_from.simps) (auto simp: outcome_of_def Let_def simp flip: s1_def)
    next
      case nl
      then have "q = ready (editor_of s1)" "d = [10]" "r = Some 1" using prems(4) T(2) k by (auto simp: read_spec_def plain_bytes_def)
      then show ?thesis using nl byte b T by (subst consoleread_from.simps) (auto simp: outcome_of_def Let_def simp flip: s1_def)
    next
      case plain
      obtain q' d' r' where R: "read_spec (ready (editor_of s1)) k True killed = (q', d', r')" by (metis prod_cases3)
      have qdr: "q = q'" "d = ?b # d'" "r = (case r' of Some v \<Rightarrow> Some (if v < 0 then v else v + 1) | None \<Rightarrow> None)"
        using prems(4) R unfolding T(2) k read_spec_Cons [OF plain] by simp_all
      have "\<exists>s'. consoleread_from s1 (dst @ [?b]) (n - 1) target killed = (s', (dst @ [?b]) @ d', outcome_of r' (target - (n - 1)) (nat (n - 1)) (length d'))
        \<and> cons_inv s' \<and> editor_of s' = \<lparr>ready = q', editing = editing (editor_of s1)\<rparr>"
        unfolding s1_def by (rule "1.IH") (use byte plain b prems(2,3) T(1) R k1 in \<open>auto simp: s1_def\<close>)
      moreover have "consoleread_from s dst n target killed = consoleread_from s1 (dst @ [?b]) (n - 1) target killed"
        using byte plain b by (subst consoleread_from.simps) (simp add: Let_def flip: s1_def)
      ultimately show ?thesis using qdr T(3) byte(1) by (auto simp: outcome_of_def split: option.splits)
    qed
  qed
qed

text \<open>C9: The console input implements a line editor. With the queue of bytes that are ready and the line being edited as the abstract state, each key acts as
  specified: \<open>^U\<close> empties the line, backspace removes its last byte, any other key is added (a carriage return as a newline) if fewer than 128 bytes are
  stored; a newline, \<open>^D\<close> or a full buffer makes the line ready and wakes the readers up, and they are woken up only then. A read takes at most one line and at most
  \<open>n\<close> bytes, treats \<open>^D\<close> as the end of the input, and sleeps exactly if the queue is used up before the line ends; the line being edited is
  never touched. The counters may wrap around.\<close>

theorem console_refines:
  assumes "cons_inv s" and "0 \<le> c" and "c < 256" and "0 \<le> n" and "read_spec (ready (editor_of s)) (nat n) False killed = (q, d, r)"
  shows "cons_inv (fst (cons_key s c)) \<and> editor_of (fst (cons_key s c)) = key_spec (editor_of s) c
    \<and> snd (cons_key s c) = (ready (key_spec (editor_of s) c) \<noteq> ready (editor_of s))
    \<and> (\<exists>s'. consoleread s n killed = (s', d, outcome_of r 0 (nat n) (length d)) \<and> cons_inv s'
        \<and> editor_of s' = \<lparr>ready = q, editing = editing (editor_of s)\<rparr>)"
  using cons_key_refines [OF assms(1-3)] consoleread_from_refines [OF assms(1,4) order_refl, of killed q d r "[]"] assms(5)
  by (simp add: consoleread_def)

definition fresh_input :: input where
  "fresh_input = \<lparr>ibuf = replicate 128 0, ri = 4294967295, wi = 4294967295, ei = 4294967295, shown = []\<rparr>"

theorem console_refines_witness:
  "editor_of (fst (cons_key fresh_input 97)) = \<lparr>ready = [], editing = [97]\<rparr>
    \<and> (\<exists>s'. consoleread fresh_input 5 False = (s', [], Sleeping 5))"
proof -
  have i: "cons_inv fresh_input" by (simp add: cons_inv_def fresh_input_def)
  have e: "editor_of fresh_input = \<lparr>ready = [], editing = []\<rparr>" by (simp add: editor_of_def fresh_input_def)
  have "read_spec (ready (editor_of fresh_input)) (nat 5) False False = ([], [], None)" by (simp add: e read_spec_def plain_bytes_def)
  from console_refines [OF i _ _ _ this, of 97] show ?thesis by (auto simp: e key_spec_def outcome_of_def)
qed

text \<open>The cursor stays on the screen: no character makes \<open>cgaputc\<close> panic or store outside of the text memory.\<close>

theorem screen_safe:
  assumes "length (crt s) = 25 * 80" and "0 \<le> cursor s" and "cursor s < 24 * 80"
  shows "\<exists>s'. cgaputc s c = Some s' \<and> length (crt s') = 25 * 80 \<and> 0 \<le> cursor s' \<and> cursor s' < 24 * 80"
proof -
  define p where "p = (if c = 10 then cursor s + (80 - cursor s mod 80) else if c = BACKSPACE then if cursor s > 0 then cursor s - 1 else cursor s else cursor s + 1)"
  define cs where "cs = (if c = 10 \<or> c = BACKSPACE then crt s else (crt s)[nat (cursor s) := cell c])"
  have nl: "cursor s + (80 - cursor s mod 80) \<le> 24 * 80"
  proof -
    have "cursor s div 80 < 24" using assms(2,3) by auto
    then have "80 * (cursor s div 80) \<le> 80 * 23" by simp
    then show ?thesis using mult_div_mod_eq [of 80 "cursor s"] by linarith
  qed
  have p: "0 \<le> p" "p \<le> 24 * 80" using assms(2,3) nl pos_mod_bound [of 80 "cursor s"] by (auto simp: p_def)
  have len: "length cs = 2000" using assms(1) by (simp add: cs_def)
  have "(if c = 10 then Some (crt s, cursor s + (80 - cursor s mod 80))
      else if c = BACKSPACE then Some (crt s, if cursor s > 0 then cursor s - 1 else cursor s)
      else map_option (\<lambda>cs. (cs, cursor s + 1)) (put_cell (crt s) (cursor s) (cell c))) = Some (cs, p)"
    using assms(2,3) by (simp add: p_def cs_def put_cell_def)
  then have g: "cgaputc s c = (let (cs, p) =
      (if p div 80 \<ge> 24 then
         let p = p - 80; cs = take (23 * 80) (drop 80 cs) @ drop (23 * 80) cs
         in (take (nat p) cs @ replicate (nat (24 * 80 - p)) 0 @ drop (24 * 80) cs, p)
       else (cs, p))
    in map_option (\<lambda>cs. \<lparr>crt = cs, cursor = p\<rparr>) (put_cell cs p (cell 32)))"
    using p unfolding cgaputc_def Let_def by simp
  show ?thesis
  proof (cases "p = 1920")
    case True
    then show ?thesis unfolding g using len by (simp add: put_cell_def Let_def)
  next
    case False
    then have "\<not> p div 80 \<ge> 24" "p < 1920" using p by auto
    then show ?thesis unfolding g using len p(1) by (simp add: put_cell_def Let_def)
  qed
qed

lemma cons_printint_roundtrip:
  assumes "is_cint v" and "base = 10 \<or> base = 16"
  shows "number_value cons_digits base (cons_printint v base sg) = (if sg then v else v mod 4294967296) \<and> length (cons_printint v base sg) \<le> 16"
proof -
  have "digit_table cons_digits" by (simp add: cons_digits_def)
  from signed_digits [OF this assms refl refl refl] show ?thesis by (simp add: cons_printint_def Let_def)
qed

end
