(* ===== verification/Xv6_Spinlock.thy ===== *)
theory Xv6_Spinlock
  imports Prelude
begin

text \<open>
  The spin locks of xv6, \<open>hw09/unnas-hw09/xv6/spinlock.c\<close>, on any number of processors. A lock records the processor that holds it;
  the name and the stack trace, for debugging only, are left out. A processor has the interrupt flag and the counter of \<open>pushcli\<close>. A
  panic has no result. \<open>acquire\<close> and \<open>release\<close> are cut at the points where another processor can see a difference: each
  access to the shared field \<open>locked\<close> is a step of its own. The step relation lets the processors interleave in any way; a processor
  may also turn interrupts on and off and call \<open>pushcli\<close> and \<open>popcli\<close> itself.
\<close>

section \<open>spinlock.c\<close>

record spinlock =
  locked :: bool
  lcpu :: "nat option"

record cpu =
  ncli :: int
  intena :: bool
  eflags_if :: bool

record machine =
  locks :: "nat \<Rightarrow> spinlock"
  cpus :: "nat \<Rightarrow> cpu"

definition initlock :: "machine \<Rightarrow> nat \<Rightarrow> machine" where
  "initlock s l = s\<lparr>locks := (locks s)(l := \<lparr>locked = False, lcpu = None\<rparr>)\<rparr>"

definition pushcli :: "machine \<Rightarrow> nat \<Rightarrow> machine" where
  "pushcli s c =
     (let p = cpus s c
      in s\<lparr>cpus := (cpus s)(c := \<lparr>ncli = ncli p + 1, intena = (if ncli p = 0 then eflags_if p else intena p), eflags_if = False\<rparr>)\<rparr>)"

definition popcli :: "machine \<Rightarrow> nat \<Rightarrow> machine option" where
  "popcli s c =
     (let p = cpus s c
      in if eflags_if p then None
         else if ncli p - 1 < 0 then None
         else Some (s\<lparr>cpus := (cpus s)(c := p\<lparr>ncli := ncli p - 1, eflags_if := (ncli p - 1 = 0 \<and> intena p)\<rparr>)\<rparr>))"

definition holding :: "machine \<Rightarrow> nat \<Rightarrow> nat \<Rightarrow> (machine \<times> bool) option" where
  "holding s c l =
     (let s = pushcli s c;
          r = (locked (locks s l) \<and> lcpu (locks s l) = Some c)
      in map_option (\<lambda>s. (s, r)) (popcli s c))"

definition acquire_begin :: "machine \<Rightarrow> nat \<Rightarrow> nat \<Rightarrow> machine option" where
  "acquire_begin s c l =
     do { (s, h) \<leftarrow> holding (pushcli s c) c l;
          if h then None else Some s }"

definition xchg :: "machine \<Rightarrow> nat \<Rightarrow> machine \<times> bool" where
  "xchg s l = (s\<lparr>locks := (locks s)(l := (locks s l)\<lparr>locked := True\<rparr>)\<rparr>, locked (locks s l))"

definition acquire_end :: "machine \<Rightarrow> nat \<Rightarrow> nat \<Rightarrow> machine" where
  "acquire_end s c l = s\<lparr>locks := (locks s)(l := (locks s l)\<lparr>lcpu := Some c\<rparr>)\<rparr>"

definition release_begin :: "machine \<Rightarrow> nat \<Rightarrow> nat \<Rightarrow> machine option" where
  "release_begin s c l =
     do { (s, h) \<leftarrow> holding s c l;
          if \<not> h then None else Some (s\<lparr>locks := (locks s)(l := (locks s l)\<lparr>lcpu := None\<rparr>)\<rparr>) }"

definition release_end :: "machine \<Rightarrow> nat \<Rightarrow> nat \<Rightarrow> machine option" where
  "release_end s c l = popcli (s\<lparr>locks := (locks s)(l := (locks s l)\<lparr>locked := False\<rparr>)\<rparr>) c"

section \<open>Interleavings\<close>

text \<open>Where a processor is: outside of \<open>spinlock.c\<close>, in the loop of \<open>acquire\<close>, behind that loop, or between the two writes of \<open>release\<close>.\<close>

datatype place = Outside | Spin nat | Got nat | Rel nat

record config =
  machine_of :: machine
  place_of :: "nat \<Rightarrow> place"
  pushes :: "nat \<Rightarrow> nat"

definition at :: "config \<Rightarrow> nat \<Rightarrow> machine \<Rightarrow> place \<Rightarrow> config" where
  "at f c s p = f\<lparr>machine_of := s, place_of := (place_of f)(c := p)\<rparr>"

inductive lk_step :: "nat \<Rightarrow> config \<Rightarrow> config \<Rightarrow> bool" for n where
  acquire: "place_of f c = Outside \<Longrightarrow> l < n \<Longrightarrow> acquire_begin (machine_of f) c l = Some s \<Longrightarrow> lk_step n f (at f c s (Spin l))"
| spin: "place_of f c = Spin l \<Longrightarrow> xchg (machine_of f) l = (s, True) \<Longrightarrow> lk_step n f (at f c s (Spin l))"
| win: "place_of f c = Spin l \<Longrightarrow> xchg (machine_of f) l = (s, False) \<Longrightarrow> lk_step n f (at f c s (Got l))"
| acquired: "place_of f c = Got l \<Longrightarrow> acquire_end (machine_of f) c l = s \<Longrightarrow> lk_step n f (at f c s Outside)"
| release: "place_of f c = Outside \<Longrightarrow> l < n \<Longrightarrow> release_begin (machine_of f) c l = Some s \<Longrightarrow> lk_step n f (at f c s (Rel l))"
| released: "place_of f c = Rel l \<Longrightarrow> release_end (machine_of f) c l = Some s \<Longrightarrow> lk_step n f (at f c s Outside)"
| push: "place_of f c = Outside \<Longrightarrow> lk_step n f (f\<lparr>machine_of := pushcli (machine_of f) c, pushes := (pushes f)(c := Suc (pushes f c))\<rparr>)"
| pop: "place_of f c = Outside \<Longrightarrow> pushes f c = Suc k \<Longrightarrow> popcli (machine_of f) c = Some s \<Longrightarrow>
    lk_step n f (f\<lparr>machine_of := s, pushes := (pushes f)(c := k)\<rparr>)"
| interrupts: "place_of f c = Outside \<Longrightarrow> ncli (cpus (machine_of f) c) = 0 \<Longrightarrow>
    lk_step n f (f\<lparr>machine_of := (machine_of f)\<lparr>cpus := (cpus (machine_of f))(c := (cpus (machine_of f) c)\<lparr>eflags_if := b\<rparr>)\<rparr>\<rparr>)"

definition boot :: config where
  "boot = \<lparr>machine_of = \<lparr>locks = (\<lambda>_. \<lparr>locked = False, lcpu = None\<rparr>), cpus = (\<lambda>_. \<lparr>ncli = 0, intena = False, eflags_if = False\<rparr>)\<rparr>,
     place_of = (\<lambda>_. Outside), pushes = (\<lambda>_. 0)\<rparr>"

inductive reachable :: "nat \<Rightarrow> config \<Rightarrow> bool" for n where
  start: "reachable n boot"
| step: "reachable n f \<Longrightarrow> lk_step n f f' \<Longrightarrow> reachable n f'"

text \<open>A processor owns a lock from the moment its exchange reads 0 until it writes 0.\<close>

definition owns :: "config \<Rightarrow> nat \<Rightarrow> nat \<Rightarrow> bool" where
  "owns f c l \<longleftrightarrow> lcpu (locks (machine_of f) l) = Some c \<or> place_of f c = Got l \<or> place_of f c = Rel l"

definition spinning :: "config \<Rightarrow> nat \<Rightarrow> nat" where
  "spinning f c = (case place_of f c of Spin _ \<Rightarrow> 1 | _ \<Rightarrow> 0)"

definition lk_inv :: "nat \<Rightarrow> config \<Rightarrow> bool" where
  "lk_inv n f \<longleftrightarrow>
     (\<forall>l c c'. owns f c l \<longrightarrow> owns f c' l \<longrightarrow> c = c')
     \<and> (\<forall>l. locked (locks (machine_of f) l) = (\<exists>c. owns f c l))
     \<and> (\<forall>c l. place_of f c = Got l \<or> place_of f c = Rel l \<longrightarrow> lcpu (locks (machine_of f) l) = None)
     \<and> (\<forall>c l. owns f c l \<or> place_of f c = Spin l \<longrightarrow> l < n)
     \<and> (\<forall>c. ncli (cpus (machine_of f) c) = int (card {l. owns f c l} + spinning f c + pushes f c))
     \<and> (\<forall>c. eflags_if (cpus (machine_of f) c) \<longrightarrow> ncli (cpus (machine_of f) c) = 0)"

lemma lk_invD:
  assumes "lk_inv n f"
  shows "\<And>l c c'. owns f c l \<Longrightarrow> owns f c' l \<Longrightarrow> c = c'" and "\<And>l. locked (locks (machine_of f) l) = (\<exists>c. owns f c l)"
    and "\<And>c l. place_of f c = Got l \<or> place_of f c = Rel l \<Longrightarrow> lcpu (locks (machine_of f) l) = None"
    and "\<And>c l. owns f c l \<Longrightarrow> l < n" and "\<And>c l. place_of f c = Spin l \<Longrightarrow> l < n"
    and "\<And>c. ncli (cpus (machine_of f) c) = int (card {l. owns f c l} + spinning f c + pushes f c)"
    and "\<And>c. eflags_if (cpus (machine_of f) c) \<Longrightarrow> ncli (cpus (machine_of f) c) = 0" and "\<And>c. finite {l. owns f c l}"
proof -
  show "finite {l. owns f c l}" for c by (rule finite_subset [of _ "{..<n}"]) (use assms in \<open>auto simp: lk_inv_def\<close>)
qed (use assms in \<open>auto simp: lk_inv_def\<close>)

lemma holding_result:
  assumes "0 \<le> ncli (cpus s c)" and "eflags_if (cpus s c) \<Longrightarrow> ncli (cpus s c) = 0"
  obtains s' where "holding s c l = Some (s', locked (locks s l) \<and> lcpu (locks s l) = Some c)" and "locks s' = locks s"
    and "ncli (cpus s' c) = ncli (cpus s c)" and "eflags_if (cpus s' c) = eflags_if (cpus s c)" and "\<And>d. d \<noteq> c \<Longrightarrow> cpus s' d = cpus s d"
proof -
  let ?p = "cpus s c"
  let ?s = "s\<lparr>cpus := (cpus s)(c := \<lparr>ncli = ncli ?p, intena = (if ncli ?p = 0 then eflags_if ?p else intena ?p), eflags_if = (ncli ?p = 0 \<and> eflags_if ?p)\<rparr>)\<rparr>"
  have "holding s c l = Some (?s, locked (locks s l) \<and> lcpu (locks s l) = Some c)"
    using assms(1) by (simp add: holding_def pushcli_def popcli_def Let_def)
  then show thesis by (rule that) (use assms in auto)
qed

lemma pushcli_simps [simp]:
  "locks (pushcli s c) = locks s" "ncli (cpus (pushcli s c) c) = ncli (cpus s c) + 1" "\<not> eflags_if (cpus (pushcli s c) c)"
  "d \<noteq> c \<Longrightarrow> cpus (pushcli s c) d = cpus s d"
  by (simp_all add: pushcli_def Let_def)

lemma popcli_result:
  assumes "popcli s c = Some s'"
  shows "locks s' = locks s" and "ncli (cpus s' c) = ncli (cpus s c) - 1" and "eflags_if (cpus s' c) \<Longrightarrow> ncli (cpus s' c) = 0"
    and "\<And>d. d \<noteq> c \<Longrightarrow> cpus s' d = cpus s d" and "0 < ncli (cpus s c)"
  using assms by (auto simp: popcli_def Let_def split: if_splits)

text \<open>\<open>acquire\<close> panics exactly if the processor holds the lock, \<open>release\<close> exactly if it does not.\<close>

lemma acquire_begin_result:
  assumes "lk_inv n f" and "place_of f c = Outside"
  shows "if lcpu (locks (machine_of f) l) = Some c then acquire_begin (machine_of f) c l = None
    else \<exists>s. acquire_begin (machine_of f) c l = Some s \<and> locks s = locks (machine_of f) \<and> ncli (cpus s c) = ncli (cpus (machine_of f) c) + 1
      \<and> \<not> eflags_if (cpus s c) \<and> (\<forall>d. d \<noteq> c \<longrightarrow> cpus s d = cpus (machine_of f) d)"
proof -
  let ?s = "pushcli (machine_of f) c"
  have "0 \<le> ncli (cpus ?s c)" using lk_invD(6) [OF assms(1), of c] by simp
  then obtain s' where s': "holding ?s c l = Some (s', locked (locks ?s l) \<and> lcpu (locks ?s l) = Some c)" "locks s' = locks ?s"
    "ncli (cpus s' c) = ncli (cpus ?s c)" "eflags_if (cpus s' c) = eflags_if (cpus ?s c)" "\<And>d. d \<noteq> c \<Longrightarrow> cpus s' d = cpus ?s d"
    by (rule holding_result) auto
  have "locked (locks (machine_of f) l)" if "lcpu (locks (machine_of f) l) = Some c" using lk_invD(2) [OF assms(1)] that by (auto simp: owns_def)
  then show ?thesis using s' by (auto simp: acquire_begin_def)
qed

lemma release_begin_result:
  assumes "lk_inv n f" and "place_of f c = Outside"
  shows "if lcpu (locks (machine_of f) l) \<noteq> Some c then release_begin (machine_of f) c l = None
    else \<exists>s. release_begin (machine_of f) c l = Some s \<and> locks s = (locks (machine_of f))(l := (locks (machine_of f) l)\<lparr>lcpu := None\<rparr>)
      \<and> ncli (cpus s c) = ncli (cpus (machine_of f) c) \<and> eflags_if (cpus s c) = eflags_if (cpus (machine_of f) c)
      \<and> (\<forall>d. d \<noteq> c \<longrightarrow> cpus s d = cpus (machine_of f) d)"
proof -
  let ?s = "machine_of f"
  have "0 \<le> ncli (cpus ?s c)" using lk_invD(6) [OF assms(1), of c] by simp
  then obtain s' where s': "holding ?s c l = Some (s', locked (locks ?s l) \<and> lcpu (locks ?s l) = Some c)" "locks s' = locks ?s"
    "ncli (cpus s' c) = ncli (cpus ?s c)" "eflags_if (cpus s' c) = eflags_if (cpus ?s c)" "\<And>d. d \<noteq> c \<Longrightarrow> cpus s' d = cpus ?s d"
    by (rule holding_result) (use lk_invD(7) [OF assms(1)] in auto)
  have "locked (locks ?s l)" if "lcpu (locks ?s l) = Some c" using lk_invD(2) [OF assms(1)] that by (auto simp: owns_def)
  then show ?thesis using s' by (auto simp: release_begin_def)
qed

lemma at_simps [simp]: "machine_of (at f c s p) = s" "place_of (at f c s p) = (place_of f)(c := p)" "pushes (at f c s p) = pushes f"
  by (simp_all add: at_def)

text \<open>A step that changes no owner: the other processors are as before.\<close>

lemma lk_inv_same_owners:
  assumes I: "lk_inv n f" and o: "\<And>d k. owns f' d k = owns f d k" and lk: "\<And>k. locked (locks (machine_of f') k) = locked (locks (machine_of f) k)"
    and g: "\<And>d k. place_of f' d = Got k \<or> place_of f' d = Rel k \<Longrightarrow> lcpu (locks (machine_of f') k) = None"
    and sp: "\<And>d k. place_of f' d = Spin k \<Longrightarrow> k < n" and pu: "\<And>d. d \<noteq> c \<Longrightarrow> pushes f' d = pushes f d \<and> place_of f' d = place_of f d"
    and cp: "\<And>d. d \<noteq> c \<Longrightarrow> cpus (machine_of f') d = cpus (machine_of f) d"
    and nc: "ncli (cpus (machine_of f') c) = ncli (cpus (machine_of f) c) + int (spinning f' c + pushes f' c) - int (spinning f c + pushes f c)"
    and ef: "eflags_if (cpus (machine_of f') c) \<Longrightarrow> ncli (cpus (machine_of f') c) = 0"
  shows "lk_inv n f'"
proof -
  note D = lk_invD [OF I]
  have "ncli (cpus (machine_of f') d) = int (card {l. owns f' d l} + spinning f' d + pushes f' d)" for d
    using nc D(6) [of d] cp [of d] pu [of d] by (cases "d = c") (simp_all add: o spinning_def)
  moreover have "eflags_if (cpus (machine_of f') d) \<longrightarrow> ncli (cpus (machine_of f') d) = 0" for d
    using ef D(7) [of d] cp [of d] by (cases "d = c") simp_all
  ultimately show ?thesis unfolding lk_inv_def using D(1,2,4) o lk g sp by blast
qed

lemma lk_inv_win:
  assumes I: "lk_inv n f" and p: "place_of f c = Spin l" and x: "xchg (machine_of f) l = (s, False)"
  shows "lk_inv n (at f c s (Got l))"
proof -
  note D = lk_invD [OF I]
  have s: "locks s = (locks (machine_of f))(l := (locks (machine_of f) l)\<lparr>locked := True\<rparr>)" "cpus s = cpus (machine_of f)"
    and free: "\<not> locked (locks (machine_of f) l)" using x by (auto simp: xchg_def)
  have none: "\<not> owns f d l" for d using D(2) [of l] free by blast
  then have lc: "lcpu (locks (machine_of f) l) = None" by (cases "lcpu (locks (machine_of f) l)") (auto simp: owns_def)
  have o: "owns (at f c s (Got l)) d k = (if k = l then d = c else owns f d k)" for d k
    using none [of d] p lc by (auto simp: owns_def s)
  then have set: "{k. owns (at f c s (Got l)) d k} = (if d = c then insert l {k. owns f d k} else {k. owns f d k})" for d
    using none [of d] by auto
  have "ncli (cpus s d) = int (card {k. owns (at f c s (Got l)) d k} + spinning (at f c s (Got l)) d + pushes f d)" for d
    using D(6) [of d] D(8) [of c] none [of c] p by (auto simp: s set spinning_def)
  moreover have "lcpu (locks s k) = None" if "place_of (at f c s (Got l)) d = Got k \<or> place_of (at f c s (Got l)) d = Rel k" for d k
    using that D(3) [of d k] lc by (auto simp: s split: if_splits)
  moreover have "locked (locks s k) = (\<exists>d. owns (at f c s (Got l)) d k)" for k using D(2) [of k] by (simp add: o s)
  moreover have "k < n" if "owns (at f c s (Got l)) d k \<or> place_of (at f c s (Got l)) d = Spin k" for d k
    using that D(4,5) p by (auto simp: o split: if_splits)
  moreover have "d = d'" if "owns (at f c s (Got l)) d k" "owns (at f c s (Got l)) d' k" for d d' k
    using that D(1) [of d k d'] by (auto simp: o split: if_splits)
  ultimately show ?thesis unfolding lk_inv_def using D(7) by (auto simp: s)
qed

lemma lk_inv_released:
  assumes I: "lk_inv n f" and p: "place_of f c = Rel l" and r: "release_end (machine_of f) c l = Some s"
  shows "lk_inv n (at f c s Outside)"
proof -
  note D = lk_invD [OF I]
  note R = popcli_result [OF r [unfolded release_end_def]]
  have s: "locks s = (locks (machine_of f))(l := (locks (machine_of f) l)\<lparr>locked := False\<rparr>)" using R(1) by simp
  have oc: "owns f c l" and lc: "lcpu (locks (machine_of f) l) = None" using p D(3) [of c l] by (auto simp: owns_def)
  have none: "\<not> owns f d l" if "d \<noteq> c" for d using D(1) [OF oc] that by blast
  have o: "owns (at f c s Outside) d k = (k \<noteq> l \<and> owns f d k)" for d k
    using none [of d] p lc by (auto simp: owns_def s)
  then have set: "{k. owns (at f c s Outside) d k} = (if d = c then {k. owns f d k} - {l} else {k. owns f d k})" for d
    using none [of d] by auto
  have "card {k. owns f c k} = Suc (card ({k. owns f c k} - {l}))" using oc D(8) [of c] by (metis card_Suc_Diff1 mem_Collect_eq)
  then have "ncli (cpus s d) = int (card {k. owns (at f c s Outside) d k} + spinning (at f c s Outside) d + pushes f d)" for d
    using D(6) [of d] R(2) R(4) [of d] p by (cases "d = c") (simp_all add: set spinning_def)
  moreover have "lcpu (locks s k) = None" if "place_of (at f c s Outside) d = Got k \<or> place_of (at f c s Outside) d = Rel k" for d k
    using that D(3) [of d k] lc by (auto simp: s split: if_splits)
  moreover have "locked (locks s k) = (\<exists>d. owns (at f c s Outside) d k)" for k using D(2) [of k] by (simp add: o s)
  moreover have "k < n" if "owns (at f c s Outside) d k \<or> place_of (at f c s Outside) d = Spin k" for d k
    using that D(4,5) by (auto simp: o split: if_splits)
  moreover have "d = d'" if "owns (at f c s Outside) d k" "owns (at f c s Outside) d' k" for d d' k
    using that D(1) [of d k d'] by (auto simp: o)
  moreover have "ncli (cpus s d) = 0" if "eflags_if (cpus s d)" for d using that R(3) R(4) [of d] D(7) [of d] by (cases "d = c") auto
  ultimately show ?thesis unfolding lk_inv_def by simp
qed

lemma lk_inv_step:
  assumes "lk_step n f f'" and I: "lk_inv n f"
  shows "lk_inv n f'"
  using assms(1)
proof cases
  case (acquire c l s)
  note A = acquire_begin_result [OF I acquire(2), of l]
  have s: "locks s = locks (machine_of f)" "ncli (cpus s c) = ncli (cpus (machine_of f) c) + 1" "\<not> eflags_if (cpus s c)"
    "\<And>d. d \<noteq> c \<Longrightarrow> cpus s d = cpus (machine_of f) d" using A acquire(4) by (auto split: if_splits)
  show ?thesis unfolding acquire(1)
    by (rule lk_inv_same_owners [OF I, where c = c]) (use s acquire(2,3) lk_invD(3,5) [OF I] in \<open>auto simp: owns_def spinning_def split: if_splits\<close>)
next
  case (spin c l s)
  then have lk: "locked (locks (machine_of f) l)" and s: "s = (machine_of f)\<lparr>locks := (locks (machine_of f))(l := (locks (machine_of f) l)\<lparr>locked := True\<rparr>)\<rparr>"
    by (auto simp: xchg_def)
  have "(locks (machine_of f) l)\<lparr>locked := True\<rparr> = locks (machine_of f) l" using lk by (cases "locks (machine_of f) l") simp
  then have "s = machine_of f" by (simp add: s)
  then have "at f c s (Spin l) = f" using spin(2) by (simp add: at_def fun_upd_idem)
  then show ?thesis using spin(1) I by simp
next
  case (win c l s)
  then show ?thesis using lk_inv_win [OF I] by simp
next
  case (acquired c l s)
  have lc: "lcpu (locks (machine_of f) l) = None" using lk_invD(3) [OF I, of c l] acquired(2) by simp
  have g: "place_of f d = Got k \<Longrightarrow> lcpu (locks (machine_of f) k) = None" "place_of f d = Rel k \<Longrightarrow> lcpu (locks (machine_of f) k) = None" for d k
    using lk_invD(3) [OF I, of d k] by simp_all
  have un: "place_of f d \<noteq> Got l \<and> place_of f d \<noteq> Rel l" if "d \<noteq> c" for d using lk_invD(1) [OF I, of c l d] acquired(2) that by (auto simp: owns_def)
  show ?thesis unfolding acquired(1)
    by (rule lk_inv_same_owners [OF I, where c = c])
      (use acquired(2,3) g lk_invD(5,7) [OF I] lc un in \<open>auto simp: owns_def spinning_def acquire_end_def split: if_splits\<close>)
next
  case (release c l s)
  note A = release_begin_result [OF I release(2), of l]
  have s: "locks s = (locks (machine_of f))(l := (locks (machine_of f) l)\<lparr>lcpu := None\<rparr>)" "lcpu (locks (machine_of f) l) = Some c"
    "ncli (cpus s c) = ncli (cpus (machine_of f) c)" "eflags_if (cpus s c) = eflags_if (cpus (machine_of f) c)"
    "\<And>d. d \<noteq> c \<Longrightarrow> cpus s d = cpus (machine_of f) d" using A release(4) by (auto split: if_splits)
  show ?thesis unfolding release(1)
    by (rule lk_inv_same_owners [OF I, where c = c])
      (use s release(2,3) lk_invD(3,5,7) [OF I] in \<open>auto simp: owns_def spinning_def split: if_splits\<close>)
next
  case (released c l s)
  then show ?thesis using lk_inv_released [OF I] by simp
next
  case (push c)
  show ?thesis unfolding push(1)
    by (rule lk_inv_same_owners [OF I, where c = c]) (use push(2) lk_invD(3,5) [OF I] in \<open>auto simp: owns_def spinning_def\<close>)
next
  case (pop c k s)
  note R = popcli_result [OF pop(4)]
  show ?thesis unfolding pop(1)
    by (rule lk_inv_same_owners [OF I, where c = c]) (use pop(2,3) R lk_invD(3,5) [OF I] in \<open>auto simp: owns_def spinning_def\<close>)
next
  case (interrupts c b)
  show ?thesis unfolding interrupts(1)
    by (rule lk_inv_same_owners [OF I, where c = c]) (use interrupts(2,3) lk_invD(3,5) [OF I] in \<open>auto simp: owns_def spinning_def\<close>)
qed

lemma reachable_inv: "reachable n f \<Longrightarrow> lk_inv n f"
proof (induction rule: reachable.induct)
  case start
  show ?case by (simp add: lk_inv_def boot_def owns_def spinning_def)
next
  case (step f f')
  then show ?case using lk_inv_step by blast
qed

text \<open>C8: The spin locks exclude each other under every interleaving of the processors. In every reachable state at most one processor owns a lock (from the
  exchange that read 0 to the write of 0), the field \<open>locked\<close> says whether one does, a processor that owns a lock or waits for one has interrupts off, and the
  counter of \<open>pushcli\<close> is the number of locks the processor owns or waits for plus its own calls. \<open>acquire\<close> panics exactly if the
  processor already holds the lock, \<open>release\<close> exactly if it does not hold it, and the \<open>popcli\<close> at the end of \<open>release\<close> never panics.\<close>

theorem spinlock_safe:
  assumes "reachable n f"
  shows "(owns f c l \<and> owns f d l \<longrightarrow> c = d)
    \<and> locked (locks (machine_of f) l) = (\<exists>c. owns f c l)
    \<and> (owns f c l \<or> place_of f c = Spin l \<longrightarrow> \<not> eflags_if (cpus (machine_of f) c))
    \<and> ncli (cpus (machine_of f) c) = int (card {l. owns f c l} + spinning f c + pushes f c)
    \<and> (place_of f c = Outside \<longrightarrow> (acquire_begin (machine_of f) c l = None \<longleftrightarrow> owns f c l)
        \<and> (release_begin (machine_of f) c l = None \<longleftrightarrow> \<not> owns f c l))
    \<and> (place_of f c = Rel l \<longrightarrow> release_end (machine_of f) c l \<noteq> None)"
proof -
  have I: "lk_inv n f" by (rule reachable_inv [OF assms])
  note D = lk_invD [OF I]
  have pos: "0 < ncli (cpus (machine_of f) c)" if "owns f c l \<or> place_of f c = Spin l"
  proof -
    have "0 < card {l. owns f c l} \<or> 0 < spinning f c" using that D(8) [of c] by (auto simp: spinning_def card_gt_0_iff)
    then show ?thesis using D(6) [of c] by auto
  qed
  have off: "\<not> eflags_if (cpus (machine_of f) c)" if "owns f c l \<or> place_of f c = Spin l" using pos [OF that] D(7) [of c] by auto
  have "release_end (machine_of f) c l \<noteq> None" if "place_of f c = Rel l"
    using that pos off by (auto simp: release_end_def popcli_def Let_def owns_def)
  moreover have "(acquire_begin (machine_of f) c l = None \<longleftrightarrow> owns f c l) \<and> (release_begin (machine_of f) c l = None \<longleftrightarrow> \<not> owns f c l)"
    if "place_of f c = Outside"
    using acquire_begin_result [OF I that, of l] release_begin_result [OF I that, of l] that by (auto simp: owns_def split: if_splits)
  ultimately show ?thesis using D(1) [of c l d] D(2) [of l] D(6) [of c] off by blast
qed

text \<open>Two processors race for a lock and the first one wins.\<close>

definition race :: config where
  "race = at (at (at boot 0 (the (acquire_begin (machine_of boot) 0 0)) (Spin 0)) 1 (the (acquire_begin (the (acquire_begin (machine_of boot) 0 0)) 1 0)) (Spin 0))
     0 (fst (xchg (the (acquire_begin (the (acquire_begin (machine_of boot) 0 0)) 1 0)) 0)) (Got 0)"

lemma race_reachable: "reachable 1 race"
proof -
  have "\<exists>s. acquire_begin (machine_of boot) 0 0 = Some s" using acquire_begin_result [OF reachable_inv [OF start], of 0 0] by (auto simp: boot_def)
  then obtain s where s: "acquire_begin (machine_of boot) 0 0 = Some s" by blast
  let ?f = "at boot 0 s (Spin 0)"
  have f: "reachable 1 ?f" by (rule step [OF start], rule acquire) (use s in \<open>simp_all add: boot_def\<close>)
  have u: "locks s = locks (machine_of boot)" using acquire_begin_result [OF reachable_inv [OF start], of 0 0] s by (auto simp: boot_def)
  have "\<exists>t. acquire_begin s 1 0 = Some t \<and> locks t = locks s" using acquire_begin_result [OF reachable_inv [OF f], of 1 0] u by (auto simp: boot_def)
  then obtain t where t: "acquire_begin s 1 0 = Some t" "locks t = locks s" by blast
  have g: "reachable 1 (at ?f 1 t (Spin 0))" by (rule step [OF f], rule acquire) (use t in \<open>simp_all add: boot_def\<close>)
  have "xchg t 0 = (fst (xchg t 0), False)" using t(2) u by (simp add: xchg_def boot_def)
  then have "reachable 1 (at (at ?f 1 t (Spin 0)) 0 (fst (xchg t 0)) (Got 0))" by (intro step [OF g] win) simp_all
  then show ?thesis using s t(1) by (simp add: race_def)
qed

theorem spinlock_safe_witness: "owns race 0 0 \<and> \<not> owns race 1 0 \<and> locked (locks (machine_of race) 0)"
proof -
  have "owns race 0 0" by (simp add: owns_def race_def)
  then show ?thesis using spinlock_safe [OF race_reachable, of 0 0 1] by auto
qed

end
