(* ===== verification/Sample_Sort.thy ===== *)
theory Sample_Sort
  imports Prelude Complex_Main
begin

text \<open>
  The parallel sample sort of \<open>hw07/unnas-hw07\<close>: the growing arrays of \<open>float_vec.c\<close>, the random
  sampling of \<open>utils.c\<close>, the barrier of \<open>barrier.c\<close> and the worker threads of \<open>ssort.c\<close>. A float
  is a real number (the program makes its floats from integers, so none of them is a NaN). The
  numbers that \<open>random\<close> returns are a list; a read outside an array and too few random numbers
  have no result. The threads are a step relation: a step of a worker is the scan of the input with the local
  sort, the arrival at the barrier, the sum of the sizes before its own, the opening of the output
  file, which truncates it, or the copy of one element to the file and to the array \<open>output\<close>, which the program
  keeps for debugging. The file is a list of floats; \<open>write_cell\<close> fills a gap before its position with zeros.
  A thread that waits at the barrier wakes up by a broadcast or spuriously, as POSIX allows, and
  \<open>barrier_wait\<close> does not check why; \<open>spurious\<close> counts these wake-ups.
\<close>

section \<open>float\_vec.c\<close>

record floats =
  fsize :: int
  fcap :: int
  fdata :: "real list"

text \<open>\<open>junk\<close> stands for what fresh memory holds.\<close>

definition make_floats :: "real \<Rightarrow> int \<Rightarrow> floats" where
  "make_floats junk nn =
     (let cap = (if nn > 1 then nn else 2)
      in \<lparr>fsize = 0, fcap = cap, fdata = replicate (nat cap) junk\<rparr>)"

definition floats_push :: "real \<Rightarrow> floats \<Rightarrow> real \<Rightarrow> floats" where
  "floats_push junk v xx =
     (let v = (if fsize v \<ge> fcap v
               then v\<lparr>fcap := fcap v * 2, fdata := fdata v @ replicate (nat (fcap v * 2) - length (fdata v)) junk\<rparr>
               else v)
      in v\<lparr>fdata := (fdata v)[nat (fsize v) := xx], fsize := fsize v + 1\<rparr>)"

definition floats_put :: "floats \<Rightarrow> int \<Rightarrow> real \<Rightarrow> floats option" where
  "floats_put v ii item =
     (if ii \<ge> 0 \<and> ii < fsize v then Some (v\<lparr>fdata := (fdata v)[nat ii := item]\<rparr>) else None)"

definition floats_get :: "floats \<Rightarrow> int \<Rightarrow> real" where
  "floats_get v ii = fdata v ! nat ii"

definition floats_contains :: "floats \<Rightarrow> real \<Rightarrow> bool" where
  "floats_contains v xx = list_ex (\<lambda>x. x = xx) (take (nat (fsize v)) (fdata v))"

text \<open>The elements of a vector, and that its buffer is large enough.\<close>

definition floats_list :: "floats \<Rightarrow> real list" where
  "floats_list v = take (nat (fsize v)) (fdata v)"

definition floats_ok :: "floats \<Rightarrow> bool" where
  "floats_ok v \<longleftrightarrow> 0 \<le> fsize v \<and> fsize v \<le> fcap v \<and> 2 \<le> fcap v \<and> int (length (fdata v)) = fcap v"

lemma make_floats_ok [simp]: "floats_ok (make_floats junk nn)" "floats_list (make_floats junk nn) = []"
  by (simp_all add: make_floats_def floats_ok_def floats_list_def Let_def)

lemma floats_push_ok:
  assumes "floats_ok v"
  shows "floats_ok (floats_push junk v x)" and "floats_list (floats_push junk v x) = floats_list v @ [x]"
proof -
  define w where "w = (if fsize v \<ge> fcap v
      then v\<lparr>fcap := fcap v * 2, fdata := fdata v @ replicate (nat (fcap v * 2) - length (fdata v)) junk\<rparr> else v)"
  have w: "0 \<le> fsize w" "fsize w < fcap w" "2 \<le> fcap w" "int (length (fdata w)) = fcap w" "floats_list w = floats_list v"
    using assms by (auto simp: w_def floats_ok_def floats_list_def)
  have p: "floats_push junk v x = w\<lparr>fdata := (fdata w)[nat (fsize w) := x], fsize := fsize w + 1\<rparr>"
    by (simp add: floats_push_def w_def Let_def)
  show "floats_ok (floats_push junk v x)" using w by (simp add: p floats_ok_def)
  have n: "nat (fsize w + 1) = Suc (nat (fsize w))" "nat (fsize w) < length (fdata w)" using w by simp_all
  show "floats_list (floats_push junk v x) = floats_list v @ [x]"
    unfolding w(5) [symmetric] using n by (simp add: p floats_list_def take_Suc_conv_app_nth)
qed

lemma floats_size: "floats_ok v \<Longrightarrow> fsize v = int (length (floats_list v))"
  by (auto simp: floats_ok_def floats_list_def)

lemma floats_get_list: "floats_ok v \<Longrightarrow> 0 \<le> i \<Longrightarrow> i < fsize v \<Longrightarrow> floats_get v i = floats_list v ! nat i"
  by (simp add: floats_get_def floats_list_def floats_ok_def)

lemma floats_contains_iff: "floats_contains v x \<longleftrightarrow> x \<in> set (floats_list v)"
  by (auto simp: floats_contains_def floats_list_def list_ex_iff)

section \<open>utils.c\<close>

fun ints_contains :: "int list \<Rightarrow> int \<Rightarrow> bool" where
  "ints_contains [] v = False"
| "ints_contains (x # xs) v = (if x = v then True else ints_contains xs v)"

text \<open>The inner loop: random numbers until one gives an index not used before.\<close>

fun pick_index :: "int list \<Rightarrow> int \<Rightarrow> int list \<Rightarrow> (int \<times> int list) option" where
  "pick_index used n [] = None"
| "pick_index used n (r # rs) =
     (let inum = r mod n in if ints_contains used inum then pick_index used n rs else Some (inum, rs))"

fun copy_rand_loop :: "real \<Rightarrow> real list \<Rightarrow> floats \<Rightarrow> int \<Rightarrow> int list \<Rightarrow> nat list \<Rightarrow> int list \<Rightarrow> floats option" where
  "copy_rand_loop junk src dest n used [] rs = Some dest"
| "copy_rand_loop junk src dest n used (ii # iis) rs =
     (case pick_index used n rs of
        None \<Rightarrow> None
      | Some (inum, rs') \<Rightarrow>
          if inum < int (length src)
          then copy_rand_loop junk src (floats_push junk dest (src ! nat inum)) n (used[ii := inum]) iis rs'
          else None)"

definition copy_rand_values :: "real \<Rightarrow> real list \<Rightarrow> floats \<Rightarrow> int \<Rightarrow> int list \<Rightarrow> floats option" where
  "copy_rand_values junk src dest nCopy rs =
     copy_rand_loop junk src dest nCopy (replicate (nat nCopy) (- 1)) [0..<nat nCopy] rs"

section \<open>ssort.c\<close>

definition FLT_MAX :: real where "FLT_MAX = 3402823466 * 10 ^ 29"

definition compare_floats :: "real \<Rightarrow> real \<Rightarrow> int" where
  "compare_floats fa fb = (if fa > fb then 1 else 0) - (if fa < fb then 1 else 0)"

text \<open>The library's \<open>qsort\<close> on a list, by the comparison function.\<close>

fun insert_by :: "('a \<Rightarrow> 'a \<Rightarrow> int) \<Rightarrow> 'a \<Rightarrow> 'a list \<Rightarrow> 'a list" where
  "insert_by cmp x [] = [x]"
| "insert_by cmp x (y # ys) = (if cmp x y \<le> 0 then x # y # ys else y # insert_by cmp x ys)"

definition qsort_by :: "('a \<Rightarrow> 'a \<Rightarrow> int) \<Rightarrow> 'a list \<Rightarrow> 'a list" where
  "qsort_by cmp xs = foldr (insert_by cmp) xs []"

definition qsort_floats :: "floats \<Rightarrow> floats" where
  "qsort_floats v = v\<lparr>fdata := qsort_by compare_floats (take (nat (fsize v)) (fdata v)) @ drop (nat (fsize v)) (fdata v)\<rparr>"

function take_medians :: "real \<Rightarrow> floats \<Rightarrow> floats \<Rightarrow> int \<Rightarrow> int \<Rightarrow> floats" where
  "take_medians junk rSort samples ii randNum =
     (if ii < randNum then take_medians junk rSort (floats_push junk samples (floats_get rSort ii)) (ii + 3) randNum
      else samples)"
  by pat_completeness auto
termination by (relation "measure (\<lambda>(junk, r, s, ii, n). nat (n - ii))") auto

declare take_medians.simps [simp del]

definition fill_samples :: "real \<Rightarrow> real list \<Rightarrow> int \<Rightarrow> int list \<Rightarrow> floats option" where
  "fill_samples junk input P rs =
     (let randNum = 3 * (P - 1) in
      case copy_rand_values junk input (make_floats junk randNum) randNum rs of
        None \<Rightarrow> None
      | Some r \<Rightarrow>
          let rSort = qsort_floats r;
              samples = floats_push junk (make_floats junk (P + 1)) 0
          in Some (floats_push junk (take_medians junk rSort samples 1 randNum) FLT_MAX))"

fun scan_input :: "real \<Rightarrow> real \<Rightarrow> real \<Rightarrow> floats \<Rightarrow> real list \<Rightarrow> floats" where
  "scan_input junk mn mx local [] = local"
| "scan_input junk mn mx local (e # es) =
     scan_input junk mn mx (if e \<ge> mn \<and> e < mx then floats_push junk local e else local) es"

text \<open>The first half of \<open>partition_worker\<close>: the local array of thread \<open>ipp\<close>, sorted.\<close>

definition local_array :: "real \<Rightarrow> real list \<Rightarrow> floats \<Rightarrow> nat \<Rightarrow> floats" where
  "local_array junk input samples ipp =
     qsort_floats (scan_input junk (floats_get samples (int ipp)) (floats_get samples (int ipp + 1))
       (make_floats junk 2) input)"

section \<open>barrier.c\<close>

record barrier =
  bcount :: int
  bseen :: int

definition make_barrier :: "int \<Rightarrow> barrier" where
  "make_barrier nn = \<lparr>bcount = 0, bseen = nn\<rparr>"

text \<open>The result says whether the caller goes on and wakes up all waiting threads, or waits.\<close>

definition barrier_wait :: "barrier \<Rightarrow> barrier \<times> bool" where
  "barrier_wait b =
     (let b = b\<lparr>bcount := bcount b + 1\<rparr>
      in if bcount b \<ge> bseen b then (b\<lparr>bcount := 0\<rparr>, True) else (b, False))"

section \<open>The threads\<close>

datatype worker =
    Fresh
  | Sorted floats
  | Waiting floats
  | Released floats
  | Opening floats int
  | Writing floats int int
  | Done

record ssort =
  sizes :: "int list"
  outarr :: "real list"
  outfile :: "real list"
  bar :: barrier
  workers :: "worker list"
  spurious :: nat

definition write_cell :: "real list \<Rightarrow> nat \<Rightarrow> real \<Rightarrow> real list" where
  "write_cell cells pos x = (cells @ replicate (Suc pos - length cells) 0)[pos := x]"

fun wake :: "worker \<Rightarrow> worker" where
  "wake (Waiting f) = Released f"
| "wake w = w"

inductive ssort_step :: "real \<Rightarrow> real list \<Rightarrow> floats \<Rightarrow> ssort \<Rightarrow> ssort \<Rightarrow> bool" for junk input samples where
  sorts: "p < length (workers s) \<Longrightarrow> workers s ! p = Fresh \<Longrightarrow> local_array junk input samples p = f
    \<Longrightarrow> ssort_step junk input samples s
          (s\<lparr>sizes := (sizes s)[p := fsize f], workers := (workers s)[p := Sorted f]\<rparr>)"
| waits: "p < length (workers s) \<Longrightarrow> workers s ! p = Sorted f \<Longrightarrow> barrier_wait (bar s) = (b, False)
    \<Longrightarrow> ssort_step junk input samples s (s\<lparr>bar := b, workers := (workers s)[p := Waiting f]\<rparr>)"
| releases: "p < length (workers s) \<Longrightarrow> workers s ! p = Sorted f \<Longrightarrow> barrier_wait (bar s) = (b, True)
    \<Longrightarrow> ssort_step junk input samples s (s\<lparr>bar := b, workers := (map wake (workers s))[p := Released f]\<rparr>)"
| wakes: "p < length (workers s) \<Longrightarrow> workers s ! p = Waiting f
    \<Longrightarrow> ssort_step junk input samples s (s\<lparr>workers := (workers s)[p := Released f], spurious := Suc (spurious s)\<rparr>)"
| sums: "p < length (workers s) \<Longrightarrow> workers s ! p = Released f
    \<Longrightarrow> ssort_step junk input samples s (s\<lparr>workers := (workers s)[p := Opening f (sum_list (take p (sizes s)))]\<rparr>)"
| opens: "p < length (workers s) \<Longrightarrow> workers s ! p = Opening f jj
    \<Longrightarrow> ssort_step junk input samples s (s\<lparr>outfile := [], workers := (workers s)[p := Writing f jj 0]\<rparr>)"
| copies: "p < length (workers s) \<Longrightarrow> workers s ! p = Writing f jj ii \<Longrightarrow> ii < fsize f
    \<Longrightarrow> ssort_step junk input samples s
          (s\<lparr>outarr := (outarr s)[nat (ii + jj) := floats_get f ii],
              outfile := write_cell (outfile s) (nat (jj + 1 + ii)) (floats_get f ii),
              workers := (workers s)[p := Writing f jj (ii + 1)]\<rparr>)"
| finishes: "p < length (workers s) \<Longrightarrow> workers s ! p = Writing f jj ii \<Longrightarrow> fsize f \<le> ii
    \<Longrightarrow> ssort_step junk input samples s (s\<lparr>workers := (workers s)[p := Done]\<rparr>)"

text \<open>The state in which \<open>main\<close> has created the threads; \<open>sizes\<close> is a fresh anonymous mapping, and the
  output file has its first element.\<close>

definition ssort_start :: "real list \<Rightarrow> nat \<Rightarrow> ssort" where
  "ssort_start input P = \<lparr>sizes = replicate P 0, outarr = replicate (length input) 0, outfile = [4096],
     bar = make_barrier (int P), workers = replicate P Fresh, spurious = 0\<rparr>"

section \<open>Local sorting and sampling\<close>

lemma qsort_by_sort: "qsort_by compare_floats xs = sort xs"
proof -
  have "insert_by compare_floats x ys = insort x ys" for x ys
    by (induction ys) (auto simp: compare_floats_def)
  then show ?thesis by (induction xs) (simp_all add: qsort_by_def)
qed

lemma qsort_floats_ok:
  assumes "floats_ok v"
  shows "floats_ok (qsort_floats v)" and "floats_list (qsort_floats v) = sort (floats_list v)"
    and "fsize (qsort_floats v) = fsize v"
  using assms by (auto simp: qsort_floats_def floats_ok_def floats_list_def qsort_by_sort)

lemma scan_input_ok:
  "floats_ok v \<Longrightarrow> floats_ok (scan_input junk mn mx v es)
     \<and> floats_list (scan_input junk mn mx v es) = floats_list v @ filter (\<lambda>x. mn \<le> x \<and> x < mx) es"
  by (induction es arbitrary: v) (auto simp: floats_push_ok)

definition part :: "real list \<Rightarrow> real list \<Rightarrow> nat \<Rightarrow> real list" where
  "part ss input p = sort (filter (\<lambda>x. ss ! p \<le> x \<and> x < ss ! Suc p) input)"

lemma local_array_ok:
  assumes "floats_ok samples" and "Suc p < length (floats_list samples)"
  shows "floats_ok (local_array junk input samples p)"
    and "floats_list (local_array junk input samples p) = part (floats_list samples) input p"
    and "fsize (local_array junk input samples p) = int (length (part (floats_list samples) input p))"
proof -
  have n: "fsize samples = int (length (floats_list samples))" by (rule floats_size [OF assms(1)])
  have g: "floats_get samples (int p) = floats_list samples ! p"
    "floats_get samples (int p + 1) = floats_list samples ! Suc p"
    using floats_get_list [OF assms(1), of "int p"] floats_get_list [OF assms(1), of "int p + 1"] assms(2) n
    by (simp_all add: nat_add_distrib)
  define v where "v = scan_input junk (floats_list samples ! p) (floats_list samples ! Suc p) (make_floats junk 2) input"
  have v: "floats_ok v" "floats_list v = filter (\<lambda>x. floats_list samples ! p \<le> x \<and> x < floats_list samples ! Suc p) input"
    using scan_input_ok [of "make_floats junk 2"] by (simp_all add: v_def)
  have l: "local_array junk input samples p = qsort_floats v" by (simp add: local_array_def g v_def)
  show "floats_ok (local_array junk input samples p)"
    and "floats_list (local_array junk input samples p) = part (floats_list samples) input p"
    using qsort_floats_ok [OF v(1)] by (simp_all add: l v(2) part_def)
  then show "fsize (local_array junk input samples p) = int (length (part (floats_list samples) input p))"
    using floats_size by metis
qed

lemma copy_rand_loop_ok:
  assumes "floats_ok dest" and "copy_rand_loop junk src dest n used iis rs = Some r"
    and "\<forall>q \<in> set rs. 0 \<le> q mod n"
  shows "floats_ok r \<and> length (floats_list r) = length (floats_list dest) + length iis
       \<and> set (floats_list r) \<subseteq> set (floats_list dest) \<union> set src"
  using assms
proof (induction iis arbitrary: dest used rs)
  case (Cons ii iis)
  then obtain inum rs' where p: "pick_index used n rs = Some (inum, rs')" "inum < int (length src)"
    "copy_rand_loop junk src (floats_push junk dest (src ! nat inum)) n (used[ii := inum]) iis rs' = Some r"
    by (auto split: option.splits if_splits)
  have "0 \<le> inum \<and> set rs' \<subseteq> set rs" using p(1) Cons.prems(3)
    by (induction rs) (auto simp: Let_def split: if_splits)
  then have "src ! nat inum \<in> set src" and rs: "\<forall>q \<in> set rs'. 0 \<le> q mod n" using p(2) Cons.prems(3) by (auto simp: nat_less_iff)
  then show ?case
    using Cons.IH [OF floats_push_ok(1) [OF Cons.prems(1)] p(3) rs] by (auto simp: floats_push_ok Cons.prems(1))
qed simp

lemma take_medians_ok:
  assumes "floats_ok r" and "floats_ok v" and "fsize r = 3 * int k" and "ii = 1 + 3 * int j" and "j \<le> k"
  shows "floats_ok (take_medians junk r v ii (3 * int k))
       \<and> floats_list (take_medians junk r v ii (3 * int k)) = floats_list v @ map (\<lambda>i. floats_list r ! (3 * i + 1)) [j..<k]"
  using assms
proof (induction "k - j" arbitrary: v ii j)
  case 0
  then show ?case by (subst take_medians.simps, subst take_medians.simps) simp
next
  case (Suc d)
  then have j: "j < k" by simp
  define w where "w = floats_push junk v (floats_get r ii)"
  have nth: "floats_get r ii = floats_list r ! (3 * j + 1)"
  proof -
    have "nat ii = 3 * j + 1" using Suc.prems(4) by simp
    then show ?thesis using floats_get_list [OF Suc.prems(1), of ii] Suc.prems(3,4) j by simp
  qed
  have w: "floats_ok w" "floats_list w = floats_list v @ [floats_list r ! (3 * j + 1)]"
    using Suc.prems(2) by (simp_all add: w_def floats_push_ok nth)
  have step: "take_medians junk r v ii (3 * int k) = take_medians junk r w (ii + 3) (3 * int k)"
    using Suc.prems(4) j by (subst take_medians.simps) (simp add: w_def)
  have "floats_ok (take_medians junk r w (ii + 3) (3 * int k))
      \<and> floats_list (take_medians junk r w (ii + 3) (3 * int k)) = floats_list w @ map (\<lambda>i. floats_list r ! (3 * i + 1)) [Suc j..<k]"
    by (rule Suc.hyps(1)) (use Suc w j in auto)
  then show ?case using j by (simp add: step w(2) upt_conv_Cons)
qed

text \<open>The splitters: \<open>P + 1\<close> values in order, from 0 to \<open>FLT_MAX\<close>.\<close>

lemma fill_samples_ok:
  assumes "fill_samples junk input (int P) rs = Some samples" and "1 \<le> P"
    and "\<forall>x \<in> set input. 0 \<le> x \<and> x < FLT_MAX"
  shows "floats_ok samples \<and> length (floats_list samples) = P + 1 \<and> sorted (floats_list samples)
       \<and> floats_list samples ! 0 = 0 \<and> floats_list samples ! P = FLT_MAX"
proof -
  define k where "k = P - 1"
  have rn: "3 * (int P - 1) = 3 * int k" using assms(2) by (simp add: k_def)
  obtain r where r: "copy_rand_values junk input (make_floats junk (3 * int k)) (3 * int k) rs = Some r"
    and s: "samples = floats_push junk (take_medians junk (qsort_floats r) (floats_push junk (make_floats junk (int P + 1)) 0) 1 (3 * int k)) FLT_MAX"
    using assms(1) unfolding fill_samples_def rn Let_def by (auto split: option.splits)
  have "\<forall>q \<in> set rs. 0 \<le> q mod (3 * int k)" if "k \<noteq> 0" using that by simp
  then have r1: "floats_ok r \<and> length (floats_list r) = 3 * k \<and> set (floats_list r) \<subseteq> set input"
  proof (cases "k = 0")
    case True
    then show ?thesis using r by (auto simp: copy_rand_values_def)
  next
    case False
    then show ?thesis using copy_rand_loop_ok [OF make_floats_ok(1) r [unfolded copy_rand_values_def]] by (simp add: nat_mult_distrib)
  qed
  define rr where "rr = floats_list (qsort_floats r)"
  have q: "floats_ok (qsort_floats r)" "rr = sort (floats_list r)" "fsize (qsort_floats r) = 3 * int k"
    using qsort_floats_ok [of r] floats_size [of r] r1 by (simp_all add: rr_def)
  define v where "v = floats_push junk (make_floats junk (int P + 1)) 0"
  have v: "floats_ok v" "floats_list v = [0]" by (simp_all add: v_def floats_push_ok)
  define m where "m = map (\<lambda>i. rr ! (3 * i + 1)) [0..<k]"
  have t: "floats_ok (take_medians junk (qsort_floats r) v 1 (3 * int k))"
    "floats_list (take_medians junk (qsort_floats r) v 1 (3 * int k)) = 0 # m"
    using take_medians_ok [OF q(1) v(1) q(3), of 1 0 junk] v(2) by (simp_all add: m_def rr_def)
  have ok: "floats_ok samples" and l: "floats_list samples = 0 # m @ [FLT_MAX]"
    using floats_push_ok [OF t(1)] t(2) by (simp_all add: s v_def)
  have rr: "length rr = 3 * k" "set rr \<subseteq> set input" using r1 by (simp_all add: q(2))
  have "x \<in> set input" if "x \<in> set m" for x using that rr by (auto simp: m_def)
  then have "\<forall>x \<in> set m. 0 \<le> x \<and> x \<le> FLT_MAX" using assms(3) by (auto intro: less_imp_le)
  moreover have "sorted m"
    unfolding m_def sorted_map sorted_wrt_iff_nth_less using rr(1) q(2) by (auto simp: sorted_nth_mono)
  ultimately have "sorted (floats_list samples)" by (auto simp: l sorted_append FLT_MAX_def)
  moreover have "length m = k" by (simp add: m_def)
  ultimately show ?thesis using ok assms(2) by (simp add: l k_def nth_append)
qed

section \<open>The parts make up the sorted input\<close>

lemma parts_concat:
  assumes "sorted ss" and "P < length ss"
  shows "concat (map (part ss input) [0..<P]) = sort (filter (\<lambda>x. ss ! 0 \<le> x \<and> x < ss ! P) input)"
  using assms(2)
proof (induction P)
  case 0
  then show ?case by (auto simp: filter_empty_conv)
next
  case (Suc P)
  let ?A = "filter (\<lambda>x. ss ! 0 \<le> x \<and> x < ss ! P) input"
  let ?B = "filter (\<lambda>x. ss ! P \<le> x \<and> x < ss ! Suc P) input"
  have le: "ss ! 0 \<le> ss ! P" "ss ! P \<le> ss ! Suc P" using assms(1) Suc.prems by (auto intro: sorted_nth_mono)
  have "mset (filter (\<lambda>x. ss ! 0 \<le> x \<and> x < ss ! Suc P) input) = mset ?A + mset ?B"
    using le by (induction input) auto
  moreover have "sorted (sort ?A @ sort ?B)" by (auto simp: sorted_append)
  ultimately have "sort ?A @ sort ?B = sort (filter (\<lambda>x. ss ! 0 \<le> x \<and> x < ss ! Suc P) input)"
    by (intro properties_for_sort [symmetric]) simp_all
  then show ?case using Suc by (simp add: part_def)
qed

section \<open>The invariant of the threads\<close>

definition offs :: "real list \<Rightarrow> real list \<Rightarrow> nat \<Rightarrow> nat" where
  "offs ss input p = length (concat (map (part ss input) [0..<p]))"

lemma offs_Suc [simp]: "offs ss input (Suc p) = offs ss input p + length (part ss input p)"
  by (simp add: offs_def)

lemma offs_mono: "p < q \<Longrightarrow> offs ss input p + length (part ss input p) \<le> offs ss input q"
  by (induction q) (auto simp: less_Suc_eq)

lemma offs_disjoint:
  "p \<noteq> q \<Longrightarrow> i < length (part ss input p) \<Longrightarrow> j < length (part ss input q) \<Longrightarrow> offs ss input p + i \<noteq> offs ss input q + j"
  using offs_mono [of p q ss input] offs_mono [of q p ss input] by (cases "p < q") auto

lemma offs_sum: "(\<And>q. q < p \<Longrightarrow> zs ! q = int (length (part ss input q))) \<Longrightarrow> p \<le> length zs
    \<Longrightarrow> sum_list (take p zs) = int (offs ss input p)"
  by (induction p) (simp_all add: take_Suc_conv_app_nth offs_def)

definition slice_ok :: "real list \<Rightarrow> real list \<Rightarrow> real list \<Rightarrow> nat \<Rightarrow> nat \<Rightarrow> bool" where
  "slice_ok ss input out p n \<longleftrightarrow> (\<forall>k < n. out ! (offs ss input p + k) = part ss input p ! k)"

fun worker_ok :: "real list \<Rightarrow> real list \<Rightarrow> real list \<Rightarrow> nat \<Rightarrow> worker \<Rightarrow> bool" where
  "worker_ok ss input out p Fresh = True"
| "worker_ok ss input out p (Sorted f) = (floats_ok f \<and> floats_list f = part ss input p)"
| "worker_ok ss input out p (Waiting f) = (floats_ok f \<and> floats_list f = part ss input p)"
| "worker_ok ss input out p (Released f) = (floats_ok f \<and> floats_list f = part ss input p)"
| "worker_ok ss input out p (Opening f jj) = (floats_ok f \<and> floats_list f = part ss input p \<and> jj = int (offs ss input p))"
| "worker_ok ss input out p (Writing f jj ii) = (floats_ok f \<and> floats_list f = part ss input p
     \<and> jj = int (offs ss input p) \<and> 0 \<le> ii \<and> ii \<le> fsize f \<and> slice_ok ss input out p (nat ii))"
| "worker_ok ss input out p Done = slice_ok ss input out p (length (part ss input p))"

fun waiting :: "worker \<Rightarrow> bool" where
  "waiting (Waiting f) = True"
| "waiting w = False"

fun before :: "worker \<Rightarrow> bool" where
  "before Fresh = True"
| "before (Sorted f) = True"
| "before (Waiting f) = True"
| "before w = False"

definition barrier_ok :: "ssort \<Rightarrow> bool" where
  "barrier_ok s \<longleftrightarrow> bseen (bar s) = int (length (workers s))
     \<and> ((\<forall>w \<in> set (workers s). before w) \<and> bcount (bar s) = int (length (filter waiting (workers s)))
           \<and> bcount (bar s) < bseen (bar s)
        \<or> (\<forall>w \<in> set (workers s). \<not> before w))"

definition ssort_inv :: "real list \<Rightarrow> real list \<Rightarrow> nat \<Rightarrow> ssort \<Rightarrow> bool" where
  "ssort_inv ss input P s \<longleftrightarrow> length (workers s) = P \<and> length (sizes s) = P \<and> length (outarr s) = length input
     \<and> (\<forall>p < P. worker_ok ss input (outarr s) p (workers s ! p))
     \<and> (\<forall>p < P. workers s ! p \<noteq> Fresh \<longrightarrow> sizes s ! p = int (length (part ss input p)))
     \<and> barrier_ok s"

lemma filter_update_count:
  "i < length xs \<Longrightarrow> length (filter Q (xs[i := y])) + (if Q (xs ! i) then 1 else 0)
     = length (filter Q xs) + (if Q y then 1 else 0)"
proof (induction xs arbitrary: i)
  case (Cons x xs)
  then show ?case by (cases i) auto
qed simp

lemma filter_all_but_one:
  assumes "p < length xs" and "\<not> Q (xs ! p)" and "length xs \<le> Suc (length (filter Q xs))" and "q < length xs" and "q \<noteq> p"
  shows "Q (xs ! q)"
proof (rule ccontr)
  assume "\<not> Q (xs ! q)"
  then have "{i. i < length xs \<and> Q (xs ! i)} \<subseteq> {..<length xs} - {p, q}" using assms(2) by auto
  then have "length (filter Q xs) \<le> card ({..<length xs} - {p, q})"
    unfolding length_filter_conv_card by (intro card_mono) auto
  also have "\<dots> = length xs - 2" using assms(1,4,5) by (simp add: card_Diff_subset)
  finally show False using assms(1,3,4,5) by linarith
qed

lemma barrier_ok_update:
  assumes "barrier_ok s" and "p < length (workers s)" and "before (workers s ! p)" and "before w"
    and "waiting w = waiting (workers s ! p)" and "workers t = (workers s)[p := w]" and "bar t = bar s"
  shows "barrier_ok t"
proof -
  have "workers s ! p \<in> set (workers s)" using assms(2) by simp
  then have b: "\<forall>w \<in> set (workers s). before w" "bcount (bar s) = int (length (filter waiting (workers s)))"
    "bcount (bar s) < bseen (bar s)" "bseen (bar s) = int (length (workers s))"
    using assms(1,3) unfolding barrier_ok_def by blast+
  have "length (filter waiting (workers t)) = length (filter waiting (workers s))"
    using filter_update_count [OF assms(2), of waiting w] assms(5,6) by auto
  moreover have "\<forall>w \<in> set (workers t). before w" using b(1) assms(4,6) by (auto dest!: set_update_subset_insert [THEN subsetD])
  ultimately show ?thesis using b assms(6,7) by (simp add: barrier_ok_def)
qed

lemma barrier_ok_after:
  assumes "barrier_ok s" and "p < length (workers s)" and "\<not> before (workers s ! p)" and "\<not> before w"
    and "workers t = (workers s)[p := w]" and "bar t = bar s"
  shows "barrier_ok t" and "\<forall>w \<in> set (workers s). \<not> before w"
proof -
  have "workers s ! p \<in> set (workers s)" using assms(2) by simp
  then show b: "\<forall>w \<in> set (workers s). \<not> before w" using assms(1,3) unfolding barrier_ok_def by blast
  then have "\<forall>w \<in> set (workers t). \<not> before w" using assms(4,5) by (auto dest!: set_update_subset_insert [THEN subsetD])
  then show "barrier_ok t" using assms(1,5,6) by (simp add: barrier_ok_def)
qed

lemma barrier_ok_waits:
  assumes "barrier_ok s" and "p < length (workers s)" and "workers s ! p = Sorted f" and "barrier_wait (bar s) = (b, False)"
  shows "barrier_ok (s\<lparr>bar := b, workers := (workers s)[p := Waiting f]\<rparr>)"
proof -
  have "Sorted f \<in> set (workers s)" using assms(2,3) by (metis nth_mem)
  then have bf: "\<forall>w \<in> set (workers s). before w" "bcount (bar s) = int (length (filter waiting (workers s)))"
    "bseen (bar s) = int (length (workers s))"
    using assms(1) unfolding barrier_ok_def by force+
  have b: "b = (bar s)\<lparr>bcount := bcount (bar s) + 1\<rparr>" "bcount (bar s) + 1 < bseen (bar s)"
    using assms(4) by (auto simp: barrier_wait_def Let_def split: if_splits)
  have "length (filter waiting ((workers s)[p := Waiting f])) = Suc (length (filter waiting (workers s)))"
    using filter_update_count [OF assms(2), of waiting "Waiting f"] assms(3) by simp
  moreover have "\<forall>w \<in> set ((workers s)[p := Waiting f]). before w"
    using bf(1) by (auto dest!: set_update_subset_insert [THEN subsetD])
  ultimately show ?thesis using bf b by (simp add: barrier_ok_def)
qed

lemma barrier_releases:
  assumes "barrier_ok s" and "p < length (workers s)" and "workers s ! p = Sorted f" and "barrier_wait (bar s) = (b, True)"
    and "q < length (workers s)" and "q \<noteq> p"
  shows "waiting (workers s ! q)"
proof (rule filter_all_but_one [OF assms(2) _ _ assms(5,6)])
  have "Sorted f \<in> set (workers s)" using assms(2,3) by (metis nth_mem)
  then have bf: "bcount (bar s) = int (length (filter waiting (workers s)))" "bseen (bar s) = int (length (workers s))"
    using assms(1) unfolding barrier_ok_def by force+
  have "bseen (bar s) \<le> bcount (bar s) + 1"
    using assms(4) by (auto simp: barrier_wait_def Let_def split: if_splits)
  then show "length (workers s) \<le> Suc (length (filter waiting (workers s)))" using bf by simp
qed (simp add: assms(3))

lemma ssort_invD:
  assumes "ssort_inv ss input P s" and "p < P"
  shows "worker_ok ss input (outarr s) p (workers s ! p)"
    and "workers s ! p \<noteq> Fresh \<Longrightarrow> sizes s ! p = int (length (part ss input p))"
  using assms by (simp_all add: ssort_inv_def)

lemma waiting_cases: "waiting w \<longleftrightarrow> (\<exists>f. w = Waiting f)"
  by (cases w) auto

lemma ssort_inv_releases:
  assumes "ssort_inv ss input P s" and "p < P" and "workers s ! p = Sorted f" and "barrier_wait (bar s) = (b, True)"
  shows "ssort_inv ss input P (s\<lparr>bar := b, workers := (map wake (workers s))[p := Released f]\<rparr>)"
proof -
  have len: "length (workers s) = P" and bok: "barrier_ok s" using assms(1) by (simp_all add: ssort_inv_def)
  let ?ws = "(map wake (workers s))[p := Released f]"
  have w: "\<exists>g. ?ws ! q = Released g \<and> floats_ok g \<and> floats_list g = part ss input q
      \<and> sizes s ! q = int (length (part ss input q))" if "q < P" for q
  proof (cases "q = p")
    case True
    then show ?thesis using ssort_invD [OF assms(1,2)] assms(3) len that by simp
  next
    case False
    have "waiting (workers s ! q)"
      by (rule barrier_releases [OF bok _ assms(3,4)]) (use assms(2) that len False in auto)
    then obtain g where "workers s ! q = Waiting g" by (auto simp: waiting_cases)
    then show ?thesis using ssort_invD [OF assms(1) that] False that len by simp
  qed
  have "\<not> before v" if v: "v \<in> set ?ws" for v
  proof -
    have "length ?ws = P" using len by simp
    then obtain q where "q < P" "v = ?ws ! q" using v unfolding in_set_conv_nth by blast
    then show ?thesis using w [of q] by auto
  qed
  moreover have "bseen b = bseen (bar s)" using assms(4) by (auto simp: barrier_wait_def Let_def split: if_splits)
  ultimately have "barrier_ok (s\<lparr>bar := b, workers := ?ws\<rparr>)" using bok by (simp add: barrier_ok_def)
  moreover have "worker_ok ss input (outarr s) q (?ws ! q)" "sizes s ! q = int (length (part ss input q))" if "q < P" for q
    using w [OF that] by auto
  ultimately show ?thesis using assms(1) len by (simp add: ssort_inv_def)
qed

lemma slice_ok_other:
  assumes "q \<noteq> p" and "n \<le> length (part ss input q)" and "i < length (part ss input p)"
    and "slice_ok ss input out q n"
  shows "slice_ok ss input (out[offs ss input p + i := x]) q n"
  unfolding slice_ok_def
proof (intro allI impI)
  fix k assume k: "k < n"
  then have "offs ss input q + k \<noteq> offs ss input p + i" using offs_disjoint [OF assms(1), of k ss input i] assms(2,3) by simp
  then show "out[offs ss input p + i := x] ! (offs ss input q + k) = part ss input q ! k"
    using assms(4) k by (simp add: slice_ok_def)
qed

lemma worker_ok_other:
  assumes "q \<noteq> p" and "i < length (part ss input p)" and "worker_ok ss input out q w"
  shows "worker_ok ss input (out[offs ss input p + i := x]) q w"
proof (cases w)
  case (Writing f jj ii)
  then have "nat ii \<le> length (part ss input q)" using assms(3) floats_size [of f] by (auto simp: nat_le_iff)
  then show ?thesis using assms slice_ok_other [of q p "nat ii"] Writing by simp
qed (use assms slice_ok_other [of q p "length (part ss input q)"] in auto)

lemma ssort_inv_copies:
  assumes "ssort_inv ss input P s" and "p < P" and "workers s ! p = Writing f jj ii" and "ii < fsize f"
    and "offs ss input P \<le> length input"
  shows "ssort_inv ss input P (s\<lparr>outarr := (outarr s)[nat (ii + jj) := floats_get f ii], outfile := file,
           workers := (workers s)[p := Writing f jj (ii + 1)]\<rparr>)"
proof -
  have len: "length (workers s) = P" "length (outarr s) = length input" and bok: "barrier_ok s"
    using assms(1) by (simp_all add: ssort_inv_def)
  have f: "floats_ok f" "floats_list f = part ss input p" "jj = int (offs ss input p)" "0 \<le> ii"
    "slice_ok ss input (outarr s) p (nat ii)"
    using ssort_invD(1) [OF assms(1,2)] assms(3) by simp_all
  have n: "nat ii < length (part ss input p)" using floats_size [OF f(1)] f(2,4) assms(4) by simp
  have at: "nat (ii + jj) = offs ss input p + nat ii" using f(3,4) by simp
  have val: "floats_get f ii = part ss input p ! nat ii" using floats_get_list [OF f(1,4) assms(4)] f(2) by simp
  have "offs ss input p + nat ii < length (outarr s)"
    using offs_mono [of p P ss input] assms(2,5) n len(2) by (cases "p = P") auto
  then have own: "slice_ok ss input ((outarr s)[offs ss input p + nat ii := part ss input p ! nat ii]) p (Suc (nat ii))"
    using f(5) by (auto simp: slice_ok_def nth_list_update less_Suc_eq)
  have "barrier_ok (s\<lparr>outarr := (outarr s)[nat (ii + jj) := floats_get f ii], outfile := file, workers := (workers s)[p := Writing f jj (ii + 1)]\<rparr>)"
    by (rule barrier_ok_after(1) [OF bok]) (use assms(2,3) len in auto)
  moreover have "worker_ok ss input ((outarr s)[offs ss input p + nat ii := part ss input p ! nat ii]) q
      ((workers s)[p := Writing f jj (ii + 1)] ! q)" if "q < P" for q
  proof (cases "q = p")
    case True
    have "nat (ii + 1) = Suc (nat ii)" using f(4) by simp
    then show ?thesis using True that len f own assms(4) by simp
  next
    case False
    then show ?thesis using worker_ok_other [OF False n ssort_invD(1) [OF assms(1) that]] by simp
  qed
  ultimately show ?thesis using assms(1-3) len by (auto simp: ssort_inv_def at val nth_list_update)
qed

lemma ssort_inv_update:
  assumes "ssort_inv ss input P s" and "p < P" and "workers t = (workers s)[p := w]" and "sizes t = sizes s"
    and "outarr t = outarr s" and "barrier_ok t" and "worker_ok ss input (outarr s) p w" and "workers s ! p \<noteq> Fresh"
  shows "ssort_inv ss input P t"
  using assms by (auto simp: ssort_inv_def nth_list_update)

lemma ssort_inv_step:
  assumes "ssort_step junk input samples s t" and "ssort_inv (floats_list samples) input P s" and "spurious t = spurious s"
    and "floats_ok samples" and "length (floats_list samples) = P + 1" and "offs (floats_list samples) input P \<le> length input"
  shows "ssort_inv (floats_list samples) input P t"
  using assms(1-3)
proof (induction rule: ssort_step.induct)
  case (sorts p s f)
  have p: "p < P" using sorts by (simp add: ssort_inv_def)
  note l = local_array_ok [OF assms(4), of p junk input, unfolded sorts.hyps(3)]
  have "barrier_ok (s\<lparr>sizes := (sizes s)[p := fsize f], workers := (workers s)[p := Sorted f]\<rparr>)"
    by (rule barrier_ok_update [of s p "Sorted f"]) (use sorts in \<open>auto simp: ssort_inv_def\<close>)
  then show ?case using sorts l p assms(5) by (auto simp: ssort_inv_def nth_list_update)
next
  case (waits p s f b)
  have p: "p < P" and bok: "barrier_ok s" using waits by (simp_all add: ssort_inv_def)
  show ?case
    by (rule ssort_inv_update [OF waits.prems(1) p _ _ _ barrier_ok_waits [OF bok waits.hyps]])
      (use ssort_invD(1) [OF waits.prems(1) p] waits.hyps in auto)
next
  case (releases p s f b)
  then show ?case by (intro ssort_inv_releases) (auto simp: ssort_inv_def)
next
  case (sums p s f)
  have p: "p < P" and bok: "barrier_ok s" and len: "length (workers s) = P" "length (sizes s) = P"
    using sums by (simp_all add: ssort_inv_def)
  let ?t = "s\<lparr>workers := (workers s)[p := Opening f (sum_list (take p (sizes s)))]\<rparr>"
  have b: "barrier_ok ?t" "\<forall>w \<in> set (workers s). \<not> before w"
    using barrier_ok_after [OF bok sums.hyps(1), of "Opening f (sum_list (take p (sizes s)))" ?t] sums.hyps(2) by simp_all
  have "workers s ! q \<noteq> Fresh" if "q < P" for q using b(2) that len by (metis before.simps(1) nth_mem)
  then have "sum_list (take p (sizes s)) = int (offs (floats_list samples) input p)"
    using ssort_invD(2) [OF sums.prems(1)] p len by (intro offs_sum) auto
  then have wk: "worker_ok (floats_list samples) input (outarr s) p (Opening f (sum_list (take p (sizes s))))"
    using ssort_invD(1) [OF sums.prems(1) p] sums.hyps(2) by simp
  show ?case by (rule ssort_inv_update [OF sums.prems(1) p _ _ _ b(1) wk]) (simp_all add: sums.hyps(2))
next
  case (opens p s f jj)
  have p: "p < P" and bok: "barrier_ok s" using opens by (simp_all add: ssort_inv_def)
  have b: "barrier_ok (s\<lparr>outfile := [], workers := (workers s)[p := Writing f jj 0]\<rparr>)"
    by (rule barrier_ok_after(1) [OF bok opens.hyps(1), of "Writing f jj 0"]) (simp_all add: opens.hyps(2))
  have wk: "worker_ok (floats_list samples) input (outarr s) p (Writing f jj 0)"
    using ssort_invD(1) [OF opens.prems(1) p] opens.hyps(2) floats_size [of f] by (simp add: slice_ok_def)
  show ?case by (rule ssort_inv_update [OF opens.prems(1) p _ _ _ b wk]) (simp_all add: opens.hyps(2))
next
  case (copies p s f jj ii)
  then show ?case using assms(6) by (intro ssort_inv_copies) (auto simp: ssort_inv_def)
next
  case (finishes p s f jj ii)
  have p: "p < P" and bok: "barrier_ok s" using finishes by (simp_all add: ssort_inv_def)
  have b: "barrier_ok (s\<lparr>workers := (workers s)[p := Done]\<rparr>)"
    by (rule barrier_ok_after(1) [OF bok finishes.hyps(1), of Done]) (simp_all add: finishes.hyps(2))
  have "worker_ok (floats_list samples) input (outarr s) p (Writing f jj ii)"
    using ssort_invD(1) [OF finishes.prems(1) p] finishes.hyps(2) by simp
  then have wk: "worker_ok (floats_list samples) input (outarr s) p Done"
    using finishes.hyps(3) floats_size [of f] by auto
  show ?case by (rule ssort_inv_update [OF finishes.prems(1) p _ _ _ b wk]) (simp_all add: finishes.hyps(2))
qed simp

lemma spurious_step: "ssort_step junk input samples s t \<Longrightarrow> spurious s \<le> spurious t \<and> spurious t \<le> Suc (spurious s)"
  by (induction rule: ssort_step.induct) simp_all

lemma ssort_inv_start: "1 \<le> P \<Longrightarrow> ssort_inv ss input P (ssort_start input P)"
  by (auto simp: ssort_inv_def ssort_start_def barrier_ok_def make_barrier_def)

section \<open>Correctness\<close>

lemma slices_concat:
  assumes "\<forall>p < P. slice_ok ss input out p (length (part ss input p))" and "offs ss input P \<le> length out"
  shows "take (offs ss input P) out = concat (map (part ss input) [0..<P])"
  using assms
proof (induction P)
  case 0
  then show ?case by (simp add: offs_def)
next
  case (Suc P)
  have "take (length (part ss input P)) (drop (offs ss input P) out) = part ss input P"
    using Suc.prems by (intro nth_equalityI) (auto simp: slice_ok_def)
  then show ?case using Suc by (simp add: take_add)
qed

lemma ssort_steps: "ssort_step junk input samples s t \<Longrightarrow> spurious t = spurious s
    \<Longrightarrow> \<exists>t. ssort_step junk input samples s t \<and> spurious t = spurious s"
  by blast

lemma ssort_progress:
  assumes "ssort_inv ss input P s" and "\<exists>w \<in> set (workers s). w \<noteq> Done"
  shows "\<exists>t. ssort_step junk input samples s t \<and> spurious t = spurious s"
proof (cases "\<exists>p < length (workers s). \<not> waiting (workers s ! p) \<and> workers s ! p \<noteq> Done")
  case True
  then obtain p where p: "p < length (workers s)" "\<not> waiting (workers s ! p)" "workers s ! p \<noteq> Done" by blast
  obtain b r where br: "barrier_wait (bar s) = (b, r)" by (cases "barrier_wait (bar s)")
  show ?thesis
  proof (cases "workers s ! p")
    case (Sorted f)
    show ?thesis
    proof (cases r)
      case True
      then show ?thesis using br by (intro ssort_steps [OF ssort_step.releases [OF p(1) Sorted]]) auto
    next
      case False
      then show ?thesis using br by (intro ssort_steps [OF ssort_step.waits [OF p(1) Sorted]]) auto
    qed
  next
    case (Writing f jj ii)
    show ?thesis
    proof (cases "ii < fsize f")
      case True
      then show ?thesis by (intro ssort_steps [OF ssort_step.copies [OF p(1) Writing]]) auto
    next
      case False
      then show ?thesis by (intro ssort_steps [OF ssort_step.finishes [OF p(1) Writing]]) auto
    qed
  next
    case Fresh
    from ssort_steps [OF ssort_step.sorts [OF p(1) this refl]] show ?thesis by simp
  next
    case (Released f)
    from ssort_steps [OF ssort_step.sums [OF p(1) this]] show ?thesis by simp
  next
    case (Opening f jj)
    from ssort_steps [OF ssort_step.opens [OF p(1) this]] show ?thesis by simp
  qed (use p in auto)
next
  case False
  then have wd: "waiting w \<or> w = Done" if "w \<in> set (workers s)" for w using that by (metis in_set_conv_nth)
  then obtain w where "w \<in> set (workers s)" "before w" using assms(2) by (metis before.simps(3) waiting_cases)
  moreover have "barrier_ok s" using assms(1) by (simp add: ssort_inv_def)
  ultimately have b: "\<forall>w \<in> set (workers s). before w" "bcount (bar s) = int (length (filter waiting (workers s)))"
    "bcount (bar s) < int (length (workers s))" unfolding barrier_ok_def by auto
  have "\<forall>w \<in> set (workers s). waiting w" using wd b(1) by force
  then show ?thesis using b(2,3) by (simp add: filter_id_conv)
qed

text \<open>What holds of the output file whatever the threads do: once one of them has opened it, its first
  element is gone.\<close>

fun past_open :: "worker \<Rightarrow> bool" where
  "past_open (Writing f jj ii) = True"
| "past_open Done = True"
| "past_open w = False"

fun positions_ok :: "worker \<Rightarrow> bool" where
  "positions_ok (Opening f jj) = (0 \<le> jj)"
| "positions_ok (Writing f jj ii) = (0 \<le> jj \<and> 0 \<le> ii)"
| "positions_ok w = True"

definition file_inv :: "ssort \<Rightarrow> bool" where
  "file_inv s \<longleftrightarrow> (\<forall>z \<in> set (sizes s). 0 \<le> z) \<and> (\<forall>w \<in> set (workers s). positions_ok w)
     \<and> ((\<exists>w \<in> set (workers s). past_open w) \<longrightarrow> (outfile s = [] \<or> outfile s ! 0 = 0))"

lemma set_update_cases: "x \<in> set (xs[i := y]) \<Longrightarrow> x = y \<or> x \<in> set xs"
  by (auto dest!: set_update_subset_insert [THEN subsetD])

lemma local_array_size: "0 \<le> fsize (local_array junk input samples p)"
  using qsort_floats_ok(1) scan_input_ok [of "make_floats junk 2"] unfolding local_array_def
  by (metis floats_ok_def make_floats_ok(1))

lemma write_cell_head: "0 < pos \<Longrightarrow> cells = [] \<or> cells ! 0 = 0 \<Longrightarrow> write_cell cells pos x ! 0 = 0"
  by (cases cells; cases pos) (auto simp: write_cell_def)

lemma file_inv_worker:
  assumes "file_inv s" and "positions_ok w" and "past_open w \<longrightarrow> (outfile s = [] \<or> outfile s ! 0 = 0)"
  shows "file_inv (s\<lparr>workers := (workers s)[p := w]\<rparr>)"
  using assms by (auto simp: file_inv_def dest!: set_update_cases)

lemma file_inv_step: "ssort_step junk input samples s t \<Longrightarrow> file_inv s \<Longrightarrow> file_inv t"
proof (induction rule: ssort_step.induct)
  case (sorts p s f)
  then show ?case using local_array_size [of junk input samples p] by (auto simp: file_inv_def dest!: set_update_cases)
next
  case (releases p s f b)
  have w: "positions_ok (wake w) = positions_ok w" "past_open (wake w) = past_open w" for w by (cases w; simp)+
  show ?case using releases.prems by (auto simp: file_inv_def w dest!: set_update_cases)
next
  case (sums p s f)
  have "0 \<le> sum_list (take p (sizes s))"
    using sums.prems by (intro sum_list_nonneg) (auto simp: file_inv_def dest: in_set_takeD)
  then show ?case by (intro file_inv_worker [OF sums.prems]) auto
next
  case (copies p s f jj ii)
  have "Writing f jj ii \<in> set (workers s)" using copies by (metis nth_mem)
  then have "positions_ok (Writing f jj ii)" "outfile s = [] \<or> outfile s ! 0 = 0"
    using copies.prems past_open.simps(1) unfolding file_inv_def by blast+
  then show ?case
    using copies.prems write_cell_head [of "nat (jj + 1 + ii)" "outfile s"] by (auto simp: file_inv_def dest!: set_update_cases)
next
  case (finishes p s f jj ii)
  have "Writing f jj ii \<in> set (workers s)" using finishes by (metis nth_mem)
  then have "positions_ok (Writing f jj ii)" "outfile s = [] \<or> outfile s ! 0 = 0"
    using finishes.prems past_open.simps(1) unfolding file_inv_def by blast+
  then show ?case by (intro file_inv_worker [OF finishes.prems]) auto
next
  case (opens p s f jj)
  have "Opening f jj \<in> set (workers s)" using opens by (metis nth_mem)
  then show ?case using opens.prems by (auto simp: file_inv_def dest!: set_update_cases)
qed (auto simp: file_inv_def dest!: set_update_cases)

text \<open>the output file has lost its first element, the 4096 that \<open>main\<close> writes, once some thread is done, under every
  interleaving: every thread truncates the file when it opens it, and writes only behind the first element.\<close>

theorem output_file_loses_header:
  assumes "(ssort_step junk input samples)\<^sup>*\<^sup>* (ssort_start input P) s" and "Done \<in> set (workers s)"
  shows "outfile s = [] \<or> outfile s ! 0 = 0"
proof -
  have "file_inv s" using assms(1)
  proof (induction rule: rtranclp_induct)
    case base
    show ?case by (auto simp: file_inv_def ssort_start_def)
  next
    case (step x y)
    from file_inv_step [OF step(2,3)] show ?case .
  qed
  then show ?thesis using assms(2) past_open.simps(2) unfolding file_inv_def by blast
qed

text \<open>C17: The parallel sample sort sorts into its array \<open>output\<close> under every interleaving of its threads, as long as no thread
  wakes up spuriously at the barrier: in every state reached without such a wake-up, either some thread
  can make a step other than a spurious wake-up (the barrier never deadlocks), or all are done and the array holds the sorted
  input, for inputs between 0 and the largest float. (The output file does not: \<open>output_file_loses_header\<close>.)\<close>

theorem sample_sort_correct:
  assumes "fill_samples junk input (int P) rs = Some samples" and "1 \<le> P"
    and "\<forall>x \<in> set input. 0 \<le> x \<and> x < FLT_MAX"
    and "(ssort_step junk input samples)\<^sup>*\<^sup>* (ssort_start input P) s" and "spurious s = 0"
  shows "(\<exists>t. ssort_step junk input samples s t \<and> spurious t = 0)
    \<or> (\<forall>w \<in> set (workers s). w = Done) \<and> outarr s = sort input"
proof -
  define ss where "ss = floats_list samples"
  have sm: "floats_ok samples" "length ss = P + 1" "sorted ss" "ss ! 0 = 0" "ss ! P = FLT_MAX"
    using fill_samples_ok [OF assms(1-3)] by (simp_all add: ss_def)
  have all: "concat (map (part ss input) [0..<P]) = sort input"
    using parts_concat [OF sm(3), of P input] sm assms(3) by simp
  then have n: "offs ss input P = length input" by (simp add: offs_def)
  have inv: "ssort_inv ss input P s" using assms(4,5)
  proof (induction rule: rtranclp_induct)
    case base
    show ?case by (rule ssort_inv_start [OF assms(2)])
  next
    case (step x y)
    have "spurious x = 0" using spurious_step [OF step(2)] step.prems by simp
    with step show ?case unfolding ss_def by (intro ssort_inv_step [OF step(2)]) (use sm n in \<open>simp_all add: ss_def\<close>)
  qed
  show ?thesis
  proof (cases "\<exists>w \<in> set (workers s). w \<noteq> Done")
    case True
    then show ?thesis using ssort_progress [OF inv] assms(5) by simp
  next
    case False
    have len: "length (workers s) = P" "length (outarr s) = length input" using inv by (simp_all add: ssort_inv_def)
    have "slice_ok ss input (outarr s) p (length (part ss input p))" if "p < P" for p
      using ssort_invD(1) [OF inv that] False that len by (metis nth_mem worker_ok.simps(7))
    then have "take (length input) (outarr s) = sort input" using slices_concat [of P ss input "outarr s"] n len all by simp
    then show ?thesis using False len by simp
  qed
qed

theorem sample_sort_correct_witness:
  "\<exists>samples s t. ssort_step 0 [2, 1] samples s t \<and> spurious t = 0 \<and> s = ssort_start [2, 1] 1 \<and> fill_samples 0 [2, 1] 1 [] = Some samples"
proof -
  obtain samples where f: "fill_samples 0 [2, 1] (int 1) [] = Some samples"
    by (auto simp: fill_samples_def copy_rand_values_def Let_def)
  have "(\<exists>t. ssort_step 0 [2, 1] samples (ssort_start [2, 1] 1) t \<and> spurious t = 0)
      \<or> (\<forall>w \<in> set (workers (ssort_start [2, 1] 1)). w = Done) \<and> outarr (ssort_start [2, 1] 1) = sort [2, 1]"
    by (rule sample_sort_correct [OF f]) (simp_all add: FLT_MAX_def ssort_start_def)
  then show ?thesis using f by (auto simp: ssort_start_def)
qed

end
