(* ===== verification/Quicksort_C.thy ===== *)
theory Quicksort_C
  imports Prelude
begin

text \<open>
  The in-place quicksort of \<open>hw03/unnas-hw03/quicksort.c\<close>. The array is a list, indices are
  integers as in the code. The result is compared with the library's \<open>sort\<close>.
\<close>

section \<open>quicksort.c\<close>

definition swap :: "int list \<Rightarrow> int \<Rightarrow> int \<Rightarrow> int list" where
  "swap xs ii jj =
     (if ii \<noteq> jj then
        let tmp = xs ! nat ii; xs = xs[nat ii := xs ! nat jj]
        in xs[nat jj := tmp]
      else xs)"

function partition_loop :: "int list \<Rightarrow> int \<Rightarrow> int \<Rightarrow> int \<Rightarrow> int \<Rightarrow> int list \<times> int" where
  "partition_loop xs pivot ii jj hi =
     (if jj < hi - 1 then
        if xs ! nat jj < pivot then partition_loop (swap xs ii jj) pivot (ii + 1) (jj + 1) hi
        else partition_loop xs pivot ii (jj + 1) hi
      else (xs, ii))"
  by pat_completeness auto
termination by (relation "measure (\<lambda>(xs, pivot, ii, jj, hi). nat (hi - jj))") auto

declare partition_loop.simps [simp del]

definition partition_array :: "int list \<Rightarrow> int \<Rightarrow> int \<Rightarrow> int list \<times> int" where
  "partition_array xs lo hi =
     (let pivot = xs ! nat (hi - 1); (ys, ii) = partition_loop xs pivot lo lo hi
      in (swap ys ii (hi - 1), ii))"

lemma partition_loop_bounds:
  "ii \<le> jj \<Longrightarrow> jj \<le> hi - 1 \<Longrightarrow> partition_loop xs pivot ii jj hi = (ys, p) \<Longrightarrow> ii \<le> p \<and> p \<le> hi - 1"
proof (induction xs pivot ii jj hi arbitrary: ys p rule: partition_loop.induct)
  case (1 xs pivot ii jj hi)
  show ?case
  proof (cases "jj < hi - 1")
    case True
    show ?thesis
    proof (cases "xs ! nat jj < pivot")
      case less: True
      have "ii + 1 \<le> p \<and> p \<le> hi - 1"
        by (rule "1.IH"(1)) (use True less "1.prems" partition_loop.simps [of xs pivot ii jj hi] in auto)
      then show ?thesis by simp
    next
      case False
      show ?thesis
        by (rule "1.IH"(2)) (use True False "1.prems" partition_loop.simps [of xs pivot ii jj hi] in auto)
    qed
  next
    case False
    then show ?thesis using "1.prems" partition_loop.simps [of xs pivot ii jj hi] by auto
  qed
qed

lemma partition_array_bounds:
  assumes "lo < hi" and "partition_array xs lo hi = (ys, pp)"
  shows "lo \<le> pp \<and> pp < hi"
proof -
  obtain zs ii where l: "partition_loop xs (xs ! nat (hi - 1)) lo lo hi = (zs, ii)"
    by (cases "partition_loop xs (xs ! nat (hi - 1)) lo lo hi")
  then have "pp = ii" using assms(2) by (simp add: partition_array_def)
  then show ?thesis using partition_loop_bounds [OF _ _ l] assms(1) by simp
qed

function quicksort :: "int list \<Rightarrow> int \<Rightarrow> int \<Rightarrow> int list" where
  "quicksort xs lo hi =
     (if hi - lo < 1 then xs
      else case partition_array xs lo hi of (ys, pp) \<Rightarrow> quicksort (quicksort ys lo pp) (pp + 1) hi)"
  by pat_completeness auto
termination
proof (relation "measure (\<lambda>(xs, lo, hi). nat (hi - lo))", goal_cases)
  case (2 xs lo hi ys pp)
  then have "lo \<le> pp \<and> pp < hi" using partition_array_bounds [of lo hi xs ys pp] by simp
  then show ?case by simp
next
  case (3 xs lo hi ys pp)
  then have "lo \<le> pp \<and> pp < hi" using partition_array_bounds [of lo hi xs ys pp] by simp
  then show ?case by simp
qed simp

declare quicksort.simps [simp del]

section \<open>Partitioning\<close>

lemma length_swap [simp]: "length (swap xs i j) = length xs"
  by (simp add: swap_def Let_def)

lemma nth_swap:
  assumes "0 \<le> i" "i < int (length xs)" "0 \<le> j" "j < int (length xs)" "0 \<le> k" "k < int (length xs)"
  shows "swap xs i j ! nat k = (if k = i then xs ! nat j else if k = j then xs ! nat i else xs ! nat k)"
  using assms by (auto simp: swap_def Let_def nth_list_update nat_eq_iff)

lemma mset_swap_array:
  assumes "0 \<le> i" "i < int (length xs)" "0 \<le> j" "j < int (length xs)"
  shows "mset (swap xs i j) = mset xs"
proof (cases "i = j")
  case False
  then show ?thesis using assms mset_swap [of "nat j" xs "nat i"] by (simp add: swap_def Let_def nat_less_iff)
qed (simp add: swap_def)

text \<open>What both routines keep: a permutation that touches only the indices from \<open>lo\<close> up to \<open>hi\<close>.\<close>

definition permutes_segment :: "int \<Rightarrow> int \<Rightarrow> int list \<Rightarrow> int list \<Rightarrow> bool" where
  "permutes_segment lo hi xs ys \<longleftrightarrow> length ys = length xs \<and> mset ys = mset xs
     \<and> (\<forall>k. 0 \<le> k \<longrightarrow> k < lo \<or> hi \<le> k \<longrightarrow> k < int (length xs) \<longrightarrow> ys ! nat k = xs ! nat k)"

lemma permutes_segment_refl: "permutes_segment lo hi xs xs"
  by (simp add: permutes_segment_def)

lemma permutes_segment_trans:
  "permutes_segment lo hi xs ys \<Longrightarrow> permutes_segment lo hi ys zs \<Longrightarrow> permutes_segment lo hi xs zs"
  by (simp add: permutes_segment_def)

lemma permutes_segment_mono:
  "permutes_segment lo hi xs ys \<Longrightarrow> lo' \<le> lo \<Longrightarrow> hi \<le> hi' \<Longrightarrow> permutes_segment lo' hi' xs ys"
  by (auto simp: permutes_segment_def)

lemma permutes_segment_swap:
  assumes "0 \<le> lo" "lo \<le> i" "i < hi" "lo \<le> j" "j < hi" "hi \<le> int (length xs)"
  shows "permutes_segment lo hi xs (swap xs i j)"
proof -
  have ij: "0 \<le> i" "i < int (length xs)" "0 \<le> j" "j < int (length xs)" using assms by auto
  have "swap xs i j ! nat k = xs ! nat k" if "0 \<le> k" "k < lo \<or> hi \<le> k" "k < int (length xs)" for k
    using nth_swap [OF ij that(1,3)] that(2) assms by auto
  then show ?thesis using mset_swap_array [OF ij] by (simp add: permutes_segment_def)
qed

lemma segment_values:
  assumes "permutes_segment lo hi xs ys" "0 \<le> lo" "lo \<le> hi" "hi \<le> int (length xs)" "lo \<le> k" "k < hi"
  obtains l where "lo \<le> l" "l < hi" "ys ! nat k = xs ! nat l"
proof -
  define a n where "a = nat lo" and "n = nat hi - nat lo"
  have len: "length ys = length xs" "a + n \<le> length xs" using assms by (auto simp: permutes_segment_def a_def n_def)
  have cut: "zs = take a zs @ take n (drop a zs) @ drop (a + n) zs" for zs :: "int list"
    by (metis append_take_drop_id drop_drop add.commute)
  have same: "ys ! i = xs ! i" if "i < length xs" "i < a \<or> a + n \<le> i" for i
  proof -
    have "ys ! nat (int i) = xs ! nat (int i)"
      using assms(1,3) that unfolding permutes_segment_def a_def n_def by (metis assms(2) le_add_diff_inverse linorder_not_le nat_int nat_le_iff nat_mono of_nat_0_le_iff of_nat_less_iff zless_nat_eq_int_zless)
    then show ?thesis by simp
  qed
  have "take a ys = take a xs" "drop (a + n) ys = drop (a + n) xs"
    using len same by (auto intro!: nth_equalityI)
  moreover have "mset ys = mset xs" using assms(1) by (simp add: permutes_segment_def)
  ultimately have "mset (take n (drop a ys)) = mset (take n (drop a xs))"
    using arg_cong [OF cut [of ys], of mset] arg_cong [OF cut [of xs], of mset] by simp
  then have eq: "set (take n (drop a ys)) = set (take n (drop a xs))" by (metis set_mset_mset)
  have "ys ! nat k \<in> set (take n (drop a ys))"
  proof -
    have "nat k - a < n" "a + (nat k - a) = nat k" using assms by (auto simp: a_def n_def)
    then show ?thesis using len by (metis in_set_conv_nth length_drop length_take min.absorb2 nth_drop nth_take add_leE le_diff_conv2 add.commute le_add1)
  qed
  then obtain i where "i < n" "xs ! (a + i) = ys ! nat k" using eq len by (auto simp: in_set_conv_nth)
  then show thesis using that [of "lo + int i"] assms(2,3) by (simp add: a_def n_def nat_add_distrib)
qed

lemma partition_loop_correct:
  assumes "0 \<le> lo" "lo \<le> ii" "ii \<le> jj" "jj \<le> hi - 1" "hi \<le> int (length xs)"
    and "\<forall>k. lo \<le> k \<longrightarrow> k < ii \<longrightarrow> xs ! nat k < pivot" and "\<forall>k. ii \<le> k \<longrightarrow> k < jj \<longrightarrow> pivot \<le> xs ! nat k"
    and "partition_loop xs pivot ii jj hi = (ys, p)"
  shows "permutes_segment lo (hi - 1) xs ys \<and> ii \<le> p \<and> p \<le> hi - 1
       \<and> (\<forall>k. lo \<le> k \<longrightarrow> k < p \<longrightarrow> ys ! nat k < pivot) \<and> (\<forall>k. p \<le> k \<longrightarrow> k < hi - 1 \<longrightarrow> pivot \<le> ys ! nat k)"
  using assms
proof (induction xs pivot ii jj hi arbitrary: ys p rule: partition_loop.induct)
  case (1 xs pivot ii jj hi)
  show ?case
  proof (cases "jj < hi - 1")
    case False
    then show ?thesis using "1.prems" partition_loop.simps [of xs pivot ii jj hi] by (auto simp: permutes_segment_refl)
  next
    case True
    note step = partition_loop.simps [of xs pivot ii jj hi]
    show ?thesis
    proof (cases "xs ! nat jj < pivot")
      case False
      show ?thesis
      proof (rule "1.IH"(2) [OF True False "1.prems"(1,2)])
        show "\<forall>k. ii \<le> k \<longrightarrow> k < jj + 1 \<longrightarrow> pivot \<le> xs ! nat k"
          using False "1.prems"(7) by (metis linorder_not_le zless_add1_eq)
      qed (use True False "1.prems" step in auto)
    next
      case less: True
      have nth: "swap xs ii jj ! nat k = (if k = ii then xs ! nat jj else if k = jj then xs ! nat ii else xs ! nat k)"
        if "0 \<le> k" "k < int (length xs)" for k using "1.prems" True that by (intro nth_swap) auto
      have ps: "permutes_segment lo (hi - 1) xs (swap xs ii jj)" using "1.prems" True by (intro permutes_segment_swap) auto
      have "permutes_segment lo (hi - 1) (swap xs ii jj) ys \<and> ii + 1 \<le> p \<and> p \<le> hi - 1
         \<and> (\<forall>k. lo \<le> k \<longrightarrow> k < p \<longrightarrow> ys ! nat k < pivot) \<and> (\<forall>k. p \<le> k \<longrightarrow> k < hi - 1 \<longrightarrow> pivot \<le> ys ! nat k)"
      proof (rule "1.IH"(1) [OF True less "1.prems"(1)])
        show "\<forall>k. lo \<le> k \<longrightarrow> k < ii + 1 \<longrightarrow> swap xs ii jj ! nat k < pivot"
          using "1.prems" True less by (auto simp: nth)
        show "\<forall>k. ii + 1 \<le> k \<longrightarrow> k < jj + 1 \<longrightarrow> pivot \<le> swap xs ii jj ! nat k"
          using "1.prems" True by (auto simp: nth)
      qed (use True less "1.prems" step in auto)
      then show ?thesis using permutes_segment_trans [OF ps] by auto
    qed
  qed
qed

lemma partition_array_correct:
  assumes "0 \<le> lo" "lo < hi" "hi \<le> int (length xs)" and "partition_array xs lo hi = (ys, pp)"
  shows "permutes_segment lo hi xs ys \<and> lo \<le> pp \<and> pp < hi
       \<and> (\<forall>k. lo \<le> k \<longrightarrow> k < pp \<longrightarrow> ys ! nat k < ys ! nat pp) \<and> (\<forall>k. pp < k \<longrightarrow> k < hi \<longrightarrow> ys ! nat pp \<le> ys ! nat k)"
proof -
  define pivot where "pivot = xs ! nat (hi - 1)"
  obtain zs p where l: "partition_loop xs pivot lo lo hi = (zs, p)" by (cases "partition_loop xs pivot lo lo hi")
  have pp: "p = pp" and ys: "ys = swap zs pp (hi - 1)"
    using assms(4) l by (auto simp: partition_array_def pivot_def)
  have c: "permutes_segment lo (hi - 1) xs zs \<and> lo \<le> p \<and> p \<le> hi - 1
       \<and> (\<forall>k. lo \<le> k \<longrightarrow> k < p \<longrightarrow> zs ! nat k < pivot) \<and> (\<forall>k. p \<le> k \<longrightarrow> k < hi - 1 \<longrightarrow> pivot \<le> zs ! nat k)"
    by (rule partition_loop_correct [OF _ _ _ _ _ _ _ l]) (use assms in auto)
  have len: "length zs = length xs" using c by (simp add: permutes_segment_def)
  have piv: "zs ! nat (hi - 1) = pivot" using c assms by (simp add: permutes_segment_def pivot_def)
  have nth: "ys ! nat k = (if k = pp then pivot else if k = hi - 1 then zs ! nat pp else zs ! nat k)"
    if "0 \<le> k" "k < hi" for k
    unfolding ys piv [symmetric] using c assms that len pp by (intro nth_swap) auto
  have "permutes_segment lo hi zs ys" unfolding ys using c assms len pp by (intro permutes_segment_swap) auto
  then have "permutes_segment lo hi xs ys" using c permutes_segment_mono [of lo "hi - 1" xs zs lo hi]
    by (auto intro: permutes_segment_trans)
  moreover have "ys ! nat k < ys ! nat pp" if "lo \<le> k" "k < pp" for k using that c assms pp by (simp add: nth)
  moreover have "ys ! nat pp \<le> ys ! nat k" if "pp < k" "k < hi" for k
    using that c assms pp by (cases "k = hi - 1") (simp_all add: nth)
  ultimately show ?thesis using c pp by auto
qed

section \<open>Sorting\<close>

definition sorted_segment :: "int \<Rightarrow> int \<Rightarrow> int list \<Rightarrow> bool" where
  "sorted_segment lo hi xs \<longleftrightarrow> (\<forall>i j. lo \<le> i \<longrightarrow> i \<le> j \<longrightarrow> j < hi \<longrightarrow> xs ! nat i \<le> xs ! nat j)"

lemma quicksort_segment:
  "0 \<le> lo \<Longrightarrow> hi \<le> int (length xs) \<Longrightarrow> permutes_segment lo hi xs (quicksort xs lo hi)
     \<and> sorted_segment lo hi (quicksort xs lo hi)"
proof (induction "nat (hi - lo)" arbitrary: xs lo hi rule: less_induct)
  case less
  show ?case
  proof (cases "hi - lo < 1")
    case True
    then have "quicksort xs lo hi = xs" by (subst quicksort.simps) simp
    then show ?thesis using True by (auto simp: permutes_segment_refl sorted_segment_def)
  next
    case False
    obtain ys pp where p: "partition_array xs lo hi = (ys, pp)" by (cases "partition_array xs lo hi")
    have c: "permutes_segment lo hi xs ys" "lo \<le> pp" "pp < hi" and
      small: "\<forall>k. lo \<le> k \<longrightarrow> k < pp \<longrightarrow> ys ! nat k < ys ! nat pp" and big: "\<forall>k. pp < k \<longrightarrow> k < hi \<longrightarrow> ys ! nat pp \<le> ys ! nat k"
      using partition_array_correct [OF less.prems(1) _ less.prems(2) p] False by simp_all
    have lys: "length ys = length xs" using c(1) by (simp add: permutes_segment_def)
    define zs where "zs = quicksort ys lo pp"
    define ws where "ws = quicksort zs (pp + 1) hi"
    have left: "permutes_segment lo pp ys zs" "sorted_segment lo pp zs"
      using less.hyps [of pp lo ys] less.prems c lys by (auto simp: zs_def)
    have lzs: "length zs = length xs" using left(1) lys by (simp add: permutes_segment_def)
    have right: "permutes_segment (pp + 1) hi zs ws" "sorted_segment (pp + 1) hi ws"
      using less.hyps [of hi "pp + 1" zs] less.prems c lzs by (auto simp: ws_def)
    have q: "quicksort xs lo hi = ws" using False p by (subst quicksort.simps) (simp add: zs_def ws_def)
    have keep: "ws ! nat k = zs ! nat k" if "0 \<le> k" "k \<le> pp" for k
      using right(1) that c(3) less.prems(2) lzs unfolding permutes_segment_def by auto
    have keep2: "zs ! nat k = ys ! nat k" if "pp \<le> k" "k < hi" for k
      using left(1) that c(2) less.prems lys unfolding permutes_segment_def by auto
    have lo_part: "ws ! nat k < ys ! nat pp" if k: "lo \<le> k" "k < pp" for k
    proof -
      obtain l where "lo \<le> l" "l < pp" "zs ! nat k = ys ! nat l"
        using segment_values [OF left(1) less.prems(1) c(2) _ k] c(3) less.prems(2) lys by auto
      then show ?thesis using small keep [of k] k less.prems(1) by simp
    qed
    have hi_part: "ys ! nat pp \<le> ws ! nat k" if k: "pp < k" "k < hi" for k
    proof -
      obtain l where "pp + 1 \<le> l" "l < hi" "ws ! nat k = zs ! nat l"
        using segment_values [OF right(1), of k] c less.prems lzs k by auto
      then show ?thesis using big keep2 [of l] by auto
    qed
    have mid: "ws ! nat pp = ys ! nat pp" using keep [of pp] keep2 [of pp] c less.prems(1) by simp
    have "ws ! nat i \<le> ws ! nat j" if ij: "lo \<le> i" "i \<le> j" "j < hi" for i j
    proof -
      consider "j < pp" | "pp < i" | "i = pp" "j = pp" | "i < pp" "pp \<le> j" | "i = pp" "pp < j" using ij by linarith
      then show ?thesis
      proof cases
        case 1
        then show ?thesis using left(2) keep [of i] keep [of j] ij less.prems(1) by (simp add: sorted_segment_def)
      next
        case 2
        then show ?thesis using right(2) ij by (simp add: sorted_segment_def)
      next
        case 4
        then have "ys ! nat pp \<le> ws ! nat j" using hi_part [of j] mid ij by (cases "j = pp") auto
        then show ?thesis using lo_part [of i] 4 ij by simp
      next
        case 5
        then show ?thesis using hi_part [of j] mid ij by simp
      qed simp
    qed
    then have "sorted_segment lo hi ws" by (simp add: sorted_segment_def)
    moreover have "permutes_segment lo hi xs ws"
      using c permutes_segment_mono [OF left(1), of lo hi] permutes_segment_mono [OF right(1), of lo hi]
      by (meson permutes_segment_trans less_imp_le order_refl add_increasing2 zero_le_one)
    ultimately show ?thesis by (simp add: q)
  qed
qed

text \<open>C31: Sorting the whole array gives exactly the sorted permutation of it, for every array
  (the recursion always terminates, also with equal elements and on the empty array).\<close>

theorem quicksort_sorts: "quicksort xs 0 (int (length xs)) = sort xs"
proof (rule properties_for_sort [symmetric])
  let ?ys = "quicksort xs 0 (int (length xs))"
  have c: "permutes_segment 0 (int (length xs)) xs ?ys" "sorted_segment 0 (int (length xs)) ?ys"
    using quicksort_segment [of 0 "int (length xs)" xs] by simp_all
  show "mset ?ys = mset xs" using c(1) by (simp add: permutes_segment_def)
  have "?ys ! i \<le> ?ys ! j" if "i \<le> j" "j < length ?ys" for i j
    using c that unfolding sorted_segment_def permutes_segment_def
    by (metis nat_int of_nat_0_le_iff of_nat_le_iff of_nat_less_iff)
  then show "sorted ?ys" by (simp add: sorted_iff_nth_mono)
qed

end
