(* ===== verification/Spec2Isabelle.thy ===== *)
theory Spec2Isabelle
  imports Hw04 Umalloc Nufs_Mount Hwx_Malloc Ch02_Bench Nush Xv6_File Xv6_Vm Xv6_Proc Xv6_Bio Xv6_Sh_Run Xv6_Console Xv6_Spinlock Sample_Sort Quicksort_C
begin

text \<open>
  Verification of the programs of a computer systems course: a FUSE file system, memory
  allocators, sorting programs and the xv6 kernel.

  \<^bold>\<open>The programs and their models.\<close> Each group of theories models one program; the definitions
  carry the names of the C functions and stand in the order of the source.

  \<^item> \<open>hw10/unnas-fshw\<close>, the nufs file system. The image is a byte memory. \<open>Nufs_Pages\<close> has the
    bitmaps, the pages and the arithmetic of \<open>util.h\<close> (\<open>bitmap.c\<close>, \<open>pages.c\<close>); \<open>Nufs_Inode\<close> has
    \<open>inode.c\<close> (allocating, growing and shrinking inodes); \<open>Nufs_Directory\<close> has the path lists and directories
    (\<open>slist.c\<close>, \<open>directory.c\<close>); \<open>Nufs_Storage\<close> has \<open>storage.c\<close>; \<open>Nufs_Mount\<close> has the callbacks of
    \<open>nufsmount.c\<close>. Each calls the ones before it.
  \<^item> \<open>hw08/unnas-hw08\<close> and \<open>ch02/challenge02\<close>, three allocators over one coalescing free list that lives in
    the free blocks themselves. \<open>Free_List\<close> holds the list code with the offset of the link field as an
    argument and the abstract list of gaps; \<open>Hmalloc\<close> is \<open>hmalloc.c\<close>; \<open>Hwx_Malloc\<close> adds the lock and
    \<open>xrealloc\<close> of \<open>hwx_malloc.c\<close> and the two lists of \<open>opt_malloc.c\<close>. \<open>Ch02_Bench\<close> has the benchmark programs of the challenge
    (\<open>list_main.c\<close>, \<open>ivec_main.c\<close> with \<open>list.h\<close> and \<open>ivec.h\<close>, parts of \<open>frag_main.c\<close>).
  \<^item> \<open>hw09/unnas-hw09/xv6\<close>, parts of the kernel: \<open>Xv6_Log\<close> (\<open>log.c\<close>), \<open>Xv6_Fs\<close> (\<open>fs.c\<close>, on the log),
    \<open>Xv6_File\<close> (\<open>file.c\<close>, \<open>sysfile.c\<close> and the descriptors of \<open>fork\<close> and \<open>exit\<close>, on \<open>Xv6_Fs\<close> and \<open>Xv6_Pipe\<close>),
    \<open>Xv6_Pipe\<close> (\<open>pipe.c\<close>), \<open>Xv6_Bio\<close> (\<open>bio.c\<close>, \<open>sleeplock.c\<close>, \<open>memide.c\<close>), \<open>Xv6_Proc\<close> (the process table of \<open>proc.c\<close>),
    \<open>Xv6_String\<close> (\<open>string.c\<close>, \<open>ulib.c\<close>), \<open>Xv6_Kalloc\<close> (\<open>kalloc.c\<close>, which fills pages with \<open>memset\<close>), \<open>Xv6_Vm\<close> (the page
    tables of \<open>vm.c\<close>, in pages of \<open>Xv6_Kalloc\<close>), \<open>Xv6_Spinlock\<close> (\<open>spinlock.c\<close>), \<open>Xv6_Console\<close> (\<open>console.c\<close>), and the shell
    \<open>sh.c\<close>: its parser in \<open>Xv6_Sh\<close>, running commands and the main loop in \<open>Xv6_Sh_Run\<close>. \<open>Xv6_User\<close> has the user programs
    \<open>grep.c\<close>, \<open>wc.c\<close>, \<open>cat.c\<close>, \<open>echo.c\<close> and the library's \<open>printf.c\<close>; \<open>Umalloc\<close> has the library's allocator \<open>umalloc.c\<close>
    and its copy with a lock, \<open>xv6_malloc.c\<close> of \<open>ch02/challenge02\<close>.
  \<^item> \<open>hw07/unnas-hw07\<close>, the sample sort with threads: \<open>Sample_Sort\<close>. \<open>hw03/unnas-hw03\<close>, the in-place
    quicksort: \<open>Quicksort_C\<close>.
  \<^item> \<open>ch01/challenge01\<close>, the shell nush: \<open>Nush\<close> (\<open>svec.c\<close>, \<open>tokenize.c\<close>, \<open>execute_tokens.c\<close>, \<open>nush.c\<close>), with the
    processes it starts as a list of events.
  \<^item> \<open>hw04/unnas-hw04\<close>, vectors, a hash map and two word programs: \<open>Hw04\<close>.

  \<^bold>\<open>Conventions.\<close> \<open>Prelude\<close> has C integers, bytes and the byte memory. A read or write outside the
  object, a failed assertion, a panic and a wait that only another process can end have no result (\<open>None\<close>); an
  error code is a value. A C \<open>int\<close> that is stored wraps to 32 bits (\<open>cint\<close>), a \<open>size_t\<close> to 64 bits, the counters of a
  pipe are 32-bit words. The interface \<open>typed_access\<close> (how a read of a typed field sees a write) is interpreted for
  bytes, 32-bit and 64-bit fields; \<open>block_allocator\<close> (what a client of an allocator relies on) is interpreted
  for both \<open>hmalloc.c\<close> and \<open>hwx_malloc.c\<close>; \<open>ring_size\<close> (ring buffers between
  counters that wrap, in \<open>Ring\<close>) is interpreted for the pipe and the console; \<open>trace\<close> (what the benchmark threads rely on) for
  linked lists and for vectors. Loops are recursive functions with termination proofs; only
  the loops that search for a NUL byte and those of \<open>vm.c\<close> that step through addresses, which wrap, can run for ever and are
  partial functions, and so are the sort of \<open>length-sort.c\<close>, which is proved to end on every vector, and the searches of \<open>umalloc.c\<close>, which are
  proved to end on every well-formed ring. No fuel is used.

  \<^bold>\<open>What is shown.\<close>

  \<^item> nufs: page and inode allocation, growth of a file, inserting, finding and deleting directory
    entries, creating a file and the round trip of a write and a read; formatting gives an empty root.
    Four theorems show inputs on which the code goes wrong.
  \<^item> Allocators: a block has its own bytes, no free byte is lost, a second allocation never overlaps the first, freeing
    a block of less than a page undoes allocating it, \<open>xrealloc\<close> keeps the content when it moves a block (and when it keeps one that is too small, or
    faults). Two theorems show corrupted lists. The ring of \<open>umalloc.c\<close> (\<open>ring\<close>) stays ordered
    and merged, both of its searches end, and no free unit is lost.
  \<^item> Benchmarks: under every interleaving of threads (\<open>scan_step\<close>) the step counts and the maximum are those of the Collatz iteration.
  \<^item> Log: recovery after a crash at any moment of a commit finds all of the transaction or nothing, recovery can
    be repeated, concurrent calls within their budgets overflow the log exactly when its area has only \<open>LOGSIZE\<close> blocks and 29 are logged,
    and never wait for ever. The step
    relation \<open>log_step\<close> lets any number of calls interleave.
  \<^item> File system: the first free block is allocated, the inode cache counts references exactly under every
    sequence of operations (\<open>fs_step\<close>), path elements are split correctly; together with the log, allocating a
    block is atomic under crashes (below).
  \<^item> Open files: no file system call, fork or exit leaks or loses a reference (\<open>sys_step\<close>), as long as the counters that
    \<open>iostats_alloc\<close> places behind the file table (\<open>iomem\<close>) lie in memory that nothing else uses (\<open>behind\<close>, which the linker decides); the proofs compose rules
    that say what each routine adds to or takes from the counts (the collection \<open>wp\<close>).
  \<^item> Buffer cache: through any interleaving of processes (\<open>bstep\<close>) a filled buffer shows the data last put into
    its block, and a buffer in use is never recycled; a miss takes the least recently used free buffer.
  \<^item> Process table: \<open>proc_step\<close> interleaves the five steps of fork, exit, wait, kill, sleep, wakeup and the scheduler; a process is
    running exactly when one processor runs it, every child has a live parent, every embryo belongs to one process in fork, and no wakeup of a
    waiting parent is lost.
  \<^item> Spin locks: any number of processors (\<open>lk_step\<close>), cut at each access to a lock, exclude each other and have interrupts off.
  \<^item> Console: keys and reads implement a line editor (\<open>key_spec\<close>, \<open>read_spec\<close>); the cursor stays on the screen.
  \<^item> Pipes are first-in first-out under every interleaving (\<open>pipe_step\<close>), also when the counters wrap; the page
    allocator, from boot on (\<open>kinit1\<close>, \<open>kinit2\<close>), never hands out a page in use (\<open>kmem_step\<close>); \<open>memmove\<close> is right for overlapping regions.
  \<^item> Address spaces: an address space (\<open>space\<close>) owns a directory, page tables and user pages, all different and none of
    them free. Growing a process maps fresh zeroed pages or undoes its work, freeing an address space gives back
    all of its pages, and a copy to user memory reaches the right bytes across page boundaries.
  \<^item> Sorting: the threads of the sample sort never deadlock and leave the sorted input in their array under every
    interleaving (\<open>ssort_step\<close>) in which no thread wakes up spuriously at the barrier; their output file loses its first element; quicksort terminates and is the library's \<open>sort\<close>.
  \<^item> xv6 shell: the parser, a recursive descent in place, stops on every line without leaving its buffer, and undoes printing;
    the programs of a command are started with the right standard input and output, and no descriptor leaks
    if the console can be opened at the start.
    What a routine of the parser promises is stated with \<open>yields\<close>; the four mutually recursive routines return behind their start (\<open>parse_dom\<close>), which
    gives their termination.
  \<^item> User programs: the pattern matcher of \<open>grep\<close> is exact (\<open>found\<close> states what a pattern means), \<open>grep\<close> writes the matching lines of a file,
    \<open>wc\<close> counts, printed numbers read back.
  \<^item> Word programs (\<open>hw04\<close>): the sort by length ends and sorts; \<open>length-sort\<close> as a whole prints its last line again and again, \<open>top-triples\<close> aborts.
  \<^item> Shell nush: every line is split into its tokens by the maximal-munch rule (\<open>splits\<close>); a conjunction replaces the shell process.

  \<^bold>\<open>Not modelled.\<close> Printing, argument handling and timing; the FUSE library, \<open>mmap\<close> (a parameter: the
  addresses it returns), which addresses a \<open>memcpy\<close> beyond its block can read (a parameter), pthreads beyond the lock and the barrier. Of xv6: hardware drivers, traps, processor registers, system call entry
  and the user programs that only make a system call; the model of the log reads and writes blocks directly, not through the model of the buffer cache. What \<open>top-triples\<close> of \<open>hw04\<close> does after counting, the tokenizer of \<open>hw05\<close> (an earlier version of that of
  \<open>ch01\<close>) and the unfinished sample sort of \<open>hw06\<close>. Test programs, hints and notes are not part of any model.
\<close>

section \<open>The file system on the log\<close>

lemma log_ready_fs_write:
  assumes "fs_log_write s b d = Some s'" and "log_ready (xlg s)" and "is_cint b"
    and "b \<notin> log_area (log_start (xlg s)) (log_size (xlg s))"
  shows "log_ready (xlg s')" and "log_start (xlg s') = log_start (xlg s)" and "log_size (xlg s') = log_size (xlg s)"
    and "xdisk (xlg s') = xdisk (xlg s)" and "history (xlg s') = history (xlg s)" and "lh (xlg s') \<noteq> []"
proof -
  obtain l where l: "log_write (xlg s) b d = Some l" "s' = s\<lparr>xlg := l\<rparr>" using assms(1) by (auto simp: fs_log_write_def)
  show "log_ready (xlg s')" using log_ready_write [OF l(1) assms(2-4)] l(2) by simp
  show "log_start (xlg s') = log_start (xlg s)" "log_size (xlg s') = log_size (xlg s)"
    "xdisk (xlg s') = xdisk (xlg s)" "history (xlg s') = history (xlg s)" "lh (xlg s') \<noteq> []"
    using l by (auto simp: log_write_def Let_def split: if_splits)
qed

text \<open>Allocation makes two logged writes: the bitmap block and the block itself.\<close>

lemma balloc_from_writes:
  assumes "balloc_from s b = Some (r, s')" and "b mod BPB = 0"
  shows "\<exists>t d. fs_log_write s (BBLOCK r (sb s)) d = Some t \<and> fs_log_write t r (\<lambda>_. 0) = Some s'"
  using assms
proof (induction s b rule: balloc_from.induct)
  case (1 s b)
  have lt: "b < sb_size (sb s)" using "1.prems"(1) balloc_from.simps [of s b] by (auto split: if_splits)
  show ?case
  proof (cases "find_free_bit (bread s (BBLOCK b (sb s))) b 0 (sb_size (sb s))")
    case None
    show ?thesis
      by (rule "1.IH" [OF lt refl refl None]) (use "1.prems" balloc_from.simps [of s b] None lt in \<open>auto simp: BPB_def Let_def\<close>)
  next
    case (Some k)
    have "0 \<le> k \<and> k < BPB" using find_free_bit_spec [where bi = 0 and buf = "bread s (BBLOCK b (sb s))" and b = b and sz = "sb_size (sb s)"] Some by simp
    then have "BBLOCK (b + k) (sb s) = BBLOCK b (sb s)" using block_of_bit(1) [OF "1.prems"(2)] by simp
    moreover obtain t where "r = b + k" "fs_log_write t (b + k) (\<lambda>_. 0) = Some s'"
      "fs_log_write s (BBLOCK b (sb s)) ((bread s (BBLOCK b (sb s)))
         (k div 8 := bread s (BBLOCK b (sb s)) (k div 8) OR bit_mask k)) = Some t"
      using "1.prems"(1) balloc_from.simps [of s b] Some lt by (auto simp: Let_def bzero_def bind_eq_Some_conv)
    ultimately show ?thesis by metis
  qed
qed

text \<open>C38: Allocating a block is atomic: when the transaction that holds it commits, a crash at any moment leaves
  a disk from which recovery restores, on all data blocks, either the state before the allocation or the state
  after it, never a marked block without its zeroed content or the reverse.\<close>

theorem balloc_atomic:
  assumes "log_ready (xlg s)" and "lh (xlg s) = []" and "balloc s = Some (r, s')"
    and "\<forall>b \<in> {r, BBLOCK r (sb s)}. is_cint b \<and> b \<notin> log_area (log_start (xlg s)) (log_size (xlg s))"
    and "history (commit (xlg s')) = history (xlg s) @ ds" and "d \<in> set ds"
  shows "(\<forall>b. b \<notin> log_area (log_start (xlg s)) (log_size (xlg s)) \<longrightarrow>
             xdisk (initlog d (log_start (xlg s)) (log_size (xlg s))) b = bread s b)
       \<or> (\<forall>b. b \<notin> log_area (log_start (xlg s)) (log_size (xlg s)) \<longrightarrow>
             xdisk (initlog d (log_start (xlg s)) (log_size (xlg s))) b = bread s' b)"
proof -
  define start sz where "start = log_start (xlg s)" and "sz = log_size (xlg s)"
  obtain t c where t: "fs_log_write s (BBLOCK r (sb s)) c = Some t" "fs_log_write t r (\<lambda>_. 0) = Some s'"
    using balloc_from_writes [of s 0 r s'] assms(3) by (auto simp: balloc_def)
  have b: "is_cint r" "r \<notin> log_area start sz" "is_cint (BBLOCK r (sb s))" "BBLOCK r (sb s) \<notin> log_area start sz"
    using assms(4) by (simp_all add: start_def sz_def)
  note w1 = log_ready_fs_write [OF t(1) assms(1) b(3) b(4) [unfolded start_def sz_def]]
  have "r \<notin> log_area (log_start (xlg t)) (log_size (xlg t))" using b(2) w1(2,3) by (simp add: start_def sz_def)
  note w2 = log_ready_fs_write [OF t(2) w1(1) b(1) this]
  have geo: "log_start (xlg s') = start" "log_size (xlg s') = sz" "xdisk (xlg s') = xdisk (xlg s)" "history (xlg s') = history (xlg s)"
    using w1 w2 by (simp_all add: start_def sz_def)
  have old: "bread s b = xdisk (xlg s) b" for b
    using assms(1,2) by (simp add: bread_def log_bread_def log_ready_def)
  obtain xs es where h: "history (commit (xlg s')) = history (xlg s') @ xs @ es @ [xdisk (commit (xlg s'))]"
    "\<forall>d \<in> set xs. logged d start sz [] (xdisk (xlg s))" "\<forall>d \<in> set es. logged d start sz (lh (xlg s')) (bread s')"
    "logged (xdisk (commit (xlg s'))) start sz [] (bread s')"
    using commit_spec [OF w2(1,6)] unfolding geo bread_def [abs_def] by metis
  have lg: "loggable start sz (lh (xlg s'))" using w2(1) geo by (simp add: log_ready_def)
  have "ds = xs @ es @ [xdisk (commit (xlg s'))]" using h(1) assms(5) geo(4) by simp
  then consider "logged d start sz [] (xdisk (xlg s))" | "logged d start sz (lh (xlg s')) (bread s')" | "logged d start sz [] (bread s')"
    using assms(6) h(2-4) by auto
  then show ?thesis unfolding start_def [symmetric] sz_def [symmetric] old
    by cases (use initlog_recovers(1) lg loggable_Nil [OF lg] in auto)
qed

theorem balloc_atomic_witness:
  "\<exists>s' ds. balloc small_fs = Some (0, s') \<and> history (commit (xlg s')) = ds
     \<and> ((\<forall>b. b \<notin> log_area 2 30 \<longrightarrow> xdisk (initlog (last ds) 2 30) b = bread small_fs b)
        \<or> (\<forall>b. b \<notin> log_area 2 30 \<longrightarrow> xdisk (initlog (last ds) 2 30) b = bread s' b))"
proof -
  have lay: "log_start (xlg small_fs) = 2" "log_size (xlg small_fs) = 30" "lh (xlg small_fs) = []"
    "history (xlg small_fs) = []" "BBLOCK 0 (sb small_fs) = 58"
    by (simp_all add: small_fs_def BBLOCK_def)
  have r: "log_ready (xlg small_fs)"
    by (simp add: small_fs_def log_ready_def loggable_def LOGSIZE_def head_blocks_def rd32_def)
  obtain s' where s': "balloc small_fs = Some (0, s')" using small_fs_balloc by blast
  have b: "\<forall>b \<in> {0, BBLOCK 0 (sb small_fs)}. is_cint b \<and> b \<notin> log_area (log_start (xlg small_fs)) (log_size (xlg small_fs))"
    unfolding lay by (simp add: log_area_def)
  obtain t c where t: "fs_log_write small_fs 58 c = Some t" "fs_log_write t 0 (\<lambda>_. 0) = Some s'"
    using balloc_from_writes [of small_fs 0 0 s'] s' by (auto simp: balloc_def lay)
  have "history (commit (xlg s')) \<noteq> []"
  proof -
    note w1 = log_ready_fs_write [OF t(1) r]
    have wt: "log_ready (xlg t)" "log_start (xlg t) = 2" "log_size (xlg t) = 30"
      using w1(1-3) by (simp_all add: lay log_area_def)
    note w2 = log_ready_fs_write [OF t(2) wt(1)]
    have ws: "log_ready (xlg s')" "lh (xlg s') \<noteq> []" using w2(1,6) by (simp_all add: wt log_area_def)
    show ?thesis by (rule commit_spec [OF ws]) simp
  qed
  then have l: "last (history (commit (xlg s'))) \<in> set (history (commit (xlg s')))" by (rule last_in_set)
  have e: "history (commit (xlg s')) = history (xlg small_fs) @ history (commit (xlg s'))" by (simp add: lay)
  show ?thesis using balloc_atomic [OF r lay(3) s' b e l] s' unfolding lay by (intro exI conjI) (assumption | rule refl)+
qed

end
